(* ===== verification/Prelude.thy ===== *)
theory Prelude
  imports Main "HOL-Library.Word" "HOL-Library.Monad_Syntax"
begin

text \<open>
  Shared vocabulary of the development: the machine integers of the LP64 target the code is
  built for, addresses, and the generic lemmas on option-monad programs, list updates and
  words that several components use.
\<close>

unbundle bit_operations_syntax

section \<open>Types\<close>

text \<open>C integers: \<open>unsigned char\<close>, \<open>uint16_t\<close>, \<open>uint32_t\<close>, \<open>unsigned long\<close>.\<close>

type_synonym u8 = "8 word"
type_synonym u16 = "16 word"
type_synonym u32 = "32 word"
type_synonym u64 = "64 word"
type_synonym bytes = "u8 list"

text \<open>Addresses of objects; \<open>0\<close> is \<open>NULL\<close>.\<close>

type_synonym ptr = nat

abbreviation (input) NULL :: ptr where "NULL \<equiv> 0"

section \<open>Collections of simplification rules\<close>

text \<open>
  \<open>prog_defs\<close> collects the one-step definitions a component's proofs unfold together.
\<close>

named_theorems prog_defs
named_theorems word_nat

section \<open>Option-monad programs\<close>

text \<open>A program of type \<open>'a option\<close> is \<open>None\<close> where the C code has undefined behaviour.\<close>

lemma bind_Some_iff:
  "(Option.bind m f = Some y) \<longleftrightarrow> (\<exists>x. m = Some x \<and> f x = Some y)"
  by (cases m) auto

lemma bind_SomeE [elim!]:
  assumes "Option.bind m f = Some y"
  obtains x where "m = Some x" and "f x = Some y"
  using assms by (cases m) auto

definition guard_opt :: "bool \<Rightarrow> unit option" where
  "guard_opt b = (if b then Some () else None)"

lemma guard_opt_simps [simp]: "guard_opt True = Some ()" "guard_opt False = None"
  by (simp_all add: guard_opt_def)

lemma guard_opt_Some [simp]: "guard_opt b = Some u \<longleftrightarrow> b"
  by (simp add: guard_opt_def)

text \<open>A sequence of commands, each a partial step.\<close>

fun run_cmds :: "('c \<Rightarrow> 's \<Rightarrow> 's option) \<Rightarrow> 'c list \<Rightarrow> 's \<Rightarrow> 's option" where
  "run_cmds f [] s = Some s"
| "run_cmds f (c # cs) s = do { s \<leftarrow> f c s; run_cmds f cs s }"

lemma run_cmds_append:
  "run_cmds f (cs @ ds) s = do { s \<leftarrow> run_cmds f cs s; run_cmds f ds s }"
  by (induction cs arbitrary: s) (auto split: bind_split)

section \<open>Words\<close>

lemma unat_add_nowrap:
  fixes a b :: "'a::len word"
  assumes "unat a + unat b < 2 ^ LENGTH('a)"
  shows "unat (a + b) = unat a + unat b"
  using assms by (simp add: unat_word_ariths)

lemma unat_mult_nowrap:
  fixes a b :: "'a::len word"
  assumes "unat a * unat b < 2 ^ LENGTH('a)"
  shows "unat (a * b) = unat a * unat b"
  using assms by (simp add: unat_word_ariths)

lemma unat_sub_nowrap:
  fixes a b :: "'a::len word"
  assumes "unat b \<le> unat a"
  shows "unat (a - b) = unat a - unat b"
  using assms by (simp add: unat_sub word_le_nat_alt)

lemma unat_lt_size: "unat (a :: 'a::len word) < 2 ^ LENGTH('a)"
  by (rule unsigned_less)

section \<open>Lists\<close>

text \<open>Memory as a list of bytes: a copy of \<open>bs\<close> to offset \<open>i\<close>, and one of \<open>n\<close> bytes from \<open>i\<close>.\<close>

definition mem_put :: "nat \<Rightarrow> 'a list \<Rightarrow> 'a list \<Rightarrow> 'a list" where
  "mem_put i bs mem = take i mem @ bs @ drop (i + length bs) mem"

definition mem_get :: "nat \<Rightarrow> nat \<Rightarrow> 'a list \<Rightarrow> 'a list" where
  "mem_get i n mem = take n (drop i mem)"

text \<open>\<open>memcpy\<close> to and from an object: undefined when the object is too small.\<close>

definition mem_write :: "nat \<Rightarrow> 'a list \<Rightarrow> 'a list \<Rightarrow> 'a list option" where
  "mem_write i bs mem = (if i + length bs \<le> length mem then Some (mem_put i bs mem) else None)"

definition mem_read :: "nat \<Rightarrow> nat \<Rightarrow> 'a list \<Rightarrow> 'a list option" where
  "mem_read i n mem = (if i + n \<le> length mem then Some (mem_get i n mem) else None)"

lemma length_mem_put:
  "i + length bs \<le> length mem \<Longrightarrow> length (mem_put i bs mem) = length mem"
  by (simp add: mem_put_def)

lemma length_mem_get [simp]: "length (mem_get i n mem) = min n (length mem - i)"
  by (simp add: mem_get_def)

lemma mem_put_read:
  "i + length bs \<le> length mem \<Longrightarrow> take (length bs) (drop i (mem_put i bs mem)) = bs"
  by (simp add: mem_put_def)

lemma mem_put_prefix: "i \<le> length mem \<Longrightarrow> take i (mem_put i bs mem) = take i mem"
  by (simp add: mem_put_def)

lemma mem_put_suffix:
  "i + length d \<le> n \<Longrightarrow> n \<le> length mem \<Longrightarrow> drop n (mem_put i d mem) = drop n mem"
  by (simp add: mem_put_def)

lemma nth_mem_put:
  assumes "i + length bs \<le> length mem" "j < length mem"
  shows "mem_put i bs mem ! j = (if i \<le> j \<and> j < i + length bs then bs ! (j - i) else mem ! j)"
  using assms by (auto simp: mem_put_def nth_append min_def)

lemma nth_mem_get: "j < n \<Longrightarrow> i + n \<le> length mem \<Longrightarrow> mem_get i n mem ! j = mem ! (i + j)"
  by (simp add: mem_get_def)

lemma mem_get_put_other:
  assumes "i + length bs \<le> length mem" "j + n \<le> length mem" "j + n \<le> i \<or> i + length bs \<le> j"
  shows "mem_get j n (mem_put i bs mem) = mem_get j n mem"
  using assms by (intro nth_equalityI) (auto simp: length_mem_put nth_mem_get nth_mem_put)

lemma mem_get_put_same:
  "i + length bs \<le> length mem \<Longrightarrow> n = length bs \<Longrightarrow> mem_get i n (mem_put i bs mem) = bs"
  by (simp add: mem_get_def mem_put_read)

lemma nth_drop_hd: "i < length xs \<Longrightarrow> drop i xs = xs ! i # drop (Suc i) xs"
  by (rule Cons_nth_drop_Suc [symmetric])

end
