(* ===== verification/Mlist.thy ===== *)
theory Mlist
  imports Prelude
begin

text \<open>
  The intrusive circular doubly linked list of \<open>frameworks/mlib/mlist/mlist.h\<close>.
  Nodes live in a heap, a partial map from addresses to \<open>struct mlist\<close>; reading or writing
  through an unmapped pointer is undefined behaviour, the value \<open>None\<close>. The predicate
  \<open>mring\<close> says that a head and a list of nodes form a circular list, and each operation is
  shown to act on that list as its documentation says.
\<close>

section \<open>Nodes and the heap\<close>

record mlist =
  m_prev :: ptr
  m_next :: ptr

type_synonym mheap = "ptr \<rightharpoonup> mlist"

definition MLIST_POISON :: ptr where "MLIST_POISON = NULL"

definition get_next :: "ptr \<Rightarrow> mheap \<Rightarrow> ptr option" where
  "get_next p h = map_option m_next (h p)"

definition get_prev :: "ptr \<Rightarrow> mheap \<Rightarrow> ptr option" where
  "get_prev p h = map_option m_prev (h p)"

definition set_next :: "ptr \<Rightarrow> ptr \<Rightarrow> mheap \<Rightarrow> mheap option" where
  "set_next p v h = map_option (\<lambda>n. h(p \<mapsto> n\<lparr>m_next := v\<rparr>)) (h p)"

definition set_prev :: "ptr \<Rightarrow> ptr \<Rightarrow> mheap \<Rightarrow> mheap option" where
  "set_prev p v h = map_option (\<lambda>n. h(p \<mapsto> n\<lparr>m_prev := v\<rparr>)) (h p)"

section \<open>Operations\<close>

text \<open>\<open>__mlist_add\<close> and \<open>__mlist_del\<close>: the assignments in the order of the source.\<close>

definition mlist_add_between :: "ptr \<Rightarrow> ptr \<Rightarrow> mheap \<Rightarrow> mheap option" where
  "mlist_add_between head node h = do {
     h \<leftarrow> set_prev node head h;
     n \<leftarrow> get_next head h;
     h \<leftarrow> set_next node n h;
     n \<leftarrow> get_next head h;
     h \<leftarrow> set_prev n node h;
     set_next head node h }"

definition mlist_unlink :: "ptr \<Rightarrow> mheap \<Rightarrow> mheap option" where
  "mlist_unlink node h = do {
     p \<leftarrow> get_prev node h;
     n \<leftarrow> get_next node h;
     h \<leftarrow> set_next p n h;
     n \<leftarrow> get_next node h;
     p \<leftarrow> get_prev node h;
     set_prev n p h }"

definition mlist_init :: "ptr \<Rightarrow> mheap \<Rightarrow> mheap option" where
  "mlist_init head h = do {
     h \<leftarrow> set_next head head h;
     set_prev head head h }"

definition mlist_deinit :: "ptr \<Rightarrow> mheap \<Rightarrow> mheap option" where
  "mlist_deinit head h = do {
     h \<leftarrow> mlist_unlink head h;
     h \<leftarrow> set_next head MLIST_POISON h;
     set_prev head MLIST_POISON h }"

definition mlist_empty :: "ptr \<Rightarrow> mheap \<Rightarrow> bool option" where
  "mlist_empty head h = do { n \<leftarrow> get_next head h; Some (n = head) }"

definition mlist_add :: "ptr \<Rightarrow> ptr \<Rightarrow> mheap \<Rightarrow> mheap option" where
  "mlist_add head node h = mlist_add_between head node h"

definition mlist_add_tail :: "ptr \<Rightarrow> ptr \<Rightarrow> mheap \<Rightarrow> mheap option" where
  "mlist_add_tail head node h = do {
     p \<leftarrow> get_prev head h;
     mlist_add_between p node h }"

definition mlist_del :: "ptr \<Rightarrow> mheap \<Rightarrow> mheap option" where
  "mlist_del node h = do {
     h \<leftarrow> mlist_unlink node h;
     h \<leftarrow> set_prev node MLIST_POISON h;
     set_next node MLIST_POISON h }"

definition mlist_first :: "ptr \<Rightarrow> mheap \<Rightarrow> ptr option" where
  "mlist_first head h = get_next head h"

text \<open>
  \<open>mlist_for_each\<close>: the pointers the loop visits, in order. The loop ends when it is back at
  the head; a loop that never gets there, or that leaves the mapped heap, is \<open>None\<close>.
\<close>

partial_function (option) mlist_walk :: "mheap \<Rightarrow> ptr \<Rightarrow> ptr \<Rightarrow> ptr list option" where
  "mlist_walk h p head =
     (if p = head then Some []
      else do { n \<leftarrow> get_next p h; ps \<leftarrow> mlist_walk h n head; Some (p # ps) })"

definition mlist_for_each :: "ptr \<Rightarrow> mheap \<Rightarrow> ptr list option" where
  "mlist_for_each head h = do { p \<leftarrow> get_next head h; mlist_walk h p head }"

text \<open>
  \<open>mlist_for_each_safe\<close> with a loop body \<open>body\<close> that may change the state, the node heap
  included: \<open>n\<close> is read before the body runs, so the body may unlink \<open>ptr\<close>.
  \<open>nodes\<close> reads the node heap out of the state.
\<close>

partial_function (option) mlist_walk_safe ::
  "('s \<Rightarrow> mheap) \<Rightarrow> (ptr \<Rightarrow> 's \<Rightarrow> 's option) \<Rightarrow> ptr \<Rightarrow> ptr \<Rightarrow> ptr \<Rightarrow> 's \<Rightarrow> 's option" where
  "mlist_walk_safe nodes body p n head s =
     (if p = head then Some s
      else do {
        s \<leftarrow> body p s;
        n' \<leftarrow> get_next n (nodes s);
        mlist_walk_safe nodes body n n' head s })"

definition mlist_for_each_safe ::
  "('s \<Rightarrow> mheap) \<Rightarrow> (ptr \<Rightarrow> 's \<Rightarrow> 's option) \<Rightarrow> ptr \<Rightarrow> 's \<Rightarrow> 's option" where
  "mlist_for_each_safe nodes body head s = do {
     p \<leftarrow> get_next head (nodes s);
     n \<leftarrow> get_next p (nodes s);
     mlist_walk_safe nodes body p n head s }"

section \<open>Circular lists\<close>

text \<open>\<open>mseg h a xs b\<close>: from \<open>a\<close>, \<open>next\<close> leads through \<open>xs\<close> to \<open>b\<close>, and \<open>prev\<close> leads back.\<close>

fun mseg :: "mheap \<Rightarrow> ptr \<Rightarrow> ptr list \<Rightarrow> ptr \<Rightarrow> bool" where
  "mseg h a [] b \<longleftrightarrow> get_next a h = Some b \<and> get_prev b h = Some a"
| "mseg h a (x # xs) b \<longleftrightarrow> get_next a h = Some x \<and> get_prev x h = Some a \<and> mseg h x xs b"

definition mring :: "mheap \<Rightarrow> ptr \<Rightarrow> ptr list \<Rightarrow> bool" where
  "mring h head xs \<longleftrightarrow> mseg h head xs head \<and> distinct (head # xs)"

lemma mseg_append: "mseg h a (xs @ y # ys) b \<longleftrightarrow> mseg h a xs y \<and> mseg h y ys b"
  by (induction xs arbitrary: a) auto

lemma mseg_cong:
  assumes "mseg h a xs b"
    and "\<And>p. p \<in> set (a # xs) \<Longrightarrow> get_next p h' = get_next p h"
    and "\<And>p. p \<in> set (b # xs) \<Longrightarrow> get_prev p h' = get_prev p h"
  shows "mseg h' a xs b"
  using assms by (induction xs arbitrary: a) auto

lemma mseg_next_dom: "mseg h a xs b \<Longrightarrow> p \<in> set (a # xs) \<Longrightarrow> h p \<noteq> None"
  by (induction xs arbitrary: a) (auto simp: get_next_def)

lemma mseg_prev_dom: "mseg h a xs b \<Longrightarrow> p \<in> set (b # xs) \<Longrightarrow> h p \<noteq> None"
  by (induction xs arbitrary: a) (auto simp: get_prev_def)

lemma mring_dom: "mring h head xs \<Longrightarrow> p \<in> set (head # xs) \<Longrightarrow> h p \<noteq> None"
  unfolding mring_def by (blast dest: mseg_next_dom)

lemma set_next_Some:
  "h p \<noteq> None \<Longrightarrow> \<exists>h'. set_next p v h = Some h' \<and> get_next p h' = Some v
     \<and> (\<forall>q. q \<noteq> p \<longrightarrow> h' q = h q) \<and> get_prev p h' = get_prev p h"
  by (auto simp: set_next_def get_next_def get_prev_def)

lemma set_prev_Some:
  "h p \<noteq> None \<Longrightarrow> \<exists>h'. set_prev p v h = Some h' \<and> get_prev p h' = Some v
     \<and> (\<forall>q. q \<noteq> p \<longrightarrow> h' q = h q) \<and> get_next p h' = get_next p h"
  by (auto simp: set_prev_def get_next_def get_prev_def)

lemma get_next_upd [simp]:
  "get_next q (h(p \<mapsto> n)) = (if q = p then Some (m_next n) else get_next q h)"
  by (simp add: get_next_def)

lemma get_prev_upd [simp]:
  "get_prev q (h(p \<mapsto> n)) = (if q = p then Some (m_prev n) else get_prev q h)"
  by (simp add: get_prev_def)

lemma mseg_upd_other:
  "p \<notin> set (a # b # xs) \<Longrightarrow> mseg (h(p \<mapsto> n)) a xs b = mseg h a xs b"
  by (induction xs arbitrary: a) auto

section \<open>What the operations do to a circular list\<close>

lemma mring_rotate: "mring h a (us @ b # vs) \<longleftrightarrow> mring h b (vs @ a # us)"
  by (auto simp: mring_def mseg_append)

lemma mring_Nil [simp]: "mring h a [] \<longleftrightarrow> get_next a h = Some a \<and> get_prev a h = Some a"
  by (simp add: mring_def)

lemma mring_cong:
  assumes "mring h head xs" and "\<And>p. p \<in> set (head # xs) \<Longrightarrow> h' p = h p"
  shows "mring h' head xs"
proof -
  have "mseg h' head xs head"
    by (rule mseg_cong [of h]) (use assms in \<open>auto simp: mring_def get_next_def get_prev_def\<close>)
  then show ?thesis using assms(1) by (simp add: mring_def)
qed

lemma mring_get_next:
  "mring h head xs \<Longrightarrow> get_next head h = Some (hd (xs @ [head]))"
  by (cases xs) (auto simp: mring_def)

lemma mring_get_prev:
  "mring h head xs \<Longrightarrow> get_prev head h = Some (last (head # xs))"
  by (cases xs rule: rev_cases) (auto simp: mring_def mseg_append)

lemma mlist_init_ring:
  assumes "h head \<noteq> None"
  shows "\<exists>h'. mlist_init head h = Some h' \<and> mring h' head [] \<and> (\<forall>q. q \<noteq> head \<longrightarrow> h' q = h q)
    \<and> dom h' = dom h"
  using assms by (auto simp: mlist_init_def set_next_def set_prev_def)

lemma mlist_add_between_ring:
  assumes ring: "mring h head xs" and node: "h node \<noteq> None" "node \<notin> set (head # xs)"
  shows "\<exists>h'. mlist_add_between head node h = Some h' \<and> mring h' head (node # xs)
    \<and> (\<forall>q. q \<notin> set (head # node # xs) \<longrightarrow> h' q = h q) \<and> dom h' = dom h"
proof (cases xs)
  case Nil
  from ring have "h head \<noteq> None" by (rule mring_dom) simp
  with Nil assms show ?thesis
    by (auto simp: mlist_add_between_def set_next_def set_prev_def mring_def)
next
  case (Cons x ys)
  have dom: "h head \<noteq> None" "h x \<noteq> None" and x: "x \<noteq> head" "node \<noteq> head" "node \<noteq> x" "x \<notin> set ys"
    "head \<notin> set ys" "node \<notin> set ys" "distinct ys"
    and seg: "get_next head h = Some x" "mseg h x ys head"
    using ring node Cons mring_dom [OF ring] by (auto simp: mring_def)
  from dom node obtain nh nx nn where n: "h head = Some nh" "h x = Some nx" "h node = Some nn"
    by auto
  let ?h = "h(node \<mapsto> nn\<lparr>m_prev := head, m_next := x\<rparr>, x \<mapsto> nx\<lparr>m_prev := node\<rparr>,
      head \<mapsto> nh\<lparr>m_next := node\<rparr>)"
  have run: "mlist_add_between head node h = Some ?h"
    using x n seg(1)
    by (simp add: mlist_add_between_def set_next_def set_prev_def get_next_def)
  have "mseg ?h x ys head"
    by (rule mseg_cong [OF seg(2)]) (use x n in \<open>auto simp: get_next_def get_prev_def\<close>)
  then have "mring ?h head (node # xs)"
    using x n Cons by (simp add: mring_def get_next_def get_prev_def)
  moreover have "dom ?h = dom h" using n by auto
  ultimately show ?thesis using run Cons by auto
qed

lemma mlist_add_ring:
  assumes "mring h head xs" and "h node \<noteq> None" and "node \<notin> set (head # xs)"
  shows "\<exists>h'. mlist_add head node h = Some h' \<and> mring h' head (node # xs)
    \<and> (\<forall>q. q \<notin> set (head # node # xs) \<longrightarrow> h' q = h q) \<and> dom h' = dom h"
  unfolding mlist_add_def using assms by (rule mlist_add_between_ring)

lemma mlist_add_tail_ring:
  assumes ring: "mring h head xs" and node: "h node \<noteq> None" "node \<notin> set (head # xs)"
  shows "\<exists>h'. mlist_add_tail head node h = Some h' \<and> mring h' head (xs @ [node])
    \<and> (\<forall>q. q \<notin> set (head # node # xs) \<longrightarrow> h' q = h q) \<and> dom h' = dom h"
proof (cases xs rule: rev_cases)
  case Nil
  then show ?thesis
    using mlist_add_between_ring [OF assms] mring_get_prev [OF ring]
    by (auto simp: mlist_add_tail_def)
next
  case (snoc ys l)
  with ring have "mring h l (head # ys)"
    using mring_rotate [of h head ys l "[]"] by simp
  moreover have "node \<notin> set (l # head # ys)" using node(2) snoc by auto
  ultimately obtain h' where h': "mlist_add_between l node h = Some h'"
    "mring h' l (node # head # ys)" "\<forall>q. q \<notin> set (l # node # head # ys) \<longrightarrow> h' q = h q" "dom h' = dom h"
    using mlist_add_between_ring [of h l "head # ys" node] node(1) by blast
  have "mring h' head (ys @ l # [node])"
    using h'(2) mring_rotate [of h' l "[node]" head ys] by simp
  with h' snoc ring show ?thesis
    by (auto simp: mlist_add_tail_def mring_get_prev)
qed

lemma mlist_unlink_after:
  assumes ring: "mring h p (node # ys)"
  shows "\<exists>h'. mlist_unlink node h = Some h' \<and> mring h' p ys
    \<and> (\<forall>q. q \<notin> set (p # ys) \<longrightarrow> h' q = h q) \<and> dom h' = dom h"
proof (cases ys)
  case Nil
  with ring obtain np where "h p = Some np" using mring_dom [OF ring, of p] by auto
  with Nil ring show ?thesis
    by (auto simp: mring_def mlist_unlink_def set_next_def set_prev_def get_next_def get_prev_def)
next
  case (Cons y zs)
  have d: "node \<noteq> p" "y \<noteq> p" "y \<noteq> node" "p \<notin> set zs" "y \<notin> set zs" "distinct zs"
    and seg: "get_prev node h = Some p" "get_next node h = Some y" "mseg h y zs p"
    using ring Cons by (auto simp: mring_def)
  obtain np ny where n: "h p = Some np" "h y = Some ny"
    using mring_dom [OF ring] Cons by fastforce
  let ?h = "h(p \<mapsto> np\<lparr>m_next := y\<rparr>, y \<mapsto> ny\<lparr>m_prev := p\<rparr>)"
  have run: "mlist_unlink node h = Some ?h"
    using d n seg(1,2) by (auto simp: mlist_unlink_def set_next_def set_prev_def get_next_def get_prev_def)
  have "mseg ?h y zs p"
    by (rule mseg_cong [OF seg(3)]) (use d n in \<open>auto simp: get_next_def get_prev_def\<close>)
  then have "mring ?h p ys" using d n Cons by (simp add: mring_def)
  moreover have "dom ?h = dom h" using n by auto
  ultimately show ?thesis using run Cons by auto
qed

lemma mlist_unlink_ring:
  assumes ring: "mring h head (us @ node # vs)"
  shows "\<exists>h'. mlist_unlink node h = Some h' \<and> mring h' head (us @ vs)
    \<and> (\<forall>q. q \<notin> set (head # us @ vs) \<longrightarrow> h' q = h q) \<and> dom h' = dom h"
proof (cases us rule: rev_cases)
  case Nil
  with ring show ?thesis using mlist_unlink_after [of h head node vs] by simp
next
  case (snoc ws l)
  then have "mring h l (node # vs @ head # ws)"
    using ring mring_rotate [of h head ws l "node # vs"] by simp
  from mlist_unlink_after [OF this] obtain h' where h': "mlist_unlink node h = Some h'"
    "mring h' l (vs @ head # ws)" "\<forall>q. q \<notin> set (l # vs @ head # ws) \<longrightarrow> h' q = h q" "dom h' = dom h"
    by blast
  then have "mring h' head (us @ vs)"
    using snoc mring_rotate [of h' head ws l vs] by simp
  with h' snoc show ?thesis by auto
qed

lemma mlist_del_ring:
  assumes ring: "mring h head (us @ node # vs)"
  shows "\<exists>h'. mlist_del node h = Some h' \<and> mring h' head (us @ vs)
    \<and> (\<forall>q. q \<notin> set (head # us @ node # vs) \<longrightarrow> h' q = h q) \<and> dom h' = dom h
    \<and> h' node = Some \<lparr>m_prev = MLIST_POISON, m_next = MLIST_POISON\<rparr>"
proof -
  obtain h1 where h1: "mlist_unlink node h = Some h1" "mring h1 head (us @ vs)"
    "\<forall>q. q \<notin> set (head # us @ vs) \<longrightarrow> h1 q = h q" "dom h1 = dom h"
    using mlist_unlink_ring [OF ring] by blast
  have node: "node \<notin> set (head # us @ vs)" using ring by (auto simp: mring_def)
  have "h node \<noteq> None" by (rule mring_dom [OF ring]) simp
  then obtain n where n: "h1 node = Some n" using h1(3) node by auto
  let ?n = "\<lparr>m_prev = MLIST_POISON, m_next = MLIST_POISON\<rparr>"
  have run: "mlist_del node h = Some (h1(node \<mapsto> ?n))"
    using h1(1) n by (cases n) (simp add: mlist_del_def set_next_def set_prev_def)
  moreover have "mring (h1(node \<mapsto> ?n)) head (us @ vs)"
    by (rule mring_cong [OF h1(2)]) (use node in auto)
  moreover have "dom (h1(node \<mapsto> ?n)) = dom h"
    using h1(4) n by auto
  ultimately show ?thesis using h1(3) by auto
qed

lemma mlist_deinit_ring:
  assumes "mring h head (us @ node # vs)"
  shows "\<exists>h'. mlist_deinit node h = Some h' \<and> mring h' head (us @ vs) \<and> dom h' = dom h"
proof -
  have "set_next node v k \<bind> set_prev node v = set_prev node v k \<bind> set_next node v" for v k
  proof (cases "k node")
    case (Some n)
    then show ?thesis by (cases n) (simp add: set_next_def set_prev_def)
  qed (simp add: set_next_def set_prev_def)
  then have eq: "mlist_deinit node h = mlist_del node h"
    by (simp add: mlist_deinit_def mlist_del_def)
  show ?thesis using mlist_del_ring [OF assms] by (auto simp: eq)
qed

lemma mlist_empty_ring: "mring h head xs \<Longrightarrow> mlist_empty head h = Some (xs = [])"
  by (cases xs) (auto simp: mlist_empty_def mring_def)

lemma mlist_walk_seg:
  assumes "mseg h a xs head" and "head \<notin> set xs"
  shows "mlist_walk h (hd (xs @ [head])) head = Some xs"
  using assms
proof (induction xs arbitrary: a)
  case Nil
  then show ?case by (simp add: mlist_walk.simps)
next
  case (Cons x xs)
  then have "mlist_walk h (hd (xs @ [head])) head = Some xs" by auto
  moreover have "get_next x h = Some (hd (xs @ [head]))"
    using Cons.prems by (cases xs) auto
  ultimately show ?case using Cons.prems by (simp add: mlist_walk.simps [of h x])
qed

lemma mlist_for_each_ring: "mring h head xs \<Longrightarrow> mlist_for_each head h = Some xs"
  using mlist_walk_seg [of h head xs head]
  by (simp add: mlist_for_each_def mring_get_next) (simp add: mring_def)

text \<open>
  A loop over \<open>mlist_for_each_safe\<close> whose body unlinks the node it is given: an invariant
  \<open>I ps s\<close> on the nodes still to visit, which form the ring, holds with \<open>ps = []\<close> at the end;
  in particular the loop ends.
\<close>

lemma mlist_walk_safe_rule:
  assumes body: "\<And>p ps s. I (p # ps) s \<Longrightarrow> \<exists>s'. body p s = Some s' \<and> I ps s'"
    and ring: "\<And>ps s. I ps s \<Longrightarrow> mring (nodes s) head ps"
    and start: "I xs s" "get_next (hd (xs @ [head])) (nodes s) = Some n"
  shows "\<exists>s'. mlist_walk_safe nodes body (hd (xs @ [head])) n head s = Some s' \<and> I [] s'"
  using start
proof (induction xs arbitrary: s n)
  case Nil
  then show ?case by (simp add: mlist_walk_safe.simps)
next
  case (Cons p ps)
  have R: "mring (nodes s) head (p # ps)" by (rule ring) (rule Cons.prems)
  then have ne: "p \<noteq> head" by (auto simp: mring_def)
  have n: "n = hd (ps @ [head])"
    using R Cons.prems(2) by (cases ps) (auto simp: mring_def)
  obtain s' where s': "body p s = Some s'" "I ps s'" using body Cons.prems(1) by blast
  have R': "mring (nodes s') head ps" by (rule ring) (rule s')
  then obtain n' where n': "get_next (hd (ps @ [head])) (nodes s') = Some n'"
    using mring_dom [OF R', of "hd (ps @ [head])"] by (cases ps) (auto simp: get_next_def)
  from Cons.IH [OF s'(2) n'] show ?case
    using ne s'(1) n n' by (simp add: mlist_walk_safe.simps [of nodes body p])
qed

lemma mlist_for_each_safe_rule:
  assumes "\<And>p ps s. I (p # ps) s \<Longrightarrow> \<exists>s'. body p s = Some s' \<and> I ps s'"
    and ring: "\<And>ps s. I ps s \<Longrightarrow> mring (nodes s) head ps"
    and start: "I xs s"
  shows "\<exists>s'. mlist_for_each_safe nodes body head s = Some s' \<and> I [] s'"
proof -
  have R: "mring (nodes s) head xs" by (rule ring) (rule start)
  obtain n where n: "get_next (hd (xs @ [head])) (nodes s) = Some n"
    using mring_dom [OF R, of "hd (xs @ [head])"] by (cases xs) (auto simp: get_next_def)
  show ?thesis
    using mlist_walk_safe_rule [of I body nodes head xs s n, OF assms(1) ring start n]
      mring_get_next [OF R] n
    by (simp add: mlist_for_each_safe_def)
qed

lemmas mlist_ring_rules = mlist_init_ring mlist_add_ring mlist_add_tail_ring mlist_del_ring
  mlist_deinit_ring mlist_empty_ring mlist_for_each_ring

section \<open>Refinement of sequences\<close>

text \<open>
  A command of a client and its two meanings: on the node heap, through the operations above,
  and on the sequence of nodes. The sequence meaning is \<open>None\<close> where the client breaks the
  contract: it adds a node twice or one that is not allocated, or removes a node that is not there.
\<close>

datatype mlist_cmd = Cmd_add ptr | Cmd_add_tail ptr | Cmd_del ptr | Cmd_deinit ptr

fun mlist_exec :: "ptr \<Rightarrow> mlist_cmd \<Rightarrow> mheap \<Rightarrow> mheap option" where
  "mlist_exec head (Cmd_add p) h = mlist_add head p h"
| "mlist_exec head (Cmd_add_tail p) h = mlist_add_tail head p h"
| "mlist_exec head (Cmd_del p) h = mlist_del p h"
| "mlist_exec head (Cmd_deinit p) h = mlist_deinit p h"

fun mlist_spec :: "ptr set \<Rightarrow> mlist_cmd \<Rightarrow> ptr list \<Rightarrow> ptr list option" where
  "mlist_spec nodes (Cmd_add p) xs = do { guard_opt (p \<in> nodes \<and> p \<notin> set xs); Some (p # xs) }"
| "mlist_spec nodes (Cmd_add_tail p) xs = do { guard_opt (p \<in> nodes \<and> p \<notin> set xs); Some (xs @ [p]) }"
| "mlist_spec nodes (Cmd_del p) xs = do { guard_opt (p \<in> set xs); Some (remove1 p xs) }"
| "mlist_spec nodes (Cmd_deinit p) xs = do { guard_opt (p \<in> set xs); Some (remove1 p xs) }"

lemma mlist_exec_spec:
  assumes ring: "mring h head xs" and spec: "mlist_spec nodes c xs = Some ys"
    and dom: "nodes \<subseteq> dom h - {head}"
  shows "\<exists>h'. mlist_exec head c h = Some h' \<and> mring h' head ys \<and> dom h' = dom h"
proof -
  have split: "\<exists>us vs. xs = us @ p # vs \<and> remove1 p xs = us @ vs" if "p \<in> set xs" for p
  proof -
    from that obtain us vs where "xs = us @ p # vs" "p \<notin> set us" by (metis split_list_first)
    then show ?thesis by (auto simp: remove1_append)
  qed
  show ?thesis
  proof (cases c)
    case (Cmd_add p)
    with spec dom have "h p \<noteq> None" "p \<notin> set (head # xs)" "ys = p # xs" by auto
    with mlist_add_ring [OF ring, of p] Cmd_add show ?thesis by auto
  next
    case (Cmd_add_tail p)
    with spec dom have "h p \<noteq> None" "p \<notin> set (head # xs)" "ys = xs @ [p]" by auto
    with mlist_add_tail_ring [OF ring, of p] Cmd_add_tail show ?thesis by auto
  next
    case (Cmd_del p)
    with spec have "p \<in> set xs" "ys = remove1 p xs" by auto
    with split obtain us vs where "xs = us @ p # vs" "ys = us @ vs" by blast
    with mlist_del_ring [of h head us p vs] ring Cmd_del show ?thesis by auto
  next
    case (Cmd_deinit p)
    with spec have "p \<in> set xs" "ys = remove1 p xs" by auto
    with split obtain us vs where "xs = us @ p # vs" "ys = us @ vs" by blast
    with mlist_deinit_ring [of h head us p vs] ring Cmd_deinit show ?thesis by auto
  qed
qed

lemma run_cmds_sim:
  assumes "run_cmds (mlist_spec nodes) cs xs = Some ys" and "mring h head xs"
    and "nodes \<subseteq> dom h - {head}"
  shows "\<exists>h'. run_cmds (mlist_exec head) cs h = Some h' \<and> mring h' head ys \<and> dom h' = dom h"
  using assms
proof (induction cs arbitrary: xs h)
  case (Cons c cs)
  then obtain zs where zs: "mlist_spec nodes c xs = Some zs" "run_cmds (mlist_spec nodes) cs zs = Some ys"
    by auto
  from mlist_exec_spec [OF Cons.prems(2) zs(1) Cons.prems(3)] obtain h1
    where "mlist_exec head c h = Some h1" "mring h1 head zs" "dom h1 = dom h" by blast
  with Cons.IH [OF zs(2), of h1] Cons.prems(3) show ?case by auto
qed auto

text \<open>
  C5. The list is a sequence: after \<open>mlist_init\<close>, any run of additions at the head, additions at
  the tail and removals that respects the contract is defined, and afterwards \<open>mlist_for_each\<close>
  ends and visits exactly the sequence the commands describe, \<open>mlist_empty\<close> tells whether it is
  empty, and \<open>mlist_first\<close> is its first node.
\<close>

theorem mlist_refines_sequence:
  assumes "run_cmds (mlist_spec (dom h - {head})) cs [] = Some xs" and "h head \<noteq> None"
  shows "\<exists>h0 h'. mlist_init head h = Some h0 \<and> run_cmds (mlist_exec head) cs h0 = Some h'
    \<and> mlist_for_each head h' = Some xs \<and> mlist_empty head h' = Some (xs = [])
    \<and> mlist_first head h' = Some (hd (xs @ [head]))"
proof -
  obtain h0 where h0: "mlist_init head h = Some h0" "mring h0 head []" "dom h0 = dom h"
    using assms(2) mlist_init_ring [of h head] by blast
  then obtain h' where "run_cmds (mlist_exec head) cs h0 = Some h'" "mring h' head xs"
    using run_cmds_sim [OF assms(1), of h0 head] by auto
  with h0(1) show ?thesis
    by (auto simp: mlist_first_def mring_get_next mlist_for_each_ring mlist_empty_ring)
qed

definition demo_heap :: mheap where
  "demo_heap = (\<lambda>p. if p \<in> {8, 16, 24, 32} then Some \<lparr>m_prev = NULL, m_next = NULL\<rparr> else None)"

theorem mlist_refines_sequence_witness:
  "\<exists>h0 h'. mlist_init 8 demo_heap = Some h0
     \<and> run_cmds (mlist_exec 8) [Cmd_add_tail 16, Cmd_add 24, Cmd_add_tail 32, Cmd_del 16] h0 = Some h'
     \<and> mlist_for_each 8 h' = Some [24, 32]"
  using mlist_refines_sequence [of demo_heap 8
      "[Cmd_add_tail 16, Cmd_add 24, Cmd_add_tail 32, Cmd_del 16]" "[24, 32]"]
  by (auto simp: demo_heap_def dom_def)

end
