(* ===== verification/MmemDebug.thy ===== *)
theory MmemDebug
  imports Mlist "HOL-Library.Char_ord"
begin

text \<open>
  The memory-debugging allocator of \<open>frameworks/mlib/mmem_debug/src/mmem_debug.c\<close>: every block
  handed out carries a header in front of the user's bytes and a magic word behind them, and
  all live blocks hang on one intrusive list with running totals.

  \<^item> \<open>mmem_block\<close> is \<open>struct mmem_block\<close>; its list node lives in the node heap \<open>ms_nodes\<close> at
    the offset the compiler gives it (\<open>MMEM_LIST_OFFSET\<close>), so that the list code of
    \<open>mlist.h\<close> runs on it unchanged; \<open>mb_mem\<close> is the memory behind the header, the user's
    bytes followed by the tail magic.
  \<^item> the system allocator (\<open>_real_malloc\<close>, \<open>_real_calloc\<close>, \<open>_real_realloc\<close>) is an argument of
    each operation: the address it returned (\<open>NULL\<close> when it failed) and, for bytes the C
    standard leaves unspecified, their contents.
  \<^item> an operation returns \<open>None\<close> where the C code is undefined: a block that is not live is
    read, or the magic word would be written behind the memory that was allocated; also where
    the mutex of \<open>adapter.c\<close> would be locked by its own holder.
\<close>

section \<open>Data\<close>

text \<open>The eight bytes a \<open>long\<close> has in memory; the magics are string constants read as \<open>long\<close>.\<close>

type_synonym magic = "bytes"

definition long_of_string :: "string \<Rightarrow> magic" where
  "long_of_string s = map (of_nat \<circ> of_char) s"

definition MMEM_BLOCK_ACTIVE_HEAD_MAGIC :: magic where
  "MMEM_BLOCK_ACTIVE_HEAD_MAGIC = long_of_string ''mbah    ''"
definition MMEM_BLOCK_ACTIVE_TAIL_MAGIC :: magic where
  "MMEM_BLOCK_ACTIVE_TAIL_MAGIC = long_of_string ''mbat    ''"
definition MMEM_BLOCK_FREE_HEAD_MAGIC :: magic where
  "MMEM_BLOCK_FREE_HEAD_MAGIC = long_of_string ''mbfh    ''"
definition MMEM_BLOCK_FREE_TAIL_MAGIC :: magic where
  "MMEM_BLOCK_FREE_TAIL_MAGIC = long_of_string ''mbft    ''"

record mmem_block =
  mb_magic :: magic
  mb_size :: u64
  mb_total_size :: u64
  mb_file :: string
  mb_line :: u64
  mb_mem :: bytes

record mmem_state =
  ms_nodes :: mheap
  ms_blocks :: "ptr \<rightharpoonup> mmem_block"
  ms_table_ready :: bool
  ms_count :: u64
  ms_total_size :: u64
  ms_active_size :: u64
  ms_max_total_size :: u64
  ms_max_active_size :: u64
  ms_locked :: bool

text \<open>\<open>_align(_size, _align)\<close>, with \<open>sizeof(long) = 8\<close>.\<close>

definition mmem_align :: "u64 \<Rightarrow> u64 \<Rightarrow> u64" where
  "mmem_align sz a = (sz + (a - 1)) AND (NOT (a - 1))"

text \<open>\<open>sizeof(mmem_block_t)\<close>: seven words of eight bytes; \<open>data\<close> has length zero.\<close>

definition MMEM_BLOCK_SIZE :: u64 where "MMEM_BLOCK_SIZE = mmem_align 56 8"

definition mmem_total_size :: "u64 \<Rightarrow> u64" where
  "mmem_total_size sz = MMEM_BLOCK_SIZE + sz + 8"

text \<open>The list node is the second member of the block, behind the eight bytes of the magic.\<close>

definition MMEM_LIST_OFFSET :: nat where "MMEM_LIST_OFFSET = 8"

text \<open>The address of \<open>mmem_block_table.list\<close>, a static object.\<close>

definition mmem_table_list :: ptr where "mmem_table_list = 16"

definition mmem_get_block :: "ptr \<Rightarrow> ptr" where
  "mmem_get_block addr = addr - unat MMEM_BLOCK_SIZE"

definition mmem_block_data :: "ptr \<Rightarrow> ptr" where
  "mmem_block_data block = block + unat MMEM_BLOCK_SIZE"

definition mmem_init_state :: mmem_state where
  "mmem_init_state = \<lparr>ms_nodes = [mmem_table_list \<mapsto> \<lparr>m_prev = NULL, m_next = NULL\<rparr>],
     ms_blocks = Map.empty, ms_table_ready = False, ms_count = 0, ms_total_size = 0,
     ms_active_size = 0, ms_max_total_size = 0, ms_max_active_size = 0, ms_locked = False\<rparr>"

section \<open>Lock and block table\<close>

text \<open>The mutex is not recursive: its holder would wait for itself.\<close>

definition mmem_lock :: "mmem_state \<Rightarrow> mmem_state option" where
  "mmem_lock s = do { guard_opt (\<not> ms_locked s); Some (s\<lparr>ms_locked := True\<rparr>) }"

definition mmem_unlock :: "mmem_state \<Rightarrow> mmem_state option" where
  "mmem_unlock s = do { guard_opt (ms_locked s); Some (s\<lparr>ms_locked := False\<rparr>) }"

definition mmem_block_table_get :: "mmem_state \<Rightarrow> mmem_state option" where
  "mmem_block_table_get s =
     (if ms_table_ready s then Some s
      else do {
        h \<leftarrow> mlist_init mmem_table_list (ms_nodes s);
        Some (s\<lparr>ms_nodes := h, ms_total_size := 0, ms_active_size := 0, ms_table_ready := True\<rparr>) })"

definition mmem_list_node :: "ptr \<Rightarrow> ptr" where
  "mmem_list_node block = block + MMEM_LIST_OFFSET"

definition mmem_block_add :: "ptr \<Rightarrow> mmem_state \<Rightarrow> mmem_state option" where
  "mmem_block_add block s = do {
     b \<leftarrow> ms_blocks s block;
     h \<leftarrow> mlist_add_tail mmem_table_list (mmem_list_node block) (ms_nodes s);
     let tot = ms_total_size s + mb_total_size b;
     let active = ms_active_size s + mb_size b;
     Some (s\<lparr>ms_nodes := h, ms_count := ms_count s + 1, ms_total_size := tot,
       ms_active_size := active,
       ms_max_active_size := (if active > ms_max_active_size s then active else ms_max_active_size s),
       ms_max_total_size := (if tot > ms_max_total_size s then tot else ms_max_total_size s)\<rparr>) }"

definition mmem_block_del :: "ptr \<Rightarrow> mmem_state \<Rightarrow> mmem_state option" where
  "mmem_block_del block s = do {
     b \<leftarrow> ms_blocks s block;
     h \<leftarrow> mlist_del (mmem_list_node block) (ms_nodes s);
     Some (s\<lparr>ms_nodes := h, ms_count := ms_count s - 1,
       ms_total_size := ms_total_size s - mb_total_size b,
       ms_active_size := ms_active_size s - mb_size b\<rparr>) }"

section \<open>Magic words\<close>

text \<open>The tail magic is the word at \<open>data + size\<close>; it has to lie in the block's memory.\<close>

definition mb_tail_ok :: "mmem_block \<Rightarrow> bool" where
  "mb_tail_ok b \<longleftrightarrow> unat (mb_size b) + 8 \<le> length (mb_mem b)"

definition mmem_block_tail_magic :: "mmem_block \<Rightarrow> magic option" where
  "mmem_block_tail_magic b = do {
     guard_opt (mb_tail_ok b);
     Some (take 8 (drop (unat (mb_size b)) (mb_mem b))) }"

definition mmem_set_tail :: "magic \<Rightarrow> mmem_block \<Rightarrow> mmem_block option" where
  "mmem_set_tail m b = do {
     guard_opt (mb_tail_ok b);
     Some (b\<lparr>mb_mem := mem_put (unat (mb_size b)) m (mb_mem b)\<rparr>) }"

definition mmem_check_block_magic_active :: "mmem_block \<Rightarrow> bool option" where
  "mmem_check_block_magic_active b =
     (if mb_magic b \<noteq> MMEM_BLOCK_ACTIVE_HEAD_MAGIC then Some False
      else do { t \<leftarrow> mmem_block_tail_magic b; Some (t = MMEM_BLOCK_ACTIVE_TAIL_MAGIC) })"

definition mmem_set_block_magic_active :: "mmem_block \<Rightarrow> mmem_block option" where
  "mmem_set_block_magic_active b =
     mmem_set_tail MMEM_BLOCK_ACTIVE_TAIL_MAGIC (b\<lparr>mb_magic := MMEM_BLOCK_ACTIVE_HEAD_MAGIC\<rparr>)"

definition mmem_set_block_magic_free :: "mmem_block \<Rightarrow> mmem_block option" where
  "mmem_set_block_magic_free b =
     mmem_set_tail MMEM_BLOCK_FREE_TAIL_MAGIC (b\<lparr>mb_magic := MMEM_BLOCK_FREE_HEAD_MAGIC\<rparr>)"

definition mmem_block_update ::
  "u64 \<Rightarrow> u64 \<Rightarrow> string \<Rightarrow> u64 \<Rightarrow> mmem_block \<Rightarrow> mmem_block" where
  "mmem_block_update sz tot file line b =
     b\<lparr>mb_size := sz, mb_total_size := tot, mb_file := file, mb_line := line\<rparr>"

section \<open>The system allocator\<close>

text \<open>
  Memory the system allocator returned becomes a raw block: \<open>tot\<close> bytes, of which the header
  takes the first \<open>MMEM_BLOCK_SIZE\<close>. The header's fields and its list node hold values that the
  code overwrites before it reads them. Writing a header into fewer bytes is undefined.
\<close>

definition mmem_raw_block :: "bytes \<Rightarrow> mmem_block" where
  "mmem_raw_block mem = \<lparr>mb_magic = [], mb_size = 0, mb_total_size = 0, mb_file = [],
     mb_line = 0, mb_mem = mem\<rparr>"

definition mmem_heap_new :: "ptr \<Rightarrow> u64 \<Rightarrow> (nat \<Rightarrow> u8) \<Rightarrow> mmem_state \<Rightarrow> mmem_state option" where
  "mmem_heap_new r tot contents s = do {
     guard_opt (unat MMEM_BLOCK_SIZE \<le> unat tot);
     Some (s\<lparr>
       ms_blocks := (ms_blocks s)(r \<mapsto>
         mmem_raw_block (map contents [0..<unat tot - unat MMEM_BLOCK_SIZE])),
       ms_nodes := (ms_nodes s)(mmem_list_node r \<mapsto> \<lparr>m_prev = NULL, m_next = NULL\<rparr>)\<rparr>) }"

definition mmem_real_free :: "ptr \<Rightarrow> mmem_state \<Rightarrow> mmem_state option" where
  "mmem_real_free block s = Some (s\<lparr>ms_blocks := (ms_blocks s)(block := None),
     ms_nodes := (ms_nodes s)(mmem_list_node block := None)\<rparr>)"

text \<open>\<open>realloc\<close> keeps the bytes up to the smaller size; the block may move from \<open>block\<close> to \<open>r\<close>.\<close>

definition mmem_real_realloc ::
  "ptr \<Rightarrow> ptr \<Rightarrow> u64 \<Rightarrow> (nat \<Rightarrow> u8) \<Rightarrow> mmem_state \<Rightarrow> mmem_state option" where
  "mmem_real_realloc block r tot contents s = do {
     b \<leftarrow> ms_blocks s block;
     s \<leftarrow> mmem_real_free block s;
     mmem_heap_new r tot (\<lambda>i. if i < length (mb_mem b) then mb_mem b ! i else contents i) s }"

section \<open>Operations\<close>

definition mmem_modify_block ::
  "ptr \<Rightarrow> (mmem_block \<Rightarrow> mmem_block option) \<Rightarrow> mmem_state \<Rightarrow> mmem_state option" where
  "mmem_modify_block block f s = do {
     b \<leftarrow> ms_blocks s block;
     b \<leftarrow> f b;
     Some (s\<lparr>ms_blocks := (ms_blocks s)(block \<mapsto> b)\<rparr>) }"

text \<open>\<open>mlist_init(&block->list)\<close> followed by \<open>_mmem_block_add\<close>, as every caller has it.\<close>

definition mmem_enlist :: "ptr \<Rightarrow> mmem_state \<Rightarrow> mmem_state option" where
  "mmem_enlist block s = do {
     h \<leftarrow> mlist_init (mmem_list_node block) (ms_nodes s);
     mmem_block_add block (s\<lparr>ms_nodes := h\<rparr>) }"

text \<open>Header, magics and list entry of a block of \<open>tot\<close> bytes just obtained at \<open>r\<close>.\<close>

definition mmem_setup_block ::
  "ptr \<Rightarrow> u64 \<Rightarrow> u64 \<Rightarrow> string \<Rightarrow> u32 \<Rightarrow> mmem_state \<Rightarrow> mmem_state option" where
  "mmem_setup_block r sz tot file line s = do {
     s \<leftarrow> mmem_modify_block r (\<lambda>b. Some (mmem_block_update sz tot file (scast line) b)) s;
     s \<leftarrow> mmem_modify_block r mmem_set_block_magic_active s;
     s \<leftarrow> mmem_block_table_get s;
     mmem_enlist r s }"

definition mmem_calloc ::
  "ptr \<Rightarrow> u64 \<Rightarrow> u64 \<Rightarrow> string \<Rightarrow> u32 \<Rightarrow> mmem_state \<Rightarrow> (ptr \<times> mmem_state) option" where
  "mmem_calloc r counts item_size file line s = do {
     s \<leftarrow> mmem_lock s;
     if counts = 0 \<or> item_size = 0 then do { s \<leftarrow> mmem_unlock s; Some (NULL, s) }
     else do {
       let sz = counts * item_size;
       let tot = mmem_total_size sz;
       if r = NULL then do { s \<leftarrow> mmem_unlock s; Some (NULL, s) }
       else do {
         s \<leftarrow> mmem_heap_new r tot (\<lambda>_. 0) s;
         s \<leftarrow> mmem_setup_block r sz tot file line s;
         s \<leftarrow> mmem_unlock s;
         Some (mmem_block_data r, s) } } }"

definition mmem_alloc ::
  "ptr \<Rightarrow> (nat \<Rightarrow> u8) \<Rightarrow> u64 \<Rightarrow> string \<Rightarrow> u32 \<Rightarrow> mmem_state \<Rightarrow> (ptr \<times> mmem_state) option" where
  "mmem_alloc r contents sz file line s = do {
     s \<leftarrow> mmem_lock s;
     if sz = 0 then do { s \<leftarrow> mmem_unlock s; Some (NULL, s) }
     else do {
       let tot = mmem_total_size sz;
       if r = NULL then do { s \<leftarrow> mmem_unlock s; Some (NULL, s) }
       else do {
         s \<leftarrow> mmem_heap_new r tot contents s;
         s \<leftarrow> mmem_setup_block r sz tot file line s;
         s \<leftarrow> mmem_unlock s;
         Some (mmem_block_data r, s) } } }"

definition mmem_free :: "ptr \<Rightarrow> mmem_state \<Rightarrow> mmem_state option" where
  "mmem_free addr s = do {
     s \<leftarrow> mmem_lock s;
     if addr = NULL then mmem_unlock s
     else do {
       let block = mmem_get_block addr;
       b \<leftarrow> ms_blocks s block;
       ok \<leftarrow> mmem_check_block_magic_active b;
       if \<not> ok then mmem_unlock s
       else do {
         s \<leftarrow> mmem_modify_block block mmem_set_block_magic_free s;
         s \<leftarrow> mmem_block_table_get s;
         s \<leftarrow> mmem_block_del block s;
         s \<leftarrow> mmem_real_free block s;
         mmem_unlock s } } }"

definition mmem_realloc ::
  "ptr \<Rightarrow> (nat \<Rightarrow> u8) \<Rightarrow> ptr \<Rightarrow> u64 \<Rightarrow> string \<Rightarrow> u32 \<Rightarrow> mmem_state \<Rightarrow> (ptr \<times> mmem_state) option"
where
  "mmem_realloc r contents addr sz file line s = do {
     s \<leftarrow> mmem_lock s;
     if addr = NULL then do {
       s \<leftarrow> mmem_unlock s;
       mmem_alloc r contents sz file line s }
     else if sz = 0 then do {
       s \<leftarrow> mmem_unlock s;
       s \<leftarrow> mmem_free addr s;
       Some (NULL, s) }
     else do {
       let block = mmem_get_block addr;
       b \<leftarrow> ms_blocks s block;
       ok \<leftarrow> mmem_check_block_magic_active b;
       if \<not> ok then do { s \<leftarrow> mmem_unlock s; Some (NULL, s) }
       else do {
         s \<leftarrow> mmem_modify_block block mmem_set_block_magic_free s;
         s \<leftarrow> mmem_block_table_get s;
         s \<leftarrow> mmem_block_del block s;
         let tot = mmem_total_size sz;
         if r = NULL then do {
           s \<leftarrow> mmem_modify_block block mmem_set_block_magic_active s;
           s \<leftarrow> mmem_enlist block s;
           s \<leftarrow> mmem_unlock s;
           Some (NULL, s) }
         else do {
           s \<leftarrow> mmem_real_realloc block r tot contents s;
           s \<leftarrow> mmem_modify_block r (\<lambda>b. Some (mmem_block_update sz tot file (scast line) b)) s;
           s \<leftarrow> mmem_modify_block r mmem_set_block_magic_active s;
           s \<leftarrow> mmem_enlist r s;
           s \<leftarrow> mmem_unlock s;
           Some (mmem_block_data r, s) } } } }"

text \<open>The body of the loop of \<open>mmem_free_all\<close>; a wrong magic is only reported.\<close>

definition mmem_free_all_body :: "ptr \<Rightarrow> mmem_state \<Rightarrow> mmem_state option" where
  "mmem_free_all_body p s = do {
     let block = p - MMEM_LIST_OFFSET;
     b \<leftarrow> ms_blocks s block;
     _ \<leftarrow> mmem_check_block_magic_active b;
     s \<leftarrow> mmem_modify_block block mmem_set_block_magic_free s;
     s \<leftarrow> mmem_block_del block s;
     mmem_real_free block s }"

definition mmem_free_all :: "mmem_state \<Rightarrow> mmem_state option" where
  "mmem_free_all s = do {
     s \<leftarrow> mmem_lock s;
     s \<leftarrow> mmem_block_table_get s;
     s \<leftarrow> mlist_for_each_safe ms_nodes mmem_free_all_body mmem_table_list s;
     mmem_unlock s }"

section \<open>Dump\<close>

definition MMEM_DUMP_RET_OK :: int where "MMEM_DUMP_RET_OK = 0"
definition MMEM_DUMP_RET_INVALID_CMD :: int where "MMEM_DUMP_RET_INVALID_CMD = -1"
definition MMEM_DUMP_RET_EMPTY_BUF :: int where "MMEM_DUMP_RET_EMPTY_BUF = -2"
definition MMEM_DUMP_RET_BUF_SIZE_TOO_SMALL :: int where "MMEM_DUMP_RET_BUF_SIZE_TOO_SMALL = -3"
definition MMEM_DUMP_CMD_COUNTS :: u64 where "MMEM_DUMP_CMD_COUNTS = 1"
definition MMEM_DUMP_CMD_MMEM_INFO :: u64 where "MMEM_DUMP_CMD_MMEM_INFO = 2"
definition MMEM_DUMP_CMD_MMEM_BLOCK_INFO :: u64 where "MMEM_DUMP_CMD_MMEM_BLOCK_INFO = 3"

record mmem_info =
  mi_counts :: u64
  mi_total_size :: u64
  mi_active_size :: u64
  mi_max_total_size :: u64
  mi_max_active_size :: u64

record mmem_block_info =
  mbi_size :: u64
  mbi_total_size :: u64
  mbi_file :: string
  mbi_line :: u64

text \<open>What a dump wrote into the caller's buffer, for each command.\<close>

datatype mmem_dump_data =
  Dump_nothing | Dump_counts u64 | Dump_info mmem_info | Dump_blocks "mmem_block_info list"

definition mmem_dump_cmd_counts :: "bool \<Rightarrow> u64 \<Rightarrow> mmem_state \<Rightarrow> int \<times> mmem_dump_data" where
  "mmem_dump_cmd_counts buf_null buf_size s =
     (if buf_null then (MMEM_DUMP_RET_EMPTY_BUF, Dump_nothing)
      else if buf_size < 8 then (MMEM_DUMP_RET_BUF_SIZE_TOO_SMALL, Dump_nothing)
      else (MMEM_DUMP_RET_OK, Dump_counts (ms_count s)))"

definition mmem_dump_cmd_mmem_info :: "bool \<Rightarrow> u64 \<Rightarrow> mmem_state \<Rightarrow> int \<times> mmem_dump_data" where
  "mmem_dump_cmd_mmem_info buf_null buf_size s =
     (if buf_null then (MMEM_DUMP_RET_EMPTY_BUF, Dump_nothing)
      else if buf_size < 40 then (MMEM_DUMP_RET_BUF_SIZE_TOO_SMALL, Dump_nothing)
      else (MMEM_DUMP_RET_OK, Dump_info \<lparr>mi_counts = ms_count s, mi_total_size = ms_total_size s,
        mi_active_size = ms_active_size s, mi_max_total_size = ms_max_total_size s,
        mi_max_active_size = ms_max_active_size s\<rparr>))"

text \<open>The loop over the blocks; \<open>index\<close>, \<open>counts\<close> and the bytes left are compared unsigned.\<close>

partial_function (option) mmem_dump_walk ::
  "mmem_state \<Rightarrow> u64 \<Rightarrow> ptr \<Rightarrow> u64 \<Rightarrow> u64 \<Rightarrow> mmem_block_info list option" where
  "mmem_dump_walk s counts p index left =
     (if p = mmem_table_list then Some []
      else do {
        b \<leftarrow> ms_blocks s (p - MMEM_LIST_OFFSET);
        let info = \<lparr>mbi_size = mb_size b, mbi_total_size = mb_total_size b,
          mbi_file = mb_file b, mbi_line = mb_line b\<rparr>;
        let index = index + 1;
        if index \<ge> counts then Some [info]
        else do {
          let left = left - 32;
          if left < 32 then Some [info]
          else do {
            n \<leftarrow> get_next p (ms_nodes s);
            infos \<leftarrow> mmem_dump_walk s counts n index left;
            Some (info # infos) } } })"

definition mmem_dump_cmd_mmem_block_info ::
  "u64 \<Rightarrow> bool \<Rightarrow> u64 \<Rightarrow> mmem_state \<Rightarrow> (int \<times> mmem_dump_data) option" where
  "mmem_dump_cmd_mmem_block_info counts buf_null buf_size s =
     (if buf_null then Some (MMEM_DUMP_RET_EMPTY_BUF, Dump_nothing)
      else if buf_size < 32 then Some (MMEM_DUMP_RET_BUF_SIZE_TOO_SMALL, Dump_nothing)
      else if counts = 0 then Some (0, Dump_blocks [])
      else do {
        p \<leftarrow> get_next mmem_table_list (ms_nodes s);
        infos \<leftarrow> mmem_dump_walk s counts p 0 buf_size;
        Some (int (length infos), Dump_blocks infos) })"

definition mmem_dump ::
  "u64 \<Rightarrow> u64 \<Rightarrow> bool \<Rightarrow> u64 \<Rightarrow> mmem_state \<Rightarrow> ((int \<times> mmem_dump_data) \<times> mmem_state) option" where
  "mmem_dump cmd counts buf_null buf_size s = do {
     s \<leftarrow> mmem_lock s;
     s \<leftarrow> mmem_block_table_get s;
     r \<leftarrow> (if cmd = MMEM_DUMP_CMD_COUNTS then Some (mmem_dump_cmd_counts buf_null buf_size s)
          else if cmd = MMEM_DUMP_CMD_MMEM_INFO then Some (mmem_dump_cmd_mmem_info buf_null buf_size s)
          else if cmd = MMEM_DUMP_CMD_MMEM_BLOCK_INFO
            then mmem_dump_cmd_mmem_block_info counts buf_null buf_size s
          else Some (MMEM_DUMP_RET_INVALID_CMD, Dump_nothing));
     s \<leftarrow> mmem_unlock s;
     Some (r, s) }"

section \<open>Sizes and magic words\<close>

lemma MMEM_BLOCK_SIZE_eq: "MMEM_BLOCK_SIZE = 56"
  by (simp add: MMEM_BLOCK_SIZE_def mmem_align_def)

lemma unat_MMEM_BLOCK_SIZE [simp]: "unat MMEM_BLOCK_SIZE = 56"
  by (simp add: MMEM_BLOCK_SIZE_eq)

lemma unat_mmem_total_size:
  "unat sz + 64 < 2 ^ 64 \<Longrightarrow> unat (mmem_total_size sz) = unat sz + 64"
  by (simp add: mmem_total_size_def MMEM_BLOCK_SIZE_eq unat_word_ariths)

lemma length_long_of_string [simp]: "length (long_of_string s) = length s"
  by (simp add: long_of_string_def)

lemma length_tail_magics [simp]:
  "length MMEM_BLOCK_ACTIVE_TAIL_MAGIC = 8" "length MMEM_BLOCK_FREE_TAIL_MAGIC = 8"
  by (simp_all add: MMEM_BLOCK_ACTIVE_TAIL_MAGIC_def MMEM_BLOCK_FREE_TAIL_MAGIC_def)

lemma magics_differ [simp]:
  "MMEM_BLOCK_FREE_HEAD_MAGIC \<noteq> MMEM_BLOCK_ACTIVE_HEAD_MAGIC"
  "MMEM_BLOCK_FREE_TAIL_MAGIC \<noteq> MMEM_BLOCK_ACTIVE_TAIL_MAGIC"
  by (simp_all add: MMEM_BLOCK_FREE_HEAD_MAGIC_def MMEM_BLOCK_ACTIVE_HEAD_MAGIC_def
    MMEM_BLOCK_FREE_TAIL_MAGIC_def MMEM_BLOCK_ACTIVE_TAIL_MAGIC_def long_of_string_def)

text \<open>A block whose header and memory agree; the magics may have been overwritten by the user.\<close>

definition block_wf :: "mmem_block \<Rightarrow> bool" where
  "block_wf b \<longleftrightarrow> unat (mb_size b) + 64 < 2 ^ 64 \<and> mb_total_size b = mmem_total_size (mb_size b)
     \<and> length (mb_mem b) = unat (mb_size b) + 8"

definition block_data :: "mmem_block \<Rightarrow> bytes" where
  "block_data b = take (unat (mb_size b)) (mb_mem b)"

lemma block_wf_tail_ok: "block_wf b \<Longrightarrow> mb_tail_ok b"
  by (simp add: block_wf_def mb_tail_ok_def)

lemma block_wf_total:
  "block_wf b \<Longrightarrow> unat (mb_total_size b) = unat (mb_size b) + 64"
  by (simp add: block_wf_def unat_mmem_total_size)

lemma check_active_wf: "block_wf b \<Longrightarrow> \<exists>ok. mmem_check_block_magic_active b = Some ok"
  by (auto simp: mmem_check_block_magic_active_def mmem_block_tail_magic_def block_wf_tail_ok)

lemma set_tail_wf:
  assumes "mb_tail_ok b" and "length m = 8"
  shows "\<exists>b'. mmem_set_tail m b = Some b' \<and> mb_size b' = mb_size b
    \<and> mb_total_size b' = mb_total_size b \<and> mb_file b' = mb_file b \<and> mb_line b' = mb_line b
    \<and> mb_magic b' = mb_magic b \<and> length (mb_mem b') = length (mb_mem b)
    \<and> block_data b' = block_data b \<and> mmem_block_tail_magic b' = Some m"
proof -
  from assms have *: "unat (mb_size b) + length m \<le> length (mb_mem b)"
    by (simp add: mb_tail_ok_def)
  show ?thesis
    using assms mem_put_read [OF *]
    by (simp add: mmem_set_tail_def length_mem_put block_data_def mem_put_prefix
        mb_tail_ok_def mmem_block_tail_magic_def)
qed

lemma set_active_wf:
  assumes "mb_tail_ok b"
  shows "\<exists>b'. mmem_set_block_magic_active b = Some b' \<and> mb_size b' = mb_size b
    \<and> mb_total_size b' = mb_total_size b \<and> mb_file b' = mb_file b \<and> mb_line b' = mb_line b
    \<and> length (mb_mem b') = length (mb_mem b) \<and> block_data b' = block_data b
    \<and> mmem_check_block_magic_active b' = Some True"
proof -
  let ?b = "b\<lparr>mb_magic := MMEM_BLOCK_ACTIVE_HEAD_MAGIC\<rparr>"
  have "mb_tail_ok ?b" using assms by (simp add: mb_tail_ok_def)
  from set_tail_wf [OF this, of MMEM_BLOCK_ACTIVE_TAIL_MAGIC]
  obtain b' where b': "mmem_set_block_magic_active b = Some b'" "mb_size b' = mb_size b"
    "mb_total_size b' = mb_total_size b" "mb_file b' = mb_file b" "mb_line b' = mb_line b"
    "mb_magic b' = MMEM_BLOCK_ACTIVE_HEAD_MAGIC" "length (mb_mem b') = length (mb_mem b)"
    "block_data b' = block_data ?b" "mmem_block_tail_magic b' = Some MMEM_BLOCK_ACTIVE_TAIL_MAGIC"
    by (auto simp: mmem_set_block_magic_active_def)
  moreover have "block_data ?b = block_data b" by (simp add: block_data_def)
  moreover have "mmem_check_block_magic_active b' = Some True"
    using b' by (simp add: mmem_check_block_magic_active_def)
  ultimately show ?thesis by simp
qed

lemma set_free_wf:
  assumes "mb_tail_ok b"
  shows "\<exists>b'. mmem_set_block_magic_free b = Some b' \<and> mb_size b' = mb_size b
    \<and> mb_total_size b' = mb_total_size b \<and> mb_file b' = mb_file b \<and> mb_line b' = mb_line b
    \<and> length (mb_mem b') = length (mb_mem b) \<and> block_data b' = block_data b
    \<and> mmem_check_block_magic_active b' = Some False"
proof -
  let ?b = "b\<lparr>mb_magic := MMEM_BLOCK_FREE_HEAD_MAGIC\<rparr>"
  have "mb_tail_ok ?b" using assms by (simp add: mb_tail_ok_def)
  from set_tail_wf [OF this, of MMEM_BLOCK_FREE_TAIL_MAGIC]
  obtain b' where b': "mmem_set_block_magic_free b = Some b'" "mb_size b' = mb_size b"
    "mb_total_size b' = mb_total_size b" "mb_file b' = mb_file b" "mb_line b' = mb_line b"
    "mb_magic b' = MMEM_BLOCK_FREE_HEAD_MAGIC" "length (mb_mem b') = length (mb_mem b)"
    "block_data b' = block_data ?b" "mmem_block_tail_magic b' = Some MMEM_BLOCK_FREE_TAIL_MAGIC"
    by (auto simp: mmem_set_block_magic_free_def)
  moreover have "block_data ?b = block_data b" by (simp add: block_data_def)
  moreover have "mmem_check_block_magic_active b' = Some False"
    using b' by (simp add: mmem_check_block_magic_active_def)
  ultimately show ?thesis by simp
qed

section \<open>The block table\<close>

text \<open>
  \<open>mmem_ok s bs D\<close>: the live blocks are those of the list \<open>bs\<close>, in list order, and those of
  \<open>D\<close>, which the list does not hold at the moment; the table's counters describe \<open>bs\<close>.
\<close>

definition nat_total :: "mmem_state \<Rightarrow> ptr list \<Rightarrow> nat" where
  "nat_total s bs = (\<Sum>p\<leftarrow>bs. unat (mb_total_size (the (ms_blocks s p))))"

definition nat_active :: "mmem_state \<Rightarrow> ptr list \<Rightarrow> nat" where
  "nat_active s bs = (\<Sum>p\<leftarrow>bs. unat (mb_size (the (ms_blocks s p))))"

definition mmem_heap_ok :: "mmem_state \<Rightarrow> ptr list \<Rightarrow> ptr set \<Rightarrow> bool" where
  "mmem_heap_ok s bs D \<longleftrightarrow>
     dom (ms_blocks s) = set bs \<union> D \<and> set bs \<inter> D = {} \<and> NULL \<notin> set bs \<union> D
     \<and> dom (ms_nodes s) = insert mmem_table_list (mmem_list_node ` (set bs \<union> D))
     \<and> mmem_table_list \<notin> mmem_list_node ` (set bs \<union> D)
     \<and> distinct bs \<and> (\<forall>p \<in> set bs. block_wf (the (ms_blocks s p)))"

definition mmem_list_ok :: "mmem_state \<Rightarrow> ptr list \<Rightarrow> bool" where
  "mmem_list_ok s bs \<longleftrightarrow>
     (if ms_table_ready s then mring (ms_nodes s) mmem_table_list (map mmem_list_node bs) else bs = [])"

definition mmem_count_ok :: "mmem_state \<Rightarrow> ptr list \<Rightarrow> bool" where
  "mmem_count_ok s bs \<longleftrightarrow>
     ms_count s = of_nat (length bs)
     \<and> unat (ms_total_size s) = nat_total s bs \<and> unat (ms_active_size s) = nat_active s bs
     \<and> ms_total_size s \<le> ms_max_total_size s \<and> ms_active_size s \<le> ms_max_active_size s"

definition mmem_ok :: "mmem_state \<Rightarrow> ptr list \<Rightarrow> ptr set \<Rightarrow> bool" where
  "mmem_ok s bs D \<longleftrightarrow> mmem_heap_ok s bs D \<and> mmem_list_ok s bs \<and> mmem_count_ok s bs"

lemmas mmem_ok_defs = mmem_ok_def mmem_heap_ok_def mmem_list_ok_def mmem_count_ok_def

definition mmem_inv :: "mmem_state \<Rightarrow> ptr list \<Rightarrow> bool" where
  "mmem_inv s bs \<longleftrightarrow> mmem_ok s bs {} \<and> \<not> ms_locked s"

lemma inj_mmem_list_node [simp]: "mmem_list_node p = mmem_list_node q \<longleftrightarrow> p = q"
  by (simp add: mmem_list_node_def)

lemma mmem_init_inv: "mmem_inv mmem_init_state []"
  by (auto simp: mmem_inv_def mmem_ok_defs mmem_init_state_def nat_total_def nat_active_def
      split: if_splits)

lemma mmem_lock_Some [simp]: "\<not> ms_locked s \<Longrightarrow> mmem_lock s = Some (s\<lparr>ms_locked := True\<rparr>)"
  by (simp add: mmem_lock_def)

lemma mmem_unlock_Some [simp]: "ms_locked s \<Longrightarrow> mmem_unlock s = Some (s\<lparr>ms_locked := False\<rparr>)"
  by (simp add: mmem_unlock_def)

lemma mmem_ok_locked [simp]: "mmem_ok (s\<lparr>ms_locked := b\<rparr>) bs D = mmem_ok s bs D"
  by (simp add: mmem_ok_defs nat_total_def nat_active_def)

lemma table_get_ok:
  assumes "mmem_ok s bs D"
  shows "\<exists>s'. mmem_block_table_get s = Some s' \<and> mmem_ok s' bs D \<and> ms_table_ready s'
    \<and> ms_blocks s' = ms_blocks s \<and> ms_locked s' = ms_locked s \<and> ms_total_size s' = ms_total_size s
    \<and> ms_max_total_size s' = ms_max_total_size s \<and> ms_max_active_size s' = ms_max_active_size s
    \<and> ms_count s' = ms_count s \<and> ms_active_size s' = ms_active_size s"
proof (cases "ms_table_ready s")
  case True
  with assms show ?thesis by (simp add: mmem_block_table_get_def)
next
  case False
  with assms have bs: "bs = []" by (simp add: mmem_ok_defs)
  then have z: "ms_total_size s = 0" "ms_active_size s = 0"
    using assms by (auto simp: mmem_ok_defs nat_total_def nat_active_def unat_eq_zero)
  have "ms_nodes s mmem_table_list \<noteq> None" using assms by (auto simp: mmem_ok_defs)
  then obtain h where "mlist_init mmem_table_list (ms_nodes s) = Some h" "mring h mmem_table_list []"
    "dom h = dom (ms_nodes s)"
    using mlist_init_ring by blast
  with False assms bs z show ?thesis
    by (simp add: mmem_block_table_get_def mmem_ok_defs nat_total_def nat_active_def)
qed

text \<open>Counters depend on the blocks of the list only.\<close>

lemma mmem_count_cong:
  assumes "\<And>p. p \<in> set bs \<Longrightarrow> ms_blocks s' p = ms_blocks s p"
    and "ms_count s' = ms_count s" "ms_total_size s' = ms_total_size s"
    "ms_active_size s' = ms_active_size s" "ms_max_total_size s' = ms_max_total_size s"
    "ms_max_active_size s' = ms_max_active_size s"
  shows "mmem_count_ok s' bs = mmem_count_ok s bs"
proof -
  have "nat_total s' bs = nat_total s bs" "nat_active s' bs = nat_active s bs"
    using assms(1) by (auto simp: nat_total_def nat_active_def intro!: arg_cong [of _ _ sum_list])
  with assms(2-) show ?thesis by (simp add: mmem_count_ok_def)
qed

lemma table_nodes_ne:
  "\<lbrakk>r \<notin> set bs; mmem_list_node r \<noteq> mmem_table_list;
    p \<in> set (mmem_table_list # map mmem_list_node bs)\<rbrakk> \<Longrightarrow> p \<noteq> mmem_list_node r"
  by auto

lemma mmem_list_ring_upd:
  assumes "mmem_list_ok s bs" "r \<notin> set bs"
    "mmem_list_node r \<noteq> mmem_table_list" "ms_table_ready s' = ms_table_ready s"
    "\<And>q. q \<noteq> mmem_list_node r \<Longrightarrow> ms_nodes s' q = ms_nodes s q"
  shows "mmem_list_ok s' bs"
proof -
  have "ms_nodes s' p = ms_nodes s p" if "p \<in> set (mmem_table_list # map mmem_list_node bs)" for p
    using assms(5) table_nodes_ne [OF assms(2,3) that] by simp
  with assms(1,4) show ?thesis
    by (auto simp: mmem_list_ok_def intro!: mring_cong [of "ms_nodes s"] split: if_splits)
qed

definition real_alloc_ok :: "mmem_state \<Rightarrow> ptr \<Rightarrow> u64 \<Rightarrow> bool" where
  "real_alloc_ok s r tot \<longleftrightarrow> r \<noteq> NULL \<and> r \<notin> dom (ms_blocks s)
     \<and> mmem_list_node r \<noteq> mmem_table_list \<and> unat (ms_total_size s) + unat tot < 2 ^ 64"

lemma heap_new_ok:
  assumes ok: "mmem_ok s bs D" and r: "r \<noteq> NULL" "r \<notin> dom (ms_blocks s)"
    "mmem_list_node r \<noteq> mmem_table_list" and tot: "56 \<le> unat tot"
  shows "\<exists>s'. mmem_heap_new r tot f s = Some s' \<and> mmem_ok s' bs (insert r D)
    \<and> ms_blocks s' = (ms_blocks s)(r \<mapsto> mmem_raw_block (map f [0..<unat tot - 56]))
    \<and> ms_table_ready s' = ms_table_ready s \<and> ms_locked s' = ms_locked s
    \<and> ms_total_size s' = ms_total_size s"
proof -
  let ?s = "s\<lparr>ms_blocks := (ms_blocks s)(r \<mapsto> mmem_raw_block (map f [0..<unat tot - 56])),
    ms_nodes := (ms_nodes s)(mmem_list_node r \<mapsto> \<lparr>m_prev = NULL, m_next = NULL\<rparr>)\<rparr>"
  have rn: "r \<notin> set bs \<union> D" using ok r(2) by (auto simp: mmem_ok_def mmem_heap_ok_def)
  have "mmem_heap_ok ?s bs (insert r D)"
    using ok r rn by (auto simp: mmem_ok_def mmem_heap_ok_def)
  moreover have "mmem_list_ok ?s bs"
    by (rule mmem_list_ring_upd [of s bs r]) (use ok r rn in \<open>auto simp: mmem_ok_def\<close>)
  moreover have "mmem_count_ok ?s bs"
    by (subst mmem_count_cong [of bs _ s]) (use ok rn in \<open>auto simp: mmem_ok_def\<close>)
  ultimately show ?thesis using tot by (simp add: mmem_heap_new_def mmem_ok_def)
qed

lemma real_free_ok:
  assumes ok: "mmem_ok s bs D" and r: "r \<in> D"
  shows "\<exists>s'. mmem_real_free r s = Some s' \<and> mmem_ok s' bs (D - {r})
    \<and> ms_blocks s' = (ms_blocks s)(r := None)
    \<and> ms_table_ready s' = ms_table_ready s \<and> ms_locked s' = ms_locked s
    \<and> ms_total_size s' = ms_total_size s"
proof -
  let ?s = "s\<lparr>ms_blocks := (ms_blocks s)(r := None), ms_nodes := (ms_nodes s)(mmem_list_node r := None)\<rparr>"
  have rn: "r \<notin> set bs" using ok r by (auto simp: mmem_ok_def mmem_heap_ok_def)
  have tl: "mmem_list_node r \<noteq> mmem_table_list"
    using ok r unfolding mmem_ok_def mmem_heap_ok_def by (metis UnI2 imageI)
  have "mmem_heap_ok ?s bs (D - {r})"
    using ok r rn by (auto simp: mmem_ok_def mmem_heap_ok_def)
  moreover have "mmem_list_ok ?s bs"
    by (rule mmem_list_ring_upd [of s bs r])
      (use ok r rn in \<open>auto simp: mmem_ok_def mmem_heap_ok_def image_iff tl\<close>)
  moreover have "mmem_count_ok ?s bs"
    by (subst mmem_count_cong [of bs _ s]) (use ok rn in \<open>auto simp: mmem_ok_def\<close>)
  ultimately show ?thesis by (simp add: mmem_real_free_def mmem_ok_def)
qed

lemma modify_detached_ok:
  assumes ok: "mmem_ok s bs D" and r: "r \<in> D" "ms_blocks s r = Some b" "f b = Some b'"
  shows "\<exists>s'. mmem_modify_block r f s = Some s' \<and> mmem_ok s' bs D
    \<and> ms_blocks s' = (ms_blocks s)(r \<mapsto> b')
    \<and> ms_table_ready s' = ms_table_ready s \<and> ms_locked s' = ms_locked s
    \<and> ms_total_size s' = ms_total_size s"
proof -
  let ?s = "s\<lparr>ms_blocks := (ms_blocks s)(r \<mapsto> b')\<rparr>"
  have rn: "r \<notin> set bs" using ok r by (auto simp: mmem_ok_def mmem_heap_ok_def)
  have "mmem_heap_ok ?s bs D" using ok r rn by (auto simp: mmem_ok_def mmem_heap_ok_def)
  moreover have "mmem_list_ok ?s bs" using ok by (simp add: mmem_ok_def mmem_list_ok_def)
  moreover have "mmem_count_ok ?s bs"
    by (subst mmem_count_cong [of bs _ s]) (use ok rn in \<open>auto simp: mmem_ok_def\<close>)
  ultimately show ?thesis using r by (simp add: mmem_modify_block_def mmem_ok_def)
qed

lemma modify_listed_ok:
  assumes ok: "mmem_ok s bs D" and r: "r \<in> set bs" "ms_blocks s r = Some b" "f b = Some b'"
    and same: "mb_size b' = mb_size b" "mb_total_size b' = mb_total_size b"
      "length (mb_mem b') = length (mb_mem b)"
  shows "\<exists>s'. mmem_modify_block r f s = Some s' \<and> mmem_ok s' bs D
    \<and> ms_blocks s' = (ms_blocks s)(r \<mapsto> b')
    \<and> ms_table_ready s' = ms_table_ready s \<and> ms_locked s' = ms_locked s
    \<and> ms_total_size s' = ms_total_size s"
proof -
  let ?s = "s\<lparr>ms_blocks := (ms_blocks s)(r \<mapsto> b')\<rparr>"
  have "block_wf b" using ok r by (auto simp: mmem_ok_def mmem_heap_ok_def)
  then have "block_wf b'" using same by (simp add: block_wf_def)
  then have "mmem_heap_ok ?s bs D" using ok r by (auto simp: mmem_ok_def mmem_heap_ok_def)
  moreover have "mmem_list_ok ?s bs" using ok by (simp add: mmem_ok_def mmem_list_ok_def)
  moreover have "mmem_count_ok ?s bs"
  proof -
    have "nat_total ?s bs = nat_total s bs" "nat_active ?s bs = nat_active s bs"
      using r same by (auto simp: nat_total_def nat_active_def intro!: arg_cong [of _ _ sum_list])
    then show ?thesis using ok by (simp add: mmem_ok_def mmem_count_ok_def)
  qed
  ultimately show ?thesis using r by (simp add: mmem_modify_block_def mmem_ok_def)
qed

lemma enlist_ok:
  assumes ok: "mmem_ok s bs D" and ready: "ms_table_ready s"
    and r: "r \<in> D" "ms_blocks s r = Some b" "block_wf b"
    and fits: "unat (ms_total_size s) + unat (mb_total_size b) < 2 ^ 64"
  shows "\<exists>s'. mmem_enlist r s = Some s' \<and> mmem_ok s' (bs @ [r]) (D - {r})
    \<and> ms_blocks s' = ms_blocks s \<and> ms_table_ready s' \<and> ms_locked s' = ms_locked s"
proof -
  let ?r = "mmem_list_node r" and ?t = mmem_table_list
  have h: "mmem_heap_ok s bs D" "mring (ms_nodes s) ?t (map mmem_list_node bs)" "mmem_count_ok s bs"
    using ok ready by (auto simp: mmem_ok_def mmem_list_ok_def)
  have rn: "r \<notin> set bs" "?r \<noteq> ?t" "ms_nodes s ?r \<noteq> None"
    using h(1) r(1) unfolding mmem_heap_ok_def by (blast, metis UnI2 imageI, blast)
  obtain h1 where h1: "mlist_init ?r (ms_nodes s) = Some h1" "\<forall>q. q \<noteq> ?r \<longrightarrow> h1 q = ms_nodes s q"
    "dom h1 = dom (ms_nodes s)"
    using mlist_init_ring [of "ms_nodes s" ?r] rn(3) by blast
  have ring1: "mring h1 ?t (map mmem_list_node bs)"
    by (rule mring_cong [OF h(2)]) (use h1(2) table_nodes_ne [OF rn(1,2)] in blast)
  have "h1 ?r \<noteq> None" using h1(3) rn(3) by blast
  moreover have "?r \<notin> set (?t # map mmem_list_node bs)" using rn by auto
  ultimately obtain h2 where h2: "mlist_add_tail ?t ?r h1 = Some h2"
    "mring h2 ?t (map mmem_list_node bs @ [?r])" "dom h2 = dom h1"
    using mlist_add_tail_ring [OF ring1] by blast
  let ?tot = "ms_total_size s + mb_total_size b" and ?act = "ms_active_size s + mb_size b"
  let ?s = "s\<lparr>ms_nodes := h2, ms_count := ms_count s + 1, ms_total_size := ?tot,
    ms_active_size := ?act,
    ms_max_active_size := (if ?act > ms_max_active_size s then ?act else ms_max_active_size s),
    ms_max_total_size := (if ?tot > ms_max_total_size s then ?tot else ms_max_total_size s)\<rparr>"
  have "mmem_enlist r s = Some ?s"
    using h1(1) h2(1) r(2) by (simp add: mmem_enlist_def mmem_block_add_def Let_def)
  moreover have "?tot \<le> ms_max_total_size ?s" "?act \<le> ms_max_active_size ?s"
    by (simp_all add: not_less)
  ultimately obtain s' where run: "mmem_enlist r s = Some s'"
    and s': "ms_nodes s' = h2" "ms_blocks s' = ms_blocks s"
    "ms_count s' = ms_count s + 1" "ms_total_size s' = ?tot" "ms_active_size s' = ?act"
    "?tot \<le> ms_max_total_size s'" "?act \<le> ms_max_active_size s'" "ms_table_ready s'"
    "ms_locked s' = ms_locked s"
    using ready that by simp
  have "nat_active s bs \<le> nat_total s bs"
    unfolding nat_active_def nat_total_def
    by (rule sum_list_mono) (use h(1) block_wf_total in \<open>fastforce simp: mmem_heap_ok_def\<close>)
  then have "unat (ms_active_size s) + unat (mb_size b) < 2 ^ 64"
    using fits h(3) block_wf_total [OF r(3)] by (simp add: mmem_count_ok_def)
  then have "unat ?act = unat (ms_active_size s) + unat (mb_size b)"
    "unat ?tot = unat (ms_total_size s) + unat (mb_total_size b)"
    using fits by (simp_all add: unat_word_ariths)
  then have "mmem_count_ok s' (bs @ [r])"
    using h(3) s' r(2) by (simp add: mmem_count_ok_def nat_total_def nat_active_def)
  moreover have "mmem_list_ok s' (bs @ [r])" using s' h2(2) by (simp add: mmem_list_ok_def)
  moreover have "mmem_heap_ok s' (bs @ [r]) (D - {r})"
  proof -
    have "set bs \<union> D = set (bs @ [r]) \<union> (D - {r})" using r(1) by auto
    then show ?thesis
      using h(1) s' h1(3) h2(3) rn(1) r unfolding mmem_heap_ok_def by auto
  qed
  ultimately show ?thesis using run s' by (auto simp: mmem_ok_def)
qed

lemma block_del_ok:
  assumes ok: "mmem_ok s (us @ r # vs) D" and ready: "ms_table_ready s"
  shows "\<exists>s'. mmem_block_del r s = Some s' \<and> mmem_ok s' (us @ vs) (insert r D)
    \<and> ms_blocks s' = ms_blocks s \<and> ms_table_ready s' \<and> ms_locked s' = ms_locked s
    \<and> unat (ms_total_size s) = unat (ms_total_size s') + unat (mb_total_size (the (ms_blocks s r)))"
proof -
  let ?r = "mmem_list_node r" and ?t = mmem_table_list
  have h: "mmem_heap_ok s (us @ r # vs) D" "mmem_count_ok s (us @ r # vs)"
    "mring (ms_nodes s) ?t (map mmem_list_node us @ ?r # map mmem_list_node vs)"
    using ok ready by (auto simp: mmem_ok_def mmem_list_ok_def)
  have "r \<in> dom (ms_blocks s)" using h(1) by (simp add: mmem_heap_ok_def)
  then obtain b where b: "ms_blocks s r = Some b" by blast
  obtain h' where h': "mlist_del ?r (ms_nodes s) = Some h'"
    "mring h' ?t (map mmem_list_node us @ map mmem_list_node vs)" "dom h' = dom (ms_nodes s)"
    using mlist_del_ring [OF h(3)] by blast
  let ?s = "s\<lparr>ms_nodes := h', ms_count := ms_count s - 1,
       ms_total_size := ms_total_size s - mb_total_size b,
       ms_active_size := ms_active_size s - mb_size b\<rparr>"
  have run: "mmem_block_del r s = Some ?s" using b h'(1) by (simp add: mmem_block_del_def)
  have tot: "nat_total s (us @ r # vs) = nat_total s (us @ vs) + unat (mb_total_size b)"
    "nat_active s (us @ r # vs) = nat_active s (us @ vs) + unat (mb_size b)"
    using b by (simp_all add: nat_total_def nat_active_def)
  have nat: "nat_total ?s xs = nat_total s xs" "nat_active ?s xs = nat_active s xs" for xs
    by (simp_all add: nat_total_def nat_active_def)
  have sub: "unat (ms_total_size s - mb_total_size b) = nat_total s (us @ vs)"
    "unat (ms_active_size s - mb_size b) = nat_active s (us @ vs)"
    using h(2) tot by (simp_all add: mmem_count_ok_def unat_sub_nowrap)
  have le: "mb_total_size b \<le> ms_total_size s" "mb_size b \<le> ms_active_size s"
    using h(2) tot by (simp_all add: mmem_count_ok_def word_le_nat_alt)
  have "mmem_count_ok ?s (us @ vs)"
    using h(2) sub le nat
    by (auto simp: mmem_count_ok_def intro: order_trans [OF word_sub_le])
  moreover have "mmem_list_ok ?s (us @ vs)" using h'(2) ready by (simp add: mmem_list_ok_def)
  moreover have "mmem_heap_ok ?s (us @ vs) (insert r D)"
  proof -
    have "set (us @ r # vs) \<union> D = set (us @ vs) \<union> insert r D" by auto
    then show ?thesis using h(1) h'(3) unfolding mmem_heap_ok_def by auto
  qed
  moreover have "unat (ms_total_size s) = unat (ms_total_size ?s) + unat (mb_total_size b)"
    using h(2) tot sub by (simp add: mmem_count_ok_def)
  ultimately show ?thesis using run b ready by (simp add: mmem_ok_def)
qed

section \<open>Allocation\<close>

text \<open>A live block of \<open>sz\<close> bytes of contents \<open>d\<close>, with its magics in place.\<close>

definition live_block :: "u64 \<Rightarrow> bytes \<Rightarrow> string \<Rightarrow> u32 \<Rightarrow> mmem_block \<Rightarrow> bool" where
  "live_block sz d file line b \<longleftrightarrow> mb_size b = sz \<and> mb_total_size b = mmem_total_size sz
     \<and> block_wf b \<and> block_data b = d \<and> mb_file b = file \<and> mb_line b = scast line
     \<and> mmem_check_block_magic_active b = Some True"

lemma setup_detached_ok:
  assumes ok: "mmem_ok s bs D" and r: "r \<in> D" "ms_blocks s r = Some b0"
    and sz: "unat sz + 64 < 2 ^ 64" "length (mb_mem b0) = unat sz + 8"
    and fits: "unat (ms_total_size s) + unat (mmem_total_size sz) < 2 ^ 64"
  shows "\<exists>s' b. mmem_setup_block r sz (mmem_total_size sz) file line s = Some s'
    \<and> mmem_ok s' (bs @ [r]) (D - {r}) \<and> ms_locked s' = ms_locked s
    \<and> ms_blocks s' = (ms_blocks s)(r \<mapsto> b) \<and> live_block sz (take (unat sz) (mb_mem b0)) file line b"
proof -
  let ?b1 = "mmem_block_update sz (mmem_total_size sz) file (scast line) b0"
  obtain s1 where s1: "mmem_modify_block r (\<lambda>b. Some (mmem_block_update sz (mmem_total_size sz) file (scast line) b)) s = Some s1"
    "mmem_ok s1 bs D" "ms_blocks s1 = (ms_blocks s)(r \<mapsto> ?b1)" "ms_locked s1 = ms_locked s"
    "ms_total_size s1 = ms_total_size s"
    using modify_detached_ok [OF ok r, of "\<lambda>b. Some (mmem_block_update sz (mmem_total_size sz) file (scast line) b)"]
    by auto
  have "mb_tail_ok ?b1" using sz(2) by (simp add: mb_tail_ok_def mmem_block_update_def)
  then obtain b where b: "mmem_set_block_magic_active ?b1 = Some b" "mb_size b = sz"
    "mb_total_size b = mmem_total_size sz" "mb_file b = file" "mb_line b = scast line"
    "length (mb_mem b) = unat sz + 8" "block_data b = take (unat sz) (mb_mem b0)"
    "mmem_check_block_magic_active b = Some True"
    using set_active_wf [of ?b1] sz(2) by (auto simp: mmem_block_update_def block_data_def)
  then have live: "live_block sz (take (unat sz) (mb_mem b0)) file line b"
    using sz(1) by (simp add: live_block_def block_wf_def)
  obtain s2 where s2: "mmem_modify_block r mmem_set_block_magic_active s1 = Some s2" "mmem_ok s2 bs D"
    "ms_blocks s2 = (ms_blocks s)(r \<mapsto> b)" "ms_locked s2 = ms_locked s"
    "ms_total_size s2 = ms_total_size s"
    using modify_detached_ok [of s1 bs D r ?b1 mmem_set_block_magic_active b] s1(2-5) r(1) b(1) by auto
  obtain s3 where s3: "mmem_block_table_get s2 = Some s3" "mmem_ok s3 bs D" "ms_table_ready s3"
    "ms_blocks s3 = (ms_blocks s)(r \<mapsto> b)" "ms_locked s3 = ms_locked s"
    "ms_total_size s3 = ms_total_size s"
    using table_get_ok [OF s2(2)] s2(3-5) by auto
  have "ms_blocks s3 r = Some b" using s3(4) by simp
  moreover have "block_wf b" using live by (simp add: live_block_def)
  moreover have "unat (ms_total_size s3) + unat (mb_total_size b) < 2 ^ 64"
    using fits s3(6) b(3) by simp
  ultimately obtain s' where "mmem_enlist r s3 = Some s'" "mmem_ok s' (bs @ [r]) (D - {r})"
    "ms_blocks s' = ms_blocks s3" "ms_locked s' = ms_locked s3"
    using enlist_ok [OF s3(2,3) r(1)] by blast
  with s1(1) s2(1) s3 live show ?thesis by (auto simp: mmem_setup_block_def)
qed

lemma new_block_ok:
  assumes ok: "mmem_ok s bs {}" and sz: "unat sz + 64 < 2 ^ 64"
    and r: "real_alloc_ok s r (mmem_total_size sz)"
  shows "\<exists>s1 s' b. mmem_heap_new r (mmem_total_size sz) f s = Some s1
    \<and> mmem_setup_block r sz (mmem_total_size sz) file line s1 = Some s'
    \<and> mmem_ok s' (bs @ [r]) {} \<and> ms_locked s' = ms_locked s
    \<and> ms_blocks s' = (ms_blocks s)(r \<mapsto> b) \<and> live_block sz (map f [0..<unat sz]) file line b"
proof -
  have tot: "unat (mmem_total_size sz) = unat sz + 64" using sz by (rule unat_mmem_total_size)
  then have d: "56 \<le> unat (mmem_total_size sz)" "unat (mmem_total_size sz) - 56 = unat sz + 8"
    by simp_all
  with r obtain s1 where s1: "mmem_heap_new r (mmem_total_size sz) f s = Some s1" "mmem_ok s1 bs {r}"
    "ms_blocks s1 = (ms_blocks s)(r \<mapsto> mmem_raw_block (map f [0..<unat sz + 8]))"
    "ms_locked s1 = ms_locked s" "ms_total_size s1 = ms_total_size s"
    using heap_new_ok [OF ok, of r "mmem_total_size sz" f] unfolding d real_alloc_ok_def by blast
  have "\<exists>s' b. mmem_setup_block r sz (mmem_total_size sz) file line s1 = Some s'
    \<and> mmem_ok s' (bs @ [r]) ({r} - {r}) \<and> ms_locked s' = ms_locked s1
    \<and> ms_blocks s' = (ms_blocks s1)(r \<mapsto> b)
    \<and> live_block sz (take (unat sz) (mb_mem (mmem_raw_block (map f [0..<unat sz + 8])))) file line b"
    by (rule setup_detached_ok [OF s1(2)])
      (use s1 sz r in \<open>auto simp: mmem_raw_block_def real_alloc_ok_def\<close>)
  with s1 show ?thesis by (auto simp: mmem_raw_block_def take_map)
qed

lemma alloc_ok:
  assumes inv: "mmem_inv s bs" and sz: "sz \<noteq> 0" "unat sz + 64 < 2 ^ 64"
    and r: "real_alloc_ok s r (mmem_total_size sz)"
  shows "\<exists>s' b. mmem_alloc r f sz file line s = Some (mmem_block_data r, s') \<and> mmem_inv s' (bs @ [r])
    \<and> ms_blocks s' = (ms_blocks s)(r \<mapsto> b) \<and> live_block sz (map f [0..<unat sz]) file line b"
proof -
  have ok: "mmem_ok (s\<lparr>ms_locked := True\<rparr>) bs {}" and lock: "\<not> ms_locked s"
    using inv by (simp_all add: mmem_inv_def)
  have r': "real_alloc_ok (s\<lparr>ms_locked := True\<rparr>) r (mmem_total_size sz)"
    using r by (simp add: real_alloc_ok_def)
  obtain s1 s2 b where "mmem_heap_new r (mmem_total_size sz) f (s\<lparr>ms_locked := True\<rparr>) = Some s1"
    "mmem_setup_block r sz (mmem_total_size sz) file line s1 = Some s2" "mmem_ok s2 (bs @ [r]) {}"
    "ms_locked s2" "ms_blocks s2 = (ms_blocks s)(r \<mapsto> b)"
    "live_block sz (map f [0..<unat sz]) file line b"
    using new_block_ok [OF ok sz(2) r', of f "file" line] by auto
  moreover have "r \<noteq> NULL" using r by (simp add: real_alloc_ok_def)
  ultimately show ?thesis
    using lock sz(1) by (auto simp: mmem_alloc_def mmem_inv_def Let_def)
qed

text \<open>The product \<open>counts * item\<close> wraps; what is allocated is the wrapped size.\<close>

lemma calloc_wrapped_ok:
  assumes inv: "mmem_inv s bs" and nz: "counts \<noteq> 0" "item \<noteq> 0"
    and sz: "unat (counts * item) + 64 < 2 ^ 64"
    and r: "real_alloc_ok s r (mmem_total_size (counts * item))"
  shows "\<exists>s' b. mmem_calloc r counts item file line s = Some (mmem_block_data r, s')
    \<and> mmem_inv s' (bs @ [r]) \<and> ms_blocks s' = (ms_blocks s)(r \<mapsto> b)
    \<and> live_block (counts * item) (replicate (unat (counts * item)) 0) file line b"
proof -
  have ok: "mmem_ok (s\<lparr>ms_locked := True\<rparr>) bs {}" and lock: "\<not> ms_locked s"
    using inv by (simp_all add: mmem_inv_def)
  have r': "real_alloc_ok (s\<lparr>ms_locked := True\<rparr>) r (mmem_total_size (counts * item))"
    using r by (simp add: real_alloc_ok_def)
  have z: "map (\<lambda>_. 0 :: u8) [0..<n] = replicate n 0" for n by (simp add: map_replicate_const)
  obtain s1 s2 b
    where "mmem_heap_new r (mmem_total_size (counts * item)) (\<lambda>_. 0) (s\<lparr>ms_locked := True\<rparr>) = Some s1"
    "mmem_setup_block r (counts * item) (mmem_total_size (counts * item)) file line s1 = Some s2"
    "mmem_ok s2 (bs @ [r]) {}" "ms_locked s2" "ms_blocks s2 = (ms_blocks s)(r \<mapsto> b)"
    "live_block (counts * item) (replicate (unat (counts * item)) 0) file line b"
    using new_block_ok [OF ok sz r', of "\<lambda>_. 0" "file" line] by (auto simp: z)
  moreover have "r \<noteq> NULL" using r by (simp add: real_alloc_ok_def)
  ultimately show ?thesis
    using lock nz by (auto simp: mmem_calloc_def mmem_inv_def Let_def)
qed

lemma calloc_ok:
  assumes "mmem_inv s bs" "counts \<noteq> 0" "item \<noteq> 0" and sz: "unat counts * unat item + 64 < 2 ^ 64"
    and "real_alloc_ok s r (mmem_total_size (counts * item))"
  shows "\<exists>s' b. mmem_calloc r counts item file line s = Some (mmem_block_data r, s')
    \<and> mmem_inv s' (bs @ [r]) \<and> ms_blocks s' = (ms_blocks s)(r \<mapsto> b)
    \<and> live_block (counts * item) (replicate (unat counts * unat item) 0) file line b"
proof -
  have u: "unat (counts * item) = unat counts * unat item" using sz by (simp add: unat_mult_nowrap)
  then have "unat (counts * item) + 64 < 2 ^ 64" using sz by simp
  from calloc_wrapped_ok [OF assms(1-3) this assms(5), of "file" line] show ?thesis
    unfolding u .
qed

section \<open>Release and reallocation\<close>

lemma mmem_get_block_data [simp]: "mmem_get_block (mmem_block_data p) = p"
  by (simp add: mmem_get_block_def mmem_block_data_def)

lemma mmem_block_data_nz [simp]: "mmem_block_data p \<noteq> NULL"
  by (simp add: mmem_block_data_def)

lemma mmem_ok_listed:
  assumes "mmem_ok s bs D" and "r \<in> set bs"
  shows "\<exists>b. ms_blocks s r = Some b \<and> block_wf b"
proof -
  have "r \<in> dom (ms_blocks s)" using assms by (simp add: mmem_ok_def mmem_heap_ok_def)
  then obtain b where "ms_blocks s r = Some b" by blast
  then show ?thesis using assms by (fastforce simp: mmem_ok_def mmem_heap_ok_def)
qed

text \<open>Magic to free, table looked up, block off the list: how free and realloc begin.\<close>

lemma retire_ok:
  assumes ok: "mmem_ok s (us @ r # vs) {}" and b: "ms_blocks s r = Some b"
  shows "\<exists>s1 s2 s3 b'. mmem_modify_block r mmem_set_block_magic_free s = Some s1
    \<and> mmem_block_table_get s1 = Some s2 \<and> mmem_block_del r s2 = Some s3
    \<and> mmem_ok s3 (us @ vs) {r} \<and> ms_table_ready s3 \<and> ms_locked s3 = ms_locked s
    \<and> ms_blocks s3 = (ms_blocks s)(r \<mapsto> b') \<and> mb_size b' = mb_size b
    \<and> mb_total_size b' = mb_total_size b \<and> mb_file b' = mb_file b \<and> mb_line b' = mb_line b
    \<and> length (mb_mem b') = length (mb_mem b)
    \<and> block_data b' = block_data b
    \<and> unat (ms_total_size s) = unat (ms_total_size s3) + unat (mb_total_size b)"
proof -
  have wf: "block_wf b" using mmem_ok_listed [OF ok, of r] b by auto
  then obtain b' where b': "mmem_set_block_magic_free b = Some b'" "mb_size b' = mb_size b"
    "mb_total_size b' = mb_total_size b" "mb_file b' = mb_file b" "mb_line b' = mb_line b"
    "length (mb_mem b') = length (mb_mem b)" "block_data b' = block_data b"
    using set_free_wf [OF block_wf_tail_ok] by blast
  have "r \<in> set (us @ r # vs)" by simp
  from modify_listed_ok [of s "us @ r # vs" "{}" r b mmem_set_block_magic_free b', OF ok this b b'(1,2,3,6)]
  obtain s1 where s1: "mmem_modify_block r mmem_set_block_magic_free s = Some s1"
    "mmem_ok s1 (us @ r # vs) {}" "ms_blocks s1 = (ms_blocks s)(r \<mapsto> b')" "ms_locked s1 = ms_locked s"
    "ms_total_size s1 = ms_total_size s"
    by blast
  obtain s2 where s2: "mmem_block_table_get s1 = Some s2" "mmem_ok s2 (us @ r # vs) {}"
    "ms_table_ready s2" "ms_blocks s2 = ms_blocks s1" "ms_locked s2 = ms_locked s1"
    "ms_total_size s2 = ms_total_size s1"
    using table_get_ok [OF s1(2)] by blast
  obtain s3 where "mmem_block_del r s2 = Some s3" "mmem_ok s3 (us @ vs) {r}"
    "ms_blocks s3 = ms_blocks s2" "ms_table_ready s3" "ms_locked s3 = ms_locked s2"
    "unat (ms_total_size s2) = unat (ms_total_size s3) + unat (mb_total_size (the (ms_blocks s2 r)))"
    using block_del_ok [OF s2(2,3)] by blast
  with s1 s2 b' show ?thesis by auto
qed

lemma free_ok:
  assumes inv: "mmem_inv s (us @ r # vs)" and b: "ms_blocks s r = Some b"
    and act: "mmem_check_block_magic_active b = Some True"
  shows "\<exists>s'. mmem_free (mmem_block_data r) s = Some s' \<and> mmem_inv s' (us @ vs)
    \<and> ms_blocks s' = (ms_blocks s)(r := None)"
proof -
  let ?s = "s\<lparr>ms_locked := True\<rparr>"
  have ok: "mmem_ok ?s (us @ r # vs) {}" and b': "ms_blocks ?s r = Some b" and lock: "\<not> ms_locked s"
    using inv b by (simp_all add: mmem_inv_def)
  obtain s1 s2 s3 b1 where s: "mmem_modify_block r mmem_set_block_magic_free ?s = Some s1"
    "mmem_block_table_get s1 = Some s2" "mmem_block_del r s2 = Some s3"
    "mmem_ok s3 (us @ vs) {r}" "ms_locked s3" "ms_blocks s3 = (ms_blocks s)(r \<mapsto> b1)"
    using retire_ok [OF ok b'] by auto
  have "r \<in> {r}" by simp
  from real_free_ok [OF s(4) this] obtain s4 where "mmem_real_free r s3 = Some s4"
    "mmem_ok s4 (us @ vs) {}" "ms_blocks s4 = (ms_blocks s3)(r := None)" "ms_locked s4"
    using s(5) by auto
  with s lock b act show ?thesis
    by (auto simp: mmem_free_def mmem_inv_def Let_def)
qed

text \<open>A block whose magics are not in place is refused, and nothing changes.\<close>

lemma free_refused:
  assumes "\<not> ms_locked s" and "ms_blocks s r = Some b"
    and "mmem_check_block_magic_active b = Some False"
  shows "mmem_free (mmem_block_data r) s = Some s"
  using assms by (simp add: mmem_free_def Let_def)

lemma realloc_ok:
  assumes inv: "mmem_inv s (us @ r # vs)" and b: "ms_blocks s r = Some b"
    and act: "mmem_check_block_magic_active b = Some True"
    and sz: "sz \<noteq> 0" "unat sz + 64 < 2 ^ 64"
    and r': "r' \<noteq> NULL" "r' = r \<or> r' \<notin> dom (ms_blocks s)" "mmem_list_node r' \<noteq> mmem_table_list"
      "unat (ms_total_size s) + unat (mmem_total_size sz) < 2 ^ 64 + unat (mb_total_size b)"
  shows "\<exists>s' b'. mmem_realloc r' f (mmem_block_data r) sz file line s = Some (mmem_block_data r', s')
    \<and> mmem_inv s' (us @ vs @ [r']) \<and> ms_blocks s' = (ms_blocks s)(r := None, r' \<mapsto> b')
    \<and> live_block sz (block_data b') file line b'
    \<and> take (min (unat sz) (unat (mb_size b))) (block_data b')
      = take (min (unat sz) (unat (mb_size b))) (block_data b)"
proof -
  let ?s = "s\<lparr>ms_locked := True\<rparr>" and ?tot = "mmem_total_size sz"
  have ok: "mmem_ok ?s (us @ r # vs) {}" and b': "ms_blocks ?s r = Some b" and lock: "\<not> ms_locked s"
    using inv b by (simp_all add: mmem_inv_def)
  obtain s1 s2 s3 b1 where s: "mmem_modify_block r mmem_set_block_magic_free ?s = Some s1"
    "mmem_block_table_get s1 = Some s2" "mmem_block_del r s2 = Some s3"
    "mmem_ok s3 (us @ vs) {r}" "ms_table_ready s3" "ms_locked s3" "ms_blocks s3 = (ms_blocks s)(r \<mapsto> b1)"
    "mb_size b1 = mb_size b" "length (mb_mem b1) = length (mb_mem b)" "block_data b1 = block_data b"
    "unat (ms_total_size s) = unat (ms_total_size s3) + unat (mb_total_size b)"
    using retire_ok [OF ok b'] by auto
  have wf: "block_wf b" using mmem_ok_listed [OF ok, of r] b by auto
  have "r \<in> {r}" by simp
  from real_free_ok [OF s(4) this] obtain s4 where s4: "mmem_real_free r s3 = Some s4"
    "mmem_ok s4 (us @ vs) {}" "ms_blocks s4 = (ms_blocks s)(r := None)" "ms_locked s4"
    "ms_table_ready s4" "ms_total_size s4 = ms_total_size s3"
    using s(5-7) by auto
  let ?g = "\<lambda>i. if i < length (mb_mem b1) then mb_mem b1 ! i else f i"
  have tot: "unat ?tot = unat sz + 64" using sz(2) by (rule unat_mmem_total_size)
  then have d: "56 \<le> unat ?tot" "unat ?tot - 56 = unat sz + 8" by simp_all
  have fresh: "r' \<notin> dom (ms_blocks s4)" using r'(2) s4(3) by auto
  obtain s5 where s5: "mmem_heap_new r' ?tot ?g s4 = Some s5" "mmem_ok s5 (us @ vs) {r'}"
    "ms_blocks s5 = (ms_blocks s4)(r' \<mapsto> mmem_raw_block (map ?g [0..<unat sz + 8]))"
    "ms_locked s5" "ms_table_ready s5" "ms_total_size s5 = ms_total_size s3"
    using heap_new_ok [OF s4(2) r'(1) fresh r'(3) d(1), of ?g] s4(4-6) unfolding d by metis
  have run5: "mmem_real_realloc r r' ?tot f s3 = Some s5"
    using s(7) s4(1) s5(1) by (simp add: mmem_real_realloc_def)
  let ?b0 = "mmem_raw_block (map ?g [0..<unat sz + 8])"
  have "\<exists>s' b'. mmem_setup_block r' sz ?tot file line s5 = Some s'
    \<and> mmem_ok s' ((us @ vs) @ [r']) ({r'} - {r'}) \<and> ms_locked s' = ms_locked s5
    \<and> ms_blocks s' = (ms_blocks s5)(r' \<mapsto> b') \<and> live_block sz (take (unat sz) (mb_mem ?b0)) file line b'"
    by (rule setup_detached_ok [OF s5(2)])
      (use s5 sz r'(4) s(11) in \<open>auto simp: mmem_raw_block_def\<close>)
  then obtain s' b' where s': "mmem_setup_block r' sz ?tot file line s5 = Some s'"
    "mmem_ok s' (us @ vs @ [r']) {}" "ms_locked s'"
    "ms_blocks s' = (ms_blocks s)(r := None, r' \<mapsto> b')"
    "live_block sz (take (unat sz) (mb_mem ?b0)) file line b'"
    using s5(3,4) s4(3) by auto
  have ready: "mmem_block_table_get t = Some t" if "ms_table_ready t" for t
    using that by (simp add: mmem_block_table_get_def)
  have run6: "(do {
      s \<leftarrow> mmem_modify_block r' (\<lambda>b. Some (mmem_block_update sz ?tot file (scast line) b)) s5;
      s \<leftarrow> mmem_modify_block r' mmem_set_block_magic_active s;
      mmem_enlist r' s }) = Some s'"
    using s'(1) s5(5)
    by (auto simp: mmem_setup_block_def mmem_modify_block_def ready bind_Some_iff)
  have data: "block_data b' = take (unat sz) (map ?g [0..<unat sz + 8])"
    using s'(5) by (simp add: live_block_def mmem_raw_block_def)
  have len: "length (mb_mem b1) = unat (mb_size b) + 8" using wf s(9) by (simp add: block_wf_def)
  let ?n = "min (unat sz) (unat (mb_size b))"
  have "take ?n (block_data b') = take ?n (map ?g [0..<unat sz + 8])"
    unfolding data by (simp add: min_def)
  also have "\<dots> = map ?g [0..<?n]" by (simp add: take_map min_def)
  also have "\<dots> = map (\<lambda>i. mb_mem b1 ! i) [0..<?n]" using len by (intro map_cong) auto
  also have "\<dots> = take ?n (mb_mem b1)"
    using len by (intro nth_equalityI) auto
  also have "\<dots> = take ?n (block_data b1)" by (simp add: block_data_def s(8) min_def)
  finally have keep: "take ?n (block_data b') = take ?n (block_data b)" using s(10) by simp
  have "mmem_realloc r' f (mmem_block_data r) sz file line s
      = Some (mmem_block_data r', s'\<lparr>ms_locked := False\<rparr>)"
    using lock sz(1) b act s(1-3) r'(1) run5 run6 s'(3)
    by (auto simp: mmem_realloc_def Let_def bind_Some_iff)
  moreover have "live_block sz (block_data b') file line b'"
    using s'(5) by (simp add: live_block_def)
  ultimately show ?thesis using s'(2,4) keep by (auto simp: mmem_inv_def)
qed

text \<open>When the system allocator fails, the old block is put back, now as the last of the list.\<close>

lemma realloc_failed_ok:
  assumes inv: "mmem_inv s (us @ r # vs)" and b: "ms_blocks s r = Some b"
    and act: "mmem_check_block_magic_active b = Some True" and sz: "sz \<noteq> 0"
  shows "\<exists>s' b'. mmem_realloc NULL f (mmem_block_data r) sz file line s = Some (NULL, s')
    \<and> mmem_inv s' (us @ vs @ [r]) \<and> ms_blocks s' = (ms_blocks s)(r \<mapsto> b')
    \<and> mb_size b' = mb_size b \<and> block_data b' = block_data b
    \<and> mmem_check_block_magic_active b' = Some True"
proof -
  let ?s = "s\<lparr>ms_locked := True\<rparr>"
  have ok: "mmem_ok ?s (us @ r # vs) {}" and b': "ms_blocks ?s r = Some b" and lock: "\<not> ms_locked s"
    using inv b by (simp_all add: mmem_inv_def)
  obtain s1 s2 s3 b1 where s: "mmem_modify_block r mmem_set_block_magic_free ?s = Some s1"
    "mmem_block_table_get s1 = Some s2" "mmem_block_del r s2 = Some s3"
    "mmem_ok s3 (us @ vs) {r}" "ms_table_ready s3" "ms_locked s3" "ms_blocks s3 = (ms_blocks s)(r \<mapsto> b1)"
    "mb_size b1 = mb_size b" "mb_total_size b1 = mb_total_size b"
    "length (mb_mem b1) = length (mb_mem b)" "block_data b1 = block_data b"
    "unat (ms_total_size s) = unat (ms_total_size s3) + unat (mb_total_size b)"
    using retire_ok [OF ok b'] by auto
  have wf: "block_wf b" using mmem_ok_listed [OF ok, of r] b by auto
  then have "mb_tail_ok b1" using s by (simp add: block_wf_def mb_tail_ok_def)
  then obtain b2 where b2: "mmem_set_block_magic_active b1 = Some b2" "mb_size b2 = mb_size b"
    "mb_total_size b2 = mb_total_size b" "length (mb_mem b2) = length (mb_mem b)"
    "block_data b2 = block_data b" "mmem_check_block_magic_active b2 = Some True"
    using set_active_wf [of b1] s by auto
  obtain s4 where s4: "mmem_modify_block r mmem_set_block_magic_active s3 = Some s4"
    "mmem_ok s4 (us @ vs) {r}" "ms_blocks s4 = (ms_blocks s)(r \<mapsto> b2)" "ms_table_ready s4" "ms_locked s4"
    "ms_total_size s4 = ms_total_size s3"
    using modify_detached_ok [of s3 "us @ vs" "{r}" r b1 mmem_set_block_magic_active b2] s b2(1) by auto
  have fits: "unat (ms_total_size s4) + unat (mb_total_size b2) < 2 ^ 64"
    using s(12) s4(6) b2(3) unat_lt_size [of "ms_total_size s"] by simp
  have "block_wf b2" using wf b2 by (simp add: block_wf_def)
  then obtain s5 where "mmem_enlist r s4 = Some s5" "mmem_ok s5 ((us @ vs) @ [r]) ({r} - {r})"
    "ms_blocks s5 = ms_blocks s4" "ms_locked s5"
    using enlist_ok [OF s4(2,4) _ _ _ fits] s4(3,5) by auto
  with s(1-3) s4 lock sz b act b2 show ?thesis
    by (auto simp: mmem_realloc_def mmem_inv_def Let_def bind_Some_iff)
qed

definition mmem_drain_inv :: "ptr list \<Rightarrow> mmem_state \<Rightarrow> bool" where
  "mmem_drain_inv ps s \<longleftrightarrow> (\<exists>bs. ps = map mmem_list_node bs \<and> mmem_ok s bs {} \<and> ms_table_ready s
     \<and> ms_locked s)"

lemma free_all_body_ok:
  assumes "mmem_drain_inv (p # ps) s"
  shows "\<exists>s'. mmem_free_all_body p s = Some s' \<and> mmem_drain_inv ps s'"
proof -
  obtain r bs where r: "p = mmem_list_node r" "ps = map mmem_list_node bs" "mmem_ok s (r # bs) {}"
    "ms_table_ready s" "ms_locked s"
    using assms unfolding mmem_drain_inv_def by (metis map_eq_Cons_conv)
  have blk: "p - MMEM_LIST_OFFSET = r" by (simp add: r(1) mmem_list_node_def)
  obtain b where b: "ms_blocks s r = Some b" "block_wf b" using mmem_ok_listed [OF r(3)] by auto
  obtain ok where chk: "mmem_check_block_magic_active b = Some ok" using check_active_wf [OF b(2)] by blast
  have "mmem_ok s ([] @ r # bs) {}" using r(3) by simp
  from retire_ok [OF this b(1)] obtain s1 s2 s3 where s: "mmem_modify_block r mmem_set_block_magic_free s = Some s1"
    "mmem_block_table_get s1 = Some s2" "mmem_block_del r s2 = Some s3" "mmem_ok s3 bs {r}"
    "ms_table_ready s3" "ms_locked s3"
    using r(5) by auto
  have "ms_table_ready s1" using s(1) r(4) by (auto simp: mmem_modify_block_def)
  then have "s2 = s1" using s(2) by (simp add: mmem_block_table_get_def)
  moreover have "r \<in> {r}" by simp
  from real_free_ok [OF s(4) this] obtain s4 where "mmem_real_free r s3 = Some s4" "mmem_ok s4 bs {}"
    "ms_table_ready s4" "ms_locked s4" using s(5,6) by auto
  ultimately show ?thesis using s b chk r(2)
    by (auto simp: mmem_free_all_body_def blk Let_def mmem_drain_inv_def)
qed

lemma free_all_ok:
  assumes "mmem_inv s bs"
  shows "\<exists>s'. mmem_free_all s = Some s' \<and> mmem_inv s' []"
proof -
  have ok: "mmem_ok (s\<lparr>ms_locked := True\<rparr>) bs {}" and lock: "\<not> ms_locked s"
    using assms by (simp_all add: mmem_inv_def)
  obtain s1 where s1: "mmem_block_table_get (s\<lparr>ms_locked := True\<rparr>) = Some s1" "mmem_ok s1 bs {}"
    "ms_table_ready s1" "ms_locked s1"
    using table_get_ok [OF ok] by auto
  have "mmem_drain_inv (map mmem_list_node bs) s1"
    using s1 by (auto simp: mmem_drain_inv_def)
  moreover have "mring (ms_nodes t) mmem_table_list ps" if "mmem_drain_inv ps t" for ps t
    using that by (auto simp: mmem_drain_inv_def mmem_ok_def mmem_list_ok_def)
  ultimately have "\<exists>s2. mlist_for_each_safe ms_nodes mmem_free_all_body mmem_table_list s1 = Some s2
      \<and> mmem_drain_inv [] s2"
    by (intro mlist_for_each_safe_rule [of mmem_drain_inv, OF free_all_body_ok])
  then obtain s2 where s2: "mlist_for_each_safe ms_nodes mmem_free_all_body mmem_table_list s1 = Some s2"
    "mmem_drain_inv [] s2"
    by blast
  from s2(2) have "mmem_ok s2 [] {}" "ms_locked s2" by (simp_all add: mmem_drain_inv_def)
  then have "mmem_free_all s = Some (s2\<lparr>ms_locked := False\<rparr>)"
    using s1(1) s2(1) lock by (simp add: mmem_free_all_def)
  then show ?thesis using \<open>mmem_ok s2 [] {}\<close> by (simp add: mmem_inv_def)
qed

section \<open>Dump\<close>

definition block_info_of :: "mmem_state \<Rightarrow> ptr \<Rightarrow> mmem_block_info" where
  "block_info_of s r = (let b = the (ms_blocks s r) in
     \<lparr>mbi_size = mb_size b, mbi_total_size = mb_total_size b, mbi_file = mb_file b, mbi_line = mb_line b\<rparr>)"

lemma dump_walk_seg:
  assumes "mseg (ms_nodes s) a (map mmem_list_node rs) mmem_table_list"
    and "mmem_table_list \<notin> mmem_list_node ` set rs" and "set rs \<subseteq> dom (ms_blocks s)"
    and "index < counts" and "32 \<le> left"
  shows "mmem_dump_walk s counts (hd (map mmem_list_node rs @ [mmem_table_list])) index left
    = Some (map (block_info_of s) (take (min (unat counts - unat index) (unat left div 32)) rs))"
  using assms
proof (induction rs arbitrary: a index left)
  case Nil
  then show ?case by (simp add: mmem_dump_walk.simps)
next
  case (Cons r rs)
  let ?t = mmem_table_list and ?p = "mmem_list_node r"
  obtain b where b: "ms_blocks s r = Some b" using Cons.prems(3) by auto
  have p: "?p - MMEM_LIST_OFFSET = r" by (simp add: mmem_list_node_def)
  have ne: "?p \<noteq> ?t" using Cons.prems(2) by auto
  have seg: "mseg (ms_nodes s) ?p (map mmem_list_node rs) ?t" using Cons.prems(1) by simp
  then have nx: "get_next ?p (ms_nodes s) = Some (hd (map mmem_list_node rs @ [?t]))"
    by (cases rs) auto
  have i: "unat index < unat counts" using Cons.prems(4) by (simp add: word_less_nat_alt)
  then have i1: "unat (index + 1) = unat index + 1"
    using unat_lt_size [of counts] by (simp add: unat_word_ariths)
  have l: "unat (left - 32) = unat left - 32" "32 \<le> unat left"
    using Cons.prems(5) by (simp_all add: unat_sub_nowrap word_le_nat_alt)
  have info: "\<lparr>mbi_size = mb_size b, mbi_total_size = mb_total_size b, mbi_file = mb_file b,
      mbi_line = mb_line b\<rparr> = block_info_of s r"
    by (simp add: block_info_of_def b)
  show ?case
  proof (cases "counts \<le> index + 1 \<or> left - 32 < 32")
    case True
    then have "min (unat counts - unat index) (unat left div 32) = 1"
    proof
      assume "counts \<le> index + 1"
      then have "unat counts - unat index = 1" using i i1 by (simp add: word_le_nat_alt)
      with l show ?thesis by simp
    next
      assume "left - 32 < 32"
      then have "unat left div 32 = 1" using l by (simp add: word_less_nat_alt)
      with i show ?thesis by simp
    qed
    with True ne b show ?thesis
      by (auto simp: mmem_dump_walk.simps [of s counts ?p] p Let_def info)
  next
    case False
    then have F: "index + 1 < counts" "32 \<le> left - 32" by auto
    have "min (unat counts - unat index) (unat left div 32)
        = Suc (min (unat counts - unat (index + 1)) (unat (left - 32) div 32))"
      using i i1 l F by (simp add: word_less_nat_alt word_le_nat_alt)
    moreover have "mmem_dump_walk s counts (hd (map mmem_list_node rs @ [?t])) (index + 1) (left - 32)
        = Some (map (block_info_of s) (take (min (unat counts - unat (index + 1)) (unat (left - 32) div 32)) rs))"
      by (rule Cons.IH [OF seg _ _ F]) (use Cons.prems(2,3) in auto)
    ultimately show ?thesis using ne b nx False
      by (simp add: mmem_dump_walk.simps [of s counts ?p] p Let_def info)
  qed
qed

lemma dump_start:
  assumes inv: "mmem_inv s bs"
  obtains s1 where "\<not> ms_locked s" "mmem_block_table_get (s\<lparr>ms_locked := True\<rparr>) = Some s1"
    "mmem_ok s1 bs {}" "ms_blocks s1 = ms_blocks s" "ms_locked s1"
    "get_next mmem_table_list (ms_nodes s1) = Some (hd (map mmem_list_node bs @ [mmem_table_list]))"
    "\<And>counts buf_size. counts \<noteq> 0 \<Longrightarrow> 32 \<le> buf_size \<Longrightarrow>
      mmem_dump_walk s1 counts (hd (map mmem_list_node bs @ [mmem_table_list])) 0 buf_size
      = Some (map (block_info_of s) (take (min (unat counts) (unat buf_size div 32)) bs))"
proof -
  have ok: "mmem_ok (s\<lparr>ms_locked := True\<rparr>) bs {}" and lock: "\<not> ms_locked s"
    using inv by (simp_all add: mmem_inv_def)
  obtain s1 where s1: "mmem_block_table_get (s\<lparr>ms_locked := True\<rparr>) = Some s1" "mmem_ok s1 bs {}"
    "ms_table_ready s1" "ms_blocks s1 = ms_blocks s" "ms_locked s1"
    using table_get_ok [OF ok] by auto
  have ring: "mring (ms_nodes s1) mmem_table_list (map mmem_list_node bs)"
    using s1 by (auto simp: mmem_ok_def mmem_list_ok_def)
  have info: "block_info_of s1 = block_info_of s"
    by (rule ext) (simp add: block_info_of_def s1(4))
  have walk: "mmem_dump_walk s1 counts (hd (map mmem_list_node bs @ [mmem_table_list])) 0 buf_size
     = Some (map (block_info_of s) (take (min (unat counts) (unat buf_size div 32)) bs))"
    if "counts \<noteq> 0" "32 \<le> buf_size" for counts buf_size
    using dump_walk_seg [of s1 mmem_table_list bs 0 counts buf_size] ring s1(2) that
    by (simp add: mring_def mmem_ok_def mmem_heap_ok_def info word_neq_0_conv)
  show ?thesis
    by (rule that [OF lock s1(1,2,4,5) mring_get_next [OF ring] walk])
qed

lemma mmem_dump_ok:
  assumes "mmem_inv s bs"
  shows "\<exists>r s'. mmem_dump cmd counts buf_null buf_size s = Some (r, s') \<and> mmem_inv s' bs
    \<and> ms_blocks s' = ms_blocks s"
proof -
  obtain s1 where s1: "\<not> ms_locked s" "mmem_block_table_get (s\<lparr>ms_locked := True\<rparr>) = Some s1"
    "mmem_ok s1 bs {}" "ms_blocks s1 = ms_blocks s" "ms_locked s1"
    "get_next mmem_table_list (ms_nodes s1) = Some (hd (map mmem_list_node bs @ [mmem_table_list]))"
    and walk: "\<And>counts buf_size. counts \<noteq> 0 \<Longrightarrow> 32 \<le> buf_size \<Longrightarrow>
      mmem_dump_walk s1 counts (hd (map mmem_list_node bs @ [mmem_table_list])) 0 buf_size
      = Some (map (block_info_of s) (take (min (unat counts) (unat buf_size div 32)) bs))"
    by (rule dump_start [OF assms]) (rule that)
  have "\<exists>r. mmem_dump_cmd_mmem_block_info counts buf_null buf_size s1 = Some r"
    using walk by (auto simp: mmem_dump_cmd_mmem_block_info_def s1(6) not_less)
  then show ?thesis
    using s1 by (auto simp: mmem_dump_def mmem_inv_def)
qed

lemma mmem_dump_blocks_ok:
  assumes "mmem_inv s bs" "\<not> buf_null" "32 \<le> buf_size" "counts \<noteq> 0"
    and n: "n = min (unat counts) (unat buf_size div 32)"
  shows "\<exists>s'. mmem_dump MMEM_DUMP_CMD_MMEM_BLOCK_INFO counts buf_null buf_size s
      = Some ((int (length (take n bs)), Dump_blocks (map (block_info_of s) (take n bs))), s')"
proof -
  obtain s1 where s1: "\<not> ms_locked s" "mmem_block_table_get (s\<lparr>ms_locked := True\<rparr>) = Some s1"
    "mmem_ok s1 bs {}" "ms_blocks s1 = ms_blocks s" "ms_locked s1"
    "get_next mmem_table_list (ms_nodes s1) = Some (hd (map mmem_list_node bs @ [mmem_table_list]))"
    and walk: "\<And>counts buf_size. counts \<noteq> 0 \<Longrightarrow> 32 \<le> buf_size \<Longrightarrow>
      mmem_dump_walk s1 counts (hd (map mmem_list_node bs @ [mmem_table_list])) 0 buf_size
      = Some (map (block_info_of s) (take (min (unat counts) (unat buf_size div 32)) bs))"
    by (rule dump_start [OF assms(1)]) (rule that)
  show ?thesis
    using s1 walk [OF assms(4,3)] assms(2,3)
    by (auto simp: mmem_dump_def mmem_dump_cmd_mmem_block_info_def not_less n
        MMEM_DUMP_CMD_COUNTS_def MMEM_DUMP_CMD_MMEM_INFO_def MMEM_DUMP_CMD_MMEM_BLOCK_INFO_def)
qed

section \<open>Runs of a program\<close>

text \<open>
  What a program does between calls is write the bytes it was given. \<open>mmem_client_write\<close> is a
  store of the bytes \<open>d\<close> at offset \<open>i\<close> of the block's data; nothing stops it from passing the
  end of the data and reaching the tail magic.
\<close>

definition mmem_client_write :: "ptr \<Rightarrow> nat \<Rightarrow> bytes \<Rightarrow> mmem_state \<Rightarrow> mmem_state option" where
  "mmem_client_write r i d s = do {
     b \<leftarrow> ms_blocks s r;
     guard_opt (i + length d \<le> length (mb_mem b));
     Some (s\<lparr>ms_blocks := (ms_blocks s)(r \<mapsto> b\<lparr>mb_mem := mem_put i d (mb_mem b)\<rparr>)\<rparr>) }"

text \<open>
  One call of a well-behaved program. \<open>r\<close> is what the system allocator returned: \<open>NULL\<close>, or
  a block that is not in use.
\<close>

inductive mmem_step :: "mmem_state \<Rightarrow> mmem_state \<Rightarrow> bool" where
  step_alloc: "\<lbrakk> unat sz + 64 < 2 ^ 64; r = NULL \<or> real_alloc_ok s r (mmem_total_size sz);
      mmem_alloc r f sz file line s = Some (p, s') \<rbrakk> \<Longrightarrow> mmem_step s s'"
| step_calloc: "\<lbrakk> unat counts * unat item + 64 < 2 ^ 64;
      r = NULL \<or> real_alloc_ok s r (mmem_total_size (counts * item));
      mmem_calloc r counts item file line s = Some (p, s') \<rbrakk> \<Longrightarrow> mmem_step s s'"
| step_realloc: "\<lbrakk> unat sz + 64 < 2 ^ 64; ms_blocks s q = Some b; sz \<noteq> 0;
      r = NULL \<or> r = q \<and> unat (ms_total_size s) + unat (mmem_total_size sz) < 2 ^ 64
        \<or> real_alloc_ok s r (mmem_total_size sz);
      mmem_realloc r f (mmem_block_data q) sz file line s = Some (p, s') \<rbrakk> \<Longrightarrow> mmem_step s s'"
| step_free: "\<lbrakk> ms_blocks s q = Some b; mmem_free (mmem_block_data q) s = Some s' \<rbrakk>
    \<Longrightarrow> mmem_step s s'"
| step_free_all: "mmem_free_all s = Some s' \<Longrightarrow> mmem_step s s'"
| step_dump: "mmem_dump cmd counts buf_null buf_size s = Some (res, s') \<Longrightarrow> mmem_step s s'"
| step_write: "\<lbrakk> ms_blocks s q = Some b; i + length d \<le> unat (mb_size b);
      mmem_client_write q i d s = Some s' \<rbrakk> \<Longrightarrow> mmem_step s s'"

inductive mmem_reachable :: "mmem_state \<Rightarrow> bool" where
  reach_init: "mmem_reachable mmem_init_state"
| reach_step: "\<lbrakk> mmem_reachable s; mmem_step s s' \<rbrakk> \<Longrightarrow> mmem_reachable s'"

inductive_cases mmem_stepE: "mmem_step s s'"

text \<open>The invariant with the magics of every block in place.\<close>

definition mmem_live :: "mmem_state \<Rightarrow> ptr list \<Rightarrow> bool" where
  "mmem_live s bs \<longleftrightarrow> mmem_inv s bs
     \<and> (\<forall>r b. ms_blocks s r = Some b \<longrightarrow> mmem_check_block_magic_active b = Some True)"

lemma mmem_live_init: "mmem_live mmem_init_state []"
  by (simp add: mmem_live_def mmem_init_inv) (simp add: mmem_init_state_def)

lemma mmem_inv_listed:
  assumes "mmem_inv s bs" and "ms_blocks s r = Some b"
  obtains us vs where "bs = us @ r # vs" "block_wf b" "unat (mb_total_size b) \<le> unat (ms_total_size s)"
proof -
  have dom: "r \<in> set bs" using assms by (auto simp: mmem_inv_def mmem_ok_def mmem_heap_ok_def)
  then obtain us vs where bs: "bs = us @ r # vs" by (auto simp: in_set_conv_decomp)
  have "block_wf b" using assms dom by (auto simp: mmem_inv_def mmem_ok_def mmem_heap_ok_def)
  moreover have "unat (mb_total_size b) \<le> unat (ms_total_size s)"
    using assms by (simp add: mmem_inv_def mmem_ok_def mmem_count_ok_def nat_total_def bs)
  ultimately show thesis using that bs by blast
qed

lemma mmem_alloc_refused:
  "\<not> ms_locked s \<Longrightarrow> sz = 0 \<or> r = NULL \<Longrightarrow> mmem_alloc r f sz file line s = Some (NULL, s)"
  by (auto simp: mmem_alloc_def Let_def)

lemma mmem_calloc_refused:
  "\<not> ms_locked s \<Longrightarrow> counts = 0 \<or> item = 0 \<or> r = NULL
    \<Longrightarrow> mmem_calloc r counts item file line s = Some (NULL, s)"
  by (auto simp: mmem_calloc_def Let_def)

lemma client_write_ok:
  assumes inv: "mmem_inv s bs" and b: "ms_blocks s r = Some b" and i: "i + length d \<le> length (mb_mem b)"
  shows "\<exists>s' b'. mmem_client_write r i d s = Some s' \<and> mmem_inv s' bs
    \<and> ms_blocks s' = (ms_blocks s)(r \<mapsto> b') \<and> b' = b\<lparr>mb_mem := mem_put i d (mb_mem b)\<rparr>"
proof -
  let ?b = "b\<lparr>mb_mem := mem_put i d (mb_mem b)\<rparr>"
  obtain us vs where bs: "bs = us @ r # vs" and wf: "block_wf b"
    by (rule mmem_inv_listed [OF inv b])
  have wf': "block_wf ?b" using wf i by (simp add: block_wf_def length_mem_put)
  let ?s = "s\<lparr>ms_blocks := (ms_blocks s)(r \<mapsto> ?b)\<rparr>"
  have "mmem_count_ok ?s bs = mmem_count_ok s bs"
    using b by (auto simp: mmem_count_ok_def nat_total_def nat_active_def intro!: arg_cong [of _ _ sum_list])
  then have "mmem_inv ?s bs" using inv wf' bs b
    by (auto simp: mmem_inv_def mmem_ok_def mmem_heap_ok_def mmem_list_ok_def)
  then show ?thesis using b i by (auto simp: mmem_client_write_def)
qed

lemma step_live_new:
  assumes "mmem_live s bs" "mmem_inv s' bs'" "ms_blocks s' = (ms_blocks s)(r \<mapsto> b)"
    and "mmem_check_block_magic_active b = Some True"
  shows "\<exists>bs. mmem_live s' bs"
  using assms by (auto simp: mmem_live_def split: if_splits)

lemma mmem_client_write_live:
  assumes live: "mmem_live s bs" and b: "ms_blocks s r = Some b" and i: "i + length d \<le> unat (mb_size b)"
    and s': "mmem_client_write r i d s = Some s'"
  shows "\<exists>bs. mmem_live s' bs"
proof -
  have inv: "mmem_inv s bs" and act: "mmem_check_block_magic_active b = Some True"
    using live b by (auto simp: mmem_live_def)
  obtain us vs where wf: "block_wf b" by (rule mmem_inv_listed [OF inv b])
  then have len: "i + length d \<le> length (mb_mem b)" using i by (simp add: block_wf_def)
  have n: "unat (mb_size b) \<le> length (mb_mem b)" using wf by (simp add: block_wf_def)
  have "mmem_check_block_magic_active (b\<lparr>mb_mem := mem_put i d (mb_mem b)\<rparr>) = Some True"
    using act len
    by (simp add: mmem_check_block_magic_active_def mmem_block_tail_magic_def mb_tail_ok_def
        length_mem_put mem_put_suffix [OF i n] split: if_splits)
  moreover obtain b' where "mmem_inv s' bs" "ms_blocks s' = (ms_blocks s)(r \<mapsto> b')"
    "b' = b\<lparr>mb_mem := mem_put i d (mb_mem b)\<rparr>"
    using client_write_ok [OF inv b len] s' by auto
  ultimately show ?thesis by (intro step_live_new [OF live]) auto
qed

lemma mmem_realloc_live:
  assumes live: "mmem_live s bs" and b: "ms_blocks s q = Some b" and sz: "sz \<noteq> 0" "unat sz + 64 < 2 ^ 64"
    and r: "r = NULL \<or> r = q \<and> unat (ms_total_size s) + unat (mmem_total_size sz) < 2 ^ 64
        \<or> real_alloc_ok s r (mmem_total_size sz)"
    and s': "mmem_realloc r f (mmem_block_data q) sz file line s = Some (p, s')"
  shows "\<exists>bs. mmem_live s' bs"
proof -
  have inv: "mmem_inv s bs" and act: "mmem_check_block_magic_active b = Some True"
    using live b by (auto simp: mmem_live_def)
  obtain us vs where bs: "bs = us @ q # vs" by (rule mmem_inv_listed [OF inv b])
  note inv' = inv [unfolded bs]
  show ?thesis
  proof (cases "r = NULL")
    case True
    obtain b' where "mmem_inv s' (us @ vs @ [q])" "ms_blocks s' = (ms_blocks s)(q \<mapsto> b')"
      "mmem_check_block_magic_active b' = Some True"
      using realloc_failed_ok [OF inv' b act sz(1), of f "file" line] s' True by auto
    then show ?thesis by (rule step_live_new [OF live])
  next
    case False
    have "mmem_list_node q \<noteq> mmem_table_list"
      using inv by (auto simp: bs mmem_inv_def mmem_ok_def mmem_heap_ok_def)
    then have r': "r \<noteq> NULL" "r = q \<or> r \<notin> dom (ms_blocks s)" "mmem_list_node r \<noteq> mmem_table_list"
      "unat (ms_total_size s) + unat (mmem_total_size sz) < 2 ^ 64 + unat (mb_total_size b)"
      using r False by (auto simp: real_alloc_ok_def)
    obtain b' where b': "mmem_inv s' (us @ vs @ [r])" "ms_blocks s' = (ms_blocks s)(q := None, r \<mapsto> b')"
      "live_block sz (block_data b') file line b'"
      using realloc_ok [OF inv' b act sz r', of f "file" line] s' by auto
    then show ?thesis using live
      by (auto simp: mmem_live_def live_block_def split: if_splits)
  qed
qed

lemma mmem_alloc_live:
  assumes live: "mmem_live s bs" and sz: "unat sz + 64 < 2 ^ 64"
    and r: "r = NULL \<or> real_alloc_ok s r (mmem_total_size sz)"
    and s': "mmem_alloc r f sz file line s = Some (p, s')"
  shows "\<exists>bs. mmem_live s' bs"
proof -
  have inv: "mmem_inv s bs" using live by (simp add: mmem_live_def)
  show ?thesis
  proof (cases "sz = 0 \<or> r = NULL")
    case True
    with s' inv have "s' = s" by (auto simp: mmem_alloc_refused mmem_inv_def)
    with live show ?thesis by blast
  next
    case False
    with r obtain b where "mmem_inv s' (bs @ [r])" "ms_blocks s' = (ms_blocks s)(r \<mapsto> b)"
      "live_block sz (map f [0..<unat sz]) file line b"
      using alloc_ok [OF inv _ sz, of r f "file" line] s' by auto
    then show ?thesis by (intro step_live_new [OF live]) (auto simp: live_block_def)
  qed
qed

lemma mmem_calloc_live:
  assumes live: "mmem_live s bs" and sz: "unat counts * unat item + 64 < 2 ^ 64"
    and r: "r = NULL \<or> real_alloc_ok s r (mmem_total_size (counts * item))"
    and s': "mmem_calloc r counts item file line s = Some (p, s')"
  shows "\<exists>bs. mmem_live s' bs"
proof -
  have inv: "mmem_inv s bs" using live by (simp add: mmem_live_def)
  show ?thesis
  proof (cases "counts = 0 \<or> item = 0 \<or> r = NULL")
    case True
    with s' inv have "s' = s" by (auto simp: mmem_calloc_refused mmem_inv_def)
    with live show ?thesis by blast
  next
    case False
    with r obtain b where "mmem_inv s' (bs @ [r])" "ms_blocks s' = (ms_blocks s)(r \<mapsto> b)"
      "live_block (counts * item) (replicate (unat counts * unat item) 0) file line b"
      using calloc_ok [OF inv _ _ sz, of r "file" line] s' by auto
    then show ?thesis by (intro step_live_new [OF live]) (auto simp: live_block_def)
  qed
qed

lemma mmem_free_live:
  assumes live: "mmem_live s bs" and b: "ms_blocks s q = Some b"
  shows "\<exists>s' bs'. mmem_free (mmem_block_data q) s = Some s' \<and> mmem_live s' bs'
    \<and> ms_blocks s' = (ms_blocks s)(q := None)"
proof -
  have inv: "mmem_inv s bs" and act: "mmem_check_block_magic_active b = Some True"
    using live b by (auto simp: mmem_live_def)
  obtain us vs where bs: "bs = us @ q # vs" by (rule mmem_inv_listed [OF inv b])
  from free_ok [OF inv [unfolded bs] b act] live show ?thesis
    by (auto simp: mmem_live_def)
qed

lemma mmem_step_live:
  assumes step: "mmem_step s s'" and live: "mmem_live s bs"
  shows "\<exists>bs. mmem_live s' bs"
  using step
proof cases
  case step_free then show ?thesis using mmem_free_live [OF live] by fastforce
next
  case step_free_all
  obtain s'' where s'': "mmem_free_all s = Some s''" "mmem_inv s'' []"
    using free_all_ok [of s bs] live by (auto simp: mmem_live_def)
  then have "mmem_inv s' []" using step_free_all by simp
  then have "mmem_live s' []"
    by (simp add: mmem_live_def mmem_inv_def mmem_ok_def mmem_heap_ok_def)
  then show ?thesis ..
next
  case (step_dump cmd counts buf_null buf_size res)
  then have "mmem_inv s' bs" "ms_blocks s' = ms_blocks s"
    using mmem_dump_ok [of s bs cmd counts buf_null buf_size] live by (auto simp: mmem_live_def)
  then have "mmem_live s' bs" using live by (simp add: mmem_live_def)
  then show ?thesis ..
qed (rule mmem_alloc_live [OF live] mmem_calloc_live [OF live] mmem_realloc_live [OF live]
    mmem_client_write_live [OF live]; assumption)+

lemma mmem_reachable_live: "mmem_reachable s \<Longrightarrow> \<exists>bs. mmem_live s bs"
proof (induction rule: mmem_reachable.induct)
  case reach_init
  show ?case using mmem_live_init ..
next
  case (reach_step s s')
  then show ?case using mmem_step_live by blast
qed

section \<open>Properties\<close>

text \<open>
  C1. In every state a well-behaved program can reach (allocating sizes that do not wrap,
  writing inside its own bytes), some duplicate-free list of blocks is exactly the ring of the
  block table, the counters of the table are the sums over that list and both magics of every
  block are in place; and \<open>mmem_free\<close> of any live block is defined, removes this block only and
  gives such a state again.
\<close>

theorem mmem_reachable_safe:
  assumes "mmem_reachable s"
  shows "\<exists>bs. mmem_live s bs \<and> (\<forall>q b. ms_blocks s q = Some b \<longrightarrow>
     (\<exists>s' bs'. mmem_free (mmem_block_data q) s = Some s' \<and> mmem_live s' bs'
       \<and> ms_blocks s' = (ms_blocks s)(q := None)))"
  using mmem_reachable_live [OF assms] mmem_free_live by blast

lemma mmem_reachable_alloc:
  "mmem_reachable (snd (the (mmem_alloc 1000 (\<lambda>_. 7) 5 ''a.c'' 3 mmem_init_state)))"
proof -
  have sz: "unat (5 :: u64) + 64 < 2 ^ 64" by simp
  have r: "real_alloc_ok mmem_init_state 1000 (mmem_total_size 5)"
    by (simp add: real_alloc_ok_def mmem_init_state_def mmem_list_node_def MMEM_LIST_OFFSET_def
        mmem_table_list_def mmem_total_size_def MMEM_BLOCK_SIZE_eq)
  obtain s' where "mmem_alloc 1000 (\<lambda>_. 7) 5 ''a.c'' 3 mmem_init_state = Some (mmem_block_data 1000, s')"
    using alloc_ok [OF mmem_init_inv _ sz r, of "\<lambda>_. 7" "''a.c''" 3] by auto
  with reach_step [OF reach_init step_alloc [OF sz disjI2 [OF r]]] show ?thesis by simp
qed

theorem mmem_reachable_safe_witness:
  "\<exists>bs. mmem_live (snd (the (mmem_alloc 1000 (\<lambda>_. 7) 5 ''a.c'' 3 mmem_init_state))) bs"
  using mmem_reachable_safe [OF mmem_reachable_alloc] by blast

text \<open>
  C2. \<open>mmem_alloc\<close> of a positive size, when the system allocator gives a fresh block, returns
  the address behind the header, appends one block of that size (its bytes as the allocator
  left them, file and line recorded, magics set) to the table, keeps the invariant and touches
  no other block; \<open>mmem_calloc\<close> of positive \<open>counts\<close> and \<open>item\<close> does the same with a block of
  \<open>counts * item\<close> bytes, all zero. When a size is zero, or the system allocator fails, both return
  \<open>NULL\<close> and change nothing.
\<close>

theorem mmem_alloc_correct:
  assumes "mmem_inv s bs" and "n \<noteq> 0" "unat n + 64 < 2 ^ 64" and "real_alloc_ok s r (mmem_total_size n)"
    and "counts \<noteq> 0" "item \<noteq> 0" "unat counts * unat item + 64 < 2 ^ 64"
    and "real_alloc_ok s r' (mmem_total_size (counts * item))"
  shows "(\<exists>s' b. mmem_alloc r f n file line s = Some (mmem_block_data r, s') \<and> mmem_inv s' (bs @ [r])
      \<and> ms_blocks s' = (ms_blocks s)(r \<mapsto> b) \<and> live_block n (map f [0..<unat n]) file line b)
    \<and> (\<exists>s' b. mmem_calloc r' counts item file line s = Some (mmem_block_data r', s') \<and> mmem_inv s' (bs @ [r'])
      \<and> ms_blocks s' = (ms_blocks s)(r' \<mapsto> b)
      \<and> live_block (counts * item) (replicate (unat counts * unat item) 0) file line b)
    \<and> mmem_alloc NULL f n file line s = Some (NULL, s) \<and> mmem_alloc r f 0 file line s = Some (NULL, s)
    \<and> mmem_calloc NULL counts item file line s = Some (NULL, s)
    \<and> mmem_calloc r' 0 item file line s = Some (NULL, s) \<and> mmem_calloc r' counts 0 file line s = Some (NULL, s)"
proof -
  have "\<not> ms_locked s" using assms(1) by (simp add: mmem_inv_def)
  then show ?thesis
    using alloc_ok [OF assms(1-4), of f "file" line] calloc_ok [OF assms(1,5-8), of "file" line]
    by (simp add: mmem_alloc_refused mmem_calloc_refused)
qed

lemma init_alloc_ok: "real_alloc_ok mmem_init_state 1000 tot"
  using unat_lt_size [of tot]
  by (simp add: real_alloc_ok_def mmem_init_state_def mmem_list_node_def MMEM_LIST_OFFSET_def
      mmem_table_list_def)

theorem mmem_alloc_correct_witness:
  "\<exists>s' b. mmem_alloc 1000 (\<lambda>_. 9) 3 ''a.c'' 3 mmem_init_state = Some (1056, s')
     \<and> ms_blocks s' = [1000 \<mapsto> b] \<and> live_block 3 [9, 9, 9] ''a.c'' 3 b
     \<and> (\<exists>s' b. mmem_calloc 1000 5 7 ''a.c'' 3 mmem_init_state = Some (1056, s')
       \<and> live_block 35 (replicate 35 0) ''a.c'' 3 b)"
proof -
  have bytes: "map (\<lambda>_. 9) [0..<3] = [9 :: u8, 9, 9]" by (simp add: upt_rec)
  have "ms_blocks mmem_init_state = Map.empty" by (simp add: mmem_init_state_def)
  with mmem_alloc_correct [OF mmem_init_inv, of 3 1000 5 7 1000 "\<lambda>_. 9" "''a.c''" 3]
    init_alloc_ok
  show ?thesis unfolding mmem_block_data_def by (fastforce simp: bytes)
qed

text \<open>
  \<open>mmem_calloc\<close> does not check its multiplication: when \<open>counts * item_size\<close> exceeds the
  range of \<open>unsigned long\<close> the call succeeds and hands out a block smaller than the
  \<open>counts\<close> items asked for.
\<close>

theorem mmem_calloc_overflow:
  assumes "mmem_inv s bs" "counts \<noteq> 0" "item \<noteq> 0" "2 ^ 64 \<le> unat counts * unat item"
    and "unat (counts * item) + 64 < 2 ^ 64" and "real_alloc_ok s r (mmem_total_size (counts * item))"
  shows "\<exists>s' b. mmem_calloc r counts item file line s = Some (mmem_block_data r, s')
    \<and> ms_blocks s' r = Some b \<and> length (block_data b) < unat counts * unat item"
proof -
  obtain s' b where s': "mmem_calloc r counts item file line s = Some (mmem_block_data r, s')"
    "ms_blocks s' = (ms_blocks s)(r \<mapsto> b)"
    "live_block (counts * item) (replicate (unat (counts * item)) 0) file line b"
    using calloc_wrapped_ok [OF assms(1-3,5,6), of "file" line] by auto
  then have "length (block_data b) = unat (counts * item)" by (simp add: live_block_def)
  also have "\<dots> < unat counts * unat item" using assms(4) unat_lt_size [of "counts * item"] by simp
  finally show ?thesis using s' by auto
qed

theorem mmem_calloc_overflow_witness:
  "\<exists>s' b. mmem_calloc 1000 0x100000000 0x100000000 ''a.c'' 3 mmem_init_state = Some (1056, s')
    \<and> ms_blocks s' 1000 = Some b \<and> length (block_data b) < 2 ^ 64"
  using mmem_calloc_overflow [OF mmem_init_inv, of "0x100000000" "0x100000000" 1000 "''a.c''" 3]
    init_alloc_ok
  by (simp add: mmem_block_data_def)

text \<open>
  C3. \<open>mmem_realloc\<close> of a live block to a positive size: when the system allocator succeeds the
  block is replaced by one of the new size at the new address, whose bytes agree with the old
  ones up to the smaller of the two sizes; when it fails the call returns \<open>NULL\<close> and the old
  block stays live with all its bytes. No other block changes and the invariant is kept.
\<close>

theorem mmem_realloc_correct:
  assumes "mmem_inv s (us @ q # vs)" "ms_blocks s q = Some b"
    and "mmem_check_block_magic_active b = Some True" "n \<noteq> 0" "unat n + 64 < 2 ^ 64"
    and "r = q \<or> real_alloc_ok s r (mmem_total_size n)" "r \<noteq> NULL"
    and "unat (ms_total_size s) + unat (mmem_total_size n) < 2 ^ 64"
  shows "(\<exists>s' b'. mmem_realloc r f (mmem_block_data q) n file line s = Some (mmem_block_data r, s')
      \<and> mmem_inv s' (us @ vs @ [r]) \<and> ms_blocks s' = (ms_blocks s)(q := None, r \<mapsto> b')
      \<and> live_block n (block_data b') file line b'
      \<and> take (min (unat n) (unat (mb_size b))) (block_data b')
        = take (min (unat n) (unat (mb_size b))) (block_data b))
    \<and> (\<exists>s' b'. mmem_realloc NULL f (mmem_block_data q) n file line s = Some (NULL, s')
      \<and> mmem_inv s' (us @ vs @ [q]) \<and> ms_blocks s' = (ms_blocks s)(q \<mapsto> b')
      \<and> mb_size b' = mb_size b \<and> block_data b' = block_data b
      \<and> mmem_check_block_magic_active b' = Some True)"
proof -
  have "mmem_list_node q \<noteq> mmem_table_list"
    using assms(1) by (auto simp: mmem_inv_def mmem_ok_def mmem_heap_ok_def)
  then have "r = q \<or> r \<notin> dom (ms_blocks s)" "mmem_list_node r \<noteq> mmem_table_list"
    "unat (ms_total_size s) + unat (mmem_total_size n) < 2 ^ 64 + unat (mb_total_size b)"
    using assms(6,8) by (auto simp: real_alloc_ok_def)
  from realloc_ok [OF assms(1-5,7) this, of f "file" line]
    realloc_failed_ok [OF assms(1-4), of f "file" line]
  show ?thesis by blast
qed

theorem mmem_realloc_correct_witness:
  "\<exists>s b s' b'. mmem_alloc 1000 (\<lambda>_. 9) 3 ''a.c'' 3 mmem_init_state = Some (1056, s)
     \<and> ms_blocks s 1000 = Some b
     \<and> mmem_realloc 2000 (\<lambda>_. 0) 1056 2 ''b.c'' 4 s = Some (2056, s')
     \<and> ms_blocks s' = [2000 \<mapsto> b'] \<and> take 2 (block_data b') = take 2 (block_data b)"
proof -
  have pos: "(3 :: u64) \<noteq> 0" "unat (3 :: u64) + 64 < 2 ^ 64" by simp_all
  obtain s b where s: "mmem_alloc 1000 (\<lambda>_. 9) 3 ''a.c'' 3 mmem_init_state = Some (1056, s)"
    "mmem_inv s ([] @ 1000 # [])" "ms_blocks s = [1000 \<mapsto> b]" "live_block 3 (map (\<lambda>_. 9) [0..<3]) ''a.c'' 3 b"
    using alloc_ok [OF mmem_init_inv pos init_alloc_ok, of "\<lambda>_. 9" "''a.c''" 3]
    by (auto simp: mmem_block_data_def) (simp add: mmem_init_state_def)
  have tot: "unat (ms_total_size s) = 67"
    using s(2-4) unat_mmem_total_size [OF pos(2)]
    by (auto simp: mmem_inv_def mmem_ok_def mmem_count_ok_def nat_total_def live_block_def)
  have sz: "unat (mmem_total_size 2) = 66" using unat_mmem_total_size [of 2] by simp
  have r: "real_alloc_ok s 2000 (mmem_total_size 2)"
    by (simp add: real_alloc_ok_def s(3) mmem_list_node_def MMEM_LIST_OFFSET_def
        mmem_table_list_def tot sz)
  have b: "ms_blocks s 1000 = Some b" "mmem_check_block_magic_active b = Some True"
    "min (unat (2 :: u64)) (unat (mb_size b)) = 2"
    using s(3,4) by (simp_all add: live_block_def)
  have "\<exists>s' b'. mmem_realloc 2000 (\<lambda>_. 0) (mmem_block_data 1000) 2 ''b.c'' 4 s = Some (mmem_block_data 2000, s')
      \<and> ms_blocks s' = (ms_blocks s)(1000 := None, 2000 \<mapsto> b') \<and> take 2 (block_data b') = take 2 (block_data b)"
    using mmem_realloc_correct [OF s(2) b(1,2), of 2 2000 "\<lambda>_. 0" "''b.c''" 4] r tot sz
    unfolding b(3) by auto
  then show ?thesis using s(1,3) b(1) by (auto simp: mmem_block_data_def)
qed

text \<open>
  C4. A program that writes past the end of its block and changes the tail magic is caught:
  the next \<open>mmem_free\<close> or \<open>mmem_realloc\<close> of the block is refused and leaves the allocator as
  it is.
\<close>

theorem mmem_overrun_refused:
  assumes "mmem_live s bs" "ms_blocks s q = Some b" "d \<noteq> []" "i + length d \<le> unat (mb_size b) + 8"
    and "unat (mb_size b) \<le> i" and "d \<noteq> take (length d) (drop (i - unat (mb_size b)) MMEM_BLOCK_ACTIVE_TAIL_MAGIC)"
    and "n \<noteq> 0"
  shows "\<exists>s'. mmem_client_write q i d s = Some s' \<and> mmem_free (mmem_block_data q) s' = Some s'
    \<and> mmem_realloc r f (mmem_block_data q) n file line s' = Some (NULL, s')"
proof -
  have inv: "mmem_inv s bs" using assms(1) by (simp add: mmem_live_def)
  obtain us vs where wf: "block_wf b" by (rule mmem_inv_listed [OF inv assms(2)])
  let ?b = "b\<lparr>mb_mem := mem_put i d (mb_mem b)\<rparr>" and ?k = "i - unat (mb_size b)"
  have len: "i + length d \<le> length (mb_mem b)" using wf assms(4) by (simp add: block_wf_def)
  obtain s' where s': "mmem_client_write q i d s = Some s'" "mmem_inv s' bs"
    "ms_blocks s' = (ms_blocks s)(q \<mapsto> ?b)"
    using client_write_ok [OF inv assms(2) len] by blast
  have "take (length d) (drop ?k (take 8 (drop (unat (mb_size b)) (mem_put i d (mb_mem b)))))
    = take (length d) (drop i (mem_put i d (mb_mem b)))"
    using assms(4,5) by (simp add: drop_take min_def)
  also have "\<dots> = d" by (rule mem_put_read [OF len])
  finally have "take 8 (drop (unat (mb_size b)) (mem_put i d (mb_mem b))) \<noteq> MMEM_BLOCK_ACTIVE_TAIL_MAGIC"
    using assms(6) by metis
  then have "mmem_check_block_magic_active ?b = Some False"
    using len wf by (simp add: mmem_check_block_magic_active_def mmem_block_tail_magic_def
        mb_tail_ok_def block_wf_def length_mem_put)
  moreover have "\<not> ms_locked s'" using s'(2) by (simp add: mmem_inv_def)
  ultimately have "mmem_free (mmem_block_data q) s' = Some s'"
    "mmem_realloc r f (mmem_block_data q) n file line s' = Some (NULL, s')"
    using s'(3) assms(7) by (simp_all add: free_refused mmem_realloc_def Let_def)
  with s'(1) show ?thesis by blast
qed

lemma init_alloc_live:
  "\<exists>s b. mmem_alloc 1000 (\<lambda>_. 9) 3 ''a.c'' 3 mmem_init_state = Some (1056, s) \<and> mmem_live s [1000]
     \<and> ms_blocks s = [1000 \<mapsto> b] \<and> mb_size b = 3"
proof -
  have pos: "(3 :: u64) \<noteq> 0" "unat (3 :: u64) + 64 < 2 ^ 64" by simp_all
  obtain s b where s: "mmem_alloc 1000 (\<lambda>_. 9) 3 ''a.c'' 3 mmem_init_state = Some (1056, s)"
    "mmem_inv s [1000]" "ms_blocks s = [1000 \<mapsto> b]" "live_block 3 (map (\<lambda>_. 9) [0..<3]) ''a.c'' 3 b"
    using alloc_ok [OF mmem_init_inv pos init_alloc_ok, of "\<lambda>_. 9" "''a.c''" 3]
    by (auto simp: mmem_block_data_def) (simp add: mmem_init_state_def)
  then show ?thesis by (auto simp: mmem_live_def live_block_def)
qed

theorem mmem_overrun_refused_witness:
  "\<exists>s s'. mmem_alloc 1000 (\<lambda>_. 9) 3 ''a.c'' 3 mmem_init_state = Some (1056, s)
     \<and> mmem_client_write 1000 3 [0] s = Some s' \<and> mmem_free 1056 s' = Some s'"
proof -
  obtain s b where s: "mmem_alloc 1000 (\<lambda>_. 9) 3 ''a.c'' 3 mmem_init_state = Some (1056, s)"
    "mmem_live s [1000]" "ms_blocks s 1000 = Some b" "mb_size b = 3"
    using init_alloc_live by auto
  have "[0] \<noteq> take (length [0 :: u8]) (drop (3 - unat (mb_size b)) MMEM_BLOCK_ACTIVE_TAIL_MAGIC)"
    by (simp add: s(4) MMEM_BLOCK_ACTIVE_TAIL_MAGIC_def long_of_string_def)
  then have "\<exists>s'. mmem_client_write 1000 3 [0] s = Some s' \<and> mmem_free (mmem_block_data 1000) s' = Some s'"
    using mmem_overrun_refused [OF s(2,3), of "[0]" 3 1 NULL "\<lambda>_. 0" "[]" 0] by (auto simp: s(4))
  with s(1) show ?thesis by (auto simp: mmem_block_data_def)
qed

text \<open>
  \<open>mmem_free_all\<close> is defined in every consistent state, whatever the users did to the magic
  words, and leaves no live block, an empty ring and counters of zero.
\<close>

theorem mmem_free_all_correct:
  assumes "mmem_inv s bs"
  shows "\<exists>s'. mmem_free_all s = Some s' \<and> mmem_inv s' [] \<and> ms_blocks s' = Map.empty
    \<and> ms_count s' = 0 \<and> ms_total_size s' = 0 \<and> ms_active_size s' = 0"
proof -
  obtain s' where s': "mmem_free_all s = Some s'" "mmem_inv s' []" using free_all_ok [OF assms] by blast
  then have "dom (ms_blocks s') = {}" "ms_count s' = 0" "unat (ms_total_size s') = 0"
    "unat (ms_active_size s') = 0"
    by (simp_all add: mmem_inv_def mmem_ok_defs nat_total_def nat_active_def)
  with s' show ?thesis by (simp add: unat_eq_0)
qed

theorem mmem_free_all_correct_witness:
  "\<exists>s s'. mmem_alloc 1000 (\<lambda>_. 9) 3 ''a.c'' 3 mmem_init_state = Some (1056, s)
     \<and> ms_blocks s \<noteq> Map.empty \<and> mmem_free_all s = Some s' \<and> ms_blocks s' = Map.empty"
proof -
  obtain s b where s: "mmem_alloc 1000 (\<lambda>_. 9) 3 ''a.c'' 3 mmem_init_state = Some (1056, s)"
    "mmem_live s [1000]" "ms_blocks s = [1000 \<mapsto> b]" using init_alloc_live by blast
  then show ?thesis using mmem_free_all_correct [of s "[1000]"] by (auto simp: mmem_live_def)
qed

text \<open>
  The dump of block infos reports exactly the first blocks of the table, in allocation
  order: as many as fit in \<open>counts\<close> entries and in the buffer; and no dump command changes a
  block or the invariant.
\<close>

theorem mmem_dump_correct:
  assumes "mmem_inv s bs" "\<not> buf_null" "32 \<le> buf_size" "counts \<noteq> 0"
    and "n = min (unat counts) (unat buf_size div 32)"
  shows "(\<exists>s'. mmem_dump MMEM_DUMP_CMD_MMEM_BLOCK_INFO counts buf_null buf_size s
      = Some ((int (length (take n bs)), Dump_blocks (map (block_info_of s) (take n bs))), s'))
    \<and> (\<forall>cmd. \<exists>r s'. mmem_dump cmd counts buf_null buf_size s = Some (r, s') \<and> mmem_inv s' bs
      \<and> ms_blocks s' = ms_blocks s)"
  using mmem_dump_blocks_ok [OF assms] mmem_dump_ok [OF assms(1)] by blast

theorem mmem_dump_correct_witness:
  "\<exists>s s' info. mmem_alloc 1000 (\<lambda>_. 9) 3 ''a.c'' 3 mmem_init_state = Some (1056, s)
     \<and> mmem_dump MMEM_DUMP_CMD_MMEM_BLOCK_INFO 4 False 100 s = Some ((1, Dump_blocks [info]), s')
     \<and> mbi_size info = 3"
proof -
  obtain s b where s: "mmem_alloc 1000 (\<lambda>_. 9) 3 ''a.c'' 3 mmem_init_state = Some (1056, s)"
    "mmem_live s [1000]" "ms_blocks s = [1000 \<mapsto> b]" "mb_size b = 3" using init_alloc_live by blast
  have "min (unat (4 :: u64)) (unat (100 :: u64) div 32) = 3" by simp
  with s mmem_dump_correct [of s "[1000]" False 100 4 3] show ?thesis
    by (auto simp: mmem_live_def block_info_of_def)
qed

end
