(* ===== verification/Fifo.thy ===== *)
theory Fifo
  imports Prelude
begin

text \<open>
  Bounded first-in-first-out buffers: the reading of a circular array as a list, and the
  contract of a queue of messages with the consequences a client draws from it.
\<close>

section \<open>Circular arrays\<close>

text \<open>The \<open>k\<close> cells of an array of \<open>n\<close> cells from index \<open>r\<close> on, around the end.\<close>

definition ring_list :: "(nat \<Rightarrow> 'a) \<Rightarrow> nat \<Rightarrow> nat \<Rightarrow> nat \<Rightarrow> 'a list" where
  "ring_list f n r k = map (\<lambda>i. f ((r + i) mod n)) [0..<k]"

lemma length_ring_list [simp]: "length (ring_list f n r k) = k"
  by (simp add: ring_list_def)

lemma ring_list_0 [simp]: "ring_list f n r 0 = []"
  by (simp add: ring_list_def)

lemma ring_list_snoc: "ring_list f n r (Suc k) = ring_list f n r k @ [f ((r + k) mod n)]"
  by (simp add: ring_list_def)

lemma ring_list_Cons: "r < n \<Longrightarrow> ring_list f n r (Suc k) = f r # ring_list f n (Suc r mod n) k"
proof (induction k)
  case (Suc k)
  have "(r + Suc k) mod n = (Suc r mod n + k) mod n" by (simp add: mod_simps)
  then show ?case using Suc by (simp add: ring_list_snoc [of f n r "Suc k"] ring_list_snoc)
qed (simp add: ring_list_def)

lemma ring_list_cong:
  "(\<And>i. i < k \<Longrightarrow> f ((r + i) mod n) = g ((r + i) mod n)) \<Longrightarrow> ring_list f n r k = ring_list g n r k"
  by (simp add: ring_list_def)

text \<open>The number of occupied cells between a read and a write index.\<close>

definition ring_count :: "nat \<Rightarrow> nat \<Rightarrow> nat \<Rightarrow> nat" where
  "ring_count n r w = (if r \<le> w then w - r else n + w - r)"

lemma ring_count_bound: "r < n \<Longrightarrow> w < n \<Longrightarrow> ring_count n r w < n"
  by (auto simp: ring_count_def)

lemma ring_count_eq_0: "r < n \<Longrightarrow> w < n \<Longrightarrow> ring_count n r w = 0 \<longleftrightarrow> r = w"
  by (auto simp: ring_count_def)

lemma ring_count_end: "r < n \<Longrightarrow> w < n \<Longrightarrow> (r + ring_count n r w) mod n = w"
  by (auto simp: ring_count_def mod_if)

lemma ring_count_full: "r < n \<Longrightarrow> w < n \<Longrightarrow> Suc w mod n = r \<longleftrightarrow> ring_count n r w = n - 1"
  by (auto simp: ring_count_def mod_if)

lemma ring_count_push:
  "r < n \<Longrightarrow> w < n \<Longrightarrow> Suc w mod n \<noteq> r \<Longrightarrow> ring_count n r (Suc w mod n) = Suc (ring_count n r w)"
  by (auto simp: ring_count_def mod_if split: if_splits)

lemma ring_count_pop:
  "r < n \<Longrightarrow> w < n \<Longrightarrow> r \<noteq> w \<Longrightarrow> Suc (ring_count n (Suc r mod n) w) = ring_count n r w"
  by (auto simp: ring_count_def mod_if split: if_splits)

lemma ring_count_fresh:
  assumes "r < n" "w < n" "i < ring_count n r w"
  shows "(r + i) mod n \<noteq> w"
proof (cases "r + i < n")
  case True
  then show ?thesis using assms by (auto simp: ring_count_def split: if_splits)
next
  case False
  then have "(r + i) mod n = r + i - n" using assms
    by (simp add: ring_count_def le_mod_geq split: if_splits)
  then show ?thesis using assms False by (auto simp: ring_count_def split: if_splits)
qed

lemma mod_add_inj:
  fixes x y :: nat
  assumes "(r + x) mod n = (r + y) mod n" "x < n" "y < n"
  shows "x = y"
proof -
  have *: "x = y" if "(r + x) mod n = (r + y) mod n" "x \<le> y" "y < n" for x y :: nat
  proof -
    have "(r + y) mod n = (r + x) mod n" "r + x \<le> r + y" using that(1,2) by simp_all
    then have "n dvd (r + y) - (r + x)" using mod_eq_dvd_iff_nat by blast
    then have "n dvd y - x" by simp
    then have "y - x = 0" using that(3) nat_dvd_not_less [of "y - x" n] by (cases "y - x = 0") auto
    then show ?thesis using that(2) by simp
  qed
  show ?thesis using * [of x y] * [of y x] assms by (cases "x \<le> y") auto
qed

text \<open>Blocks of cells, written from index \<open>w\<close> on and read from index \<open>r\<close> on, around the end.\<close>

definition ring_put :: "nat \<Rightarrow> 'a list \<Rightarrow> 'a list \<Rightarrow> 'a list" where
  "ring_put w d buf = (if w + length d < length buf then mem_put w d buf
     else mem_put 0 (drop (length buf - w) d) (mem_put w (take (length buf - w) d) buf))"

definition ring_get :: "nat \<Rightarrow> nat \<Rightarrow> 'a list \<Rightarrow> 'a list" where
  "ring_get r k buf = (if r + k < length buf then mem_get r k buf
     else mem_get r (length buf - r) buf @ mem_get 0 (k - (length buf - r)) buf)"

lemma length_ring_put: "w < length buf \<Longrightarrow> length d \<le> length buf \<Longrightarrow> length (ring_put w d buf) = length buf"
  by (simp add: ring_put_def length_mem_put)

lemma nth_ring_put:
  assumes "w < length buf" "length d \<le> length buf" "i < length buf"
  shows "ring_put w d buf ! ((w + i) mod length buf) = (if i < length d then d ! i else buf ! ((w + i) mod length buf))"
proof (cases "w + length d < length buf")
  case True
  then show ?thesis using assms
    by (cases "w + i < length buf") (auto simp: ring_put_def nth_mem_put le_mod_geq not_less)
next
  case False
  let ?n = "length buf"
  let ?b = "mem_put w (take (?n - w) d) buf"
  have l: "length ?b = ?n" using assms(1) by (simp add: length_mem_put)
  have b: "?b ! j = (if w \<le> j \<and> j < w + (?n - w) then d ! (j - w) else buf ! j)" if "j < ?n" for j
    using that assms(1) False by (subst nth_mem_put) (auto simp: min_def)
  have r: "ring_put w d buf ! j = (if j < length d - (?n - w) then d ! (?n - w + j) else ?b ! j)" if "j < ?n" for j
    using that assms False l unfolding ring_put_def if_not_P [OF False] by (subst nth_mem_put) auto
  show ?thesis
  proof (cases "w + i < ?n")
    case True
    then have "\<not> w + i < length d - (?n - w)" using assms(2) by linarith
    then show ?thesis using True assms False by (simp add: r b)
  next
    case wrap: False
    then have m: "(w + i) mod ?n = w + i - ?n" using assms by (simp add: le_mod_geq)
    then show ?thesis using assms False wrap by (auto simp: r b)
  qed
qed

lemma ring_put_list:
  assumes "r < length buf" "used + length d \<le> length buf" "w = (r + used) mod length buf"
  shows "ring_list ((!) (ring_put w d buf)) (length buf) r (used + length d) = ring_list ((!) buf) (length buf) r used @ d"
proof (rule nth_equalityI)
  let ?n = "length buf"
  have "0 < ?n" using assms(1) by linarith
  then have w: "w < ?n" unfolding assms(3) by simp
  fix i assume "i < length (ring_list ((!) (ring_put w d buf)) ?n r (used + length d))"
  then have i: "i < used + length d" by simp
  show "ring_list ((!) (ring_put w d buf)) ?n r (used + length d) ! i = (ring_list ((!) buf) ?n r used @ d) ! i"
  proof (cases "i < used")
    case True
    let ?j = "?n - used + i"
    have e: "(r + i) mod ?n = (w + ?j) mod ?n"
    proof -
      have "(w + ?j) mod ?n = (r + used + ?j) mod ?n" unfolding assms(3) by (simp add: mod_simps)
      also have "r + used + ?j = r + i + ?n" using assms(2) by simp
      finally show ?thesis by simp
    qed
    have "?j < ?n" "\<not> ?j < length d" using True assms(2) by auto
    from nth_ring_put [OF w _ this(1), of d] this(2) assms(2)
    have "ring_put w d buf ! ((r + i) mod ?n) = buf ! ((r + i) mod ?n)" unfolding e by simp
    then show ?thesis using True i unfolding ring_list_def by (simp add: nth_append)
  next
    case False
    then obtain t where t: "i = used + t" by (auto simp: not_less le_iff_add)
    have e: "(r + i) mod ?n = (w + t) mod ?n" unfolding t assms(3) by (simp add: mod_simps add.assoc)
    have "t < length d" "t < ?n" using t i assms(2) by auto
    with nth_ring_put [OF w _ this(2), of d] assms(2) have "ring_put w d buf ! ((r + i) mod ?n) = d ! t"
      unfolding e by simp
    then show ?thesis using t i unfolding ring_list_def by (simp add: nth_append)
  qed
qed simp

lemma ring_get_list:
  assumes "r < length buf" "k \<le> used" "used \<le> length buf"
  shows "ring_get r k buf = take k (ring_list ((!) buf) (length buf) r used)"
proof (rule nth_equalityI)
  show "length (ring_get r k buf) = length (take k (ring_list ((!) buf) (length buf) r used))"
    using assms by (auto simp: ring_get_def)
  fix i assume "i < length (ring_get r k buf)"
  then have i: "i < k" using assms by (auto simp: ring_get_def split: if_splits)
  then show "ring_get r k buf ! i = take k (ring_list ((!) buf) (length buf) r used) ! i"
    using assms by (cases "r + i < length buf")
      (auto simp: ring_get_def ring_list_def nth_append nth_mem_get le_mod_geq not_less add.commute)
qed

lemma ring_list_drop: "k \<le> used \<Longrightarrow> ring_list f n ((r + k) mod n) (used - k) = drop k (ring_list f n r used)"
  by (rule nth_equalityI) (simp_all add: ring_list_def mod_simps add.assoc less_diff_conv add.commute [of k])

lemma ring_list_take: "k \<le> used \<Longrightarrow> ring_list f n r k = take k (ring_list f n r used)"
  by (rule nth_equalityI) (simp_all add: ring_list_def)

section \<open>The contract of a queue\<close>

text \<open>
  Calls a client makes, and their answers. A call is \<open>None\<close> where its code is undefined; \<open>push\<close> answers whether
  the message was accepted, \<open>pop\<close> the message it delivers, if any.
\<close>

datatype 'm fifo_op = Push 'm | Pop
datatype 'm fifo_answer = Pushed bool | Popped "'m option"

fun fifo_run ::
  "('m \<Rightarrow> 'q \<Rightarrow> (bool \<times> 'q) option) \<Rightarrow> ('q \<Rightarrow> ('m option \<times> 'q) option) \<Rightarrow> 'm fifo_op list \<Rightarrow> 'q
     \<Rightarrow> ('m fifo_answer list \<times> 'q) option"
where
  "fifo_run push pop [] q = Some ([], q)"
| "fifo_run push pop (Push m # ops) q = do {
     (ok, q) \<leftarrow> push m q;
     (as, q) \<leftarrow> fifo_run push pop ops q;
     Some (Pushed ok # as, q) }"
| "fifo_run push pop (Pop # ops) q = do {
     (m, q) \<leftarrow> pop q;
     (as, q) \<leftarrow> fifo_run push pop ops q;
     Some (Popped m # as, q) }"

fun fifo_msgs :: "'m fifo_op list \<Rightarrow> 'm list" where
  "fifo_msgs [] = []"
| "fifo_msgs (Push m # ops) = m # fifo_msgs ops"
| "fifo_msgs (Pop # ops) = fifo_msgs ops"

text \<open>The abstract queue: a list of at most \<open>c\<close> messages; what it answers and what is left in it.\<close>

fun fifo_spec :: "nat \<Rightarrow> 'm fifo_op list \<Rightarrow> 'm list \<Rightarrow> 'm fifo_answer list \<times> 'm list" where
  "fifo_spec c [] l = ([], l)"
| "fifo_spec c (Push m # ops) l =
     (let (as, l') = fifo_spec c ops (if length l < c then l @ [m] else l) in (Pushed (length l < c) # as, l'))"
| "fifo_spec c (Pop # ops) l = (case l of
     [] \<Rightarrow> (let (as, l') = fifo_spec c ops [] in (Popped None # as, l'))
   | m # l \<Rightarrow> (let (as, l') = fifo_spec c ops l in (Popped (Some m) # as, l')))"

locale bounded_fifo =
  fixes push :: "'m \<Rightarrow> 'q \<Rightarrow> (bool \<times> 'q) option"
    and pop :: "'q \<Rightarrow> ('m option \<times> 'q) option"
    and inv :: "'q \<Rightarrow> bool"
    and contents :: "'q \<Rightarrow> 'm list"
    and valid :: "'m \<Rightarrow> bool"
    and capacity :: nat
  assumes push_accepts: "\<lbrakk> inv q; valid m; length (contents q) < capacity \<rbrakk>
      \<Longrightarrow> \<exists>q'. push m q = Some (True, q') \<and> inv q' \<and> contents q' = contents q @ [m]"
    and push_refuses: "\<lbrakk> inv q; valid m; capacity \<le> length (contents q) \<rbrakk> \<Longrightarrow> push m q = Some (False, q)"
    and pop_first: "\<lbrakk> inv q; contents q = m # ms \<rbrakk>
      \<Longrightarrow> \<exists>q'. pop q = Some (Some m, q') \<and> inv q' \<and> contents q' = ms"
    and pop_none: "\<lbrakk> inv q; contents q = [] \<rbrakk> \<Longrightarrow> pop q = Some (None, q)"
    and bounded: "inv q \<Longrightarrow> length (contents q) \<le> capacity"
begin

text \<open>Whatever the client does is defined and answered as the abstract queue answers it.\<close>

lemma run_refines:
  assumes "inv q" and "\<forall>m \<in> set (fifo_msgs ops). valid m"
  shows "\<exists>q'. fifo_run push pop ops q = Some (fst (fifo_spec capacity ops (contents q)), q') \<and> inv q'
    \<and> contents q' = snd (fifo_spec capacity ops (contents q))"
  using assms
proof (induction ops arbitrary: q)
  case (Cons op ops)
  have rest: "\<forall>m \<in> set (fifo_msgs ops). valid m" using Cons.prems(2) by (cases op) auto
  show ?case
  proof (cases op)
    case (Push m)
    then have v: "valid m" using Cons.prems(2) by simp
    let ?l = "if length (contents q) < capacity then contents q @ [m] else contents q"
    obtain q1 where q1: "push m q = Some (length (contents q) < capacity, q1)" "inv q1" "contents q1 = ?l"
      using push_accepts [OF Cons.prems(1) v] push_refuses [OF Cons.prems(1) v] Cons.prems(1)
      by (cases "length (contents q) < capacity") auto
    with Cons.IH [OF q1(2) rest] show ?thesis by (auto simp: Push Let_def case_prod_beta)
  next
    case Pop
    show ?thesis
    proof (cases "contents q")
      case Nil
      with Cons.IH [OF Cons.prems(1) rest] pop_none [OF Cons.prems(1)] show ?thesis
        by (auto simp: Pop Let_def case_prod_beta)
    next
      case (Cons m ms)
      then obtain q1 where "pop q = Some (Some m, q1)" "inv q1" "contents q1 = ms"
        using pop_first [OF Cons.prems(1)] by blast
      with Cons.IH [OF this(2) rest] Cons show ?thesis by (auto simp: Pop Let_def case_prod_beta)
    qed
  qed
qed simp

end

text \<open>What the abstract queue promises: nothing is lost, altered or put out of order, and its bound.\<close>

fun accepted :: "'m fifo_op list \<Rightarrow> 'm fifo_answer list \<Rightarrow> 'm list" where
  "accepted (Push m # ops) (Pushed ok # as) = (if ok then m # accepted ops as else accepted ops as)"
| "accepted (Pop # ops) (_ # as) = accepted ops as"
| "accepted _ _ = []"

fun delivered :: "'m fifo_answer list \<Rightarrow> 'm list" where
  "delivered (Popped (Some m) # as) = m # delivered as"
| "delivered (_ # as) = delivered as"
| "delivered [] = []"

lemma fifo_spec_order:
  "length l \<le> c \<Longrightarrow> l @ accepted ops (fst (fifo_spec c ops l)) = delivered (fst (fifo_spec c ops l)) @ snd (fifo_spec c ops l)
    \<and> length (snd (fifo_spec c ops l)) \<le> c"
proof (induction c ops l rule: fifo_spec.induct)
  case (2 c m ops l)
  then show ?case by (cases "length l < c") (auto simp: Let_def case_prod_beta)
next
  case (3 c ops l)
  then show ?case by (cases l) (auto simp: Let_def case_prod_beta)
qed simp

section \<open>The contract of a byte stream with limited room\<close>

text \<open>
  \<open>put\<close> takes in what there is room for and answers how much that was; \<open>get\<close> hands over some of the
  oldest characters, at most as many as asked for and at least one when there are any.
\<close>

datatype 'a pipe_op = Put "'a list" | Get nat
datatype 'a pipe_answer = Took nat | Got "'a list"

fun pipe_run ::
  "('a list \<Rightarrow> 'q \<Rightarrow> (nat \<times> 'q) option) \<Rightarrow> (nat \<Rightarrow> 'q \<Rightarrow> ('a list \<times> 'q) option) \<Rightarrow> 'a pipe_op list \<Rightarrow> 'q
    \<Rightarrow> ('a pipe_answer list \<times> 'q) option"
where
  "pipe_run put get [] q = Some ([], q)"
| "pipe_run put get (Put d # ops) q = do {
     (n, q) \<leftarrow> put d q;
     (as, q) \<leftarrow> pipe_run put get ops q;
     Some (Took n # as, q) }"
| "pipe_run put get (Get k # ops) q = do {
     (out, q) \<leftarrow> get k q;
     (as, q) \<leftarrow> pipe_run put get ops q;
     Some (Got out # as, q) }"

text \<open>
  The abstract pipe: a list of at most \<open>c\<close> characters. A put takes in as many characters as there is room for; a get
  hands over a prefix of the list, of which \<open>piece\<close> says how long it may be. These are the answers it may give.
\<close>

fun pipe_spec :: "nat \<Rightarrow> (nat \<Rightarrow> 'a list \<Rightarrow> 'a list \<Rightarrow> bool) \<Rightarrow> 'a pipe_op list \<Rightarrow> 'a list \<Rightarrow> 'a pipe_answer list \<Rightarrow> 'a list \<Rightarrow> bool" where
  "pipe_spec c piece [] l [] l' \<longleftrightarrow> l' = l"
| "pipe_spec c piece (Put d # ops) l (Took n # as) l' \<longleftrightarrow>
     n = min (length d) (c - length l) \<and> pipe_spec c piece ops (l @ take n d) as l'"
| "pipe_spec c piece (Get k # ops) l (Got out # as) l' \<longleftrightarrow>
     take (length out) l = out \<and> piece k l out \<and> pipe_spec c piece ops (drop (length out) l) as l'"
| "pipe_spec _ _ _ _ _ _ \<longleftrightarrow> False"

text \<open>Getting a block of \<open>k\<close> characters, and getting some characters, but at least one.\<close>

definition block_piece :: "nat \<Rightarrow> 'a list \<Rightarrow> 'a list \<Rightarrow> bool" where
  "block_piece k l out \<longleftrightarrow> out = take k l"

definition some_piece :: "nat \<Rightarrow> 'a list \<Rightarrow> 'a list \<Rightarrow> bool" where
  "some_piece k l out \<longleftrightarrow> length out \<le> k \<and> (out = [] \<longrightarrow> k = 0 \<or> l = [])"

text \<open>What was put in, and what came out.\<close>

fun pipe_ins :: "'a pipe_op list \<Rightarrow> 'a pipe_answer list \<Rightarrow> 'a list" where
  "pipe_ins (Put d # ops) (Took n # as) = take n d @ pipe_ins ops as"
| "pipe_ins (Get _ # ops) (_ # as) = pipe_ins ops as"
| "pipe_ins _ _ = []"

fun pipe_outs :: "'a pipe_answer list \<Rightarrow> 'a list" where
  "pipe_outs (Got out # as) = out @ pipe_outs as"
| "pipe_outs (Took _ # as) = pipe_outs as"
| "pipe_outs [] = []"

lemma pipe_spec_iff:
  "pipe_spec c piece [] l as l' \<longleftrightarrow> as = [] \<and> l' = l"
  "pipe_spec c piece (Put d # ops) l as l' \<longleftrightarrow> (\<exists>as'. as = Took (min (length d) (c - length l)) # as'
     \<and> pipe_spec c piece ops (l @ take (c - length l) d) as' l')"
  "pipe_spec c piece (Get k # ops) l as l' \<longleftrightarrow> (\<exists>out as'. as = Got out # as' \<and> take (length out) l = out \<and> piece k l out
     \<and> pipe_spec c piece ops (drop (length out) l) as' l')"
proof -
  have t: "take (min (length d) m) d = take m d" for m by (cases "length d \<le> m") simp_all
  show "pipe_spec c piece [] l as l' \<longleftrightarrow> as = [] \<and> l' = l" by (cases as) auto
  show "pipe_spec c piece (Put d # ops) l as l' \<longleftrightarrow> (\<exists>as'. as = Took (min (length d) (c - length l)) # as'
     \<and> pipe_spec c piece ops (l @ take (c - length l) d) as' l')"
  proof (cases as)
    case (Cons a as')
    then show ?thesis by (cases a) (auto simp: t)
  qed simp
  show "pipe_spec c piece (Get k # ops) l as l' \<longleftrightarrow> (\<exists>out as'. as = Got out # as' \<and> take (length out) l = out \<and> piece k l out
     \<and> pipe_spec c piece ops (drop (length out) l) as' l')"
  proof (cases as)
    case (Cons a as')
    then show ?thesis by (cases a) auto
  qed simp
qed

lemma pipe_spec_order:
  "pipe_spec c piece ops l as l' \<Longrightarrow> length l \<le> c \<Longrightarrow> l @ pipe_ins ops as = pipe_outs as @ l' \<and> length l' \<le> c"
proof (induction c piece ops l as l' rule: pipe_spec.induct)
  case (3 c piece k ops l out as l')
  then have "l = out @ drop (length out) l" by (metis append_take_drop_id pipe_spec.simps(3))
  with 3 show ?case by (metis (no_types, lifting) append.assoc diff_le_self le_trans length_drop pipe_ins.simps(2) pipe_outs.simps(1) pipe_spec.simps(3))
qed auto

text \<open>Getting until nothing is left, in at most \<open>n\<close> rounds.\<close>

fun pipe_drain :: "(nat \<Rightarrow> 'q \<Rightarrow> ('a list \<times> 'q) option) \<Rightarrow> nat \<Rightarrow> nat \<Rightarrow> 'q \<Rightarrow> ('a list list \<times> 'q) option" where
  "pipe_drain get k 0 q = None"
| "pipe_drain get k (Suc n) q = do {
     (out, q) \<leftarrow> get k q;
     if out = [] then Some ([], q)
     else do { (outs, q) \<leftarrow> pipe_drain get k n q; Some (out # outs, q) } }"

locale byte_pipe =
  fixes put :: "'a list \<Rightarrow> 'q \<Rightarrow> (nat \<times> 'q) option"
    and get :: "nat \<Rightarrow> 'q \<Rightarrow> ('a list \<times> 'q) option"
    and inv :: "'q \<Rightarrow> bool"
    and contents :: "'q \<Rightarrow> 'a list"
    and capacity :: nat
    and limit :: nat
    and piece :: "nat \<Rightarrow> 'a list \<Rightarrow> 'a list \<Rightarrow> bool"
  assumes put_ok: "\<lbrakk> inv q; d \<noteq> []; length d < limit \<rbrakk>
      \<Longrightarrow> \<exists>q'. put d q = Some (min (length d) (capacity - length (contents q)), q') \<and> inv q'
        \<and> contents q' = contents q @ take (capacity - length (contents q)) d"
    and get_ok: "\<lbrakk> inv q; k < limit \<rbrakk>
      \<Longrightarrow> \<exists>out q'. get k q = Some (out, q') \<and> inv q' \<and> contents q = out @ contents q' \<and> piece k (contents q) out"
    and piece: "piece k l out \<Longrightarrow> length out \<le> k \<and> (out = [] \<longrightarrow> k = 0 \<or> l = [])"
    and fits: "inv q \<Longrightarrow> length (contents q) \<le> capacity"
begin

text \<open>Any sequence of calls is defined and answered as the abstract pipe may answer it.\<close>

lemma run_refines:
  assumes "inv q" and "\<forall>op \<in> set ops. case op of Put d \<Rightarrow> d \<noteq> [] \<and> length d < limit | Get k \<Rightarrow> k < limit"
  shows "\<exists>as q'. pipe_run put get ops q = Some (as, q') \<and> pipe_spec capacity piece ops (contents q) as (contents q') \<and> inv q'"
  using assms
proof (induction ops arbitrary: q)
  case (Cons op ops)
  show ?case
  proof (cases op)
    case (Put d)
    then have "d \<noteq> []" "length d < limit" using Cons.prems(2) by simp_all
    from put_ok [OF Cons.prems(1) this] obtain q1 where
      q1: "put d q = Some (min (length d) (capacity - length (contents q)), q1)" "inv q1"
        "contents q1 = contents q @ take (capacity - length (contents q)) d" by blast
    from Cons.IH [OF q1(2)] Cons.prems(2) obtain as q' where
      "pipe_run put get ops q1 = Some (as, q')" "pipe_spec capacity piece ops (contents q1) as (contents q')" "inv q'" by auto
    moreover have "take (min (length d) m) d = take m d" for m by (cases "length d \<le> m") simp_all
    ultimately show ?thesis using Put q1(1,3) by simp
  next
    case (Get k)
    then have "k < limit" using Cons.prems(2) by simp
    from get_ok [OF Cons.prems(1) this] obtain out q1 where
      q1: "get k q = Some (out, q1)" "inv q1" "contents q = out @ contents q1" "piece k (contents q) out" by blast
    from Cons.IH [OF q1(2)] Cons.prems(2) obtain as q' where
      "pipe_run put get ops q1 = Some (as, q')" "pipe_spec capacity piece ops (contents q1) as (contents q')" "inv q'" by auto
    then show ?thesis using Get q1 by simp
  qed
qed simp

text \<open>Draining ends, and hands over everything.\<close>

lemma drain_all:
  assumes "inv q" "0 < k" "k < limit" "length (contents q) < n"
  shows "\<exists>outs q'. pipe_drain get k n q = Some (outs, q') \<and> concat outs = contents q \<and> inv q' \<and> contents q' = []
    \<and> (\<forall>out \<in> set outs. length out \<le> k)"
  using assms(1,4)
proof (induction n arbitrary: q)
  case (Suc n)
  from get_ok [OF Suc.prems(1) assms(3)] obtain out q1 where
    q1: "get k q = Some (out, q1)" "inv q1" "contents q = out @ contents q1" "length out \<le> k"
      "out = [] \<longrightarrow> contents q = []" using assms(2) piece by blast
  show ?case
  proof (cases "out = []")
    case True
    then show ?thesis using q1 by simp
  next
    case False
    then have "length (contents q1) < n" using Suc.prems(2) q1(3) by (cases out) auto
    from Suc.IH [OF q1(2) this] q1 False show ?thesis by auto
  qed
qed simp

end

end
