(* ===== verification/LockFreeQueue.thy ===== *)
theory LockFreeQueue
  imports Fifo
begin

text \<open>
  The message queue of \<open>frameworks/mlib/osal/src/osal_lock_free_queue.c\<close>: a byte ring with 32-bit
  read and write offsets. The sequential operations are shown to be a first-in-first-out buffer
  of \<open>msg_max - 1\<close> messages (an instance of the contract \<open>bounded_fifo\<close>), and a second part
  lets one producer and one consumer interleave their accesses to memory.

  A pointer argument is an option, \<open>None\<close> for \<open>NULL\<close>; the outer option of a result is
  \<open>None\<close> where the C code is undefined (a copy outside an object, a remainder by zero).
\<close>

section \<open>The code\<close>

record osal_lock_free_queue =
  q_write :: u32
  q_read :: u32
  q_msg_size :: u32
  q_total_size :: u32
  q_buffer :: bytes

text \<open>\<open>mem_ok\<close> tells whether \<open>osal_calloc\<close> found memory; the product is one of \<open>uint32_t\<close>.\<close>

definition osal_lock_free_queue_init :: "bool \<Rightarrow> u32 \<Rightarrow> u32 \<Rightarrow> osal_lock_free_queue option" where
  "osal_lock_free_queue_init mem_ok msg_size msg_max =
     (if msg_size \<le> 0 \<or> msg_max \<le> 0 then None
      else if \<not> mem_ok then None
      else Some \<lparr>q_write = 0, q_read = 0, q_msg_size = msg_size,
        q_total_size = msg_size * msg_max,
        q_buffer = replicate (unat (msg_size * msg_max)) 0\<rparr>)"

definition osal_lock_free_queue_is_full :: "osal_lock_free_queue option \<Rightarrow> int option" where
  "osal_lock_free_queue_is_full queue = (case queue of
     None \<Rightarrow> Some (- 1)
   | Some q \<Rightarrow> do {
       guard_opt (q_total_size q \<noteq> 0);
       Some (if (q_write q + q_msg_size q) mod q_total_size q = q_read q then 1 else 0) })"

definition osal_lock_free_queue_is_empty :: "osal_lock_free_queue option \<Rightarrow> int" where
  "osal_lock_free_queue_is_empty queue = (case queue of
     None \<Rightarrow> - 1
   | Some q \<Rightarrow> if q_read q = q_write q then 1 else 0)"

definition osal_lock_free_queue_push ::
  "osal_lock_free_queue option \<Rightarrow> bytes option \<Rightarrow> (int \<times> osal_lock_free_queue option) option" where
  "osal_lock_free_queue_push queue msg = (case (queue, msg) of
     (Some q, Some m) \<Rightarrow> do {
       full \<leftarrow> osal_lock_free_queue_is_full queue;
       if full \<noteq> 0 then Some (- 1, queue)
       else do {
         let copy_len = (if q_total_size q - q_write q < q_msg_size q
           then q_total_size q - q_write q else q_msg_size q);
         first \<leftarrow> mem_read 0 (unat copy_len) m;
         buf \<leftarrow> mem_write (unat (q_write q)) first (q_buffer q);
         let rest_len = q_msg_size q - copy_len;
         buf \<leftarrow> (if rest_len > 0
           then do { rest \<leftarrow> mem_read (unat copy_len) (unat rest_len) m; mem_write 0 rest buf }
           else Some buf);
         Some (0, Some (q\<lparr>q_buffer := buf,
           q_write := (q_write q + q_msg_size q) mod q_total_size q\<rparr>)) } }
   | _ \<Rightarrow> Some (- 1, queue))"

text \<open>\<open>out\<close> is the caller's buffer; its size, the argument \<open>msg_size\<close>, is not looked at.\<close>

definition osal_lock_free_queue_pop ::
  "osal_lock_free_queue option \<Rightarrow> bytes option \<Rightarrow> u32
     \<Rightarrow> (int \<times> bytes option \<times> osal_lock_free_queue option) option" where
  "osal_lock_free_queue_pop queue out msg_size = (case (queue, out) of
     (Some q, Some dst) \<Rightarrow>
       if osal_lock_free_queue_is_empty queue \<noteq> 0 then Some (- 1, out, queue)
       else do {
         let copy_len = (if q_total_size q - q_read q < q_msg_size q
           then q_total_size q - q_read q else q_msg_size q);
         first \<leftarrow> mem_read (unat (q_read q)) (unat copy_len) (q_buffer q);
         dst \<leftarrow> mem_write 0 first dst;
         let rest_len = q_msg_size q - copy_len;
         dst \<leftarrow> (if rest_len > 0
           then do { rest \<leftarrow> mem_read 0 (unat rest_len) (q_buffer q); mem_write (unat copy_len) rest dst }
           else Some dst);
         guard_opt (q_total_size q \<noteq> 0);
         Some (0, Some dst, Some (q\<lparr>q_read := (q_read q + q_msg_size q) mod q_total_size q\<rparr>)) }
   | _ \<Rightarrow> Some (- 1, out, queue))"

definition osal_lock_free_queue_deinit :: "osal_lock_free_queue option \<Rightarrow> int" where
  "osal_lock_free_queue_deinit queue = (if queue = None then - 1 else 0)"

section \<open>The queue as a sequence of messages\<close>

definition lfq_inv :: "u32 \<Rightarrow> nat \<Rightarrow> osal_lock_free_queue \<Rightarrow> bool" where
  "lfq_inv ms n q \<longleftrightarrow> q_msg_size q = ms \<and> ms \<noteq> 0 \<and> 0 < n \<and> unat (q_total_size q) = n * unat ms
     \<and> length (q_buffer q) = n * unat ms
     \<and> (\<exists>r < n. unat (q_read q) = r * unat ms) \<and> (\<exists>w < n. unat (q_write q) = w * unat ms)"

definition lfq_slot :: "osal_lock_free_queue \<Rightarrow> nat \<Rightarrow> bytes" where
  "lfq_slot q i = mem_get (i * unat (q_msg_size q)) (unat (q_msg_size q)) (q_buffer q)"

definition lfq_slots :: "osal_lock_free_queue \<Rightarrow> nat" where
  "lfq_slots q = unat (q_total_size q) div unat (q_msg_size q)"

definition lfq_r :: "osal_lock_free_queue \<Rightarrow> nat" where
  "lfq_r q = unat (q_read q) div unat (q_msg_size q)"

definition lfq_w :: "osal_lock_free_queue \<Rightarrow> nat" where
  "lfq_w q = unat (q_write q) div unat (q_msg_size q)"

definition lfq_contents :: "osal_lock_free_queue \<Rightarrow> bytes list" where
  "lfq_contents q = ring_list (lfq_slot q) (lfq_slots q) (lfq_r q) (ring_count (lfq_slots q) (lfq_r q) (lfq_w q))"

lemma lfq_invD:
  assumes "lfq_inv ms n q"
  shows "q_msg_size q = ms" "0 < unat ms" "0 < n" "unat (q_total_size q) = n * unat ms"
    "length (q_buffer q) = n * unat ms" "lfq_slots q = n" "lfq_r q < n" "lfq_w q < n"
    "unat (q_read q) = lfq_r q * unat ms" "unat (q_write q) = lfq_w q * unat ms"
    "n * unat ms < 2 ^ 32" "q_total_size q \<noteq> 0"
proof -
  have ms: "q_msg_size q = ms" "0 < unat ms" "0 < n" "unat (q_total_size q) = n * unat ms"
    "length (q_buffer q) = n * unat ms"
    using assms by (auto simp: lfq_inv_def unat_eq_0 simp flip: neq0_conv)
  show "q_msg_size q = ms" "0 < unat ms" "0 < n" "unat (q_total_size q) = n * unat ms"
    "length (q_buffer q) = n * unat ms" by fact+
  show "lfq_slots q = n" using ms by (simp add: lfq_slots_def)
  show "lfq_r q < n" "unat (q_read q) = lfq_r q * unat ms"
    "lfq_w q < n" "unat (q_write q) = lfq_w q * unat ms"
    using assms ms by (auto simp: lfq_inv_def lfq_r_def lfq_w_def)
  show "n * unat ms < 2 ^ 32" using unat_lt_size [of "q_total_size q"] ms(4) by simp
  show "q_total_size q \<noteq> 0" using ms by auto
qed

text \<open>An offset of \<open>i < n\<close> messages moves on to the next message, around the end.\<close>

lemma lfq_advance:
  fixes off :: u32
  assumes "unat off = i * unat ms" "i < n" "unat tot = n * unat ms" "n * unat ms < 2 ^ 32"
  shows "unat ((off + ms) mod tot) = (Suc i mod n) * unat ms"
proof -
  have "Suc i * unat ms \<le> n * unat ms" using assms(2) by (intro mult_right_mono) auto
  then have "unat (off + ms) = Suc i * unat ms"
    using assms by (simp add: unat_add_nowrap)
  then show ?thesis using assms(3) by (simp add: unat_mod mult_mod_left)
qed

lemma lfq_room:
  fixes off :: u32
  assumes "unat off = i * unat ms" "i < n" "unat tot = n * unat ms"
  shows "\<not> tot - off < ms" "i * unat ms + unat ms \<le> n * unat ms"
proof -
  show le: "i * unat ms + unat ms \<le> n * unat ms"
    using assms(2) mult_right_mono [of "Suc i" n "unat ms"] by simp
  then have "unat (tot - off) = n * unat ms - i * unat ms"
    using assms by (simp add: unat_sub_nowrap)
  with le show "\<not> tot - off < ms" by (simp add: word_less_nat_alt)
qed

lemma lfq_next_eq:
  assumes "lfq_inv ms n q"
  shows "(q_write q + q_msg_size q) mod q_total_size q = q_read q \<longleftrightarrow> Suc (lfq_w q) mod n = lfq_r q"
proof -
  note D = lfq_invD [OF assms]
  have "unat ((q_write q + q_msg_size q) mod q_total_size q) = (Suc (lfq_w q) mod n) * unat ms"
    unfolding D(1) by (rule lfq_advance [OF D(10,8,4,11)])
  then show ?thesis using D(2,9) by (simp add: word_unat_eq_iff)
qed

lemma lfq_is_full_iff:
  assumes "lfq_inv ms n q"
  shows "osal_lock_free_queue_is_full (Some q)
    = Some (if length (lfq_contents q) = n - 1 then 1 else 0)"
  using lfq_invD [OF assms] lfq_next_eq [OF assms] ring_count_full
  by (simp add: osal_lock_free_queue_is_full_def lfq_contents_def)

lemma lfq_is_empty_iff:
  assumes "lfq_inv ms n q"
  shows "osal_lock_free_queue_is_empty (Some q) = (if lfq_contents q = [] then 1 else 0)"
proof -
  note D = lfq_invD [OF assms]
  have "q_read q = q_write q \<longleftrightarrow> lfq_r q = lfq_w q"
    using D by (simp add: word_unat_eq_iff)
  also have "\<dots> \<longleftrightarrow> lfq_contents q = []"
    using D ring_count_eq_0 [of "lfq_r q" n "lfq_w q"]
    by (simp add: lfq_contents_def flip: length_0_conv)
  finally show ?thesis by (simp add: osal_lock_free_queue_is_empty_def)
qed

lemma lfq_bounded: "lfq_inv ms n q \<Longrightarrow> length (lfq_contents q) \<le> n - 1"
  using lfq_invD [of ms n q] ring_count_bound [of "lfq_r q" n "lfq_w q"] by (simp add: lfq_contents_def)

text \<open>The buffer with the message stored at the write offset, and the offset moved on.\<close>

definition lfq_stored :: "bytes \<Rightarrow> osal_lock_free_queue \<Rightarrow> osal_lock_free_queue" where
  "lfq_stored m q = q\<lparr>q_buffer := mem_put (unat (q_write q)) m (q_buffer q)\<rparr>"

definition lfq_publish :: "osal_lock_free_queue \<Rightarrow> osal_lock_free_queue" where
  "lfq_publish q = q\<lparr>q_write := (q_write q + q_msg_size q) mod q_total_size q\<rparr>"

definition lfq_consume :: "osal_lock_free_queue \<Rightarrow> osal_lock_free_queue" where
  "lfq_consume q = q\<lparr>q_read := (q_read q + q_msg_size q) mod q_total_size q\<rparr>"

lemma lfq_slot_fits:
  assumes "lfq_inv ms n q" "i < n"
  shows "i * unat ms + unat ms \<le> length (q_buffer q)"
  using lfq_invD [OF assms(1)] mult_right_mono [of "Suc i" n "unat ms"] assms(2) by simp

text \<open>Bytes written inside the slot at the write offset leave every other slot alone.\<close>

lemma lfq_slot_other:
  assumes inv: "lfq_inv ms n q" and i: "i < n" "i \<noteq> lfq_w q" and k: "k + length bs \<le> unat ms"
  shows "lfq_slot (q\<lparr>q_buffer := mem_put (lfq_w q * unat ms + k) bs (q_buffer q)\<rparr>) i = lfq_slot q i"
proof -
  note D = lfq_invD [OF inv]
  have "i * unat ms + unat ms \<le> lfq_w q * unat ms \<or> lfq_w q * unat ms + unat ms \<le> i * unat ms"
    using i(2) mult_right_mono [of "Suc i" "lfq_w q" "unat ms"]
      mult_right_mono [of "Suc (lfq_w q)" i "unat ms"] by (cases "i < lfq_w q") auto
  then show ?thesis
    using lfq_slot_fits [OF inv i(1)] lfq_slot_fits [OF inv D(8)] k
    by (auto simp: lfq_slot_def D(1) intro!: mem_get_put_other)
qed

lemma lfq_buffer_upd:
  assumes inv: "lfq_inv ms n q" and k: "k + length bs \<le> unat ms"
  shows "lfq_inv ms n (q\<lparr>q_buffer := mem_put (lfq_w q * unat ms + k) bs (q_buffer q)\<rparr>)"
    and "lfq_contents (q\<lparr>q_buffer := mem_put (lfq_w q * unat ms + k) bs (q_buffer q)\<rparr>) = lfq_contents q"
proof -
  note D = lfq_invD [OF inv]
  let ?q = "q\<lparr>q_buffer := mem_put (lfq_w q * unat ms + k) bs (q_buffer q)\<rparr>"
  show inv': "lfq_inv ms n ?q"
    using inv lfq_slot_fits [OF inv D(8)] k by (simp add: lfq_inv_def length_mem_put)
  have same: "lfq_slots ?q = lfq_slots q" "lfq_r ?q = lfq_r q" "lfq_w ?q = lfq_w q"
    by (simp_all add: lfq_slots_def lfq_r_def lfq_w_def)
  show "lfq_contents ?q = lfq_contents q"
    unfolding lfq_contents_def same D(6)
    by (rule ring_list_cong) (use lfq_slot_other [OF inv _ _ k] ring_count_fresh D in simp)
qed

lemma lfq_publish_ok:
  assumes inv: "lfq_inv ms n q" and nfull: "length (lfq_contents q) < n - 1"
  shows "lfq_inv ms n (lfq_publish q)"
    "lfq_contents (lfq_publish q) = lfq_contents q @ [lfq_slot q (lfq_w q)]"
proof -
  note D = lfq_invD [OF inv]
  let ?q = "lfq_publish q"
  have adv: "unat (q_write ?q) = (Suc (lfq_w q) mod n) * unat ms"
    using lfq_advance [OF D(10,8,4,11)] by (simp add: lfq_publish_def D(1))
  have m: "Suc (lfq_w q) mod n < n" using D(3) by simp
  then show "lfq_inv ms n ?q" using inv adv by (auto simp: lfq_inv_def lfq_publish_def)
  have w: "lfq_w ?q = Suc (lfq_w q) mod n" using adv D(1,2) by (simp add: lfq_w_def lfq_publish_def)
  have same: "lfq_slots ?q = n" "lfq_r ?q = lfq_r q" "lfq_slot ?q = lfq_slot q"
    using D(6) by (auto simp: lfq_slots_def lfq_r_def lfq_slot_def lfq_publish_def)
  have "ring_count n (lfq_r q) (lfq_w q) \<noteq> n - 1" using nfull D(6) by (simp add: lfq_contents_def)
  then have "Suc (lfq_w q) mod n \<noteq> lfq_r q" using ring_count_full [OF D(7,8)] by simp
  then show "lfq_contents ?q = lfq_contents q @ [lfq_slot q (lfq_w q)]"
    unfolding lfq_contents_def same w D(6) ring_count_push [OF D(7,8) \<open>_ \<noteq> lfq_r q\<close>]
    by (simp add: ring_list_snoc ring_count_end [OF D(7,8)])
qed

lemma lfq_consume_ok:
  assumes inv: "lfq_inv ms n q" and some: "lfq_contents q \<noteq> []"
  shows "lfq_inv ms n (lfq_consume q)"
    "lfq_contents q = lfq_slot q (lfq_r q) # lfq_contents (lfq_consume q)"
proof -
  note D = lfq_invD [OF inv]
  let ?q = "lfq_consume q"
  have adv: "unat (q_read ?q) = (Suc (lfq_r q) mod n) * unat ms"
    using lfq_advance [OF D(9,7,4,11)] by (simp add: lfq_consume_def D(1))
  have m: "Suc (lfq_r q) mod n < n" using D(3) by simp
  then show "lfq_inv ms n ?q" using inv adv by (auto simp: lfq_inv_def lfq_consume_def)
  have r: "lfq_r ?q = Suc (lfq_r q) mod n" using adv D(1,2) by (simp add: lfq_r_def lfq_consume_def)
  have same: "lfq_slots ?q = n" "lfq_w ?q = lfq_w q" "lfq_slot ?q = lfq_slot q"
    using D(6) by (auto simp: lfq_slots_def lfq_w_def lfq_slot_def lfq_consume_def)
  have "lfq_r q \<noteq> lfq_w q"
    using some D(6) ring_count_eq_0 [OF D(7,8)] by (auto simp: lfq_contents_def)
  then show "lfq_contents q = lfq_slot q (lfq_r q) # lfq_contents ?q"
    using ring_list_Cons [OF D(7), of "lfq_slot q" "ring_count n (Suc (lfq_r q) mod n) (lfq_w q)"]
    by (simp add: lfq_contents_def same r D(6) ring_count_pop [OF D(7,8)])
qed

section \<open>What the operations do\<close>

lemma lfq_init_ok:
  assumes "msg_size \<noteq> 0" "msg_max \<noteq> 0" "unat msg_size * unat msg_max < 2 ^ 32"
  shows "\<exists>q. osal_lock_free_queue_init True msg_size msg_max = Some q
    \<and> lfq_inv msg_size (unat msg_max) q \<and> lfq_contents q = []"
proof -
  have "unat (msg_size * msg_max) = unat msg_max * unat msg_size"
    using assms(3) by (simp add: unat_mult_nowrap)
  then show ?thesis using assms
    by (auto simp: osal_lock_free_queue_init_def lfq_inv_def lfq_contents_def lfq_slots_def lfq_r_def
        lfq_w_def ring_count_def unat_eq_0 simp flip: neq0_conv)
qed

lemma lfq_push_ok:
  assumes inv: "lfq_inv ms n q" and m: "length m = unat ms" and nfull: "length (lfq_contents q) < n - 1"
  shows "\<exists>q'. osal_lock_free_queue_push (Some q) (Some m) = Some (0, Some q')
    \<and> lfq_inv ms n q' \<and> lfq_contents q' = lfq_contents q @ [m]"
proof -
  note D = lfq_invD [OF inv]
  let ?q = "lfq_stored m q"
  have upd: "?q = q\<lparr>q_buffer := mem_put (lfq_w q * unat ms + 0) m (q_buffer q)\<rparr>"
    by (simp add: lfq_stored_def D(10))
  have k: "0 + length m \<le> unat ms" using m by simp
  have inv': "lfq_inv ms n ?q" and cont: "lfq_contents ?q = lfq_contents q"
    unfolding upd by (rule lfq_buffer_upd [OF inv k])+
  have w: "lfq_w ?q = lfq_w q" by (simp add: lfq_w_def lfq_stored_def)
  have fits: "lfq_w q * unat ms + unat ms \<le> length (q_buffer q)"
    by (rule lfq_slot_fits [OF inv D(8)])
  have "lfq_slot ?q (lfq_w q) = m"
    using fits m by (simp add: lfq_slot_def lfq_stored_def D(1,10) mem_get_put_same)
  then have pub: "lfq_inv ms n (lfq_publish ?q)" "lfq_contents (lfq_publish ?q) = lfq_contents q @ [m]"
    using lfq_publish_ok [OF inv'] nfull by (simp_all add: cont w)
  have "osal_lock_free_queue_is_full (Some q) = Some 0" using lfq_is_full_iff [OF inv] nfull by simp
  moreover have "\<not> q_total_size q - q_write q < ms" by (rule lfq_room [OF D(10,8,4)])
  ultimately have "osal_lock_free_queue_push (Some q) (Some m) = Some (0, Some (lfq_publish ?q))"
    using fits m D(1,10)
    by (simp add: osal_lock_free_queue_push_def Let_def mem_read_def mem_write_def mem_get_def
        lfq_publish_def lfq_stored_def)
  with pub show ?thesis by blast
qed

lemma lfq_push_full:
  assumes "lfq_inv ms n q" "n - 1 \<le> length (lfq_contents q)"
  shows "osal_lock_free_queue_push (Some q) (Some m) = Some (- 1, Some q)"
  using lfq_is_full_iff [OF assms(1)] lfq_bounded [OF assms(1)] assms(2)
  by (simp add: osal_lock_free_queue_push_def)

lemma lfq_pop_ok:
  assumes inv: "lfq_inv ms n q" and c: "lfq_contents q = m # cs" and dst: "unat ms \<le> length dst"
  shows "\<exists>q'. osal_lock_free_queue_pop (Some q) (Some dst) sz
      = Some (0, Some (m @ drop (unat ms) dst), Some q')
    \<and> lfq_inv ms n q' \<and> lfq_contents q' = cs"
proof -
  note D = lfq_invD [OF inv]
  have cons: "lfq_inv ms n (lfq_consume q)" "lfq_contents (lfq_consume q) = cs" "lfq_slot q (lfq_r q) = m"
    using lfq_consume_ok [OF inv] c by auto
  have fits: "lfq_r q * unat ms + unat ms \<le> length (q_buffer q)" by (rule lfq_slot_fits [OF inv D(7)])
  have m: "mem_get (lfq_r q * unat ms) (unat ms) (q_buffer q) = m" using cons(3) by (simp add: lfq_slot_def D(1))
  then have len: "length m = unat ms" using fits by auto
  have "osal_lock_free_queue_is_empty (Some q) = 0" using lfq_is_empty_iff [OF inv] c by simp
  moreover have "\<not> q_total_size q - q_read q < ms" by (rule lfq_room [OF D(9,7,4)])
  ultimately have "osal_lock_free_queue_pop (Some q) (Some dst) sz
      = Some (0, Some (m @ drop (unat ms) dst), Some (lfq_consume q))"
    using fits m len dst D(1,9,12)
    by (simp add: osal_lock_free_queue_pop_def Let_def mem_read_def mem_write_def mem_put_def lfq_consume_def)
  with cons show ?thesis by blast
qed

lemma lfq_pop_empty:
  "lfq_inv ms n q \<Longrightarrow> lfq_contents q = [] \<Longrightarrow>
    osal_lock_free_queue_pop (Some q) (Some dst) sz = Some (- 1, Some dst, Some q)"
  by (simp add: osal_lock_free_queue_pop_def lfq_is_empty_iff)

text \<open>
  The calls as a client sees them, and the contract. A call is \<open>None\<close> where the code is undefined; the answer
  \<open>-1\<close> is a refusal.
\<close>

definition lfq_push :: "bytes \<Rightarrow> osal_lock_free_queue \<Rightarrow> (bool \<times> osal_lock_free_queue) option" where
  "lfq_push m q = (case osal_lock_free_queue_push (Some q) (Some m) of
     Some (r, Some q') \<Rightarrow> Some (r = 0, q') | _ \<Rightarrow> None)"

definition lfq_pop :: "osal_lock_free_queue \<Rightarrow> (bytes option \<times> osal_lock_free_queue) option" where
  "lfq_pop q = (case osal_lock_free_queue_pop (Some q)
       (Some (replicate (unat (q_msg_size q)) 0)) (q_msg_size q) of
     Some (r, Some m, Some q') \<Rightarrow> Some (if r = 0 then Some m else None, q') | _ \<Rightarrow> None)"

interpretation lfq: bounded_fifo lfq_push lfq_pop "lfq_inv ms n" lfq_contents
  "\<lambda>m. length m = unat ms" "n - 1" for ms :: u32 and n :: nat
proof unfold_locales
  fix q and m :: bytes
  assume "lfq_inv ms n q" "length m = unat ms" "length (lfq_contents q) < n - 1"
  then show "\<exists>q'. lfq_push m q = Some (True, q') \<and> lfq_inv ms n q' \<and> lfq_contents q' = lfq_contents q @ [m]"
    using lfq_push_ok by (fastforce simp: lfq_push_def)
next
  fix q and m :: bytes
  assume "lfq_inv ms n q" "n - 1 \<le> length (lfq_contents q)"
  then show "lfq_push m q = Some (False, q)" by (simp add: lfq_push_def lfq_push_full)
next
  fix q m cs
  assume q: "lfq_inv ms n q" "lfq_contents q = m # cs"
  then show "\<exists>q'. lfq_pop q = Some (Some m, q') \<and> lfq_inv ms n q' \<and> lfq_contents q' = cs"
    using lfq_pop_ok [OF q, of "replicate (unat ms) 0" ms] lfq_invD(1) [OF q(1)]
    by (auto simp: lfq_pop_def)
next
  fix q
  assume "lfq_inv ms n q" "lfq_contents q = []"
  then show "lfq_pop q = Some (None, q)" by (simp add: lfq_pop_def lfq_pop_empty)
qed (rule lfq_bounded)

section \<open>One producer and one consumer\<close>

text \<open>
  The accesses of \<open>push\<close> and \<open>pop\<close> to the shared queue, as steps of two threads on a
  sequentially consistent memory: the test for full or empty, the copy byte by byte, and the
  store of the offset, which publishes the message or frees its slot. Nothing orders the steps
  of one thread against those of the other.
\<close>

datatype lfq_producer = P_idle | P_copy bytes nat
datatype lfq_consumer = C_idle | C_copy bytes

record lfq_system =
  sp_queue :: osal_lock_free_queue
  sp_producer :: lfq_producer
  sp_consumer :: lfq_consumer
  sp_sent :: "bytes list"
  sp_received :: "bytes list"

inductive spsc_step :: "lfq_system \<Rightarrow> lfq_system \<Rightarrow> bool" where
  prod_start: "\<lbrakk> sp_producer s = P_idle; length m = unat (q_msg_size (sp_queue s));
      osal_lock_free_queue_is_full (Some (sp_queue s)) = Some 0 \<rbrakk>
    \<Longrightarrow> spsc_step s (s\<lparr>sp_producer := P_copy m 0\<rparr>)"
| prod_byte: "\<lbrakk> sp_producer s = P_copy m i; i < length m; q = sp_queue s \<rbrakk>
    \<Longrightarrow> spsc_step s (s\<lparr>sp_producer := P_copy m (Suc i),
          sp_queue := q\<lparr>q_buffer := mem_put (unat (q_write q) + i) [m ! i] (q_buffer q)\<rparr>\<rparr>)"
| prod_publish: "\<lbrakk> sp_producer s = P_copy m (length m) \<rbrakk>
    \<Longrightarrow> spsc_step s (s\<lparr>sp_producer := P_idle, sp_queue := lfq_publish (sp_queue s),
          sp_sent := sp_sent s @ [m]\<rparr>)"
| cons_start: "\<lbrakk> sp_consumer s = C_idle; osal_lock_free_queue_is_empty (Some (sp_queue s)) = 0 \<rbrakk>
    \<Longrightarrow> spsc_step s (s\<lparr>sp_consumer := C_copy []\<rparr>)"
| cons_byte: "\<lbrakk> sp_consumer s = C_copy d; q = sp_queue s; length d < unat (q_msg_size q) \<rbrakk>
    \<Longrightarrow> spsc_step s (s\<lparr>sp_consumer := C_copy (d @ [q_buffer q ! (unat (q_read q) + length d)])\<rparr>)"
| cons_release: "\<lbrakk> sp_consumer s = C_copy d; length d = unat (q_msg_size (sp_queue s)) \<rbrakk>
    \<Longrightarrow> spsc_step s (s\<lparr>sp_consumer := C_idle, sp_queue := lfq_consume (sp_queue s),
          sp_received := sp_received s @ [d]\<rparr>)"

definition spsc_start :: "osal_lock_free_queue \<Rightarrow> lfq_system" where
  "spsc_start q = \<lparr>sp_queue = q, sp_producer = P_idle, sp_consumer = C_idle, sp_sent = [], sp_received = []\<rparr>"

inductive spsc_reachable :: "osal_lock_free_queue \<Rightarrow> lfq_system \<Rightarrow> bool" for q where
  spsc_init: "spsc_reachable q (spsc_start q)"
| spsc_next: "\<lbrakk> spsc_reachable q s; spsc_step s s' \<rbrakk> \<Longrightarrow> spsc_reachable q s'"

inductive_cases spsc_stepE: "spsc_step s s'"

fun producer_ok :: "u32 \<Rightarrow> nat \<Rightarrow> osal_lock_free_queue \<Rightarrow> lfq_producer \<Rightarrow> bool" where
  "producer_ok ms n q P_idle = True"
| "producer_ok ms n q (P_copy m i) \<longleftrightarrow> length m = unat ms \<and> i \<le> length m
     \<and> length (lfq_contents q) < n - 1 \<and> take i (lfq_slot q (lfq_w q)) = take i m"

fun consumer_ok :: "osal_lock_free_queue \<Rightarrow> lfq_consumer \<Rightarrow> bool" where
  "consumer_ok q C_idle = True"
| "consumer_ok q (C_copy d) \<longleftrightarrow> lfq_contents q \<noteq> [] \<and> d = take (length d) (hd (lfq_contents q))"

definition spsc_inv :: "u32 \<Rightarrow> nat \<Rightarrow> lfq_system \<Rightarrow> bool" where
  "spsc_inv ms n s \<longleftrightarrow> lfq_inv ms n (sp_queue s)
     \<and> sp_sent s = sp_received s @ lfq_contents (sp_queue s)
     \<and> producer_ok ms n (sp_queue s) (sp_producer s) \<and> consumer_ok (sp_queue s) (sp_consumer s)"

lemma length_lfq_slot:
  "lfq_inv ms n q \<Longrightarrow> i < n \<Longrightarrow> length (lfq_slot q i) = unat ms"
  using lfq_slot_fits [of ms n q i] lfq_invD(1) [of ms n q] by (simp add: lfq_slot_def)

lemma lfq_first_slot:
  "lfq_inv ms n q \<Longrightarrow> lfq_contents q \<noteq> [] \<Longrightarrow> hd (lfq_contents q) = lfq_slot q (lfq_r q)"
  using lfq_consume_ok(2) [of ms n q] by (metis list.sel(1))

lemma spsc_prod_byte:
  assumes inv: "spsc_inv ms n s" and p: "sp_producer s = P_copy m i" "i < length m" and q: "q = sp_queue s"
  shows "spsc_inv ms n (s\<lparr>sp_producer := P_copy m (Suc i),
    sp_queue := q\<lparr>q_buffer := mem_put (unat (q_write q) + i) [m ! i] (q_buffer q)\<rparr>\<rparr>)"
proof -
  let ?q = "q\<lparr>q_buffer := mem_put (lfq_w q * unat ms + i) [m ! i] (q_buffer q)\<rparr>"
  have Q: "lfq_inv ms n q" using inv q by (simp add: spsc_inv_def)
  note D = lfq_invD [OF Q]
  have m: "length m = unat ms" "length (lfq_contents q) < n - 1" "take i (lfq_slot q (lfq_w q)) = take i m"
    using inv p q by (simp_all add: spsc_inv_def)
  have k: "i + length [m ! i] \<le> unat ms" using p(2) m(1) by simp
  have upd: "lfq_inv ms n ?q" "lfq_contents ?q = lfq_contents q"
    by (rule lfq_buffer_upd [OF Q k])+
  have fits: "lfq_w q * unat ms + unat ms \<le> length (q_buffer q)" by (rule lfq_slot_fits [OF Q D(8)])
  have slot: "lfq_slot ?q (lfq_w q) = (lfq_slot q (lfq_w q))[i := m ! i]"
    using k fits
    by (intro nth_equalityI) (auto simp: lfq_slot_def D(1) nth_mem_get nth_mem_put length_mem_put nth_list_update)
  have "take (Suc i) (lfq_slot ?q (lfq_w q)) = take (Suc i) m"
    using p(2) m(1,3) length_lfq_slot [OF Q D(8)] unfolding slot
    by (simp add: take_Suc_conv_app_nth)
  then have "producer_ok ms n ?q (P_copy m (Suc i))"
    using m upd p(2) by (simp add: lfq_w_def)
  moreover have "consumer_ok ?q (sp_consumer s)"
    using inv by (cases "sp_consumer s") (simp_all add: spsc_inv_def upd q [symmetric])
  ultimately show ?thesis using inv upd by (simp add: spsc_inv_def D(10) q [symmetric])
qed

lemma spsc_prod_publish:
  assumes inv: "spsc_inv ms n s" and p: "sp_producer s = P_copy m (length m)"
  shows "spsc_inv ms n (s\<lparr>sp_producer := P_idle, sp_queue := lfq_publish (sp_queue s), sp_sent := sp_sent s @ [m]\<rparr>)"
proof -
  let ?q = "sp_queue s"
  have Q: "lfq_inv ms n ?q" and m: "length m = unat ms" "length (lfq_contents ?q) < n - 1"
    "take (length m) (lfq_slot ?q (lfq_w ?q)) = m"
    using inv p by (auto simp: spsc_inv_def)
  note D = lfq_invD [OF Q]
  have "lfq_slot ?q (lfq_w ?q) = m" using m length_lfq_slot [OF Q D(8)] by simp
  with lfq_publish_ok [OF Q m(2)] have pub: "lfq_inv ms n (lfq_publish ?q)"
    "lfq_contents (lfq_publish ?q) = lfq_contents ?q @ [m]" by simp_all
  have "consumer_ok (lfq_publish ?q) (sp_consumer s)"
    using inv pub by (cases "sp_consumer s") (auto simp: spsc_inv_def)
  then show ?thesis using inv pub by (simp add: spsc_inv_def)
qed

lemma spsc_cons_byte:
  assumes inv: "spsc_inv ms n s" and c: "sp_consumer s = C_copy d" and q: "q = sp_queue s"
    and d: "length d < unat (q_msg_size q)"
  shows "spsc_inv ms n (s\<lparr>sp_consumer := C_copy (d @ [q_buffer q ! (unat (q_read q) + length d)])\<rparr>)"
proof -
  have Q: "lfq_inv ms n q" and C: "lfq_contents q \<noteq> []" "d = take (length d) (hd (lfq_contents q))"
    using inv c q by (simp_all add: spsc_inv_def)
  note D = lfq_invD [OF Q] and F = lfq_first_slot [OF Q C(1)]
  have fits: "lfq_r q * unat ms + unat ms \<le> length (q_buffer q)" by (rule lfq_slot_fits [OF Q D(7)])
  have "q_buffer q ! (unat (q_read q) + length d) = lfq_slot q (lfq_r q) ! length d"
    using d fits by (simp add: lfq_slot_def D(1,9) nth_mem_get)
  moreover have "length d < length (lfq_slot q (lfq_r q))"
    using d D(1) length_lfq_slot [OF Q D(7)] by simp
  ultimately have "d @ [q_buffer q ! (unat (q_read q) + length d)]
      = take (Suc (length d)) (hd (lfq_contents q))"
    using C(2) unfolding F by (simp add: take_Suc_conv_app_nth)
  then have "consumer_ok q (C_copy (d @ [q_buffer q ! (unat (q_read q) + length d)]))"
    using C(1) by (metis consumer_ok.simps(2) length_append_singleton)
  then show ?thesis using inv by (simp add: spsc_inv_def q [symmetric] del: consumer_ok.simps)
qed

lemma spsc_cons_release:
  assumes inv: "spsc_inv ms n s" and c: "sp_consumer s = C_copy d"
    and d: "length d = unat (q_msg_size (sp_queue s))"
  shows "spsc_inv ms n (s\<lparr>sp_consumer := C_idle, sp_queue := lfq_consume (sp_queue s), sp_received := sp_received s @ [d]\<rparr>)"
proof -
  let ?q = "sp_queue s"
  have Q: "lfq_inv ms n ?q" and C: "lfq_contents ?q \<noteq> []" "d = take (length d) (hd (lfq_contents ?q))"
    using inv c by (simp_all add: spsc_inv_def)
  note D = lfq_invD [OF Q] and F = lfq_first_slot [OF Q C(1)]
  have "d = lfq_slot ?q (lfq_r ?q)" using C(2) d D(1) length_lfq_slot [OF Q D(7)] unfolding F by simp
  with lfq_consume_ok [OF Q C(1)] have con: "lfq_inv ms n (lfq_consume ?q)"
    "lfq_contents ?q = d # lfq_contents (lfq_consume ?q)" by simp_all
  have "lfq_w (lfq_consume ?q) = lfq_w ?q" "lfq_slot (lfq_consume ?q) = lfq_slot ?q"
    by (auto simp: lfq_w_def lfq_slot_def lfq_consume_def)
  then have "producer_ok ms n (lfq_consume ?q) (sp_producer s)"
    using inv con(2) by (cases "sp_producer s") (auto simp: spsc_inv_def)
  then show ?thesis using inv con by (simp add: spsc_inv_def)
qed

lemma spsc_step_inv:
  assumes "spsc_step s s'" and inv: "spsc_inv ms n s"
  shows "spsc_inv ms n s'"
  using assms(1)
proof cases
  case (prod_start m)
  have Q: "lfq_inv ms n (sp_queue s)" using inv by (simp add: spsc_inv_def)
  have "length (lfq_contents (sp_queue s)) < n - 1"
    using prod_start(4) lfq_is_full_iff [OF Q] lfq_bounded [OF Q] by (simp split: if_splits)
  then show ?thesis using inv prod_start lfq_invD(1) [OF Q] by (simp add: spsc_inv_def)
next
  case cons_start
  have Q: "lfq_inv ms n (sp_queue s)" using inv by (simp add: spsc_inv_def)
  have "lfq_contents (sp_queue s) \<noteq> []"
    using cons_start(3) lfq_is_empty_iff [OF Q] by (simp split: if_splits)
  then show ?thesis using inv cons_start by (simp add: spsc_inv_def)
qed (auto intro: spsc_prod_byte [OF inv] spsc_prod_publish [OF inv] spsc_cons_byte [OF inv]
    spsc_cons_release [OF inv])

lemma spsc_reachable_inv:
  assumes "spsc_reachable q s" and "lfq_inv ms n q" "lfq_contents q = []"
  shows "spsc_inv ms n s"
  using assms(1)
proof induction
  case spsc_init
  show ?case using assms(2,3) by (simp add: spsc_inv_def spsc_start_def)
qed (blast intro: spsc_step_inv)

section \<open>Properties\<close>

lemma lfq_created:
  assumes "osal_lock_free_queue_init True msg_size msg_max = Some q" "unat msg_size * unat msg_max < 2 ^ 32"
  shows "lfq_inv msg_size (unat msg_max) q" "lfq_contents q = []"
proof -
  have "msg_size \<noteq> 0" "msg_max \<noteq> 0"
    using assms(1) by (auto simp: osal_lock_free_queue_init_def split: if_splits)
  from lfq_init_ok [OF this assms(2)] assms(1)
  show "lfq_inv msg_size (unat msg_max) q" "lfq_contents q = []" by auto
qed

text \<open>
  C6. A queue created for \<open>msg_max\<close> messages of \<open>msg_size\<close> bytes is the abstract first-in-first-out buffer of
  \<open>msg_max - 1\<close> messages. Whatever sequence of pushes and pops a client makes, no call is undefined, and each is
  answered as the abstract queue answers it: a push is accepted exactly when there is room and refused with the
  queue unchanged otherwise, a pop delivers the oldest message whole, and nothing exactly when there is none. So the
  messages accepted are those delivered, in order, followed by those that are left.
\<close>

theorem lfq_fifo:
  assumes "osal_lock_free_queue_init True msg_size msg_max = Some q"
    and "unat msg_size * unat msg_max < 2 ^ 32"
    and "\<forall>m \<in> set (fifo_msgs ops). length m = unat msg_size"
  shows "\<exists>answers q'. fifo_run lfq_push lfq_pop ops q = Some (answers, q')
    \<and> (answers, lfq_contents q') = fifo_spec (unat msg_max - 1) ops []
    \<and> accepted ops answers = delivered answers @ lfq_contents q' \<and> length (lfq_contents q') \<le> unat msg_max - 1"
proof -
  note C = lfq_created [OF assms(1,2)]
  show ?thesis using lfq.run_refines [OF C(1) assms(3)] C(2) fifo_spec_order [of "[]" "unat msg_max - 1" ops]
    by auto
qed

theorem lfq_fifo_witness:
  "\<exists>q q'. osal_lock_free_queue_init True 2 3 = Some q
     \<and> fifo_run lfq_push lfq_pop [Push [1, 2], Push [3, 4], Push [5, 6], Pop, Pop, Pop] q
       = Some ([Pushed True, Pushed True, Pushed False, Popped (Some [1, 2]), Popped (Some [3, 4]), Popped None], q')"
proof -
  obtain q where q: "osal_lock_free_queue_init True 2 3 = Some q"
    by (simp add: osal_lock_free_queue_init_def)
  show ?thesis using lfq_fifo [OF q, of "[Push [1, 2], Push [3, 4], Push [5, 6], Pop, Pop, Pop]"] q by auto
qed

text \<open>
  The byte size of the queue is computed in 32 bits: when \<open>msg_size * msg_max\<close> is \<open>2 ^ 32\<close>
  the creation succeeds with no room at all, and testing the queue divides by zero.
\<close>

theorem lfq_size_overflow:
  assumes "unat msg_size * unat msg_max = 2 ^ 32"
  shows "\<exists>q. osal_lock_free_queue_init True msg_size msg_max = Some q \<and> q_buffer q = []
    \<and> osal_lock_free_queue_is_full (Some q) = None"
proof -
  have "unat (msg_size * msg_max) = 0" using assms by (simp add: unat_word_ariths)
  then have "msg_size * msg_max = 0" by (simp add: unat_eq_0)
  moreover have "msg_size \<noteq> 0" "msg_max \<noteq> 0" using assms by auto
  ultimately show ?thesis
    by (simp add: osal_lock_free_queue_init_def osal_lock_free_queue_is_full_def)
qed

theorem lfq_size_overflow_witness:
  "\<exists>q. osal_lock_free_queue_init True 0x10000 0x10000 = Some q
     \<and> osal_lock_free_queue_is_full (Some q) = None"
  using lfq_size_overflow [of "0x10000" "0x10000"] by auto

text \<open>
  C7. One producer and one consumer may use the queue at the same time without a lock: in every
  interleaving of their memory accesses, byte by byte, the messages received so far followed by
  the messages in the queue are exactly the messages sent, in order and unharmed.
\<close>

theorem lfq_spsc_order:
  assumes "osal_lock_free_queue_init True msg_size msg_max = Some q"
    and "unat msg_size * unat msg_max < 2 ^ 32" and "spsc_reachable q s"
  shows "sp_sent s = sp_received s @ lfq_contents (sp_queue s)"
  using spsc_reachable_inv [OF assms(3) lfq_created [OF assms(1,2)]] by (simp add: spsc_inv_def)

theorem lfq_spsc_order_witness:
  "\<exists>q s. osal_lock_free_queue_init True 1 3 = Some q \<and> spsc_reachable q s
     \<and> sp_producer s = P_copy [7] 0 \<and> sp_sent s = sp_received s @ lfq_contents (sp_queue s)"
proof -
  obtain q where q: "osal_lock_free_queue_init True 1 3 = Some q"
    by (simp add: osal_lock_free_queue_init_def)
  have inv: "lfq_inv 1 3 q" "lfq_contents q = []" using lfq_created [OF q] by simp_all
  let ?s = "spsc_start q\<lparr>sp_producer := P_copy [7] 0\<rparr>"
  have "osal_lock_free_queue_is_full (Some q) = Some 0" using lfq_is_full_iff [OF inv(1)] inv(2) by simp
  then have "spsc_step (spsc_start q) ?s"
    using lfq_invD(1) [OF inv(1)] by (intro prod_start) (simp_all add: spsc_start_def)
  then have r: "spsc_reachable q ?s" by (rule spsc_next [OF spsc_init])
  show ?thesis using lfq_spsc_order [OF q _ r] q r by auto
qed

end
