(* ===== verification/Sys.thy ===== *)
theory Sys
  imports Prelude "HOL-Library.State_Monad"
begin

text \<open>
  Calls into the C library and the kernel. What such a call answers is not this program's doing:
  it is read from an oracle, one answer per call, and every call is recorded with its answer, so
  that theorems quantify over all behaviours of the system and speak of what was called. \<open>errno\<close>
  is a second number of the oracle.
\<close>

record 'c sys =
  sys_answers :: "nat \<Rightarrow> int"
  sys_errnos :: "nat \<Rightarrow> int"
  sys_trace :: "('c \<times> int) list"

definition sys_call :: "'c \<Rightarrow> ('c sys, int) state" where
  "sys_call c = State (\<lambda>w. (let a = sys_answers w (length (sys_trace w)) in
     (a, w\<lparr>sys_trace := sys_trace w @ [(c, a)]\<rparr>)))"

text \<open>\<open>errno\<close>, as the last call left it.\<close>

definition sys_errno :: "('c sys, int) state" where
  "sys_errno = State (\<lambda>w. (sys_errnos w (length (sys_trace w)), w))"

abbreviation skip :: "('s, unit) state" where "skip \<equiv> State_Monad.return ()"

lemma run_state_bind [simp]:
  "run_state (State_Monad.bind m f) s = (case run_state m s of (a, s') \<Rightarrow> run_state (f a) s')"
  by (simp add: State_Monad.bind_def)

lemma run_sys_call [simp]:
  "run_state (sys_call c) w = (sys_answers w (length (sys_trace w)),
     w\<lparr>sys_trace := sys_trace w @ [(c, sys_answers w (length (sys_trace w)))]\<rparr>)"
  by (simp add: sys_call_def Let_def)

lemma run_sys_errno [simp]: "run_state sys_errno w = (sys_errnos w (length (sys_trace w)), w)"
  by (simp add: sys_errno_def)

lemma run_state_if [simp]: "run_state (if b then m else n) s = (if b then run_state m s else run_state n s)"
  by simp

text \<open>A fresh system with given answers.\<close>

definition sys_start :: "(nat \<Rightarrow> int) \<Rightarrow> (nat \<Rightarrow> int) \<Rightarrow> 'c sys" where
  "sys_start answers errnos = \<lparr>sys_answers = answers, sys_errnos = errnos, sys_trace = []\<rparr>"

lemma sys_start_simps [simp]:
  "sys_answers (sys_start a e) = a" "sys_errnos (sys_start a e) = e" "sys_trace (sys_start a e) = []"
  by (simp_all add: sys_start_def)

end
