(* ===== verification/OsalPosix.thy ===== *)
theory OsalPosix
  imports LockFreeQueue Sys "HOL-Library.Char_ord"
begin

text \<open>
  The operating system abstraction of \<open>frameworks/mlib/osal\<close> on POSIX
  (\<open>src/osal_posix.c\<close>, \<open>src/osal_posix.h\<close>): return codes, memory, tasks, mutexes, semaphores,
  message queues (both variants) and time. Library calls are those of \<open>osal_call\<close>.
\<close>

section \<open>Return codes\<close>

datatype osal_api_ret = OSAL_API_OK | OSAL_API_FAIL | OSAL_API_TIMEDOUT | OSAL_API_INVAL
  | OSAL_API_NOMEM | OSAL_API_OVERFLOW | OSAL_API_PERM

fun osal_ret_code :: "osal_api_ret \<Rightarrow> int" where
  "osal_ret_code OSAL_API_OK = 0"
| "osal_ret_code OSAL_API_FAIL = 1"
| "osal_ret_code OSAL_API_TIMEDOUT = 2"
| "osal_ret_code OSAL_API_INVAL = 3"
| "osal_ret_code OSAL_API_NOMEM = 4"
| "osal_ret_code OSAL_API_OVERFLOW = 5"
| "osal_ret_code OSAL_API_PERM = 6"

lemma osal_ret_code_inj: "osal_ret_code x = osal_ret_code y \<Longrightarrow> x = y"
  by (cases x; cases y) simp_all

text \<open>An enumeration of C is ordered by its codes.\<close>

instantiation osal_api_ret :: linorder
begin

definition less_eq_osal_api_ret :: "osal_api_ret \<Rightarrow> osal_api_ret \<Rightarrow> bool" where
  "x \<le> y \<longleftrightarrow> osal_ret_code x \<le> osal_ret_code y"

definition less_osal_api_ret :: "osal_api_ret \<Rightarrow> osal_api_ret \<Rightarrow> bool" where
  "x < y \<longleftrightarrow> osal_ret_code x < osal_ret_code y"

instance
  by standard (auto simp: less_eq_osal_api_ret_def less_osal_api_ret_def intro: osal_ret_code_inj)

end

text \<open>The error numbers of Linux the code names.\<close>

definition EPERM :: int where "EPERM = 1"
definition ENOMEM :: int where "ENOMEM = 12"
definition EINVAL :: int where "EINVAL = 22"
definition EOVERFLOW :: int where "EOVERFLOW = 75"
definition ETIMEDOUT :: int where "ETIMEDOUT = 110"

lemmas errno_defs = EPERM_def ENOMEM_def EINVAL_def EOVERFLOW_def ETIMEDOUT_def

definition errno_2_ret :: "int \<Rightarrow> osal_api_ret" where
  "errno_2_ret err =
     (if err = ETIMEDOUT then OSAL_API_TIMEDOUT
      else if err = EINVAL then OSAL_API_INVAL
      else if err = EOVERFLOW then OSAL_API_OVERFLOW
      else if err = ENOMEM then OSAL_API_NOMEM
      else if err = EPERM then OSAL_API_PERM
      else OSAL_API_FAIL)"

definition OSAL_WAITFOREVER :: int where "OSAL_WAITFOREVER = - 1"

section \<open>Library calls\<close>

text \<open>Pointers a call returns are non-negative answers, \<open>0\<close> for \<open>NULL\<close>.\<close>

datatype mem_call = Malloc u64 | Calloc u64 u64 | Realloc ptr u64 | Free ptr

datatype thread_call = Attr_init | Attr_setdetachstate | Attr_setstacksize u32 | Attr_destroy
  | Pthread_create "ptr option" | Prctl_set_name string | Run_task ptr ptr

datatype mutex_call = Mutex_init ptr | Mutex_destroy ptr | Mutex_lock ptr | Mutex_trylock ptr
  | Mutex_unlock ptr

datatype sem_call = Sem_init ptr u32 | Sem_destroy ptr | Sem_trywait ptr | Sem_wait ptr
  | Sem_timedwait ptr int int | Sem_post ptr

datatype mq_call = Cond_init ptr | Cond_destroy ptr | Cond_signal ptr | Cond_broadcast ptr
  | Mq_open string int int | Mq_close int | Mq_unlink string
  | Mq_timedsend int bytes int int | Mq_timedreceive int int int int

datatype time_call = Gettimeofday | Tv_sec | Tv_usec | Sysinfo | Sysinfo_uptime

datatype osal_call = Mem mem_call | Thread thread_call | Mutex mutex_call | Sem sem_call
  | Mq mq_call | Time time_call

type_synonym osal_sys = "osal_call sys"

section \<open>Memory\<close>

definition osal_posix_malloc :: "u64 \<Rightarrow> (osal_sys, ptr) state" where
  "osal_posix_malloc sz =
     (if sz = 0 then State_Monad.return NULL
      else do { p \<leftarrow> sys_call (Mem (Malloc sz)); State_Monad.return (nat p) })"

definition osal_posix_calloc :: "u64 \<Rightarrow> u64 \<Rightarrow> (osal_sys, ptr) state" where
  "osal_posix_calloc num sz =
     (if sz = 0 \<or> num = 0 then State_Monad.return NULL
      else do { p \<leftarrow> sys_call (Mem (Calloc num sz)); State_Monad.return (nat p) })"

definition osal_free :: "ptr \<Rightarrow> (osal_sys, unit) state" where
  "osal_free p = do { _ \<leftarrow> sys_call (Mem (Free p)); skip }"

definition osal_posix_realloc :: "ptr \<Rightarrow> u64 \<Rightarrow> (osal_sys, ptr) state" where
  "osal_posix_realloc p sz =
     (if p = NULL then osal_posix_malloc sz
      else if sz = 0 then do { osal_free p; State_Monad.return NULL }
      else do { q \<leftarrow> sys_call (Mem (Realloc p sz)); State_Monad.return (nat q) })"

text \<open>The heap blocks a trace of calls leaves allocated.\<close>

definition heap_step :: "osal_call \<times> int \<Rightarrow> ptr list \<Rightarrow> ptr list" where
  "heap_step ca live = (let q = nat (snd ca) in
     (case fst ca of
        Mem (Malloc _) \<Rightarrow> if q = NULL then live else q # live
      | Mem (Calloc _ _) \<Rightarrow> if q = NULL then live else q # live
      | Mem (Realloc p _) \<Rightarrow> if q = NULL then live else q # remove1 p live
      | Mem (Free p) \<Rightarrow> remove1 p live
      | _ \<Rightarrow> live))"

definition heap_after :: "(osal_call \<times> int) list \<Rightarrow> ptr list \<Rightarrow> ptr list" where
  "heap_after cs live = fold heap_step cs live"

definition sys_heap :: "osal_sys \<Rightarrow> ptr list" where
  "sys_heap w = heap_after (sys_trace w) []"

section \<open>Tasks\<close>

text \<open>\<open>strrchr(name, c)\<close>, past the character: the suffix behind its last occurrence.\<close>

definition after_last :: "char \<Rightarrow> string \<Rightarrow> string option" where
  "after_last c s = (if c \<in> set s then Some (rev (takeWhile (\<lambda>x. x \<noteq> c) (rev s))) else None)"

definition OSAL_STACK_NAME_SIZE :: nat where "OSAL_STACK_NAME_SIZE = 16"
definition DEFAULT_STACK_NAME :: string where "DEFAULT_STACK_NAME = ''osal_task''"

text \<open>\<open>snprintf(buf, n, "%s", s)\<close> stores at most \<open>n - 1\<close> characters and the terminator.\<close>

definition snprintf_s :: "nat \<Rightarrow> string \<Rightarrow> string" where
  "snprintf_s n s = take (n - 1) s"

definition osal_task_name :: "string \<Rightarrow> string" where
  "osal_task_name name = snprintf_s OSAL_STACK_NAME_SIZE (case after_last CHR ''&'' name of
     Some p \<Rightarrow> p
   | None \<Rightarrow> (case after_last CHR '')'' name of Some p \<Rightarrow> p | None \<Rightarrow> name))"

definition ALIGN_SIZE :: "u32 \<Rightarrow> u32 \<Rightarrow> u32" where
  "ALIGN_SIZE sz align = ((sz + align - 1) div align) * align"

record osal_task_attr =
  ta_name :: "string option"
  ta_stack_size :: u32
  ta_priority :: u32
  ta_stack_start :: ptr
  ta_task_cb_size :: u32
  ta_task_cb_start :: ptr
  ta_affinity_mask :: u32

record task_wrapper =
  tw_func :: ptr
  tw_arg :: ptr
  tw_name :: string

text \<open>What the new thread does with the wrapper it is handed, at address \<open>fst w\<close>.\<close>

definition osal_task_wrapper :: "(ptr \<times> task_wrapper) option \<Rightarrow> (osal_sys, unit) state" where
  "osal_task_wrapper arg = (case arg of
     None \<Rightarrow> skip
   | Some (p, wrap) \<Rightarrow>
       if tw_func wrap = NULL then skip
       else do {
         _ \<leftarrow> sys_call (Thread (Prctl_set_name (tw_name wrap)));
         osal_free p;
         _ \<leftarrow> sys_call (Thread (Run_task (tw_func wrap) (tw_arg wrap)));
         skip })"

text \<open>
  The result is the task handle and the wrapper handed to the thread, if one was. \<open>tid\<close> is what
  \<open>pthread_create\<close> stores; \<open>sizeof(struct task_wrapper_t)\<close> is 32.
\<close>

definition osal_posix_task_create ::
  "int \<Rightarrow> ptr \<Rightarrow> ptr \<Rightarrow> osal_task_attr option
     \<Rightarrow> (osal_sys, int \<times> (ptr \<times> task_wrapper) option) state" where
  "osal_posix_task_create tid func arg task_attr =
     (if func = NULL then State_Monad.return (0, None)
      else do {
        let name = Option.bind task_attr ta_name;
        let stack_size = (case task_attr of None \<Rightarrow> 0 | Some a \<Rightarrow> ta_stack_size a);
        ret \<leftarrow> sys_call (Thread Attr_init);
        if ret \<noteq> 0 then State_Monad.return (0, None)
        else do {
          res \<leftarrow> do {
            ret \<leftarrow> sys_call (Thread Attr_setdetachstate);
            if ret \<noteq> 0 then State_Monad.return (0, None)
            else do {
              let stack_size_aligned = ALIGN_SIZE stack_size 4096;
              ret \<leftarrow> (if stack_size \<noteq> 0 then sys_call (Thread (Attr_setstacksize stack_size_aligned))
                     else State_Monad.return 0);
              if ret \<noteq> 0 then State_Monad.return (0, None)
              else do {
                let name = (case name of None \<Rightarrow> DEFAULT_STACK_NAME | Some n \<Rightarrow> n);
                wrap \<leftarrow> osal_posix_calloc 1 32;
                if wrap \<noteq> NULL then do {
                  let tw = \<lparr>tw_func = func, tw_arg = arg, tw_name = osal_task_name name\<rparr>;
                  ret \<leftarrow> sys_call (Thread (Pthread_create (Some wrap)));
                  if ret \<noteq> 0 then do { osal_free wrap; State_Monad.return (0, None) }
                  else State_Monad.return (tid, Some (wrap, tw)) }
                else do {
                  ret \<leftarrow> sys_call (Thread (Pthread_create None));
                  State_Monad.return (if ret \<noteq> 0 then 0 else tid, None) } } } };
          _ \<leftarrow> sys_call (Thread Attr_destroy);
          State_Monad.return res } })"

section \<open>Mutexes\<close>

text \<open>A call on an object answers an error number; \<open>sizeof(pthread_mutex_t)\<close> is 40.\<close>

definition ret_of :: "int \<Rightarrow> osal_api_ret" where
  "ret_of ret = (if ret \<noteq> 0 then errno_2_ret ret else OSAL_API_OK)"

definition osal_posix_mutex_create :: "(osal_sys, ptr) state" where
  "osal_posix_mutex_create = do {
     mutex \<leftarrow> osal_posix_malloc 40;
     if mutex = NULL then State_Monad.return NULL
     else do {
       ret \<leftarrow> sys_call (Mutex (Mutex_init mutex));
       if ret \<noteq> 0 then do { osal_free mutex; State_Monad.return NULL }
       else State_Monad.return mutex } }"

definition osal_posix_mutex_destroy :: "ptr \<Rightarrow> (osal_sys, osal_api_ret) state" where
  "osal_posix_mutex_destroy mutex =
     (if mutex = NULL then State_Monad.return OSAL_API_INVAL
      else do {
        _ \<leftarrow> sys_call (Mutex (Mutex_destroy mutex));
        osal_free mutex;
        State_Monad.return OSAL_API_OK })"

text \<open>\<open>timeout_ms\<close> is not looked at.\<close>

definition osal_posix_mutex_lock :: "ptr \<Rightarrow> u32 \<Rightarrow> (osal_sys, osal_api_ret) state" where
  "osal_posix_mutex_lock mutex timeout_ms =
     (if mutex = NULL then State_Monad.return OSAL_API_INVAL
      else do { ret \<leftarrow> sys_call (Mutex (Mutex_lock mutex)); State_Monad.return (ret_of ret) })"

definition osal_posix_mutex_trylock :: "ptr \<Rightarrow> (osal_sys, osal_api_ret) state" where
  "osal_posix_mutex_trylock mutex =
     (if mutex = NULL then State_Monad.return OSAL_API_INVAL
      else do { ret \<leftarrow> sys_call (Mutex (Mutex_trylock mutex)); State_Monad.return (ret_of ret) })"

definition osal_posix_mutex_unlock :: "ptr \<Rightarrow> (osal_sys, osal_api_ret) state" where
  "osal_posix_mutex_unlock mutex =
     (if mutex = NULL then State_Monad.return OSAL_API_INVAL
      else do { ret \<leftarrow> sys_call (Mutex (Mutex_unlock mutex)); State_Monad.return (ret_of ret) })"

section \<open>Time\<close>

text \<open>The deadline \<open>ms\<close> milliseconds after \<open>(sec, usec)\<close>, as seconds and nanoseconds.\<close>

definition timedwait_of :: "int \<Rightarrow> int \<Rightarrow> u32 \<Rightarrow> int \<times> int" where
  "timedwait_of sec usec ms = (let
     sec = sec + uint (ms div 1000);
     usec = usec + uint ((ms mod 1000) * 1000);
     (sec, usec) = (if usec \<ge> 1000000 then (sec + 1, usec - 1000000) else (sec, usec))
   in (sec, usec * 1000))"

text \<open>\<open>tm\<close> is what \<open>*tm\<close> held before; the failing calls leave it as it is.\<close>

definition osal_posix_calc_timedwait ::
  "(int \<times> int) option \<Rightarrow> u32 \<Rightarrow> (osal_sys, osal_api_ret \<times> (int \<times> int) option) state" where
  "osal_posix_calc_timedwait tm ms = (case tm of
     None \<Rightarrow> State_Monad.return (OSAL_API_INVAL, None)
   | Some t \<Rightarrow> do {
       ret \<leftarrow> sys_call (Time Gettimeofday);
       if ret \<noteq> 0 then do { e \<leftarrow> sys_errno; State_Monad.return (errno_2_ret e, Some t) }
       else do {
         sec \<leftarrow> sys_call (Time Tv_sec);
         usec \<leftarrow> sys_call (Time Tv_usec);
         State_Monad.return (OSAL_API_OK, Some (timedwait_of sec usec ms)) } })"

definition deadline :: "u32 \<Rightarrow> (osal_sys, int \<times> int) state" where
  "deadline ms = do {
     (_, tm) \<leftarrow> osal_posix_calc_timedwait (Some (0, 0)) ms;
     State_Monad.return (case tm of None \<Rightarrow> (0, 0) | Some t \<Rightarrow> t) }"

definition osal_posix_uptime :: "(osal_sys, int) state" where
  "osal_posix_uptime = do {
     ret \<leftarrow> sys_call (Time Sysinfo);
     if ret \<noteq> 0 then State_Monad.return 0 else sys_call (Time Sysinfo_uptime) }"

section \<open>Semaphores\<close>

text \<open>\<open>sizeof(sem_t)\<close> is 32; \<open>max\<close> is not looked at.\<close>

definition osal_posix_sem_create :: "u32 \<Rightarrow> u32 \<Rightarrow> (osal_sys, ptr) state" where
  "osal_posix_sem_create max_count init = do {
     sem \<leftarrow> osal_posix_calloc 1 32;
     if sem = NULL then State_Monad.return NULL
     else do {
       ret \<leftarrow> sys_call (Sem (Sem_init sem init));
       if ret \<noteq> 0 then do { osal_free sem; State_Monad.return NULL }
       else State_Monad.return sem } }"

definition osal_posix_sem_destroy :: "ptr \<Rightarrow> (osal_sys, osal_api_ret) state" where
  "osal_posix_sem_destroy sem =
     (if sem = NULL then State_Monad.return OSAL_API_INVAL
      else do {
        _ \<leftarrow> sys_call (Sem (Sem_destroy sem));
        osal_free sem;
        State_Monad.return OSAL_API_OK })"

text \<open>These calls answer \<open>0\<close> or \<open>-1\<close>, and the reason is in \<open>errno\<close>.\<close>

definition errno_ret :: "int \<Rightarrow> (osal_sys, osal_api_ret) state" where
  "errno_ret ret =
     (if ret \<noteq> 0 then do { e \<leftarrow> sys_errno; State_Monad.return (errno_2_ret e) }
      else State_Monad.return OSAL_API_OK)"

definition osal_posix_sem_wait :: "ptr \<Rightarrow> u32 \<Rightarrow> (osal_sys, osal_api_ret) state" where
  "osal_posix_sem_wait sem timeout_ms =
     (if sem = NULL then State_Monad.return OSAL_API_INVAL
      else do {
        ret \<leftarrow> (if timeout_ms = 0 then sys_call (Sem (Sem_trywait sem))
          else if timeout_ms = word_of_int OSAL_WAITFOREVER then sys_call (Sem (Sem_wait sem))
          else do {
            (sec, nsec) \<leftarrow> deadline timeout_ms;
            sys_call (Sem (Sem_timedwait sem sec nsec)) });
        errno_ret ret })"

definition osal_posix_sem_post :: "ptr \<Rightarrow> (osal_sys, osal_api_ret) state" where
  "osal_posix_sem_post sem =
     (if sem = NULL then State_Monad.return OSAL_API_INVAL
      else do { ret \<leftarrow> sys_call (Sem (Sem_post sem)); errno_ret ret })"

section \<open>Message queues of the system (\<open>no_use_lock_free_queue\<close>)\<close>

text \<open>The name stored in the queue object, as \<open>snprintf\<close> leaves it.\<close>

definition osal_posix_mq_name :: "string \<Rightarrow> string" where
  "osal_posix_mq_name name =
     (if name \<noteq> [] \<and> hd name = CHR ''/'' then snprintf_s (length name) name
      else snprintf_s (length name + 1) (CHR ''/'' # name))"

record sys_mq =
  smq_id :: int
  smq_msg_size :: u32
  smq_name :: string

definition sys_mq_create :: "string option \<Rightarrow> int \<Rightarrow> int \<Rightarrow> (osal_sys, (ptr \<times> sys_mq) option) state" where
  "sys_mq_create name msg_size msg_max = (case name of
     None \<Rightarrow> State_Monad.return None
   | Some name \<Rightarrow> do {
       mq \<leftarrow> osal_posix_calloc 1 (8 + of_nat (length name) + 1);
       if mq = NULL then State_Monad.return None
       else do {
         let n = osal_posix_mq_name name;
         id \<leftarrow> sys_call (Mq (Mq_open n msg_max msg_size));
         if id = - 1 then do { osal_free mq; State_Monad.return None }
         else State_Monad.return (Some (mq,
           \<lparr>smq_id = id, smq_msg_size = word_of_int msg_size, smq_name = n\<rparr>)) } })"

definition sys_mq_destroy :: "(ptr \<times> sys_mq) option \<Rightarrow> (osal_sys, osal_api_ret) state" where
  "sys_mq_destroy mq = (case mq of
     None \<Rightarrow> State_Monad.return OSAL_API_INVAL
   | Some (p, q) \<Rightarrow> do {
       _ \<leftarrow> sys_call (Mq (Mq_close (smq_id q)));
       _ \<leftarrow> sys_call (Mq (Mq_unlink (smq_name q)));
       osal_free p;
       State_Monad.return OSAL_API_OK })"

definition sys_mq_send :: "(ptr \<times> sys_mq) option \<Rightarrow> bytes \<Rightarrow> int \<Rightarrow> (osal_sys, osal_api_ret) state" where
  "sys_mq_send mq msg timeout_ms = (case mq of
     None \<Rightarrow> State_Monad.return OSAL_API_INVAL
   | Some (p, q) \<Rightarrow> do {
       (sec, nsec) \<leftarrow> deadline (word_of_int timeout_ms);
       ret \<leftarrow> sys_call (Mq (Mq_timedsend (smq_id q) msg sec nsec));
       errno_ret ret })"

definition sys_mq_recv :: "(ptr \<times> sys_mq) option \<Rightarrow> int \<Rightarrow> int \<Rightarrow> (osal_sys, osal_api_ret) state" where
  "sys_mq_recv mq msg_size timeout_ms = (case mq of
     None \<Rightarrow> State_Monad.return OSAL_API_INVAL
   | Some (p, q) \<Rightarrow> do {
       (sec, nsec) \<leftarrow> deadline (word_of_int timeout_ms);
       n \<leftarrow> sys_call (Mq (Mq_timedreceive (smq_id q) msg_size sec nsec));
       errno_ret (if n = - 1 then - 1 else 0) })"

section \<open>Resources\<close>

lemma heap_after_snoc [simp]: "heap_after (cs @ [c]) live = heap_step c (heap_after cs live)"
  by (simp add: heap_after_def)

lemma heap_after_append: "heap_after (cs @ ds) live = heap_after ds (heap_after cs live)"
  by (simp add: heap_after_def)

lemma heap_after_Cons: "heap_after (c # cs) live = heap_after cs (heap_step c live)"
  by (simp add: heap_after_def)

lemma heap_after_Nil [simp]: "heap_after [] live = live"
  by (simp add: heap_after_def)

lemma sys_heap_call [simp]:
  "sys_heap (w\<lparr>sys_trace := sys_trace w @ [c]\<rparr>) = heap_step c (sys_heap w)"
  by (simp add: sys_heap_def)

lemma heap_step_simps [simp]:
  "heap_step (Mem (Malloc n), a) live = (if nat a = NULL then live else nat a # live)"
  "heap_step (Mem (Calloc n k), a) live = (if nat a = NULL then live else nat a # live)"
  "heap_step (Mem (Free p), a) live = remove1 p live"
  "heap_step (Thread t, a) live = live" "heap_step (Mutex x, a) live = live"
  "heap_step (Sem y, a) live = live" "heap_step (Mq z, a) live = live" "heap_step (Time u, a) live = live"
  by (simp_all add: heap_step_def Let_def)

text \<open>The heap through the system's calls, one rule per call.\<close>

lemma run_osal_free [simp]:
  "run_state (osal_free p) w = ((), w\<lparr>sys_trace := sys_trace w @
     [(Mem (Free p), sys_answers w (length (sys_trace w)))]\<rparr>)"
  by (simp add: osal_free_def)

lemma run_osal_calloc:
  "num \<noteq> 0 \<Longrightarrow> sz \<noteq> 0 \<Longrightarrow> run_state (osal_posix_calloc num sz) w
    = (let a = sys_answers w (length (sys_trace w)) in
       (nat a, w\<lparr>sys_trace := sys_trace w @ [(Mem (Calloc num sz), a)]\<rparr>))"
  by (simp add: osal_posix_calloc_def Let_def)

lemma run_osal_malloc:
  "sz \<noteq> 0 \<Longrightarrow> run_state (osal_posix_malloc sz) w
    = (let a = sys_answers w (length (sys_trace w)) in
       (nat a, w\<lparr>sys_trace := sys_trace w @ [(Mem (Malloc sz), a)]\<rparr>))"
  by (simp add: osal_posix_malloc_def Let_def)

section \<open>Properties\<close>

text \<open>
  Creating a mutex, a semaphore or a task never loses memory, whatever the system answers:
  the heap afterwards holds exactly one block more when an object is returned, or a wrapper was
  handed to the new thread, and none otherwise.
\<close>

theorem osal_create_no_leak:
  "(let (p, w') = run_state osal_posix_mutex_create w in
      sys_heap w' = (if p = NULL then sys_heap w else p # sys_heap w))
   \<and> (let (p, w') = run_state (osal_posix_sem_create mx init) w in
      sys_heap w' = (if p = NULL then sys_heap w else p # sys_heap w))
   \<and> (let ((t, wrap), w') = run_state (osal_posix_task_create tid func arg attr) w in
      sys_heap w' = (case wrap of None \<Rightarrow> sys_heap w | Some (p, _) \<Rightarrow> p # sys_heap w))"
proof -
  have 1: "let (p, w') = run_state osal_posix_mutex_create w in
      sys_heap w' = (if p = NULL then sys_heap w else p # sys_heap w)"
    by (simp add: osal_posix_mutex_create_def run_osal_malloc Let_def sys_heap_def heap_after_append heap_after_Cons)
  have 2: "let (p, w') = run_state (osal_posix_sem_create mx init) w in
      sys_heap w' = (if p = NULL then sys_heap w else p # sys_heap w)"
    by (simp add: osal_posix_sem_create_def run_osal_calloc Let_def sys_heap_def heap_after_append heap_after_Cons)
  have 3: "let ((t, wrap), w') = run_state (osal_posix_task_create tid func arg attr) w in
      sys_heap w' = (case wrap of None \<Rightarrow> sys_heap w | Some (p, _) \<Rightarrow> p # sys_heap w)"
    by (simp add: osal_posix_task_create_def run_osal_calloc Let_def sys_heap_def heap_after_append heap_after_Cons)
  show ?thesis using 1 2 3 by blast
qed

text \<open>
  \<open>osal_calc_timedwait\<close> is exact: the deadline is the given time of day plus \<open>ms\<close>
  milliseconds, and its nanoseconds are in the range \<open>timespec\<close> demands.
\<close>

theorem timedwait_exact:
  assumes "0 \<le> usec" "usec < 1000000" and "timedwait_of sec usec ms = (s, ns)"
  shows "s * 1000000000 + ns = sec * 1000000000 + usec * 1000 + uint ms * 1000000
    \<and> 0 \<le> ns \<and> ns < 1000000000"
proof -
  have d: "uint (ms div 1000) = uint ms div 1000" "uint (ms mod 1000) = uint ms mod 1000"
    by (simp_all add: uint_div uint_mod)
  have "uint ms mod 1000 * 1000 < 2 ^ 32" by (rule le_less_trans [of _ "999 * 1000"]) simp_all
  then have m: "uint ((ms mod 1000) * 1000) = (uint ms mod 1000) * 1000"
    using uint_mult_lem [of "ms mod 1000" 1000] by (simp add: d)
  define q r where qr: "q = uint ms div 1000" "r = uint ms mod 1000"
  then have e: "uint ms = q * 1000 + r" "0 \<le> r" "r < 1000" by simp_all
  then show ?thesis using assms
    unfolding timedwait_of_def Let_def d m qr [symmetric] e(1) by (auto split: if_splits)
qed

theorem timedwait_exact_witness:
  "timedwait_of 100 999000 1500 = (102, 499000000)
   \<and> (102 :: int) * 1000000000 + 499000000 = 100 * 1000000000 + 999000 * 1000 + 1500 * 1000000"
proof -
  have v: "timedwait_of 100 999000 1500 = (102, 499000000)"
    by (simp add: timedwait_of_def uint_div uint_mod)
  show ?thesis using timedwait_exact [OF _ _ v] v by simp
qed

text \<open>
  The queue variant on \<open>mqueue\<close> cuts the last character off the queue's name, with or
  without a leading slash, so that two names that differ there denote the same queue.
\<close>

theorem mq_names_collide:
  assumes "s \<noteq> []"
  shows "osal_posix_mq_name (s @ [a]) = osal_posix_mq_name (s @ [b])
    \<and> length (osal_posix_mq_name (s @ [a])) \<le> length (s @ [a])"
  using assms by (cases s) (simp_all add: osal_posix_mq_name_def snprintf_s_def)

theorem mq_names_collide_witness:
  "osal_posix_mq_name ''log1'' = osal_posix_mq_name ''log2''"
  using mq_names_collide [of "''log''" "CHR ''1''" "CHR ''2''"] by simp

definition wait_answer :: "osal_sys \<Rightarrow> nat \<Rightarrow> osal_api_ret" where
  "wait_answer w n = (if sys_answers w n = 0 then OSAL_API_OK else errno_2_ret (sys_errnos w (Suc n)))"

text \<open>
  How a semaphore is waited for: a timeout of \<open>0\<close> tries once and never blocks,
  \<open>OSAL_WAITFOREVER\<close> waits without a deadline, and any other timeout waits until the deadline
  computed from the time of day; the call answers \<open>OSAL_API_OK\<close> exactly when the library call
  answers \<open>0\<close>, and otherwise the translation of \<open>errno\<close>.
\<close>

theorem sem_wait_mode:
  assumes "sem \<noteq> NULL" and "n = length (sys_trace w)" and "sys_answers w n = 0 \<or> ms = 0 \<or> ms = - 1"
  shows "(let (r, w') = run_state (osal_posix_sem_wait sem ms) w in
     if ms = 0 then sys_trace w' = sys_trace w @ [(Sem (Sem_trywait sem), sys_answers w n)] \<and> r = wait_answer w n
     else if ms = - 1 then sys_trace w' = sys_trace w @ [(Sem (Sem_wait sem), sys_answers w n)] \<and> r = wait_answer w n
     else (let (s, ns) = timedwait_of (sys_answers w (n + 1)) (sys_answers w (n + 2)) ms in
       last (sys_trace w') = (Sem (Sem_timedwait sem s ns), sys_answers w (n + 3)) \<and> r = wait_answer w (n + 3)))"
proof -
  consider "ms = 0" | "ms = - 1" | "ms \<noteq> 0" "ms \<noteq> - 1" by blast
  then show ?thesis
  proof cases
    case 3
    obtain s ns where t: "timedwait_of (sys_answers w (n + 1)) (sys_answers w (n + 2)) ms = (s, ns)"
      by (cases "timedwait_of (sys_answers w (n + 1)) (sys_answers w (n + 2)) ms")
    with 3 assms show ?thesis
      by (simp add: osal_posix_sem_wait_def OSAL_WAITFOREVER_def errno_ret_def deadline_def
        osal_posix_calc_timedwait_def wait_answer_def eval_nat_numeral)
  qed (use assms in \<open>simp_all add: osal_posix_sem_wait_def OSAL_WAITFOREVER_def errno_ret_def wait_answer_def\<close>)
qed

theorem sem_wait_mode_witness:
  "let (r, w') = run_state (osal_posix_sem_wait 7 0) (sys_start (\<lambda>_. - 1) (\<lambda>_. ETIMEDOUT)) in
     sys_trace w' = [(Sem (Sem_trywait 7), - 1)] \<and> r = OSAL_API_TIMEDOUT"
  using sem_wait_mode [of 7 0 "sys_start (\<lambda>_. - 1) (\<lambda>_. ETIMEDOUT)" 0]
  by (simp add: wait_answer_def errno_2_ret_def split: prod.splits)

end
