(* ===== verification/OsalMq.thy ===== *)
theory OsalMq
  imports OsalPosix
begin

text \<open>
  The message queue of \<open>osal_posix.c\<close> built on the lock-free queue: two mutexes, a condition
  variable and the byte ring. The wait loop of \<open>osal_posix_mq_recv\<close> takes the list of
  wake-ups the program will see: what the wait returned, and the queue object as other
  threads left it while the mutex was released.
\<close>

section \<open>The code\<close>

text \<open>The object at its address; the members' addresses follow it.\<close>

record osal_posix_mq =
  mq_exit_flag :: int
  mq_raw_ptr :: ptr
  mq_raw_queue :: "osal_lock_free_queue option"

definition w_mutex :: "ptr \<Rightarrow> ptr" where "w_mutex mq = mq + 8"
definition r_mutex :: "ptr \<Rightarrow> ptr" where "r_mutex mq = mq + 48"
definition mq_cond :: "ptr \<Rightarrow> ptr" where "mq_cond mq = mq + 88"

text \<open>\<open>osal_lock_free_queue_init\<close> with its allocation; the arguments are converted to \<open>uint32_t\<close>.\<close>

definition raw_queue_init :: "int \<Rightarrow> int \<Rightarrow> (osal_sys, ptr \<times> osal_lock_free_queue option) state" where
  "raw_queue_init msg_size msg_max = (let ms = word_of_int msg_size :: u32; mx = word_of_int msg_max :: u32 in
     if ms \<le> 0 \<or> mx \<le> 0 then State_Monad.return (NULL, None)
     else do {
       p \<leftarrow> osal_posix_calloc 1 (16 + ucast (ms * mx));
       State_Monad.return (p, osal_lock_free_queue_init (p \<noteq> NULL) ms mx) })"

text \<open>
  The result is the pointer returned and the object behind it, \<open>None\<close> when that memory has been
  freed. The result is undefined (the outer \<open>None\<close>) where the freed object is written.
\<close>

definition osal_posix_mq_create ::
  "int \<Rightarrow> int \<Rightarrow> (osal_sys, (ptr \<times> osal_posix_mq option) option) state" where
  "osal_posix_mq_create msg_size msg_max =
     (if msg_size \<le> 0 \<or> msg_max \<le> 0 then State_Monad.return (Some (NULL, None))
      else do {
        mq \<leftarrow> osal_posix_calloc 1 144;
        if mq = NULL then State_Monad.return (Some (NULL, None))
        else do {
          ret \<leftarrow> sys_call (Mutex (Mutex_init (w_mutex mq)));
          if ret \<noteq> 0 then do { osal_free mq; State_Monad.return (Some (NULL, None)) }
          else do {
            ret \<leftarrow> sys_call (Mutex (Mutex_init (r_mutex mq)));
            if ret \<noteq> 0 then do {
              _ \<leftarrow> sys_call (Mutex (Mutex_destroy (w_mutex mq)));
              osal_free mq;
              State_Monad.return (Some (NULL, None)) }
            else do {
              ret \<leftarrow> sys_call (Mq (Cond_init (mq_cond mq)));
              if ret \<noteq> 0 then do {
                _ \<leftarrow> sys_call (Mutex (Mutex_destroy (w_mutex mq)));
                _ \<leftarrow> sys_call (Mutex (Mutex_destroy (r_mutex mq)));
                osal_free mq;
                State_Monad.return None }
              else do {
                (p, raw) \<leftarrow> raw_queue_init msg_size msg_max;
                case raw of
                  None \<Rightarrow> do {
                    _ \<leftarrow> sys_call (Mutex (Mutex_destroy (w_mutex mq)));
                    _ \<leftarrow> sys_call (Mutex (Mutex_destroy (r_mutex mq)));
                    _ \<leftarrow> sys_call (Mq (Cond_destroy (mq_cond mq)));
                    osal_free mq;
                    State_Monad.return (Some (mq, None)) }
                | Some q \<Rightarrow> State_Monad.return (Some (mq,
                    Some \<lparr>mq_exit_flag = 0, mq_raw_ptr = p, mq_raw_queue = Some q\<rparr>)) } } } } })"

definition osal_posix_mq_destroy :: "(ptr \<times> osal_posix_mq) option \<Rightarrow> (osal_sys, osal_api_ret) state" where
  "osal_posix_mq_destroy mq = (case mq of
     None \<Rightarrow> State_Monad.return OSAL_API_INVAL
   | Some (p, q) \<Rightarrow> do {
       _ \<leftarrow> sys_call (Mq (Cond_broadcast (mq_cond p)));
       _ \<leftarrow> sys_call (Mutex (Mutex_lock (r_mutex p)));
       (if osal_lock_free_queue_deinit (mq_raw_queue q) = 0 then osal_free (mq_raw_ptr q) else skip);
       _ \<leftarrow> sys_call (Mutex (Mutex_unlock (r_mutex p)));
       _ \<leftarrow> sys_call (Mutex (Mutex_destroy (w_mutex p)));
       _ \<leftarrow> sys_call (Mutex (Mutex_destroy (r_mutex p)));
       _ \<leftarrow> sys_call (Mq (Cond_destroy (mq_cond p)));
       osal_free p;
       State_Monad.return OSAL_API_OK })"

text \<open>The result holds the object as the call leaves it; it is undefined where \<open>push\<close> is.\<close>

definition osal_posix_mq_send ::
  "(ptr \<times> osal_posix_mq) option \<Rightarrow> bytes option \<Rightarrow> int
     \<Rightarrow> (osal_sys, (osal_api_ret \<times> osal_posix_mq option) option) state" where
  "osal_posix_mq_send mq msg msg_size = (case mq of
     None \<Rightarrow> State_Monad.return (Some (OSAL_API_INVAL, None))
   | Some (p, q) \<Rightarrow>
       if msg = None \<or> msg_size \<le> 0 then State_Monad.return (Some (OSAL_API_INVAL, Some q))
       else do {
         ret \<leftarrow> sys_call (Mutex (Mutex_lock (w_mutex p)));
         if ret \<noteq> 0 then State_Monad.return (Some (errno_2_ret ret, Some q))
         else case osal_lock_free_queue_push (mq_raw_queue q) msg of
           None \<Rightarrow> State_Monad.return None
         | Some (r, raw) \<Rightarrow>
             if r \<noteq> 0 then do {
               _ \<leftarrow> sys_call (Mutex (Mutex_unlock (w_mutex p)));
               State_Monad.return (Some (OSAL_API_FAIL, Some q)) }
             else do {
               let q = q\<lparr>mq_raw_queue := raw\<rparr>;
               ret \<leftarrow> sys_call (Mutex (Mutex_unlock (w_mutex p)));
               if ret \<noteq> 0 then State_Monad.return (Some (errno_2_ret ret, Some q))
               else do {
                 ret \<leftarrow> sys_call (Mutex (Mutex_lock (r_mutex p)));
                 if ret \<noteq> 0 then State_Monad.return (Some (errno_2_ret ret, Some q))
                 else do {
                   ret \<leftarrow> sys_call (Mq (Cond_signal (mq_cond p)));
                   if ret \<noteq> 0 then do {
                     _ \<leftarrow> sys_call (Mutex (Mutex_unlock (r_mutex p)));
                     State_Monad.return (Some (errno_2_ret ret, Some q)) }
                   else do {
                     ret \<leftarrow> sys_call (Mutex (Mutex_unlock (r_mutex p)));
                     State_Monad.return (Some (ret_of ret, Some q)) } } } } })"

text \<open>
  How a receive ends: with a code, the caller's buffer and the object; waiting for a wake-up that
  never comes; or in undefined behaviour.
\<close>

datatype mq_recv_result = Recv_ret osal_api_ret bytes osal_posix_mq | Recv_blocked | Recv_undefined

text \<open>The loop; \<open>ret\<close> is the variable of that name when the loop test is reached.\<close>

fun mq_recv_loop ::
  "osal_api_ret \<Rightarrow> osal_posix_mq \<Rightarrow> bytes \<Rightarrow> int \<Rightarrow> int \<Rightarrow> (int \<times> osal_posix_mq) list
     \<Rightarrow> (osal_sys, mq_recv_result) state" where
  "mq_recv_loop ret q msg msg_size timeout_ms wakes =
     (case osal_lock_free_queue_pop (mq_raw_queue q) (Some msg) (word_of_int msg_size) of
        Some (r, Some msg, raw) \<Rightarrow>
          if r = 0 then State_Monad.return (Recv_ret ret msg (q\<lparr>mq_raw_queue := raw\<rparr>))
          else if timeout_ms = 0 then State_Monad.return (Recv_ret OSAL_API_TIMEDOUT msg q)
          else do {
            (if timeout_ms = OSAL_WAITFOREVER then skip
             else do { _ \<leftarrow> deadline (word_of_int timeout_ms); skip });
            case wakes of
              [] \<Rightarrow> State_Monad.return Recv_blocked
            | (wret, q) # wakes \<Rightarrow>
                if wret = ETIMEDOUT then State_Monad.return (Recv_ret OSAL_API_TIMEDOUT msg q)
                else if wret \<noteq> 0 then State_Monad.return (Recv_ret (errno_2_ret wret) msg q)
                else if mq_exit_flag q \<noteq> 0 then State_Monad.return (Recv_ret OSAL_API_FAIL msg q)
                else mq_recv_loop OSAL_API_OK q msg msg_size timeout_ms wakes }
      | _ \<Rightarrow> State_Monad.return Recv_undefined)"

declare mq_recv_loop.simps [simp del]

definition osal_posix_mq_recv ::
  "(ptr \<times> osal_posix_mq) option \<Rightarrow> bytes option \<Rightarrow> int \<Rightarrow> int \<Rightarrow> (int \<times> osal_posix_mq) list
     \<Rightarrow> (osal_sys, mq_recv_result + osal_api_ret) state" where
  "osal_posix_mq_recv mq msg msg_size timeout_ms wakes = (case (mq, msg) of
     (Some (p, q), Some msg) \<Rightarrow>
       if msg_size \<le> 0 then State_Monad.return (Inr OSAL_API_INVAL)
       else do {
         ret \<leftarrow> sys_call (Mutex (Mutex_lock (r_mutex p)));
         if ret \<noteq> 0 then State_Monad.return (Inr (errno_2_ret ret))
         else do {
           res \<leftarrow> mq_recv_loop OSAL_API_OK q msg msg_size timeout_ms wakes;
           _ \<leftarrow> sys_call (Mutex (Mutex_unlock (r_mutex p)));
           State_Monad.return (Inl res) } }
   | _ \<Rightarrow> State_Monad.return (Inr OSAL_API_INVAL))"

section \<open>The queue through its two calls\<close>

text \<open>The object holds a queue that keeps its invariant, and nobody has asked it to end.\<close>

definition mq_inv :: "u32 \<Rightarrow> nat \<Rightarrow> osal_posix_mq \<Rightarrow> bool" where
  "mq_inv ms n q \<longleftrightarrow> mq_exit_flag q = 0 \<and> (\<exists>raw. mq_raw_queue q = Some raw \<and> lfq_inv ms n raw)"

definition mq_contents :: "osal_posix_mq \<Rightarrow> bytes list" where
  "mq_contents q = (case mq_raw_queue q of None \<Rightarrow> [] | Some raw \<Rightarrow> lfq_contents raw)"

text \<open>The system when every library call succeeds.\<close>

definition sys_good :: osal_sys where
  "sys_good = sys_start (\<lambda>_. 0) (\<lambda>_. 0)"

text \<open>
  A send, and a receive that does not wait, of a queue at address \<open>8\<close>. \<open>None\<close> is undefined behaviour, or an answer
  that is not among those of a queue: \<open>OSAL_API_FAIL\<close> refuses a message and \<open>OSAL_API_TIMEDOUT\<close> delivers none.
\<close>

definition mq_push :: "bytes \<Rightarrow> osal_posix_mq \<Rightarrow> (bool \<times> osal_posix_mq) option" where
  "mq_push m q = (case fst (run_state (osal_posix_mq_send (Some (8, q)) (Some m) (int (length m))) sys_good) of
     Some (OSAL_API_OK, Some q') \<Rightarrow> Some (True, q') | Some (OSAL_API_FAIL, Some q') \<Rightarrow> Some (False, q') | _ \<Rightarrow> None)"

definition mq_pop :: "u32 \<Rightarrow> osal_posix_mq \<Rightarrow> (bytes option \<times> osal_posix_mq) option" where
  "mq_pop ms q = (case fst (run_state
       (osal_posix_mq_recv (Some (8, q)) (Some (replicate (unat ms) 0)) (uint ms) 0 []) sys_good) of
     Inl (Recv_ret OSAL_API_OK m q') \<Rightarrow> Some (Some m, q')
   | Inl (Recv_ret OSAL_API_TIMEDOUT _ q') \<Rightarrow> Some (None, q') | _ \<Rightarrow> None)"

lemma sys_good_answers [simp]: "sys_answers sys_good n = 0"
  by (simp add: sys_good_def)

lemma mq_inv_queue:
  assumes "mq_inv ms n q"
  obtains raw where "mq_raw_queue q = Some raw" "lfq_inv ms n raw" "mq_contents q = lfq_contents raw"
  using assms by (auto simp: mq_inv_def mq_contents_def)

lemma mq_inv_upd:
  "mq_inv ms n q \<Longrightarrow> lfq_inv ms n raw \<Longrightarrow> mq_inv ms n (q\<lparr>mq_raw_queue := Some raw\<rparr>)
    \<and> mq_contents (q\<lparr>mq_raw_queue := Some raw\<rparr>) = lfq_contents raw"
  by (simp add: mq_inv_def mq_contents_def)

lemma mq_recv_loop_first:
  assumes inv: "mq_inv ms n q" and c: "mq_contents q = m # cs" and dst: "unat ms \<le> length dst"
  shows "\<exists>q'. mq_recv_loop ret q dst sz tmo wakes
      = State_Monad.return (Recv_ret ret (m @ drop (unat ms) dst) q')
    \<and> mq_inv ms n q' \<and> mq_contents q' = cs"
proof -
  obtain raw where raw: "mq_raw_queue q = Some raw" "lfq_inv ms n raw" "mq_contents q = lfq_contents raw"
    using inv by (rule mq_inv_queue)
  from lfq_pop_ok [OF raw(2) _ dst, of m cs "word_of_int sz"] c raw(3)
  obtain raw' where "osal_lock_free_queue_pop (Some raw) (Some dst) (word_of_int sz)
      = Some (0, Some (m @ drop (unat ms) dst), Some raw')" "lfq_inv ms n raw'" "lfq_contents raw' = cs"
    by auto
  then have "mq_recv_loop ret q dst sz tmo wakes
      = State_Monad.return (Recv_ret ret (m @ drop (unat ms) dst) (q\<lparr>mq_raw_queue := Some raw'\<rparr>))"
    "mq_inv ms n (q\<lparr>mq_raw_queue := Some raw'\<rparr>)" "mq_contents (q\<lparr>mq_raw_queue := Some raw'\<rparr>) = cs"
    using raw(1) mq_inv_upd [OF inv] by (simp_all add: mq_recv_loop.simps)
  then show ?thesis by blast
qed

lemma mq_recv_loop_empty:
  assumes "mq_inv ms n q" "mq_contents q = []"
  shows "osal_lock_free_queue_pop (mq_raw_queue q) (Some dst) sz = Some (- 1, Some dst, mq_raw_queue q)"
proof -
  obtain raw where "mq_raw_queue q = Some raw" "lfq_inv ms n raw" "mq_contents q = lfq_contents raw"
    using assms(1) by (rule mq_inv_queue)
  then show ?thesis using lfq_pop_empty [of ms n raw dst sz] assms(2) by simp
qed

interpretation mq: bounded_fifo mq_push "mq_pop ms" "mq_inv ms n" mq_contents
  "\<lambda>m. length m = unat ms" "n - 1" for ms :: u32 and n :: nat
proof unfold_locales
  fix q and m :: bytes
  assume inv: "mq_inv ms n q" and m: "length m = unat ms" and room: "length (mq_contents q) < n - 1"
  obtain raw where raw: "mq_raw_queue q = Some raw" "lfq_inv ms n raw" "mq_contents q = lfq_contents raw"
    using inv by (rule mq_inv_queue)
  have pos: "0 < length m" using lfq_invD(2) [OF raw(2)] m by simp
  from lfq_push_ok [OF raw(2) m] room raw(3) obtain raw' where
    "osal_lock_free_queue_push (Some raw) (Some m) = Some (0, Some raw')" "lfq_inv ms n raw'"
    "lfq_contents raw' = lfq_contents raw @ [m]" by auto
  then show "\<exists>q'. mq_push m q = Some (True, q') \<and> mq_inv ms n q' \<and> mq_contents q' = mq_contents q @ [m]"
    using raw mq_inv_upd [OF inv] pos
    by (simp add: mq_push_def osal_posix_mq_send_def Let_def ret_of_def)
next
  fix q and m :: bytes
  assume inv: "mq_inv ms n q" and m: "length m = unat ms" and full: "n - 1 \<le> length (mq_contents q)"
  obtain raw where raw: "mq_raw_queue q = Some raw" "lfq_inv ms n raw" "mq_contents q = lfq_contents raw"
    using inv by (rule mq_inv_queue)
  have "0 < length m" using lfq_invD(2) [OF raw(2)] m by simp
  with full raw lfq_push_full [OF raw(2), of m] show "mq_push m q = Some (False, q)"
    by (simp add: mq_push_def osal_posix_mq_send_def)
next
  fix q m cs
  assume inv: "mq_inv ms n q" and c: "mq_contents q = m # cs"
  have "0 < unat ms" using inv lfq_invD(2) by (auto simp: mq_inv_def)
  then have pos: "0 < uint ms" by (simp only: uint_nat of_nat_0_less_iff)
  show "\<exists>q'. mq_pop ms q = Some (Some m, q') \<and> mq_inv ms n q' \<and> mq_contents q' = cs"
  proof -
    obtain q' where "mq_recv_loop OSAL_API_OK q (replicate (unat ms) 0) (uint ms) 0 []
        = State_Monad.return (Recv_ret OSAL_API_OK m q')" "mq_inv ms n q'" "mq_contents q' = cs"
      using mq_recv_loop_first [OF inv c, of "replicate (unat ms) 0" OSAL_API_OK "uint ms" 0 "[]"]
      by auto
    then show ?thesis using pos by (simp add: mq_pop_def osal_posix_mq_recv_def)
  qed
next
  fix q
  assume inv: "mq_inv ms n q" and c: "mq_contents q = []"
  have "0 < unat ms" using inv lfq_invD(2) by (auto simp: mq_inv_def)
  then have "0 < uint ms" by (simp only: uint_nat of_nat_0_less_iff)
  then show "mq_pop ms q = Some (None, q)"
    using mq_recv_loop_empty [OF inv c]
    by (simp add: mq_pop_def osal_posix_mq_recv_def mq_recv_loop.simps)
next
  fix q
  assume "mq_inv ms n q"
  then show "length (mq_contents q) \<le> n - 1" using lfq_bounded
    by (fastforce simp: mq_inv_def mq_contents_def)
qed

section \<open>Properties\<close>

text \<open>A wake-up that brings nothing: no error, no message, no order to end.\<close>

definition spurious :: "u32 \<Rightarrow> nat \<Rightarrow> int \<times> osal_posix_mq \<Rightarrow> bool" where
  "spurious ms n w \<longleftrightarrow> fst w = 0 \<and> mq_inv ms n (snd w) \<and> mq_contents (snd w) = []"

text \<open>The loop goes round once for a wake-up that is no error and no order to end.\<close>

lemma mq_recv_loop_again:
  assumes "mq_inv ms n q" "mq_contents q = []" "tmo \<noteq> 0" "mq_exit_flag q' = 0"
  shows "\<exists>s'. fst (run_state (mq_recv_loop ret q dst sz tmo ((0, q') # rest)) s)
    = fst (run_state (mq_recv_loop OSAL_API_OK q' dst sz tmo rest) s')"
proof -
  let ?w = "if tmo = OSAL_WAITFOREVER then skip else State_Monad.bind (deadline (word_of_int tmo)) (\<lambda>_. skip)"
  obtain s' where s': "run_state ?w s = ((), s')" by (cases "run_state ?w s") auto
  have "mq_recv_loop ret q dst sz tmo ((0, q') # rest)
    = State_Monad.bind ?w (\<lambda>_. mq_recv_loop OSAL_API_OK q' dst sz tmo rest)"
    using mq_recv_loop_empty [OF assms(1,2), of dst "word_of_int sz"] assms(3,4)
    by (subst mq_recv_loop.simps) (simp add: ETIMEDOUT_def)
  with s' show ?thesis by (auto simp del: run_state_if)
qed

lemma mq_recv_loop_spurious:
  assumes "mq_inv ms n q" "mq_contents q = []" "tmo \<noteq> 0" "\<forall>w \<in> set ws. spurious ms n w"
    and "mq_exit_flag q' = 0"
  shows "\<exists>s'. fst (run_state (mq_recv_loop ret q dst sz tmo (ws @ (0, q') # rest)) s)
    = fst (run_state (mq_recv_loop OSAL_API_OK q' dst sz tmo rest) s')"
  using assms
proof (induction ws arbitrary: q s ret)
  case Nil
  then show ?case using mq_recv_loop_again [of ms n q tmo q'] by simp
next
  case (Cons v ws)
  obtain qv where v: "v = (0, qv)" "mq_inv ms n qv" "mq_contents qv = []" "mq_exit_flag qv = 0"
    using Cons.prems(4) by (cases v) (auto simp: spurious_def mq_inv_def)
  obtain s1 where s1: "fst (run_state (mq_recv_loop ret q dst sz tmo ((0, qv) # ws @ (0, q') # rest)) s)
      = fst (run_state (mq_recv_loop OSAL_API_OK qv dst sz tmo (ws @ (0, q') # rest)) s1)"
    using mq_recv_loop_again [OF Cons.prems(1-3) v(4), of ret dst sz "ws @ (0, q') # rest" s] by blast
  have "\<forall>w \<in> set ws. spurious ms n w" using Cons.prems(4) by simp
  from Cons.IH [OF v(2,3) Cons.prems(3) this Cons.prems(5), of OSAL_API_OK s1] s1 v(1)
  show ?case by simp
qed

lemma run_mq_recv:
  assumes "0 < sz" "sys_answers s (length (sys_trace s)) = 0"
  shows "\<exists>s'. fst (run_state (osal_posix_mq_recv (Some (p, q)) (Some dst) sz tmo wakes) s)
    = Inl (fst (run_state (mq_recv_loop OSAL_API_OK q dst sz tmo wakes) s'))"
  using assms by (auto simp: osal_posix_mq_recv_def split: prod.splits) (metis fst_conv)

text \<open>How a wake-up ends the wait, if it does: an error, the deadline, the order to end, or a message.\<close>

lemma mq_recv_loop_ends:
  assumes "mq_inv ms n q" "mq_contents q = []" "tmo \<noteq> 0" "wret \<noteq> 0 \<or> mq_exit_flag q' \<noteq> 0"
  shows "fst (run_state (mq_recv_loop ret q dst sz tmo ((wret, q') # rest)) s)
    = Recv_ret (if wret = ETIMEDOUT then OSAL_API_TIMEDOUT else if wret \<noteq> 0 then errno_2_ret wret else OSAL_API_FAIL) dst q'"
  using mq_recv_loop_empty [OF assms(1,2), of dst "word_of_int sz"] assms(3,4)
  by (subst mq_recv_loop.simps) (simp add: ETIMEDOUT_def split: prod.split)

lemma mq_recv_loop_waits:
  assumes "mq_inv ms n q" "mq_contents q = []" "tmo \<noteq> 0"
  shows "fst (run_state (mq_recv_loop ret q dst sz tmo []) s) = Recv_blocked"
  using mq_recv_loop_empty [OF assms(1,2), of dst "word_of_int sz"] assms(3)
  by (subst mq_recv_loop.simps) (simp split: prod.split)

text \<open>Wake-ups that bring nothing only move the wait to the queue that the last of them left.\<close>

lemma mq_recv_loop_sleeps:
  assumes "mq_inv ms n q" "mq_contents q = []" "tmo \<noteq> 0" "\<forall>w \<in> set ws. spurious ms n w"
  shows "\<exists>qn s'. mq_inv ms n qn \<and> mq_contents qn = [] \<and> (\<exists>ret'. fst (run_state (mq_recv_loop ret q dst sz tmo (ws @ rest)) s)
    = fst (run_state (mq_recv_loop ret' qn dst sz tmo rest) s'))"
proof (cases ws rule: rev_cases)
  case Nil
  then show ?thesis using assms(1,2) by auto
next
  case (snoc vs w)
  obtain qw where w: "w = (0, qw)" "mq_inv ms n qw" "mq_contents qw = []" "mq_exit_flag qw = 0"
    using assms(4) snoc by (cases w) (auto simp: spurious_def mq_inv_def)
  have "\<forall>w \<in> set vs. spurious ms n w" using assms(4) snoc by simp
  from mq_recv_loop_spurious [OF assms(1-3) this w(4)] w(1-3) snoc show ?thesis by fastforce
qed

lemma run_mq_recv_prefix:
  assumes "mq_inv ms n q" "mq_contents q = []" "tmo \<noteq> 0" "\<forall>w \<in> set ws. spurious ms n w" "0 < sz"
    "sys_answers s (length (sys_trace s)) = 0"
  obtains qn ret s' where "mq_inv ms n qn" "mq_contents qn = []"
    "fst (run_state (osal_posix_mq_recv (Some (p, q)) (Some dst) sz tmo (ws @ rest)) s)
      = Inl (fst (run_state (mq_recv_loop ret qn dst sz tmo rest) s'))"
proof -
  obtain s1 where s1: "fst (run_state (osal_posix_mq_recv (Some (p, q)) (Some dst) sz tmo (ws @ rest)) s)
      = Inl (fst (run_state (mq_recv_loop OSAL_API_OK q dst sz tmo (ws @ rest)) s1))"
    using run_mq_recv [OF assms(5,6)] by blast
  show thesis using mq_recv_loop_sleeps [OF assms(1-4), of OSAL_API_OK dst sz rest s1] that s1 by metis
qed

text \<open>
  C8. The outcomes of a receive on an empty queue. It waits through any number of wake-ups that bring nothing, and
  then: a wake-up with a message in the queue makes it return the first message, whole and in the caller's buffer;
  the deadline makes it return \<open>OSAL_API_TIMEDOUT\<close>, another failure of the wait its code, and the order to end
  \<open>OSAL_API_FAIL\<close>, each with buffer and queue as they are; without any further wake-up it keeps waiting. With timeout
  \<open>0\<close> it answers \<open>OSAL_API_TIMEDOUT\<close> at once. With a message in the queue it returns this message whatever the
  timeout. When the mutex cannot be locked, its code is the answer, and \<open>NULL\<close> or a size that is not positive is
  refused.
\<close>

theorem mq_recv_delivers:
  assumes "mq_inv ms n q" "mq_contents q = []" "tmo \<noteq> 0" "\<forall>w \<in> set ws. spurious ms n w"
    and "mq_inv ms n q'" "mq_contents q' = m # cs" "unat ms \<le> length dst" "0 < sz"
    and "sys_answers s (length (sys_trace s)) = 0" "sys_answers s1 (length (sys_trace s1)) = e" "e \<noteq> 0"
    and "wret \<noteq> 0 \<or> mq_exit_flag q1 \<noteq> 0" "sz' \<le> 0"
  shows "(\<exists>q''. fst (run_state (osal_posix_mq_recv (Some (p, q)) (Some dst) sz tmo (ws @ (0, q') # rest)) s)
      = Inl (Recv_ret OSAL_API_OK (m @ drop (unat ms) dst) q'') \<and> mq_contents q'' = cs)
    \<and> fst (run_state (osal_posix_mq_recv (Some (p, q)) (Some dst) sz tmo (ws @ (wret, q1) # rest)) s)
      = Inl (Recv_ret (if wret = ETIMEDOUT then OSAL_API_TIMEDOUT else if wret \<noteq> 0 then errno_2_ret wret else OSAL_API_FAIL) dst q1)
    \<and> fst (run_state (osal_posix_mq_recv (Some (p, q)) (Some dst) sz tmo ws) s) = Inl Recv_blocked
    \<and> fst (run_state (osal_posix_mq_recv (Some (p, q)) (Some dst) sz 0 []) s)
      = Inl (Recv_ret OSAL_API_TIMEDOUT dst q)
    \<and> (\<exists>q''. fst (run_state (osal_posix_mq_recv (Some (p, q')) (Some dst) sz tmo' []) s)
      = Inl (Recv_ret OSAL_API_OK (m @ drop (unat ms) dst) q'') \<and> mq_contents q'' = cs)
    \<and> fst (run_state (osal_posix_mq_recv (Some (p, q)) (Some dst) sz tmo ws) s1) = Inr (errno_2_ret e)
    \<and> fst (run_state (osal_posix_mq_recv (Some (p, q)) (Some dst) sz' tmo ws) s) = Inr OSAL_API_INVAL
    \<and> fst (run_state (osal_posix_mq_recv None (Some dst) sz tmo ws) s) = Inr OSAL_API_INVAL
    \<and> fst (run_state (osal_posix_mq_recv (Some (p, q)) None sz tmo ws) s) = Inr OSAL_API_INVAL"
proof (intro conjI)
  note prefix = run_mq_recv_prefix [OF assms(1-4,8,9), where p = p and dst = dst]
  have exit: "mq_exit_flag q' = 0" using assms(5) by (simp add: mq_inv_def)
  show "\<exists>q''. fst (run_state (osal_posix_mq_recv (Some (p, q)) (Some dst) sz tmo (ws @ (0, q') # rest)) s)
      = Inl (Recv_ret OSAL_API_OK (m @ drop (unat ms) dst) q'') \<and> mq_contents q'' = cs"
  proof (rule prefix [of "(0, q') # rest"])
    fix qn ret t assume qn: "mq_inv ms n qn" "mq_contents qn = []"
      and eq: "fst (run_state (osal_posix_mq_recv (Some (p, q)) (Some dst) sz tmo (ws @ (0, q') # rest)) s)
        = Inl (fst (run_state (mq_recv_loop ret qn dst sz tmo ((0, q') # rest)) t))"
    obtain t' where t': "fst (run_state (mq_recv_loop ret qn dst sz tmo ((0, q') # rest)) t)
        = fst (run_state (mq_recv_loop OSAL_API_OK q' dst sz tmo rest) t')"
      using mq_recv_loop_again [OF qn assms(3) exit] by blast
    show ?thesis unfolding eq t' using mq_recv_loop_first [OF assms(5-7), of OSAL_API_OK sz tmo rest] by fastforce
  qed
  show "fst (run_state (osal_posix_mq_recv (Some (p, q)) (Some dst) sz tmo (ws @ (wret, q1) # rest)) s)
      = Inl (Recv_ret (if wret = ETIMEDOUT then OSAL_API_TIMEDOUT else if wret \<noteq> 0 then errno_2_ret wret else OSAL_API_FAIL) dst q1)"
    by (rule prefix [of "(wret, q1) # rest"]) (simp add: mq_recv_loop_ends [OF _ _ assms(3,12)])
  show "fst (run_state (osal_posix_mq_recv (Some (p, q)) (Some dst) sz tmo ws) s) = Inl Recv_blocked"
    by (rule prefix [of "[]"]) (simp add: mq_recv_loop_waits [OF _ _ assms(3)])
  show "fst (run_state (osal_posix_mq_recv (Some (p, q)) (Some dst) sz 0 []) s)
      = Inl (Recv_ret OSAL_API_TIMEDOUT dst q)"
    using mq_recv_loop_empty [OF assms(1,2), of dst "word_of_int sz"] assms(8,9)
    by (simp add: osal_posix_mq_recv_def mq_recv_loop.simps)
  show "\<exists>q''. fst (run_state (osal_posix_mq_recv (Some (p, q')) (Some dst) sz tmo' []) s)
      = Inl (Recv_ret OSAL_API_OK (m @ drop (unat ms) dst) q'') \<and> mq_contents q'' = cs"
    using mq_recv_loop_first [OF assms(5-7), of OSAL_API_OK sz tmo' "[]"] assms(8,9) by (fastforce simp: osal_posix_mq_recv_def)
  show "fst (run_state (osal_posix_mq_recv (Some (p, q)) (Some dst) sz tmo ws) s1) = Inr (errno_2_ret e)"
    using assms(8,10,11) by (simp add: osal_posix_mq_recv_def)
qed (use assms(13) in \<open>simp_all add: osal_posix_mq_recv_def\<close>)

text \<open>A queue of two-byte messages with one message in it.\<close>

lemma demo_mq:
  "\<exists>q0 q1. mq_inv 2 3 q0 \<and> mq_contents q0 = [] \<and> mq_push [1, 2] q0 = Some (True, q1) \<and> mq_inv 2 3 q1
     \<and> mq_contents q1 = [[1, 2]]"
proof -
  obtain raw where raw: "lfq_inv 2 3 raw" "lfq_contents raw = []"
    using lfq_init_ok [of 2 3] by auto
  let ?q = "\<lparr>mq_exit_flag = 0, mq_raw_ptr = 100, mq_raw_queue = Some raw\<rparr>"
  have q: "mq_inv 2 3 ?q" "mq_contents ?q = []" using raw by (simp_all add: mq_inv_def mq_contents_def)
  from mq.push_accepts [OF q(1), of "[1, 2]"] q show ?thesis by auto
qed

theorem mq_recv_delivers_witness:
  "\<exists>q0 q1 q2. mq_push [1, 2] q0 = Some (True, q1)
     \<and> fst (run_state (osal_posix_mq_recv (Some (8, q0)) (Some [0, 0]) 2 (- 1) [(0, q0), (0, q1)]) sys_good)
       = Inl (Recv_ret OSAL_API_OK [1, 2] q2)
     \<and> fst (run_state (osal_posix_mq_recv (Some (8, q0)) (Some [0, 0]) 2 (- 1) [(0, q0), (ETIMEDOUT, q0)]) sys_good)
       = Inl (Recv_ret OSAL_API_TIMEDOUT [0, 0] q0)"
proof -
  obtain q0 q1 where q: "mq_inv 2 3 q0" "mq_contents q0 = []" "mq_push [1, 2] q0 = Some (True, q1)"
    "mq_inv 2 3 q1" "mq_contents q1 = [[1, 2]]"
    using demo_mq by blast
  have "\<forall>w \<in> set [(0, q0)]. spurious 2 3 w" using q by (simp add: spurious_def)
  from mq_recv_delivers [where tmo = "- 1" and dst = "[0, 0]" and sz = 2 and s = sys_good and p = 8
      and rest = "[]" and tmo' = 1 and ?s1.0 = "sys_start (\<lambda>_. 1) (\<lambda>_. 0)" and e = 1 and wret = ETIMEDOUT and ?q1.0 = q0 and sz' = 0,
      OF q(1,2) _ this q(4,5)] q(3)
  show ?thesis by (auto simp: ETIMEDOUT_def)
qed

text \<open>
  What a program sends through \<open>osal_mq_send\<close> and receives through non-waiting \<open>osal_mq_recv\<close> calls, in any order of
  calls, is answered as by the abstract queue.
\<close>

lemma mq_fifo:
  assumes "mq_inv ms n q" "mq_contents q = []" "\<forall>m \<in> set (fifo_msgs ops). length m = unat ms"
  shows "\<exists>answers q'. fifo_run mq_push (mq_pop ms) ops q = Some (answers, q')
    \<and> (answers, mq_contents q') = fifo_spec (n - 1) ops []"
  using mq.run_refines [OF assms(1,3)] assms(2) by auto

lemma unat_of_long:
  assumes "0 < x" "x < 2 ^ 32"
  shows "unat (word_of_int x :: u32) = nat x"
  using assms by (simp add: unsigned_of_int take_bit_int_eq_self)

lemma long_dims:
  fixes x y :: int
  assumes "0 < x" "0 < y" "x * y < 2 ^ 32"
  shows "unat (word_of_int x :: u32) = nat x" "unat (word_of_int y :: u32) = nat y"
proof -
  have "x * 1 \<le> x * y" "1 * y \<le> x * y"
    using assms(1,2) by (intro mult_left_mono mult_right_mono; simp)+
  then have "x < 2 ^ 32" "y < 2 ^ 32" using assms(3) by linarith+
  then show "unat (word_of_int x :: u32) = nat x" "unat (word_of_int y :: u32) = nat y"
    using assms(1,2) by (rule_tac unat_of_long; simp)+
qed

lemma raw_queue_init_run:
  assumes "0 < msg_size" "0 < msg_max" "msg_size * msg_max < 2 ^ 32" "k = length (sys_trace w)"
  shows "\<exists>c. run_state (raw_queue_init msg_size msg_max) w
      = ((nat (sys_answers w k), osal_lock_free_queue_init (sys_answers w k > 0)
          (word_of_int msg_size) (word_of_int msg_max)),
         w\<lparr>sys_trace := sys_trace w @ [(Mem (Calloc 1 c), sys_answers w k)]\<rparr>)"
proof -
  let ?ms = "word_of_int msg_size :: u32" and ?mx = "word_of_int msg_max :: u32"
  note u = long_dims [OF assms(1-3)]
  have nz: "?ms \<noteq> 0" "?mx \<noteq> 0" using u assms(1,2) by auto
  have "unat (ucast (?ms * ?mx) :: u64) < 2 ^ 32"
    using unat_lt_size [of "?ms * ?mx"]
    by (simp add: unsigned_ucast_eq le_less_trans [OF take_bit_nat_less_eq_self])
  then have "unat (16 + ucast (?ms * ?mx) :: u64) = 16 + unat (ucast (?ms * ?mx) :: u64)"
    by (subst unat_add_nowrap) simp_all
  then have "(16 + ucast (?ms * ?mx) :: u64) \<noteq> 0" by auto
  with nz show ?thesis
    using assms(4) by (auto simp: raw_queue_init_def Let_def run_osal_calloc)
qed

text \<open>The mutexes and condition variables that a trace of calls leaves initialised.\<close>

definition lock_step :: "osal_call \<times> int \<Rightarrow> ptr list \<Rightarrow> ptr list" where
  "lock_step ca live = (case fst ca of
     Mutex (Mutex_init p) \<Rightarrow> if snd ca = 0 then p # live else live
   | Mq (Cond_init p) \<Rightarrow> if snd ca = 0 then p # live else live
   | Mutex (Mutex_destroy p) \<Rightarrow> remove1 p live
   | Mq (Cond_destroy p) \<Rightarrow> remove1 p live
   | _ \<Rightarrow> live)"

definition sys_locks :: "osal_sys \<Rightarrow> ptr list" where
  "sys_locks w = fold lock_step (sys_trace w) []"

text \<open>
  C9. The outcomes of creating a queue, whatever the system answers. Sizes that are not positive, no memory for the
  object, and a mutex that cannot be initialised make the answer \<open>NULL\<close>, and then nothing is left: no memory is
  allocated, and no mutex or condition variable is initialised. When every step succeeds, the object returned holds an
  empty queue of \<open>msg_max\<close> slots, and exactly its memory and its locks are left. But when the byte ring cannot be
  allocated, the object is freed and its address is returned all the same, and when the condition variable cannot be
  initialised the code goes on to write into the freed object.
\<close>

theorem mq_create_outcomes:
  assumes "msg_size * msg_max < 2 ^ 32"
    and "(r, w) = run_state (osal_posix_mq_create msg_size msg_max) (sys_start a e)"
  shows "if msg_size \<le> 0 \<or> msg_max \<le> 0 \<or> a 0 \<le> 0 \<or> a 1 \<noteq> 0 \<or> a 2 \<noteq> 0
     then r = Some (NULL, None) \<and> sys_heap w = [] \<and> sys_locks w = []
     else if a 3 \<noteq> 0 then r = None
     else if a 4 \<le> 0 then r = Some (nat (a 0), None) \<and> nat (a 0) \<noteq> NULL \<and> sys_heap w = [] \<and> sys_locks w = []
     else \<exists>q. r = Some (nat (a 0), Some q) \<and> mq_inv (word_of_int msg_size) (nat msg_max) q
       \<and> mq_contents q = [] \<and> sys_heap w = [nat (a 4), nat (a 0)]
       \<and> sys_locks w = [mq_cond (nat (a 0)), r_mutex (nat (a 0)), w_mutex (nat (a 0))]"
proof -
  let ?ms = "word_of_int msg_size :: u32" and ?mx = "word_of_int msg_max :: u32"
  have alloc: "run_state (osal_posix_calloc 1 144) w
      = (nat (sys_answers w (length (sys_trace w))), w\<lparr>sys_trace := sys_trace w @
          [(Mem (Calloc 1 144), sys_answers w (length (sys_trace w)))]\<rparr>)" for w :: osal_sys
    by (simp add: run_osal_calloc Let_def)
  have idx: "(2 :: nat) = Suc (Suc 0)" "(3 :: nat) = Suc (Suc (Suc 0))"
    "(4 :: nat) = Suc (Suc (Suc (Suc 0)))" by simp_all
  have apart: "w_mutex p \<noteq> r_mutex p" "w_mutex p \<noteq> mq_cond p" "r_mutex p \<noteq> mq_cond p"
    "r_mutex p \<noteq> w_mutex p" "mq_cond p \<noteq> w_mutex p" "mq_cond p \<noteq> r_mutex p" for p
    by (simp_all add: w_mutex_def r_mutex_def mq_cond_def)
  note run = osal_posix_mq_create_def alloc Let_def idx sys_heap_def heap_after_Cons heap_step_def sys_locks_def lock_step_def apart
  show ?thesis
  proof (cases "msg_size \<le> 0 \<or> msg_max \<le> 0")
    case True
    then show ?thesis using assms(2) by (auto simp: run)
  next
    case False
    then have pos: "0 < msg_size" "0 < msg_max" "\<not> msg_size \<le> 0" "\<not> msg_max \<le> 0" by simp_all
    consider (nomem) "a 0 \<le> 0" | (w) "a 0 > 0" "a 1 \<noteq> 0" | (r) "a 0 > 0" "a 1 = 0" "a 2 \<noteq> 0"
      | (c) "a 0 > 0" "a 1 = 0" "a 2 = 0" "a 3 \<noteq> 0" | (ok) "a 0 > 0" "a 1 = 0" "a 2 = 0" "a 3 = 0" by force
    then show ?thesis
    proof cases
      case nomem
      then show ?thesis using assms(2) pos by (simp add: run)
    next
      case w
      then show ?thesis using assms(2) pos by (simp add: run)
    next
      case r
      then show ?thesis using assms(2) pos by (simp add: run)
    next
      case c
      then show ?thesis using assms(2) pos by (simp add: run)
    next
      case ok
      note u = long_dims [OF pos(1,2) assms(1)]
      have nz: "?ms \<noteq> 0" "?mx \<noteq> 0" using u pos(1,2) by auto
      have prod: "unat ?ms * unat ?mx < 2 ^ 32"
        using assms(1) pos(1,2) by (simp add: u nat_less_iff flip: nat_mult_distrib)
      let ?w = "(sys_start a e :: osal_sys)\<lparr>sys_trace := [(Mem (Calloc 1 144), a 0),
        (Mutex (Mutex_init (w_mutex (nat (a 0)))), 0), (Mutex (Mutex_init (r_mutex (nat (a 0)))), 0),
        (Mq (Cond_init (mq_cond (nat (a 0)))), 0)]\<rparr>"
      obtain c where c: "run_state (raw_queue_init msg_size msg_max) ?w
        = ((nat (a 4), osal_lock_free_queue_init (a 4 > 0) ?ms ?mx),
           ?w\<lparr>sys_trace := sys_trace ?w @ [(Mem (Calloc 1 c), a 4)]\<rparr>)"
        using raw_queue_init_run [OF pos(1,2) assms(1), of 4 ?w] by auto
      show ?thesis
      proof (cases "a 4 \<le> 0")
        case zero: True
        then have "osal_lock_free_queue_init (a 4 > 0) ?ms ?mx = None"
          by (simp add: osal_lock_free_queue_init_def)
        with c ok zero pos assms(2) show ?thesis by (simp add: run)
      next
        case False
        then obtain q where q: "osal_lock_free_queue_init (a 4 > 0) ?ms ?mx = Some q"
          "lfq_inv ?ms (unat ?mx) q" "lfq_contents q = []"
          using lfq_init_ok [OF nz prod] by auto
        with c ok False pos assms(2) show ?thesis by (simp add: run mq_inv_def mq_contents_def u)
      qed
    qed
  qed
qed

theorem mq_create_outcomes_witness:
  "fst (run_state (osal_posix_mq_create 16 4) (sys_start (\<lambda>n. if n = 0 then 500 else 0) (\<lambda>_. 0)))
     = Some (500, None)
   \<and> sys_heap (snd (run_state (osal_posix_mq_create 16 4) (sys_start (\<lambda>n. if n = 0 then 500 else 12) (\<lambda>_. 0)))) = []"
proof -
  let ?r = "\<lambda>b. run_state (osal_posix_mq_create 16 4) (sys_start (\<lambda>n. if n = 0 then 500 else b) (\<lambda>_. 0))"
  have "(fst (?r b), snd (?r b)) = ?r b" for b by simp
  from mq_create_outcomes [OF _ this [of 0]] mq_create_outcomes [OF _ this [of 12]] show ?thesis by simp
qed

end
