(* ===== verification/OsalFreertos.thy ===== *)
theory OsalFreertos
  imports OsalPosix
begin

text \<open>
  The operating system abstraction of \<open>frameworks/mlib/osal\<close> on FreeRTOS
  (\<open>src/osal_freertos.c\<close>): memory and the creation of tasks. The constants of the FreeRTOS
  configuration are parameters; the task creation functions of ESP-IDF are library calls.
\<close>

record freertos_config =
  fc_minimal_stack_size :: u32
  fc_max_priorities :: u32
  fc_no_affinity :: u32
  fc_static_allocation :: bool
  fc_task_cb_size :: u32

datatype frt_call = Frt_mem mem_call
  | Task_create_static string u32 ptr u32 ptr ptr u32
  | Task_create string u32 ptr u32 u32
  | Run_func ptr ptr
  | Task_delete

type_synonym frt_sys = "frt_call sys"

definition osal_freertos_malloc :: "u64 \<Rightarrow> (frt_sys, ptr) state" where
  "osal_freertos_malloc sz =
     (if sz = 0 then State_Monad.return NULL
      else do { p \<leftarrow> sys_call (Frt_mem (Malloc sz)); State_Monad.return (nat p) })"

definition osal_freertos_calloc :: "u64 \<Rightarrow> u64 \<Rightarrow> (frt_sys, ptr) state" where
  "osal_freertos_calloc num sz =
     (if sz = 0 \<or> num = 0 then State_Monad.return NULL
      else do { p \<leftarrow> sys_call (Frt_mem (Calloc num sz)); State_Monad.return (nat p) })"

definition frt_free :: "ptr \<Rightarrow> (frt_sys, unit) state" where
  "frt_free p = do { _ \<leftarrow> sys_call (Frt_mem (Free p)); skip }"

definition osal_freertos_realloc :: "ptr \<Rightarrow> u64 \<Rightarrow> (frt_sys, ptr) state" where
  "osal_freertos_realloc p sz =
     (if p = NULL then osal_freertos_malloc sz
      else if sz = 0 then do { frt_free p; State_Monad.return NULL }
      else do { q \<leftarrow> sys_call (Frt_mem (Realloc p sz)); State_Monad.return (nat q) })"

record frt_wrapper =
  fw_func :: ptr
  fw_arg :: ptr

definition osal_freertos_task_wrapper :: "ptr \<times> frt_wrapper \<Rightarrow> (frt_sys, unit) state" where
  "osal_freertos_task_wrapper w = do {
     frt_free (fst w);
     _ \<leftarrow> sys_call (Run_func (fw_func (snd w)) (fw_arg (snd w)));
     _ \<leftarrow> sys_call Task_delete;
     skip }"

definition OSAL_DEFAULT_PRIORITY :: u32 where "OSAL_DEFAULT_PRIORITY = 15"

text \<open>Stack depth, priority, name, core and the static buffers, or \<open>None\<close> when they are refused.\<close>

record frt_params =
  fp_depth :: u32
  fp_priority :: u32
  fp_name :: string
  fp_core :: u32
  fp_stack :: ptr
  fp_tcb :: ptr

definition frt_task_params :: "freertos_config \<Rightarrow> osal_task_attr option \<Rightarrow> frt_params option" where
  "frt_task_params c attr = (case attr of
     None \<Rightarrow> Some \<lparr>fp_depth = fc_minimal_stack_size c, fp_priority = OSAL_DEFAULT_PRIORITY,
       fp_name = DEFAULT_STACK_NAME, fp_core = fc_no_affinity c, fp_stack = NULL, fp_tcb = NULL\<rparr>
   | Some a \<Rightarrow> do {
       let depth = (if ta_stack_size a > fc_minimal_stack_size c then ta_stack_size a
         else fc_minimal_stack_size c);
       guard_opt (\<not> ta_priority a \<ge> fc_max_priorities c);
       let name = (case ta_name a of None \<Rightarrow> DEFAULT_STACK_NAME | Some n \<Rightarrow> n);
       let core = (if ta_affinity_mask a \<noteq> 0 then ta_affinity_mask a else fc_no_affinity c);
       let static = (fc_static_allocation c \<and> ta_stack_start a \<noteq> NULL \<and> ta_task_cb_start a \<noteq> NULL
         \<and> ta_task_cb_size a \<ge> fc_task_cb_size c);
       guard_opt (\<not> (static \<and> ta_stack_size a < fc_minimal_stack_size c));
       Some \<lparr>fp_depth = depth, fp_priority = ta_priority a, fp_name = name, fp_core = core,
         fp_stack = (if static then ta_stack_start a else NULL),
         fp_tcb = (if static then ta_task_cb_start a else NULL)\<rparr> })"

text \<open>
  The result is the task handle and the wrapper handed to the task, if one was. \<open>handle\<close> is what
  the dynamic creation stores; \<open>sizeof(struct task_wrapper_t)\<close> is 8 on the 32-bit target and
  \<open>pdPASS\<close> is 1.
\<close>

definition osal_freertos_task_create ::
  "freertos_config \<Rightarrow> ptr \<Rightarrow> ptr \<Rightarrow> ptr \<Rightarrow> osal_task_attr option
     \<Rightarrow> (frt_sys, ptr \<times> (ptr \<times> frt_wrapper) option) state" where
  "osal_freertos_task_create c handle func arg attr =
     (if func = NULL then State_Monad.return (NULL, None)
      else case frt_task_params c attr of
        None \<Rightarrow> State_Monad.return (NULL, None)
      | Some p \<Rightarrow> do {
          w \<leftarrow> osal_freertos_malloc 8;
          if w = NULL then State_Monad.return (NULL, None)
          else do {
            let fw = \<lparr>fw_func = func, fw_arg = arg\<rparr>;
            if fp_stack p \<noteq> NULL \<and> fp_tcb p \<noteq> NULL then do {
              h \<leftarrow> sys_call (Task_create_static (fp_name p) (fp_depth p) w (fp_priority p)
                (fp_stack p) (fp_tcb p) (fp_core p));
              if nat h = NULL then do { frt_free w; State_Monad.return (NULL, None) }
              else State_Monad.return (nat h, Some (w, fw)) }
            else do {
              ret \<leftarrow> sys_call (Task_create (fp_name p) (fp_depth p) w (fp_priority p) (fp_core p));
              if ret \<noteq> 1 then do { frt_free w; State_Monad.return (NULL, None) }
              else State_Monad.return (handle, Some (w, fw)) } } })"

definition osal_freertos_task_join :: "ptr \<Rightarrow> osal_api_ret" where
  "osal_freertos_task_join task = OSAL_API_FAIL"

text \<open>The heap of this system.\<close>

definition frt_heap_step :: "frt_call \<times> int \<Rightarrow> ptr list \<Rightarrow> ptr list" where
  "frt_heap_step ca live = (case fst ca of
     Frt_mem m \<Rightarrow> heap_step (Mem m, snd ca) live | _ \<Rightarrow> live)"

definition frt_heap :: "frt_sys \<Rightarrow> ptr list" where
  "frt_heap w = fold frt_heap_step (sys_trace w) []"

lemma frt_heap_start [simp]: "frt_heap (sys_start a e) = []"
  by (simp add: frt_heap_def)

text \<open>
  Creating a FreeRTOS task: a priority the configuration does not have is refused without
  any call; a task that is created gets a stack of at least the minimal depth; and no memory
  is lost, whatever the allocator and the kernel answer.
\<close>

theorem freertos_task_create_safe:
  "(let ((h, wrap), w') = run_state (osal_freertos_task_create c handle func arg attr) w in
      frt_heap w' = (case wrap of None \<Rightarrow> frt_heap w | Some (p, _) \<Rightarrow> p # frt_heap w)
      \<and> (\<forall>n d p pr k a. (Task_create n d p pr k, a) \<in> set (sys_trace w') - set (sys_trace w)
          \<longrightarrow> fc_minimal_stack_size c \<le> d)
      \<and> (\<forall>x. attr = Some x \<and> fc_max_priorities c \<le> ta_priority x \<longrightarrow> h = NULL \<and> w' = w))"
proof -
  have depth: "fc_minimal_stack_size c \<le> fp_depth p" if "frt_task_params c attr = Some p" for p
    using that by (auto simp: frt_task_params_def Let_def split: option.splits if_splits)
  have prio: "frt_task_params c attr = None"
    if "attr = Some x" "fc_max_priorities c \<le> ta_priority x" for x
    using that by (simp add: frt_task_params_def Let_def guard_opt_def)
  show ?thesis
  proof (cases "frt_task_params c attr")
    case None
    then show ?thesis by (auto simp: osal_freertos_task_create_def)
  next
    case (Some p)
    with prio have valid: "attr \<noteq> Some x \<or> \<not> fc_max_priorities c \<le> ta_priority x" for x by fastforce
    show ?thesis using valid depth [OF Some]
      by (auto simp: osal_freertos_task_create_def osal_freertos_malloc_def frt_free_def Some Let_def
          frt_heap_def frt_heap_step_def)
  qed
qed

theorem freertos_task_create_safe_witness:
  "let c = \<lparr>fc_minimal_stack_size = 1536, fc_max_priorities = 25, fc_no_affinity = 0x7FFFFFFF,
       fc_static_allocation = False, fc_task_cb_size = 0\<rparr>;
     a = \<lparr>ta_name = None, ta_stack_size = 100, ta_priority = 25, ta_stack_start = 0, ta_task_cb_size = 0,
       ta_task_cb_start = 0, ta_affinity_mask = 0\<rparr>
   in fst (run_state (osal_freertos_task_create c 9 100 0 (Some a)) (sys_start (\<lambda>_. 1) (\<lambda>_. 0)))
     = (NULL, None)"
proof -
  let ?c = "\<lparr>fc_minimal_stack_size = 1536, fc_max_priorities = 25, fc_no_affinity = 0x7FFFFFFF,
       fc_static_allocation = False, fc_task_cb_size = 0\<rparr>"
  let ?a = "\<lparr>ta_name = None, ta_stack_size = 100, ta_priority = 25, ta_stack_start = 0, ta_task_cb_size = 0,
       ta_task_cb_start = 0, ta_affinity_mask = 0\<rparr>"
  let ?r = "run_state (osal_freertos_task_create ?c 9 100 0 (Some ?a)) (sys_start (\<lambda>_. 1) (\<lambda>_. 0))"
  obtain h wrap w' where r: "?r = ((h, wrap), w')" by (metis prod.exhaust)
  have "h = NULL \<and> w' = sys_start (\<lambda>_. 1) (\<lambda>_. 0) \<and> frt_heap w' = (case wrap of None \<Rightarrow> [] | Some (p, _) \<Rightarrow> [p])"
    using freertos_task_create_safe [of ?c 9 100 0 "Some ?a" "sys_start (\<lambda>_. 1) (\<lambda>_. 0)"]
    unfolding r by (auto split: option.splits)
  then have "h = NULL \<and> wrap = None" by (auto split: option.splits)
  then show ?thesis by (simp add: r)
qed

end
