(* ===== verification/Simulation.thy ===== *)
theory Simulation
  imports Prelude
begin

text \<open>
  Functional refinement between an operation on the code's state, which may be undefined, and an
  operation on an abstract state: the contract a component proves once for each operation, and
  what follows from it for runs.
\<close>

fun run_total :: "('op \<Rightarrow> 'a \<Rightarrow> 'r \<times> 'a) \<Rightarrow> 'op list \<Rightarrow> 'a \<Rightarrow> 'r list \<times> 'a" where
  "run_total f [] a = ([], a)"
| "run_total f (op # ops) a = (let (r, a) = f op a; (rs, a) = run_total f ops a in (r # rs, a))"

fun run_partial :: "('op \<Rightarrow> 'c \<Rightarrow> ('r \<times> 'c) option) \<Rightarrow> 'op list \<Rightarrow> 'c \<Rightarrow> ('r list \<times> 'c) option" where
  "run_partial f [] c = Some ([], c)"
| "run_partial f (op # ops) c = do {
     (r, c) \<leftarrow> f op c;
     (rs, c) \<leftarrow> run_partial f ops c;
     Some (r # rs, c) }"

locale simulation =
  fixes cstep :: "'op \<Rightarrow> 'c \<Rightarrow> ('r \<times> 'c) option"
    and astep :: "'op \<Rightarrow> 'a \<Rightarrow> 'r \<times> 'a"
    and inv :: "'c \<Rightarrow> bool"
    and abs :: "'c \<Rightarrow> 'a"
    and ok :: "'op \<Rightarrow> bool"
  assumes step: "\<lbrakk> inv c; ok op \<rbrakk>
    \<Longrightarrow> \<exists>r c'. cstep op c = Some (r, c') \<and> inv c' \<and> astep op (abs c) = (r, abs c')"
begin

text \<open>Every run of the code is defined, answers as the abstract run does, and ends in its state.\<close>

lemma run:
  assumes "inv c" and "\<forall>op \<in> set ops. ok op"
  shows "\<exists>rs c'. run_partial cstep ops c = Some (rs, c') \<and> inv c'
    \<and> run_total astep ops (abs c) = (rs, abs c')"
  using assms
proof (induction ops arbitrary: c)
  case (Cons op ops)
  then obtain r c1 where "cstep op c = Some (r, c1)" "inv c1" "astep op (abs c) = (r, abs c1)"
    using step by (metis list.set_intros(1))
  with Cons.IH [of c1] Cons.prems show ?case by auto
qed auto

end

end
