(* ===== verification/NetxPoll.thy ===== *)
theory NetxPoll
  imports Mlist Simulation "HOL-Library.Char_ord"
begin

text \<open>
  The poll objects of \<open>frameworks/mlib/netx/netx.c\<close>, which emulate \<open>epoll\<close> on \<open>select\<close>: a table of
  items, a hash table over the file descriptor, a free list, and a ring of the items in use.

  A pointer to \<open>struct netx_item\<close> is the position of the item in the object's memory, counted
  from \<open>1\<close>, and \<open>0\<close> is \<open>NULL\<close>; the items follow the hash table in the same block. The locks are
  those of the single-threaded configuration (\<open>mlock_disable\<close>), which are empty. Counts are at
  most \<open>FD_SETSIZE\<close> and are kept as natural numbers. The result of an operation is \<open>None\<close> where
  the C code is undefined.
\<close>

section \<open>Data\<close>

record netx_event =
  ev_events :: u64
  ev_data :: u64

definition netx_event_in :: u64 where "netx_event_in = 1"
definition netx_event_out :: u64 where "netx_event_out = 2"
definition netx_event_et :: u64 where "netx_event_et = 4"

definition netx_ctl_add :: u64 where "netx_ctl_add = 1"
definition netx_ctl_del :: u64 where "netx_ctl_del = 2"
definition netx_ctl_mod :: u64 where "netx_ctl_mod = 3"

record netx_item =
  ni_hash_next :: ptr
  ni_next :: ptr
  ni_prev :: ptr
  ni_fd :: int
  ni_event :: netx_event

record netx_poll =
  np_magic :: string
  np_max_counts :: nat
  np_counts :: nat
  np_hash_size :: nat
  np_free_list :: ptr
  np_used_list :: ptr
  np_hash_table :: "ptr list"
  np_items :: "netx_item list"

definition netx__pool_magic :: string where "netx__pool_magic = ''ntxp    ''"
definition FD_SETSIZE :: nat where "FD_SETSIZE = 1024"
definition SOCK_DEFAULT :: int where "SOCK_DEFAULT = 0"

definition netx__poll_hash_size :: "nat \<Rightarrow> nat" where
  "netx__poll_hash_size max_counts = push_bit 2 (drop_bit 2 max_counts) + 3"

record netx_polls =
  pl_counts :: nat
  pl_max_counts :: nat
  pl_list :: "netx_poll option list"

definition netx__polls_init :: netx_polls where
  "netx__polls_init = \<lparr>pl_counts = 0, pl_max_counts = 0, pl_list = []\<rparr>"

section \<open>Access to items\<close>

definition item_get :: "ptr \<Rightarrow> netx_poll \<Rightarrow> netx_item option" where
  "item_get p pl = (if 0 < p \<and> p \<le> length (np_items pl) then Some (np_items pl ! (p - 1)) else None)"

definition item_upd :: "ptr \<Rightarrow> (netx_item \<Rightarrow> netx_item) \<Rightarrow> netx_poll \<Rightarrow> netx_poll option" where
  "item_upd p f pl = do {
     it \<leftarrow> item_get p pl;
     Some (pl\<lparr>np_items := (np_items pl)[p - 1 := f it]\<rparr>) }"

text \<open>\<open>item_save_pt\<close> points into the hash table or to the \<open>hash_next\<close> of an item.\<close>

datatype save_pt = Bucket nat | Hash_next ptr

fun save_pt_read :: "save_pt \<Rightarrow> netx_poll \<Rightarrow> ptr option" where
  "save_pt_read (Bucket b) pl = (if b < length (np_hash_table pl) then Some (np_hash_table pl ! b) else None)"
| "save_pt_read (Hash_next p) pl = map_option ni_hash_next (item_get p pl)"

fun save_pt_write :: "save_pt \<Rightarrow> ptr \<Rightarrow> netx_poll \<Rightarrow> netx_poll option" where
  "save_pt_write (Bucket b) v pl = (if b < length (np_hash_table pl)
     then Some (pl\<lparr>np_hash_table := (np_hash_table pl)[b := v]\<rparr>) else None)"
| "save_pt_write (Hash_next p) v pl = item_upd p (\<lambda>it. it\<lparr>ni_hash_next := v\<rparr>) pl"

section \<open>Creation and destruction\<close>

definition netx_item_zero :: netx_item where
  "netx_item_zero = \<lparr>ni_hash_next = NULL, ni_next = NULL, ni_prev = NULL, ni_fd = 0,
     ni_event = \<lparr>ev_events = 0, ev_data = 0\<rparr>\<rparr>"

text \<open>The object after \<open>memset\<close> and the loop that links the free list.\<close>

definition netx_poll_new :: "nat \<Rightarrow> netx_poll" where
  "netx_poll_new max_counts = \<lparr>np_magic = netx__pool_magic, np_max_counts = max_counts,
     np_counts = 0, np_hash_size = netx__poll_hash_size max_counts, np_free_list = 1,
     np_used_list = NULL, np_hash_table = replicate (netx__poll_hash_size max_counts) NULL,
     np_items = map (\<lambda>i. netx_item_zero\<lparr>ni_hash_next := (if i = max_counts - 1 then NULL else i + 2)\<rparr>)
       [0..<max_counts]\<rparr>"

text \<open>\<open>list_ok\<close> and \<open>poll_ok\<close> tell whether the two allocations succeed.\<close>

definition netx_create :: "bool \<Rightarrow> bool \<Rightarrow> u64 \<Rightarrow> netx_polls \<Rightarrow> int \<times> netx_polls" where
  "netx_create list_ok poll_ok max_counts s =
     (if max_counts = 0 then (- 1, s)
      else let max_counts = (if unat max_counts > FD_SETSIZE then FD_SETSIZE else unat max_counts) in
        if pl_counts s \<ge> pl_max_counts s \<and> \<not> list_ok then (- 3, s)
        else let s = (if pl_counts s \<ge> pl_max_counts s
            then s\<lparr>pl_list := pl_list s @ replicate 16 None, pl_max_counts := pl_max_counts s + 16\<rparr>
            else s) in
          (case find (\<lambda>i. pl_list s ! i = None) [0..<pl_max_counts s] of
             None \<Rightarrow> (- 5, s)
           | Some i \<Rightarrow>
               if \<not> poll_ok then (- 4, s)
               else (int i + 1, s\<lparr>pl_list := (pl_list s)[i := Some (netx_poll_new max_counts)],
                 pl_counts := pl_counts s + 1\<rparr>)))"

definition netx_poll_obj :: "int \<Rightarrow> netx_polls \<Rightarrow> netx_poll option" where
  "netx_poll_obj poll s =
     (if 0 < poll \<and> nat poll \<le> pl_max_counts s then pl_list s ! nat (poll - 1) else None)"

definition netx_destroy :: "int \<Rightarrow> netx_polls \<Rightarrow> int \<times> netx_polls" where
  "netx_destroy poll s = (case netx_poll_obj poll s of
     None \<Rightarrow> (- 1, s)
   | Some pl \<Rightarrow>
       if netx__pool_magic \<noteq> np_magic pl \<or> np_max_counts pl < np_counts pl then (- 2, s)
       else let s = s\<lparr>pl_list := (pl_list s)[nat (poll - 1) := None], pl_counts := pl_counts s - 1\<rparr> in
         if pl_counts s = 0 then (0, s\<lparr>pl_list := [], pl_counts := 0, pl_max_counts := 0\<rparr>)
         else (0, s))"

section \<open>Control\<close>

text \<open>The search along a hash chain: the place that points to the item found, and the item or \<open>NULL\<close>.\<close>

partial_function (option) netx_search :: "int \<Rightarrow> save_pt \<Rightarrow> netx_poll \<Rightarrow> (save_pt \<times> ptr) option" where
  "netx_search fd sp pl = do {
     item \<leftarrow> save_pt_read sp pl;
     if item = NULL then Some (sp, NULL)
     else do {
       it \<leftarrow> item_get item pl;
       if fd \<noteq> ni_fd it then netx_search fd (Hash_next item) pl
       else Some (sp, item) } }"

definition netx_ctl_mod_item :: "ptr \<Rightarrow> netx_event \<Rightarrow> netx_poll \<Rightarrow> netx_poll option" where
  "netx_ctl_mod_item item event pl = item_upd item (\<lambda>it. it\<lparr>ni_event := event\<rparr>) pl"

text \<open>The two assignments that take an item off its ring.\<close>

definition unlink_item :: "ptr \<Rightarrow> netx_poll \<Rightarrow> netx_poll option" where
  "unlink_item x pl = do {
     it \<leftarrow> item_get x pl;
     pl \<leftarrow> item_upd (ni_prev it) (\<lambda>y. y\<lparr>ni_next := ni_next it\<rparr>) pl;
     it \<leftarrow> item_get x pl;
     item_upd (ni_next it) (\<lambda>y. y\<lparr>ni_prev := ni_prev it\<rparr>) pl }"

text \<open>Putting an item at the end of the ring, that is, before its first item.\<close>

definition enlink_item :: "ptr \<Rightarrow> netx_poll \<Rightarrow> netx_poll option" where
  "enlink_item item pl = (if np_used_list pl = NULL
     then do {
       pl \<leftarrow> item_upd item (\<lambda>x. x\<lparr>ni_prev := item, ni_next := item\<rparr>) pl;
       Some (pl\<lparr>np_used_list := item\<rparr>) }
     else do {
       pl \<leftarrow> item_upd item (\<lambda>x. x\<lparr>ni_next := np_used_list pl\<rparr>) pl;
       u \<leftarrow> item_get (np_used_list pl) pl;
       pl \<leftarrow> item_upd item (\<lambda>x. x\<lparr>ni_prev := ni_prev u\<rparr>) pl;
       u \<leftarrow> item_get (np_used_list pl) pl;
       pl \<leftarrow> item_upd (ni_prev u) (\<lambda>x. x\<lparr>ni_next := item\<rparr>) pl;
       item_upd (np_used_list pl) (\<lambda>x. x\<lparr>ni_prev := item\<rparr>) pl })"

definition netx_ctl_del_item :: "save_pt \<Rightarrow> ptr \<Rightarrow> netx_poll \<Rightarrow> netx_poll option" where
  "netx_ctl_del_item sp item pl = do {
     pl \<leftarrow> item_upd item (\<lambda>it. it\<lparr>ni_event := (ni_event it)\<lparr>ev_events := 0\<rparr>, ni_fd := 0\<rparr>) pl;
     it \<leftarrow> item_get item pl;
     let used = (if item = np_used_list pl
       then (if item = ni_prev it then NULL else ni_next it) else np_used_list pl);
     pl \<leftarrow> unlink_item item (pl\<lparr>np_used_list := used\<rparr>);
     pl \<leftarrow> item_upd item (\<lambda>x. x\<lparr>ni_prev := NULL, ni_next := NULL\<rparr>) pl;
     it \<leftarrow> item_get item pl;
     pl \<leftarrow> save_pt_write sp (ni_hash_next it) pl;
     pl \<leftarrow> item_upd item (\<lambda>x. x\<lparr>ni_hash_next := np_free_list pl\<rparr>) pl;
     Some (pl\<lparr>np_free_list := item, np_counts := np_counts pl - 1\<rparr>) }"

definition netx_ctl_add_item :: "save_pt \<Rightarrow> int \<Rightarrow> netx_event \<Rightarrow> netx_poll \<Rightarrow> netx_poll option" where
  "netx_ctl_add_item sp fd event pl = do {
     let item = np_free_list pl;
     it \<leftarrow> item_get item pl;
     let pl = pl\<lparr>np_free_list := ni_hash_next it\<rparr>;
     first \<leftarrow> save_pt_read sp pl;
     pl \<leftarrow> item_upd item (\<lambda>x. x\<lparr>ni_hash_next := first\<rparr>) pl;
     pl \<leftarrow> save_pt_write sp item pl;
     pl \<leftarrow> enlink_item item pl;
     pl \<leftarrow> item_upd item (\<lambda>x. x\<lparr>ni_event := event, ni_fd := fd\<rparr>) pl;
     Some (pl\<lparr>np_counts := np_counts pl + 1\<rparr>) }"

definition netx_poll_ctl ::
  "u64 \<Rightarrow> int \<Rightarrow> netx_event option \<Rightarrow> netx_poll \<Rightarrow> (int \<times> netx_poll) option" where
  "netx_poll_ctl operation fd event pl =
     (if fd < 0 \<or> netx_ctl_del \<noteq> operation \<and> event = None then Some (- 1, pl)
      else do {
        guard_opt (np_hash_size pl \<noteq> 0);
        (sp, item) \<leftarrow> netx_search fd (Bucket (nat fd mod np_hash_size pl)) pl;
        if operation = netx_ctl_mod then
          (if item = NULL then Some (- 2, pl)
           else do { e \<leftarrow> event; pl \<leftarrow> netx_ctl_mod_item item e pl; Some (0, pl) })
        else if operation = netx_ctl_del then
          (if item = NULL then Some (- 3, pl)
           else do { pl \<leftarrow> netx_ctl_del_item sp item pl; Some (0, pl) })
        else if operation = netx_ctl_add then
          (if item \<noteq> NULL then Some (- 4, pl)
           else if np_free_list pl = NULL then Some (- 5, pl)
           else do { e \<leftarrow> event; pl \<leftarrow> netx_ctl_add_item sp fd e pl; Some (0, pl) })
        else Some (- 1, pl) })"

definition netx_ctl ::
  "int \<Rightarrow> u64 \<Rightarrow> int \<Rightarrow> netx_event option \<Rightarrow> netx_polls \<Rightarrow> (int \<times> netx_polls) option" where
  "netx_ctl poll operation fd event s = (case netx_poll_obj poll s of
     None \<Rightarrow> Some (- 1, s)
   | Some pl \<Rightarrow> do {
       (r, pl) \<leftarrow> netx_poll_ctl operation fd event pl;
       Some (r, s\<lparr>pl_list := (pl_list s)[nat (poll - 1) := Some pl]\<rparr>) })"

section \<open>Reading a poll object\<close>

definition valid :: "ptr \<Rightarrow> netx_poll \<Rightarrow> bool" where
  "valid p pl \<longleftrightarrow> 0 < p \<and> p \<le> length (np_items pl)"

definition item_at :: "netx_poll \<Rightarrow> ptr \<Rightarrow> netx_item" where
  "item_at pl p = np_items pl ! (p - 1)"

definition item_put :: "ptr \<Rightarrow> (netx_item \<Rightarrow> netx_item) \<Rightarrow> netx_poll \<Rightarrow> netx_poll" where
  "item_put p f pl = pl\<lparr>np_items := (np_items pl)[p - 1 := f (item_at pl p)]\<rparr>"

lemma item_get_at: "item_get p pl = (if valid p pl then Some (item_at pl p) else None)"
  by (simp add: item_get_def valid_def item_at_def)

lemma item_upd_put: "item_upd p f pl = (if valid p pl then Some (item_put p f pl) else None)"
  by (simp add: item_upd_def item_get_at item_put_def)

lemma item_put_simps [simp]:
  "np_magic (item_put p f pl) = np_magic pl" "np_max_counts (item_put p f pl) = np_max_counts pl"
  "np_counts (item_put p f pl) = np_counts pl" "np_hash_size (item_put p f pl) = np_hash_size pl"
  "np_free_list (item_put p f pl) = np_free_list pl" "np_used_list (item_put p f pl) = np_used_list pl"
  "np_hash_table (item_put p f pl) = np_hash_table pl"
  "length (np_items (item_put p f pl)) = length (np_items pl)" "valid q (item_put p f pl) = valid q pl"
  by (simp_all add: item_put_def valid_def)

lemma item_at_put [simp]:
  "valid p pl \<Longrightarrow> valid q pl \<Longrightarrow> item_at (item_put p f pl) q = (if q = p then f (item_at pl p) else item_at pl q)"
  by (auto simp: item_put_def item_at_def valid_def nth_list_update)

lemma valid_upd [simp]:
  "valid p (pl\<lparr>np_free_list := a\<rparr>) = valid p pl" "valid p (pl\<lparr>np_used_list := a\<rparr>) = valid p pl"
  "valid p (pl\<lparr>np_counts := c\<rparr>) = valid p pl" "valid p (pl\<lparr>np_hash_table := b\<rparr>) = valid p pl"
  "item_at (pl\<lparr>np_free_list := a\<rparr>) p = item_at pl p" "item_at (pl\<lparr>np_used_list := a\<rparr>) p = item_at pl p"
  "item_at (pl\<lparr>np_counts := c\<rparr>) p = item_at pl p" "item_at (pl\<lparr>np_hash_table := b\<rparr>) p = item_at pl p"
  by (simp_all add: valid_def item_at_def)

lemma valid_NULL [simp]: "\<not> valid 0 pl"
  by (simp add: valid_def)

text \<open>The ring pointers as a heap of list nodes.\<close>

definition links :: "netx_poll \<Rightarrow> mheap" where
  "links pl = (\<lambda>p. if valid p pl then Some \<lparr>m_prev = ni_prev (item_at pl p), m_next = ni_next (item_at pl p)\<rparr>
     else None)"

lemma links_read:
  "get_next p (links pl) = (if valid p pl then Some (ni_next (item_at pl p)) else None)"
  "get_prev p (links pl) = (if valid p pl then Some (ni_prev (item_at pl p)) else None)"
  "(links pl p \<noteq> None) = valid p pl"
  by (simp_all add: get_next_def get_prev_def links_def)

lemma links_write:
  "valid p pl \<Longrightarrow> set_next p v (links pl) = Some (links (item_put p (ni_next_update (\<lambda>_. v)) pl))"
  "valid p pl \<Longrightarrow> set_prev p v (links pl) = Some (links (item_put p (ni_prev_update (\<lambda>_. v)) pl))"
  by (auto simp: set_next_def set_prev_def links_def fun_eq_iff)

lemma links_cong:
  "(\<And>p. valid p pl' = valid p pl) \<Longrightarrow>
   (\<And>p. valid p pl \<Longrightarrow> ni_prev (item_at pl' p) = ni_prev (item_at pl p) \<and> ni_next (item_at pl' p) = ni_next (item_at pl p))
   \<Longrightarrow> links pl' = links pl"
  by (auto simp: links_def)

definition ring_ok :: "netx_poll \<Rightarrow> ptr list \<Rightarrow> bool" where
  "ring_ok pl us \<longleftrightarrow> (case us of [] \<Rightarrow> np_used_list pl = NULL
     | h # t \<Rightarrow> np_used_list pl = h \<and> mring (links pl) h t)"

text \<open>The items of a chain of \<open>hash_next\<close> pointers.\<close>

fun hchain :: "netx_poll \<Rightarrow> ptr \<Rightarrow> ptr list \<Rightarrow> bool" where
  "hchain pl p [] \<longleftrightarrow> p = NULL"
| "hchain pl p (x # xs) \<longleftrightarrow> p = x \<and> valid x pl \<and> hchain pl (ni_hash_next (item_at pl x)) xs"

lemma hchain_cong:
  "hchain pl p xs \<Longrightarrow> (\<And>x. x \<in> set xs \<Longrightarrow> valid x pl' = valid x pl \<and>
     (valid x pl \<longrightarrow> ni_hash_next (item_at pl' x) = ni_hash_next (item_at pl x))) \<Longrightarrow> hchain pl' p xs"
  by (induction xs arbitrary: p) auto

lemma hchain_valid: "hchain pl p xs \<Longrightarrow> x \<in> set xs \<Longrightarrow> valid x pl"
  by (induction xs arbitrary: p) auto

lemma hchain_tail: "hchain pl p (xs @ x # ys) \<Longrightarrow> hchain pl (ni_hash_next (item_at pl x)) ys"
  by (induction xs arbitrary: p) auto

lemma hchain_hd: "hchain pl p xs \<Longrightarrow> p = (case xs of [] \<Rightarrow> NULL | x # _ \<Rightarrow> x)"
  by (cases xs) auto

definition fd_of :: "netx_poll \<Rightarrow> ptr \<Rightarrow> int" where
  "fd_of pl p = ni_fd (item_at pl p)"

text \<open>The place in a chain behind its items \<open>xs\<close>.\<close>

definition behind :: "save_pt \<Rightarrow> ptr list \<Rightarrow> save_pt" where
  "behind sp xs = (if xs = [] then sp else Hash_next (last xs))"

lemma behind_Cons [simp]: "behind sp (x # xs) = behind (Hash_next x) xs"
  by (simp add: behind_def)

lemma behind_Nil [simp]: "behind sp [] = sp"
  by (simp add: behind_def)

lemma netx_search_none:
  assumes "save_pt_read sp pl = Some p" "hchain pl p xs" "\<forall>x \<in> set xs. fd_of pl x \<noteq> fd"
  shows "netx_search fd sp pl = Some (behind sp xs, NULL)"
  using assms
proof (induction xs arbitrary: sp p)
  case Nil
  then show ?case by (simp add: netx_search.simps)
next
  case (Cons x xs)
  then have x: "valid x pl" "x \<noteq> NULL" "p = x" by (auto simp: valid_def)
  have "netx_search fd (Hash_next x) pl = Some (behind (Hash_next x) xs, NULL)"
    using Cons x by (intro Cons.IH) (auto simp: item_get_at)
  then show ?case using Cons.prems x
    by (simp add: netx_search.simps [of fd sp] item_get_at fd_of_def)
qed

lemma netx_search_found:
  assumes "save_pt_read sp pl = Some p" "hchain pl p (xs @ x # ys)" "\<forall>z \<in> set xs. fd_of pl z \<noteq> fd"
    "fd_of pl x = fd"
  shows "netx_search fd sp pl = Some (behind sp xs, x)"
  using assms
proof (induction xs arbitrary: sp p)
  case Nil
  then show ?case by (auto simp: netx_search.simps [of fd sp] item_get_at fd_of_def valid_def)
next
  case (Cons z zs)
  then have z: "valid z pl" "z \<noteq> NULL" "p = z" by (auto simp: valid_def)
  have "netx_search fd (Hash_next z) pl = Some (behind (Hash_next z) zs, x)"
    using Cons z by (intro Cons.IH) (auto simp: item_get_at)
  then show ?case using Cons.prems z
    by (simp add: netx_search.simps [of fd sp] item_get_at fd_of_def)
qed

section \<open>The invariant\<close>

definition poll_inv :: "netx_poll \<Rightarrow> ptr list \<Rightarrow> ptr list \<Rightarrow> (nat \<Rightarrow> ptr list) \<Rightarrow> bool" where
  "poll_inv pl us fs ch \<longleftrightarrow>
     np_magic pl = netx__pool_magic \<and> length (np_items pl) = np_max_counts pl
     \<and> length (np_hash_table pl) = np_hash_size pl \<and> 0 < np_hash_size pl
     \<and> distinct (us @ fs) \<and> set us \<union> set fs = {1..np_max_counts pl} \<and> np_counts pl = length us
     \<and> ring_ok pl us \<and> hchain pl (np_free_list pl) fs
     \<and> (\<forall>b < np_hash_size pl. hchain pl (np_hash_table pl ! b) (ch b) \<and> distinct (ch b)
         \<and> set (ch b) = {p \<in> set us. nat (fd_of pl p) mod np_hash_size pl = b})
     \<and> (\<forall>p \<in> set us. 0 \<le> fd_of pl p) \<and> inj_on (fd_of pl) (set us)"

lemma poll_invD:
  assumes "poll_inv pl us fs ch"
  shows "np_magic pl = netx__pool_magic" "length (np_items pl) = np_max_counts pl"
    "length (np_hash_table pl) = np_hash_size pl" "0 < np_hash_size pl"
    "distinct us" "distinct fs" "set us \<inter> set fs = {}" "set us \<union> set fs = {1..np_max_counts pl}"
    "np_counts pl = length us" "ring_ok pl us" "hchain pl (np_free_list pl) fs"
    "\<And>b. b < np_hash_size pl \<Longrightarrow> hchain pl (np_hash_table pl ! b) (ch b)"
    "\<And>b. b < np_hash_size pl \<Longrightarrow> distinct (ch b)"
    "\<And>b. b < np_hash_size pl \<Longrightarrow> set (ch b) = {p \<in> set us. nat (fd_of pl p) mod np_hash_size pl = b}"
    "\<And>p. p \<in> set us \<Longrightarrow> 0 \<le> fd_of pl p" "inj_on (fd_of pl) (set us)"
    "\<And>p. p \<in> set us \<union> set fs \<Longrightarrow> valid p pl"
proof -
  have *: "set us \<union> set fs = {1..np_max_counts pl}" "length (np_items pl) = np_max_counts pl"
    using assms by (simp_all add: poll_inv_def)
  show "valid p pl" if "p \<in> set us \<union> set fs" for p
    using that unfolding * valid_def by simp
qed (use assms in \<open>auto simp: poll_inv_def\<close>)

text \<open>The bucket of a descriptor: either it is not there, or its chain splits at its item.\<close>

lemma search_cases:
  assumes inv: "poll_inv pl us fs ch" and fd: "0 \<le> fd" and b: "b = nat fd mod np_hash_size pl"
  obtains (absent) "netx_search fd (Bucket b) pl = Some (behind (Bucket b) (ch b), NULL)"
      "\<forall>p \<in> set us. fd_of pl p \<noteq> fd"
    | (present) xs x ys where "ch b = xs @ x # ys" "netx_search fd (Bucket b) pl = Some (behind (Bucket b) xs, x)"
      "x \<in> set us" "fd_of pl x = fd"
proof -
  note D = poll_invD [OF inv]
  have lt: "b < np_hash_size pl" using D(4) b by simp
  have read: "save_pt_read (Bucket b) pl = Some (np_hash_table pl ! b)" using lt D(3) by simp
  have chb: "set (ch b) = {p \<in> set us. nat (fd_of pl p) mod np_hash_size pl = b}" by (rule D(14) [OF lt])
  show thesis
  proof (cases "\<exists>x \<in> set (ch b). fd_of pl x = fd")
    case True
    from split_list_first_prop [OF this]
    obtain xs x ys where x: "ch b = xs @ x # ys" "fd_of pl x = fd" "\<forall>z \<in> set xs. fd_of pl z \<noteq> fd"
      by blast
    have "hchain pl (np_hash_table pl ! b) (xs @ x # ys)" using D(12) [OF lt] x(1) by simp
    from netx_search_found [OF read this x(3,2)]
    have "netx_search fd (Bucket b) pl = Some (behind (Bucket b) xs, x)" .
    moreover have "x \<in> set us" using x(1) chb by auto
    ultimately show thesis using present x(1,2) by blast
  next
    case False
    then have "\<forall>p \<in> set us. fd_of pl p \<noteq> fd" using chb b by auto
    moreover have "netx_search fd (Bucket b) pl = Some (behind (Bucket b) (ch b), NULL)"
      by (rule netx_search_none [OF read D(12) [OF lt]]) (use False in blast)
    ultimately show thesis using absent by blast
  qed
qed

section \<open>Steps of the control operations\<close>

text \<open>Two objects that differ in ring pointers only.\<close>

definition same_data :: "netx_poll \<Rightarrow> netx_poll \<Rightarrow> bool" where
  "same_data pl' pl \<longleftrightarrow> np_magic pl' = np_magic pl \<and> np_max_counts pl' = np_max_counts pl
     \<and> np_counts pl' = np_counts pl \<and> np_hash_size pl' = np_hash_size pl
     \<and> np_free_list pl' = np_free_list pl \<and> np_hash_table pl' = np_hash_table pl
     \<and> length (np_items pl') = length (np_items pl)
     \<and> (\<forall>p. valid p pl \<longrightarrow> ni_hash_next (item_at pl' p) = ni_hash_next (item_at pl p)
         \<and> ni_fd (item_at pl' p) = ni_fd (item_at pl p) \<and> ni_event (item_at pl' p) = ni_event (item_at pl p))"

lemma same_data_refl: "same_data pl pl"
  by (simp add: same_data_def)

lemma same_data_trans:
  "same_data c b \<Longrightarrow> same_data b a \<Longrightarrow> same_data c a"
  by (simp add: same_data_def valid_def)

lemma same_data_valid: "same_data pl' pl \<Longrightarrow> valid p pl' = valid p pl"
  by (simp add: same_data_def valid_def)

lemma same_data_put:
  "valid p pl \<Longrightarrow> (\<And>it. ni_hash_next (f it) = ni_hash_next it \<and> ni_fd (f it) = ni_fd it \<and> ni_event (f it) = ni_event it)
   \<Longrightarrow> same_data (item_put p f pl) pl"
  by (simp add: same_data_def)

lemma same_data_used: "same_data (pl\<lparr>np_used_list := a\<rparr>) pl"
  by (simp add: same_data_def)

lemma links_write_iff:
  "set_next p v (links pl) = (if valid p pl then Some (links (item_put p (ni_next_update (\<lambda>_. v)) pl)) else None)"
  "set_prev p v (links pl) = (if valid p pl then Some (links (item_put p (ni_prev_update (\<lambda>_. v)) pl)) else None)"
  using links_write by (auto simp: set_next_def set_prev_def links_def)

lemma unlink_links:
  assumes "valid x pl" and "mlist_unlink x (links pl) = Some h'"
  shows "\<exists>pl'. unlink_item x pl = Some pl' \<and> links pl' = h' \<and> same_data pl' pl
    \<and> np_used_list pl' = np_used_list pl"
proof -
  let ?p = "ni_prev (item_at pl x)" and ?n = "ni_next (item_at pl x)"
  let ?pl1 = "item_put ?p (ni_next_update (\<lambda>_. ?n)) pl"
  let ?n1 = "ni_next (item_at ?pl1 x)" and ?p1 = "ni_prev (item_at ?pl1 x)"
  let ?pl2 = "item_put ?n1 (ni_prev_update (\<lambda>_. ?p1)) ?pl1"
  have p: "valid ?p pl" and h: "valid ?n1 pl" "links ?pl2 = h'"
    using assms by (auto simp: mlist_unlink_def links_read links_write_iff split: if_splits)
  have "same_data ?pl1 pl" "same_data ?pl2 ?pl1"
    using p h(1) by (simp_all add: same_data_put)
  then have "same_data ?pl2 pl" by (rule same_data_trans [rotated])
  moreover have "unlink_item x pl = Some ?pl2"
    using assms(1) p h(1) by (simp add: unlink_item_def item_get_at item_upd_put)
  ultimately show ?thesis using h(2) by auto
qed

lemma links_used [simp]: "links (pl\<lparr>np_used_list := a\<rparr>) = links pl"
  by (rule links_cong) simp_all

lemma ring_unlink:
  assumes ring: "ring_ok pl (xs @ x # ys)" and v: "valid x pl"
  defines "used \<equiv> (if x = np_used_list pl
      then (if x = ni_prev (item_at pl x) then NULL else ni_next (item_at pl x)) else np_used_list pl)"
  shows "\<exists>pl'. unlink_item x (pl\<lparr>np_used_list := used\<rparr>) = Some pl' \<and> ring_ok pl' (xs @ ys) \<and> same_data pl' pl"
proof -
  have run: "\<exists>pl'. unlink_item x (pl\<lparr>np_used_list := used\<rparr>) = Some pl' \<and> links pl' = h' \<and> same_data pl' pl
      \<and> np_used_list pl' = used" if "mlist_unlink x (links pl) = Some h'" for h'
    using unlink_links [of x "pl\<lparr>np_used_list := used\<rparr>" h'] that v same_data_trans [OF _ same_data_used]
    by fastforce
  show ?thesis
  proof (cases xs)
    case Nil
    then have ring': "np_used_list pl = x" "mring (links pl) x ys" using ring by (simp_all add: ring_ok_def)
    show ?thesis
    proof (cases ys)
      case Nil
      then have "ni_prev (item_at pl x) = x" "ni_next (item_at pl x) = x"
        using ring' v by (simp_all add: links_read)
      then have "used = NULL" "mlist_unlink x (links pl) \<noteq> None"
        using ring' v by (simp_all add: used_def mlist_unlink_def links_read links_write_iff)
      with run Nil \<open>xs = []\<close> show ?thesis by (fastforce simp: ring_ok_def)
    next
      case (Cons y zs)
      have "mring (links pl) y (zs @ x # [])"
        using ring'(2) Cons mring_rotate [of "links pl" x "[]" y zs] by simp
      from mlist_unlink_ring [OF this] obtain h' where h': "mlist_unlink x (links pl) = Some h'"
        "mring h' y zs" by auto
      have "get_prev x (links pl) = Some (last ys)" "get_next x (links pl) = Some y"
        using mring_get_prev [OF ring'(2)] mring_get_next [OF ring'(2)] Cons by simp_all
      then have "ni_prev (item_at pl x) = last ys" "ni_next (item_at pl x) = y"
        using v by (simp_all add: links_read)
      moreover have "x \<notin> set ys" using ring'(2) by (auto simp: mring_def)
      ultimately have "used = y" using ring'(1) Cons by (auto simp: used_def)
      with run [OF h'(1)] h'(2) Cons \<open>xs = []\<close> show ?thesis by (auto simp: ring_ok_def)
    qed
  next
    case (Cons h t)
    then have ring': "np_used_list pl = h" "mring (links pl) h (t @ x # ys)"
      using ring by (simp_all add: ring_ok_def)
    from mlist_unlink_ring [OF ring'(2)] obtain h' where h': "mlist_unlink x (links pl) = Some h'"
      "mring h' h (t @ ys)" by blast
    have "used = h" using ring' by (auto simp: used_def mring_def)
    with run [OF h'(1)] h'(2) Cons show ?thesis by (auto simp: ring_ok_def)
  qed
qed

lemma set_next_prev_comm:
  "Option.bind (set_next p v h) (set_prev q w) = Option.bind (set_prev q w h) (set_next p v)"
  by (cases "h p"; cases "h q") (auto simp: set_next_def set_prev_def fun_upd_twist)

lemma mring_last_next: "mring h head xs \<Longrightarrow> get_next (last (head # xs)) h = Some head"
  by (cases xs rule: rev_cases) (auto simp: mring_def mseg_append)

lemma ring_enlink:
  assumes ring: "ring_ok pl us" and x: "valid x pl" "x \<notin> set us"
  shows "\<exists>pl'. enlink_item x pl = Some pl' \<and> ring_ok pl' (us @ [x]) \<and> same_data pl' pl"
proof (cases us)
  case Nil
  let ?pl1 = "item_put x (\<lambda>y. y\<lparr>ni_prev := x, ni_next := x\<rparr>) pl"
  let ?pl = "?pl1\<lparr>np_used_list := x\<rparr>"
  have "enlink_item x pl = Some ?pl"
    using ring Nil x by (simp add: enlink_item_def ring_ok_def item_upd_put)
  moreover have "ring_ok ?pl (us @ [x])"
    using Nil x by (simp add: ring_ok_def links_read)
  moreover have "same_data ?pl pl"
    by (rule same_data_trans [OF same_data_used]) (use x in \<open>simp add: same_data_put\<close>)
  ultimately show ?thesis by blast
next
  case (Cons h t)
  let ?L = "links pl"
  have ring': "np_used_list pl = h" "mring ?L h t" using ring Cons by (simp_all add: ring_ok_def)
  define p where "p = last (h # t)"
  have pin: "p \<in> set (h # t)" unfolding p_def by (rule last_in_set) simp
  have v: "valid q pl" if "q \<in> set (h # t)" for q
    using mring_dom [OF ring'(2) that] by (simp only: links_read(3))
  have h: "valid h pl" "h \<noteq> x" "h \<noteq> NULL" and p: "valid p pl" "p \<noteq> x"
    using v [of h] v [OF pin] pin x Cons by (auto simp: valid_def)
  have np: "ni_prev (item_at pl h) = p" "ni_next (item_at pl p) = h"
    using mring_get_prev [OF ring'(2)] mring_last_next [OF ring'(2)] h p
    unfolding p_def [symmetric] by (simp_all add: links_read)
  let ?A = "item_put x (ni_next_update (\<lambda>_. h)) pl"
  let ?B = "item_put x (ni_prev_update (\<lambda>_. p)) ?A"
  let ?C = "item_put p (ni_next_update (\<lambda>_. x)) ?B"
  let ?D = "item_put h (ni_prev_update (\<lambda>_. x)) ?C"
  let ?B1 = "item_put x (ni_prev_update (\<lambda>_. p)) pl"
  have run: "enlink_item x pl = Some ?D"
    using ring'(1) h p x np by (simp add: enlink_item_def item_get_at item_upd_put)
  have s2: "set_next x h (links ?B1) = Some (links ?B)"
    using set_next_prev_comm [of x h ?L x p] x(1) by (simp add: links_write)
  obtain C1 where s3: "set_prev h x (links ?B) = Some C1" and s4: "set_next p x C1 = Some (links ?D)"
    using set_next_prev_comm [of p x "links ?B" h x] h(1) p(1) by (simp add: links_write)
  have "get_prev h ?L = Some p" using h np by (simp add: links_read)
  moreover have "get_next p (links ?B1) = Some h" "get_next p (links ?B) = Some h"
    using p np x by (simp_all add: links_read)
  ultimately have "mlist_add_tail h x ?L = Some (links ?D)"
    using s2 s3 s4 x(1) by (simp add: mlist_add_tail_def mlist_add_between_def links_write)
  moreover have "links pl x \<noteq> None" "x \<notin> set (h # t)" using x Cons by (simp_all only: links_read(3) simp_thms)
  then obtain h' where "mlist_add_tail h x ?L = Some h'" "mring h' h (t @ [x])"
    using mlist_add_tail_ring [of ?L h t x] ring'(2) by blast
  ultimately have "ring_ok ?D (us @ [x])" using ring'(1) Cons by (simp add: ring_ok_def)
  moreover have "same_data ?D pl"
  proof -
    have "same_data ?A pl" "same_data ?B ?A" "same_data ?C ?B" "same_data ?D ?C"
      using x h p by (simp_all add: same_data_put)
    then show ?thesis by (meson same_data_trans)
  qed
  ultimately show ?thesis using run by blast
qed

text \<open>Two objects that differ in hash pointers only.\<close>

definition same_ring :: "netx_poll \<Rightarrow> netx_poll \<Rightarrow> bool" where
  "same_ring pl' pl \<longleftrightarrow> np_magic pl' = np_magic pl \<and> np_max_counts pl' = np_max_counts pl
     \<and> np_counts pl' = np_counts pl \<and> np_hash_size pl' = np_hash_size pl
     \<and> np_free_list pl' = np_free_list pl \<and> np_used_list pl' = np_used_list pl
     \<and> length (np_hash_table pl') = length (np_hash_table pl)
     \<and> length (np_items pl') = length (np_items pl)
     \<and> (\<forall>p. valid p pl \<longrightarrow> ni_next (item_at pl' p) = ni_next (item_at pl p)
         \<and> ni_prev (item_at pl' p) = ni_prev (item_at pl p)
         \<and> ni_fd (item_at pl' p) = ni_fd (item_at pl p) \<and> ni_event (item_at pl' p) = ni_event (item_at pl p))"

lemma same_ring_valid: "same_ring pl' pl \<Longrightarrow> valid p pl' = valid p pl"
  by (simp add: same_ring_def valid_def)

lemma same_ring_links: "same_ring pl' pl \<Longrightarrow> links pl' = links pl"
  by (rule links_cong) (simp_all add: same_ring_valid, simp add: same_ring_def)

lemma same_ring_ok: "same_ring pl' pl \<Longrightarrow> ring_ok pl' us = ring_ok pl us"
  by (cases us) (simp_all add: ring_ok_def same_ring_links, simp_all add: same_ring_def)

lemma hchain_snoc_write:
  assumes "hchain pl p (xs @ [z] @ rest)" "hchain pl v zs" "distinct (xs @ [z])" "set (xs @ [z]) \<inter> set zs = {}"
  shows "hchain (item_put z (ni_hash_next_update (\<lambda>_. v)) pl) p (xs @ [z] @ zs)"
  using assms
proof (induction xs arbitrary: p)
  case Nil
  then have z: "valid z pl" "z \<notin> set zs" "p = z" by simp_all
  have "hchain (item_put z (ni_hash_next_update (\<lambda>_. v)) pl) v zs"
  proof (rule hchain_cong [OF Nil(2)])
    fix x assume "x \<in> set zs"
    then have "valid x pl" "x \<noteq> z" using hchain_valid [OF Nil(2)] z(2) by auto
    then show "valid x (item_put z (ni_hash_next_update (\<lambda>_. v)) pl) = valid x pl
      \<and> (valid x pl \<longrightarrow> ni_hash_next (item_at (item_put z (ni_hash_next_update (\<lambda>_. v)) pl) x)
        = ni_hash_next (item_at pl x))" using z(1) by simp
  qed
  with z show ?case by simp
next
  case (Cons x xs)
  have "z \<in> set ((x # xs) @ [z] @ rest)" by simp
  then have "valid z pl" using hchain_valid [OF Cons.prems(1)] by blast
  moreover have "hchain (item_put z (ni_hash_next_update (\<lambda>_. v)) pl) (ni_hash_next (item_at pl x)) (xs @ [z] @ zs)"
    using Cons.prems by (intro Cons.IH) auto
  ultimately show ?case using Cons.prems by auto
qed

text \<open>A write behind the items \<open>xs\<close> of a bucket changes what follows them, and nothing else.\<close>

lemma chain_write:
  assumes b: "b < length (np_hash_table pl)" and c: "hchain pl (np_hash_table pl ! b) (xs @ rest)"
    and v: "hchain pl v zs" "distinct xs" "set xs \<inter> set zs = {}"
  shows "\<exists>pl'. save_pt_write (behind (Bucket b) xs) v pl = Some pl' \<and> same_ring pl' pl
    \<and> hchain pl' (np_hash_table pl' ! b) (xs @ zs)
    \<and> (\<forall>c. c \<noteq> b \<longrightarrow> np_hash_table pl' ! c = np_hash_table pl ! c)
    \<and> (\<forall>p. valid p pl \<and> p \<notin> set xs \<longrightarrow> ni_hash_next (item_at pl' p) = ni_hash_next (item_at pl p))"
proof (cases xs rule: rev_cases)
  case Nil
  let ?pl = "pl\<lparr>np_hash_table := (np_hash_table pl)[b := v]\<rparr>"
  have "hchain ?pl v zs" by (rule hchain_cong [OF v(1)]) simp
  with Nil b show ?thesis by (simp add: same_ring_def)
next
  case (snoc ys z)
  let ?pl = "item_put z (ni_hash_next_update (\<lambda>_. v)) pl"
  have "z \<in> set (xs @ rest)" using snoc by simp
  then have z: "valid z pl" using hchain_valid [OF c] by blast
  have "save_pt_write (behind (Bucket b) xs) v pl = Some ?pl"
    using z snoc by (simp add: behind_def item_upd_put)
  moreover have "hchain ?pl (np_hash_table ?pl ! b) (xs @ zs)"
    using hchain_snoc_write [of pl "np_hash_table pl ! b" ys z rest v zs] c v snoc by simp
  ultimately show ?thesis using z snoc by (auto simp: same_ring_def)
qed

section \<open>The control operations keep the invariant\<close>

text \<open>What an operation leaves alone, on the items \<open>ps\<close>.\<close>

definition same_items :: "ptr set \<Rightarrow> netx_poll \<Rightarrow> netx_poll \<Rightarrow> bool" where
  "same_items ps pl' pl \<longleftrightarrow> (\<forall>p \<in> ps. ni_fd (item_at pl' p) = ni_fd (item_at pl p)
     \<and> ni_event (item_at pl' p) = ni_event (item_at pl p))"

lemma bucket_disjoint:
  assumes "poll_inv pl us fs ch" "b < np_hash_size pl" "c < np_hash_size pl" "b \<noteq> c"
  shows "set (ch b) \<inter> set (ch c) = {}" "set (ch b) \<subseteq> set us"
  using poll_invD(14) [OF assms(1,2)] poll_invD(14) [OF assms(1,3)] assms(4) by auto

lemma ring_ok_put_other:
  assumes "ring_ok pl us" "x \<notin> set us" "valid x pl"
  shows "ring_ok (item_put x f pl) us"
proof (cases us)
  case (Cons h t)
  have "mring (links (item_put x f pl)) h t"
    by (rule mring_cong [of "links pl"]) (use assms Cons in \<open>auto simp: ring_ok_def links_def\<close>)
  with assms(1) Cons show ?thesis by (simp add: ring_ok_def)
qed (use assms in \<open>simp add: ring_ok_def\<close>)

lemma ring_ok_cong:
  "links pl' = links pl \<Longrightarrow> np_used_list pl' = np_used_list pl \<Longrightarrow> ring_ok pl' us = ring_ok pl us"
  by (cases us) (simp_all add: ring_ok_def)

lemma inj_on_same: "(\<And>p. p \<in> A \<Longrightarrow> f p = g p) \<Longrightarrow> inj_on g A \<Longrightarrow> inj_on f A"
  by (simp add: inj_on_def)

lemma ctl_del_ok:
  assumes inv: "poll_inv pl us fs ch" and b: "b < np_hash_size pl" and chb: "ch b = xs @ x # ys"
  shows "\<exists>pl' us'. netx_ctl_del_item (behind (Bucket b) xs) x pl = Some pl'
    \<and> poll_inv pl' us' (x # fs) (ch(b := xs @ ys)) \<and> set us' = set us - {x}
    \<and> same_items (set us') pl' pl \<and> np_max_counts pl' = np_max_counts pl \<and> np_hash_size pl' = np_hash_size pl"
proof -
  note D = poll_invD [OF inv]
  have xus: "x \<in> set us" and xsus: "set (xs @ ys) \<subseteq> set us - {x}" and dc: "distinct (xs @ x # ys)"
    using D(14) [OF b] D(13) [OF b] chb by auto
  then obtain as bs where us: "us = as @ x # bs" by (auto simp: in_set_conv_decomp)
  have x: "valid x pl" using D(17) xus by blast
  let ?us = "as @ bs"
  have us': "set ?us = set us - {x}" using D(5) us by auto
  define pl0 where "pl0 = item_put x (\<lambda>it. it\<lparr>ni_event := (ni_event it)\<lparr>ev_events := 0\<rparr>, ni_fd := 0\<rparr>) pl"
  define used where "used = (if x = np_used_list pl0
      then (if x = ni_prev (item_at pl0 x) then NULL else ni_next (item_at pl0 x)) else np_used_list pl0)"
  have l0: "links pl0 = links pl" by (rule links_cong) (use x in \<open>simp_all add: pl0_def\<close>)
  have r0: "ring_ok pl0 (as @ x # bs)" using ring_ok_cong [OF l0] D(10) us by (simp add: pl0_def)
  have v0: "valid x pl0" using x by (simp add: pl0_def)
  obtain pl1 where pl1: "unlink_item x (pl0\<lparr>np_used_list := used\<rparr>) = Some pl1" "ring_ok pl1 ?us"
    "same_data pl1 pl0"
    using ring_unlink [OF r0 v0] unfolding used_def by blast
  have v1: "valid p pl1 = valid p pl" for p using same_data_valid [OF pl1(3)] by (simp add: pl0_def)
  let ?pl2 = "item_put x (\<lambda>x. x\<lparr>ni_prev := NULL, ni_next := NULL\<rparr>) pl1"
  have r2: "ring_ok ?pl2 ?us" by (rule ring_ok_put_other) (use pl1 v1 x us' in auto)
  have same2: "np_magic ?pl2 = np_magic pl" "np_max_counts ?pl2 = np_max_counts pl"
    "np_counts ?pl2 = np_counts pl" "np_hash_size ?pl2 = np_hash_size pl"
    "np_free_list ?pl2 = np_free_list pl" "np_hash_table ?pl2 = np_hash_table pl"
    "length (np_items ?pl2) = length (np_items pl)"
    using pl1(3) by (simp_all add: same_data_def pl0_def)
  have hn2: "ni_hash_next (item_at ?pl2 p) = ni_hash_next (item_at pl p)"
    and it2: "p \<noteq> x \<Longrightarrow> ni_fd (item_at ?pl2 p) = ni_fd (item_at pl p)
      \<and> ni_event (item_at ?pl2 p) = ni_event (item_at pl p)" if "valid p pl" for p
    using that pl1(3) v1 x by (auto simp: same_data_def pl0_def)
  have hc2: "hchain pl p zs \<Longrightarrow> hchain ?pl2 p zs" for p zs
    by (erule hchain_cong) (simp add: v1 hn2)
  let ?v = "ni_hash_next (item_at ?pl2 x)"
  have cb: "hchain pl (np_hash_table pl ! b) (xs @ x # ys)" using D(12) [OF b] chb by simp
  have vy: "hchain pl (ni_hash_next (item_at pl x)) ys"
    by (rule hchain_tail [OF cb])
  obtain pl3 where pl3: "save_pt_write (behind (Bucket b) xs) ?v ?pl2 = Some pl3" "same_ring pl3 ?pl2"
    "hchain pl3 (np_hash_table pl3 ! b) (xs @ ys)"
    "\<And>c. c \<noteq> b \<Longrightarrow> np_hash_table pl3 ! c = np_hash_table ?pl2 ! c"
    "\<And>p. valid p ?pl2 \<Longrightarrow> p \<notin> set xs \<Longrightarrow> ni_hash_next (item_at pl3 p) = ni_hash_next (item_at ?pl2 p)"
    using chain_write [of b ?pl2 xs "x # ys" ?v ys] D(3) b same2 hc2 [OF cb] hc2 [OF vy] hn2 [OF x] dc
    by auto
  have v3: "valid p pl3 = valid p pl" for p using same_ring_valid [OF pl3(2)] v1 by simp
  have r3: "ring_ok pl3 ?us" using same_ring_ok [OF pl3(2)] r2 by simp
  let ?pl4 = "item_put x (ni_hash_next_update (\<lambda>_. np_free_list pl3)) pl3"
  let ?pl5 = "?pl4\<lparr>np_free_list := x, np_counts := np_counts ?pl4 - 1\<rparr>"
  have run: "netx_ctl_del_item (behind (Bucket b) xs) x pl = Some ?pl5"
    using x v1 v3 pl1(1) pl3(1)
    by (simp add: netx_ctl_del_item_def item_upd_put item_get_at Let_def pl0_def [symmetric]
        used_def [symmetric] v0)
  have same5: "np_magic ?pl5 = np_magic pl" "np_max_counts ?pl5 = np_max_counts pl"
    "np_counts ?pl5 = np_counts pl - 1" "np_hash_size ?pl5 = np_hash_size pl"
    "length (np_items ?pl5) = length (np_items pl)" "length (np_hash_table ?pl5) = length (np_hash_table pl)"
    "np_free_list pl3 = np_free_list pl" "np_hash_table ?pl5 = np_hash_table pl3"
    using same2 pl3(2) by (simp_all add: same_ring_def)
  have v5: "valid p ?pl5 = valid p pl" for p by (simp add: v3)
  have it5: "fd_of ?pl5 p = fd_of pl p \<and> ni_event (item_at ?pl5 p) = ni_event (item_at pl p)"
    if "valid p pl" "p \<noteq> x" for p
    using that it2 [OF that(1,2)] pl3(2) v1 v3 x by (simp add: same_ring_def fd_of_def)
  have hn5: "ni_hash_next (item_at ?pl5 p) = ni_hash_next (item_at pl p)"
    if "valid p pl" "p \<noteq> x" "p \<notin> set xs" for p
    using that pl3(5) [of p] hn2 [OF that(1)] v1 v3 x by simp
  have r5: "ring_ok ?pl5 ?us"
  proof -
    have "ring_ok ?pl4 ?us" by (rule ring_ok_put_other) (use r3 v3 x us' in auto)
    moreover have "links ?pl5 = links ?pl4" by (rule links_cong) simp_all
    ultimately show ?thesis using ring_ok_cong [of ?pl5 ?pl4] by simp
  qed
  have free: "hchain ?pl5 (np_free_list ?pl5) (x # fs)"
  proof -
    have "hchain ?pl5 (np_free_list pl) fs"
      by (rule hchain_cong [OF D(11)]) (use v5 hn5 D(7) xus xsus in auto)
    then show ?thesis using x v3 same5(7) by simp
  qed
  have bucket: "hchain ?pl5 (np_hash_table ?pl5 ! c) ((ch(b := xs @ ys)) c)
      \<and> distinct ((ch(b := xs @ ys)) c)
      \<and> set ((ch(b := xs @ ys)) c) = {p \<in> set ?us. nat (fd_of ?pl5 p) mod np_hash_size ?pl5 = c}"
    if c: "c < np_hash_size ?pl5" for c
  proof -
    have c': "c < np_hash_size pl" using c same5 by simp
    have fd: "{p \<in> set ?us. nat (fd_of ?pl5 p) mod np_hash_size ?pl5 = c} = set (ch c) - {x}"
      using D(14) [OF c'] us' it5 D(17) same5(4) by auto
    show ?thesis
    proof (cases "c = b")
      case True
      have "hchain ?pl5 (np_hash_table ?pl5 ! b) (xs @ ys)"
        by (simp only: same5(8), rule hchain_cong [OF pl3(3)]) (use v3 x xsus in auto)
      with True fd chb dc show ?thesis by auto
    next
      case False
      have disj: "x \<notin> set (ch c)" "set xs \<inter> set (ch c) = {}"
        using bucket_disjoint [OF inv b c'] False chb by auto
      have "np_hash_table ?pl5 ! c = np_hash_table pl ! c" using pl3(4) [OF False] same2(6) same5(8) by simp
      moreover have "hchain ?pl5 (np_hash_table pl ! c) (ch c)"
        by (rule hchain_cong [OF D(12) [OF c']]) (use v5 hn5 disj in auto)
      ultimately show ?thesis using False fd D(13) [OF c'] disj(1) by simp
    qed
  qed
  have "poll_inv ?pl5 ?us (x # fs) (ch(b := xs @ ys))"
    unfolding poll_inv_def
  proof (intro conjI allI impI)
    show "set ?us \<union> set (x # fs) = {1..np_max_counts ?pl5}" using D(8) us' xus same5(2) by auto
    show "distinct (?us @ x # fs)" using D(5-7) us by auto
    show "np_counts ?pl5 = length ?us" using same5(3) D(9) us by simp
    show "\<forall>p \<in> set ?us. 0 \<le> fd_of ?pl5 p" using us' it5 D(15,17) by auto
    have "fd_of ?pl5 p = fd_of pl p" if "p \<in> set ?us" for p using that us' it5 D(17) by auto
    then show "inj_on (fd_of ?pl5) (set ?us)"
      by (rule inj_on_same) (use inj_on_subset [OF D(16), of "set ?us"] us' in auto)
  qed (use r5 free bucket same5 D(1-4) in auto)
  moreover have "same_items (set ?us) ?pl5 pl"
    using it5 us' D(17) by (auto simp: same_items_def fd_of_def)
  ultimately show ?thesis using run us' same5(2,4) by blast
qed

lemma chain_end_read:
  assumes "b < length (np_hash_table pl)" "hchain pl (np_hash_table pl ! b) xs"
  shows "save_pt_read (behind (Bucket b) xs) pl = Some NULL"
proof (cases xs rule: rev_cases)
  case (snoc ys z)
  then have "ni_hash_next (item_at pl z) = NULL" using hchain_tail [of pl _ ys z "[]"] assms(2) by simp
  moreover have "valid z pl" using hchain_valid [OF assms(2)] snoc by simp
  ultimately show ?thesis using snoc by (simp add: behind_def item_get_at)
qed (use assms in simp)

lemma ctl_add_ok:
  assumes inv: "poll_inv pl us (x # fs) ch" and fd: "0 \<le> fd" and b: "b = nat fd mod np_hash_size pl"
    and absent: "\<forall>p \<in> set us. fd_of pl p \<noteq> fd"
  shows "\<exists>pl'. netx_ctl_add_item (behind (Bucket b) (ch b)) fd event pl = Some pl'
    \<and> poll_inv pl' (us @ [x]) fs (ch(b := ch b @ [x])) \<and> same_items (set us) pl' pl
    \<and> fd_of pl' x = fd \<and> ni_event (item_at pl' x) = event
    \<and> np_max_counts pl' = np_max_counts pl \<and> np_hash_size pl' = np_hash_size pl"
proof -
  note D = poll_invD [OF inv]
  have lt: "b < np_hash_size pl" using D(4) b by simp
  have x: "valid x pl" "x \<notin> set us" "x \<notin> set fs" "np_free_list pl = x" using D(17) D(6,7,11) by auto
  have xch: "x \<notin> set (ch c)" if "c < np_hash_size pl" for c using D(14) [OF that] x(2) by auto
  define pl0 where "pl0 = pl\<lparr>np_free_list := ni_hash_next (item_at pl x)\<rparr>"
  have same0: "valid p pl0 = valid p pl" "item_at pl0 p = item_at pl p" "np_hash_table pl0 = np_hash_table pl"
    "np_magic pl0 = np_magic pl" "np_max_counts pl0 = np_max_counts pl" "np_counts pl0 = np_counts pl"
    "np_hash_size pl0 = np_hash_size pl" "np_used_list pl0 = np_used_list pl"
    "length (np_items pl0) = length (np_items pl)" "np_free_list pl0 = ni_hash_next (item_at pl x)" for p
    by (simp_all add: pl0_def)
  have hc0: "hchain pl p zs \<Longrightarrow> hchain pl0 p zs" for p zs by (erule hchain_cong) (simp add: same0)
  have read: "save_pt_read (behind (Bucket b) (ch b)) pl0 = Some NULL"
    by (rule chain_end_read) (use lt D(3) same0 hc0 [OF D(12) [OF lt]] in simp_all)
  let ?pl1 = "item_put x (ni_hash_next_update (\<lambda>_. NULL)) pl0"
  have v1: "valid p ?pl1 = valid p pl" for p by (simp add: same0)
  have hn1: "ni_hash_next (item_at ?pl1 p) = ni_hash_next (item_at pl p)" if "valid p pl" "p \<noteq> x" for p
    using that x by (simp add: same0)
  have it1: "ni_next (item_at ?pl1 p) = ni_next (item_at pl p) \<and> ni_prev (item_at ?pl1 p) = ni_prev (item_at pl p)
      \<and> ni_fd (item_at ?pl1 p) = ni_fd (item_at pl p) \<and> ni_event (item_at ?pl1 p) = ni_event (item_at pl p)"
    if "valid p pl" for p using that x by (auto simp: same0)
  have hc1: "hchain ?pl1 p zs" if "hchain pl p zs" "x \<notin> set zs" for p zs
    by (rule hchain_cong [OF that(1)]) (use that(2) hn1 v1 in auto)
  have cb1: "hchain ?pl1 (np_hash_table ?pl1 ! b) (ch b @ [])"
    using hc1 [OF D(12) [OF lt] xch [OF lt]] by (simp add: same0)
  have v1x: "hchain ?pl1 x [x]" using x by (simp add: same0)
  obtain pl2 where pl2: "save_pt_write (behind (Bucket b) (ch b)) x ?pl1 = Some pl2" "same_ring pl2 ?pl1"
    "hchain pl2 (np_hash_table pl2 ! b) (ch b @ [x])"
    "\<And>c. c \<noteq> b \<Longrightarrow> np_hash_table pl2 ! c = np_hash_table ?pl1 ! c"
    "\<And>p. valid p ?pl1 \<Longrightarrow> p \<notin> set (ch b) \<Longrightarrow> ni_hash_next (item_at pl2 p) = ni_hash_next (item_at ?pl1 p)"
    using chain_write [OF _ cb1 v1x D(13) [OF lt]] xch [OF lt] lt D(3) same0(3) by auto
  have v2: "valid p pl2 = valid p pl" for p using same_ring_valid [OF pl2(2)] v1 by simp
  have "links ?pl1 = links pl" by (rule links_cong) (use v1 it1 in simp_all)
  then have "ring_ok ?pl1 us" using ring_ok_cong [of ?pl1 pl us] D(10) same0(8) by simp
  then have "ring_ok pl2 us" using same_ring_ok [OF pl2(2)] by simp
  from ring_enlink [OF this] obtain pl3 where pl3: "enlink_item x pl2 = Some pl3" "ring_ok pl3 (us @ [x])"
    "same_data pl3 pl2"
    using x v2 by blast
  have v3: "valid p pl3 = valid p pl" for p using same_data_valid [OF pl3(3)] v2 by simp
  let ?pl4 = "item_put x (\<lambda>y. y\<lparr>ni_event := event, ni_fd := fd\<rparr>) pl3"
  let ?pl5 = "?pl4\<lparr>np_counts := np_counts ?pl4 + 1\<rparr>"
  have run: "netx_ctl_add_item (behind (Bucket b) (ch b)) fd event pl = Some ?pl5"
    using x v2 v3 read pl2(1) pl3(1)
    by (simp add: netx_ctl_add_item_def item_upd_put item_get_at Let_def pl0_def [symmetric] same0)
  have same5: "np_magic ?pl5 = np_magic pl" "np_max_counts ?pl5 = np_max_counts pl"
    "np_counts ?pl5 = np_counts pl + 1" "np_hash_size ?pl5 = np_hash_size pl"
    "length (np_items ?pl5) = length (np_items pl)" "length (np_hash_table ?pl5) = length (np_hash_table pl)"
    "np_free_list ?pl5 = ni_hash_next (item_at pl x)" "np_hash_table ?pl5 = np_hash_table pl2"
    using pl2(2) pl3(3) same0 by (simp_all add: same_ring_def same_data_def)
  have v5: "valid p ?pl5 = valid p pl" for p by (simp add: v3)
  have it5: "fd_of ?pl5 p = fd_of pl p \<and> ni_event (item_at ?pl5 p) = ni_event (item_at pl p)"
    if "valid p pl" "p \<noteq> x" for p
    using that it1 [OF that(1)] pl2(2) pl3(3) v1 v2 v3 x
    by (simp add: same_ring_def same_data_def fd_of_def)
  have x5: "fd_of ?pl5 x = fd" "ni_event (item_at ?pl5 x) = event"
    using x v3 by (simp_all add: fd_of_def)
  have hn5: "ni_hash_next (item_at ?pl5 p) = ni_hash_next (item_at pl2 p)" if "valid p pl" for p
    using that pl3(3) v2 v3 x by (simp add: same_data_def)
  have hn5': "ni_hash_next (item_at ?pl5 p) = ni_hash_next (item_at pl p)"
    if "valid p pl" "p \<noteq> x" "p \<notin> set (ch b)" for p
    using hn5 [OF that(1)] pl2(5) [of p] hn1 [OF that(1,2)] that v1 by simp
  have r5: "ring_ok ?pl5 (us @ [x])"
  proof -
    have "links ?pl5 = links pl3" by (rule links_cong) (use v3 x in simp_all)
    then show ?thesis using ring_ok_cong [of ?pl5 pl3] pl3(2) by simp
  qed
  have eq: "fd_of ?pl5 p = fd_of pl p" if "p \<in> set us" for p using that it5 D(17) x(2) by auto
  have bus: "set (ch b) \<subseteq> set us" using D(14) [OF lt] by auto
  have free: "hchain ?pl5 (np_free_list ?pl5) fs"
  proof -
    have "hchain pl (ni_hash_next (item_at pl x)) fs" using D(11) by simp
    then have "hchain ?pl5 (ni_hash_next (item_at pl x)) fs"
      by (rule hchain_cong) (use v5 hn5' x bus D(7) in auto)
    then show ?thesis unfolding same5(7) .
  qed
  have bucket: "hchain ?pl5 (np_hash_table ?pl5 ! c) ((ch(b := ch b @ [x])) c)
      \<and> distinct ((ch(b := ch b @ [x])) c)
      \<and> set ((ch(b := ch b @ [x])) c) = {p \<in> set (us @ [x]). nat (fd_of ?pl5 p) mod np_hash_size ?pl5 = c}"
    if c: "c < np_hash_size ?pl5" for c
  proof -
    have c': "c < np_hash_size pl" using c same5(4) by simp
    have "{p \<in> set us. nat (fd_of ?pl5 p) mod np_hash_size ?pl5 = c} = set (ch c)"
      unfolding D(14) [OF c'] same5(4) by (rule Collect_cong) (use eq in auto)
    moreover have "nat (fd_of ?pl5 x) mod np_hash_size ?pl5 = b" using x5(1) b same5(4) by simp
    ultimately have fd: "{p \<in> set (us @ [x]). nat (fd_of ?pl5 p) mod np_hash_size ?pl5 = c}
      = (if c = b then insert x (set (ch c)) else set (ch c))" by auto
    show ?thesis
    proof (cases "c = b")
      case True
      have "hchain ?pl5 (np_hash_table ?pl5 ! b) (ch b @ [x])"
        by (simp only: same5(8), rule hchain_cong [OF pl2(3)])
          (use v5 v2 hn5 hchain_valid [OF pl2(3)] in auto)
      with True fd D(13) [OF lt] xch [OF lt] show ?thesis by auto
    next
      case False
      have disj: "set (ch b) \<inter> set (ch c) = {}"
        using bucket_disjoint [OF inv lt c'] False by auto
      have "np_hash_table ?pl5 ! c = np_hash_table pl ! c"
        using pl2(4) [OF False] same5(8) same0(3) by simp
      moreover have "hchain ?pl5 (np_hash_table pl ! c) (ch c)"
        by (rule hchain_cong [OF D(12) [OF c']]) (use v5 hn5' disj xch [OF c'] in auto)
      ultimately show ?thesis using False fd D(13) [OF c'] by simp
    qed
  qed
  have "poll_inv ?pl5 (us @ [x]) fs (ch(b := ch b @ [x]))"
    unfolding poll_inv_def
  proof (intro conjI allI impI)
    show "set (us @ [x]) \<union> set fs = {1..np_max_counts ?pl5}" using D(8) same5(2) by auto
    show "distinct ((us @ [x]) @ fs)" using D(5-7) x by auto
    show "np_counts ?pl5 = length (us @ [x])" using same5(3) D(9) by simp
    show "\<forall>p \<in> set (us @ [x]). 0 \<le> fd_of ?pl5 p" using eq x5(1) fd D(15) by auto
    have "inj_on (fd_of ?pl5) (set us)" by (rule inj_on_same [OF eq D(16)])
    moreover have "fd_of ?pl5 x \<notin> fd_of ?pl5 ` set us" using eq absent x5(1) by auto
    ultimately show "inj_on (fd_of ?pl5) (set (us @ [x]))" using x(2) by (simp add: inj_on_insert)
  qed (use r5 free bucket same5 D(1-4) in auto)
  moreover have "same_items (set us) ?pl5 pl"
    using it5 D(17) x(2) by (auto simp: same_items_def fd_of_def)
  ultimately show ?thesis using run x5 same5(2,4) by blast
qed

section \<open>The table as a finite map\<close>

text \<open>What the code's own search finds for a descriptor.\<close>

definition netx_lookup :: "netx_poll \<Rightarrow> int \<Rightarrow> netx_event option" where
  "netx_lookup pl fd = (if fd < 0 then None
     else case netx_search fd (Bucket (nat fd mod np_hash_size pl)) pl of
       None \<Rightarrow> None
     | Some (_, item) \<Rightarrow> if item = NULL then None else Some (ni_event (item_at pl item)))"

lemma lookup_iff:
  assumes inv: "poll_inv pl us fs ch"
  shows "netx_lookup pl fd = Some e \<longleftrightarrow> (\<exists>p \<in> set us. fd_of pl p = fd \<and> ni_event (item_at pl p) = e)"
proof (cases "fd < 0")
  case True
  then show ?thesis using poll_invD(15) [OF inv] by (fastforce simp: netx_lookup_def)
next
  case False
  then have fd: "0 \<le> fd" by simp
  show ?thesis
  proof (rule search_cases [OF inv fd refl])
    assume "netx_search fd (Bucket (nat fd mod np_hash_size pl)) pl
        = Some (behind (Bucket (nat fd mod np_hash_size pl)) (ch (nat fd mod np_hash_size pl)), NULL)"
      "\<forall>p \<in> set us. fd_of pl p \<noteq> fd"
    then show ?thesis using False by (auto simp: netx_lookup_def)
  next
    fix xs x ys
    assume x: "netx_search fd (Bucket (nat fd mod np_hash_size pl)) pl
        = Some (behind (Bucket (nat fd mod np_hash_size pl)) xs, x)" "x \<in> set us" "fd_of pl x = fd"
    then have "x \<noteq> NULL" using poll_invD(17) [OF inv, of x] by (auto simp: valid_def)
    moreover have "p = x" if "p \<in> set us" "fd_of pl p = fd" for p
      using that x poll_invD(16) [OF inv] by (auto simp: inj_on_def)
    moreover have "netx_lookup pl fd = Some (ni_event (item_at pl x))"
      using x(1) False \<open>x \<noteq> NULL\<close> by (simp add: netx_lookup_def)
    ultimately show ?thesis using x(2,3) by (metis option.inject)
  qed
qed

lemma lookup_eqI:
  assumes "poll_inv pl us fs ch"
    and "\<And>fd e. m fd = Some e \<longleftrightarrow> (\<exists>p \<in> set us. fd_of pl p = fd \<and> ni_event (item_at pl p) = e)"
  shows "netx_lookup pl = m"
proof
  fix fd
  show "netx_lookup pl fd = m fd"
    using lookup_iff [OF assms(1), of fd] assms(2) [of fd] by (metis option.exhaust)
qed

lemma fd_uniq:
  "poll_inv pl us fs ch \<Longrightarrow> p \<in> set us \<Longrightarrow> q \<in> set us \<Longrightarrow> fd_of pl p = fd_of pl q \<Longrightarrow> p = q"
  by (drule poll_invD(16)) (auto dest: inj_onD)

lemma same_itemsD:
  "same_items ps pl' pl \<Longrightarrow> p \<in> ps \<Longrightarrow> fd_of pl' p = fd_of pl p \<and> ni_event (item_at pl' p) = ni_event (item_at pl p)"
  by (simp add: same_items_def fd_of_def)

lemma lookup_without:
  assumes inv: "poll_inv pl us fs ch" "poll_inv pl' us' fs' ch'" and us': "set us' = set us - {x}"
    and same: "same_items (set us') pl' pl" and x: "x \<in> set us" "fd_of pl x = fd"
  shows "netx_lookup pl' = (netx_lookup pl)(fd := None)"
proof (rule lookup_eqI [OF inv(2)])
  fix fd' e
  have "(\<exists>p \<in> set us'. fd_of pl' p = fd' \<and> ni_event (item_at pl' p) = e)
    \<longleftrightarrow> (\<exists>p \<in> set us - {x}. fd_of pl p = fd' \<and> ni_event (item_at pl p) = e)"
    using same_itemsD [OF same] unfolding us' by (intro bex_cong) simp_all
  also have "\<dots> \<longleftrightarrow> fd' \<noteq> fd \<and> (\<exists>p \<in> set us. fd_of pl p = fd' \<and> ni_event (item_at pl p) = e)"
    using fd_uniq [OF inv(1) _ x(1)] x by (metis Diff_iff insertE insertI1 empty_iff)
  finally show "((netx_lookup pl)(fd := None)) fd' = Some e
    \<longleftrightarrow> (\<exists>p \<in> set us'. fd_of pl' p = fd' \<and> ni_event (item_at pl' p) = e)"
    using lookup_iff [OF inv(1), of fd' e] by auto
qed

text \<open>The table after an item \<open>x\<close> was added or its event changed.\<close>

lemma lookup_with:
  assumes inv: "poll_inv pl us fs ch" "poll_inv pl' us' fs' ch'" and us': "set us' = insert x (set us)"
    and same: "same_items (set us - {x}) pl' pl" and x: "fd_of pl' x = fd" "ni_event (item_at pl' x) = e"
    and other: "\<And>p. p \<in> set us - {x} \<Longrightarrow> fd_of pl p \<noteq> fd" and old: "x \<in> set us \<Longrightarrow> fd_of pl x = fd"
  shows "netx_lookup pl' = (netx_lookup pl)(fd \<mapsto> e)"
proof (rule lookup_eqI [OF inv(2)])
  fix fd' e'
  have *: "(\<exists>p \<in> set us - {x}. fd_of pl' p = fd' \<and> ni_event (item_at pl' p) = e')
    \<longleftrightarrow> (\<exists>p \<in> set us - {x}. fd_of pl p = fd' \<and> ni_event (item_at pl p) = e')"
    using same_itemsD [OF same] by (intro bex_cong) simp_all
  have "(\<exists>p \<in> set us'. fd_of pl' p = fd' \<and> ni_event (item_at pl' p) = e')
    \<longleftrightarrow> fd' = fd \<and> e' = e \<or> (\<exists>p \<in> set us - {x}. fd_of pl' p = fd' \<and> ni_event (item_at pl' p) = e')"
    using x unfolding us' by blast
  also have "\<dots> \<longleftrightarrow> fd' = fd \<and> e' = e
    \<or> (fd' \<noteq> fd \<and> (\<exists>p \<in> set us. fd_of pl p = fd' \<and> ni_event (item_at pl p) = e'))"
    unfolding * using other old by (metis Diff_iff empty_iff insertE)
  finally show "((netx_lookup pl)(fd \<mapsto> e)) fd' = Some e'
    \<longleftrightarrow> (\<exists>p \<in> set us'. fd_of pl' p = fd' \<and> ni_event (item_at pl' p) = e')"
    using lookup_iff [OF inv(1), of fd' e'] by auto
qed

lemma lookup_dom: "poll_inv pl us fs ch \<Longrightarrow> dom (netx_lookup pl) = fd_of pl ` set us"
  using lookup_iff by (fastforce simp: dom_def)

lemma lookup_card:
  assumes "poll_inv pl us fs ch"
  shows "card (dom (netx_lookup pl)) = length us" "length us + length fs = np_max_counts pl"
proof -
  note D = poll_invD [OF assms]
  show "card (dom (netx_lookup pl)) = length us"
    using D(5,16) by (simp add: lookup_dom [OF assms] card_image distinct_card)
  have "length (us @ fs) = card (set (us @ fs))" using D(5-7) by (intro distinct_card [symmetric]) simp
  then show "length us + length fs = np_max_counts pl" using D(8) by simp
qed

type_synonym netx_op = "u64 \<times> int \<times> netx_event option"

text \<open>The documented effect of \<open>netx_ctl\<close> on a map of descriptors with room for \<open>cap\<close> of them.\<close>

fun netx_spec :: "netx_op \<Rightarrow> (int \<rightharpoonup> netx_event) \<times> nat \<Rightarrow> int \<times> ((int \<rightharpoonup> netx_event) \<times> nat)" where
  "netx_spec (operation, fd, event) (m, cap) =
     (if fd < 0 \<or> netx_ctl_del \<noteq> operation \<and> event = None then (- 1, (m, cap))
      else if operation = netx_ctl_mod then
        (if m fd = None then (- 2, (m, cap)) else (0, (m(fd := event), cap)))
      else if operation = netx_ctl_del then
        (if m fd = None then (- 3, (m, cap)) else (0, (m(fd := None), cap)))
      else if operation = netx_ctl_add then
        (if m fd \<noteq> None then (- 4, (m, cap))
         else if card (dom m) = cap then (- 5, (m, cap))
         else (0, (m(fd := event), cap)))
      else (- 1, (m, cap)))"

fun netx_step :: "netx_op \<Rightarrow> netx_poll \<Rightarrow> (int \<times> netx_poll) option" where
  "netx_step (operation, fd, event) pl = netx_poll_ctl operation fd event pl"

definition netx_inv :: "netx_poll \<Rightarrow> bool" where
  "netx_inv pl \<longleftrightarrow> (\<exists>us fs ch. poll_inv pl us fs ch)"

definition netx_abs :: "netx_poll \<Rightarrow> (int \<rightharpoonup> netx_event) \<times> nat" where
  "netx_abs pl = (netx_lookup pl, np_max_counts pl)"

lemma poll_new_inv:
  assumes "0 < n"
  shows "poll_inv (netx_poll_new n) [] [1..<Suc n] (\<lambda>_. [])"
proof -
  let ?pl = "netx_poll_new n"
  have "hchain ?pl (if k < n then Suc k else NULL) [Suc k..<Suc n]" if "k \<le> n" for k
    using that
  proof (induction "n - k" arbitrary: k)
    case (Suc d)
    then have k: "k < n" "d = n - Suc k" "Suc k \<le> n" by simp_all
    then have "ni_hash_next (item_at ?pl (Suc k)) = (if Suc k < n then Suc (Suc k) else NULL)"
      by (auto simp: item_at_def netx_poll_new_def)
    moreover have "valid (Suc k) ?pl" using k by (simp add: valid_def netx_poll_new_def)
    ultimately show ?case using Suc(1) [OF k(2,3)] k(1) by (simp add: upt_conv_Cons del: upt_Suc)
  qed simp
  from this [of 0] assms have "hchain ?pl 1 [1..<Suc n]" by simp
  then show ?thesis
    using assms by (auto simp: poll_inv_def netx_poll_new_def ring_ok_def netx__poll_hash_size_def
        simp del: upt_Suc)
qed

lemma netx_step_sim:
  assumes "netx_inv pl"
  shows "\<exists>r pl'. netx_step op pl = Some (r, pl') \<and> netx_inv pl' \<and> netx_spec op (netx_abs pl) = (r, netx_abs pl')"
proof -
  obtain us fs ch where inv: "poll_inv pl us fs ch" using assms by (auto simp: netx_inv_def)
  note D = poll_invD [OF inv]
  obtain operation fd event where op: "op = (operation, fd, event)" by (cases op)
  let ?m = "netx_lookup pl" and ?cap = "np_max_counts pl"
  have ops: "netx_ctl_mod \<noteq> netx_ctl_del" "netx_ctl_add \<noteq> netx_ctl_mod" "netx_ctl_add \<noteq> netx_ctl_del"
    by (simp_all add: netx_ctl_mod_def netx_ctl_del_def netx_ctl_add_def)
  show ?thesis
  proof (cases "fd < 0 \<or> netx_ctl_del \<noteq> operation \<and> event = None")
    case True
    then show ?thesis using assms by (auto simp: op netx_poll_ctl_def netx_abs_def)
  next
    case ok: False
    then have fd: "0 \<le> fd" by simp
    let ?b = "nat fd mod np_hash_size pl"
    have lt: "?b < np_hash_size pl" using D(4) by simp
    show ?thesis
    proof (rule search_cases [OF inv fd refl])
      assume s: "netx_search fd (Bucket ?b) pl = Some (behind (Bucket ?b) (ch ?b), NULL)"
        and absent: "\<forall>p \<in> set us. fd_of pl p \<noteq> fd"
      then have none: "?m fd = None" using ok by (simp add: netx_lookup_def)
      have full: "card (dom ?m) = ?cap \<longleftrightarrow> fs = []" "np_free_list pl = NULL \<longleftrightarrow> fs = []"
        using lookup_card [OF inv] hchain_hd [OF D(11)] D(17)
        by (auto split: list.splits simp: valid_def)
      show ?thesis
      proof (cases "operation = netx_ctl_add \<and> fs \<noteq> []")
        case False
        then show ?thesis using ok s none full assms ops D(4)
          by (auto simp: op netx_poll_ctl_def netx_abs_def)
      next
        case add: True
        then obtain x fs' e where x: "fs = x # fs'" "event = Some e" using ok ops by (cases fs) auto
        note inv' = inv [unfolded x(1)]
        obtain pl' where pl': "netx_ctl_add_item (behind (Bucket ?b) (ch ?b)) fd e pl = Some pl'"
          "poll_inv pl' (us @ [x]) fs' (ch(?b := ch ?b @ [x]))" "same_items (set us) pl' pl"
          "fd_of pl' x = fd" "ni_event (item_at pl' x) = e" "np_max_counts pl' = ?cap"
          using ctl_add_ok [OF inv' fd refl absent] by blast
        have "netx_lookup pl' = ?m(fd := event)"
        proof -
          have xus: "x \<notin> set us" using D(7) x(1) by auto
          then have "set us - {x} = set us" by simp
          with xus show ?thesis
            using lookup_with [OF inv pl'(2), of x fd e] pl'(3-5) absent x(2) by simp
        qed
        then show ?thesis using add ok s none full ops D(4) pl' x
          by (auto simp: op netx_poll_ctl_def netx_abs_def netx_inv_def)
      qed
    next
      fix xs x ys
      assume chb: "ch ?b = xs @ x # ys" and s: "netx_search fd (Bucket ?b) pl = Some (behind (Bucket ?b) xs, x)"
        and x: "x \<in> set us" "fd_of pl x = fd"
      have nz: "x \<noteq> NULL" and vx: "valid x pl" using D(17) x(1) by (auto simp: valid_def)
      have some: "?m fd \<noteq> None" using s ok nz by (simp add: netx_lookup_def)
      have uniq: "p = x" if "p \<in> set us" "fd_of pl p = fd" for p
        using that x D(16) by (auto simp: inj_on_def)
      consider "operation = netx_ctl_del" | "operation = netx_ctl_mod"
        | "operation \<noteq> netx_ctl_del" "operation \<noteq> netx_ctl_mod" by blast
      then show ?thesis
      proof cases
        case 1
        obtain pl' us' where pl': "netx_ctl_del_item (behind (Bucket ?b) xs) x pl = Some pl'"
          "poll_inv pl' us' (x # fs) (ch(?b := xs @ ys))" "set us' = set us - {x}"
          "same_items (set us') pl' pl" "np_max_counts pl' = ?cap"
          using ctl_del_ok [OF inv lt chb] by blast
        have "netx_lookup pl' = ?m(fd := None)"
          by (rule lookup_without [OF inv pl'(2-4) x])
        then show ?thesis using 1 ok s some nz ops D(4) pl'
          by (auto simp: op netx_poll_ctl_def netx_abs_def netx_inv_def)
      next
        case 2
        then obtain e where e: "event = Some e" using ok ops by auto
        let ?pl' = "item_put x (\<lambda>it. it\<lparr>ni_event := e\<rparr>) pl"
        have at: "valid p pl \<Longrightarrow> ni_fd (item_at ?pl' p) = ni_fd (item_at pl p)
            \<and> ni_hash_next (item_at ?pl' p) = ni_hash_next (item_at pl p)
            \<and> ni_next (item_at ?pl' p) = ni_next (item_at pl p) \<and> ni_prev (item_at ?pl' p) = ni_prev (item_at pl p)
            \<and> ni_event (item_at ?pl' p) = (if p = x then e else ni_event (item_at pl p))" for p
          using vx by simp
        have "links ?pl' = links pl" by (rule links_cong) (use at in simp_all)
        then have ring: "ring_ok ?pl' us" using ring_ok_cong [of ?pl' pl us] D(10) by simp
        have hc: "hchain pl p zs \<Longrightarrow> hchain ?pl' p zs" for p zs by (erule hchain_cong) (use at in simp)
        have fds: "fd_of ?pl' p = fd_of pl p" if "p \<in> set us" for p
          using at [of p] D(17) [of p] that by (simp add: fd_of_def)
        have sets: "{p \<in> set us. nat (fd_of ?pl' p) mod np_hash_size pl = c}
            = {p \<in> set us. nat (fd_of pl p) mod np_hash_size pl = c}" for c
          by (rule Collect_cong) (use fds in auto)
        have inv2: "poll_inv ?pl' us fs ch"
          unfolding poll_inv_def
          using D ring hc fds sets inj_on_same [of "set us" "fd_of ?pl'" "fd_of pl"] by auto
        have "netx_lookup ?pl' = ?m(fd := event)"
        proof -
          have "set us = insert x (set us)" using x(1) by auto
          moreover have "same_items (set us - {x}) ?pl' pl" using at D(17) by (simp add: same_items_def)
          moreover have "fd_of ?pl' x = fd" using fds x by simp
          moreover have "ni_event (item_at ?pl' x) = e" using vx by simp
          moreover have "fd_of pl p \<noteq> fd" if "p \<in> set us - {x}" for p using uniq [of p] that by auto
          ultimately show ?thesis using lookup_with [OF inv inv2] x(2) e by blast
        qed
        then show ?thesis using 2 ok s some nz ops D(4) e vx inv2
          by (auto simp: op netx_poll_ctl_def netx_abs_def netx_inv_def netx_ctl_mod_item_def item_upd_put)
      next
        case 3
        then show ?thesis using ok s some nz assms D(4)
          by (auto simp: op netx_poll_ctl_def netx_abs_def)
      qed
    qed
  qed
qed

interpretation netx: simulation netx_step netx_spec netx_inv netx_abs "\<lambda>_. True"
  by unfold_locales (rule netx_step_sim)

section \<open>Properties\<close>

text \<open>
  C10. A poll object is a finite map from descriptors to events with room for the number of
  descriptors it was created for: every sequence of \<open>netx_ctl\<close> calls is defined (no pointer goes
  wrong, every search ends), and answers and acts, error codes included, as the same sequence on
  the map: adding a known descriptor is \<open>-4\<close>, adding to a full table \<open>-5\<close>, changing or removing
  an unknown one \<open>-2\<close> or \<open>-3\<close>, anything invalid \<open>-1\<close>.
\<close>

theorem netx_ctl_refines_map:
  assumes "0 < n"
  shows "\<exists>rs pl'. run_partial netx_step ops (netx_poll_new n) = Some (rs, pl')
    \<and> run_total netx_spec ops (Map.empty, n) = (rs, (netx_lookup pl', n))"
proof -
  have inv: "netx_inv (netx_poll_new n)" using poll_new_inv [OF assms] by (auto simp: netx_inv_def)
  have abs: "netx_abs (netx_poll_new n) = (Map.empty, n)"
    using lookup_eqI [OF poll_new_inv [OF assms], of Map.empty] by (simp add: netx_abs_def netx_poll_new_def)
  obtain rs pl' where run: "run_partial netx_step ops (netx_poll_new n) = Some (rs, pl')"
    "run_total netx_spec ops (Map.empty, n) = (rs, netx_abs pl')"
    using netx.run [OF inv, of ops] abs by auto
  have cap: "snd (snd (netx_spec op a)) = snd a" for op a
    by (cases "(op, a)" rule: netx_spec.cases) auto
  have "snd (snd (run_total netx_spec ops a)) = snd a" for a
    by (induction ops arbitrary: a) (auto split: prod.splits, metis cap snd_conv)
  from this [of "(Map.empty, n)"] run(2) have "np_max_counts pl' = n" by (simp add: netx_abs_def)
  with run show ?thesis by (simp add: netx_abs_def)
qed

theorem netx_ctl_refines_map_witness:
  "\<exists>pl'. run_partial netx_step
      [(netx_ctl_add, 5, Some \<lparr>ev_events = 1, ev_data = 0\<rparr>), (netx_ctl_add, 5, Some \<lparr>ev_events = 2, ev_data = 0\<rparr>),
       (netx_ctl_add, 6, Some \<lparr>ev_events = 1, ev_data = 0\<rparr>), (netx_ctl_del, 5, None), (netx_ctl_del, 5, None)]
      (netx_poll_new 1) = Some ([0, - 4, - 5, 0, - 3], pl') \<and> netx_lookup pl' = Map.empty"
proof -
  let ?ops = "[(netx_ctl_add, 5 :: int, Some \<lparr>ev_events = 1, ev_data = 0\<rparr>),
    (netx_ctl_add, 5, Some \<lparr>ev_events = 2, ev_data = 0\<rparr>),
    (netx_ctl_add, 6, Some \<lparr>ev_events = 1, ev_data = 0\<rparr>), (netx_ctl_del, 5, None), (netx_ctl_del, 5, None)]"
  have "run_total netx_spec ?ops (Map.empty, 1) = ([0, - 4, - 5, 0, - 3], (Map.empty, 1))"
    by (simp add: netx_ctl_add_def netx_ctl_del_def netx_ctl_mod_def)
  with netx_ctl_refines_map [of 1 ?ops] show ?thesis by auto
qed

text \<open>The table of poll objects: its counter is the number of objects.\<close>

definition polls_inv :: "netx_polls \<Rightarrow> bool" where
  "polls_inv s \<longleftrightarrow> length (pl_list s) = pl_max_counts s
     \<and> pl_counts s = length (filter (\<lambda>x. x \<noteq> None) (pl_list s))"

lemma count_some_update:
  "i < length xs \<Longrightarrow> xs ! i = None \<Longrightarrow> length (filter (\<lambda>x. x \<noteq> None) (xs[i := Some v]))
     = Suc (length (filter (\<lambda>x. x \<noteq> None) xs))"
  "i < length xs \<Longrightarrow> xs ! i = Some v \<Longrightarrow> Suc (length (filter (\<lambda>x. x \<noteq> None) (xs[i := None])))
     = length (filter (\<lambda>x. x \<noteq> None) xs)"
  by (induction xs arbitrary: i) (auto split: nat.splits simp: nth_Cons)

lemma free_slot:
  assumes "length (filter (\<lambda>x. x \<noteq> None) xs) < length xs"
  shows "\<exists>i. find (\<lambda>i. xs ! i = None) [0..<length xs] = Some i \<and> i < length xs \<and> xs ! i = None"
proof -
  have "find (\<lambda>i. xs ! i = None) [0..<length xs] \<noteq> None"
  proof
    assume "find (\<lambda>i. xs ! i = None) [0..<length xs] = None"
    then have "\<forall>x \<in> set xs. x \<noteq> None" by (auto simp: find_None_iff in_set_conv_nth)
    then have "filter (\<lambda>x. x \<noteq> None) xs = xs" by (simp only: filter_True)
    with assms show False by simp
  qed
  then show ?thesis by (auto simp: find_Some_iff)
qed

lemma poll_obj_nth:
  "polls_inv s \<Longrightarrow> netx_poll_obj h s
    = (if 0 < h \<and> nat (h - 1) < length (pl_list s) then pl_list s ! nat (h - 1) else None)"
  by (auto simp: netx_poll_obj_def polls_inv_def)

lemma netx_create_ok:
  assumes inv: "polls_inv s" and mx: "mx \<noteq> 0"
  shows "\<exists>h s'. netx_create True True mx s = (h, s') \<and> 0 < h \<and> netx_poll_obj h s = None
    \<and> netx_poll_obj h s' = Some (netx_poll_new (min (unat mx) FD_SETSIZE))
    \<and> (\<forall>h'. h' \<noteq> h \<longrightarrow> netx_poll_obj h' s' = netx_poll_obj h' s) \<and> polls_inv s'"
proof -
  let ?s1 = "if pl_counts s \<ge> pl_max_counts s
    then s\<lparr>pl_list := pl_list s @ replicate 16 None, pl_max_counts := pl_max_counts s + 16\<rparr> else s"
  have inv1: "polls_inv ?s1" "pl_counts ?s1 < length (pl_list ?s1)"
    using inv length_filter_le [of "\<lambda>x. x \<noteq> None" "pl_list s"] by (auto simp: polls_inv_def)
  have obj1: "netx_poll_obj h ?s1 = netx_poll_obj h s" for h
    unfolding poll_obj_nth [OF inv1(1)] poll_obj_nth [OF inv] by (auto simp: nth_append)
  have "length (filter (\<lambda>x. x \<noteq> None) (pl_list ?s1)) < length (pl_list ?s1)"
    using inv1 by (simp add: polls_inv_def)
  from free_slot [OF this] obtain i where
    i: "find (\<lambda>i. pl_list ?s1 ! i = None) [0..<length (pl_list ?s1)] = Some i"
    "i < length (pl_list ?s1)" "pl_list ?s1 ! i = None" by blast
  let ?n = "min (unat mx) FD_SETSIZE"
  let ?s2 = "?s1\<lparr>pl_list := (pl_list ?s1)[i := Some (netx_poll_new ?n)], pl_counts := pl_counts ?s1 + 1\<rparr>"
  have len: "pl_max_counts ?s1 = length (pl_list ?s1)" using inv1 by (simp add: polls_inv_def)
  have run: "netx_create True True mx s = (int i + 1, ?s2)"
    using i(1) mx unfolding netx_create_def Let_def len [symmetric] by (simp add: min_def not_le)
  have inv2: "polls_inv ?s2"
    using inv1 count_some_update(1) [OF i(2,3)] i(2) len by (simp add: polls_inv_def)
  have "netx_poll_obj (int i + 1) s = None"
    using i(2,3) obj1 [of "int i + 1"] by (simp add: poll_obj_nth [OF inv1(1)])
  moreover have "netx_poll_obj (int i + 1) ?s2 = Some (netx_poll_new ?n)"
    unfolding poll_obj_nth [OF inv2] using i(2) by auto
  moreover have "netx_poll_obj h' ?s2 = netx_poll_obj h' s" if "h' \<noteq> int i + 1" for h'
    using that i(2) unfolding obj1 [symmetric] poll_obj_nth [OF inv2] poll_obj_nth [OF inv1(1)]
    by (auto simp: nth_list_update)
  ultimately show ?thesis using run inv2 by auto
qed

lemma netx_destroy_ok:
  assumes inv: "polls_inv s" and pl: "netx_poll_obj g s = Some pl" "netx_inv pl"
  shows "\<exists>s'. netx_destroy g s = (0, s') \<and> netx_poll_obj g s' = None
    \<and> (\<forall>h'. h' \<noteq> g \<longrightarrow> netx_poll_obj h' s' = netx_poll_obj h' s) \<and> polls_inv s'"
proof -
  obtain us fs ch where P: "poll_inv pl us fs ch" using pl(2) by (auto simp: netx_inv_def)
  have ok: "np_magic pl = netx__pool_magic" "\<not> np_max_counts pl < np_counts pl"
    using poll_invD(1,9) [OF P] lookup_card(2) [OF P] by simp_all
  let ?i = "nat (g - 1)"
  have i: "0 < g" "?i < length (pl_list s)" "pl_list s ! ?i = Some pl"
    using pl(1) by (auto simp: poll_obj_nth [OF inv] split: if_splits)
  let ?s1 = "s\<lparr>pl_list := (pl_list s)[?i := None], pl_counts := pl_counts s - 1\<rparr>"
  have inv1: "polls_inv ?s1"
    using inv count_some_update(2) [OF i(2,3)] by (simp add: polls_inv_def)
  have obj1: "netx_poll_obj h' ?s1 = (if h' = g then None else netx_poll_obj h' s)" for h'
    using i unfolding poll_obj_nth [OF inv1] poll_obj_nth [OF inv] by (auto simp: nth_list_update)
  show ?thesis
  proof (cases "pl_counts ?s1 = 0")
    case False
    then show ?thesis using pl(1) ok inv1 obj1 by (auto simp: netx_destroy_def Let_def)
  next
    case True
    then have "\<forall>x \<in> set (pl_list ?s1). x = None"
      using inv1 by (auto simp: polls_inv_def filter_empty_conv)
    then have "netx_poll_obj h' ?s1 = None" for h' unfolding poll_obj_nth [OF inv1] by auto
    then have none: "netx_poll_obj h' s = None" if "h' \<noteq> g" for h' using obj1 that by metis
    let ?s2 = "?s1\<lparr>pl_list := [], pl_counts := 0, pl_max_counts := 0\<rparr>"
    have "polls_inv ?s2" by (simp add: polls_inv_def)
    moreover have "netx_poll_obj h' ?s2 = None" for h' by (auto simp: netx_poll_obj_def)
    ultimately show ?thesis using pl(1) ok True none by (simp add: netx_destroy_def Let_def)
  qed
qed

text \<open>
  Handles: a poll object that is created gets a handle no object had, holds nothing and has
  room for the number asked for, at most \<open>FD_SETSIZE\<close>; destroying an object invalidates its
  handle; and neither changes what any other handle denotes. The internal error \<open>-5\<close> of
  \<open>netx_create\<close> cannot occur.
\<close>

theorem netx_handles:
  assumes "polls_inv s"
  shows "(mx \<noteq> 0 \<and> netx_create True True mx s = (h, s') \<longrightarrow>
      0 < h \<and> netx_poll_obj h s = None
      \<and> netx_poll_obj h s' = Some (netx_poll_new (min (unat mx) FD_SETSIZE))
      \<and> (\<forall>h'. h' \<noteq> h \<longrightarrow> netx_poll_obj h' s' = netx_poll_obj h' s) \<and> polls_inv s')
    \<and> (netx_poll_obj g s = Some pl \<and> netx_inv pl \<and> netx_destroy g s = (r, s'') \<longrightarrow>
      r = 0 \<and> netx_poll_obj g s'' = None
      \<and> (\<forall>h'. h' \<noteq> g \<longrightarrow> netx_poll_obj h' s'' = netx_poll_obj h' s) \<and> polls_inv s'')"
  using netx_create_ok [OF assms, of mx] netx_destroy_ok [OF assms, of g pl] by fastforce

theorem netx_handles_witness:
  "\<exists>h s'. netx_create True True 5 netx__polls_init = (h, s') \<and> 0 < h
     \<and> netx_poll_obj h s' = Some (netx_poll_new 5)"
proof -
  obtain h s' where c: "netx_create True True 5 netx__polls_init = (h, s')" by (metis prod.exhaust)
  have "polls_inv netx__polls_init" by (simp add: polls_inv_def netx__polls_init_def)
  from conjunct1 [OF netx_handles [OF this], of 5 h s'] c
  have "0 < h" "netx_poll_obj h s' = Some (netx_poll_new (min (unat (5 :: u64)) FD_SETSIZE))" by simp_all
  then show ?thesis using c by (simp add: FD_SETSIZE_def)
qed

end
