(* ===== verification/NetxWait.thy ===== *)
theory NetxWait
  imports NetxPoll
begin

text \<open>
  \<open>netx_wait\<close> of \<open>frameworks/mlib/netx/netx.c\<close>: it fills three descriptor sets from the ring of
  items, calls \<open>select\<close>, and copies out the events of the descriptors reported ready. \<open>select\<close> is
  an argument of the model, given the three sets and the timeout and answering a number and three
  sets; the calls to \<open>sleep\<close> and \<open>select\<close> are recorded. The counters \<open>in_counts\<close>,
  \<open>out_counts\<close>, \<open>et_counts\<close> and \<open>max_counts\<close>, which are written and never used, are left out.
\<close>

section \<open>Descriptor sets\<close>

text \<open>A set is an array of \<open>FD_SETSIZE\<close> bits: \<open>FD_SET\<close> and \<open>FD_ISSET\<close> are undefined beyond it.\<close>

definition fd_set_add :: "int \<Rightarrow> int set \<Rightarrow> int set option" where
  "fd_set_add fd s = (if 0 \<le> fd \<and> fd < int FD_SETSIZE then Some (insert fd s) else None)"

definition fd_isset :: "int \<Rightarrow> int set \<Rightarrow> bool option" where
  "fd_isset fd s = (if 0 \<le> fd \<and> fd < int FD_SETSIZE then Some (fd \<in> s) else None)"

record fd_sets =
  fs_in :: "int set"
  fs_out :: "int set"
  fs_et :: "int set"

record wait_state = fd_sets +
  max_sock :: int

definition wait_start :: wait_state where
  "wait_start = \<lparr>fs_in = {}, fs_out = {}, fs_et = {}, max_sock = SOCK_DEFAULT\<rparr>"

section \<open>The loop that fills the sets\<close>

definition wants :: "u64 \<Rightarrow> netx_item \<Rightarrow> bool" where
  "wants e it \<longleftrightarrow> ev_events (ni_event it) AND e \<noteq> 0"

definition wait_max :: "netx_item \<Rightarrow> wait_state \<Rightarrow> wait_state" where
  "wait_max it ws = ws\<lparr>max_sock := (if max_sock ws < ni_fd it then ni_fd it else max_sock ws)\<rparr>"

definition wait_add_item :: "netx_item \<Rightarrow> wait_state \<Rightarrow> wait_state option" where
  "wait_add_item it ws = do {
     ws \<leftarrow> (if wants netx_event_in it
       then do { s \<leftarrow> fd_set_add (ni_fd it) (fs_in ws); Some (wait_max it (ws\<lparr>fs_in := s\<rparr>)) } else Some ws);
     ws \<leftarrow> (if wants netx_event_out it
       then do { s \<leftarrow> fd_set_add (ni_fd it) (fs_out ws); Some (wait_max it (ws\<lparr>fs_out := s\<rparr>)) } else Some ws);
     if wants netx_event_et it
       then do { s \<leftarrow> fd_set_add (ni_fd it) (fs_et ws); Some (wait_max it (ws\<lparr>fs_et := s\<rparr>)) } else Some ws }"

partial_function (option) wait_fill :: "ptr \<Rightarrow> netx_poll \<Rightarrow> wait_state \<Rightarrow> wait_state option" where
  "wait_fill item pl ws = do {
     it \<leftarrow> item_get item pl;
     ws \<leftarrow> wait_add_item it ws;
     if ni_next it = np_used_list pl then Some ws else wait_fill (ni_next it) pl ws }"

section \<open>The loop that collects the events\<close>

text \<open>The flags of the events of an item that are wanted and ready.\<close>

definition wait_flag :: "u64 \<Rightarrow> netx_item \<Rightarrow> int set \<Rightarrow> u64 option" where
  "wait_flag e it s = (if wants e it
     then do { b \<leftarrow> fd_isset (ni_fd it) s; Some (if b then e else 0) } else Some 0)"

definition wait_check :: "fd_sets \<Rightarrow> netx_item \<Rightarrow> u64 option" where
  "wait_check fs it = do {
     i \<leftarrow> wait_flag netx_event_in it (fs_in fs);
     j \<leftarrow> wait_flag netx_event_out it (fs_out fs);
     k \<leftarrow> wait_flag netx_event_et it (fs_et fs);
     Some (0 OR i OR j OR k) }"

datatype wait_end = Broken_ring | Events_full | All_checked

text \<open>\<open>events\<close> is the part of the caller's array that is filled.\<close>

partial_function (option) wait_collect ::
  "ptr \<Rightarrow> netx_poll \<Rightarrow> fd_sets \<Rightarrow> nat \<Rightarrow> netx_event list \<Rightarrow> (wait_end \<times> netx_event list) option" where
  "wait_collect item pl fs max_events_counts events = do {
     it \<leftarrow> item_get item pl;
     let item_next = ni_next it;
     if item_next = NULL then Some (Broken_ring, events)
     else do {
       event \<leftarrow> wait_check fs it;
       let events = (if event \<noteq> 0
         then events @ [\<lparr>ev_events = event, ev_data = ev_data (ni_event it)\<rparr>] else events);
       if event \<noteq> 0 \<and> length events = max_events_counts then Some (Events_full, events)
       else if item_next = np_used_list pl then Some (All_checked, events)
       else wait_collect item_next pl fs max_events_counts events } }"

section \<open>The operation\<close>

datatype wait_call = Sleep u32 | Select int fd_sets u64 u64

text \<open>
  The result: the value returned, the entries of \<open>events\<close> written, the object and the calls made.
  \<open>sleep\<close> takes an \<open>unsigned int\<close>.
\<close>

definition netx_poll_wait ::
  "(int \<Rightarrow> fd_sets \<Rightarrow> u64 \<Rightarrow> u64 \<Rightarrow> int \<times> fd_sets) \<Rightarrow> u64 \<Rightarrow> u64 \<Rightarrow> netx_poll
     \<Rightarrow> (int \<times> netx_event list \<times> netx_poll \<times> wait_call list) option" where
  "netx_poll_wait select max_events_counts timeout pl =
     (if np_counts pl = 0 then Some (0, [], pl, [Sleep (ucast (timeout div 1000))])
      else do {
        ws \<leftarrow> wait_fill (np_used_list pl) pl wait_start;
        if SOCK_DEFAULT = max_sock ws then Some (0, [], pl, [Sleep (ucast (timeout div 1000))])
        else do {
          let fs = fd_sets.truncate ws;
          let tv_sec = timeout div 1000;
          let tv_usec = 1000 * (timeout mod 1000);
          let calls = [Select (max_sock ws + 1) fs tv_sec tv_usec];
          let (ret, fs) = select (max_sock ws + 1) fs tv_sec tv_usec;
          if 0 > ret then Some (- 2, [], pl, calls)
          else if 0 < ret \<and> np_used_list pl \<noteq> NULL then do {
            (e, events) \<leftarrow> wait_collect (np_used_list pl) pl fs (unat max_events_counts) [];
            if e = All_checked then do {
              u \<leftarrow> item_get (np_used_list pl) pl;
              Some (int (length events), events, pl\<lparr>np_used_list := ni_next u\<rparr>, calls) }
            else Some (int (length events), events, pl, calls) }
          else Some (0, [], pl, calls) } })"

definition netx_wait ::
  "(int \<Rightarrow> fd_sets \<Rightarrow> u64 \<Rightarrow> u64 \<Rightarrow> int \<times> fd_sets) \<Rightarrow> int \<Rightarrow> bool \<Rightarrow> u64 \<Rightarrow> u64 \<Rightarrow> netx_polls
     \<Rightarrow> (int \<times> netx_event list \<times> netx_polls \<times> wait_call list) option" where
  "netx_wait select poll events_ok max_events_counts timeout s = (case netx_poll_obj poll s of
     None \<Rightarrow> Some (- 1, [], s, [])
   | Some pl \<Rightarrow>
       if \<not> events_ok \<or> max_events_counts = 0 then Some (- 1, [], s, [])
       else do {
         (r, events, pl, calls) \<leftarrow> netx_poll_wait select max_events_counts timeout pl;
         Some (r, events, s\<lparr>pl_list := (pl_list s)[nat (poll - 1) := Some pl]\<rparr>, calls) })"

section \<open>The loops over the ring\<close>

text \<open>What the two loops compute, over the list of items.\<close>

definition watched :: "u64 \<Rightarrow> netx_item list \<Rightarrow> int set" where
  "watched e its = ni_fd ` {it \<in> set its. wants e it}"

definition wants_any :: "netx_item \<Rightarrow> bool" where
  "wants_any it \<longleftrightarrow> wants netx_event_in it \<or> wants netx_event_out it \<or> wants netx_event_et it"

definition fd_ok :: "netx_item \<Rightarrow> bool" where
  "fd_ok it \<longleftrightarrow> (wants_any it \<longrightarrow> 0 \<le> ni_fd it \<and> ni_fd it < int FD_SETSIZE)"

definition ready :: "fd_sets \<Rightarrow> netx_item \<Rightarrow> u64" where
  "ready fs it = (if wants netx_event_in it \<and> ni_fd it \<in> fs_in fs then netx_event_in else 0)
     OR (if wants netx_event_out it \<and> ni_fd it \<in> fs_out fs then netx_event_out else 0)
     OR (if wants netx_event_et it \<and> ni_fd it \<in> fs_et fs then netx_event_et else 0)"

definition reports :: "fd_sets \<Rightarrow> netx_item list \<Rightarrow> netx_event list" where
  "reports fs its = map (\<lambda>it. \<lparr>ev_events = ready fs it, ev_data = ev_data (ni_event it)\<rparr>)
     (filter (\<lambda>it. ready fs it \<noteq> 0) its)"

lemma wait_check_ready: "fd_ok it \<Longrightarrow> wait_check fs it = Some (ready fs it)"
  by (auto simp: wait_check_def wait_flag_def ready_def fd_isset_def fd_ok_def wants_any_def)

text \<open>The ring as seen by its \<open>next\<close> pointers.\<close>

lemma ring_next:
  assumes "poll_inv pl us fs ch" "us = xs @ p # ys"
  shows "item_get p pl = Some (item_at pl p)" "p \<noteq> NULL"
    "ni_next (item_at pl p) = (case ys of [] \<Rightarrow> hd us | q # _ \<Rightarrow> q)"
    "np_used_list pl = hd us"
proof -
  note D = poll_invD [OF assms(1)]
  have v: "valid p pl" using D(17) [of p] assms(2) by simp
  then show "item_get p pl = Some (item_at pl p)" "p \<noteq> NULL"
    by (auto simp: item_get_at valid_def)
  from D(10) show "np_used_list pl = hd us"
    by (simp add: ring_ok_def assms(2) split: list.splits)
  obtain h t where us: "us = h # t" using assms(2) by (metis Nil_is_append_conv list.distinct(1) list.exhaust)
  have ring: "mring (links pl) h t" using D(10) by (simp add: ring_ok_def us)
  have "get_next p (links pl) = Some (case ys of [] \<Rightarrow> h | q # _ \<Rightarrow> q)"
  proof (cases xs)
    case Nil
    then show ?thesis using ring us assms(2) mring_get_next [of "links pl" h t] by (cases ys) auto
  next
    case (Cons a xs')
    then have "mring (links pl) h (xs' @ p # ys)" using ring us assms(2) by simp
    then have "mring (links pl) p (ys @ h # xs')" by (simp add: mring_rotate)
    then show ?thesis using mring_get_next [of "links pl" p "ys @ h # xs'"] by (cases ys) auto
  qed
  then show "ni_next (item_at pl p) = (case ys of [] \<Rightarrow> hd us | q # _ \<Rightarrow> q)"
    using v us by (simp add: links_read split: list.splits)
qed

lemma ring_next_first:
  assumes "poll_inv pl us fs ch" "us = xs @ p # ys"
  shows "ni_next (item_at pl p) = np_used_list pl \<longleftrightarrow> ys = []"
proof (cases ys)
  case (Cons q zs)
  have "distinct us" using poll_invD(5) [OF assms(1)] .
  then have "q \<noteq> hd us" using assms(2) Cons by (cases xs) auto
  then show ?thesis using ring_next [OF assms] Cons by simp
qed (use ring_next [OF assms] in simp)

lemma ring_next_notnull:
  assumes "poll_inv pl us fs ch" "us = xs @ p # ys"
  shows "ni_next (item_at pl p) \<noteq> NULL"
proof -
  have "ni_next (item_at pl p) \<in> set us"
    using ring_next(3) [OF assms] assms(2) by (cases ys; cases xs) auto
  then show ?thesis using poll_invD(17) [OF assms(1)] by (metis UnI1 valid_NULL)
qed

section \<open>What the loops compute\<close>

definition wait_add :: "netx_item \<Rightarrow> wait_state \<Rightarrow> wait_state" where
  "wait_add it ws = (let put = (\<lambda>e s. if wants e it then insert (ni_fd it) s else s) in
     ws\<lparr>fs_in := put netx_event_in (fs_in ws), fs_out := put netx_event_out (fs_out ws),
        fs_et := put netx_event_et (fs_et ws),
        max_sock := (if wants_any it then max (max_sock ws) (ni_fd it) else max_sock ws)\<rparr>)"

lemma wait_add_item_ok: "wait_add_item it ws = (if fd_ok it then Some (wait_add it ws) else None)"
  by (cases "wants netx_event_in it"; cases "wants netx_event_out it"; cases "wants netx_event_et it";
      simp add: wait_add_item_def fd_ok_def wants_any_def fd_set_add_def wait_max_def wait_add_def
        Let_def max_def)

lemma wait_fill_ok:
  assumes "poll_inv pl us fs ch" "us = xs @ p # ys"
  shows "wait_fill p pl ws = (if \<forall>q \<in> set (p # ys). fd_ok (item_at pl q)
    then Some (fold wait_add (map (item_at pl) (p # ys)) ws) else None)"
  using assms(2)
proof (induction ys arbitrary: xs p ws)
  case Nil
  then show ?case using ring_next(1) [OF assms(1) Nil] ring_next_first [OF assms(1) Nil]
    by (simp add: wait_fill.simps wait_add_item_ok)
next
  case (Cons q ys)
  have "us = (xs @ [p]) @ q # ys" using Cons.prems by simp
  note IH = Cons.IH [OF this]
  note nx = ring_next(1,3) [OF assms(1) Cons.prems] ring_next_first [OF assms(1) Cons.prems]
  have "wait_fill p pl ws = (if fd_ok (item_at pl p) then wait_fill q pl (wait_add (item_at pl p) ws) else None)"
    using nx by (subst wait_fill.simps) (simp add: wait_add_item_ok)
  then show ?case using IH by auto
qed

lemma fold_wait_add:
  "fs_in (fold wait_add its ws) = fs_in ws \<union> watched netx_event_in its"
  "fs_out (fold wait_add its ws) = fs_out ws \<union> watched netx_event_out its"
  "fs_et (fold wait_add its ws) = fs_et ws \<union> watched netx_event_et its"
  by (induction its arbitrary: ws) (auto simp: watched_def wait_add_def Let_def image_iff)

lemma fold_wait_max:
  "max_sock (fold wait_add its ws) = Max (insert (max_sock ws) (ni_fd ` {it \<in> set its. wants_any it}))"
proof -
  have "max_sock (fold wait_add its ws) = fold max (map ni_fd (filter wants_any its)) (max_sock ws)"
    by (induction its arbitrary: ws) (auto simp: wait_add_def Let_def max.commute)
  also have "\<dots> = Max (set (max_sock ws # map ni_fd (filter wants_any its)))"
    by (rule Max.set_eq_fold [symmetric])
  finally show ?thesis by simp
qed

lemma wait_collect_ok:
  assumes "poll_inv pl us ps ch" "us = xs @ p # ys" "\<forall>q \<in> set (p # ys). fd_ok (item_at pl q)"
    "length evs < n"
  shows "wait_collect p pl fs n evs = (let rs = evs @ reports fs (map (item_at pl) (p # ys)) in
    Some (if length rs < n then All_checked else Events_full, take n rs))"
  using assms(2-4)
proof (induction ys arbitrary: xs p evs)
  case Nil
  note nx = ring_next(1) [OF assms(1) Nil(1)] ring_next_first [OF assms(1) Nil(1)]
    ring_next_notnull [OF assms(1) Nil(1)]
  show ?case using nx Nil(2,3)
    by (subst wait_collect.simps) (auto simp: wait_check_ready reports_def Let_def)
next
  case (Cons q ys)
  have us: "us = (xs @ [p]) @ q # ys" using Cons.prems by simp
  note nx = ring_next(1,3) [OF assms(1) Cons.prems(1)] ring_next_first [OF assms(1) Cons.prems(1)]
    ring_next_notnull [OF assms(1) Cons.prems(1)]
  define e where "e = ready fs (item_at pl p)"
  define evs' where "evs' = (if e \<noteq> 0 then evs @ [\<lparr>ev_events = e, ev_data = ev_data (ni_event (item_at pl p))\<rparr>] else evs)"
  have split: "evs @ reports fs (map (item_at pl) (p # q # ys)) = evs' @ reports fs (map (item_at pl) (q # ys))"
    by (simp add: reports_def evs'_def e_def)
  have step: "wait_collect p pl fs n evs = (if e \<noteq> 0 \<and> length evs' = n then Some (Events_full, evs')
      else wait_collect q pl fs n evs')"
    using nx Cons.prems(2) by (subst wait_collect.simps) (simp add: wait_check_ready Let_def e_def evs'_def)
  show ?case
  proof (cases "e \<noteq> 0 \<and> length evs' = n")
    case True
    then show ?thesis unfolding split step by (simp add: Let_def)
  next
    case False
    then have "length evs' < n" using Cons.prems(3) by (auto simp: evs'_def split: if_splits)
    then show ?thesis unfolding split step using False Cons.IH [OF us] Cons.prems(2) by auto
  qed
qed

section \<open>The operation on the map\<close>

text \<open>The descriptors of a map whose events ask for \<open>e\<close>.\<close>

definition watch :: "(int \<rightharpoonup> netx_event) \<Rightarrow> u64 \<Rightarrow> int set" where
  "watch m e = {fd. \<exists>ev. m fd = Some ev \<and> ev_events ev AND e \<noteq> 0}"

definition watch_any :: "(int \<rightharpoonup> netx_event) \<Rightarrow> int set" where
  "watch_any m = watch m netx_event_in \<union> watch m netx_event_out \<union> watch m netx_event_et"

lemma watched_watch:
  assumes "poll_inv pl us fs ch"
  shows "watched e (map (item_at pl) us) = watch (netx_lookup pl) e"
  using lookup_iff [OF assms] by (force simp: watched_def watch_def wants_def fd_of_def)

lemma watch_any_items:
  assumes "poll_inv pl us fs ch"
  shows "watch_any (netx_lookup pl) = ni_fd ` {it \<in> set (map (item_at pl) us). wants_any it}"
  unfolding watch_any_def watched_watch [OF assms, symmetric] by (auto simp: watched_def wants_any_def)

lemma fd_ok_watch:
  assumes "poll_inv pl us fs ch"
  shows "(\<forall>q \<in> set us. fd_ok (item_at pl q)) \<longleftrightarrow> (\<forall>fd \<in> watch_any (netx_lookup pl). fd < int FD_SETSIZE)"
  unfolding watch_any_items [OF assms] using poll_invD(15) [OF assms]
  by (auto simp: fd_ok_def fd_of_def)

lemma watch_any_nonneg:
  assumes "poll_inv pl us fs ch" "fd \<in> watch_any (netx_lookup pl)"
  shows "0 \<le> fd"
  using assms(2) poll_invD(15) [OF assms(1)] unfolding watch_any_items [OF assms(1)] by (auto simp: fd_of_def)

text \<open>The first part of the operation: what is passed to \<open>select\<close>.\<close>

lemma wait_fill_watch:
  assumes inv: "poll_inv pl us fs ch" and us: "us \<noteq> []"
    and ok: "\<forall>fd \<in> watch_any (netx_lookup pl). fd < int FD_SETSIZE"
  shows "wait_fill (np_used_list pl) pl wait_start = Some
    \<lparr>fs_in = watch (netx_lookup pl) netx_event_in, fs_out = watch (netx_lookup pl) netx_event_out,
     fs_et = watch (netx_lookup pl) netx_event_et, max_sock = Max (insert 0 (watch_any (netx_lookup pl)))\<rparr>"
proof -
  obtain h t where ht: "us = [] @ h # t" using us by (cases us) auto
  have h: "np_used_list pl = h" using ring_next(4) [OF inv ht] ht by simp
  have okq: "\<forall>q \<in> set (h # t). fd_ok (item_at pl q)" using ok fd_ok_watch [OF inv] ht by simp
  have "wait_fill h pl wait_start = Some (fold wait_add (map (item_at pl) us) wait_start)"
    unfolding wait_fill_ok [OF inv ht] if_P [OF okq] using ht by simp
  moreover have "fold wait_add (map (item_at pl) us) wait_start =
    \<lparr>fs_in = watch (netx_lookup pl) netx_event_in, fs_out = watch (netx_lookup pl) netx_event_out,
     fs_et = watch (netx_lookup pl) netx_event_et, max_sock = Max (insert 0 (watch_any (netx_lookup pl)))\<rparr>"
    unfolding watch_any_items [OF inv] watched_watch [OF inv, symmetric]
    by (rule wait_state.equality, simp_all only: fold_wait_add fold_wait_max wait_start_def
        SOCK_DEFAULT_def wait_state.simps fd_sets.simps Un_empty_left, simp)
  ultimately show ?thesis by (simp add: h)
qed

lemma watch_any_finite: "poll_inv pl us fs ch \<Longrightarrow> finite (watch_any (netx_lookup pl))"
  by (simp add: watch_any_items)

lemma Max_zero:
  "finite A \<Longrightarrow> (\<And>x. x \<in> A \<Longrightarrow> 0 \<le> x) \<Longrightarrow> Max (insert (0 :: int) A) = 0 \<longleftrightarrow> A \<subseteq> {0}"
  by (subst Max_eq_iff) force+

lemma Max_insert_zero:
  "finite A \<Longrightarrow> (\<And>x. x \<in> A \<Longrightarrow> 0 \<le> x) \<Longrightarrow> \<not> A \<subseteq> {0} \<Longrightarrow> Max (insert (0 :: int) A) = Max A"
  by (subst Max_insert) (auto simp: max_def intro: order_antisym, meson Max_ge order_trans)

lemma poll_inv_rotate:
  assumes inv: "poll_inv pl us fs ch" and us: "us \<noteq> []"
  shows "\<exists>u. item_get (np_used_list pl) pl = Some u
    \<and> poll_inv (pl\<lparr>np_used_list := ni_next u\<rparr>) (rotate1 us) fs ch"
proof -
  obtain h t where ht: "us = [] @ h # t" using us by (cases us) auto
  note nx = ring_next [OF inv ht]
  let ?pl = "pl\<lparr>np_used_list := ni_next (item_at pl h)\<rparr>"
  have ring: "mring (links pl) h t" using poll_invD(10) [OF inv] ht by (simp add: ring_ok_def)
  have "ring_ok ?pl (rotate1 us)"
  proof (cases t)
    case Nil
    then show ?thesis using ring nx ht by (simp add: ring_ok_def)
  next
    case (Cons q zs)
    then have "mring (links pl) q (zs @ [h])" using ring mring_rotate [of "links pl" h "[]" q zs] by simp
    then show ?thesis using Cons nx ht by (simp add: ring_ok_def)
  qed
  moreover have "hchain ?pl p xs = hchain pl p xs" for p xs
    by (induction xs arbitrary: p) auto
  moreover have "fd_of ?pl = fd_of pl" by (simp add: fd_of_def fun_eq_iff)
  ultimately have "poll_inv ?pl (rotate1 us) fs ch"
    using inv ht by (auto simp: poll_inv_def)
  then show ?thesis using nx ht by simp
qed

lemma lookup_rotate:
  assumes "poll_inv pl us fs ch" "poll_inv (pl\<lparr>np_used_list := u\<rparr>) us' fs' ch'" "set us' = set us"
  shows "netx_lookup (pl\<lparr>np_used_list := u\<rparr>) = netx_lookup pl"
  by (rule lookup_eqI [OF assms(2)]) (simp add: lookup_iff [OF assms(1)] assms(3) fd_of_def)

section \<open>Properties\<close>

lemma wait_bad_fd:
  assumes inv: "poll_inv pl us fs ch" and bad: "\<not> (\<forall>fd \<in> watch_any (netx_lookup pl). fd < int FD_SETSIZE)"
  shows "netx_poll_wait select mx timeout pl = None"
proof -
  have "us \<noteq> []" using bad by (auto simp: watch_any_items [OF inv])
  then obtain h t where ht: "us = [] @ h # t" by (cases us) auto
  have h: "np_used_list pl = h" using ring_next(4) [OF inv ht] ht by simp
  have "\<not> (\<forall>q \<in> set (h # t). fd_ok (item_at pl q))" using bad fd_ok_watch [OF inv] ht by simp
  then have "wait_fill h pl wait_start = None" unfolding wait_fill_ok [OF inv ht] by (rule if_not_P)
  moreover have "np_counts pl \<noteq> 0" using poll_invD(9) [OF inv] ht by simp
  ultimately show ?thesis by (simp add: netx_poll_wait_def h)
qed

lemma wait_nothing:
  assumes inv: "poll_inv pl us fs ch" and no: "watch_any (netx_lookup pl) \<subseteq> {0}"
  shows "netx_poll_wait select mx timeout pl = Some (0, [], pl, [Sleep (ucast (timeout div 1000))])"
proof (cases "us = []")
  case True
  then show ?thesis using poll_invD(9) [OF inv] by (simp add: netx_poll_wait_def)
next
  case False
  have "\<forall>fd \<in> watch_any (netx_lookup pl). fd < int FD_SETSIZE" using no by (auto simp: FD_SETSIZE_def)
  moreover have "Max (insert 0 (watch_any (netx_lookup pl))) = 0"
    using Max_zero [OF watch_any_finite [OF inv]] watch_any_nonneg [OF inv] no by blast
  ultimately show ?thesis using wait_fill_watch [OF inv False] poll_invD(9) [OF inv] False
    by (simp add: netx_poll_wait_def SOCK_DEFAULT_def)
qed

text \<open>The descriptor sets that describe what a map asks for.\<close>

definition watch_sets :: "(int \<rightharpoonup> netx_event) \<Rightarrow> fd_sets" where
  "watch_sets m = \<lparr>fs_in = watch m netx_event_in, fs_out = watch m netx_event_out,
     fs_et = watch m netx_event_et\<rparr>"

lemma wait_select:
  assumes inv: "poll_inv pl us fs ch" and some: "\<not> watch_any (netx_lookup pl) \<subseteq> {0}"
    and ok: "\<forall>fd \<in> watch_any (netx_lookup pl). fd < int FD_SETSIZE" and mx: "mx \<noteq> 0"
    and sel: "select (Max (watch_any (netx_lookup pl)) + 1) (watch_sets (netx_lookup pl))
      (timeout div 1000) (1000 * (timeout mod 1000)) = (ret, rs)"
  shows "\<exists>pl'. netx_poll_wait select mx timeout pl = Some
      (if ret < 0 then - 2 else if ret = 0 then 0
         else int (length (take (unat mx) (reports rs (map (item_at pl) us)))),
       if ret \<le> 0 then [] else take (unat mx) (reports rs (map (item_at pl) us)), pl',
       [Select (Max (watch_any (netx_lookup pl)) + 1) (watch_sets (netx_lookup pl))
         (timeout div 1000) (1000 * (timeout mod 1000))])
    \<and> (if 0 < ret \<and> length (reports rs (map (item_at pl) us)) < unat mx
       then poll_inv pl' (rotate1 us) fs ch \<and> netx_lookup pl' = netx_lookup pl else pl' = pl)"
proof -
  have us: "us \<noteq> []" using some by (auto simp: watch_any_items [OF inv])
  then obtain h t where ht: "us = [] @ h # t" by (cases us) auto
  have h: "np_used_list pl = h" "h \<noteq> 0" using ring_next(2,4) [OF inv ht] ht by simp_all
  have okq: "\<forall>q \<in> set (h # t). fd_ok (item_at pl q)" using ok fd_ok_watch [OF inv] ht by simp
  have Mx: "Max (insert 0 (watch_any (netx_lookup pl))) = Max (watch_any (netx_lookup pl))"
    using Max_insert_zero [OF watch_any_finite [OF inv] _ some] watch_any_nonneg [OF inv] by blast
  have nz: "Max (watch_any (netx_lookup pl)) \<noteq> 0"
    using Max_zero [OF watch_any_finite [OF inv]] watch_any_nonneg [OF inv] some Mx by metis
  have n: "length ([] :: netx_event list) < unat mx" using mx by (simp add: unat_gt_0)
  note col = wait_collect_ok [OF inv ht okq n]
  have its: "map (item_at pl) (h # t) = map (item_at pl) us" using ht by simp
  define rep where "rep = reports rs (map (item_at pl) us)"
  have collect: "wait_collect h pl rs (unat mx) [] =
      Some (if length rep < unat mx then All_checked else Events_full, take (unat mx) rep)"
    unfolding col its rep_def [symmetric] by (simp add: Let_def)
  obtain u where u: "item_get h pl = Some u" "poll_inv (pl\<lparr>np_used_list := ni_next u\<rparr>) (rotate1 us) fs ch"
    using poll_inv_rotate [OF inv us] h(1) by auto
  note lk = lookup_rotate [OF inv u(2)]
  have "netx_poll_wait select mx timeout pl = (if ret < 0 then Some (- 2, [], pl,
        [Select (Max (watch_any (netx_lookup pl)) + 1) (watch_sets (netx_lookup pl)) (timeout div 1000) (1000 * (timeout mod 1000))])
      else if ret = 0 then Some (0, [], pl,
        [Select (Max (watch_any (netx_lookup pl)) + 1) (watch_sets (netx_lookup pl)) (timeout div 1000) (1000 * (timeout mod 1000))])
      else Some (int (length (take (unat mx) rep)), take (unat mx) rep,
        if length rep < unat mx then pl\<lparr>np_used_list := ni_next u\<rparr> else pl,
        [Select (Max (watch_any (netx_lookup pl)) + 1) (watch_sets (netx_lookup pl)) (timeout div 1000) (1000 * (timeout mod 1000))]))"
    using us wait_fill_watch [OF inv us ok] poll_invD(9) [OF inv] nz sel h collect u(1)
    by (auto simp: netx_poll_wait_def Mx SOCK_DEFAULT_def fd_sets.truncate_def watch_sets_def Let_def)
  then show ?thesis using u(2) lk unfolding rep_def [symmetric] by auto
qed

text \<open>
  C11. What \<open>netx_wait\<close> asks the system: with no descriptor to watch it sleeps for the whole
  seconds of the timeout; otherwise it passes to \<open>select\<close> exactly the registered descriptors whose
  events ask for reading, for writing and for exceptions, with a bound above all of them and the
  timeout. Two limits show: a poll object that watches descriptor \<open>0\<close> alone sleeps and never sees
  it ready, and a watched descriptor of \<open>FD_SETSIZE\<close> or more makes the call undefined.
\<close>

theorem netx_wait_asks:
  assumes "netx_inv pl" "netx_poll_obj poll s = Some pl" "mx \<noteq> 0"
    and "m = netx_lookup pl" "A = watch_any m"
  shows "((\<exists>fd \<in> A. int FD_SETSIZE \<le> fd) \<longrightarrow> netx_wait select poll True mx timeout s = None)
    \<and> (A \<subseteq> {0} \<longrightarrow> (\<exists>s'. netx_wait select poll True mx timeout s
        = Some (0, [], s', [Sleep (ucast (timeout div 1000))])))
    \<and> (\<not> A \<subseteq> {0} \<and> (\<forall>fd \<in> A. fd < int FD_SETSIZE) \<longrightarrow>
        (\<exists>r evs s'. netx_wait select poll True mx timeout s = Some (r, evs, s',
          [Select (Max A + 1) (watch_sets m) (timeout div 1000) (1000 * (timeout mod 1000))])))"
proof -
  obtain us fs ch where inv: "poll_inv pl us fs ch" using assms(1) by (auto simp: netx_inv_def)
  have "netx_wait select poll True mx timeout s = None" if "\<exists>fd \<in> A. int FD_SETSIZE \<le> fd"
    using wait_bad_fd [OF inv] assms that by (force simp: netx_wait_def)
  moreover have "\<exists>s'. netx_wait select poll True mx timeout s = Some (0, [], s', [Sleep (ucast (timeout div 1000))])"
    if "A \<subseteq> {0}"
    using wait_nothing [OF inv] assms that by (simp add: netx_wait_def)
  moreover have "\<exists>r evs s'. netx_wait select poll True mx timeout s
      = Some (r, evs, s', [Select (Max A + 1) (watch_sets m) (timeout div 1000) (1000 * (timeout mod 1000))])"
    if A: "\<not> A \<subseteq> {0}" "\<forall>fd \<in> A. fd < int FD_SETSIZE"
  proof -
    obtain ret rs where "select (Max (watch_any (netx_lookup pl)) + 1) (watch_sets (netx_lookup pl))
      (timeout div 1000) (1000 * (timeout mod 1000)) = (ret, rs)" by (metis prod.exhaust)
    from wait_select [where select = select, OF inv _ _ assms(3) this] A assms show ?thesis
      by (auto simp: netx_wait_def)
  qed
  ultimately show ?thesis by blast
qed

text \<open>A poll object that watches one descriptor, for examples.\<close>

lemma single_watch:
  assumes "0 \<le> fd"
  shows "\<exists>pl us fs ch. poll_inv pl us fs ch \<and> netx_lookup pl = [fd \<mapsto> ev]
    \<and> (\<exists>it. map (item_at pl) us = [it] \<and> ni_fd it = fd \<and> ni_event it = ev)"
proof -
  have inv: "netx_inv (netx_poll_new 1)" using poll_new_inv [of 1] by (auto simp: netx_inv_def)
  have abs: "netx_abs (netx_poll_new 1) = (Map.empty, 1)"
    using lookup_eqI [OF poll_new_inv [of 1], of Map.empty] by (simp add: netx_abs_def netx_poll_new_def)
  have "run_total netx_spec [(netx_ctl_add, fd, Some ev)] (Map.empty, 1) = ([0], ([fd \<mapsto> ev], 1))"
    using assms by (simp add: netx_ctl_add_def netx_ctl_del_def netx_ctl_mod_def)
  moreover obtain rs pl where run: "netx_inv pl"
    "run_total netx_spec [(netx_ctl_add, fd, Some ev)] (netx_abs (netx_poll_new 1)) = (rs, netx_abs pl)"
    using netx.run [OF inv, of "[(netx_ctl_add, fd, Some ev)]"] by blast
  ultimately have pl: "netx_inv pl" "netx_lookup pl = [fd \<mapsto> ev]"
    unfolding abs by (simp_all add: netx_abs_def del: run_total.simps)
  then obtain us fs ch where P: "poll_inv pl us fs ch" by (auto simp: netx_inv_def)
  have "length us = 1" using lookup_card(1) [OF P] pl(2) by simp
  then obtain p where us: "us = [p]" by (cases us) auto
  have "netx_lookup pl fd = Some ev" using pl(2) by simp
  then have "fd_of pl p = fd \<and> ni_event (item_at pl p) = ev"
    unfolding lookup_iff [OF P] us by simp
  then have "\<exists>it. map (item_at pl) us = [it] \<and> ni_fd it = fd \<and> ni_event it = ev"
    by (simp add: us fd_of_def)
  with P pl(2) show ?thesis
    by (intro exI [of _ pl] exI [of _ us] exI [of _ fs] exI [of _ ch] conjI)
qed

definition single_poll :: "netx_poll \<Rightarrow> netx_polls" where
  "single_poll pl = \<lparr>pl_counts = 1, pl_max_counts = 1, pl_list = [Some pl]\<rparr>"

lemma single_poll_obj: "netx_poll_obj 1 (single_poll pl) = Some pl"
  by (simp add: netx_poll_obj_def single_poll_def)

theorem netx_wait_asks_witness:
  "\<exists>pl s'. netx_lookup pl = [0 \<mapsto> \<lparr>ev_events = 1, ev_data = 7\<rparr>]
     \<and> netx_wait (\<lambda>_ fs _ _. (1, fs)) 1 True 8 2500 (single_poll pl) = Some (0, [], s', [Sleep 2])"
proof -
  obtain pl where pl: "netx_inv pl" "netx_lookup pl = [0 \<mapsto> \<lparr>ev_events = 1, ev_data = 7\<rparr>]"
    using single_watch [of 0 "\<lparr>ev_events = 1, ev_data = 7\<rparr>"] by (auto simp: netx_inv_def)
  have "watch_any (netx_lookup pl) \<subseteq> {0}"
    by (auto simp: watch_any_def watch_def pl(2) split: if_splits)
  then show ?thesis
    using netx_wait_asks [OF pl(1) single_poll_obj _ refl refl, of 8 "\<lambda>_ fs _ _. (1, fs)" 2500] pl(2)
    by auto
qed

text \<open>
  C12. What \<open>netx_wait\<close> reports: of the registered descriptors, in the order of the ring, those for
  which \<open>select\<close> answered an event that they ask for, each with these events and its own data, cut
  off at the size of the caller's array. The registrations never change; the ring moves on by one
  item when all were checked, and not at all when the array was filled, so that the same
  descriptors come first again at the next call.
\<close>

theorem netx_wait_reports:
  assumes inv: "poll_inv pl us fs ch" and obj: "netx_poll_obj poll s = Some pl" and mx: "mx \<noteq> 0"
    and A: "\<not> watch_any (netx_lookup pl) \<subseteq> {0}" "\<forall>fd \<in> watch_any (netx_lookup pl). fd < int FD_SETSIZE"
    and sel: "select (Max (watch_any (netx_lookup pl)) + 1) (watch_sets (netx_lookup pl))
      (timeout div 1000) (1000 * (timeout mod 1000)) = (ret, rs)" "0 < ret"
  shows "\<exists>evs pl' calls. netx_wait select poll True mx timeout s
      = Some (int (length evs), evs, s\<lparr>pl_list := (pl_list s)[nat (poll - 1) := Some pl']\<rparr>, calls)
    \<and> evs = take (unat mx) (reports rs (map (item_at pl) us))
    \<and> netx_lookup pl' = netx_lookup pl
    \<and> poll_inv pl' (if length (reports rs (map (item_at pl) us)) < unat mx then rotate1 us else us) fs ch"
  using wait_select [where select = select, OF inv A mx sel(1)] sel(2) inv obj mx
  by (auto simp: netx_wait_def split: if_splits)

theorem netx_wait_reports_witness:
  "\<exists>pl s' calls. netx_lookup pl = [5 \<mapsto> \<lparr>ev_events = 3, ev_data = 7\<rparr>]
     \<and> netx_wait (\<lambda>_ fs _ _. (1, fs\<lparr>fs_out := {}\<rparr>)) 1 True 1 0 (single_poll pl)
       = Some (1, [\<lparr>ev_events = 1, ev_data = 7\<rparr>], s', calls)"
proof -
  define ev :: netx_event where "ev = \<lparr>ev_events = 3, ev_data = 7\<rparr>"
  obtain pl us fs ch it where pl: "poll_inv pl us fs ch" "netx_lookup pl = [5 \<mapsto> ev]"
    and it: "map (item_at pl) us = [it]" "ni_fd it = 5" "ni_event it = ev"
    using single_watch [of 5 ev] by auto
  have bits: "ev_events ev AND netx_event_in = 1" "ev_events ev AND netx_event_out = 2"
    "ev_events ev AND netx_event_et = 0"
    by (simp_all add: ev_def netx_event_in_def netx_event_out_def netx_event_et_def)
  have W: "watch (netx_lookup pl) netx_event_in = {5}" "watch (netx_lookup pl) netx_event_out = {5}"
    "watch (netx_lookup pl) netx_event_et = {}"
    by (auto simp: watch_def pl(2) bits)
  then have A: "watch_any (netx_lookup pl) = {5}" by (simp add: watch_any_def)
  define rs where "rs = watch_sets (netx_lookup pl)\<lparr>fs_out := {}\<rparr>"
  have rep: "reports rs (map (item_at pl) us) = [\<lparr>ev_events = 1, ev_data = 7\<rparr>]"
    using bits W by (simp add: it reports_def ready_def wants_def rs_def watch_sets_def)
      (simp add: ev_def netx_event_in_def)
  have nA: "\<not> watch_any (netx_lookup pl) \<subseteq> {0}"
    and okA: "\<forall>fd \<in> watch_any (netx_lookup pl). fd < int FD_SETSIZE"
    by (simp_all add: A FD_SETSIZE_def)
  from netx_wait_reports [where select = "\<lambda>_ fs _ _. (1, fs\<lparr>fs_out := {}\<rparr>)" and mx = 1
      and timeout = 0 and ret = 1 and rs = rs, OF pl(1) single_poll_obj _ nA okA] rep
  show ?thesis using pl(2) by (auto simp: ev_def rs_def)
qed

end
