(* ===== verification/NetxSock.thy ===== *)
theory NetxSock
  imports Sys "HOL-Library.Signed_Division"
begin

text \<open>
  The socket functions of \<open>frameworks/mlib/netx/netx.c\<close>: opening, connecting and accepting sockets,
  keep-alive, the search for the local address, and the two-family address \<open>netx_sockaddr\<close>.
  Calls into the system are those of \<open>net_call\<close>; descriptors are the answers to \<open>socket\<close> and
  \<open>accept\<close>. Name resolution, \<open>inet_aton\<close> and \<open>inet_addr\<close> are arguments.
\<close>

section \<open>Addresses\<close>

text \<open>
  Fields are in network byte order, as the code stores them, read on a little-endian machine. The
  family is the constructor of \<open>sockaddr\<close>; the copies of it inside \<open>addr_v4\<close> and \<open>addr_v6\<close> are
  written and not read, and are left out.
\<close>

record sockaddr_in =
  sin_port :: u16
  sin_addr :: u32

record sockaddr_in6 =
  sin6_port :: u16
  sin6_addr :: bytes

datatype sockaddr = Sa_zero | Sa_in sockaddr_in | Sa_in6 sockaddr_in6 | Sa_other

definition SOCK_STREAM :: int where "SOCK_STREAM = 1"
definition SOCK_DGRAM :: int where "SOCK_DGRAM = 2"
definition O_NONBLOCK :: int where "O_NONBLOCK = 2048"
definition EAGAIN :: int where "EAGAIN = 11"
definition EINPROGRESS :: int where "EINPROGRESS = 115"
definition netx_open_flag_reuse_addr :: u64 where "netx_open_flag_reuse_addr = 1"

text \<open>\<open>ntohs\<close> and \<open>htons\<close> swap the two bytes.\<close>

definition ntohs :: "u16 \<Rightarrow> u16" where
  "ntohs x = push_bit 8 x OR drop_bit 8 x"

record netx_sockaddr =
  ns_addr :: sockaddr
  ns_addr_len :: int
  ns_addr_v4 :: sockaddr_in
  ns_addr_v6 :: sockaddr_in6

definition netx_sockaddr_zero :: netx_sockaddr where
  "netx_sockaddr_zero = \<lparr>ns_addr = Sa_zero, ns_addr_len = 0,
     ns_addr_v4 = \<lparr>sin_port = 0, sin_addr = 0\<rparr>,
     ns_addr_v6 = \<lparr>sin6_port = 0, sin6_addr = replicate 16 0\<rparr>\<rparr>"

definition sizeof_sockaddr_in :: int where "sizeof_sockaddr_in = 16"
definition sizeof_sockaddr_in6 :: int where "sizeof_sockaddr_in6 = 28"

definition is_v4 :: "netx_sockaddr \<Rightarrow> bool" where
  "is_v4 a = (case ns_addr a of Sa_in _ \<Rightarrow> True | _ \<Rightarrow> False)"

definition netx_sockaddr_get_port :: "netx_sockaddr option \<Rightarrow> u16" where
  "netx_sockaddr_get_port so_addr = ntohs (case so_addr of None \<Rightarrow> 0
     | Some a \<Rightarrow> if is_v4 a then sin_port (ns_addr_v4 a) else sin6_port (ns_addr_v6 a))"

definition netx_sockaddr_set_port :: "netx_sockaddr option \<Rightarrow> u16 \<Rightarrow> netx_sockaddr option" where
  "netx_sockaddr_set_port so_addr port = (case so_addr of None \<Rightarrow> None
     | Some a \<Rightarrow> Some (if is_v4 a
         then a\<lparr>ns_addr_v4 := (ns_addr_v4 a)\<lparr>sin_port := ntohs port\<rparr>\<rparr>
         else a\<lparr>ns_addr_v6 := (ns_addr_v6 a)\<lparr>sin6_port := ntohs port\<rparr>\<rparr>))"

text \<open>The last four bytes of a v6 address, as a v4 address.\<close>

definition tail_v4 :: "bytes \<Rightarrow> u32" where
  "tail_v4 bs = (let b = (\<lambda>i. ucast (bs ! i) :: u32) in
     b 12 OR push_bit 8 (b 13) OR push_bit 16 (b 14) OR push_bit 24 (b 15))"

text \<open>\<open>NULL\<close> arguments are \<open>None\<close>.\<close>

definition netx_get_sockaddr_by_addr ::
  "sockaddr option \<Rightarrow> netx_sockaddr option \<Rightarrow> int \<times> netx_sockaddr option" where
  "netx_get_sockaddr_by_addr addr so_addr = (case (addr, so_addr) of
     (Some (Sa_in a), Some _) \<Rightarrow> (0, Some (netx_sockaddr_zero\<lparr>ns_addr_len := sizeof_sockaddr_in,
       ns_addr_v4 := a, ns_addr := Sa_in a\<rparr>))
   | (Some (Sa_in6 a), Some _) \<Rightarrow> (0, Some (netx_sockaddr_zero\<lparr>ns_addr_len := sizeof_sockaddr_in6,
       ns_addr_v6 := a, ns_addr := Sa_in6 a,
       ns_addr_v4 := \<lparr>sin_port = sin6_port a, sin_addr = tail_v4 (sin6_addr a)\<rparr>\<rparr>))
   | (Some _, Some _) \<Rightarrow> (- 1, Some netx_sockaddr_zero)
   | _ \<Rightarrow> (- 1, so_addr))"

definition netx_get_sockaddr_by_addr_v4 ::
  "sockaddr_in option \<Rightarrow> netx_sockaddr option \<Rightarrow> int \<times> netx_sockaddr option" where
  "netx_get_sockaddr_by_addr_v4 addr_v4 so_addr = (case (addr_v4, so_addr) of
     (Some a, Some _) \<Rightarrow> (0, Some (netx_sockaddr_zero\<lparr>ns_addr_len := sizeof_sockaddr_in,
       ns_addr_v4 := a, ns_addr := Sa_in a\<rparr>))
   | _ \<Rightarrow> (- 1, so_addr))"

section \<open>Name resolution\<close>

text \<open>
  \<open>getaddrinfo\<close> is an argument: from the host and the port it answers an error number and a list
  of addresses. The loop keeps the last address of each family. \<open>ip\<close> is the memory \<open>ip\<close> points to;
  the copy into the buffer of 256 bytes is undefined when it is too long, and a buffer that is
  filled completely has no terminator of its own.
\<close>

type_synonym getaddrinfo = "string \<Rightarrow> int \<Rightarrow> int \<times> sockaddr list"

definition copy_ip :: "string option \<Rightarrow> int \<Rightarrow> string option" where
  "copy_ip ip ip_len = (case ip of
     None \<Rightarrow> Some []
   | Some s \<Rightarrow> if 0 \<le> ip_len \<and> nat ip_len \<le> 256 \<and> nat ip_len \<le> length s
         \<and> (nat ip_len = 256 \<longrightarrow> CHR 0x00 \<in> set (take 256 s))
       then Some (takeWhile (\<lambda>c. c \<noteq> CHR 0x00) (take (nat ip_len) s)) else None)"

fun last_v4 :: "sockaddr list \<Rightarrow> sockaddr_in option \<Rightarrow> sockaddr_in option" where
  "last_v4 [] acc = acc"
| "last_v4 (Sa_in a # res) acc = last_v4 res (Some a)"
| "last_v4 (_ # res) acc = last_v4 res acc"

fun last_v6 :: "sockaddr list \<Rightarrow> sockaddr_in6 option \<Rightarrow> sockaddr_in6 option" where
  "last_v6 [] acc = acc"
| "last_v6 (Sa_in6 a # res) acc = last_v6 res (Some a)"
| "last_v6 (_ # res) acc = last_v6 res acc"

text \<open>The common end: both copies are kept, and a v6 address is preferred as the address.\<close>

definition store_addrs :: "sockaddr_in option \<Rightarrow> sockaddr_in6 option \<Rightarrow> netx_sockaddr \<Rightarrow> netx_sockaddr" where
  "store_addrs addr_in4 addr_in6 so = (let
     so = (case addr_in4 of None \<Rightarrow> so | Some a \<Rightarrow> so\<lparr>ns_addr_v4 := a\<rparr>);
     so = (case addr_in6 of None \<Rightarrow> so | Some a \<Rightarrow> so\<lparr>ns_addr_v6 := a\<rparr>) in
     case (addr_in6, addr_in4) of
       (Some a, _) \<Rightarrow> so\<lparr>ns_addr_len := sizeof_sockaddr_in6, ns_addr := Sa_in6 a\<rparr>
     | (None, Some a) \<Rightarrow> so\<lparr>ns_addr_len := sizeof_sockaddr_in, ns_addr := Sa_in a\<rparr>
     | (None, None) \<Rightarrow> so)"

definition netx_get_sockaddr_by_string ::
  "getaddrinfo \<Rightarrow> string option \<Rightarrow> int \<Rightarrow> int \<Rightarrow> netx_sockaddr option \<Rightarrow> (int \<times> netx_sockaddr option) option" where
  "netx_get_sockaddr_by_string gai ip ip_len port so_addr = (case so_addr of
     None \<Rightarrow> Some (- 1, None)
   | Some _ \<Rightarrow> do {
       temp_ip \<leftarrow> copy_ip ip ip_len;
       let (ret, res) = gai temp_ip port;
       if ret \<noteq> 0 then Some (ret, Some netx_sockaddr_zero)
       else do {
         let p = ntohs (word_of_int port);
         Some (ret, Some (store_addrs
           (map_option (\<lambda>a. a\<lparr>sin_port := p\<rparr>) (last_v4 res None))
           (map_option (\<lambda>a. a\<lparr>sin6_port := p\<rparr>) (last_v6 res None)) netx_sockaddr_zero)) } })"

text \<open>
  The local address, in the configuration with \<open>getifaddrs\<close>, an argument: its error number and the
  addresses of the interfaces, \<open>None\<close> for an interface without one. Here the first of each family
  counts, but for \<open>127.0.0.1\<close>, link-local v6 addresses, and those that begin with a zero byte.
\<close>

fun local_v4 :: "sockaddr option list \<Rightarrow> sockaddr_in option \<Rightarrow> sockaddr_in option" where
  "local_v4 [] acc = acc"
| "local_v4 (Some (Sa_in a) # res) acc =
     local_v4 res (if acc = None \<and> sin_addr a \<noteq> 0x100007F then Some a else acc)"
| "local_v4 (_ # res) acc = local_v4 res acc"

fun local_v6 :: "sockaddr option list \<Rightarrow> sockaddr_in6 option \<Rightarrow> sockaddr_in6 option" where
  "local_v6 [] acc = acc"
| "local_v6 (Some (Sa_in6 a) # res) acc =
     local_v6 res (if acc = None \<and> \<not> (sin6_addr a ! 0 = 0xfe \<and> sin6_addr a ! 1 = 0x80 \<or> sin6_addr a ! 0 = 0)
       then Some a else acc)"
| "local_v6 (_ # res) acc = local_v6 res acc"

definition netx_get_local_ip_2 ::
  "int \<times> sockaddr option list \<Rightarrow> netx_sockaddr option \<Rightarrow> int \<times> netx_sockaddr option" where
  "netx_get_local_ip_2 ifaddrs so_addr = (case so_addr of
     None \<Rightarrow> (- 1, None)
   | Some so \<Rightarrow> (let (ret, ifa) = ifaddrs in
       if ret \<noteq> 0 then (ret, Some so)
       else (0, Some (store_addrs (local_v4 ifa None) (local_v6 ifa None) so))))"

section \<open>Calls into the system\<close>

datatype net_call = Socket bool int | Reuse_addr int | Getfl int | Setfl int int
  | Bind int sockaddr int | Listen int int | Connect int sockaddr_in | Accept int | Close int
  | Keepalive int int | Tcp_keepidle int int | Tcp_keepintvl int int | Tcp_keepcnt int int
  | Getsockname_addr int | Gethostname | Gethostbyname | Host_addr
  | Ifr_addr int string | Ifr_value

type_synonym net_sys = "net_call sys"

definition netx_close :: "int \<Rightarrow> (net_sys, int) state" where
  "netx_close fd = do { _ \<leftarrow> sys_call (Close fd); State_Monad.return (- 1) }"

text \<open>\<open>netx_fcntl(fd, F_SETFL, netx_fcntl(fd, F_GETFL, 0) | O_NONBLOCK)\<close>\<close>

definition set_nonblock :: "int \<Rightarrow> (net_sys, int) state" where
  "set_nonblock fd = do { fl \<leftarrow> sys_call (Getfl fd); sys_call (Setfl fd (fl OR O_NONBLOCK)) }"

text \<open>The listening that ends both ways of opening.\<close>

definition open_listen :: "int \<Rightarrow> int \<Rightarrow> (net_sys, int) state" where
  "open_listen type fd = do {
     r \<leftarrow> (if SOCK_STREAM = type then sys_call (Listen fd 32) else State_Monad.return 0);
     if 0 > r then netx_close fd else State_Monad.return fd }"

definition netx_open :: "int \<Rightarrow> u32 option \<Rightarrow> u64 \<Rightarrow> u64 \<Rightarrow> (net_sys, int) state" where
  "netx_open type ip port flag = do {
     fd \<leftarrow> sys_call (Socket False type);
     if 0 > fd then State_Monad.return (- 1)
     else do {
       let addr = \<lparr>sin_port = ntohs (ucast port), sin_addr = (case ip of None \<Rightarrow> 0 | Some a \<Rightarrow> a)\<rparr>;
       r \<leftarrow> (if port \<noteq> 0 \<and> flag AND netx_open_flag_reuse_addr \<noteq> 0
         then sys_call (Reuse_addr fd) else State_Monad.return 0);
       if 0 > r then netx_close fd
       else do {
         r \<leftarrow> set_nonblock fd;
         if r \<noteq> 0 then netx_close fd
         else do {
           r \<leftarrow> (if port \<noteq> 0 \<or> sin_addr addr \<noteq> 0
             then sys_call (Bind fd (Sa_in addr) sizeof_sockaddr_in) else State_Monad.return 0);
           if 0 > r then netx_close fd else open_listen type fd } } } }"

definition netx_connect_by_addr :: "sockaddr_in \<Rightarrow> sockaddr_in option \<Rightarrow> (net_sys, int) state" where
  "netx_connect_by_addr addr local_addr = do {
     fd \<leftarrow> sys_call (Socket False SOCK_STREAM);
     if 0 > fd then State_Monad.return (- 1)
     else do {
       r \<leftarrow> set_nonblock fd;
       if r \<noteq> 0 then netx_close fd
       else do {
         r \<leftarrow> (case local_addr of
             None \<Rightarrow> State_Monad.return 0
           | Some l \<Rightarrow> do {
               r \<leftarrow> sys_call (Reuse_addr fd);
               if 0 > r then State_Monad.return r
               else sys_call (Bind fd (Sa_in l) sizeof_sockaddr_in) });
         if 0 > r then netx_close fd
         else do {
           r \<leftarrow> sys_call (Connect fd addr);
           e \<leftarrow> sys_errno;
           if 0 > r \<and> EINPROGRESS \<noteq> e then netx_close fd else State_Monad.return fd } } } }"

text \<open>\<open>inet_aton\<close> answers \<open>None\<close> for what is not an address in dots. The second result is \<open>*addr\<close>.\<close>

definition netx_connect ::
  "(string \<Rightarrow> u32 option) \<Rightarrow> string \<Rightarrow> u64 \<Rightarrow> u32 option \<Rightarrow> u64 \<Rightarrow> (net_sys, int \<times> sockaddr_in option) state" where
  "netx_connect inet_aton host port local_ip local_port = (case inet_aton host of
     None \<Rightarrow> State_Monad.return (- 1, None)
   | Some ip \<Rightarrow> do {
       let addr = \<lparr>sin_port = ntohs (ucast port), sin_addr = ip\<rparr>;
       let addr_local = \<lparr>sin_port = ntohs (ucast local_port),
         sin_addr = (case local_ip of None \<Rightarrow> 0 | Some a \<Rightarrow> a)\<rparr>;
       fd \<leftarrow> netx_connect_by_addr addr (if local_port \<noteq> 0 then Some addr_local else None);
       State_Monad.return (fd, Some addr) })"

definition netx_accept :: "int \<Rightarrow> (net_sys, int) state" where
  "netx_accept fd = do {
     acpt_fd \<leftarrow> sys_call (Accept fd);
     if 0 > acpt_fd then State_Monad.return (- 1)
     else do {
       r \<leftarrow> set_nonblock acpt_fd;
       if r \<noteq> 0 then netx_close acpt_fd else State_Monad.return acpt_fd } }"

text \<open>C's conversion of a \<open>long\<close> to an \<open>int\<close>, and its division, which rounds to zero.\<close>

definition to_int :: "int \<Rightarrow> int" where "to_int n = signed_take_bit 31 n"

definition netx_set_keepalive :: "int \<Rightarrow> int \<Rightarrow> int \<Rightarrow> int \<Rightarrow> (net_sys, int) state" where
  "netx_set_keepalive fd idle_ms interval_ms tries = do {
     let idle = to_int ((if idle_ms \<noteq> 0 then idle_ms else 7200000) sdiv 1000);
     let interval = to_int ((if interval_ms \<noteq> 0 then interval_ms else 5000) sdiv 1000);
     let tries = to_int (if tries \<noteq> 0 then tries else 5);
     err_flag \<leftarrow> sys_call (Keepalive fd 1);
     if 0 > err_flag then State_Monad.return (- 1)
     else do {
       err_idle \<leftarrow> (if idle \<noteq> 0 then sys_call (Tcp_keepidle fd idle) else State_Monad.return 0);
       if 0 > err_idle then State_Monad.return (- 1)
       else do {
         err_interval \<leftarrow> (if interval \<noteq> 0 then sys_call (Tcp_keepintvl fd interval) else State_Monad.return 0);
         if 0 > err_interval then State_Monad.return (- 1)
         else do {
           err_times \<leftarrow> (if tries \<noteq> 0 then sys_call (Tcp_keepcnt fd tries) else State_Monad.return 0);
           State_Monad.return (if 0 > err_times then - 1 else 0) } } } }"

text \<open>\<open>inet_addr\<close> is an argument. The family is found by resolving a constant address.\<close>

definition netx_open_2 ::
  "getaddrinfo \<Rightarrow> (string \<Rightarrow> u32) \<Rightarrow> int \<Rightarrow> string option \<Rightarrow> u64 \<Rightarrow> u64 \<Rightarrow> (net_sys, int) state" where
  "netx_open_2 gai inet_addr type ip port flag = do {
     let probe = netx_get_sockaddr_by_string gai (Some ''54.157.82.107'') 13 7123 (Some netx_sockaddr_zero);
     let v6 = (case probe of Some (ret, Some a) \<Rightarrow> \<not> (ret \<noteq> 0 \<or> is_v4 a) | _ \<Rightarrow> False);
     fd \<leftarrow> sys_call (Socket v6 type);
     if 0 > fd then State_Monad.return (- 1)
     else do {
       let s_addr = (case ip of None \<Rightarrow> 0 | Some s \<Rightarrow> inet_addr s);
       let s_addr = (if s_addr = 0xffffff then 0 else s_addr);
       let (r, addr_listen) = (if ip \<noteq> None \<or> port \<noteq> 0
         then netx_get_sockaddr_by_addr_v4 (Some \<lparr>sin_port = ntohs (ucast port), sin_addr = s_addr\<rparr>)
           (Some netx_sockaddr_zero)
         else (0, Some netx_sockaddr_zero));
       let listen_addr = (case addr_listen of None \<Rightarrow> netx_sockaddr_zero | Some a \<Rightarrow> a);
       if r \<noteq> 0 then State_Monad.return (- 1)
       else do {
         r \<leftarrow> (if port \<noteq> 0 \<and> flag AND netx_open_flag_reuse_addr \<noteq> 0
           then sys_call (Reuse_addr fd) else State_Monad.return 0);
         if 0 > r then netx_close fd
         else do {
           r \<leftarrow> set_nonblock fd;
           if r \<noteq> 0 then netx_close fd
           else do {
             r \<leftarrow> (if port \<noteq> 0 \<or> ip \<noteq> None
               then sys_call (Bind fd (ns_addr listen_addr) (ns_addr_len listen_addr))
               else State_Monad.return 0);
             if 0 > r then netx_close fd else open_listen type fd } } } } }"

text \<open>
  The local address, in the configuration without \<open>getifaddrs\<close>: by connecting a datagram socket,
  by the host name, or from the interfaces \<open>eth0\<close> and \<open>eth1\<close>. The second result is \<open>addr->s_addr\<close>;
  \<open>0x64646464\<close> and port \<open>65534\<close> in network order.
\<close>

definition local_ip_remote :: sockaddr_in where
  "local_ip_remote = \<lparr>sin_port = ntohs 65534, sin_addr = 0x64646464\<rparr>"

definition local_ip_by_connect :: "(net_sys, u32) state" where
  "local_ip_by_connect = do {
     fd \<leftarrow> netx_open SOCK_DGRAM None 0 netx_open_flag_reuse_addr;
     if 0 > fd then State_Monad.return 0
     else do {
       r \<leftarrow> sys_call (Connect fd local_ip_remote);
       a \<leftarrow> (if r \<noteq> 0 then State_Monad.return 0 else sys_call (Getsockname_addr fd));
       _ \<leftarrow> netx_close fd;
       State_Monad.return (word_of_int a) } }"

definition local_ip_by_name :: "(net_sys, u32) state" where
  "local_ip_by_name = do {
     r \<leftarrow> sys_call Gethostname;
     if r \<noteq> 0 then State_Monad.return 0
     else do {
       h \<leftarrow> sys_call Gethostbyname;
       if h = 0 then State_Monad.return 0
       else do {
         a \<leftarrow> sys_call Host_addr;
         let a = (word_of_int a :: u32);
         State_Monad.return (if a = 0 \<or> a AND 255 = 127 then 0 else a) } } }"

fun local_ip_interfaces :: "int \<Rightarrow> string list \<Rightarrow> (net_sys, u32) state" where
  "local_ip_interfaces fd [] = State_Monad.return 0"
| "local_ip_interfaces fd (name # names) = do {
     r \<leftarrow> sys_call (Ifr_addr fd name);
     if r \<noteq> 0 then local_ip_interfaces fd names
     else do { a \<leftarrow> sys_call Ifr_value; State_Monad.return (word_of_int a) } }"

definition local_ip_by_ioctl :: "(net_sys, u32) state" where
  "local_ip_by_ioctl = do {
     fd \<leftarrow> sys_call (Socket False SOCK_DGRAM);
     if 0 > fd then State_Monad.return 0
     else do {
       a \<leftarrow> local_ip_interfaces fd [''eth0'', ''eth1''];
       _ \<leftarrow> sys_call (Close fd);
       State_Monad.return a } }"

definition netx_get_local_ip :: "bool \<Rightarrow> (net_sys, int \<times> u32) state" where
  "netx_get_local_ip addr_ok =
     (if \<not> addr_ok then State_Monad.return (- 1, 0)
      else do {
        a \<leftarrow> local_ip_by_connect;
        a \<leftarrow> (if a = 0 then local_ip_by_name else State_Monad.return a);
        a \<leftarrow> (if a = 0 then local_ip_by_ioctl else State_Monad.return a);
        State_Monad.return (if a = 0 then - 2 else 0, a) })"

section \<open>Descriptors\<close>

text \<open>The descriptors a trace of calls leaves open, and those it has made non-blocking.\<close>

fun fd_step :: "net_call \<times> int \<Rightarrow> int list \<Rightarrow> int list" where
  "fd_step (Socket _ _, a) live = (if 0 \<le> a then a # live else live)"
| "fd_step (Accept _, a) live = (if 0 \<le> a then a # live else live)"
| "fd_step (Close fd, _) live = remove1 fd live"
| "fd_step _ live = live"

definition sys_fds :: "net_sys \<Rightarrow> int list" where
  "sys_fds w = fold fd_step (sys_trace w) []"

text \<open>The calls of a run, without those before it.\<close>

definition new_calls :: "net_sys \<Rightarrow> net_sys \<Rightarrow> (net_call \<times> int) list" where
  "new_calls w w' = drop (length (sys_trace w)) (sys_trace w')"

fun made_nonblocking :: "int \<Rightarrow> (net_call \<times> int) list \<Rightarrow> bool" where
  "made_nonblocking fd [] \<longleftrightarrow> False"
| "made_nonblocking fd ((Setfl fd' fl, r) # cs) \<longleftrightarrow> fd' = fd \<and> r = 0 \<and> bit fl 11 \<or> made_nonblocking fd cs"
| "made_nonblocking fd (_ # cs) \<longleftrightarrow> made_nonblocking fd cs"

lemma O_NONBLOCK_bit [simp]: "bit O_NONBLOCK 11"
  by (simp add: O_NONBLOCK_def)

text \<open>
  What an operation that opens a descriptor promises: on success it returns the one descriptor
  more that is open now, a non-negative and non-blocking one; on failure it returns \<open>-1\<close> and
  leaves nothing open.
\<close>

definition opens_fd :: "(net_sys, int) state \<Rightarrow> net_sys \<Rightarrow> bool" where
  "opens_fd m w \<longleftrightarrow> (case run_state m w of (r, w') \<Rightarrow>
     if r < 0 then r = - 1 \<and> sys_fds w' = sys_fds w
     else sys_fds w' = r # sys_fds w \<and> made_nonblocking r (new_calls w w'))"

lemma sys_fds_call [simp]: "sys_fds (w\<lparr>sys_trace := sys_trace w @ cs\<rparr>) = fold fd_step cs (sys_fds w)"
  by (simp add: sys_fds_def)

lemma new_calls_call [simp]: "new_calls w (w\<lparr>sys_trace := sys_trace w @ cs\<rparr>) = cs"
  by (simp add: new_calls_def)

lemma run_netx_close [simp]:
  "run_state (netx_close fd) w = (- 1, w\<lparr>sys_trace := sys_trace w @ [(Close fd, sys_answers w (length (sys_trace w)))]\<rparr>)"
  by (simp add: netx_close_def)

lemma run_set_nonblock [simp]:
  "run_state (set_nonblock fd) w = (let fl = sys_answers w (length (sys_trace w)); r = sys_answers w (Suc (length (sys_trace w)))
    in (r, w\<lparr>sys_trace := sys_trace w @ [(Getfl fd, fl), (Setfl fd (fl OR O_NONBLOCK), r)]\<rparr>))"
  by (simp add: set_nonblock_def Let_def)

lemma netx_open_opens: "opens_fd (netx_open type ip port flag) w"
  unfolding opens_fd_def netx_open_def open_listen_def
  by (simp add: Let_def bit_or_iff split: prod.splits option.splits)

lemma netx_connect_opens: "opens_fd (netx_connect_by_addr addr local_addr) w"
  unfolding opens_fd_def netx_connect_by_addr_def
  by (cases local_addr; simp add: Let_def bit_or_iff split: prod.splits)

lemma netx_accept_opens: "opens_fd (netx_accept fd) w"
  unfolding opens_fd_def netx_accept_def
  by (simp add: Let_def bit_or_iff split: prod.splits)

lemma netx_open_2_opens: "opens_fd (netx_open_2 gai inet_addr type ip port flag) w"
proof -
  define v6 where "v6 = (case netx_get_sockaddr_by_string gai (Some ''54.157.82.107'') 13 7123 (Some netx_sockaddr_zero) of
      Some (ret, Some a) \<Rightarrow> \<not> (ret \<noteq> 0 \<or> is_v4 a) | _ \<Rightarrow> False)"
  show ?thesis
    unfolding opens_fd_def netx_open_2_def open_listen_def v6_def [symmetric] Let_def
    by (cases ip; simp add: Let_def bit_or_iff netx_get_sockaddr_by_addr_v4_def split: prod.splits)
qed

lemma local_ip_interfaces_fds:
  "run_state (local_ip_interfaces fd names) w = (a, w') \<Longrightarrow> sys_fds w' = sys_fds w"
proof (induction names arbitrary: w)
  case (Cons name names)
  define w1 where "w1 = w\<lparr>sys_trace := sys_trace w @ [(Ifr_addr fd name, sys_answers w (length (sys_trace w)))]\<rparr>"
  have "sys_fds w1 = sys_fds w" by (simp add: w1_def)
  with Cons show ?case by (auto simp: w1_def [symmetric] split: if_splits)
qed simp

lemma local_ip_by_connect_fds:
  assumes "run_state local_ip_by_connect w = (a, w')"
  shows "sys_fds w' = sys_fds w"
proof -
  obtain fd w1 where o: "run_state (netx_open SOCK_DGRAM None 0 netx_open_flag_reuse_addr) w = (fd, w1)"
    by (metis prod.exhaust)
  have "opens_fd (netx_open SOCK_DGRAM None 0 netx_open_flag_reuse_addr) w" by (rule netx_open_opens)
  then have "sys_fds w1 = (if fd < 0 then sys_fds w else fd # sys_fds w)"
    unfolding opens_fd_def o by (simp split: if_splits)
  then show ?thesis using assms by (auto simp: local_ip_by_connect_def o split: if_splits)
qed

lemma local_ip_by_name_fds: "run_state local_ip_by_name w = (a, w') \<Longrightarrow> sys_fds w' = sys_fds w"
  by (auto simp: local_ip_by_name_def Let_def split: if_splits)

lemma local_ip_by_ioctl_fds:
  assumes "run_state local_ip_by_ioctl w = (a, w')"
  shows "sys_fds w' = sys_fds w"
proof -
  define fd where "fd = sys_answers w (length (sys_trace w))"
  define w1 where "w1 = w\<lparr>sys_trace := sys_trace w @ [(Socket False SOCK_DGRAM, fd)]\<rparr>"
  have 1: "sys_fds w1 = (if 0 \<le> fd then fd # sys_fds w else sys_fds w)" by (simp add: w1_def)
  obtain b w2 where i: "run_state (local_ip_interfaces fd [''eth0'', ''eth1'']) w1 = (b, w2)"
    by (metis prod.exhaust)
  have "sys_fds w2 = sys_fds w1" by (rule local_ip_interfaces_fds [OF i])
  then show ?thesis using assms 1 i
    by (auto simp: local_ip_by_ioctl_def fd_def [symmetric] w1_def [symmetric]
        simp del: local_ip_interfaces.simps split: if_splits)
qed

lemma netx_get_local_ip_fds:
  "run_state (netx_get_local_ip ok) w = (r, w') \<Longrightarrow> sys_fds w' = sys_fds w"
  by (auto simp: netx_get_local_ip_def split: if_splits prod.splits
      dest!: local_ip_by_connect_fds local_ip_by_name_fds local_ip_by_ioctl_fds)

section \<open>Properties\<close>

text \<open>
  C13. No descriptor is lost, whatever the system answers: each of \<open>netx_open\<close>, \<open>netx_open_2\<close>,
  \<open>netx_connect_by_addr\<close> and \<open>netx_accept\<close> either returns a non-negative descriptor, the only one
  it leaves open and one it has made non-blocking, or returns \<open>-1\<close> and has closed what it opened;
  and \<open>netx_get_local_ip\<close> leaves none of the descriptors it uses open.
\<close>

theorem netx_no_fd_leak:
  "opens_fd (netx_open type ip port flag) w
   \<and> opens_fd (netx_open_2 gai inet_addr type ip' port flag) w
   \<and> opens_fd (netx_connect_by_addr addr local_addr) w
   \<and> opens_fd (netx_accept fd) w
   \<and> sys_fds (snd (run_state (netx_get_local_ip ok) w)) = sys_fds w"
  using netx_open_opens netx_open_2_opens netx_connect_opens netx_accept_opens netx_get_local_ip_fds
  by (metis prod.exhaust_sel)

text \<open>
  What a successful \<open>netx_open\<close> and \<open>netx_connect_by_addr\<close> have done: the first has bound the
  socket to the address it was given, with the port in network order, exactly when a port or an
  address was given, and listens exactly when it is a stream socket; the second has asked to connect
  to the address, which succeeded or is in progress, after binding to the local address, if any.
\<close>

theorem netx_open_done:
  assumes "run_state (netx_open type ip port flag) w = (fd, w')" "0 \<le> fd"
    and "run_state (netx_connect_by_addr addr local_addr) v = (fd', v')" "0 \<le> fd'"
  shows "((\<exists>a r. (Bind fd (Sa_in a) 16, r) \<in> set (new_calls w w')) \<longleftrightarrow> port \<noteq> 0 \<or> ip \<notin> {None, Some 0})
    \<and> (\<forall>a l r. (Bind fd (Sa_in a) l, r) \<in> set (new_calls w w') \<longrightarrow>
         0 \<le> r \<and> sin_port a = ntohs (ucast port) \<and> sin_addr a = (case ip of None \<Rightarrow> 0 | Some i \<Rightarrow> i))
    \<and> ((\<exists>n r. (Listen fd n, r) \<in> set (new_calls w w') \<and> 0 \<le> r) \<longleftrightarrow> type = SOCK_STREAM)
    \<and> (\<exists>r. (Connect fd' addr, r) \<in> set (new_calls v v')
         \<and> (0 \<le> r \<or> sys_errnos v' (length (sys_trace v')) = EINPROGRESS))
    \<and> (\<forall>l. local_addr = Some l \<longrightarrow> (\<exists>r. (Bind fd' (Sa_in l) 16, r) \<in> set (new_calls v v') \<and> 0 \<le> r))"
proof -
  have "((\<exists>a r. (Bind fd (Sa_in a) 16, r) \<in> set (new_calls w w')) \<longleftrightarrow> port \<noteq> 0 \<or> ip \<notin> {None, Some 0})
    \<and> (\<forall>a l r. (Bind fd (Sa_in a) l, r) \<in> set (new_calls w w') \<longrightarrow>
         0 \<le> r \<and> sin_port a = ntohs (ucast port) \<and> sin_addr a = (case ip of None \<Rightarrow> 0 | Some i \<Rightarrow> i))
    \<and> ((\<exists>n r. (Listen fd n, r) \<in> set (new_calls w w') \<and> 0 \<le> r) \<longleftrightarrow> type = SOCK_STREAM)"
    using assms(1,2) unfolding netx_open_def open_listen_def
    by (cases ip; auto simp: Let_def sizeof_sockaddr_in_def split: if_splits)
  moreover have "(\<exists>r. (Connect fd' addr, r) \<in> set (new_calls v v')
         \<and> (0 \<le> r \<or> sys_errnos v' (length (sys_trace v')) = EINPROGRESS))
    \<and> (\<forall>l. local_addr = Some l \<longrightarrow> (\<exists>r. (Bind fd' (Sa_in l) 16, r) \<in> set (new_calls v v') \<and> 0 \<le> r))"
    using assms(3,4) unfolding netx_connect_by_addr_def
    by (cases local_addr; auto simp: Let_def sizeof_sockaddr_in_def split: if_splits)
  ultimately show ?thesis by blast
qed

theorem netx_open_done_witness:
  "\<exists>w'. run_state (netx_open SOCK_STREAM None 80 1) (sys_start (\<lambda>_. 0) (\<lambda>_. 0)) = (0, w')
     \<and> (\<exists>a r. (Bind 0 (Sa_in a) 16, r) \<in> set (new_calls (sys_start (\<lambda>_. 0) (\<lambda>_. 0)) w'))"
proof -
  define w :: net_sys where "w = sys_start (\<lambda>_. 0) (\<lambda>_. 0)"
  obtain fd w' where 1: "run_state (netx_open SOCK_STREAM None 80 1) w = (fd, w')" by (metis prod.exhaust)
  then have fd: "fd = 0"
    by (auto simp: w_def netx_open_def open_listen_def Let_def netx_open_flag_reuse_addr_def SOCK_STREAM_def)
  define a where "a = \<lparr>sin_port = 0, sin_addr = 0\<rparr>"
  obtain fd' v' where 2: "run_state (netx_connect_by_addr a None) w = (fd', v')" by (metis prod.exhaust)
  then have "fd' = 0" by (auto simp: w_def netx_connect_by_addr_def Let_def)
  with netx_open_done [OF 1 _ 2] 1 fd show ?thesis unfolding w_def by auto
qed

lemma ntohs_ntohs [simp]: "ntohs (ntohs x) = x"
  unfolding ntohs_def by (rule bit_word_eqI)
    (auto simp: bit_or_iff bit_push_bit_iff bit_drop_bit_eq dest: bit_imp_le_length)

text \<open>
  The port of a two-family address: it is read back as it was set, whichever family the
  address has; an address made from a socket address has that one's port; and an address found by
  name has the port asked for, as soon as the resolver answered an address of a known family. When it
  answered none, the function still reports success, with an address without a family.
\<close>

theorem netx_sockaddr_port:
  "netx_sockaddr_get_port (netx_sockaddr_set_port (Some so) port) = port
   \<and> netx_sockaddr_get_port (snd (netx_get_sockaddr_by_addr (Some (Sa_in a)) (Some so))) = ntohs (sin_port a)
   \<and> netx_sockaddr_get_port (snd (netx_get_sockaddr_by_addr (Some (Sa_in6 b)) (Some so))) = ntohs (sin6_port b)
   \<and> (netx_get_sockaddr_by_string gai ip len p (Some so) = Some (0, Some so') \<longrightarrow>
       netx_sockaddr_get_port (Some so') = word_of_int p \<and> ns_addr so' \<noteq> Sa_zero
       \<or> so' = netx_sockaddr_zero \<and> (\<exists>host. last_v4 (snd (gai host p)) None = None \<and> last_v6 (snd (gai host p)) None = None))"
proof -
  have "netx_sockaddr_get_port (Some so') = word_of_int p \<and> ns_addr so' \<noteq> Sa_zero
      \<or> so' = netx_sockaddr_zero \<and> (\<exists>host. last_v4 (snd (gai host p)) None = None \<and> last_v6 (snd (gai host p)) None = None)"
    if *: "netx_get_sockaddr_by_string gai ip len p (Some so) = Some (0, Some so')"
  proof -
    obtain host where h: "copy_ip ip len = Some host"
      using * by (auto simp: netx_get_sockaddr_by_string_def)
    obtain res where g: "gai host p = (0, res)"
      using * h by (auto simp: netx_get_sockaddr_by_string_def split: prod.splits if_splits)
    have so': "so' = store_addrs (map_option (\<lambda>a. a\<lparr>sin_port := ntohs (word_of_int p)\<rparr>) (last_v4 res None))
        (map_option (\<lambda>a. a\<lparr>sin6_port := ntohs (word_of_int p)\<rparr>) (last_v6 res None)) netx_sockaddr_zero"
      using * h g by (simp add: netx_get_sockaddr_by_string_def Let_def)
    show ?thesis
    proof (cases "last_v4 res None = None \<and> last_v6 res None = None")
      case True
      then show ?thesis using so' g by (auto simp: store_addrs_def intro!: exI [of _ host])
    next
      case False
      then show ?thesis unfolding so'
        by (cases "last_v4 res None"; cases "last_v6 res None")
          (auto simp: store_addrs_def netx_sockaddr_get_port_def is_v4_def)
    qed
  qed
  moreover have "netx_sockaddr_get_port (netx_sockaddr_set_port (Some so) port) = port"
    by (cases "ns_addr so") (simp_all add: netx_sockaddr_get_port_def netx_sockaddr_set_port_def is_v4_def)
  ultimately show ?thesis
    by (auto simp: netx_sockaddr_get_port_def netx_get_sockaddr_by_addr_def is_v4_def)
qed

theorem netx_sockaddr_port_witness:
  "\<exists>so'. netx_get_sockaddr_by_string (\<lambda>_ _. (0, [Sa_in \<lparr>sin_port = 0, sin_addr = 7\<rparr>])) (Some ''host'') 4 80
      (Some netx_sockaddr_zero) = Some (0, Some so') \<and> netx_sockaddr_get_port (Some so') = 80"
proof -
  define gai :: getaddrinfo where "gai = (\<lambda>_ _. (0, [Sa_in \<lparr>sin_port = 0, sin_addr = 7\<rparr>]))"
  obtain so' where so: "netx_get_sockaddr_by_string gai (Some ''host'') 4 80 (Some netx_sockaddr_zero) = Some (0, Some so')"
    by (simp add: gai_def netx_get_sockaddr_by_string_def copy_ip_def)
  have "last_v4 (snd (gai host 80)) None \<noteq> None" for host by (simp add: gai_def)
  with netx_sockaddr_port [of netx_sockaddr_zero 0 undefined undefined gai "Some ''host''" 4 80 so'] so
  have "netx_sockaddr_get_port (Some so') = 80" by auto
  with so show ?thesis by (auto simp: gai_def)
qed

text \<open>
  \<open>netx_open_2\<close> does not notice a string that is no address: \<open>inet_addr\<close> answers
  \<open>INADDR_NONE\<close>, all ones, for it, and the function compares with \<open>0xffffff\<close>. It goes on to ask
  for \<open>255.255.255.255\<close>, and what it does take for an invalid address, and replaces by the wildcard,
  is the valid address \<open>255.255.255.0\<close>.
\<close>

theorem netx_open_2_inet_addr:
  assumes "run_state (netx_open_2 gai inet_addr type (Some s) port flag) w = (fd, w')" "0 \<le> fd"
  shows "(inet_addr s = 0xffffffff \<longrightarrow>
      (\<exists>r. (Bind fd (Sa_in \<lparr>sin_port = ntohs (ucast port), sin_addr = 0xffffffff\<rparr>) 16, r) \<in> set (new_calls w w')))
    \<and> (inet_addr s = 0x00ffffff \<longrightarrow>
      (\<exists>r. (Bind fd (Sa_in \<lparr>sin_port = ntohs (ucast port), sin_addr = 0\<rparr>) 16, r) \<in> set (new_calls w w')))"
proof -
  define v6 where "v6 = (case netx_get_sockaddr_by_string gai (Some ''54.157.82.107'') 13 7123 (Some netx_sockaddr_zero) of
      Some (ret, Some a) \<Rightarrow> \<not> (ret \<noteq> 0 \<or> is_v4 a) | _ \<Rightarrow> False)"
  have "\<exists>r. (Bind fd (Sa_in \<lparr>sin_port = ntohs (ucast port),
      sin_addr = (if inet_addr s = 0xffffff then 0 else inet_addr s)\<rparr>) 16, r) \<in> set (new_calls w w')"
    using assms unfolding netx_open_2_def open_listen_def v6_def [symmetric]
    by (auto simp: Let_def netx_get_sockaddr_by_addr_v4_def sizeof_sockaddr_in_def split: if_splits)
  then show ?thesis by auto
qed

theorem netx_open_2_inet_addr_witness:
  "\<exists>w' r. run_state (netx_open_2 (\<lambda>_ _. (1, [])) (\<lambda>_. 0xffffffff) SOCK_DGRAM (Some ''localhost'') 80 0)
      (sys_start (\<lambda>_. 0) (\<lambda>_. 0)) = (0, w')
    \<and> (Bind 0 (Sa_in \<lparr>sin_port = ntohs 80, sin_addr = 0xffffffff\<rparr>) 16, r) \<in> set (new_calls (sys_start (\<lambda>_. 0) (\<lambda>_. 0)) w')"
proof -
  define w :: net_sys where "w = sys_start (\<lambda>_. 0) (\<lambda>_. 0)"
  obtain fd w' where 1: "run_state (netx_open_2 (\<lambda>_ _. (1, [])) (\<lambda>_. 0xffffffff) SOCK_DGRAM (Some ''localhost'') 80 0) w
    = (fd, w')" by (metis prod.exhaust)
  then have fd: "fd = 0"
    by (auto simp: w_def netx_open_2_def open_listen_def Let_def netx_get_sockaddr_by_addr_v4_def
        SOCK_STREAM_def SOCK_DGRAM_def)
  with netx_open_2_inet_addr [OF 1] 1 show ?thesis unfolding w_def by auto
qed

end
