(* ===== verification/KcpData.thy ===== *)
theory KcpData
  imports Prelude
begin

text \<open>
  The data of \<open>application/examples/kcp_test/kcp\<close>: the constants, the wire encoding and the
  sequence-number arithmetic of \<open>ikcp.c\<close>, the segment and the control block of \<open>ikcp.h\<close>, creation
  and the small setters. The four queues are lists of segments, in the order of the intrusive lists,
  so that deleting a segment and returning its memory are one step. Logging is left out, and
  assertions are compiled out (\<open>NDEBUG\<close>).
\<close>

section \<open>Constants\<close>

definition IKCP_RTO_NDL :: int where "IKCP_RTO_NDL = 30"
definition IKCP_RTO_MIN :: int where "IKCP_RTO_MIN = 100"
definition IKCP_RTO_DEF :: int where "IKCP_RTO_DEF = 200"
definition IKCP_RTO_MAX :: u32 where "IKCP_RTO_MAX = 60000"
definition IKCP_CMD_PUSH :: u32 where "IKCP_CMD_PUSH = 81"
definition IKCP_CMD_ACK :: u32 where "IKCP_CMD_ACK = 82"
definition IKCP_CMD_WASK :: u32 where "IKCP_CMD_WASK = 83"
definition IKCP_CMD_WINS :: u32 where "IKCP_CMD_WINS = 84"
definition IKCP_ASK_SEND :: u32 where "IKCP_ASK_SEND = 1"
definition IKCP_ASK_TELL :: u32 where "IKCP_ASK_TELL = 2"
definition IKCP_WND_SND :: u32 where "IKCP_WND_SND = 32"
definition IKCP_WND_RCV :: u32 where "IKCP_WND_RCV = 128"
definition IKCP_MTU_DEF :: u32 where "IKCP_MTU_DEF = 1400"
definition IKCP_INTERVAL :: u32 where "IKCP_INTERVAL = 100"
definition IKCP_OVERHEAD :: u32 where "IKCP_OVERHEAD = 24"
definition IKCP_DEADLINK :: u32 where "IKCP_DEADLINK = 20"
definition IKCP_THRESH_INIT :: u32 where "IKCP_THRESH_INIT = 2"
definition IKCP_THRESH_MIN :: u32 where "IKCP_THRESH_MIN = 2"
definition IKCP_PROBE_INIT :: u32 where "IKCP_PROBE_INIT = 7000"
definition IKCP_PROBE_LIMIT :: u32 where "IKCP_PROBE_LIMIT = 120000"
definition IKCP_FASTACK_LIMIT :: int where "IKCP_FASTACK_LIMIT = 5"

lemmas ikcp_cmds = IKCP_CMD_PUSH_def IKCP_CMD_ACK_def IKCP_CMD_WASK_def IKCP_CMD_WINS_def

section \<open>Encoding\<close>

text \<open>
  Each encoder is the list of bytes it stores, on a little-endian machine, and each decoder takes
  its bytes from the front; reading beyond the end of the data is undefined.
\<close>

definition ikcp_encode8u :: "u8 \<Rightarrow> bytes" where
  "ikcp_encode8u c = [c]"

definition ikcp_encode16u :: "u16 \<Rightarrow> bytes" where
  "ikcp_encode16u w = [ucast w, ucast (drop_bit 8 w)]"

definition ikcp_encode32u :: "u32 \<Rightarrow> bytes" where
  "ikcp_encode32u l = [ucast l, ucast (drop_bit 8 l), ucast (drop_bit 16 l), ucast (drop_bit 24 l)]"

fun ikcp_decode8u :: "bytes \<Rightarrow> (u8 \<times> bytes) option" where
  "ikcp_decode8u (a # p) = Some (a, p)"
| "ikcp_decode8u _ = None"

fun ikcp_decode16u :: "bytes \<Rightarrow> (u16 \<times> bytes) option" where
  "ikcp_decode16u (a # b # p) = Some (ucast a OR push_bit 8 (ucast b), p)"
| "ikcp_decode16u _ = None"

fun ikcp_decode32u :: "bytes \<Rightarrow> (u32 \<times> bytes) option" where
  "ikcp_decode32u (a # b # c # d # p) =
     Some (ucast a OR push_bit 8 (ucast b) OR push_bit 16 (ucast c) OR push_bit 24 (ucast d), p)"
| "ikcp_decode32u _ = None"

lemma decode_encode [simp]:
  "ikcp_decode8u (ikcp_encode8u c @ p) = Some (c, p)"
  "ikcp_decode16u (ikcp_encode16u w @ p) = Some (w, p)"
  "ikcp_decode32u (ikcp_encode32u l @ p) = Some (l, p)"
  by (auto simp: ikcp_encode8u_def ikcp_encode16u_def ikcp_encode32u_def intro!: bit_word_eqI)
    (auto simp: bit_or_iff bit_push_bit_iff bit_ucast_iff bit_drop_bit_eq not_less le_diff_conv2
      le_diff_conv dest: bit_imp_le_length, rule ccontr, simp add: not_less le_diff_conv2)

lemma length_encode [simp]:
  "length (ikcp_encode8u c) = 1" "length (ikcp_encode16u w) = 2" "length (ikcp_encode32u l) = 4"
  by (simp_all add: ikcp_encode8u_def ikcp_encode16u_def ikcp_encode32u_def)

lemma decode_defined:
  "1 \<le> length p \<Longrightarrow> \<exists>v q. ikcp_decode8u p = Some (v, q) \<and> length q = length p - 1"
  "2 \<le> length p \<Longrightarrow> \<exists>v q. ikcp_decode16u p = Some (v, q) \<and> length q = length p - 2"
  "4 \<le> length p \<Longrightarrow> \<exists>v q. ikcp_decode32u p = Some (v, q) \<and> length q = length p - 4"
  by (auto simp: numeral_eq_Suc Suc_le_length_iff)

section \<open>Arithmetic\<close>

definition imin :: "u32 \<Rightarrow> u32 \<Rightarrow> u32" where "imin a b = (if a \<le> b then a else b)"
definition imax :: "u32 \<Rightarrow> u32 \<Rightarrow> u32" where "imax a b = (if a \<ge> b then a else b)"
definition ibound :: "u32 \<Rightarrow> u32 \<Rightarrow> u32 \<Rightarrow> u32" where
  "ibound lower middle upper = imin (imax lower middle) upper"

text \<open>The signed distance of two numbers that wrap around.\<close>

definition itimediff :: "u32 \<Rightarrow> u32 \<Rightarrow> int" where
  "itimediff later earlier = sint (later - earlier)"

text \<open>Signed arithmetic: \<open>None\<close> where it overflows, which is undefined in C.\<close>

definition i32 :: "int \<Rightarrow> int option" where
  "i32 n = (if - (2 ^ 31) \<le> n \<and> n < 2 ^ 31 then Some n else None)"

text \<open>The conversions between the two 32-bit types.\<close>

definition to_u32 :: "int \<Rightarrow> u32" where "to_u32 n = word_of_int n"
definition to_i32 :: "u32 \<Rightarrow> int" where "to_i32 w = sint w"

lemma itimediff_self [simp]: "itimediff a a = 0"
  by (simp add: itimediff_def)

text \<open>The unsigned distance, and its relation to the signed one.\<close>

definition dist :: "u32 \<Rightarrow> u32 \<Rightarrow> nat" where
  "dist a b = unat (b - a)"

lemma unat_of_nat32: "k < 2 ^ 32 \<Longrightarrow> unat (of_nat k :: u32) = k"
  by (simp add: unat_of_nat)

lemma dist_self [simp]: "dist a a = 0"
  by (simp add: dist_def)

lemma dist_less: "dist a b < 2 ^ 32"
  unfolding dist_def by (rule less_le_trans [OF unsigned_less]) simp

lemma signed_take_bit_31:
  assumes "0 \<le> k" "k < 4294967296"
  shows "signed_take_bit 31 k = (if k < 2147483648 then k else k - 4294967296 :: int)"
proof -
  have "k div 2147483648 = (if k < 2147483648 then 0 else 1)"
    using assms by (auto simp: div_eq_0_iff zdiv_eq_0_iff int_div_pos_eq [of k 2147483648 1 "k - 2147483648"])
  then have "bit k 31 \<longleftrightarrow> \<not> k < 2147483648" by (simp add: bit_iff_odd)
  moreover have "take_bit 32 k = k" using assms by (simp add: take_bit_int_eq_self)
  ultimately show ?thesis by (simp add: signed_take_bit_eq_take_bit_minus)
qed

lemma sint_unat32: "sint (w :: u32) = (if unat w < 2 ^ 31 then int (unat w) else int (unat w) - 2 ^ 32)"
proof -
  have l: "0 \<le> uint w" "uint w < 4294967296" using uint_lt2p [of w] by simp_all
  have s: "sint w = signed_take_bit 31 (uint w)" by (simp add: sint_uint)
  have u: "int (unat w) = uint w" by simp
  have "unat w < 2147483648 \<longleftrightarrow> uint w < 2147483648" unfolding u [symmetric] by linarith
  then show ?thesis unfolding s signed_take_bit_31 [OF l] u by simp
qed

lemma itimediff_dist: "itimediff b a = (if dist a b < 2 ^ 31 then int (dist a b) else int (dist a b) - 2 ^ 32)"
  unfolding itimediff_def dist_def by (rule sint_unat32)

lemma itimediff_nonneg: "0 \<le> itimediff b a \<longleftrightarrow> dist a b < 2 ^ 31"
  using dist_less [of a b] by (simp add: itimediff_dist)

lemma dist_zero [simp]: "dist a b = 0 \<longleftrightarrow> a = b"
  by (auto simp: dist_def unat_eq_0)

lemma dist_inj: "dist a b = dist a c \<longleftrightarrow> b = c"
  by (auto simp: dist_def word_unat_eq_iff [symmetric])

lemma dist_trans: "dist a b + dist b c < 2 ^ 32 \<Longrightarrow> dist a c = dist a b + dist b c"
  unfolding dist_def using unat_add_nowrap [of "b - a" "c - b"] by simp

lemma dist_sub: "dist a b \<le> dist a c \<Longrightarrow> dist b c = dist a c - dist a b"
  unfolding dist_def using unat_sub_nowrap [of "b - a" "c - a"] by (simp add: algebra_simps)

lemma dist_rev: "a \<noteq> b \<Longrightarrow> dist b a = 2 ^ 32 - dist a b"
proof -
  assume "a \<noteq> b"
  have "unat (0 - (b - a)) = (if unat (b - a) \<le> unat (0 :: u32) then unat (0 :: u32) - unat (b - a)
      else unat (0 :: u32) + 2 ^ 32 - unat (b - a))"
    by (subst unat_sub_if') simp
  then show ?thesis using \<open>a \<noteq> b\<close> by (simp add: dist_def unat_eq_0)
qed

section \<open>Segments\<close>

record ikcpseg =
  sg_conv :: u32
  sg_cmd :: u32
  sg_frg :: u32
  sg_wnd :: u32
  sg_ts :: u32
  sg_sn :: u32
  sg_una :: u32
  sg_len :: u32
  sg_resendts :: u32
  sg_rto :: u32
  sg_fastack :: u32
  sg_xmit :: u32
  sg_data :: bytes

text \<open>The fields of fresh memory, which the code sets before it reads them.\<close>

definition ikcp_segment_new :: "bytes \<Rightarrow> ikcpseg" where
  "ikcp_segment_new data = \<lparr>sg_conv = 0, sg_cmd = 0, sg_frg = 0, sg_wnd = 0, sg_ts = 0, sg_sn = 0,
     sg_una = 0, sg_len = of_nat (length data), sg_resendts = 0, sg_rto = 0, sg_fastack = 0,
     sg_xmit = 0, sg_data = data\<rparr>"

definition ikcp_encode_seg :: "ikcpseg \<Rightarrow> bytes" where
  "ikcp_encode_seg seg =
     ikcp_encode32u (sg_conv seg) @ ikcp_encode8u (ucast (sg_cmd seg)) @ ikcp_encode8u (ucast (sg_frg seg)) @
     ikcp_encode16u (ucast (sg_wnd seg)) @ ikcp_encode32u (sg_ts seg) @ ikcp_encode32u (sg_sn seg) @
     ikcp_encode32u (sg_una seg) @ ikcp_encode32u (sg_len seg)"

lemma length_encode_seg [simp]: "length (ikcp_encode_seg seg) = 24"
  by (simp add: ikcp_encode_seg_def)

section \<open>The control block\<close>

text \<open>
  \<open>acklist\<close> is the array of pairs \<open>(sn, ts)\<close>, with room for \<open>ackblock\<close> of them. \<open>ts_recent\<close> and
  \<open>ts_lastack\<close>, which are never read, the log fields and the user pointer are left out.
\<close>

record kcp_conf =
  conv :: u32
  mtu :: u32
  mss :: u32
  state :: u32
  snd_wnd :: u32
  rcv_wnd :: u32
  rmt_wnd :: u32
  interval :: u32
  dead_link :: u32
  nodelay :: u32
  fastresend :: int
  fastlimit :: int
  nocwnd :: int
  stream :: int

record kcp_time = kcp_conf +
  rx_rttval :: int
  rx_srtt :: int
  rx_rto :: int
  rx_minrto :: int
  current :: u32
  ts_flush :: u32
  updated :: u32
  ts_probe :: u32
  probe_wait :: u32
  probe :: u32

record kcp_send = kcp_time +
  snd_una :: u32
  snd_nxt :: u32
  ssthresh :: u32
  cwnd :: u32
  incr :: u32
  xmit :: u32
  nsnd_buf :: u32
  nsnd_que :: u32
  snd_queue :: "ikcpseg list"
  snd_buf :: "ikcpseg list"

record ikcpcb = kcp_send +
  rcv_nxt :: u32
  nrcv_buf :: u32
  nrcv_que :: u32
  rcv_queue :: "ikcpseg list"
  rcv_buf :: "ikcpseg list"
  acklist :: "(u32 \<times> u32) list"
  ackcount :: u32
  ackblock :: u32

definition ikcp_create :: "u32 \<Rightarrow> ikcpcb" where
  "ikcp_create cv = \<lparr>conv = cv, mtu = IKCP_MTU_DEF, mss = IKCP_MTU_DEF - IKCP_OVERHEAD, state = 0,
     snd_wnd = IKCP_WND_SND, rcv_wnd = IKCP_WND_RCV, rmt_wnd = IKCP_WND_RCV,
     interval = IKCP_INTERVAL, dead_link = IKCP_DEADLINK, nodelay = 0, fastresend = 0,
     fastlimit = IKCP_FASTACK_LIMIT, nocwnd = 0, stream = 0,
     rx_rttval = 0, rx_srtt = 0, rx_rto = IKCP_RTO_DEF, rx_minrto = IKCP_RTO_MIN, current = 0,
     ts_flush = IKCP_INTERVAL, updated = 0, ts_probe = 0, probe_wait = 0, probe = 0,
     snd_una = 0, snd_nxt = 0, ssthresh = IKCP_THRESH_INIT, cwnd = 0, incr = 0, xmit = 0,
     nsnd_buf = 0, nsnd_que = 0, snd_queue = [], snd_buf = [],
     rcv_nxt = 0, nrcv_buf = 0, nrcv_que = 0, rcv_queue = [], rcv_buf = [],
     acklist = [], ackcount = 0, ackblock = 0\<rparr>"

section \<open>The small operations\<close>

text \<open>\<open>ok\<close> tells whether the new buffer is allocated.\<close>

definition ikcp_setmtu :: "bool \<Rightarrow> int \<Rightarrow> ikcpcb \<Rightarrow> int \<times> ikcpcb" where
  "ikcp_setmtu ok m kcp =
     (if m < 50 \<or> m < to_i32 IKCP_OVERHEAD then (- 1, kcp)
      else if \<not> ok then (- 2, kcp)
      else (0, kcp\<lparr>mtu := to_u32 m, mss := to_u32 m - IKCP_OVERHEAD\<rparr>))"

definition clamp_interval :: "int \<Rightarrow> u32" where
  "clamp_interval i = to_u32 (if i > 5000 then 5000 else if i < 10 then 10 else i)"

definition ikcp_interval :: "int \<Rightarrow> ikcpcb \<Rightarrow> int \<times> ikcpcb" where
  "ikcp_interval i kcp = (0, kcp\<lparr>interval := clamp_interval i\<rparr>)"

definition ikcp_nodelay :: "int \<Rightarrow> int \<Rightarrow> int \<Rightarrow> int \<Rightarrow> ikcpcb \<Rightarrow> int \<times> ikcpcb" where
  "ikcp_nodelay nd i resend nc kcp = (let
     kcp = (if nd \<ge> 0 then kcp\<lparr>nodelay := to_u32 nd,
       rx_minrto := (if nd \<noteq> 0 then IKCP_RTO_NDL else IKCP_RTO_MIN)\<rparr> else kcp);
     kcp = (if i \<ge> 0 then kcp\<lparr>interval := clamp_interval i\<rparr> else kcp);
     kcp = (if resend \<ge> 0 then kcp\<lparr>fastresend := resend\<rparr> else kcp);
     kcp = (if nc \<ge> 0 then kcp\<lparr>nocwnd := nc\<rparr> else kcp)
   in (0, kcp))"

definition ikcp_wndsize :: "int \<Rightarrow> int \<Rightarrow> ikcpcb option \<Rightarrow> int \<times> ikcpcb option" where
  "ikcp_wndsize sndwnd rcvwnd kcp = (0, map_option (\<lambda>kcp. let
     kcp = (if sndwnd > 0 then kcp\<lparr>snd_wnd := to_u32 sndwnd\<rparr> else kcp) in
     (if rcvwnd > 0 then kcp\<lparr>rcv_wnd := imax (to_u32 rcvwnd) IKCP_WND_RCV\<rparr> else kcp)) kcp)"

definition ikcp_waitsnd :: "ikcpcb \<Rightarrow> int" where
  "ikcp_waitsnd kcp = to_i32 (nsnd_buf kcp + nsnd_que kcp)"

definition ikcp_wnd_unused :: "ikcpcb \<Rightarrow> u32" where
  "ikcp_wnd_unused kcp = (if nrcv_que kcp < rcv_wnd kcp then rcv_wnd kcp - nrcv_que kcp else 0)"

definition ikcp_getconv :: "bytes \<Rightarrow> u32 option" where
  "ikcp_getconv p = map_option fst (ikcp_decode32u p)"

end
