(* ===== verification/KcpRecv.thy ===== *)
theory KcpRecv
  imports KcpData
begin

text \<open>
  The receiving half of \<open>ikcp.c\<close>: the reorder buffer (\<open>ikcp_parse_data\<close>), the list of
  acknowledgements (\<open>ikcp_ack_push\<close>, \<open>ikcp_ack_get\<close>), and what the application calls
  (\<open>ikcp_peeksize\<close>, \<open>ikcp_recv\<close>), with the property that it hands over the sent stream in order
  whatever the network does.
\<close>

section \<open>The code\<close>

text \<open>The loop that moves segments from \<open>rcv_buf\<close> to \<open>rcv_queue\<close>; its first argument is \<open>rcv_buf\<close>.\<close>

definition take_ready :: "ikcpseg \<Rightarrow> ikcpcb \<Rightarrow> ikcpcb" where
  "take_ready seg kcp = kcp\<lparr>nrcv_buf := nrcv_buf kcp - 1, rcv_queue := rcv_queue kcp @ [seg],
     nrcv_que := nrcv_que kcp + 1, rcv_nxt := rcv_nxt kcp + 1\<rparr>"

fun move_ready :: "ikcpseg list \<Rightarrow> ikcpcb \<Rightarrow> ikcpcb" where
  "move_ready [] kcp = kcp\<lparr>rcv_buf := []\<rparr>"
| "move_ready (seg # segs) kcp =
     (if sg_sn seg = rcv_nxt kcp \<and> nrcv_que kcp < rcv_wnd kcp
      then move_ready segs (take_ready seg kcp)
      else kcp\<lparr>rcv_buf := seg # segs\<rparr>)"

text \<open>
  The search from the end of \<open>rcv_buf\<close> for the place of a new segment, over the reversed list;
  \<open>None\<close> when the segment is there already.
\<close>

fun rcv_insert :: "ikcpseg \<Rightarrow> ikcpseg list \<Rightarrow> ikcpseg list option" where
  "rcv_insert newseg [] = Some [newseg]"
| "rcv_insert newseg (seg # segs) =
     (if sg_sn seg = sg_sn newseg then None
      else if itimediff (sg_sn newseg) (sg_sn seg) > 0 then Some (newseg # seg # segs)
      else map_option ((#) seg) (rcv_insert newseg segs))"

definition ikcp_parse_data :: "ikcpseg \<Rightarrow> ikcpcb \<Rightarrow> ikcpcb" where
  "ikcp_parse_data newseg kcp = (let sn = sg_sn newseg in
     if itimediff sn (rcv_nxt kcp + rcv_wnd kcp) \<ge> 0 \<or> itimediff sn (rcv_nxt kcp) < 0 then kcp
     else let kcp = (case rcv_insert newseg (rev (rcv_buf kcp)) of
         None \<Rightarrow> kcp
       | Some r \<Rightarrow> kcp\<lparr>rcv_buf := rev r, nrcv_buf := nrcv_buf kcp + 1\<rparr>)
     in move_ready (rcv_buf kcp) kcp)"

text \<open>
  Doubling \<open>newblock\<close> until it is large enough ends for every size that is at most \<open>2 ^ 31\<close>, which
  an array of pairs never exceeds; the fuel is the number of bits.
\<close>

fun ack_block :: "nat \<Rightarrow> u32 \<Rightarrow> u32 \<Rightarrow> u32" where
  "ack_block 0 newblock newsize = newblock"
| "ack_block (Suc n) newblock newsize =
     (if newblock < newsize then ack_block n (push_bit 1 newblock) newsize else newblock)"

text \<open>New entries are those of fresh memory; writing outside the array is undefined.\<close>

definition ikcp_ack_push :: "u32 \<Rightarrow> u32 \<Rightarrow> ikcpcb \<Rightarrow> ikcpcb option" where
  "ikcp_ack_push sn ts kcp = (let
     newsize = ackcount kcp + 1;
     kcp = (if newsize > ackblock kcp
       then let newblock = ack_block 32 8 newsize in
         kcp\<lparr>acklist := take (unat (ackcount kcp)) (acklist kcp)
             @ replicate (unat newblock - unat (ackcount kcp)) (0, 0), ackblock := newblock\<rparr>
       else kcp)
   in if unat (ackcount kcp) < length (acklist kcp)
      then Some (kcp\<lparr>acklist := (acklist kcp)[unat (ackcount kcp) := (sn, ts)], ackcount := ackcount kcp + 1\<rparr>)
      else None)"

definition ikcp_ack_get :: "ikcpcb \<Rightarrow> nat \<Rightarrow> (u32 \<times> u32) option" where
  "ikcp_ack_get kcp p = (if p < length (acklist kcp) then Some (acklist kcp ! p) else None)"

text \<open>The sums of lengths are computed in unsigned arithmetic and converted to \<open>int\<close>.\<close>

fun peek_sum :: "ikcpseg list \<Rightarrow> u32" where
  "peek_sum [] = 0"
| "peek_sum (seg # segs) = (if sg_frg seg = 0 then sg_len seg else sg_len seg + peek_sum segs)"

definition ikcp_peeksize :: "ikcpcb \<Rightarrow> int" where
  "ikcp_peeksize kcp = (case rcv_queue kcp of
     [] \<Rightarrow> - 1
   | seg # _ \<Rightarrow>
       if sg_frg seg = 0 then to_i32 (sg_len seg)
       else if nrcv_que kcp < sg_frg seg + 1 then - 1
       else to_i32 (peek_sum (rcv_queue kcp)))"

text \<open>Merging the fragments: the bytes copied, their number, and the rest of the queue.\<close>

fun recv_merge :: "ikcpseg list \<Rightarrow> bytes \<times> u32 \<times> ikcpseg list" where
  "recv_merge [] = ([], 0, [])"
| "recv_merge (seg # segs) = (let d = take (unat (sg_len seg)) (sg_data seg) in
     if sg_frg seg = 0 then (d, sg_len seg, segs)
     else case recv_merge segs of (b, l, rest) \<Rightarrow> (d @ b, sg_len seg + l, rest))"

text \<open>
  The result: the value returned, the bytes written to \<open>buffer\<close>, and the control block. A negative
  \<open>len\<close> asks to leave the message in the queue.
\<close>

definition ikcp_recv :: "bool \<Rightarrow> int \<Rightarrow> ikcpcb \<Rightarrow> int \<times> bytes \<times> ikcpcb" where
  "ikcp_recv buffer len kcp =
     (if rcv_queue kcp = [] then (- 1, [], kcp)
      else let peeksize = ikcp_peeksize kcp in
        if peeksize < 0 then (- 2, [], kcp)
        else if peeksize > \<bar>len\<bar> then (- 3, [], kcp)
        else let
          recover = (nrcv_que kcp \<ge> rcv_wnd kcp);
          (bs, n, rest) = recv_merge (rcv_queue kcp);
          kcp = (if len < 0 then kcp
            else kcp\<lparr>nrcv_que := nrcv_que kcp - of_nat (length (rcv_queue kcp) - length rest), rcv_queue := rest\<rparr>);
          kcp = move_ready (rcv_buf kcp) kcp;
          kcp = (if nrcv_que kcp < rcv_wnd kcp \<and> recover then kcp\<lparr>probe := probe kcp OR IKCP_ASK_TELL\<rparr> else kcp)
        in (to_i32 n, if buffer then bs else [], kcp))"

section \<open>Acknowledgements\<close>

text \<open>The pending acknowledgements, in the order of their arrival.\<close>

definition acks :: "ikcpcb \<Rightarrow> (u32 \<times> u32) list" where
  "acks kcp = take (unat (ackcount kcp)) (acklist kcp)"

definition ack_inv :: "ikcpcb \<Rightarrow> bool" where
  "ack_inv kcp \<longleftrightarrow> length (acklist kcp) = unat (ackblock kcp) \<and> ackcount kcp \<le> ackblock kcp"

lemma ack_block_ge:
  assumes "unat newsize \<le> 2 ^ 31" "unat newblock = 2 ^ k" "k \<le> 31" "31 \<le> k + n"
  shows "newsize \<le> ack_block n newblock newsize"
  using assms(2-4)
proof (induction n arbitrary: newblock k)
  case 0
  then have "k = 31" by simp
  then have "unat newblock = 2 ^ 31" using 0 by simp
  then show ?case using assms(1) by (simp add: word_le_nat_alt)
next
  case (Suc n)
  show ?case
  proof (cases "newblock < newsize")
    case True
    then have lt: "unat newblock < 2 ^ 31" using assms(1) by (simp add: word_less_nat_alt)
    then have "(2 :: nat) ^ k < 2 ^ 31" using Suc.prems(1) by simp
    then have k: "k < 31" by (rule power_less_imp_less_exp [rotated]) simp
    have "unat (push_bit 1 newblock) = 2 * unat newblock"
      using lt by (simp add: push_bit_eq_mult unat_mult_nowrap mult.commute)
    then have "unat (push_bit 1 newblock) = 2 ^ Suc k" using Suc.prems(1) by simp
    from Suc.IH [OF this] k Suc.prems(3) True show ?thesis by simp
  qed simp
qed

lemma ack_push_ok:
  assumes inv: "ack_inv kcp" and room: "unat (ackcount kcp) < 2 ^ 31"
  shows "\<exists>kcp'. ikcp_ack_push sn ts kcp = Some kcp' \<and> ack_inv kcp' \<and> acks kcp' = acks kcp @ [(sn, ts)]
    \<and> (\<exists>l c b. kcp' = kcp\<lparr>acklist := l, ackcount := c, ackblock := b\<rparr>)"
proof -
  let ?c = "unat (ackcount kcp)"
  have suc: "unat (ackcount kcp + 1) = ?c + 1" using room by (simp add: unat_add_nowrap)
  have le: "?c \<le> length (acklist kcp)" using inv by (simp add: ack_inv_def word_le_nat_alt)
  define kcp1 where "kcp1 = (if ackcount kcp + 1 > ackblock kcp
       then let newblock = ack_block 32 8 (ackcount kcp + 1) in
         kcp\<lparr>acklist := take ?c (acklist kcp) @ replicate (unat newblock - ?c) (0, 0), ackblock := newblock\<rparr>
       else kcp)"
  have "ackcount kcp + 1 \<le> ack_block 32 8 (ackcount kcp + 1)"
    by (rule ack_block_ge [of _ _ 3]) (use room suc in simp_all)
  then have "?c + 1 \<le> unat (ack_block 32 8 (ackcount kcp + 1))" by (simp add: word_le_nat_alt suc)
  then have 1: "length (acklist kcp1) = unat (ackblock kcp1)" "?c + 1 \<le> unat (ackblock kcp1)"
    "take ?c (acklist kcp1) = acks kcp" "ackcount kcp1 = ackcount kcp"
    using le inv suc by (auto simp: kcp1_def Let_def acks_def ack_inv_def not_less word_le_nat_alt)
  define kcp2 where "kcp2 = kcp1\<lparr>acklist := (acklist kcp1)[?c := (sn, ts)], ackcount := ackcount kcp1 + 1\<rparr>"
  have "?c < length (acklist kcp1)" using 1 by simp
  then have "ikcp_ack_push sn ts kcp = Some kcp2"
    using 1(4) unfolding ikcp_ack_push_def Let_def kcp1_def [unfolded Let_def, symmetric] kcp2_def by simp
  moreover have "ack_inv kcp2" using 1 suc by (simp add: ack_inv_def kcp2_def word_le_nat_alt)
  moreover have "acks kcp2 = acks kcp @ [(sn, ts)]"
    using 1 suc by (simp add: acks_def kcp2_def take_Suc_conv_app_nth)
  moreover have "kcp2 = kcp\<lparr>acklist := acklist kcp2, ackcount := ackcount kcp2, ackblock := ackblock kcp2\<rparr>"
    by (simp add: kcp2_def kcp1_def Let_def)
  ultimately show ?thesis by blast
qed

section \<open>Sequence numbers as indices of a stream\<close>

lemma itimediff_nat:
  assumes "i < j + 2 ^ 31" "j \<le> i + 2 ^ 31"
  shows "itimediff (of_nat i) (of_nat j) = int i - int j"
proof -
  have "sint (word_of_int (int i - int j) :: u32) = signed_take_bit 31 (int i - int j)"
    by (subst sint_sbintrunc') simp
  also have "\<dots> = int i - int j"
    by (rule signed_take_bit_int_eq_self) (use assms in simp_all)
  finally show ?thesis by (simp add: itimediff_def)
qed

lemma of_nat_neq:
  assumes "i < j + 2 ^ 31" "j < i + 2 ^ 31"
  shows "(of_nat i :: u32) = of_nat j \<longleftrightarrow> i = j"
  using itimediff_nat [of i j] assms by auto

text \<open>A stream of segments: the segment with index \<open>k\<close> has the number \<open>k\<close> modulo \<open>2 ^ 32\<close>.\<close>

definition kcp_stream :: "(nat \<Rightarrow> ikcpseg) \<Rightarrow> bool" where
  "kcp_stream f \<longleftrightarrow> (\<forall>k. sg_sn (f k) = of_nat k \<and> sg_len (f k) = of_nat (length (sg_data (f k)))
     \<and> length (sg_data (f k)) < 2 ^ 32)"

lemma kcp_streamD:
  assumes "kcp_stream f"
  shows "sg_sn (f k) = of_nat k" "take (unat (sg_len (f k))) (sg_data (f k)) = sg_data (f k)"
  using assms by (simp_all add: kcp_stream_def unat_of_nat)

text \<open>
  The state of the receiver of a stream: \<open>n\<close> is the index of the next segment it waits for; the
  queue holds those from some index up to it, and the buffer later ones, in order and once each.
\<close>

definition rcv_inv :: "(nat \<Rightarrow> ikcpseg) \<Rightarrow> nat \<Rightarrow> nat \<Rightarrow> nat list \<Rightarrow> ikcpcb \<Rightarrow> bool" where
  "rcv_inv f m n js kcp \<longleftrightarrow>
     rcv_nxt kcp = of_nat n \<and> unat (rcv_wnd kcp) < 2 ^ 31 \<and> m \<le> n \<and> n - m < 2 ^ 31
     \<and> rcv_queue kcp = map f [m..<n] \<and> nrcv_que kcp = of_nat (n - m)
     \<and> rcv_buf kcp = map f js \<and> nrcv_buf kcp = of_nat (length js)
     \<and> sorted_wrt (<) js \<and> (\<forall>j \<in> set js. n \<le> j \<and> j < n + 2 ^ 31)"

text \<open>No segment waits in the buffer that could be delivered.\<close>

definition rcv_settled :: "ikcpcb \<Rightarrow> bool" where
  "rcv_settled kcp \<longleftrightarrow> (case rcv_buf kcp of [] \<Rightarrow> True
     | seg # _ \<Rightarrow> sg_sn seg \<noteq> rcv_nxt kcp \<or> nrcv_que kcp \<ge> rcv_wnd kcp)"

lemma take_ready_simps [simp]:
  "rcv_wnd (take_ready seg kcp) = rcv_wnd kcp" "probe (take_ready seg kcp) = probe kcp"
  "take_ready seg (kcp\<lparr>rcv_buf := b\<rparr>) = (take_ready seg kcp)\<lparr>rcv_buf := b\<rparr>"
  by (simp_all add: take_ready_def)

lemma move_ready_other [simp]:
  "rcv_wnd (move_ready segs kcp) = rcv_wnd kcp" "probe (move_ready segs kcp) = probe kcp"
  by (induction segs arbitrary: kcp) simp_all

lemma move_ready_buf: "move_ready segs (kcp\<lparr>rcv_buf := b\<rparr>) = move_ready segs kcp"
  by (induction segs arbitrary: kcp) simp_all

lemma atLeastLessThan_insert: "Suc n \<le> n' \<Longrightarrow> {n..<n'} = insert n {Suc n..<n'}"
  by auto

lemma move_ready_inv:
  assumes f: "kcp_stream f" and "rcv_inv f m n js kcp"
  shows "\<exists>n' js'. rcv_inv f m n' js' (move_ready (map f js) kcp) \<and> n \<le> n'
    \<and> set js = {n..<n'} \<union> set js' \<and> rcv_settled (move_ready (map f js) kcp)"
  using assms(2)
proof (induction js arbitrary: n kcp)
  case Nil
  then show ?case by (intro exI [of _ n] exI [of _ "[]"]) (simp add: rcv_inv_def rcv_settled_def)
next
  case (Cons j js)
  have D: "rcv_nxt kcp = of_nat n" "unat (rcv_wnd kcp) < 2 ^ 31" "m \<le> n" "n - m < 2 ^ 31"
    "rcv_queue kcp = map f [m..<n]" "nrcv_que kcp = of_nat (n - m)"
    "rcv_buf kcp = map f (j # js)" "nrcv_buf kcp = of_nat (length (j # js))"
    "sorted_wrt (<) (j # js)" "\<forall>i \<in> set (j # js). n \<le> i \<and> i < n + 2 ^ 31"
    using Cons.prems unfolding rcv_inv_def by blast+
  have j: "n \<le> j" "j < n + 2 ^ 31" using D(10) by simp_all
  have sn: "sg_sn (f j) = rcv_nxt kcp \<longleftrightarrow> j = n"
    unfolding kcp_streamD(1) [OF f] D(1) by (rule of_nat_neq) (use j in simp_all)
  show ?case
  proof (cases "sg_sn (f j) = rcv_nxt kcp \<and> nrcv_que kcp < rcv_wnd kcp")
    case False
    have "kcp\<lparr>rcv_buf := f j # map f js\<rparr> = kcp" using D(7) by simp
    then have "move_ready (map f (j # js)) kcp = kcp" using False by auto
    moreover have "rcv_settled kcp" using False by (auto simp: rcv_settled_def D(7) not_less)
    ultimately show ?thesis using Cons.prems
      by (intro exI [of _ n] exI [of _ "j # js"]) simp
  next
    case True
    define kcp1 where "kcp1 = (take_ready (f j) kcp)\<lparr>rcv_buf := map f js\<rparr>"
    have j_n: "j = n" using sn True by simp
    have "unat (nrcv_que kcp) = n - m" unfolding D(6) by (rule unat_of_nat32) (use D(4) in simp)
    then have "n - m < unat (rcv_wnd kcp)" using True by (simp add: word_less_nat_alt)
    then have nm: "Suc n - m < 2 ^ 31" using D(2,3) by linarith
    have js: "\<forall>i \<in> set js. Suc n \<le> i \<and> i < Suc n + 2 ^ 31"
      using D(9,10) j_n by auto
    have n1: "of_nat (Suc n - m) = nrcv_que kcp + 1" unfolding D(6) by (simp add: Suc_diff_le D(3))
    have E: "rcv_nxt kcp1 = of_nat (Suc n)" "rcv_wnd kcp1 = rcv_wnd kcp" "m \<le> Suc n"
      "rcv_queue kcp1 = map f [m..<Suc n]" "nrcv_que kcp1 = of_nat (Suc n - m)"
      "rcv_buf kcp1 = map f js" "nrcv_buf kcp1 = of_nat (length js)" "sorted_wrt (<) js"
      subgoal using D(1) by (simp add: kcp1_def take_ready_def)
      subgoal by (simp add: kcp1_def take_ready_def)
      subgoal using D(3) by simp
      subgoal using D(3,5) j_n by (simp add: kcp1_def take_ready_def)
      subgoal unfolding n1 by (simp add: kcp1_def take_ready_def)
      subgoal by (simp add: kcp1_def)
      subgoal using D(8) by (simp add: kcp1_def take_ready_def)
      subgoal using D(9) by simp
      done
    have "rcv_inv f m (Suc n) js kcp1"
      unfolding rcv_inv_def E(1,2,4-7) by (intro conjI refl D(2) E(3,8) nm js)
    from Cons.IH [OF this] obtain n' js' where IH: "rcv_inv f m n' js' (move_ready (map f js) kcp1)"
      "Suc n \<le> n'" "set js = {Suc n..<n'} \<union> set js'" "rcv_settled (move_ready (map f js) kcp1)" by blast
    have mv: "move_ready (map f (j # js)) kcp = move_ready (map f js) kcp1"
      using True by (simp add: kcp1_def move_ready_buf)
    have "{n..<n'} = insert n {Suc n..<n'}" by (rule atLeastLessThan_insert [OF IH(2)])
    then have "set (j # js) = {n..<n'} \<union> set js'" unfolding j_n by (simp add: IH(3))
    with IH show ?thesis unfolding mv by (intro exI [of _ n'] exI [of _ js']) simp
  qed
qed

lemma rcv_insert_sorted:
  assumes f: "kcp_stream f" and near: "\<forall>j \<in> set js. k < j + 2 ^ 31 \<and> j < k + 2 ^ 31"
    and "sorted_wrt (>) js"
  shows "rcv_insert (f k) (map f js) = (if k \<in> set js then None
    else Some (map f (filter (\<lambda>j. k < j) js @ k # filter (\<lambda>j. j < k) js)))"
  using assms(2,3)
proof (induction js)
  case (Cons j js)
  have 1: "sg_sn (f j) = sg_sn (f k) \<longleftrightarrow> j = k"
    using Cons.prems(1) of_nat_neq [of j k] by (simp add: kcp_streamD(1) [OF f])
  have 2: "itimediff (sg_sn (f k)) (sg_sn (f j)) > 0 \<longleftrightarrow> j < k"
    using Cons.prems(1) itimediff_nat [of k j] by (simp add: kcp_streamD(1) [OF f])
  show ?case
  proof (cases "j < k")
    case True
    then have "\<forall>i \<in> set js. i < k" using Cons.prems(2) by auto
    then have "filter (\<lambda>j. k < j) js = []" "filter (\<lambda>j. j < k) js = js" "k \<notin> set js"
      by (auto simp: filter_empty_conv)
    then show ?thesis using True 1 2 by simp
  next
    case False
    then show ?thesis using 1 2 Cons by auto
  qed
qed simp

section \<open>A segment arrives\<close>

lemma filter_around:
  "sorted_wrt (<) js \<Longrightarrow> sorted_wrt (<) (filter (\<lambda>j. j < k) js @ k # filter (\<lambda>j. k < j) js)"
  for k :: nat
  by (auto simp: sorted_wrt_append sorted_wrt_filter)

text \<open>
  What \<open>ikcp_parse_data\<close> does with the segment of index \<open>k\<close>, which is not further than \<open>2 ^ 31\<close>
  from the next expected one: nothing outside of the window, and otherwise it becomes part of the
  buffer, and what is complete moves to the queue.
\<close>

lemma parse_data_inv:
  assumes f: "kcp_stream f" and inv: "rcv_inv f m n js kcp" and near: "k < n + 2 ^ 31" "n \<le> k + 2 ^ 31"
  shows "\<exists>n' js'. rcv_inv f m n' js' (ikcp_parse_data (f k) kcp) \<and> n \<le> n' \<and> n' \<le> n + 2 ^ 31
    \<and> {n..<n'} \<union> set js' = (if n \<le> k \<and> k < n + unat (rcv_wnd kcp) then insert k (set js) else set js)
    \<and> (rcv_settled kcp \<longrightarrow> rcv_settled (ikcp_parse_data (f k) kcp))"
proof -
  have D: "rcv_nxt kcp = of_nat n" "unat (rcv_wnd kcp) < 2 ^ 31" "rcv_buf kcp = map f js"
    "nrcv_buf kcp = of_nat (length js)" "sorted_wrt (<) js" "\<forall>i \<in> set js. n \<le> i \<and> i < n + 2 ^ 31"
    using inv unfolding rcv_inv_def by blast+
  define W where "W = unat (rcv_wnd kcp)"
  have nW: "rcv_nxt kcp + rcv_wnd kcp = of_nat (n + W)" by (simp add: D(1) W_def)
  have below: "itimediff (of_nat k) (of_nat n) < 0 \<longleftrightarrow> k < n"
    using itimediff_nat [OF near] by simp
  have above: "itimediff (of_nat k) (of_nat (n + W)) \<ge> 0 \<longleftrightarrow> n + W \<le> k" if "n \<le> k"
  proof -
    have "itimediff (of_nat k) (of_nat (n + W)) = int k - int (n + W)"
      by (rule itimediff_nat) (use that near D(2) W_def in linarith)+
    then show ?thesis by linarith
  qed
  show ?thesis
  proof (cases "n \<le> k \<and> k < n + W")
    case False
    then have "itimediff (of_nat k) (rcv_nxt kcp + rcv_wnd kcp) \<ge> 0 \<or> itimediff (of_nat k) (rcv_nxt kcp) < 0"
      unfolding nW using below above D(1) by (metis not_le)
    then have "ikcp_parse_data (f k) kcp = kcp"
      unfolding ikcp_parse_data_def Let_def kcp_streamD(1) [OF f] by (rule if_P)
    then show ?thesis using inv unfolding if_not_P [OF False, unfolded W_def]
      by (intro exI [of _ n] exI [of _ js]) simp
  next
    case True
    have nin: "\<not> (itimediff (of_nat k) (rcv_nxt kcp + rcv_wnd kcp) \<ge> 0 \<or> itimediff (of_nat k) (rcv_nxt kcp) < 0)"
      unfolding nW using below above D(1) True by simp
    have nk: "\<forall>j \<in> set (rev js). k < j + 2 ^ 31 \<and> j < k + 2 ^ 31"
    proof
      fix j assume "j \<in> set (rev js)"
      then have "n \<le> j" "j < n + 2 ^ 31" using D(6) by simp_all
      then show "k < j + 2 ^ 31 \<and> j < k + 2 ^ 31" using True near by linarith
    qed
    have "sorted_wrt (>) (rev js)" using D(5) by (simp add: sorted_wrt_rev)
    note ins = rcv_insert_sorted [OF f nk this]
    define js2 where "js2 = (if k \<in> set js then js else filter (\<lambda>j. j < k) js @ k # filter (\<lambda>j. k < j) js)"
    define kcp2 where "kcp2 = (case rcv_insert (f k) (rev (rcv_buf kcp)) of
         None \<Rightarrow> kcp | Some r \<Rightarrow> kcp\<lparr>rcv_buf := rev r, nrcv_buf := nrcv_buf kcp + 1\<rparr>)"
    have set2: "set js2 = insert k (set js)"
      by (auto simp: js2_def)
    have len2: "length js2 = (if k \<in> set js then length js else Suc (length js))"
    proof -
      have "length (filter (\<lambda>j. j < k) js) + length (filter (\<lambda>j. k < j) js) = length js" if "k \<notin> set js"
      proof -
        have "filter (\<lambda>j. k < j) js = filter (\<lambda>j. \<not> j < k) js"
          using that by (intro filter_cong refl) (auto simp: not_less nat_less_le)
        then show ?thesis by (simp add: sum_length_filter_compl)
      qed
      then show ?thesis by (simp add: js2_def)
    qed
    have k2: "kcp2 = (if k \<in> set js then kcp else kcp\<lparr>rcv_buf := map f js2, nrcv_buf := nrcv_buf kcp + 1\<rparr>)"
      unfolding kcp2_def D(3) rev_map ins by (simp add: js2_def rev_map rev_filter)
    have inv2: "rcv_inv f m n js2 kcp2"
    proof -
      have "sorted_wrt (<) js2" using D(5) filter_around [of js k] by (simp add: js2_def)
      moreover have "\<forall>i \<in> set js2. n \<le> i \<and> i < n + 2 ^ 31" unfolding set2 using D(6) True near by simp
      moreover have "nrcv_buf kcp2 = of_nat (length js2)" using D(4) len2 by (simp add: k2)
      moreover have "rcv_buf kcp2 = map f js2" using D(3) by (simp add: k2 js2_def)
      ultimately show ?thesis using inv unfolding rcv_inv_def by (simp add: k2)
    qed
    have run: "ikcp_parse_data (f k) kcp = move_ready (map f js2) kcp2"
    proof -
      have "rcv_buf kcp2 = map f js2" using inv2 by (simp add: rcv_inv_def)
      then show ?thesis
        unfolding ikcp_parse_data_def Let_def kcp_streamD(1) [OF f] if_not_P [OF nin] kcp2_def [symmetric]
        by simp
    qed
    from move_ready_inv [OF f inv2] obtain n' js' where M:
      "rcv_inv f m n' js' (move_ready (map f js2) kcp2)" "n \<le> n'" "set js2 = {n..<n'} \<union> set js'"
      "rcv_settled (move_ready (map f js2) kcp2)" by blast
    have "n' \<le> n + 2 ^ 31"
    proof (cases "n' = n")
      case False
      then have "n' - 1 \<in> set js2" using M(2,3) by auto
      moreover have "\<forall>i \<in> set js2. i < n + 2 ^ 31" using inv2 unfolding rcv_inv_def by blast
      ultimately have "n' - 1 < n + 2 ^ 31" by blast
      then show ?thesis by linarith
    qed simp
    then show ?thesis using M True unfolding run W_def set2
      by (intro exI [of _ n'] exI [of _ js']) (simp add: M(3) [symmetric] set2)
  qed
qed

section \<open>The application receives\<close>

lemma recv_merge_stream:
  assumes "kcp_stream f"
  shows "\<exists>t l. t \<le> length xs \<and> recv_merge (map f xs)
    = (concat (map (sg_data \<circ> f) (take t xs)), l, map f (drop t xs))"
proof (induction xs)
  case (Cons x xs)
  then obtain t l where IH: "t \<le> length xs" "recv_merge (map f xs)
    = (concat (map (sg_data \<circ> f) (take t xs)), l, map f (drop t xs))" by blast
  note d = kcp_streamD(2) [OF assms]
  show ?case
  proof (cases "sg_frg (f x) = 0")
    case True
    then show ?thesis using d by (intro exI [of _ 1] exI [of _ "sg_len (f x)"]) (simp add: Let_def)
  next
    case False
    then show ?thesis using IH d
      by (intro exI [of _ "Suc t"] exI [of _ "sg_len (f x) + l"]) (simp add: Let_def comp_def)
  qed
qed simp

text \<open>
  A call of \<open>ikcp_recv\<close> that is no peek: what it hands over is the next part of the stream, and
  room in the queue is used at once.
\<close>

lemma rcv_inv_probe [simp]:
  "rcv_inv f m n js (kcp\<lparr>probe := b\<rparr>) = rcv_inv f m n js kcp"
  "rcv_settled (kcp\<lparr>probe := b\<rparr>) = rcv_settled kcp"
  by (simp_all add: rcv_inv_def rcv_settled_def split: list.split)

lemma recv_inv:
  assumes f: "kcp_stream f" and inv: "rcv_inv f m n js kcp" and run: "ikcp_recv True len kcp = (r, bs, kcp')"
    and len: "0 \<le> len"
  shows "\<exists>m' n' js'. rcv_inv f m' n' js' kcp' \<and> m \<le> m' \<and> m' \<le> n \<and> n \<le> n' \<and> n' \<le> n + 2 ^ 31
    \<and> bs = concat (map (sg_data \<circ> f) [m..<m']) \<and> set js = {n..<n'} \<union> set js'
    \<and> (rcv_settled kcp \<longrightarrow> rcv_settled kcp')"
proof (cases "rcv_queue kcp = [] \<or> ikcp_peeksize kcp < 0 \<or> ikcp_peeksize kcp > len")
  case True
  then have "bs = []" "kcp' = kcp" using run len by (auto simp: ikcp_recv_def Let_def split: if_splits)
  then show ?thesis using inv
    by (intro exI [of _ m] exI [of _ n] exI [of _ js]) (simp add: rcv_inv_def)
next
  case False
  have D: "m \<le> n" "n - m < 2 ^ 31" "rcv_queue kcp = map f [m..<n]" "nrcv_que kcp = of_nat (n - m)"
    "rcv_buf kcp = map f js" "\<forall>i \<in> set js. n \<le> i \<and> i < n + 2 ^ 31"
    using inv unfolding rcv_inv_def by blast+
  obtain t l where t0: "t \<le> length [m..<n]" "recv_merge (map f [m..<n])
      = (concat (map (sg_data \<circ> f) (take t [m..<n])), l, map f (drop t [m..<n]))"
    using recv_merge_stream [OF f, of "[m..<n]"] by blast
  then have t1: "m + t \<le> n" using D(1) by simp
  then have t: "t \<le> n - m" "recv_merge (map f [m..<n])
      = (concat (map (sg_data \<circ> f) [m..<m + t]), l, map f [m + t..<n])"
    using t0(2) by simp_all
  define kcp1 where "kcp1 = kcp\<lparr>nrcv_que := nrcv_que kcp - of_nat t, rcv_queue := map f [m + t..<n]\<rparr>"
  have lr: "length (rcv_queue kcp) - length (map f [m + t..<n]) = t" using t(1) by (simp add: D(3))
  have inv1: "rcv_inv f (m + t) n js kcp1"
  proof -
    have c: "nrcv_que kcp - of_nat t = of_nat (n - (m + t))"
      unfolding D(4) using of_nat_diff [of t "n - m", where 'a = u32] t(1) by simp
    have "n - (m + t) < 2 ^ 31" using D(2) by linarith
    then show ?thesis using inv t1 unfolding rcv_inv_def kcp1_def c by auto
  qed
  define kcp2 where "kcp2 = move_ready (map f js) kcp1"
  from move_ready_inv [OF f inv1] obtain n' js' where M: "rcv_inv f (m + t) n' js' kcp2" "n \<le> n'"
      "set js = {n..<n'} \<union> set js'" "rcv_settled kcp2" unfolding kcp2_def by blast
  have b1: "rcv_buf kcp1 = map f js" by (simp add: kcp1_def D(5))
  have q: "rcv_queue kcp \<noteq> []" "\<not> ikcp_peeksize kcp < 0" "\<not> \<bar>len\<bar> < ikcp_peeksize kcp" "\<not> len < 0"
    using False len by simp_all
  have step: "(r, bs, kcp') = (to_i32 l, concat (map (sg_data \<circ> f) [m..<m + t]),
      if nrcv_que kcp2 < rcv_wnd kcp2 \<and> nrcv_que kcp \<ge> rcv_wnd kcp
      then kcp2\<lparr>probe := probe kcp2 OR IKCP_ASK_TELL\<rparr> else kcp2)"
    unfolding run [symmetric] ikcp_recv_def Let_def if_not_P [OF q(1) [unfolded D(3)]] if_not_P [OF q(2)]
      if_not_P [OF q(3)] if_not_P [OF q(4)] D(3) t(2) prod.case lr [unfolded D(3)] kcp1_def [symmetric]
      b1 kcp2_def [symmetric] if_True ..
  then have res: "bs = concat (map (sg_data \<circ> f) [m..<m + t])"
    "kcp' = kcp2 \<or> kcp' = kcp2\<lparr>probe := probe kcp2 OR IKCP_ASK_TELL\<rparr>"
    by (auto split: if_splits)
  have "n' \<le> n + 2 ^ 31"
  proof (cases "n' = n")
    case False
    then have "n' - 1 \<in> set js" using M(2,3) by auto
    then have "n' - 1 < n + 2 ^ 31" using D(6) by blast
    then show ?thesis by linarith
  qed simp
  moreover have "rcv_inv f (m + t) n' js' kcp'" "rcv_settled kcp'"
    using M(1,4) res(2) by auto
  ultimately show ?thesis using M(2,3) t(1) res(1) D(1)
    by (intro exI [of _ "m + t"] exI [of _ n'] exI [of _ js']) simp
qed

section \<open>A receiver and the network\<close>

definition rcv_fresh :: "ikcpcb \<Rightarrow> bool" where
  "rcv_fresh kcp \<longleftrightarrow> rcv_nxt kcp = 0 \<and> rcv_queue kcp = [] \<and> rcv_buf kcp = [] \<and> nrcv_que kcp = 0
     \<and> nrcv_buf kcp = 0 \<and> unat (rcv_wnd kcp) < 2 ^ 31"

text \<open>
  A receiver of the stream \<open>f\<close>: the network hands it segments of the stream in any order, any number
  of times or never, none further than half the sequence space from the expected one, and the
  application receives at any time. \<open>n\<close> counts the segments accepted in order; the last argument
  is what the application got so far.
\<close>

inductive receives :: "(nat \<Rightarrow> ikcpseg) \<Rightarrow> nat \<Rightarrow> ikcpcb \<Rightarrow> bytes \<Rightarrow> bool" for f where
  receives_start: "rcv_fresh kcp \<Longrightarrow> receives f 0 kcp []"
| receives_data: "\<lbrakk> receives f n kcp out; k < n + 2 ^ 31; n \<le> k + 2 ^ 31; kcp' = ikcp_parse_data (f k) kcp \<rbrakk>
    \<Longrightarrow> receives f (n + dist (rcv_nxt kcp) (rcv_nxt kcp')) kcp' out"
| receives_recv: "\<lbrakk> receives f n kcp out; 0 \<le> len; ikcp_recv True len kcp = (r, bs, kcp') \<rbrakk>
    \<Longrightarrow> receives f (n + dist (rcv_nxt kcp) (rcv_nxt kcp')) kcp' (out @ bs)"

lemma dist_of_nat:
  assumes "n \<le> n'" "n' \<le> n + 2 ^ 31"
  shows "n + dist (of_nat n) (of_nat n') = n'"
proof -
  have "dist (of_nat n) (of_nat n') = n' - n"
    unfolding dist_def of_nat_diff [OF assms(1), symmetric] by (rule unat_of_nat32) (use assms in simp)
  then show ?thesis using assms(1) by simp
qed

lemma rcv_inv_nxt: "rcv_inv f m n js kcp \<Longrightarrow> rcv_nxt kcp = of_nat n"
  by (simp add: rcv_inv_def)

lemma receives_inv:
  assumes f: "kcp_stream f" and "receives f n kcp out"
  shows "\<exists>m js. rcv_inv f m n js kcp \<and> rcv_settled kcp \<and> out = concat (map (sg_data \<circ> f) [0..<m])"
  using assms(2)
proof (induction rule: receives.induct)
  case (receives_start kcp)
  then show ?case
    by (intro exI [of _ 0] exI [of _ "[]"]) (auto simp: rcv_fresh_def rcv_inv_def rcv_settled_def)
next
  case (receives_data n kcp out k kcp')
  then obtain m js where inv: "rcv_inv f m n js kcp" "rcv_settled kcp" "out = concat (map (sg_data \<circ> f) [0..<m])"
    by blast
  from parse_data_inv [OF f inv(1) receives_data.hyps(2,3)] receives_data.hyps(4) inv(2)
  obtain n' js' where "rcv_inv f m n' js' kcp'" "n \<le> n'" "n' \<le> n + 2 ^ 31" "rcv_settled kcp'" by blast
  then show ?case using inv(3) dist_of_nat rcv_inv_nxt inv(1) by metis
next
  case (receives_recv n kcp out len r bs kcp')
  then obtain m js where inv: "rcv_inv f m n js kcp" "rcv_settled kcp" "out = concat (map (sg_data \<circ> f) [0..<m])"
    by blast
  from recv_inv [OF f inv(1) receives_recv.hyps(3,2)] inv(2)
  obtain m' n' js' where R: "rcv_inv f m' n' js' kcp'" "m \<le> m'" "n \<le> n'" "n' \<le> n + 2 ^ 31"
    "rcv_settled kcp'" "bs = concat (map (sg_data \<circ> f) [m..<m'])" by blast
  have "out @ bs = concat (map (sg_data \<circ> f) [0..<m'])"
    using inv(3) R(2,6) upt_add_eq_append [of 0 m "m' - m"] by simp
  then show ?case using R dist_of_nat rcv_inv_nxt inv(1) by metis
qed

section \<open>Properties\<close>

text \<open>
  C14. Delivery in order, exactly once: whatever segments of a stream the network delivers, in any
  order, repeated or lost, the application of the receiver gets a prefix of the stream's data,
  unchanged; the segments that follow in the queue are the next ones of the stream; and no segment
  that could be delivered is held back in the reorder buffer. This holds across the wrap-around of
  the 32-bit sequence numbers.
\<close>

theorem kcp_receives_in_order:
  assumes "kcp_stream f" "receives f n kcp out"
  shows "\<exists>m \<le> n. out = concat (map (sg_data \<circ> f) [0..<m]) \<and> rcv_queue kcp = map f [m..<n]
    \<and> rcv_nxt kcp = of_nat n \<and> rcv_settled kcp"
  using receives_inv [OF assms] unfolding rcv_inv_def by blast

definition example_stream :: "nat \<Rightarrow> ikcpseg" where
  "example_stream k = (ikcp_segment_new [of_nat k])\<lparr>sg_sn := of_nat k\<rparr>"

lemma example_stream: "kcp_stream example_stream"
  by (simp add: kcp_stream_def example_stream_def ikcp_segment_new_def)

text \<open>Segments 1, 0 and 1 again arrive; the application receives twice.\<close>

theorem kcp_receives_in_order_witness:
  "\<exists>n kcp out m. receives example_stream n kcp out \<and> n = 2 \<and> out = [0, 1]
     \<and> out = concat (map (sg_data \<circ> example_stream) [0..<m])"
proof -
  define k0 where "k0 = ikcp_create 7"
  define k1 where "k1 = ikcp_parse_data (example_stream 1) k0"
  define k2 where "k2 = ikcp_parse_data (example_stream 0) k1"
  define k3 where "k3 = ikcp_parse_data (example_stream 1) k2"
  obtain r4 b4 k4 where 4: "ikcp_recv True 10 k3 = (r4, b4, k4)" by (metis prod.exhaust)
  obtain r5 b5 k5 where 5: "ikcp_recv True 10 k4 = (r5, b5, k5)" by (metis prod.exhaust)
  note ev = k0_def k1_def k2_def k3_def ikcp_create_def example_stream_def ikcp_parse_data_def
    ikcp_segment_new_def Let_def take_ready_def itimediff_def ikcp_recv_def ikcp_peeksize_def to_i32_def
    IKCP_WND_RCV_def
  have n: "rcv_nxt k0 = 0" "rcv_nxt k1 = 0" "rcv_nxt k2 = 2" "rcv_nxt k3 = 2" by (simp_all add: ev)
  have b: "b4 = [0]" "rcv_nxt k4 = 2" using 4 by (auto simp: ev)
  have b5: "b5 = [1]" "rcv_nxt k5 = 2" using 5 4 by (auto simp: ev)
  have "receives example_stream 0 k0 []"
    by (rule receives_start) (simp add: rcv_fresh_def k0_def ikcp_create_def IKCP_WND_RCV_def)
  from receives_data [OF this _ _ k1_def] have "receives example_stream 0 k1 []" by (simp add: n)
  then have "receives example_stream (0 + dist (rcv_nxt k1) (rcv_nxt k2)) k2 []"
    using receives_data [of example_stream 0 k1 "[]" 0 k2] k2_def by simp
  moreover have "0 + dist (rcv_nxt k1) (rcv_nxt k2) = 2" unfolding n by (simp add: dist_def)
  ultimately have "receives example_stream 2 k2 []" by (simp only:)
  from receives_data [OF this _ _ k3_def] have "receives example_stream 2 k3 []" by (simp add: n)
  from receives_recv [OF this _ 4] have "receives example_stream 2 k4 [0]" by (simp add: n b)
  from receives_recv [OF this _ 5] have "receives example_stream 2 k5 [0, 1]" by (simp add: b b5)
  with kcp_receives_in_order [OF example_stream this] show ?thesis by blast
qed

end
