(* ===== verification/KcpSend.thy ===== *)
theory KcpSend
  imports KcpRecv "HOL-Library.Signed_Division"
begin

text \<open>
  The sending half of \<open>ikcp.c\<close>: cutting a message into segments (\<open>ikcp_send\<close>), the round-trip
  estimate (\<open>ikcp_update_ack\<close>), and what acknowledgements do to the segments in flight
  (\<open>ikcp_parse_una\<close>, \<open>ikcp_parse_ack\<close>, \<open>ikcp_parse_fastack\<close>, \<open>ikcp_shrink_buf\<close>).
\<close>

section \<open>The code\<close>

text \<open>
  \<open>avail\<close> is the number of segments the allocator still gives. A stream-mode connection first fills
  up the last segment of the queue; the result is \<open>None\<close> when that needs memory there is not.
\<close>

definition send_append ::
  "nat \<Rightarrow> bytes \<Rightarrow> int \<Rightarrow> ikcpcb \<Rightarrow> (nat \<times> bytes \<times> int \<times> int \<times> ikcpcb) option" where
  "send_append avail buffer len kcp =
     (if stream kcp \<noteq> 0 \<and> snd_queue kcp \<noteq> [] \<and> sg_len (last (snd_queue kcp)) < mss kcp
      then let
        old = last (snd_queue kcp);
        capacity = to_i32 (mss kcp - sg_len old);
        extend = (if len < capacity then len else capacity) in
        if avail = 0 then None
        else let seg = (ikcp_segment_new (take (unat (sg_len old)) (sg_data old) @ take (nat extend) buffer))
            \<lparr>sg_len := sg_len old + to_u32 extend, sg_frg := 0\<rparr> in
          Some (avail - 1, drop (nat extend) buffer, len - extend, extend,
            kcp\<lparr>snd_queue := butlast (snd_queue kcp) @ [seg]\<rparr>)
      else Some (avail, buffer, len, 0, kcp))"

text \<open>The number of fragments, in unsigned arithmetic; dividing by zero is undefined.\<close>

definition frag_count :: "int \<Rightarrow> u32 \<Rightarrow> int option" where
  "frag_count len m = (if len \<le> to_i32 m then Some 1
     else do { guard_opt (m \<noteq> 0); Some (to_i32 ((to_u32 len + m - 1) div m)) })"

text \<open>The loop; the second argument is the number of fragments to come.\<close>

fun send_frags :: "nat \<Rightarrow> nat \<Rightarrow> bytes \<Rightarrow> int \<Rightarrow> int \<Rightarrow> ikcpcb \<Rightarrow> int \<times> ikcpcb" where
  "send_frags avail 0 buffer len sent kcp = (sent, kcp)"
| "send_frags avail (Suc n) buffer len sent kcp =
     (let sz = (if len > to_i32 (mss kcp) then to_i32 (mss kcp) else len) in
      if avail = 0 then (- 2, kcp)
      else let seg = (ikcp_segment_new (take (nat sz) buffer))
          \<lparr>sg_len := to_u32 sz, sg_frg := (if stream kcp = 0 then of_nat n else 0)\<rparr> in
        send_frags (avail - 1) n (drop (nat sz) buffer) (len - sz) (sent + sz)
          (kcp\<lparr>snd_queue := snd_queue kcp @ [seg], nsnd_que := nsnd_que kcp + 1\<rparr>))"

definition ikcp_send :: "nat \<Rightarrow> bytes \<Rightarrow> int \<Rightarrow> ikcpcb \<Rightarrow> (int \<times> ikcpcb) option" where
  "ikcp_send avail buffer len kcp =
     (if len < 0 then Some (- 1, kcp)
      else do {
        guard_opt (nat len \<le> length buffer);
        (case send_append avail buffer len kcp of
           None \<Rightarrow> Some (- 2, kcp)
         | Some (avail, buffer, len, sent, kcp) \<Rightarrow>
             if stream kcp \<noteq> 0 \<and> len \<le> 0 then Some (sent, kcp)
             else do {
               count \<leftarrow> frag_count len (mss kcp);
               if count \<ge> to_i32 IKCP_WND_RCV
               then Some (if stream kcp \<noteq> 0 \<and> sent > 0 then sent else - 2, kcp)
               else let count = (if count = 0 then 1 else count) in
                 Some (send_frags avail (nat count) buffer len sent kcp) }) })"

text \<open>\<open>IINT32\<close> arithmetic that overflows is undefined; \<open>delta\<close> is a \<open>long\<close>.\<close>

definition ikcp_update_ack :: "int \<Rightarrow> ikcpcb \<Rightarrow> ikcpcb option" where
  "ikcp_update_ack rtt kcp = do {
     (srtt, rttval) \<leftarrow>
       (if rx_srtt kcp = 0 then Some (rtt, rtt sdiv 2)
        else do {
          d \<leftarrow> i32 (rtt - rx_srtt kcp);
          let delta = \<bar>d\<bar>;
          v \<leftarrow> i32 (3 * rx_rttval kcp);
          s \<leftarrow> i32 (7 * rx_srtt kcp);
          s \<leftarrow> i32 (s + rtt);
          let srtt = s sdiv 8;
          Some (if srtt < 1 then 1 else srtt, to_i32 (to_u32 ((v + delta) sdiv 4))) });
     f \<leftarrow> i32 (4 * rttval);
     let rto = to_i32 (to_u32 srtt + imax (interval kcp) (to_u32 f));
     Some (kcp\<lparr>rx_srtt := srtt, rx_rttval := rttval,
       rx_rto := to_i32 (ibound (to_u32 (rx_minrto kcp)) (to_u32 rto) IKCP_RTO_MAX)\<rparr>) }"

definition ikcp_shrink_buf :: "ikcpcb \<Rightarrow> ikcpcb" where
  "ikcp_shrink_buf kcp = kcp\<lparr>snd_una := (case snd_buf kcp of seg # _ \<Rightarrow> sg_sn seg | [] \<Rightarrow> snd_nxt kcp)\<rparr>"

text \<open>The search of \<open>ikcp_parse_ack\<close>: the list without the segment, \<open>None\<close> when it is not there.\<close>

fun ack_remove :: "u32 \<Rightarrow> ikcpseg list \<Rightarrow> ikcpseg list option" where
  "ack_remove sn [] = None"
| "ack_remove sn (seg # segs) =
     (if sn = sg_sn seg then Some segs
      else if itimediff sn (sg_sn seg) < 0 then None
      else map_option ((#) seg) (ack_remove sn segs))"

definition ack_outside :: "u32 \<Rightarrow> ikcpcb \<Rightarrow> bool" where
  "ack_outside sn kcp \<longleftrightarrow> itimediff sn (snd_una kcp) < 0 \<or> itimediff sn (snd_nxt kcp) \<ge> 0"

definition ikcp_parse_ack :: "u32 \<Rightarrow> ikcpcb \<Rightarrow> ikcpcb" where
  "ikcp_parse_ack sn kcp =
     (if ack_outside sn kcp then kcp
      else case ack_remove sn (snd_buf kcp) of
        None \<Rightarrow> kcp
      | Some segs \<Rightarrow> kcp\<lparr>snd_buf := segs, nsnd_buf := nsnd_buf kcp - 1\<rparr>)"

definition ikcp_parse_una :: "u32 \<Rightarrow> ikcpcb \<Rightarrow> ikcpcb" where
  "ikcp_parse_una una kcp = (let segs = dropWhile (\<lambda>seg. itimediff una (sg_sn seg) > 0) (snd_buf kcp) in
     kcp\<lparr>snd_buf := segs, nsnd_buf := nsnd_buf kcp - of_nat (length (snd_buf kcp) - length segs)\<rparr>)"

fun fastack_mark :: "u32 \<Rightarrow> u32 \<Rightarrow> ikcpseg list \<Rightarrow> ikcpseg list" where
  "fastack_mark sn ts [] = []"
| "fastack_mark sn ts (seg # segs) =
     (if itimediff sn (sg_sn seg) < 0 then seg # segs
      else (if sn \<noteq> sg_sn seg \<and> itimediff ts (sg_ts seg) \<ge> 0
        then seg\<lparr>sg_fastack := sg_fastack seg + 1\<rparr> else seg) # fastack_mark sn ts segs)"

definition ikcp_parse_fastack :: "u32 \<Rightarrow> u32 \<Rightarrow> ikcpcb \<Rightarrow> ikcpcb" where
  "ikcp_parse_fastack sn ts kcp =
     (if ack_outside sn kcp then kcp else kcp\<lparr>snd_buf := fastack_mark sn ts (snd_buf kcp)\<rparr>)"

section \<open>Fragments of a message\<close>

text \<open>A reference: the pieces of a message, at least one, and the segments that carry them.\<close>

function chunks :: "nat \<Rightarrow> bytes \<Rightarrow> bytes list" where
  "chunks m bs = (if m = 0 \<or> length bs \<le> m then [bs] else take m bs # chunks m (drop m bs))"
  by pat_completeness auto
termination by (relation "measure (length \<circ> snd)") auto

declare chunks.simps [simp del]

fun message :: "bytes list \<Rightarrow> ikcpseg list" where
  "message [] = []"
| "message (d # ds) = (ikcp_segment_new d)\<lparr>sg_frg := of_nat (length ds)\<rparr> # message ds"

lemma concat_chunks [simp]: "concat (chunks m bs) = bs"
  by (induction m bs rule: chunks.induct) (subst chunks.simps, simp)

lemma chunks_bound: "0 < m \<Longrightarrow> d \<in> set (chunks m bs) \<Longrightarrow> length d \<le> m"
proof (induction m bs rule: chunks.induct)
  case (1 m bs)
  then show ?case by (subst (asm) (2) chunks.simps) (auto split: if_splits)
qed

lemma chunks_nonempty [simp]: "chunks m bs \<noteq> []"
  by (subst chunks.simps) simp

lemma length_chunks: "0 < m \<Longrightarrow> length (chunks m bs) = (if bs = [] then 1 else (length bs + m - 1) div m)"
proof (induction m bs rule: chunks.induct)
  case (1 m bs)
  show ?case
  proof (cases "length bs \<le> m")
    case True
    have "(length bs + m - 1) div m = 1" if "bs \<noteq> []"
    proof -
      have "length bs + m - 1 = (length bs - 1) + 1 * m" using that by (cases bs) simp_all
      then have "(length bs + m - 1) div m = 1 + (length bs - 1) div m"
        using 1(2) by (simp only: div_mult_self1)  
      moreover have "(length bs - 1) div m = 0" using True 1(2) that by (cases bs) simp_all
      ultimately show ?thesis by simp
    qed
    then show ?thesis using True by (subst chunks.simps) simp
  next
    case False
    then have "length bs + m - 1 = (length (drop m bs) + m - 1) + 1 * m" using 1(2) by simp
    then have "(length bs + m - 1) div m = 1 + (length (drop m bs) + m - 1) div m"
      using 1(2) by (simp only: div_mult_self1)
    moreover have "length (chunks m bs) = Suc (length (chunks m (drop m bs)))"
      using False 1(2) by (subst chunks.simps) simp
    moreover have "drop m bs \<noteq> []" "bs \<noteq> []" using False by auto
    ultimately show ?thesis using 1 False by simp
  qed
qed

lemma send_frags_chunks:
  assumes "stream kcp = 0" "unat (mss kcp) = m" "0 < m" "m < 2 ^ 31" "length bs < 2 ^ 31"
    "length (chunks m bs) \<le> avail"
  shows "send_frags avail (length (chunks m bs)) bs (int (length bs)) sent kcp = (sent + int (length bs),
    kcp\<lparr>snd_queue := snd_queue kcp @ message (chunks m bs), nsnd_que := nsnd_que kcp + of_nat (length (chunks m bs))\<rparr>)"
  using assms
proof (induction m bs arbitrary: avail sent kcp rule: chunks.induct)
  case (1 m bs)
  have mi: "to_i32 (mss kcp) = int m" using 1(3,5) by (simp add: to_i32_def sint_unat32)
  have u: "to_u32 (int k) = of_nat k" for k by (simp add: to_u32_def)
  show ?case
  proof (cases "length bs \<le> m")
    case True
    then have c: "chunks m bs = [bs]" by (subst chunks.simps) simp
    show ?thesis using 1(2,7) True unfolding c by (simp add: mi Let_def u ikcp_segment_new_def)
  next
    case False
    then have c: "chunks m bs = take m bs # chunks m (drop m bs)" using 1(4) by (subst chunks.simps) simp
    define kcp1 where "kcp1 = kcp\<lparr>snd_queue := snd_queue kcp
      @ [(ikcp_segment_new (take m bs))\<lparr>sg_frg := of_nat (length (chunks m (drop m bs)))\<rparr>], nsnd_que := nsnd_que kcp + 1\<rparr>"
    have "stream kcp1 = 0" "unat (mss kcp1) = m" using 1(2,3) by (simp_all add: kcp1_def)
    from 1(1) [OF _ this 1(4,5)] False 1(4,6,7) c
    have IH: "send_frags (avail - 1) (length (chunks m (drop m bs))) (drop m bs) (int (length (drop m bs))) (sent + int m) kcp1
      = (sent + int m + int (length (drop m bs)), kcp1\<lparr>snd_queue := snd_queue kcp1 @ message (chunks m (drop m bs)),
         nsnd_que := nsnd_que kcp1 + of_nat (length (chunks m (drop m bs)))\<rparr>)"
      by simp
    have "send_frags avail (length (chunks m bs)) bs (int (length bs)) sent kcp
      = send_frags (avail - 1) (length (chunks m (drop m bs))) (drop m bs) (int (length (drop m bs))) (sent + int m) kcp1"
      using 1(2,7) False unfolding c
      by (simp add: mi Let_def u kcp1_def ikcp_segment_new_def of_nat_diff min_absorb2)
    then show ?thesis unfolding IH c using False by (simp add: kcp1_def of_nat_diff)
  qed
qed

lemma frag_count_chunks:
  assumes "unat w = m" "0 < m" "m < 2 ^ 31" "length bs < 2 ^ 31"
  shows "frag_count (int (length bs)) w = Some (int (length (chunks m bs)))"
proof -
  have mi: "to_i32 w = int m" using assms(1,3) by (simp add: to_i32_def sint_unat32)
  show ?thesis
  proof (cases "length bs \<le> m")
    case True
    then show ?thesis by (subst chunks.simps) (simp add: frag_count_def mi)
  next
    case False
    define q where "q = (length bs + m - 1) div m"
    have "unat (of_nat (length bs) + w) = length bs + m"
      using assms by (simp add: unat_add_nowrap unat_of_nat32)
    then have "unat (of_nat (length bs) + w - 1) = length bs + m - 1"
      using assms(2) by (subst unat_sub_nowrap) simp_all
    then have "unat ((of_nat (length bs) + w - 1) div w) = q"
      using assms(1) by (simp add: unat_div q_def)
    moreover have "q < 2 ^ 31"
    proof -
      have "length bs + m - 1 < 2 ^ 31 * m" using assms(2,4) by (cases m) (simp_all add: algebra_simps)
      then show ?thesis unfolding q_def by (simp add: less_mult_imp_div_less)
    qed
    ultimately have "to_i32 ((of_nat (length bs) + w - 1) div w) = int q"
      by (simp add: to_i32_def sint_unat32)
    moreover have "length (chunks m bs) = q" using length_chunks [OF assms(2)] False by (auto simp: q_def)
    moreover have "w \<noteq> 0" using assms(1,2) by auto
    ultimately show ?thesis using False by (simp add: frag_count_def mi to_u32_def)
  qed
qed

lemma send_message:
  assumes "stream kcp = 0" "unat (mss kcp) = m" "0 < m" "m < 2 ^ 31" "length bs < 2 ^ 31"
    "length (chunks m bs) \<le> avail"
  shows "ikcp_send avail bs (int (length bs)) kcp = Some (if length (chunks m bs) \<ge> 128 then (- 2, kcp)
    else (int (length bs), kcp\<lparr>snd_queue := snd_queue kcp @ message (chunks m bs),
      nsnd_que := nsnd_que kcp + of_nat (length (chunks m bs))\<rparr>))"
proof -
  have c: "frag_count (int (length bs)) (mss kcp) = Some (int (length (chunks m bs)))"
    by (rule frag_count_chunks [OF assms(2-5)])
  have nz: "int (length (chunks m bs)) \<noteq> 0" by simp
  have w: "to_i32 IKCP_WND_RCV = 128" by (simp add: to_i32_def IKCP_WND_RCV_def)
  show ?thesis
    using send_frags_chunks [OF assms, of 0] assms(1) nz
    by (simp add: ikcp_send_def send_append_def c w Let_def)
qed

section \<open>Reassembly of a message\<close>

text \<open>Two segments carry the same part of a message.\<close>

definition carries :: "ikcpseg \<Rightarrow> ikcpseg \<Rightarrow> bool" where
  "carries a b \<longleftrightarrow> sg_frg a = sg_frg b \<and> sg_len a = sg_len b \<and> sg_data a = sg_data b"

lemma message_Cons_carries:
  assumes "list_all2 carries (message (d # ds)) segs"
  shows "\<exists>s ss. segs = s # ss \<and> list_all2 carries (message ds) ss
    \<and> sg_frg s = of_nat (length ds) \<and> sg_len s = of_nat (length d) \<and> sg_data s = d"
proof -
  obtain s ss where 1: "segs = s # ss" "list_all2 carries (message ds) ss"
    "carries ((ikcp_segment_new d)\<lparr>sg_frg := of_nat (length ds)\<rparr>) s"
    using assms unfolding message.simps list_all2_Cons1 by blast
  then show ?thesis by (auto simp: carries_def ikcp_segment_new_def)
qed

lemma merge_message:
  assumes "list_all2 carries (message ds) segs" "ds \<noteq> []" "length ds < 2 ^ 31" "\<forall>d \<in> set ds. length d < 2 ^ 32"
  shows "recv_merge (segs @ rest) = (concat ds, of_nat (length (concat ds)), rest)
    \<and> peek_sum (segs @ rest) = of_nat (length (concat ds))"
  using assms
proof (induction ds arbitrary: segs)
  case (Cons d ds)
  from message_Cons_carries [OF Cons.prems(1)] obtain s ss where
    segs: "segs = s # ss" "list_all2 carries (message ds) ss"
    and s: "sg_frg s = of_nat (length ds)" "sg_len s = of_nat (length d)" "sg_data s = d" by blast
  have u: "unat (of_nat (length d) :: u32) = length d" by (rule unat_of_nat32) (use Cons.prems(4) in simp)
  show ?case
  proof (cases "ds = []")
    case True
    then show ?thesis using segs s u by (simp add: Let_def)
  next
    case False
    have "unat (of_nat (length ds) :: u32) = length ds" by (rule unat_of_nat32) (use Cons.prems(3) in simp)
    then have "sg_frg s \<noteq> 0" unfolding s(1) using False by (metis length_0_conv unat_0)
    moreover have "recv_merge (ss @ rest) = (concat ds, of_nat (length (concat ds)), rest)
        \<and> peek_sum (ss @ rest) = of_nat (length (concat ds))"
      using Cons.IH [OF segs(2) False] Cons.prems(3,4) by simp
    ultimately show ?thesis using s u by (simp add: segs(1) Let_def)
  qed
qed simp

lemma length_message [simp]: "length (message ds) = length ds"
  by (induction ds) simp_all

lemma peek_message:
  assumes "list_all2 carries (message ds) segs" "ds \<noteq> []" "length ds < 2 ^ 31" "\<forall>d \<in> set ds. length d < 2 ^ 32"
    "length (concat ds) < 2 ^ 31" "rcv_queue kcp = segs @ rest" "length (rcv_queue kcp) < 2 ^ 32"
    "nrcv_que kcp = of_nat (length (rcv_queue kcp))"
  shows "ikcp_peeksize kcp = int (length (concat ds))"
proof -
  have ls: "length segs = length ds" using list_all2_lengthD [OF assms(1)] by simp
  obtain d ds' where ds: "ds = d # ds'" using assms(2) by (cases ds) auto
  from message_Cons_carries [OF assms(1) [unfolded ds]] obtain s ss where
    segs: "segs = s # ss" and s: "sg_frg s = of_nat (length ds')" "sg_len s = of_nat (length d)" by blast
  have i: "to_i32 (of_nat (length (concat ds))) = int (length (concat ds))"
    using assms(5) by (simp add: to_i32_def sint_unat32 unat_of_nat32)
  have n: "unat (nrcv_que kcp) = length (rcv_queue kcp)" unfolding assms(8) by (rule unat_of_nat32 [OF assms(7)])
  have uf: "unat (sg_frg s + 1) = length ds" using assms(3) ds s(1)
    by (simp add: unat_add_nowrap unat_of_nat32)
  have "\<not> nrcv_que kcp < sg_frg s + 1"
    unfolding word_less_nat_alt n uf using assms(6) ls by simp
  then show ?thesis
    using merge_message [OF assms(1-4), of rest] i assms(6) segs
    by (cases "sg_frg s = 0") (simp_all add: ikcp_peeksize_def)
qed

lemma recv_message:
  assumes "list_all2 carries (message ds) segs" "ds \<noteq> []" "length ds < 2 ^ 31" "\<forall>d \<in> set ds. length d < 2 ^ 32"
    "length (concat ds) < 2 ^ 31" "rcv_queue kcp = segs @ rest" "length (rcv_queue kcp) < 2 ^ 32"
    "nrcv_que kcp = of_nat (length (rcv_queue kcp))" "int (length (concat ds)) \<le> len"
  shows "\<exists>kcp'. ikcp_recv True len kcp = (int (length (concat ds)), concat ds, kcp')"
proof -
  have p: "ikcp_peeksize kcp = int (length (concat ds))" by (rule peek_message [OF assms(1-8)])
  have i: "to_i32 (of_nat (length (concat ds))) = int (length (concat ds))"
    using assms(5) by (simp add: to_i32_def sint_unat32 unat_of_nat32)
  have m: "recv_merge (rcv_queue kcp) = (concat ds, of_nat (length (concat ds)), rest)"
    unfolding assms(6) using merge_message [OF assms(1-4)] by simp
  have "segs \<noteq> []" using assms(1,2) by (cases ds) (auto simp: list_all2_Cons1)
  then have q: "rcv_queue kcp \<noteq> []" "\<not> int (length (concat ds)) < 0" "\<not> \<bar>len\<bar> < int (length (concat ds))"
    using assms(6,9) by simp_all
  show ?thesis
    unfolding ikcp_recv_def if_not_P [OF q(1)] p Let_def if_not_P [OF q(2)] if_not_P [OF q(3)] m prod.case i
      if_True by blast
qed

section \<open>Properties of messages\<close>

text \<open>
  C15. A message is cut into fragments and put together again: \<open>ikcp_send\<close> in message mode appends to
  the queue segments that carry the message in pieces of \<open>mss\<close> bytes, numbered down to \<open>0\<close>, and
  returns its length, unless it needs \<open>128\<close> segments or more, when it answers \<open>-2\<close> and changes
  nothing; and when segments with the same contents, whatever their other fields have become, are at
  the front of a receiver's queue, then \<open>ikcp_recv\<close> with a large enough buffer returns exactly the
  message.
\<close>

theorem kcp_message_roundtrip:
  assumes "stream kcp = 0" "0 < mss kcp" "unat (mss kcp) < 2 ^ 31" "length bs < 2 ^ 31"
    and "length bs \<le> avail" "0 < avail"
    and "ikcp_send avail bs (int (length bs)) kcp = Some (r, kcp')"
  shows "if length bs > 127 * unat (mss kcp) then r = - 2 \<and> kcp' = kcp
    else r = int (length bs) \<and> (\<exists>frags. snd_queue kcp' = snd_queue kcp @ frags
      \<and> nsnd_que kcp' = nsnd_que kcp + of_nat (length frags) \<and> length frags < 128
      \<and> (\<forall>s \<in> set frags. sg_len s \<le> mss kcp)
      \<and> (\<forall>rcv segs rest len. list_all2 carries frags segs \<and> rcv_queue rcv = segs @ rest
          \<and> length (rcv_queue rcv) < 2 ^ 32 \<and> nrcv_que rcv = of_nat (length (rcv_queue rcv)) \<and> r \<le> len
          \<longrightarrow> (\<exists>rcv'. ikcp_recv True len rcv = (r, bs, rcv'))))"
proof -
  define m where "m = unat (mss kcp)"
  have m: "0 < m" "m < 2 ^ 31" using assms(2,3) by (simp_all add: m_def unat_gt_0)
  have av: "length (chunks m bs) \<le> avail"
  proof (cases "bs = []")
    case False
    have "(length bs + m - 1) div m \<le> length bs"
    proof -
      have "length bs + m - 1 \<le> length bs * m" using False m(1)
        by (cases bs; cases m) (simp_all add: algebra_simps)
      then have "(length bs + m - 1) div m \<le> (length bs * m) div m" by (rule div_le_mono)
      then show ?thesis using m(1) by simp
    qed
    then show ?thesis using length_chunks [OF m(1)] False assms(5) by simp
  qed (use assms(6) length_chunks [OF m(1)] in simp)
  note run = send_message [OF assms(1) m_def [symmetric] m assms(4) av]
  have n128: "length (chunks m bs) \<ge> 128 \<longleftrightarrow> length bs > 127 * m"
  proof (cases "bs = []")
    case False
    have "128 \<le> (length bs + m - 1) div m \<longleftrightarrow> 128 * m \<le> length bs + m - 1"
      using m(1) by (simp add: less_eq_div_iff_mult_less_eq)
    then show ?thesis using length_chunks [OF m(1)] False m(1) by auto
  qed (use length_chunks [OF m(1)] in simp)
  show ?thesis
  proof (cases "length bs > 127 * m")
    case True
    then show ?thesis using run n128 assms(7) by (simp add: m_def)
  next
    case False
    then have lt: "length (chunks m bs) < 128" using n128 by simp
    have r: "r = int (length bs)" "kcp' = kcp\<lparr>snd_queue := snd_queue kcp @ message (chunks m bs),
      nsnd_que := nsnd_que kcp + of_nat (length (chunks m bs))\<rparr>"
      using run lt assms(7) by simp_all
    have rcv: "\<exists>rcv'. ikcp_recv True len rcv = (r, bs, rcv')"
      if "list_all2 carries (message (chunks m bs)) segs" "rcv_queue rcv = segs @ rest"
        "length (rcv_queue rcv) < 2 ^ 32" "nrcv_que rcv = of_nat (length (rcv_queue rcv))" "r \<le> len" for rcv segs rest len
    proof -
      have "\<forall>d \<in> set (chunks m bs). length d < 2 ^ 32"
        using chunks_bound [OF m(1)] m(2) by fastforce
      from recv_message [OF that(1) chunks_nonempty _ this, of rcv rest len] that lt assms(4) r(1)
      show ?thesis by simp
    qed
    have le: "\<forall>s \<in> set (message (chunks m bs)). sg_len s \<le> mss kcp"
    proof -
      have "\<forall>d \<in> set ds. length d \<le> m \<Longrightarrow> \<forall>s \<in> set (message ds). sg_len s \<le> mss kcp" for ds
      proof (induction ds)
        case (Cons d ds)
        have "unat (of_nat (length d) :: u32) \<le> unat (mss kcp)"
          using Cons.prems m(2) by (subst unat_of_nat32) (auto simp: m_def)
        then show ?case using Cons by (simp add: word_le_nat_alt ikcp_segment_new_def)
      qed simp
      then show ?thesis using chunks_bound [OF m(1)] by blast
    qed
    have q: "snd_queue kcp' = snd_queue kcp @ message (chunks m bs)"
      "nsnd_que kcp' = nsnd_que kcp + of_nat (length (message (chunks m bs)))"
      "length (message (chunks m bs)) < 128"
      using r(2) lt by simp_all
    show ?thesis unfolding if_not_P [OF False [unfolded m_def]]
      by (intro conjI r(1) exI [of _ "message (chunks m bs)"] q le) (use rcv in blast)
  qed
qed

theorem kcp_message_roundtrip_witness:
  "\<exists>kcp' rcv'. ikcp_send 5 [1, 2, 3] 3 ((ikcp_create 1)\<lparr>mss := 2\<rparr>) = Some (3, kcp')
     \<and> length (snd_queue kcp') = 2
     \<and> ikcp_recv True 10 ((ikcp_create 2)\<lparr>rcv_queue := snd_queue kcp', nrcv_que := 2\<rparr>) = (3, [1, 2, 3], rcv')"
proof -
  define kcp where "kcp = (ikcp_create 1)\<lparr>mss := 2\<rparr>"
  define bs :: bytes where "bs = [1, 2, 3]"
  have k: "stream kcp = 0" "0 < mss kcp" "unat (mss kcp) < 2 ^ 31" "mss kcp = 2" "snd_queue kcp = []"
    by (simp_all add: kcp_def ikcp_create_def)
  have ch: "chunks 2 bs = [[1, 2], [3]]" by (simp add: chunks.simps bs_def numeral_2_eq_2)
  define r :: int where "r = 3"
  define kcp' where "kcp' = kcp\<lparr>snd_queue := message [[1, 2], [3]], nsnd_que := nsnd_que kcp + 2\<rparr>"
  have run: "ikcp_send 5 bs (int (length bs)) kcp = Some (r, kcp')"
    by (subst send_message [where m = 2]) (simp_all add: k ch r_def kcp'_def, simp_all add: bs_def)
  have l: "length (snd_queue kcp') = 2" by (simp add: kcp'_def)
  have c: "list_all2 carries xs xs" for xs by (induction xs) (simp_all add: carries_def)
  from kcp_message_roundtrip [OF k(1-3) _ _ _ run] k(4,5)
  obtain frags where f: "r = int (length bs)" "snd_queue kcp' = frags"
    "\<forall>rcv segs rest len. list_all2 carries frags segs \<and> rcv_queue rcv = segs @ rest
          \<and> length (rcv_queue rcv) < 2 ^ 32 \<and> nrcv_que rcv = of_nat (length (rcv_queue rcv)) \<and> r \<le> len
          \<longrightarrow> (\<exists>rcv'. ikcp_recv True len rcv = (r, bs, rcv'))"
    by (auto simp: bs_def)
  have "\<exists>rcv'. ikcp_recv True 10 ((ikcp_create 2)\<lparr>rcv_queue := frags, nrcv_que := 2\<rparr>) = (r, bs, rcv')"
    by (rule f(3) [rule_format, of frags _ "[]"]) (use c l f(1,2) in \<open>simp add: bs_def\<close>)
  then show ?thesis using run f(1,2) l unfolding kcp_def [symmetric] by (auto simp: bs_def)
qed

section \<open>Acknowledgements\<close>

text \<open>
  The segments in flight, by index: those numbered \<open>js\<close> of the stream \<open>g\<close>, in order, between the
  oldest unacknowledged one and the next to send.
\<close>

definition snd_inv :: "(nat \<Rightarrow> ikcpseg) \<Rightarrow> nat \<Rightarrow> nat \<Rightarrow> nat list \<Rightarrow> ikcpcb \<Rightarrow> bool" where
  "snd_inv g a b js kcp \<longleftrightarrow>
     snd_una kcp = of_nat a \<and> snd_nxt kcp = of_nat b \<and> a \<le> b \<and> b < a + 2 ^ 31
     \<and> snd_buf kcp = map g js \<and> nsnd_buf kcp = of_nat (length js)
     \<and> sorted_wrt (<) js \<and> (\<forall>i \<in> set js. a \<le> i \<and> i < b \<and> sg_sn (g i) = of_nat i)"

text \<open>The oldest one in flight, or the next to send.\<close>

definition oldest :: "nat \<Rightarrow> nat list \<Rightarrow> nat" where
  "oldest b js = (case js of [] \<Rightarrow> b | i # _ \<Rightarrow> i)"

lemma dropWhile_sorted:
  "sorted_wrt (<) js \<Longrightarrow> dropWhile (\<lambda>i. i < u) js = filter (\<lambda>i. u \<le> i) js" for u :: nat
proof (induction js)
  case (Cons i js)
  then show ?case by (cases "i < u") (auto simp: not_less intro!: filter_True [symmetric])
qed simp

lemma snd_invD:
  assumes "snd_inv g a b js kcp"
  shows "snd_una kcp = of_nat a" "snd_nxt kcp = of_nat b" "a \<le> b" "b < a + 2 ^ 31" "snd_buf kcp = map g js"
    "nsnd_buf kcp = of_nat (length js)" "sorted_wrt (<) js" "\<And>i. i \<in> set js \<Longrightarrow> a \<le> i \<and> i < b \<and> sg_sn (g i) = of_nat i"
  using assms unfolding snd_inv_def by blast+

lemma parse_una_inv:
  assumes inv: "snd_inv g a b js kcp" and near: "b < u + 2 ^ 31" "u < a + 2 ^ 31"
  shows "snd_inv g a b (filter (\<lambda>i. u \<le> i) js) (ikcp_parse_una (of_nat u) kcp)"
proof -
  note D = snd_invD [OF inv]
  let ?js = "filter (\<lambda>i. u \<le> i) js"
  have t: "itimediff (of_nat u) (sg_sn (g i)) > 0 \<longleftrightarrow> i < u" if "i \<in> set js" for i
    using D(8) [OF that] itimediff_nat [of u i] near by simp
  have "dropWhile (\<lambda>seg. itimediff (of_nat u) (sg_sn seg) > 0) (snd_buf kcp) = map g (dropWhile (\<lambda>i. i < u) js)"
    unfolding D(5) dropWhile_map comp_def by (rule arg_cong [OF dropWhile_cong]) (use t in simp_all)
  then have d: "dropWhile (\<lambda>seg. itimediff (of_nat u) (sg_sn seg) > 0) (snd_buf kcp) = map g ?js"
    unfolding dropWhile_sorted [OF D(7)] .
  have n: "nsnd_buf kcp - of_nat (length (snd_buf kcp) - length (map g ?js)) = of_nat (length ?js)"
    by (simp add: D(5,6) of_nat_diff)
  show ?thesis
    unfolding snd_inv_def ikcp_parse_una_def Let_def d n using D by (auto simp: sorted_wrt_filter)
qed

lemma shrink_inv:
  assumes "snd_inv g a b js kcp"
  shows "snd_inv g (oldest b js) b js (ikcp_shrink_buf kcp)"
proof -
  note D = snd_invD [OF assms]
  show ?thesis
  proof (cases js)
    case Nil
    then show ?thesis using D by (simp add: snd_inv_def ikcp_shrink_buf_def oldest_def)
  next
    case (Cons i js')
    have "a \<le> i" "i < b" "sg_sn (g i) = of_nat i" using D(8) [of i] Cons by simp_all
    moreover have "\<forall>x \<in> set js. i \<le> x \<and> x < b \<and> sg_sn (g x) = of_nat x"
      using D(7,8) Cons by (auto intro: less_imp_le)
    moreover have "b < i + 2 ^ 31" using D(4) \<open>a \<le> i\<close> by linarith
    ultimately show ?thesis using D(1,2,5-7) Cons
      unfolding snd_inv_def ikcp_shrink_buf_def oldest_def by simp
  qed
qed

lemma ack_remove_sorted:
  assumes "sorted_wrt (<) js" "\<forall>i \<in> set js. sg_sn (g i) = of_nat i \<and> s < i + 2 ^ 31 \<and> i < s + 2 ^ 31"
  shows "ack_remove (of_nat s) (map g js) = (if s \<in> set js then Some (map g (filter (\<lambda>i. i \<noteq> s) js)) else None)"
  using assms
proof (induction js)
  case (Cons i js)
  then have 1: "(of_nat s :: u32) = sg_sn (g i) \<longleftrightarrow> i = s" and 2: "itimediff (of_nat s) (sg_sn (g i)) < 0 \<longleftrightarrow> s < i"
    using of_nat_neq [of s i] itimediff_nat [of s i] by auto
  have IH: "ack_remove (of_nat s) (map g js) = (if s \<in> set js then Some (map g (filter (\<lambda>i. i \<noteq> s) js)) else None)"
    using Cons by simp
  consider "i = s" | "s < i" | "i < s" by linarith
  then show ?case
  proof cases
    case 1
    then have "filter (\<lambda>i. i \<noteq> s) js = js" using Cons.prems(1) by (auto intro!: filter_True)
    then show ?thesis using 1 \<open>((of_nat s :: u32) = sg_sn (g i)) = (i = s)\<close> by simp
  next
    case 2
    then have "s \<notin> set js" using Cons.prems(1) by auto
    then show ?thesis using 2 \<open>((of_nat s :: u32) = sg_sn (g i)) = (i = s)\<close>
        \<open>(itimediff (of_nat s) (sg_sn (g i)) < 0) = (s < i)\<close> by simp
  next
    case 3
    then show ?thesis using IH \<open>((of_nat s :: u32) = sg_sn (g i)) = (i = s)\<close>
        \<open>(itimediff (of_nat s) (sg_sn (g i)) < 0) = (s < i)\<close> by simp
  qed
qed simp

lemma length_filter_neq: "distinct xs \<Longrightarrow> x \<in> set xs \<Longrightarrow> length xs = Suc (length (filter (\<lambda>y. y \<noteq> x) xs))"
proof (induction xs)
  case (Cons y xs)
  show ?case
  proof (cases "y = x")
    case True
    then have "filter (\<lambda>y. y \<noteq> x) xs = xs" using Cons.prems(1) by (intro filter_True) auto
    then show ?thesis using True by simp
  qed (use Cons in simp)
qed simp

lemma parse_ack_inv:
  assumes inv: "snd_inv g a b js kcp" and near: "b < s + 2 ^ 31" "s < a + 2 ^ 31"
  shows "snd_inv g a b (filter (\<lambda>i. i \<noteq> s) js) (ikcp_parse_ack (of_nat s) kcp)"
proof -
  note D = snd_invD [OF inv]
  have o1: "itimediff (of_nat s) (snd_una kcp) < 0 \<longleftrightarrow> s < a"
    using itimediff_nat [of s a] near D(1,3) by simp
  have o2: "itimediff (of_nat s) (snd_nxt kcp) \<ge> 0 \<longleftrightarrow> b \<le> s"
    using itimediff_nat [of s b] near D(2,3) by simp
  have out: "ack_outside (of_nat s) kcp \<longleftrightarrow> s < a \<or> b \<le> s" by (simp add: ack_outside_def o1 o2)
  have nr: "\<forall>i \<in> set js. sg_sn (g i) = of_nat i \<and> s < i + 2 ^ 31 \<and> i < s + 2 ^ 31"
    using D(8) near by (meson add_less_cancel_right less_le_trans order.strict_trans2 not_le add_le_mono1 order_less_trans)
  note rm = ack_remove_sorted [OF D(7) nr]
  show ?thesis
  proof (cases "s \<in> set js")
    case False
    then have "filter (\<lambda>i. i \<noteq> s) js = js" by (auto intro!: filter_True)
    moreover have "ikcp_parse_ack (of_nat s) kcp = kcp" using rm False D(5) by (simp add: ikcp_parse_ack_def)
    ultimately show ?thesis using inv by simp
  next
    case True
    then have "\<not> ack_outside (of_nat s) kcp" using D(8) out by fastforce
    then have run: "ikcp_parse_ack (of_nat s) kcp = kcp\<lparr>snd_buf := map g (filter (\<lambda>i. i \<noteq> s) js), nsnd_buf := nsnd_buf kcp - 1\<rparr>"
      using rm True D(5) by (simp add: ikcp_parse_ack_def)
    have "distinct js" using D(7) by (simp add: strict_sorted_iff)
    then have "length js = Suc (length (filter (\<lambda>i. i \<noteq> s) js))"
      by (rule length_filter_neq [OF _ True])
    then have "nsnd_buf kcp - 1 = of_nat (length (filter (\<lambda>i. i \<noteq> s) js))" by (simp add: D(6))
    then show ?thesis unfolding snd_inv_def run using D by (auto simp: sorted_wrt_filter)
  qed
qed

text \<open>
  C16. What an acknowledgement does to the segments in flight: after the cumulative number \<open>u\<close> and
  the single number \<open>s\<close> of an \<open>ACK\<close> have been processed as \<open>ikcp_input\<close> does, exactly those below
  \<open>u\<close> and \<open>s\<close> are gone, the others are unchanged and in order, the counter agrees, and \<open>snd_una\<close> is
  the oldest that is left, or the next number to send when none is. Numbers wrap around.
\<close>

theorem kcp_ack_processing:
  assumes "snd_inv g a b js kcp" and "b < u + 2 ^ 31" "u < a + 2 ^ 31" and "b < s + 2 ^ 31" "s < a + 2 ^ 31"
    and "left = filter (\<lambda>i. u \<le> i \<and> i \<noteq> s) js"
  shows "snd_inv g (oldest b left) b left
    (ikcp_shrink_buf (ikcp_parse_ack (of_nat s) (ikcp_shrink_buf (ikcp_parse_una (of_nat u) kcp))))"
proof -
  let ?js = "filter (\<lambda>i. u \<le> i) js"
  have 1: "snd_inv g (oldest b ?js) b ?js (ikcp_shrink_buf (ikcp_parse_una (of_nat u) kcp))"
    by (rule shrink_inv [OF parse_una_inv [OF assms(1-3)]])
  have "a \<le> oldest b ?js"
  proof (cases ?js)
    case Nil
    then show ?thesis using snd_invD(3) [OF assms(1)] by (simp add: oldest_def)
  next
    case (Cons i js')
    then have "i \<in> set js" using filter_is_subset [of "\<lambda>i. u \<le> i" js] by auto
    then show ?thesis using Cons snd_invD(8) [OF assms(1)] by (simp add: oldest_def)
  qed
  then have "s < oldest b ?js + 2 ^ 31" using assms(5) by linarith
  from shrink_inv [OF parse_ack_inv [OF 1 assms(4) this]]
  show ?thesis by (simp add: assms(6) conj_commute)
qed

theorem kcp_ack_processing_witness:
  "let kcp = (ikcp_create 7)\<lparr>snd_nxt := 3, snd_buf := map example_stream [0, 1, 2], nsnd_buf := 3\<rparr>;
     kcp' = ikcp_shrink_buf (ikcp_parse_ack 2 (ikcp_shrink_buf (ikcp_parse_una 1 kcp)))
   in snd_buf kcp' = [example_stream 1] \<and> snd_una kcp' = 1 \<and> nsnd_buf kcp' = 1"
proof -
  define kcp where "kcp = (ikcp_create 7)\<lparr>snd_nxt := 3, snd_buf := map example_stream [0, 1, 2], nsnd_buf := 3\<rparr>"
  have inv: "snd_inv example_stream 0 3 [0, 1, 2] kcp"
    by (simp add: snd_inv_def kcp_def ikcp_create_def example_stream_def)
  have "[1] = filter (\<lambda>i. 1 \<le> i \<and> i \<noteq> (2 :: nat)) [0, 1, 2]" by simp
  from kcp_ack_processing [OF inv, of 1 2, OF _ _ _ _ this]
  have P: "snd_inv example_stream 1 3 [1]
    (ikcp_shrink_buf (ikcp_parse_ack 2 (ikcp_shrink_buf (ikcp_parse_una 1 kcp))))"
    by (simp add: oldest_def)
  show ?thesis
    using snd_invD(1,5,6) [OF P] unfolding kcp_def Let_def by simp
qed

section \<open>The retransmission timeout\<close>

lemma sdiv_nonneg: "0 \<le> a \<Longrightarrow> 0 < b \<Longrightarrow> a sdiv b = a div b" for a b :: int
  by (cases "a = 0") (auto simp: signed_divide_int_def sgn_if mult_less_0_iff zero_less_mult_iff)

definition rtt_inv :: "ikcpcb \<Rightarrow> bool" where
  "rtt_inv kcp \<longleftrightarrow> 0 \<le> rx_srtt kcp \<and> rx_srtt kcp < 2 ^ 28 \<and> 0 \<le> rx_rttval kcp \<and> rx_rttval kcp < 2 ^ 28"

lemma to_u32_small: "0 \<le> k \<Longrightarrow> k < 2 ^ 32 \<Longrightarrow> unat (to_u32 k) = nat k"
  unfolding to_u32_def using unat_of_nat32 [of "nat k"] by (simp add: nat_less_iff)

lemma to_i32_to_u32: "0 \<le> k \<Longrightarrow> k < 2 ^ 31 \<Longrightarrow> to_i32 (to_u32 k) = k"
  unfolding to_i32_def sint_unat32 by (subst (1 2) to_u32_small) (simp_all add: nat_less_iff)

lemma ibound_range:
  assumes "lo \<le> hi"
  shows "lo \<le> ibound lo x hi" "ibound lo x hi \<le> hi"
  using assms by (auto simp: ibound_def imin_def imax_def)

lemma rto_range:
  assumes "0 \<le> lo" "lo \<le> 60000"
  shows "lo \<le> to_i32 (ibound (to_u32 lo) x IKCP_RTO_MAX)" "to_i32 (ibound (to_u32 lo) x IKCP_RTO_MAX) \<le> 60000"
proof -
  let ?b = "ibound (to_u32 lo) x IKCP_RTO_MAX"
  have u: "unat (to_u32 lo) = nat lo" by (rule to_u32_small) (use assms in simp_all)
  have "to_u32 lo \<le> IKCP_RTO_MAX" using assms by (simp add: word_le_nat_alt u IKCP_RTO_MAX_def nat_le_iff)
  from ibound_range [OF this, of x] have b: "nat lo \<le> unat ?b" "unat ?b \<le> 60000"
    by (simp_all add: word_le_nat_alt u IKCP_RTO_MAX_def)
  then have "to_i32 ?b = int (unat ?b)" by (simp add: to_i32_def sint_unat32)
  then show "lo \<le> to_i32 ?b" "to_i32 ?b \<le> 60000" using b by linarith+
qed

lemma update_ack_ok:
  assumes inv: "rtt_inv kcp" and rtt: "0 \<le> rtt" "rtt < 2 ^ 28"
  shows "\<exists>kcp' s v x. ikcp_update_ack rtt kcp = Some kcp' \<and> rtt_inv kcp'
    \<and> kcp' = kcp\<lparr>rx_srtt := s, rx_rttval := v, rx_rto := to_i32 (ibound (to_u32 (rx_minrto kcp)) x IKCP_RTO_MAX)\<rparr>"
proof -
  have I: "0 \<le> rx_srtt kcp" "rx_srtt kcp < 2 ^ 28" "0 \<le> rx_rttval kcp" "rx_rttval kcp < 2 ^ 28"
    using inv by (simp_all add: rtt_inv_def)
  have fin: "\<exists>kcp' s v x. do {
     f \<leftarrow> i32 (4 * v0);
     let rto = to_i32 (to_u32 s0 + imax (interval kcp) (to_u32 f));
     Some (kcp\<lparr>rx_srtt := s0, rx_rttval := v0,
       rx_rto := to_i32 (ibound (to_u32 (rx_minrto kcp)) (to_u32 rto) IKCP_RTO_MAX)\<rparr>) } = Some kcp' \<and> rtt_inv kcp'
    \<and> kcp' = kcp\<lparr>rx_srtt := s, rx_rttval := v, rx_rto := to_i32 (ibound (to_u32 (rx_minrto kcp)) x IKCP_RTO_MAX)\<rparr>"
    if "0 \<le> s0" "s0 < 2 ^ 28" "0 \<le> v0" "v0 < 2 ^ 28" for s0 v0
  proof -
    have "i32 (4 * v0) = Some (4 * v0)" using that by (simp add: i32_def)
    then show ?thesis using that by (auto simp: Let_def rtt_inv_def)
  qed
  show ?thesis
  proof (cases "rx_srtt kcp = 0")
    case True
    have "0 \<le> rtt sdiv 2" "rtt sdiv 2 < 2 ^ 28" using rtt by (simp_all add: sdiv_nonneg)
    from fin [OF rtt this] show ?thesis using True by (simp add: ikcp_update_ack_def)
  next
    case False
    define d where "d = \<bar>rtt - rx_srtt kcp\<bar>"
    have d: "0 \<le> d" "d < 2 ^ 28" using I(1,2) rtt by (auto simp: d_def)
    have e: "i32 (rtt - rx_srtt kcp) = Some (rtt - rx_srtt kcp)" "i32 (3 * rx_rttval kcp) = Some (3 * rx_rttval kcp)"
      "i32 (7 * rx_srtt kcp) = Some (7 * rx_srtt kcp)" "i32 (7 * rx_srtt kcp + rtt) = Some (7 * rx_srtt kcp + rtt)"
      using I rtt by (simp_all add: i32_def)
    define s where "s = (7 * rx_srtt kcp + rtt) sdiv 8"
    have s: "0 \<le> s" "s < 2 ^ 28" using I rtt by (simp_all add: s_def sdiv_nonneg)
    define v where "v = (3 * rx_rttval kcp + d) sdiv 4"
    have v: "0 \<le> v" "v < 2 ^ 28" using I d by (simp_all add: v_def sdiv_nonneg)
    then have vv: "to_i32 (to_u32 v) = v" by (intro to_i32_to_u32) simp_all
    define s1 where "s1 = (if s < 1 then 1 else s)"
    have s1: "0 \<le> s1" "s1 < 2 ^ 28" using s by (simp_all add: s1_def)
    have "ikcp_update_ack rtt kcp = do {
     f \<leftarrow> i32 (4 * v);
     let rto = to_i32 (to_u32 s1 + imax (interval kcp) (to_u32 f));
     Some (kcp\<lparr>rx_srtt := s1, rx_rttval := v,
       rx_rto := to_i32 (ibound (to_u32 (rx_minrto kcp)) (to_u32 rto) IKCP_RTO_MAX)\<rparr>) }"
      using False by (simp add: ikcp_update_ack_def e d_def [symmetric] v_def [symmetric] s_def [symmetric] vv
          s1_def Let_def)
    with fin [OF s1 v] show ?thesis by simp
  qed
qed

text \<open>
  The retransmission timeout: as long as the round-trip samples stay below \<open>2 ^ 28\<close>
  milliseconds, about three days, no signed arithmetic overflows, the estimates stay below that
  bound too, and the timeout lies between the configured minimum and one minute. A peer can break
  this: the sample is computed from the time stamp of an incoming acknowledgement, and a first
  sample of \<open>2 ^ 30\<close> or more overflows, which is undefined.
\<close>

theorem kcp_rto_bounds:
  assumes "rtt_inv kcp" "0 \<le> rtt" "rtt < 2 ^ 28" "0 \<le> rx_minrto kcp" "rx_minrto kcp \<le> 60000"
    and "2 ^ 30 \<le> forged" "forged < 2 ^ 31" "rx_srtt start = 0"
  shows "(\<exists>kcp'. ikcp_update_ack rtt kcp = Some kcp' \<and> rtt_inv kcp'
      \<and> rx_minrto kcp \<le> rx_rto kcp' \<and> rx_rto kcp' \<le> 60000)
    \<and> ikcp_update_ack forged start = None"
proof -
  obtain kcp' s v x where U: "ikcp_update_ack rtt kcp = Some kcp'" "rtt_inv kcp'"
    "kcp' = kcp\<lparr>rx_srtt := s, rx_rttval := v, rx_rto := to_i32 (ibound (to_u32 (rx_minrto kcp)) x IKCP_RTO_MAX)\<rparr>"
    using update_ack_ok [OF assms(1-3)] by blast
  have r: "rx_minrto kcp \<le> rx_rto kcp'" "rx_rto kcp' \<le> 60000" unfolding U(3) using rto_range [OF assms(4,5)] by simp_all
  have "2 ^ 29 \<le> forged div 2" using zdiv_mono1 [OF assms(6), of 2] by simp
  then have "i32 (4 * (forged sdiv 2)) = None" using assms(6) by (simp add: i32_def sdiv_nonneg)
  then have "ikcp_update_ack forged start = None" using assms(8) by (simp add: ikcp_update_ack_def)
  with U(1,2) r show ?thesis by blast
qed

theorem kcp_rto_bounds_witness:
  "(\<exists>kcp'. ikcp_update_ack 80 (ikcp_create 1) = Some kcp' \<and> rtt_inv kcp' \<and> rx_rto kcp' \<le> 60000)
   \<and> ikcp_update_ack (2 ^ 30) (ikcp_create 1) = None"
proof -
  have k: "rtt_inv (ikcp_create 1)" "0 \<le> rx_minrto (ikcp_create 1)" "rx_minrto (ikcp_create 1) \<le> 60000"
    "rx_srtt (ikcp_create 1) = 0"
    by (simp_all add: rtt_inv_def ikcp_create_def IKCP_RTO_MIN_def)
  from kcp_rto_bounds [OF k(1) _ _ k(2,3) _ _ k(4), of 80 "2 ^ 30"] show ?thesis by auto
qed

end
