(* ===== verification/KcpInput.thy ===== *)
theory KcpInput
  imports KcpSend
begin

text \<open>
  \<open>ikcp_input\<close> of \<open>ikcp.c\<close>: taking a datagram apart into segments and processing each. The datagram
  is a list of bytes, its size the length of the list; \<open>mem\<close> tells whether memory for a received
  segment is given, which the code does not check.
\<close>

section \<open>The code\<close>

record kcp_hdr =
  h_cmd :: u8
  h_frg :: u8
  h_wnd :: u16
  h_ts :: u32
  h_sn :: u32
  h_una :: u32
  h_len :: u32

definition known_cmd :: "u8 \<Rightarrow> bool" where
  "known_cmd cmd \<longleftrightarrow> \<not> (ucast cmd \<noteq> IKCP_CMD_PUSH \<and> ucast cmd \<noteq> IKCP_CMD_ACK
     \<and> ucast cmd \<noteq> IKCP_CMD_WASK \<and> ucast cmd \<noteq> IKCP_CMD_WINS)"

text \<open>The header behind \<open>conv\<close>.\<close>

definition decode_hdr :: "bytes \<Rightarrow> (kcp_hdr \<times> bytes) option" where
  "decode_hdr data = do {
     (cmd, data) \<leftarrow> ikcp_decode8u data;
     (frg, data) \<leftarrow> ikcp_decode8u data;
     (wnd, data) \<leftarrow> ikcp_decode16u data;
     (ts, data) \<leftarrow> ikcp_decode32u data;
     (sn, data) \<leftarrow> ikcp_decode32u data;
     (una, data) \<leftarrow> ikcp_decode32u data;
     (len, data) \<leftarrow> ikcp_decode32u data;
     Some (\<lparr>h_cmd = cmd, h_frg = frg, h_wnd = wnd, h_ts = ts, h_sn = sn, h_una = una, h_len = len\<rparr>, data) }"

text \<open>\<open>flag\<close>, \<open>maxack\<close> and \<open>latest_ts\<close>: nothing as long as no acknowledgement was seen.\<close>

type_synonym ack_acc = "(u32 \<times> u32) option"

definition note_ack :: "u32 \<Rightarrow> u32 \<Rightarrow> ack_acc \<Rightarrow> ack_acc" where
  "note_ack sn ts acc = (case acc of
     None \<Rightarrow> Some (sn, ts)
   | Some (maxack, latest_ts) \<Rightarrow>
       if itimediff sn maxack > 0 \<and> itimediff ts latest_ts > 0 then Some (sn, ts) else acc)"

definition input_ack :: "kcp_hdr \<Rightarrow> ikcpcb \<Rightarrow> ikcpcb option" where
  "input_ack h kcp = do {
     kcp \<leftarrow> (if itimediff (current kcp) (h_ts h) \<ge> 0
       then ikcp_update_ack (itimediff (current kcp) (h_ts h)) kcp else Some kcp);
     Some (ikcp_shrink_buf (ikcp_parse_ack (h_sn h) kcp)) }"

text \<open>The segment made from a frame.\<close>

definition frame_seg :: "u32 \<Rightarrow> kcp_hdr \<Rightarrow> bytes \<Rightarrow> ikcpseg" where
  "frame_seg cv h data = (ikcp_segment_new data)\<lparr>sg_conv := cv, sg_cmd := ucast (h_cmd h),
     sg_frg := ucast (h_frg h), sg_wnd := ucast (h_wnd h), sg_ts := h_ts h, sg_sn := h_sn h,
     sg_una := h_una h, sg_len := h_len h\<rparr>"

definition input_push :: "bool \<Rightarrow> kcp_hdr \<Rightarrow> bytes \<Rightarrow> ikcpcb \<Rightarrow> ikcpcb option" where
  "input_push mem h data kcp =
     (if itimediff (h_sn h) (rcv_nxt kcp + rcv_wnd kcp) < 0
      then do {
        kcp \<leftarrow> ikcp_ack_push (h_sn h) (h_ts h) kcp;
        if itimediff (h_sn h) (rcv_nxt kcp) \<ge> 0
        then do { guard_opt mem; Some (ikcp_parse_data (frame_seg (conv kcp) h data) kcp) }
        else Some kcp }
      else Some kcp)"

text \<open>One segment of the datagram, whose data is \<open>data\<close>, after the checks of the header.\<close>

definition input_frame ::
  "bool \<Rightarrow> kcp_hdr \<Rightarrow> bytes \<Rightarrow> ack_acc \<times> ikcpcb \<Rightarrow> (ack_acc \<times> ikcpcb) option" where
  "input_frame mem h data s = (case s of (acc, kcp) \<Rightarrow> let
     kcp = ikcp_shrink_buf (ikcp_parse_una (h_una h) (kcp\<lparr>rmt_wnd := ucast (h_wnd h)\<rparr>));
     cmd = (ucast (h_cmd h) :: u32)
   in if cmd = IKCP_CMD_ACK then do {
        kcp \<leftarrow> input_ack h kcp;
        Some (note_ack (h_sn h) (h_ts h) acc, kcp) }
      else if cmd = IKCP_CMD_PUSH then do { kcp \<leftarrow> input_push mem h data kcp; Some (acc, kcp) }
      else if cmd = IKCP_CMD_WASK then Some (acc, kcp\<lparr>probe := probe kcp OR IKCP_ASK_TELL\<rparr>)
      else Some (acc, kcp))"

text \<open>The loop: how it ended, and the state; only the end \<open>0\<close> goes on behind the loop.\<close>

partial_function (option) input_loop ::
  "bool \<Rightarrow> bytes \<Rightarrow> ack_acc \<times> ikcpcb \<Rightarrow> (int \<times> ack_acc \<times> ikcpcb) option" where
  "input_loop mem data s =
     (if length data < 24 then Some (0, s)
      else do {
        (cv, data) \<leftarrow> ikcp_decode32u data;
        if cv \<noteq> conv (snd s) then Some (- 1, s)
        else do {
          (h, data) \<leftarrow> decode_hdr data;
          if int (length data) < uint (h_len h) \<or> to_i32 (h_len h) < 0 then Some (- 2, s)
          else if \<not> known_cmd (h_cmd h) then Some (- 3, s)
          else do {
            s \<leftarrow> input_frame mem h (take (unat (h_len h)) data) s;
            input_loop mem (drop (unat (h_len h)) data) s } } })"

text \<open>The congestion window opens when data was acknowledged; dividing by zero is undefined.\<close>

definition open_cwnd :: "ikcpcb \<Rightarrow> ikcpcb option" where
  "open_cwnd kcp =
     (if cwnd kcp < rmt_wnd kcp then do {
        kcp \<leftarrow> (if cwnd kcp < ssthresh kcp
          then Some (kcp\<lparr>cwnd := cwnd kcp + 1, incr := incr kcp + mss kcp\<rparr>)
          else do {
            let inc = (if incr kcp < mss kcp then mss kcp else incr kcp);
            guard_opt (inc \<noteq> 0);
            let inc = inc + ((mss kcp * mss kcp) div inc + mss kcp div 16);
            Some (kcp\<lparr>incr := inc, cwnd := (if (cwnd kcp + 1) * mss kcp \<le> inc
              then (inc + mss kcp - 1) div (if mss kcp > 0 then mss kcp else 1) else cwnd kcp)\<rparr>) });
        Some (if cwnd kcp > rmt_wnd kcp
          then kcp\<lparr>cwnd := rmt_wnd kcp, incr := rmt_wnd kcp * mss kcp\<rparr> else kcp) }
      else Some kcp)"

definition ikcp_input :: "bool \<Rightarrow> bytes option \<Rightarrow> ikcpcb \<Rightarrow> (int \<times> ikcpcb) option" where
  "ikcp_input mem data kcp = (case data of
     None \<Rightarrow> Some (- 1, kcp)
   | Some data \<Rightarrow>
       if to_i32 (to_u32 (int (length data))) < to_i32 IKCP_OVERHEAD then Some (- 1, kcp)
       else do {
         let prev_una = snd_una kcp;
         (r, acc, kcp) \<leftarrow> input_loop mem data (None, kcp);
         if r \<noteq> 0 then Some (r, kcp)
         else do {
           let kcp = (case acc of None \<Rightarrow> kcp | Some (maxack, ts) \<Rightarrow> ikcp_parse_fastack maxack ts kcp);
           kcp \<leftarrow> (if itimediff (snd_una kcp) prev_una > 0 then open_cwnd kcp else Some kcp);
           Some (0, kcp) } })"

section \<open>Datagrams as lists of frames\<close>

text \<open>The framing, as a function of the bytes alone: the frames and how the datagram ends.\<close>

function kcp_frames :: "u32 \<Rightarrow> bytes \<Rightarrow> (kcp_hdr \<times> bytes) list \<times> int" where
  "kcp_frames cv data =
     (if length data < 24 then ([], 0)
      else case ikcp_decode32u data of None \<Rightarrow> ([], 0) | Some (c, _) \<Rightarrow>
        if c \<noteq> cv then ([], - 1)
        else case decode_hdr (drop 4 data) of None \<Rightarrow> ([], 0) | Some (h, _) \<Rightarrow>
          let body = drop 24 data in
          if int (length body) < uint (h_len h) \<or> to_i32 (h_len h) < 0 then ([], - 2)
          else if \<not> known_cmd (h_cmd h) then ([], - 3)
          else (case kcp_frames cv (drop (unat (h_len h)) body) of
            (fs, r) \<Rightarrow> ((h, take (unat (h_len h)) body) # fs, r)))"
  by pat_completeness auto
termination by (relation "measure (length \<circ> snd)") auto

declare kcp_frames.simps [simp del]

fun input_frames :: "bool \<Rightarrow> (kcp_hdr \<times> bytes) list \<Rightarrow> ack_acc \<times> ikcpcb \<Rightarrow> (ack_acc \<times> ikcpcb) option" where
  "input_frames mem [] s = Some s"
| "input_frames mem ((h, d) # fs) s = do { s \<leftarrow> input_frame mem h d s; input_frames mem fs s }"

lemma decode32_drop:
  "4 \<le> length data \<Longrightarrow> \<exists>v. ikcp_decode32u data = Some (v, drop 4 data)"
  by (auto simp: numeral_eq_Suc Suc_le_length_iff)

lemma decode_hdr_drop:
  "20 \<le> length data \<Longrightarrow> \<exists>h. decode_hdr data = Some (h, drop 20 data)"
  by (auto simp: numeral_eq_Suc Suc_le_length_iff decode_hdr_def)

lemma header_drop:
  assumes "\<not> length data < 24"
  shows "\<exists>v h. ikcp_decode32u data = Some (v, drop 4 data) \<and> decode_hdr (drop 4 data) = Some (h, drop 24 data)"
proof -
  have "20 \<le> length (drop 4 data)" "4 \<le> length data" using assms by simp_all
  from decode_hdr_drop [OF this(1)] decode32_drop [OF this(2)] show ?thesis by auto
qed

lemma frames_loop:
  "kcp_frames cv data = (if length data < 24 then ([], 0)
     else let c = fst (the (ikcp_decode32u data)); h = fst (the (decode_hdr (drop 4 data))); body = drop 24 data in
       if c \<noteq> cv then ([], - 1)
       else if int (length body) < uint (h_len h) \<or> to_i32 (h_len h) < 0 then ([], - 2)
       else if \<not> known_cmd (h_cmd h) then ([], - 3)
       else (case kcp_frames cv (drop (unat (h_len h)) body) of
         (fs, r) \<Rightarrow> ((h, take (unat (h_len h)) body) # fs, r)))"
proof (cases "length data < 24")
  case False
  from header_drop [OF False] obtain v h where "ikcp_decode32u data = Some (v, drop 4 data)"
    "decode_hdr (drop 4 data) = Some (h, drop 24 data)" by blast
  then show ?thesis using False by (subst kcp_frames.simps) (simp add: Let_def)
qed (simp add: kcp_frames.simps)

section \<open>What stays the same\<close>

lemma conv_simps [simp]:
  "conv (ikcp_shrink_buf kcp) = conv kcp" "conv (ikcp_parse_una u kcp) = conv kcp"
  "conv (ikcp_parse_ack s kcp) = conv kcp" "conv (ikcp_parse_fastack s t kcp) = conv kcp"
  "conv (take_ready seg kcp) = conv kcp" "conv (move_ready segs kcp) = conv kcp"
  by (induction segs arbitrary: kcp)
    (simp_all add: ikcp_shrink_buf_def ikcp_parse_una_def ikcp_parse_ack_def ikcp_parse_fastack_def Let_def
      take_ready_def split: option.split)

lemma conv_parse_data [simp]: "conv (ikcp_parse_data seg kcp) = conv kcp"
  by (simp add: ikcp_parse_data_def Let_def split: option.split)

lemma update_ack_same:
  assumes "ikcp_update_ack rtt kcp = Some kcp'"
  shows "\<exists>s v x. kcp' = kcp\<lparr>rx_srtt := s, rx_rttval := v, rx_rto := x\<rparr>"
proof -
  have "kcp' = kcp\<lparr>rx_srtt := rx_srtt kcp', rx_rttval := rx_rttval kcp', rx_rto := rx_rto kcp'\<rparr>"
    using assms unfolding ikcp_update_ack_def Let_def by (auto split: prod.splits)
  then show ?thesis by blast
qed

lemma ack_push_same:
  assumes "ikcp_ack_push sn ts kcp = Some kcp'"
  shows "\<exists>l c b. kcp' = kcp\<lparr>acklist := l, ackcount := c, ackblock := b\<rparr>"
proof -
  have "kcp' = kcp\<lparr>acklist := acklist kcp', ackcount := ackcount kcp', ackblock := ackblock kcp'\<rparr>"
    using assms unfolding ikcp_ack_push_def Let_def by (auto split: if_splits)
  then show ?thesis by blast
qed

lemma input_frame_conv:
  assumes "input_frame mem h d (acc, kcp) = Some (acc', kcp')"
  shows "conv kcp' = conv kcp"
  using assms unfolding input_frame_def input_ack_def input_push_def Let_def
  by (auto split: if_splits dest!: update_ack_same ack_push_same)

text \<open>The loop is the framing followed by the frames, one after the other; it always ends.\<close>

lemma input_loop_frames:
  "input_loop mem data (acc, kcp) = (case kcp_frames (conv kcp) data of (fs, r) \<Rightarrow>
     do { s \<leftarrow> input_frames mem fs (acc, kcp); Some (r, s) })"
proof (induction "length data" arbitrary: data acc kcp rule: less_induct)
  case less
  show ?case
  proof (cases "length data < 24")
    case False
    from header_drop [OF False] obtain v h where v: "ikcp_decode32u data = Some (v, drop 4 data)"
      and h: "decode_hdr (drop 4 data) = Some (h, drop 24 data)" by blast
    show ?thesis
    proof (cases "v = conv kcp \<and> \<not> (int (length (drop 24 data)) < uint (h_len h) \<or> to_i32 (h_len h) < 0)
        \<and> known_cmd (h_cmd h)")
      case True
      define d where "d = drop (unat (h_len h)) (drop 24 data)"
      have "length d < length data" using False by (simp add: d_def)
      note IH = less [OF this]
      have "input_loop mem data (acc, kcp) = do {
          s \<leftarrow> input_frame mem h (take (unat (h_len h)) (drop 24 data)) (acc, kcp); input_loop mem d s }"
        using False v h True by (subst input_loop.simps) (simp add: d_def)
      also have "\<dots> = (case kcp_frames (conv kcp) data of (fs, r) \<Rightarrow>
          do { s \<leftarrow> input_frames mem fs (acc, kcp); Some (r, s) })"
      proof (cases "input_frame mem h (take (unat (h_len h)) (drop 24 data)) (acc, kcp)")
        case None
        then show ?thesis using False v h True
          by (subst frames_loop) (simp add: Let_def split: prod.split)
      next
        case (Some s)
        obtain acc' kcp' where s: "s = (acc', kcp')" by (cases s)
        have "conv kcp' = conv kcp" using input_frame_conv Some s by simp
        then show ?thesis using False v h True Some s IH [of acc' kcp']
          by (subst frames_loop) (simp add: Let_def d_def split: prod.split)
      qed
      finally show ?thesis .
    next
      case bad: False
      then show ?thesis using False v h
        by (subst input_loop.simps, subst frames_loop) (auto simp: Let_def)
    qed
  qed (simp add: input_loop.simps kcp_frames.simps)
qed

section \<open>No datagram is undefined\<close>

definition frame_timely :: "u32 \<Rightarrow> kcp_hdr \<times> bytes \<Rightarrow> bool" where
  "frame_timely now f \<longleftrightarrow> ((ucast (h_cmd (fst f)) :: u32) = IKCP_CMD_ACK \<longrightarrow> itimediff now (h_ts (fst f)) < 2 ^ 28)"

text \<open>What processing a frame relies on, and keeps; \<open>n\<close> more acknowledgements have room.\<close>

definition input_inv :: "nat \<Rightarrow> ikcpcb \<Rightarrow> bool" where
  "input_inv n kcp \<longleftrightarrow> rtt_inv kcp \<and> ack_inv kcp \<and> unat (ackcount kcp) + n \<le> 2 ^ 31"

lemma input_inv_cong:
  "rx_srtt kcp' = rx_srtt kcp \<Longrightarrow> rx_rttval kcp' = rx_rttval kcp \<Longrightarrow> acklist kcp' = acklist kcp \<Longrightarrow>
   ackcount kcp' = ackcount kcp \<Longrightarrow> ackblock kcp' = ackblock kcp \<Longrightarrow> input_inv n kcp' = input_inv n kcp"
  by (simp add: input_inv_def rtt_inv_def ack_inv_def)

lemma rcv_same [simp]:
  "rx_srtt (take_ready seg kcp) = rx_srtt kcp" "rx_rttval (take_ready seg kcp) = rx_rttval kcp"
  "acklist (take_ready seg kcp) = acklist kcp" "ackcount (take_ready seg kcp) = ackcount kcp"
  "ackblock (take_ready seg kcp) = ackblock kcp" "current (take_ready seg kcp) = current kcp"
  "mss (take_ready seg kcp) = mss kcp"
  by (simp_all add: take_ready_def)

lemma move_same [simp]:
  "rx_srtt (move_ready segs kcp) = rx_srtt kcp" "rx_rttval (move_ready segs kcp) = rx_rttval kcp"
  "acklist (move_ready segs kcp) = acklist kcp" "ackcount (move_ready segs kcp) = ackcount kcp"
  "ackblock (move_ready segs kcp) = ackblock kcp" "current (move_ready segs kcp) = current kcp"
  "mss (move_ready segs kcp) = mss kcp"
  by (induction segs arbitrary: kcp) simp_all

lemma parse_data_same [simp]:
  "rx_srtt (ikcp_parse_data seg kcp) = rx_srtt kcp" "rx_rttval (ikcp_parse_data seg kcp) = rx_rttval kcp"
  "acklist (ikcp_parse_data seg kcp) = acklist kcp" "ackcount (ikcp_parse_data seg kcp) = ackcount kcp"
  "ackblock (ikcp_parse_data seg kcp) = ackblock kcp" "current (ikcp_parse_data seg kcp) = current kcp"
  "mss (ikcp_parse_data seg kcp) = mss kcp"
  by (simp_all add: ikcp_parse_data_def Let_def split: option.split)

lemma snd_same [simp]:
  "rx_srtt (ikcp_shrink_buf kcp) = rx_srtt kcp" "rx_rttval (ikcp_shrink_buf kcp) = rx_rttval kcp"
  "acklist (ikcp_shrink_buf kcp) = acklist kcp" "ackcount (ikcp_shrink_buf kcp) = ackcount kcp"
  "ackblock (ikcp_shrink_buf kcp) = ackblock kcp" "current (ikcp_shrink_buf kcp) = current kcp"
  "mss (ikcp_shrink_buf kcp) = mss kcp"
  "rx_srtt (ikcp_parse_una u kcp) = rx_srtt kcp" "rx_rttval (ikcp_parse_una u kcp) = rx_rttval kcp"
  "acklist (ikcp_parse_una u kcp) = acklist kcp" "ackcount (ikcp_parse_una u kcp) = ackcount kcp"
  "ackblock (ikcp_parse_una u kcp) = ackblock kcp" "current (ikcp_parse_una u kcp) = current kcp"
  "mss (ikcp_parse_una u kcp) = mss kcp"
  by (simp_all add: ikcp_shrink_buf_def ikcp_parse_una_def Let_def)

lemma ack_same [simp]:
  "rx_srtt (ikcp_parse_ack s kcp) = rx_srtt kcp" "rx_rttval (ikcp_parse_ack s kcp) = rx_rttval kcp"
  "acklist (ikcp_parse_ack s kcp) = acklist kcp" "ackcount (ikcp_parse_ack s kcp) = ackcount kcp"
  "ackblock (ikcp_parse_ack s kcp) = ackblock kcp" "current (ikcp_parse_ack s kcp) = current kcp"
  "mss (ikcp_parse_ack s kcp) = mss kcp"
  "rx_srtt (ikcp_parse_fastack s t kcp) = rx_srtt kcp" "rx_rttval (ikcp_parse_fastack s t kcp) = rx_rttval kcp"
  "acklist (ikcp_parse_fastack s t kcp) = acklist kcp" "ackcount (ikcp_parse_fastack s t kcp) = ackcount kcp"
  "ackblock (ikcp_parse_fastack s t kcp) = ackblock kcp" "current (ikcp_parse_fastack s t kcp) = current kcp"
  "mss (ikcp_parse_fastack s t kcp) = mss kcp"
  by (simp_all add: ikcp_parse_ack_def ikcp_parse_fastack_def split: option.split)

lemma input_ack_total:
  assumes "input_inv n kcp" "itimediff (current kcp) (h_ts h) < 2 ^ 28"
  shows "\<exists>kcp'. input_ack h kcp = Some kcp' \<and> input_inv n kcp' \<and> current kcp' = current kcp \<and> mss kcp' = mss kcp"
proof (cases "itimediff (current kcp) (h_ts h) \<ge> 0")
  case True
  have "rtt_inv kcp" using assms(1) by (simp add: input_inv_def)
  from update_ack_ok [OF this True assms(2)] obtain k s v x where
    k: "ikcp_update_ack (itimediff (current kcp) (h_ts h)) kcp = Some k" "rtt_inv k"
      "k = kcp\<lparr>rx_srtt := s, rx_rttval := v, rx_rto := to_i32 (ibound (to_u32 (rx_minrto kcp)) x IKCP_RTO_MAX)\<rparr>"
    by blast
  have "input_inv n k" using assms(1) k(2) unfolding input_inv_def by (simp add: k(3) ack_inv_def)
  then have "input_inv n (ikcp_shrink_buf (ikcp_parse_ack (h_sn h) k))"
    by (subst input_inv_cong [of _ k]) simp_all
  then show ?thesis using True k(1) by (simp add: input_ack_def) (simp add: k(3))
next
  case False
  have "input_inv n (ikcp_shrink_buf (ikcp_parse_ack (h_sn h) kcp))"
    using assms(1) by (subst input_inv_cong [of _ kcp]) simp_all
  then show ?thesis using False by (simp add: input_ack_def)
qed

lemma input_push_total:
  assumes "input_inv (Suc n) kcp"
  shows "\<exists>kcp'. input_push True h d kcp = Some kcp' \<and> input_inv n kcp' \<and> current kcp' = current kcp \<and> mss kcp' = mss kcp"
proof -
  have n: "input_inv n kcp" using assms by (simp add: input_inv_def)
  have a: "ack_inv kcp" "unat (ackcount kcp) < 2 ^ 31" using assms by (simp_all add: input_inv_def)
  from ack_push_ok [OF this, of "h_sn h" "h_ts h"] obtain k l c b where
    k: "ikcp_ack_push (h_sn h) (h_ts h) kcp = Some k" "ack_inv k" "k = kcp\<lparr>acklist := l, ackcount := c, ackblock := b\<rparr>"
    "acks k = acks kcp @ [(h_sn h, h_ts h)]" by blast
  have "unat (ackcount k) = Suc (unat (ackcount kcp))"
  proof -
    have "length (acks kcp) = unat (ackcount kcp)" if "ack_inv kcp" for kcp
      using that by (simp add: acks_def ack_inv_def word_le_nat_alt)
    from this [OF k(2)] this [OF a(1)] show ?thesis using k(4) by simp
  qed
  then have "input_inv n k" using assms k(2) unfolding input_inv_def by (simp add: k(3) rtt_inv_def)
  then have "input_inv n (ikcp_parse_data seg k)" for seg by (subst input_inv_cong [of _ k]) simp_all
  then show ?thesis using n \<open>input_inv n k\<close> k(1) by (simp add: input_push_def) (simp add: k(3))
qed

lemma input_frame_total:
  assumes "input_inv (Suc n) kcp" "frame_timely (current kcp) (h, d)"
  shows "\<exists>acc' kcp'. input_frame True h d (acc, kcp) = Some (acc', kcp') \<and> input_inv n kcp'
    \<and> current kcp' = current kcp \<and> mss kcp' = mss kcp"
proof -
  define k where "k = ikcp_shrink_buf (ikcp_parse_una (h_una h) (kcp\<lparr>rmt_wnd := ucast (h_wnd h)\<rparr>))"
  have c: "current k = current kcp" "mss k = mss kcp" by (simp_all add: k_def)
  have S: "input_inv (Suc n) k" using assms(1) unfolding k_def by (subst input_inv_cong [of _ kcp]) simp_all
  then have n: "input_inv n k" by (simp add: input_inv_def)
  have p: "input_inv n (k\<lparr>probe := b\<rparr>)" for b using n by (subst input_inv_cong [of _ k]) simp_all
  consider "(ucast (h_cmd h) :: u32) = IKCP_CMD_ACK" | "(ucast (h_cmd h) :: u32) = IKCP_CMD_PUSH"
    | "(ucast (h_cmd h) :: u32) \<noteq> IKCP_CMD_ACK" "(ucast (h_cmd h) :: u32) \<noteq> IKCP_CMD_PUSH" by blast
  then show ?thesis
  proof cases
    case 1
    then have "itimediff (current k) (h_ts h) < 2 ^ 28"
      using assms(2) by (simp add: frame_timely_def c)
    from input_ack_total [OF n this] 1 c show ?thesis
      by (auto simp: input_frame_def Let_def k_def [symmetric])
  next
    case 2
    then have "(ucast (h_cmd h) :: u32) \<noteq> IKCP_CMD_ACK" by (simp add: ikcp_cmds)
    with 2 input_push_total [OF S, of h d] c show ?thesis
      by (auto simp: input_frame_def Let_def k_def [symmetric])
  next
    case 3
    then show ?thesis using n p c by (simp add: input_frame_def Let_def k_def [symmetric])
  qed
qed

lemma input_frames_total:
  assumes "input_inv (n + length fs) kcp" "\<forall>f \<in> set fs. frame_timely (current kcp) f"
  shows "\<exists>acc' kcp'. input_frames True fs (acc, kcp) = Some (acc', kcp') \<and> input_inv n kcp'
    \<and> current kcp' = current kcp \<and> mss kcp' = mss kcp"
  using assms
proof (induction fs arbitrary: acc kcp)
  case (Cons f fs)
  obtain h d where f: "f = (h, d)" by (cases f)
  have "input_inv (Suc (n + length fs)) kcp" using Cons.prems(1) by simp
  from input_frame_total [OF this, of h d acc] Cons.prems(2) f obtain acc1 k1 where
    1: "input_frame True h d (acc, kcp) = Some (acc1, k1)" "input_inv (n + length fs) k1" "current k1 = current kcp"
      "mss k1 = mss kcp"
    by auto
  from Cons.IH [OF 1(2), of acc1] Cons.prems(2) 1 f show ?case by simp
qed auto

lemma open_cwnd_total:
  assumes "mss kcp \<noteq> 0"
  shows "\<exists>c i. open_cwnd kcp = Some (kcp\<lparr>cwnd := c, incr := i\<rparr>)"
proof -
  have g: "guard_opt ((if incr kcp < mss kcp then mss kcp else incr kcp) \<noteq> 0) = Some ()"
    using assms by (auto simp: guard_opt_def word_gt_0)
  have "open_cwnd kcp \<noteq> None"
    unfolding open_cwnd_def Let_def g by (auto simp: Let_def)
  then obtain k where k: "open_cwnd kcp = Some k" by blast
  then have "k = kcp\<lparr>cwnd := cwnd k, incr := incr k\<rparr>"
    unfolding open_cwnd_def Let_def g by (auto split: if_splits)
  then show ?thesis using k by metis
qed

section \<open>Properties\<close>

subsection \<open>Datagrams are taken apart as they were put together\<close>

text \<open>The bytes of a segment in a datagram, as \<open>ikcp_flush\<close> writes them, and its frame.\<close>

definition seg_wire :: "ikcpseg \<Rightarrow> bytes" where
  "seg_wire seg = ikcp_encode_seg seg @ take (unat (sg_len seg)) (sg_data seg)"

definition seg_frame :: "ikcpseg \<Rightarrow> kcp_hdr \<times> bytes" where
  "seg_frame seg = (\<lparr>h_cmd = ucast (sg_cmd seg), h_frg = ucast (sg_frg seg), h_wnd = ucast (sg_wnd seg),
     h_ts = sg_ts seg, h_sn = sg_sn seg, h_una = sg_una seg, h_len = sg_len seg\<rparr>,
     take (unat (sg_len seg)) (sg_data seg))"

definition seg_sendable :: "u32 \<Rightarrow> ikcpseg \<Rightarrow> bool" where
  "seg_sendable cv seg \<longleftrightarrow> sg_conv seg = cv \<and> known_cmd (ucast (sg_cmd seg))
     \<and> unat (sg_len seg) \<le> length (sg_data seg) \<and> unat (sg_len seg) < 2 ^ 31"

lemma length_seg_wire: "unat (sg_len seg) \<le> length (sg_data seg) \<Longrightarrow> length (seg_wire seg) = 24 + unat (sg_len seg)"
  by (simp add: seg_wire_def)

lemma decode_seg:
  "ikcp_decode32u (ikcp_encode_seg seg @ p) = Some (sg_conv seg, drop 4 (ikcp_encode_seg seg @ p))"
  "decode_hdr (drop 4 (ikcp_encode_seg seg @ p)) = Some (fst (seg_frame seg), p)"
proof -
  obtain q where q: "ikcp_encode_seg seg = ikcp_encode32u (sg_conv seg) @ q" "decode_hdr (q @ p) = Some (fst (seg_frame seg), p)"
    unfolding ikcp_encode_seg_def by (simp add: decode_hdr_def seg_frame_def)
  have "drop 4 (ikcp_encode_seg seg @ p) = q @ p" by (simp add: q(1))
  then show "ikcp_decode32u (ikcp_encode_seg seg @ p) = Some (sg_conv seg, drop 4 (ikcp_encode_seg seg @ p))"
    "decode_hdr (drop 4 (ikcp_encode_seg seg @ p)) = Some (fst (seg_frame seg), p)"
    using q by simp_all
qed

lemmas decode_seg_simps = decode_seg decode_seg(2) [simplified drop_append length_encode_seg, simplified]

lemma frames_cons:
  assumes "seg_sendable cv seg"
  shows "kcp_frames cv (seg_wire seg @ rest) = (case kcp_frames cv rest of (fs, r) \<Rightarrow> (seg_frame seg # fs, r))"
proof -
  let ?d = "take (unat (sg_len seg)) (sg_data seg)"
  have A: "seg_wire seg @ rest = ikcp_encode_seg seg @ ?d @ rest" by (simp add: seg_wire_def)
  have B: "sg_conv seg = cv" "known_cmd (h_cmd (fst (seg_frame seg)))" "h_len (fst (seg_frame seg)) = sg_len seg"
    "length ?d = unat (sg_len seg)" "unat (sg_len seg) < 2 ^ 31"
    using assms by (simp_all add: seg_sendable_def seg_frame_def)
  have "\<not> to_i32 (sg_len seg) < 0" using B(5) unfolding to_i32_def sint_unat32 by simp
  moreover have "uint (sg_len seg) = int (length ?d)" using B(4) by simp
  moreover have "(fst (seg_frame seg), ?d) = seg_frame seg" by (simp add: seg_frame_def)
  ultimately show ?thesis unfolding A using B
    by (subst frames_loop) (simp add: decode_seg_simps Let_def split: prod.split)
qed

lemma frames_segs:
  assumes "\<forall>seg \<in> set segs. seg_sendable cv seg"
  shows "kcp_frames cv (concat (map seg_wire segs) @ rest)
    = (map seg_frame segs @ fst (kcp_frames cv rest), snd (kcp_frames cv rest))"
  using assms by (induction segs) (simp_all add: frames_cons split: prod.split)

lemma input_short:
  assumes "length data < 2 ^ 31"
  shows "to_i32 (to_u32 (int (length data))) < to_i32 IKCP_OVERHEAD \<longleftrightarrow> length data < 24"
proof -
  have "to_i32 (to_u32 (int (length data))) = int (length data)"
    using assms unfolding to_i32_def to_u32_def sint_unat32 by (simp add: unat_of_nat32)
  then show ?thesis by (simp add: to_i32_def IKCP_OVERHEAD_def)
qed

text \<open>
  C17. What the receiver of a datagram sees is what the sender put in. Let segments be written one after the other,
  each a header and its data. Then the loop of \<open>ikcp_input\<close> gives its handler exactly the commands, numbers, time
  stamps and bytes of these segments, in the same order, and ends normally; bytes behind them that are less than a
  header are ignored. At a segment of another conversation \<open>ikcp_input\<close> stops and answers \<open>-1\<close>, after the segments
  before it have been handled.
\<close>

theorem kcp_datagram_roundtrip:
  assumes "\<forall>seg \<in> set segs. seg_sendable (conv kcp) seg" and "length tail < 24"
    and "seg_sendable other alien" "other \<noteq> conv kcp"
    and "length (concat (map seg_wire segs) @ seg_wire alien @ junk) < 2 ^ 31"
  shows "input_loop mem (concat (map seg_wire segs) @ tail) (acc, kcp)
      = map_option (\<lambda>s. (0, s)) (input_frames mem (map seg_frame segs) (acc, kcp))
    \<and> ikcp_input mem (Some (concat (map seg_wire segs) @ seg_wire alien @ junk)) kcp
      = map_option (\<lambda>(acc, kcp'). (- 1, kcp')) (input_frames mem (map seg_frame segs) (None, kcp))"
proof -
  have t: "kcp_frames (conv kcp) tail = ([], 0)" using assms(2) by (simp add: kcp_frames.simps)
  have a: "kcp_frames (conv kcp) (seg_wire alien @ junk) = ([], - 1)"
    using assms(3,4) by (subst frames_loop) (simp add: seg_wire_def decode_seg_simps Let_def seg_sendable_def)
  have "\<not> length (concat (map seg_wire segs) @ seg_wire alien @ junk) < 24"
    using assms(3) by (simp add: length_seg_wire seg_sendable_def)
  then show ?thesis
    using input_short [OF assms(5)] unfolding ikcp_input_def option.case input_loop_frames frames_segs [OF assms(1)] t a
    by (cases "input_frames mem (map seg_frame segs) (acc, kcp)"; cases "input_frames mem (map seg_frame segs) (None, kcp)") auto
qed

definition example_wire :: "u32 \<Rightarrow> ikcpseg" where
  "example_wire cv = (ikcp_segment_new [1, 2, 3])\<lparr>sg_conv := cv, sg_cmd := IKCP_CMD_PUSH, sg_sn := 9\<rparr>"

lemma example_wire: "seg_sendable cv (example_wire cv)"
  by (simp add: seg_sendable_def example_wire_def ikcp_segment_new_def known_cmd_def ikcp_cmds)

theorem kcp_datagram_roundtrip_witness:
  "input_loop True (seg_wire (example_wire 7) @ [0, 0]) (None, ikcp_create 7)
     = map_option (\<lambda>s. (0, s)) (input_frames True [seg_frame (example_wire 7)] (None, ikcp_create 7))
   \<and> ikcp_input True (Some (seg_wire (example_wire 7) @ seg_wire (example_wire 8))) (ikcp_create 7)
     = map_option (\<lambda>(acc, kcp'). (- 1, kcp')) (input_frames True [seg_frame (example_wire 7)] (None, ikcp_create 7))"
proof -
  have c: "conv (ikcp_create 7) = 7" by (simp add: ikcp_create_def)
  have l: "length (seg_wire (example_wire cv)) = 27" for cv by (simp add: length_seg_wire example_wire_def ikcp_segment_new_def)
  show ?thesis
    using kcp_datagram_roundtrip [of "[example_wire 7]" "ikcp_create 7" "[0, 0]" 8 "example_wire 8" "[]" True None] example_wire
    by (simp add: c l)
qed

subsection \<open>Every datagram is processed\<close>

lemma length_frames: "length (fst (kcp_frames cv data)) * 24 \<le> length data"
proof (induction "length data" arbitrary: data rule: less_induct)
  case less
  show ?case
  proof (cases "length data < 24")
    case False
    define n where "n = unat (h_len (fst (the (decode_hdr (drop 4 data)))))"
    have "length (drop n (drop 24 data)) < length data" using False by simp
    from less [OF this] have "length (fst (kcp_frames cv (drop n (drop 24 data)))) * 24 + 24 \<le> length data"
      using False by simp
    then show ?thesis by (subst frames_loop) (auto simp: Let_def n_def [symmetric] split: prod.split)
  qed (simp add: kcp_frames.simps)
qed

lemma input_inv_mono: "input_inv n kcp \<Longrightarrow> m \<le> n \<Longrightarrow> input_inv m kcp"
  by (auto simp: input_inv_def)

lemma ikcp_input_frames:
  assumes "length data < 2 ^ 31" "\<not> length data < 24" "kcp_frames (conv kcp) data = (fs, r)"
  shows "ikcp_input mem (Some data) kcp = do {
    (acc, k1) \<leftarrow> input_frames mem fs (None, kcp);
    if r \<noteq> 0 then Some (r, k1)
    else do {
      let k2 = (case acc of None \<Rightarrow> k1 | Some (maxack, ts) \<Rightarrow> ikcp_parse_fastack maxack ts k1);
      k3 \<leftarrow> (if itimediff (snd_una k2) (snd_una kcp) > 0 then open_cwnd k2 else Some k2);
      Some (0, k3) } }"
  using input_short [OF assms(1)] assms(2,3)
  by (cases "input_frames mem fs (None, kcp)") (auto simp: ikcp_input_def input_loop_frames Let_def)

lemma ikcp_input_defined:
  assumes "mss kcp \<noteq> 0" "length data < 2 ^ 31" "input_inv (n + length data div 24) kcp" "\<not> length data < 24"
    and fr: "kcp_frames (conv kcp) data = (fs, r)" and t: "\<forall>f \<in> set fs. frame_timely (current kcp) f"
  shows "\<exists>kcp'. ikcp_input True (Some data) kcp = Some (r, kcp') \<and> input_inv n kcp' \<and> mss kcp' = mss kcp"
proof -
  have "length fs \<le> length data div 24" using length_frames [of "conv kcp" data] fr by simp
  then have "input_inv (n + length fs) kcp" by (intro input_inv_mono [OF assms(3)]) simp
  from input_frames_total [OF this t, of None] obtain acc k1 where
    1: "input_frames True fs (None, kcp) = Some (acc, k1)" "input_inv n k1" "mss k1 = mss kcp" by auto
  define k2 where "k2 = (case acc of None \<Rightarrow> k1 | Some (maxack, ts) \<Rightarrow> ikcp_parse_fastack maxack ts k1)"
  have 2: "input_inv n k2" "mss k2 = mss kcp"
    using 1(2,3) unfolding k2_def by (auto split: option.split simp: input_inv_cong [of "ikcp_parse_fastack _ _ k1" k1])
  from open_cwnd_total [of k2] 2(2) assms(1) obtain c i where
    o3: "open_cwnd k2 = Some (k2\<lparr>cwnd := c, incr := i\<rparr>)" by auto
  have 3: "input_inv n (k2\<lparr>cwnd := c, incr := i\<rparr>)" using 2(1) by (subst input_inv_cong [of _ k2]) simp_all
  show ?thesis unfolding ikcp_input_frames [OF assms(2,4) fr] using 1 2 3 o3 by (auto simp: Let_def k2_def [symmetric])
qed

text \<open>
  C18. \<open>ikcp_input\<close> ends for every datagram. It answers \<open>-1\<close> for less than a header, and otherwise the way the framing
  ends (\<open>0\<close>, or \<open>-1\<close> for another conversation, \<open>-2\<close> for a bad length, \<open>-3\<close> for an unknown command), after the
  well-formed frames in front have been handled one after the other. Its behaviour is undefined at most when there is
  no memory for a segment or an acknowledgement carries an implausible time stamp (more than \<open>2 ^ 28\<close> milliseconds
  ago), neither of which the code checks; in all other cases it returns and the state stays well-formed.
\<close>

theorem kcp_input_total:
  assumes "mss kcp \<noteq> 0" "length data < 2 ^ 31" "input_inv (n + length data div 24) kcp"
    and "kcp_frames (conv kcp) data = (fs, r)"
  shows "case ikcp_input mem (Some data) kcp of
      None \<Rightarrow> \<not> mem \<or> (\<exists>f \<in> set fs. \<not> frame_timely (current kcp) f)
    | Some (answer, kcp') \<Rightarrow> answer = (if length data < 24 then - 1 else r)
        \<and> (if length data < 24 then kcp' = kcp
           else \<exists>acc kcp1. input_frames mem fs (None, kcp) = Some (acc, kcp1) \<and> (r \<noteq> 0 \<longrightarrow> kcp' = kcp1))
        \<and> (mem \<and> (\<forall>f \<in> set fs. frame_timely (current kcp) f) \<longrightarrow> input_inv n kcp' \<and> mss kcp' = mss kcp)"
proof (cases "length data < 24")
  case True
  have "input_inv n kcp" by (rule input_inv_mono [OF assms(3)]) simp
  with True show ?thesis using input_short [OF assms(2)] by (simp add: ikcp_input_def)
next
  case False
  have ok: "\<exists>kcp'. ikcp_input mem (Some data) kcp = Some (r, kcp') \<and> input_inv n kcp' \<and> mss kcp' = mss kcp"
    if "mem \<and> (\<forall>f \<in> set fs. frame_timely (current kcp) f)" using ikcp_input_defined [OF assms(1-3) False assms(4)] that by simp
  have some: "answer = r \<and> (\<exists>acc kcp1. input_frames mem fs (None, kcp) = Some (acc, kcp1) \<and> (r \<noteq> 0 \<longrightarrow> kcp' = kcp1))"
    if "ikcp_input mem (Some data) kcp = Some (answer, kcp')" for answer kcp'
    using that unfolding ikcp_input_frames [OF assms(2) False assms(4)] by (auto simp: Let_def bind_eq_Some_conv split: if_splits)
  show ?thesis
  proof (cases "ikcp_input mem (Some data) kcp")
    case None
    have "\<not> (mem \<and> (\<forall>f \<in> set fs. frame_timely (current kcp) f))"
    proof
      assume h: "mem \<and> (\<forall>f \<in> set fs. frame_timely (current kcp) f)"
      from ok [OF this] None show False by simp
    qed
    then show ?thesis unfolding None option.case by blast
  next
    case (Some x)
    obtain answer kcp' where x: "x = (answer, kcp')" by (cases x)
    show ?thesis using some [of answer kcp'] ok Some False unfolding x by auto
  qed
qed

theorem kcp_input_total_witness:
  "\<exists>kcp'. ikcp_input True (Some (seg_wire (example_wire 7) @ [0])) (ikcp_create 7) = Some (0, kcp')
    \<and> mss kcp' = mss (ikcp_create 7)"
proof -
  let ?data = "seg_wire (example_wire 7) @ [0 :: u8]"
  have f: "kcp_frames (conv (ikcp_create 7)) ?data = ([seg_frame (example_wire 7)], 0)"
    using frames_cons [OF example_wire, of 7 "[0]"] by (simp add: kcp_frames.simps ikcp_create_def)
  have l: "length ?data = 28" by (simp add: length_seg_wire example_wire_def ikcp_segment_new_def)
  have k: "mss (ikcp_create 7) \<noteq> 0" "input_inv (0 + length ?data div 24) (ikcp_create 7)"
    unfolding l by (simp_all add: ikcp_create_def IKCP_MTU_DEF_def IKCP_OVERHEAD_def input_inv_def rtt_inv_def ack_inv_def)
  have t: "frame_timely (current (ikcp_create 7)) (seg_frame (example_wire 7))"
    by (simp add: frame_timely_def seg_frame_def example_wire_def ikcp_cmds)
  from kcp_input_total [OF k(1) _ k(2) f, of True] t show ?thesis unfolding l by (auto split: option.splits)
qed

end
