(* ===== verification/KcpFlush.thy ===== *)
theory KcpFlush
  imports KcpInput
begin

text \<open>
  Sending: \<open>ikcp_flush\<close>, \<open>ikcp_update\<close> and \<open>ikcp_check\<close> of \<open>ikcp.c\<close>. The send buffer \<open>kcp->buffer\<close>
  is the list of the bytes between \<open>buffer\<close> and \<open>ptr\<close>; each call of the output callback adds a
  packet to the list of packets, which stands for the network.
\<close>

section \<open>The code\<close>

subsection \<open>The send buffer\<close>

type_synonym outp = "bytes \<times> bytes list"

definition ikcp_output :: "bytes \<Rightarrow> bytes list \<Rightarrow> bytes list" where
  "ikcp_output data packets = (if length data = 0 then packets else packets @ [data])"

text \<open>\<open>ikcp_create\<close> and \<open>ikcp_setmtu\<close> allocate the buffer, in unsigned arithmetic.\<close>

definition buffer_size :: "ikcpcb \<Rightarrow> nat" where
  "buffer_size kcp = unat ((mtu kcp + IKCP_OVERHEAD) * 3)"

definition make_room :: "int \<Rightarrow> ikcpcb \<Rightarrow> outp \<Rightarrow> outp" where
  "make_room need kcp out = (case out of (buf, packets) \<Rightarrow>
     if int (length buf) + need > to_i32 (mtu kcp) then ([], ikcp_output buf packets) else (buf, packets))"

text \<open>Writing behind the end of the buffer is undefined.\<close>

definition put_bytes :: "bytes \<Rightarrow> ikcpcb \<Rightarrow> outp \<Rightarrow> outp option" where
  "put_bytes bs kcp out = (case out of (buf, packets) \<Rightarrow> do {
     guard_opt (length buf + length bs \<le> buffer_size kcp);
     Some (buf @ bs, packets) })"

definition flush_cmd :: "ikcpseg \<Rightarrow> ikcpcb \<Rightarrow> outp \<Rightarrow> outp option" where
  "flush_cmd seg kcp out = put_bytes (ikcp_encode_seg seg) kcp (make_room (to_i32 IKCP_OVERHEAD) kcp out)"

definition flush_seg :: "ikcpseg \<Rightarrow> ikcpcb \<Rightarrow> outp \<Rightarrow> outp option" where
  "flush_seg seg kcp out = do {
     let need = to_i32 (IKCP_OVERHEAD + sg_len seg);
     i32 (int (length (fst out)) + need);
     out \<leftarrow> put_bytes (ikcp_encode_seg seg) kcp (make_room need kcp out);
     if sg_len seg > 0 then do {
       guard_opt (unat (sg_len seg) \<le> length (sg_data seg));
       put_bytes (take (unat (sg_len seg)) (sg_data seg)) kcp out }
     else Some out }"

subsection \<open>Acknowledgements and probes\<close>

definition flush_head :: "ikcpcb \<Rightarrow> ikcpseg" where
  "flush_head kcp = (ikcp_segment_new [])\<lparr>sg_conv := conv kcp, sg_cmd := IKCP_CMD_ACK, sg_frg := 0,
     sg_wnd := ikcp_wnd_unused kcp, sg_una := rcv_nxt kcp, sg_len := 0, sg_sn := 0, sg_ts := 0\<rparr>"

text \<open>The loop from index \<open>i\<close>, with \<open>n\<close> rounds to go.\<close>

fun flush_acks :: "nat \<Rightarrow> nat \<Rightarrow> ikcpcb \<Rightarrow> ikcpseg \<Rightarrow> outp \<Rightarrow> (ikcpseg \<times> outp) option" where
  "flush_acks 0 i kcp seg out = Some (seg, out)"
| "flush_acks (Suc n) i kcp seg out = do {
     (sn, ts) \<leftarrow> ikcp_ack_get kcp i;
     let seg = seg\<lparr>sg_sn := sn, sg_ts := ts\<rparr>;
     out \<leftarrow> flush_cmd seg kcp out;
     flush_acks n (Suc i) kcp seg out }"

definition flush_probe :: "ikcpcb \<Rightarrow> ikcpcb" where
  "flush_probe kcp =
     (if rmt_wnd kcp = 0
      then if probe_wait kcp = 0
        then kcp\<lparr>probe_wait := IKCP_PROBE_INIT, ts_probe := current kcp + IKCP_PROBE_INIT\<rparr>
        else if itimediff (current kcp) (ts_probe kcp) \<ge> 0
        then let
          w = (if probe_wait kcp < IKCP_PROBE_INIT then IKCP_PROBE_INIT else probe_wait kcp);
          w = w + w div 2;
          w = (if w > IKCP_PROBE_LIMIT then IKCP_PROBE_LIMIT else w)
        in kcp\<lparr>probe_wait := w, ts_probe := current kcp + w, probe := probe kcp OR IKCP_ASK_SEND\<rparr>
        else kcp
      else kcp\<lparr>ts_probe := 0, probe_wait := 0\<rparr>)"

definition flush_probes :: "ikcpcb \<Rightarrow> ikcpseg \<Rightarrow> outp \<Rightarrow> outp option" where
  "flush_probes kcp seg out = do {
     out \<leftarrow> (if probe kcp AND IKCP_ASK_SEND \<noteq> 0 then flush_cmd (seg\<lparr>sg_cmd := IKCP_CMD_WASK\<rparr>) kcp out else Some out);
     (if probe kcp AND IKCP_ASK_TELL \<noteq> 0 then flush_cmd (seg\<lparr>sg_cmd := IKCP_CMD_WINS\<rparr>) kcp out else Some out) }"

subsection \<open>From the queue to the window\<close>

definition flush_cwnd :: "ikcpcb \<Rightarrow> u32" where
  "flush_cwnd kcp = (let w = imin (snd_wnd kcp) (rmt_wnd kcp) in
     if nocwnd kcp = 0 then imin (cwnd kcp) w else w)"

definition flush_enter :: "u32 \<Rightarrow> ikcpseg \<Rightarrow> ikcpcb \<Rightarrow> ikcpcb" where
  "flush_enter wnd seg kcp = kcp\<lparr>nsnd_que := nsnd_que kcp - 1, nsnd_buf := nsnd_buf kcp + 1,
     snd_buf := snd_buf kcp @ [seg\<lparr>sg_conv := conv kcp, sg_cmd := IKCP_CMD_PUSH, sg_wnd := wnd,
       sg_ts := current kcp, sg_sn := snd_nxt kcp, sg_una := rcv_nxt kcp, sg_resendts := current kcp,
       sg_rto := to_u32 (rx_rto kcp), sg_fastack := 0, sg_xmit := 0\<rparr>],
     snd_nxt := snd_nxt kcp + 1\<rparr>"

text \<open>The loop; its third argument is \<open>snd_queue\<close>.\<close>

fun flush_move :: "u32 \<Rightarrow> u32 \<Rightarrow> ikcpseg list \<Rightarrow> ikcpcb \<Rightarrow> ikcpcb" where
  "flush_move cw wnd [] kcp = kcp\<lparr>snd_queue := []\<rparr>"
| "flush_move cw wnd (seg # segs) kcp =
     (if itimediff (snd_nxt kcp) (snd_una kcp + cw) < 0
      then flush_move cw wnd segs (flush_enter wnd seg kcp)
      else kcp\<lparr>snd_queue := seg # segs\<rparr>)"

subsection \<open>Sending and sending again\<close>

datatype send_reason = No_send | First_send | Timed_out | Fast_resend

definition send_reason :: "u32 \<Rightarrow> ikcpcb \<Rightarrow> ikcpseg \<Rightarrow> send_reason" where
  "send_reason resent kcp seg =
     (if sg_xmit seg = 0 then First_send
      else if itimediff (current kcp) (sg_resendts seg) \<ge> 0 then Timed_out
      else if sg_fastack seg \<ge> resent
      then if to_i32 (sg_xmit seg) \<le> fastlimit kcp \<or> fastlimit kcp \<le> 0 then Fast_resend else No_send
      else No_send)"

text \<open>\<open>xmit\<close>, \<open>rto\<close>, \<open>fastack\<close> and \<open>resendts\<close> of a segment that is sent.\<close>

definition count_send :: "send_reason \<Rightarrow> ikcpcb \<Rightarrow> ikcpseg \<Rightarrow> ikcpseg" where
  "count_send why kcp seg = (case why of
     No_send \<Rightarrow> seg
   | First_send \<Rightarrow> let rtomin = (if nodelay kcp = 0 then to_u32 (rx_rto kcp div 8) else 0) in
       seg\<lparr>sg_xmit := sg_xmit seg + 1, sg_rto := to_u32 (rx_rto kcp),
         sg_resendts := current kcp + to_u32 (rx_rto kcp) + rtomin\<rparr>
   | Timed_out \<Rightarrow> let
       rto = (if nodelay kcp = 0 then sg_rto seg + imax (sg_rto seg) (to_u32 (rx_rto kcp))
         else let step = (if nodelay kcp < 2 then to_i32 (sg_rto seg) else rx_rto kcp) in
           sg_rto seg + to_u32 (step sdiv 2)) in
       seg\<lparr>sg_xmit := sg_xmit seg + 1, sg_rto := rto, sg_resendts := current kcp + rto\<rparr>
   | Fast_resend \<Rightarrow> seg\<lparr>sg_xmit := sg_xmit seg + 1, sg_fastack := 0, sg_resendts := current kcp + sg_rto seg\<rparr>)"

definition stamp_seg :: "u32 \<Rightarrow> ikcpcb \<Rightarrow> ikcpseg \<Rightarrow> ikcpseg" where
  "stamp_seg wnd kcp seg = seg\<lparr>sg_ts := current kcp, sg_wnd := wnd, sg_una := rcv_nxt kcp\<rparr>"

text \<open>What the loop over \<open>snd_buf\<close> changes of the control block, its two flags, and the output.\<close>

record flush_acc =
  fa_xmit :: u32
  fa_state :: u32
  fa_change :: bool
  fa_lost :: bool
  fa_out :: outp

fun flush_data :: "u32 \<Rightarrow> u32 \<Rightarrow> ikcpcb \<Rightarrow> ikcpseg list \<Rightarrow> flush_acc \<Rightarrow> (ikcpseg list \<times> flush_acc) option" where
  "flush_data resent wnd kcp [] s = Some ([], s)"
| "flush_data resent wnd kcp (seg # segs) s = (let
     why = send_reason resent kcp seg;
     seg = count_send why kcp seg;
     s = s\<lparr>fa_xmit := (if why = Timed_out then fa_xmit s + 1 else fa_xmit s),
       fa_lost := (fa_lost s \<or> why = Timed_out), fa_change := (fa_change s \<or> why = Fast_resend)\<rparr>
   in do {
     (seg, s) \<leftarrow> (if why = No_send then Some (seg, s)
       else do {
         let seg = stamp_seg wnd kcp seg;
         out \<leftarrow> flush_seg seg kcp (fa_out s);
         Some (seg, s\<lparr>fa_out := out, fa_state := (if sg_xmit seg \<ge> dead_link kcp then - 1 else fa_state s)\<rparr>) });
     (segs, s) \<leftarrow> flush_data resent wnd kcp segs s;
     Some (seg # segs, s) })"

definition flush_congestion :: "bool \<Rightarrow> bool \<Rightarrow> u32 \<Rightarrow> u32 \<Rightarrow> ikcpcb \<Rightarrow> ikcpcb" where
  "flush_congestion change lost resent cw kcp = (let
     kcp = (if change then let
         half = (snd_nxt kcp - snd_una kcp) div 2;
         half = (if half < IKCP_THRESH_MIN then IKCP_THRESH_MIN else half) in
         kcp\<lparr>ssthresh := half, cwnd := half + resent, incr := (half + resent) * mss kcp\<rparr> else kcp);
     kcp = (if lost then let
         half = cw div 2;
         half = (if half < IKCP_THRESH_MIN then IKCP_THRESH_MIN else half) in
         kcp\<lparr>ssthresh := half, cwnd := 1, incr := mss kcp\<rparr> else kcp)
   in if cwnd kcp < 1 then kcp\<lparr>cwnd := 1, incr := mss kcp\<rparr> else kcp)"

definition flush_resent :: "ikcpcb \<Rightarrow> u32" where
  "flush_resent kcp = (if fastresend kcp > 0 then to_u32 (fastresend kcp) else 0xffffffff)"

definition ikcp_flush :: "ikcpcb \<Rightarrow> (bytes list \<times> ikcpcb) option" where
  "ikcp_flush kcp =
     (if updated kcp = 0 then Some ([], kcp)
      else do {
        (seg, out) \<leftarrow> flush_acks (nat (to_i32 (ackcount kcp))) 0 kcp (flush_head kcp) ([], []);
        let kcp = flush_probe (kcp\<lparr>ackcount := 0\<rparr>);
        out \<leftarrow> flush_probes kcp seg out;
        let kcp = kcp\<lparr>probe := 0\<rparr>;
        let cw = flush_cwnd kcp;
        let kcp = flush_move cw (sg_wnd seg) (snd_queue kcp) kcp;
        let resent = flush_resent kcp;
        (segs, s) \<leftarrow> flush_data resent (sg_wnd seg) kcp (snd_buf kcp)
          \<lparr>fa_xmit = xmit kcp, fa_state = state kcp, fa_change = False, fa_lost = False, fa_out = out\<rparr>;
        let kcp = kcp\<lparr>snd_buf := segs, xmit := fa_xmit s, state := fa_state s\<rparr>;
        let (buf, packets) = fa_out s;
        let packets = (if length buf > 0 then ikcp_output buf packets else packets);
        Some (packets, flush_congestion (fa_change s) (fa_lost s) resent cw kcp) })"

subsection \<open>The clock\<close>

definition ikcp_update :: "u32 \<Rightarrow> ikcpcb \<Rightarrow> (bytes list \<times> ikcpcb) option" where
  "ikcp_update now kcp = (let
     kcp = kcp\<lparr>current := now\<rparr>;
     kcp = (if updated kcp = 0 then kcp\<lparr>updated := 1, ts_flush := current kcp\<rparr> else kcp);
     slap = itimediff (current kcp) (ts_flush kcp);
     (kcp, slap) = (if slap \<ge> 10000 \<or> slap < - 10000 then (kcp\<lparr>ts_flush := current kcp\<rparr>, 0) else (kcp, slap))
   in if slap \<ge> 0 then let
        kcp = kcp\<lparr>ts_flush := ts_flush kcp + interval kcp\<rparr>;
        kcp = (if itimediff (current kcp) (ts_flush kcp) \<ge> 0
          then kcp\<lparr>ts_flush := current kcp + interval kcp\<rparr> else kcp)
      in ikcp_flush kcp
      else Some ([], kcp))"

text \<open>The loop of \<open>ikcp_check\<close>: \<open>None\<close> when a segment is due, else the time to the first one that will be.\<close>

fun check_packets :: "u32 \<Rightarrow> ikcpseg list \<Rightarrow> int \<Rightarrow> int option" where
  "check_packets now [] tm_packet = Some tm_packet"
| "check_packets now (seg # segs) tm_packet = (let diff = itimediff (sg_resendts seg) now in
     if diff \<le> 0 then None
     else check_packets now segs (if diff < tm_packet then diff else tm_packet))"

definition ikcp_check :: "ikcpcb \<Rightarrow> u32 \<Rightarrow> u32" where
  "ikcp_check kcp now =
     (if updated kcp = 0 then now
      else let ts = (if itimediff now (ts_flush kcp) \<ge> 10000 \<or> itimediff now (ts_flush kcp) < - 10000
          then now else ts_flush kcp) in
        if itimediff now ts \<ge> 0 then now
        else let tm_flush = itimediff ts now in
          case check_packets now (snd_buf kcp) 0x7fffffff of
            None \<Rightarrow> now
          | Some tm_packet \<Rightarrow> let
              minimal = to_u32 (if tm_packet < tm_flush then tm_packet else tm_flush);
              minimal = (if minimal \<ge> interval kcp then interval kcp else minimal)
            in now + minimal)"

section \<open>A reference: greedy packing of a list of segments\<close>

text \<open>The pieces \<open>ws\<close> are put into packets of at most \<open>m\<close> bytes, in order; \<open>buf\<close> is the packet begun.\<close>

fun pack :: "nat \<Rightarrow> bytes \<Rightarrow> bytes list \<Rightarrow> bytes list" where
  "pack m buf [] = (if buf = [] then [] else [buf])"
| "pack m buf (w # ws) =
     (if length buf + length w > m then (if buf = [] then [] else [buf]) @ pack m w ws
      else pack m (buf @ w) ws)"

definition ack_seg :: "ikcpseg \<Rightarrow> u32 \<times> u32 \<Rightarrow> ikcpseg" where
  "ack_seg seg p = seg\<lparr>sg_sn := fst p, sg_ts := snd p\<rparr>"

text \<open>The control block when the loop over \<open>snd_buf\<close> begins.\<close>

definition flush_ready :: "ikcpcb \<Rightarrow> ikcpcb" where
  "flush_ready kcp = (let k = flush_probe (kcp\<lparr>ackcount := 0\<rparr>) in
     flush_move (flush_cwnd k) (ikcp_wnd_unused kcp) (snd_queue k) (k\<lparr>probe := 0\<rparr>))"

definition touch_seg :: "u32 \<Rightarrow> u32 \<Rightarrow> ikcpcb \<Rightarrow> ikcpseg \<Rightarrow> ikcpseg" where
  "touch_seg resent wnd kcp seg = (let why = send_reason resent kcp seg in
     if why = No_send then seg else stamp_seg wnd kcp (count_send why kcp seg))"

definition sent_segs :: "u32 \<Rightarrow> u32 \<Rightarrow> ikcpcb \<Rightarrow> ikcpseg list \<Rightarrow> ikcpseg list" where
  "sent_segs resent wnd kcp segs = map (touch_seg resent wnd kcp) (filter (\<lambda>seg. send_reason resent kcp seg \<noteq> No_send) segs)"

text \<open>What a flush sends: the pending acknowledgements, the probes, the segments that are due.\<close>

definition flush_list :: "ikcpcb \<Rightarrow> ikcpseg list" where
  "flush_list kcp = (let
     head = flush_head kcp; k = flush_probe (kcp\<lparr>ackcount := 0\<rparr>); k2 = flush_ready kcp;
     probe_seg = fold (\<lambda>p s. ack_seg s p) (acks kcp) head in
     map (ack_seg head) (acks kcp)
     @ (if probe k AND IKCP_ASK_SEND \<noteq> 0 then [probe_seg\<lparr>sg_cmd := IKCP_CMD_WASK\<rparr>] else [])
     @ (if probe k AND IKCP_ASK_TELL \<noteq> 0 then [probe_seg\<lparr>sg_cmd := IKCP_CMD_WINS\<rparr>] else [])
     @ sent_segs (flush_resent kcp) (ikcp_wnd_unused kcp) k2 (snd_buf k2))"

section \<open>The buffer never overflows\<close>

definition mtu_ok :: "ikcpcb \<Rightarrow> bool" where
  "mtu_ok kcp \<longleftrightarrow> 24 < unat (mtu kcp) \<and> unat (mtu kcp) < 2 ^ 30"

definition packed :: "ikcpcb \<Rightarrow> outp \<Rightarrow> bytes list \<Rightarrow> bytes list" where
  "packed kcp out ws = snd out @ pack (unat (mtu kcp)) (fst out) ws"

definition out_ok :: "ikcpcb \<Rightarrow> outp \<Rightarrow> bool" where
  "out_ok kcp out \<longleftrightarrow> length (fst out) \<le> unat (mtu kcp)"

lemma mtu_okD:
  assumes "mtu_ok kcp"
  shows "to_i32 (mtu kcp) = int (unat (mtu kcp))" "buffer_size kcp = (unat (mtu kcp) + 24) * 3"
proof -
  have m: "unat (mtu kcp) < 2 ^ 31" "(unat (mtu kcp) + 24) * 3 < 2 ^ LENGTH(32)" using assms by (simp_all add: mtu_ok_def)
  then show "to_i32 (mtu kcp) = int (unat (mtu kcp))" unfolding to_i32_def sint_unat32 by simp
  have "unat (mtu kcp + IKCP_OVERHEAD) = unat (mtu kcp) + 24"
    using m unfolding IKCP_OVERHEAD_def by (subst unat_add_nowrap) simp_all
  then show "buffer_size kcp = (unat (mtu kcp) + 24) * 3"
    using m(2) unfolding buffer_size_def by (subst unat_mult_nowrap) simp_all
qed

lemma room_put:
  assumes "mtu_ok kcp" "out_ok kcp out" "n \<le> unat (mtu kcp)"
  obtains buf packets where "make_room (int n) kcp out = (buf, packets)" "length buf + n \<le> unat (mtu kcp)"
    and "\<And>w ws. length w = n \<Longrightarrow> packed kcp (buf @ w, packets) ws = packed kcp out (w # ws)"
proof -
  obtain b ps where out: "out = (b, ps)" by (cases out)
  show ?thesis
  proof (cases "int (length b) + int n > to_i32 (mtu kcp)")
    case True
    then have "length b + n > unat (mtu kcp)" unfolding mtu_okD(1) [OF assms(1)] by linarith
    then show ?thesis using that [of "[]" "ikcp_output b ps"] True assms(3)
      by (simp add: make_room_def out packed_def ikcp_output_def)
  next
    case False
    then have "length b + n \<le> unat (mtu kcp)" unfolding mtu_okD(1) [OF assms(1)] by linarith
    then show ?thesis using that [of b ps] False by (simp add: make_room_def out packed_def)
  qed
qed

lemma flush_cmd_ok:
  assumes "mtu_ok kcp" "out_ok kcp out"
  shows "\<exists>out'. flush_cmd seg kcp out = Some out' \<and> out_ok kcp out'
    \<and> (\<forall>ws. packed kcp out' ws = packed kcp out (ikcp_encode_seg seg # ws))"
proof -
  have "24 \<le> unat (mtu kcp)" using assms(1) by (simp add: mtu_ok_def)
  from room_put [OF assms this] obtain b ps where r: "make_room (int 24) kcp out = (b, ps)"
    "length b + 24 \<le> unat (mtu kcp)"
    "\<And>w ws. length w = 24 \<Longrightarrow> packed kcp (b @ w, ps) ws = packed kcp out (w # ws)" by metis
  have i: "to_i32 IKCP_OVERHEAD = int 24" by (simp add: to_i32_def IKCP_OVERHEAD_def)
  have "length b + 24 \<le> buffer_size kcp" using r(2) by (simp add: mtu_okD(2) [OF assms(1)])
  then show ?thesis using r by (simp add: flush_cmd_def i put_bytes_def out_ok_def)
qed

definition seg_fits :: "ikcpcb \<Rightarrow> ikcpseg \<Rightarrow> bool" where
  "seg_fits kcp seg \<longleftrightarrow> unat (sg_len seg) + 24 \<le> unat (mtu kcp) \<and> unat (sg_len seg) \<le> length (sg_data seg)"

lemma flush_seg_ok:
  assumes "mtu_ok kcp" "out_ok kcp out" "seg_fits kcp seg"
  shows "\<exists>out'. flush_seg seg kcp out = Some out' \<and> out_ok kcp out'
    \<and> (\<forall>ws. packed kcp out' ws = packed kcp out (seg_wire seg # ws))"
proof -
  let ?n = "24 + unat (sg_len seg)"
  have n: "?n \<le> unat (mtu kcp)" using assms(3) by (simp add: seg_fits_def)
  have m: "unat (mtu kcp) < 2 ^ 30" using assms(1) by (simp add: mtu_ok_def)
  have u: "unat (IKCP_OVERHEAD + sg_len seg) = ?n"
    using n m by (subst unat_add_nowrap) (simp_all add: IKCP_OVERHEAD_def)
  then have i: "to_i32 (IKCP_OVERHEAD + sg_len seg) = int ?n"
    using n m unfolding to_i32_def sint_unat32 by simp
  from room_put [OF assms(1,2) n] obtain b ps where r: "make_room (int ?n) kcp out = (b, ps)"
    "length b + ?n \<le> unat (mtu kcp)"
    "\<And>w ws. length w = ?n \<Longrightarrow> packed kcp (b @ w, ps) ws = packed kcp out (w # ws)" by metis
  have l: "length (seg_wire seg) = ?n" using assms(3) by (simp add: length_seg_wire seg_fits_def)
  have "\<exists>v. i32 (int (length (fst out)) + int ?n) = Some v"
  proof -
    have "i32 (int k) = Some (int k)" if "k < 2 ^ 31" for k using that by (simp add: i32_def)
    moreover have "length (fst out) + ?n < 2 ^ 31"
      using assms(2) n assms(1) by (simp add: out_ok_def mtu_ok_def)
    ultimately show ?thesis by (metis of_nat_add)
  qed
  moreover have "length b + ?n \<le> buffer_size kcp" "length b + 24 \<le> buffer_size kcp"
    using r(2) by (simp_all add: mtu_okD(2) [OF assms(1)])
  moreover have "min (length (sg_data seg)) (unat (sg_len seg)) = unat (sg_len seg)" "unat (sg_len seg) \<le> length (sg_data seg)"
    using assms(3) by (simp_all add: seg_fits_def)
  moreover have "sg_len seg = 0 \<longleftrightarrow> unat (sg_len seg) = 0" by (simp add: unat_eq_0)
  ultimately have "flush_seg seg kcp out = Some (b @ seg_wire seg, ps)"
    using r(1) by (auto simp: flush_seg_def i put_bytes_def seg_wire_def word_gt_0)
  then show ?thesis using r(2,3) l by (simp add: out_ok_def)
qed

lemma flush_acks_ok:
  assumes "mtu_ok kcp" "out_ok kcp out" "i + n \<le> length (acklist kcp)"
  shows "\<exists>out'. flush_acks n i kcp seg out = Some (fold (\<lambda>p s. ack_seg s p) (take n (drop i (acklist kcp))) seg, out')
    \<and> out_ok kcp out' \<and> (\<forall>ws. packed kcp out' ws
      = packed kcp out (map (ikcp_encode_seg \<circ> ack_seg seg) (take n (drop i (acklist kcp))) @ ws))"
  using assms(2,3)
proof (induction n arbitrary: i seg out)
  case (Suc n)
  obtain sn ts where a: "acklist kcp ! i = (sn, ts)" by (cases "acklist kcp ! i")
  have g: "ikcp_ack_get kcp i = Some (sn, ts)" using Suc.prems by (simp add: ikcp_ack_get_def a)
  have d: "take (Suc n) (drop i (acklist kcp)) = (sn, ts) # take n (drop (Suc i) (acklist kcp))"
    using Suc.prems nth_drop_hd [of i "acklist kcp"] by (simp add: a)
  let ?seg = "ack_seg seg (sn, ts)"
  from flush_cmd_ok [OF assms(1) Suc.prems(1), of ?seg] obtain o1 where 1: "flush_cmd ?seg kcp out = Some o1"
    "out_ok kcp o1" "\<And>ws. packed kcp o1 ws = packed kcp out (ikcp_encode_seg ?seg # ws)" by blast
  have c: "ikcp_encode_seg \<circ> ack_seg ?seg = ikcp_encode_seg \<circ> ack_seg seg"
    by (simp add: fun_eq_iff ack_seg_def)
  have "Suc i + n \<le> length (acklist kcp)" using Suc.prems by simp
  from Suc.IH [OF 1(2) this, of ?seg] 1 g show ?case
    unfolding d c by (auto simp: ack_seg_def)
qed simp

lemma flush_probe_same [simp]:
  "mtu (flush_probe kcp) = mtu kcp" "mss (flush_probe kcp) = mss kcp" "conv (flush_probe kcp) = conv kcp"
  "snd_queue (flush_probe kcp) = snd_queue kcp" "snd_buf (flush_probe kcp) = snd_buf kcp"
  "snd_una (flush_probe kcp) = snd_una kcp" "snd_nxt (flush_probe kcp) = snd_nxt kcp"
  "nsnd_que (flush_probe kcp) = nsnd_que kcp" "nsnd_buf (flush_probe kcp) = nsnd_buf kcp"
  "cwnd (flush_probe kcp) = cwnd kcp" "snd_wnd (flush_probe kcp) = snd_wnd kcp"
  "rmt_wnd (flush_probe kcp) = rmt_wnd kcp" "nocwnd (flush_probe kcp) = nocwnd kcp"
  "current (flush_probe kcp) = current kcp" "rcv_nxt (flush_probe kcp) = rcv_nxt kcp"
  "fastresend (flush_probe kcp) = fastresend kcp"
  by (simp_all add: flush_probe_def Let_def)

lemma flush_probes_ok:
  assumes "mtu_ok kcp" "out_ok kcp out"
  shows "\<exists>out'. flush_probes kcp seg out = Some out' \<and> out_ok kcp out'
    \<and> (\<forall>ws. packed kcp out' ws = packed kcp out (map ikcp_encode_seg
      ((if probe kcp AND IKCP_ASK_SEND \<noteq> 0 then [seg\<lparr>sg_cmd := IKCP_CMD_WASK\<rparr>] else [])
       @ (if probe kcp AND IKCP_ASK_TELL \<noteq> 0 then [seg\<lparr>sg_cmd := IKCP_CMD_WINS\<rparr>] else [])) @ ws))"
proof -
  have opt: "\<exists>out'. (if b then flush_cmd sg kcp out else Some out) = Some out' \<and> out_ok kcp out'
      \<and> (\<forall>ws. packed kcp out' ws = packed kcp out (map ikcp_encode_seg (if b then [sg] else []) @ ws))"
    if "out_ok kcp out" for b sg out
    using flush_cmd_ok [OF assms(1) that, of sg] that by (cases b) auto
  obtain o1 where 1: "(if probe kcp AND IKCP_ASK_SEND \<noteq> 0 then flush_cmd (seg\<lparr>sg_cmd := IKCP_CMD_WASK\<rparr>) kcp out
      else Some out) = Some o1" "out_ok kcp o1" "\<And>ws. packed kcp o1 ws = packed kcp out (map ikcp_encode_seg
      (if probe kcp AND IKCP_ASK_SEND \<noteq> 0 then [seg\<lparr>sg_cmd := IKCP_CMD_WASK\<rparr>] else []) @ ws)"
    using opt [OF assms(2)] by blast
  obtain o2 where 2: "(if probe kcp AND IKCP_ASK_TELL \<noteq> 0 then flush_cmd (seg\<lparr>sg_cmd := IKCP_CMD_WINS\<rparr>) kcp o1
      else Some o1) = Some o2" "out_ok kcp o2" "\<And>ws. packed kcp o2 ws = packed kcp o1 (map ikcp_encode_seg
      (if probe kcp AND IKCP_ASK_TELL \<noteq> 0 then [seg\<lparr>sg_cmd := IKCP_CMD_WINS\<rparr>] else []) @ ws)"
    using opt [OF 1(2)] by blast
  have "flush_probes kcp seg out = Some o2" unfolding flush_probes_def 1(1) by (simp add: 2(1))
  then show ?thesis using 1(3) 2(2,3) by simp
qed

lemma flush_data_ok:
  assumes "mtu_ok kcp" "out_ok kcp (fa_out s)" "\<forall>seg \<in> set segs. seg_fits kcp seg"
  shows "\<exists>s'. flush_data resent wnd kcp segs s = Some (map (touch_seg resent wnd kcp) segs, s')
    \<and> out_ok kcp (fa_out s') \<and> (\<forall>ws. packed kcp (fa_out s') ws
      = packed kcp (fa_out s) (map seg_wire (sent_segs resent wnd kcp segs) @ ws))"
  using assms(2,3)
proof (induction segs arbitrary: s)
  case (Cons seg segs)
  let ?why = "send_reason resent kcp seg"
  let ?s = "s\<lparr>fa_xmit := (if ?why = Timed_out then fa_xmit s + 1 else fa_xmit s),
       fa_lost := (fa_lost s \<or> ?why = Timed_out), fa_change := (fa_change s \<or> ?why = Fast_resend)\<rparr>"
  show ?case
  proof (cases "?why = No_send")
    case True
    from Cons.IH [of ?s] Cons.prems True show ?thesis
      by (auto simp: Let_def touch_seg_def count_send_def sent_segs_def)
  next
    case False
    let ?seg = "stamp_seg wnd kcp (count_send ?why kcp seg)"
    have "sg_len ?seg = sg_len seg" "sg_data ?seg = sg_data seg"
      by (simp_all add: stamp_seg_def count_send_def Let_def split: send_reason.split)
    then have "seg_fits kcp ?seg" using Cons.prems(2) by (simp add: seg_fits_def)
    from flush_seg_ok [OF assms(1) Cons.prems(1) this] obtain o1 where 1: "flush_seg ?seg kcp (fa_out s) = Some o1"
      "out_ok kcp o1" "\<And>ws. packed kcp o1 ws = packed kcp (fa_out s) (seg_wire ?seg # ws)" by blast
    from Cons.IH [of "?s\<lparr>fa_out := o1, fa_state := (if sg_xmit ?seg \<ge> dead_link kcp then - 1 else fa_state ?s)\<rparr>"] 1 Cons.prems(2)
    obtain s' where "flush_data resent wnd kcp segs
        (?s\<lparr>fa_out := o1, fa_state := (if sg_xmit ?seg \<ge> dead_link kcp then - 1 else fa_state ?s)\<rparr>)
        = Some (map (touch_seg resent wnd kcp) segs, s')" "out_ok kcp (fa_out s')"
      "\<And>ws. packed kcp (fa_out s') ws = packed kcp o1 (map seg_wire (sent_segs resent wnd kcp segs) @ ws)" by auto
    then show ?thesis using False 1
      by (auto simp: Let_def touch_seg_def sent_segs_def)
  qed
qed (simp add: sent_segs_def)

section \<open>The window\<close>

lemma flush_enter_same [simp]:
  "mtu (flush_enter w seg kcp) = mtu kcp" "mss (flush_enter w seg kcp) = mss kcp" "conv (flush_enter w seg kcp) = conv kcp"
  "current (flush_enter w seg kcp) = current kcp" "rcv_nxt (flush_enter w seg kcp) = rcv_nxt kcp"
  "snd_una (flush_enter w seg kcp) = snd_una kcp" "acklist (flush_enter w seg kcp) = acklist kcp"
  "ackblock (flush_enter w seg kcp) = ackblock kcp" "ackcount (flush_enter w seg kcp) = ackcount kcp"
  "snd_nxt (flush_enter w seg kcp) = snd_nxt kcp + 1" "nsnd_que (flush_enter w seg kcp) = nsnd_que kcp - 1"
  "nsnd_buf (flush_enter w seg kcp) = nsnd_buf kcp + 1" "ts_flush (flush_enter w seg kcp) = ts_flush kcp"
  "updated (flush_enter w seg kcp) = updated kcp" "interval (flush_enter w seg kcp) = interval kcp"
  "fastresend (flush_enter w seg kcp) = fastresend kcp"
  by (simp_all add: flush_enter_def)

lemma flush_move_same [simp]:
  "mtu (flush_move cw w q kcp) = mtu kcp" "mss (flush_move cw w q kcp) = mss kcp" "conv (flush_move cw w q kcp) = conv kcp"
  "current (flush_move cw w q kcp) = current kcp" "rcv_nxt (flush_move cw w q kcp) = rcv_nxt kcp"
  "snd_una (flush_move cw w q kcp) = snd_una kcp" "acklist (flush_move cw w q kcp) = acklist kcp"
  "ackblock (flush_move cw w q kcp) = ackblock kcp" "ackcount (flush_move cw w q kcp) = ackcount kcp"
  "ts_flush (flush_move cw w q kcp) = ts_flush kcp" "updated (flush_move cw w q kcp) = updated kcp"
  "interval (flush_move cw w q kcp) = interval kcp" "fastresend (flush_move cw w q kcp) = fastresend kcp"
  by (induction q arbitrary: kcp) simp_all

text \<open>What a segment carries for the application.\<close>

definition seg_content :: "ikcpseg \<Rightarrow> u32 \<times> u32 \<times> bytes" where
  "seg_content seg = (sg_frg seg, sg_len seg, sg_data seg)"

definition seg_queued :: "ikcpcb \<Rightarrow> ikcpseg \<Rightarrow> bool" where
  "seg_queued kcp seg \<longleftrightarrow> sg_conv seg = conv kcp \<and> sg_cmd seg = IKCP_CMD_PUSH"

text \<open>
  The segments in flight number \<open>f\<close>; when the window of \<open>cw\<close> segments lets \<open>n\<close> of the queue through, they
  are the first \<open>n\<close>, they get the next numbers, and either none is left or the window is full.
\<close>

lemma flush_move_enters:
  assumes "f < 2 ^ 31" "unat cw < 2 ^ 31" "snd_nxt kcp = snd_una kcp + of_nat f"
  shows "\<exists>entered n. snd_buf (flush_move cw w q kcp) = snd_buf kcp @ entered \<and> n = length entered
    \<and> n \<le> length q \<and> snd_queue (flush_move cw w q kcp) = drop n q
    \<and> map seg_content entered = map seg_content (take n q)
    \<and> map sg_sn entered = map (\<lambda>i. snd_nxt kcp + of_nat i) [0..<n]
    \<and> (\<forall>seg \<in> set entered. seg_queued kcp seg)
    \<and> snd_nxt (flush_move cw w q kcp) = snd_una kcp + of_nat (f + n)
    \<and> nsnd_buf (flush_move cw w q kcp) = nsnd_buf kcp + of_nat n
    \<and> nsnd_que (flush_move cw w q kcp) = nsnd_que kcp - of_nat n
    \<and> f + n \<le> max f (unat cw) \<and> (n = length q \<or> unat cw \<le> f + n)"
  using assms(1,3)
proof (induction q arbitrary: kcp f)
  case (Cons seg q)
  let ?kcp = "flush_enter w seg kcp"
  have "itimediff (snd_nxt kcp) (snd_una kcp + cw) = itimediff (of_nat f) (of_nat (unat cw))"
    unfolding Cons.prems(2) by (simp add: itimediff_def)
  also have "\<dots> = int f - int (unat cw)"
    by (rule itimediff_nat) (use Cons.prems(1) assms(2) in simp_all)
  finally have room: "itimediff (snd_nxt kcp) (snd_una kcp + cw) < 0 \<longleftrightarrow> f < unat cw" by linarith
  show ?case
  proof (cases "f < unat cw")
    case True
    have "snd_nxt ?kcp = snd_una ?kcp + of_nat (Suc f)" using Cons.prems(2) by simp
    from Cons.IH [OF _ this] True assms(2) obtain entered n where
      IH: "snd_buf (flush_move cw w q ?kcp) = snd_buf ?kcp @ entered" "n = length entered" "n \<le> length q"
      "snd_queue (flush_move cw w q ?kcp) = drop n q" "map seg_content entered = map seg_content (take n q)"
      "map sg_sn entered = map (\<lambda>i. snd_nxt ?kcp + of_nat i) [0..<n]" "\<forall>seg \<in> set entered. seg_queued ?kcp seg"
      "snd_nxt (flush_move cw w q ?kcp) = snd_una ?kcp + of_nat (Suc f + n)"
      "nsnd_buf (flush_move cw w q ?kcp) = nsnd_buf ?kcp + of_nat n"
      "nsnd_que (flush_move cw w q ?kcp) = nsnd_que ?kcp - of_nat n"
      "Suc f + n \<le> max (Suc f) (unat cw)" "n = length q \<or> unat cw \<le> Suc f + n"
      by auto
    define new where "new = last (snd_buf ?kcp)"
    have b: "snd_buf ?kcp = snd_buf kcp @ [new]" "seg_content new = seg_content seg" "sg_sn new = snd_nxt kcp"
      "seg_queued kcp new"
      by (simp_all add: new_def flush_enter_def seg_content_def seg_queued_def)
    have "map sg_sn (new # entered) = map (\<lambda>i. snd_nxt kcp + of_nat i) [0..<Suc n]"
      unfolding upt_conv_Cons [OF zero_less_Suc] map_Suc_upt [symmetric] using IH(6) b(3) by (simp add: algebra_simps)
    moreover have "\<forall>seg \<in> set (new # entered). seg_queued kcp seg"
      using IH(7) b(4) by (simp add: seg_queued_def)
    moreover have "f + Suc n \<le> max f (unat cw)" "Suc n = length (seg # q) \<or> unat cw \<le> f + Suc n"
      using IH(11,12) True by auto
    moreover have "f + Suc n = Suc f + n" by simp
    ultimately show ?thesis using True room IH(1-5,8-10) b
      by (intro exI [of _ "new # entered"] exI [of _ "Suc n"]) (simp add: algebra_simps)
  qed (use room Cons.prems(2) in simp)
qed simp

section \<open>A flush as a whole\<close>

definition flush_inv :: "ikcpcb \<Rightarrow> bool" where
  "flush_inv kcp \<longleftrightarrow> mtu_ok kcp \<and> ack_inv kcp \<and> unat (ackcount kcp) < 2 ^ 31
     \<and> (\<forall>seg \<in> set (snd_queue kcp). seg_fits kcp seg)
     \<and> (\<forall>seg \<in> set (snd_buf kcp). seg_fits kcp seg \<and> seg_queued kcp seg)"

lemma packed_cong:
  "mtu kcp' = mtu kcp \<Longrightarrow> packed kcp' = packed kcp" "mtu kcp' = mtu kcp \<Longrightarrow> out_ok kcp' = out_ok kcp"
  "mtu kcp' = mtu kcp \<Longrightarrow> mtu_ok kcp' = mtu_ok kcp" "mtu kcp' = mtu kcp \<Longrightarrow> seg_fits kcp' = seg_fits kcp"
  by (simp_all add: packed_def out_ok_def mtu_ok_def seg_fits_def fun_eq_iff)

lemma congestion_same [simp]:
  "snd_buf (flush_congestion c l r w kcp) = snd_buf kcp" "snd_queue (flush_congestion c l r w kcp) = snd_queue kcp"
  "mtu (flush_congestion c l r w kcp) = mtu kcp" "mss (flush_congestion c l r w kcp) = mss kcp"
  "conv (flush_congestion c l r w kcp) = conv kcp" "acklist (flush_congestion c l r w kcp) = acklist kcp"
  "ackcount (flush_congestion c l r w kcp) = ackcount kcp" "ackblock (flush_congestion c l r w kcp) = ackblock kcp"
  "snd_una (flush_congestion c l r w kcp) = snd_una kcp" "snd_nxt (flush_congestion c l r w kcp) = snd_nxt kcp"
  "nsnd_buf (flush_congestion c l r w kcp) = nsnd_buf kcp" "nsnd_que (flush_congestion c l r w kcp) = nsnd_que kcp"
  "ts_flush (flush_congestion c l r w kcp) = ts_flush kcp" "updated (flush_congestion c l r w kcp) = updated kcp"
  "interval (flush_congestion c l r w kcp) = interval kcp" "current (flush_congestion c l r w kcp) = current kcp"
  by (simp_all add: flush_congestion_def Let_def)

lemma acks_flushed:
  assumes "ack_inv kcp" "unat (ackcount kcp) < 2 ^ 31"
  shows "take (nat (to_i32 (ackcount kcp))) (acklist kcp) = acks kcp" "nat (to_i32 (ackcount kcp)) \<le> length (acklist kcp)"
proof -
  have "nat (to_i32 (ackcount kcp)) = unat (ackcount kcp)"
    using assms(2) unfolding to_i32_def sint_unat32 by simp
  then show "take (nat (to_i32 (ackcount kcp))) (acklist kcp) = acks kcp" "nat (to_i32 (ackcount kcp)) \<le> length (acklist kcp)"
    using assms(1) by (simp_all add: acks_def ack_inv_def word_le_nat_alt)
qed

lemma wire_short: "sg_len seg = 0 \<Longrightarrow> seg_wire seg = ikcp_encode_seg seg"
  by (simp add: seg_wire_def)

lemma ack_seg_same [simp]:
  "sg_len (ack_seg seg p) = sg_len seg" "sg_conv (ack_seg seg p) = sg_conv seg"
  "sg_cmd (ack_seg seg p) = sg_cmd seg" "sg_data (ack_seg seg p) = sg_data seg" "sg_wnd (ack_seg seg p) = sg_wnd seg"
  by (simp_all add: ack_seg_def)

lemma fold_ack_same [simp]:
  "sg_len (fold (\<lambda>p s. ack_seg s p) ps seg) = sg_len seg" "sg_conv (fold (\<lambda>p s. ack_seg s p) ps seg) = sg_conv seg"
  "sg_wnd (fold (\<lambda>p s. ack_seg s p) ps seg) = sg_wnd seg"
  by (induction ps arbitrary: seg) simp_all

lemma flush_head_same [simp]:
  "sg_len (flush_head kcp) = 0" "sg_conv (flush_head kcp) = conv kcp" "sg_cmd (flush_head kcp) = IKCP_CMD_ACK"
  "sg_wnd (flush_head kcp) = ikcp_wnd_unused kcp"
  by (simp_all add: flush_head_def)

lemma ready_fits:
  assumes "flush_inv kcp"
  shows "\<forall>seg \<in> set (snd_buf (flush_ready kcp)) \<union> set (snd_queue (flush_ready kcp)). seg_fits kcp seg"
    and "\<forall>seg \<in> set (snd_buf (flush_ready kcp)). seg_queued kcp seg"
proof -
  have gen: "(\<forall>seg \<in> set (snd_buf (flush_move cw w q k)) \<union> set (snd_queue (flush_move cw w q k)). seg_fits kcp seg)
      \<and> (\<forall>seg \<in> set (snd_buf (flush_move cw w q k)). seg_queued kcp seg)"
    if "\<forall>seg \<in> set q \<union> set (snd_buf k). seg_fits kcp seg" "\<forall>seg \<in> set (snd_buf k). seg_queued kcp seg" "conv k = conv kcp"
    for cw w q k
    using that
  proof (induction q arbitrary: k)
    case (Cons seg q)
    obtain new where n: "snd_buf (flush_enter w seg k) = snd_buf k @ [new]" "sg_len new = sg_len seg"
      "sg_data new = sg_data seg" "sg_conv new = conv k" "sg_cmd new = IKCP_CMD_PUSH"
      by (simp add: flush_enter_def)
    have "seg_fits kcp new" "seg_queued kcp new"
      using Cons.prems(1,3) n by (simp_all add: seg_fits_def seg_queued_def)
    then have e: "\<forall>seg \<in> set q \<union> set (snd_buf (flush_enter w seg k)). seg_fits kcp seg"
      "\<forall>seg \<in> set (snd_buf (flush_enter w seg k)). seg_queued kcp seg" "conv (flush_enter w seg k) = conv kcp"
      using Cons.prems unfolding n(1) by auto
    show ?case
    proof (cases "itimediff (snd_nxt k) (snd_una k + cw) < 0")
      case True
      show ?thesis unfolding flush_move.simps if_P [OF True] by (rule Cons.IH [OF e])
    next
      case False
      then show ?thesis using Cons.prems unfolding flush_move.simps if_not_P [OF False] by (simp add: Un_commute)
    qed
  qed simp
  have "\<forall>seg \<in> set (snd_queue kcp) \<union> set (snd_buf kcp). seg_fits kcp seg" "\<forall>seg \<in> set (snd_buf kcp). seg_queued kcp seg"
    using assms by (auto simp: flush_inv_def)
  then have "\<forall>seg \<in> set (snd_queue kcp) \<union> set (snd_buf k). seg_fits kcp seg" "\<forall>seg \<in> set (snd_buf k). seg_queued kcp seg"
    "conv k = conv kcp" if "k = (flush_probe (kcp\<lparr>ackcount := 0\<rparr>))\<lparr>probe := 0\<rparr>" for k
    by (simp_all add: that)
  note gen [OF this [OF refl]]
  then show "\<forall>seg \<in> set (snd_buf (flush_ready kcp)) \<union> set (snd_queue (flush_ready kcp)). seg_fits kcp seg"
    "\<forall>seg \<in> set (snd_buf (flush_ready kcp)). seg_queued kcp seg"
    unfolding flush_ready_def Let_def flush_probe_same by simp_all
qed

lemma flush_ready_same [simp]:
  "mtu (flush_ready kcp) = mtu kcp" "conv (flush_ready kcp) = conv kcp" "mss (flush_ready kcp) = mss kcp"
  "fastresend (flush_ready kcp) = fastresend kcp"
  by (simp_all add: flush_ready_def Let_def)

lemma flush_eq:
  assumes "flush_inv kcp" "updated kcp \<noteq> 0"
  shows "\<exists>s :: flush_acc. ikcp_flush kcp = Some (pack (unat (mtu kcp)) [] (map seg_wire (flush_list kcp)),
    flush_congestion (fa_change s) (fa_lost s) (flush_resent kcp) (flush_cwnd (flush_probe (kcp\<lparr>ackcount := 0\<rparr>)))
      ((flush_ready kcp)\<lparr>snd_buf := map (touch_seg (flush_resent kcp) (ikcp_wnd_unused kcp) (flush_ready kcp)) (snd_buf (flush_ready kcp)),
        xmit := fa_xmit s, state := fa_state s\<rparr>))"
proof -
  have inv: "mtu_ok kcp" "ack_inv kcp" "unat (ackcount kcp) < 2 ^ 31" using assms(1) by (simp_all add: flush_inv_def)
  define k where "k = flush_probe (kcp\<lparr>ackcount := 0\<rparr>)"
  have mk: "mtu k = mtu kcp" by (simp add: k_def)
  define seg where "seg = fold (\<lambda>p s. ack_seg s p) (acks kcp) (flush_head kcp)"
  have "0 + nat (to_i32 (ackcount kcp)) \<le> length (acklist kcp)" using acks_flushed(2) [OF inv(2,3)] by simp
  from flush_acks_ok [OF inv(1) _ this, of "([], [])" "flush_head kcp"] obtain o1 where
    1: "flush_acks (nat (to_i32 (ackcount kcp))) 0 kcp (flush_head kcp) ([], []) = Some (seg, o1)" "out_ok kcp o1"
      "\<And>ws. packed kcp o1 ws = packed kcp ([], []) (map (ikcp_encode_seg \<circ> ack_seg (flush_head kcp)) (acks kcp) @ ws)"
    by (auto simp: acks_flushed(1) [OF inv(2,3)] out_ok_def seg_def)
  note c = packed_cong [OF mk]
  have "mtu_ok k" "out_ok k o1" using inv(1) 1(2) c by simp_all
  from flush_probes_ok [OF this, of seg] obtain o2 where
    2: "flush_probes k seg o1 = Some o2" "out_ok kcp o2" "\<And>ws. packed kcp o2 ws = packed kcp o1 (map ikcp_encode_seg
      ((if probe k AND IKCP_ASK_SEND \<noteq> 0 then [seg\<lparr>sg_cmd := IKCP_CMD_WASK\<rparr>] else [])
       @ (if probe k AND IKCP_ASK_TELL \<noteq> 0 then [seg\<lparr>sg_cmd := IKCP_CMD_WINS\<rparr>] else [])) @ ws)"
    unfolding c by blast
  define k2 where "k2 = flush_ready kcp"
  have k2: "k2 = flush_move (flush_cwnd k) (ikcp_wnd_unused kcp) (snd_queue k) (k\<lparr>probe := 0\<rparr>)"
    by (simp add: k2_def flush_ready_def k_def Let_def)
  have cw: "flush_cwnd (k\<lparr>probe := 0\<rparr>) = flush_cwnd k" by (simp add: flush_cwnd_def Let_def)
  have m2: "mtu k2 = mtu kcp" by (simp add: k2_def)
  note c2 = packed_cong [OF m2]
  let ?r = "flush_resent kcp" and ?w = "ikcp_wnd_unused kcp"
  let ?s = "\<lparr>fa_xmit = xmit k2, fa_state = state k2, fa_change = False, fa_lost = False, fa_out = o2\<rparr>"
  have "mtu_ok k2" "out_ok k2 (fa_out ?s)" "\<forall>seg \<in> set (snd_buf k2). seg_fits k2 seg"
    using inv(1) 2(2) c2 ready_fits(1) [OF assms(1)] by (simp_all add: k2_def)
  from flush_data_ok [OF this, of ?r ?w] obtain s where
    3: "flush_data ?r ?w k2 (snd_buf k2) ?s = Some (map (touch_seg ?r ?w k2) (snd_buf k2), s)"
      "\<And>ws. packed kcp (fa_out s) ws = packed kcp o2 (map seg_wire (sent_segs ?r ?w k2 (snd_buf k2)) @ ws)"
    unfolding c2 by auto
  obtain b ps where out: "fa_out s = (b, ps)" by (cases "fa_out s")
  have "packed kcp (fa_out s) [] = packed kcp ([], []) (map seg_wire (flush_list kcp))"
    unfolding 3(2) 2(3) 1(3) flush_list_def Let_def
    by (simp add: k_def [symmetric] k2_def [symmetric] seg_def [symmetric] comp_def wire_short)
      (simp add: seg_def wire_short)
  then have out2: "(if length b > 0 then ikcp_output b ps else ps) = pack (unat (mtu kcp)) [] (map seg_wire (flush_list kcp))"
    by (simp add: packed_def out ikcp_output_def split: if_splits)
  have resent: "flush_resent k2 = ?r" by (simp add: k2_def flush_resent_def)
  have wnd: "sg_wnd seg = ?w" by (simp add: seg_def)
  have "ikcp_flush kcp = Some (if length b > 0 then ikcp_output b ps else ps,
      flush_congestion (fa_change s) (fa_lost s) ?r (flush_cwnd k)
        (k2\<lparr>snd_buf := map (touch_seg ?r ?w k2) (snd_buf k2), xmit := fa_xmit s, state := fa_state s\<rparr>))"
    using assms(2) 1(1) 2(1) 3(1)
    by (simp add: ikcp_flush_def Let_def k_def [symmetric] cw k2 [symmetric] resent wnd out)
  then show ?thesis unfolding out2 k2_def k_def by blast
qed

section \<open>Properties\<close>

subsection \<open>What goes out\<close>

lemma seg_wire_nonempty [simp]: "seg_wire seg \<noteq> []"
  by (auto simp: seg_wire_def dest: arg_cong [of _ _ length])

lemma pack_groups:
  assumes "\<forall>seg \<in> set segs. length (seg_wire seg) \<le> m" "length (concat (map seg_wire begun)) \<le> m"
  shows "\<exists>groups. pack m (concat (map seg_wire begun)) (map seg_wire segs) = map (\<lambda>g. concat (map seg_wire g)) groups
    \<and> concat groups = begun @ segs
    \<and> (\<forall>g \<in> set groups. g \<noteq> [] \<and> length (concat (map seg_wire g)) \<le> m)"
  using assms
proof (induction segs arbitrary: begun)
  case Nil
  have "concat (map seg_wire begun) = [] \<longleftrightarrow> begun = []" by (cases begun) simp_all
  then show ?case using Nil by (intro exI [of _ "if begun = [] then [] else [begun]"]) simp
next
  case (Cons seg segs)
  have e: "concat (map seg_wire begun) = [] \<longleftrightarrow> begun = []" by (cases begun) simp_all
  show ?case
  proof (cases "length (concat (map seg_wire begun)) + length (seg_wire seg) > m")
    case True
    from Cons.IH [of "[seg]"] Cons.prems(1) obtain groups where
      "pack m (seg_wire seg) (map seg_wire segs) = map (\<lambda>g. concat (map seg_wire g)) groups" "concat groups = seg # segs"
      "\<forall>g \<in> set groups. g \<noteq> [] \<and> length (concat (map seg_wire g)) \<le> m" by auto
    then show ?thesis using True Cons.prems(2) e
      by (intro exI [of _ "(if begun = [] then [] else [begun]) @ groups"]) simp
  next
    case False
    then have "length (concat (map seg_wire (begun @ [seg]))) \<le> m" by simp
    from Cons.IH [OF _ this] Cons.prems(1) False show ?thesis by simp
  qed
qed

lemma flush_list_sendable:
  assumes "flush_inv kcp" "seg \<in> set (flush_list kcp)"
  shows "seg_sendable (conv kcp) seg" "unat (sg_len seg) + 24 \<le> unat (mtu kcp)"
proof -
  have m: "24 \<le> unat (mtu kcp)" "unat (mtu kcp) < 2 ^ 31" using assms(1) by (simp_all add: flush_inv_def mtu_ok_def)
  have "seg_sendable (conv kcp) seg \<and> unat (sg_len seg) + 24 \<le> unat (mtu kcp)"
  proof (cases "seg \<in> set (sent_segs (flush_resent kcp) (ikcp_wnd_unused kcp) (flush_ready kcp) (snd_buf (flush_ready kcp)))")
    case True
    then obtain s where s: "s \<in> set (snd_buf (flush_ready kcp))" "sg_len seg = sg_len s" "sg_data seg = sg_data s"
      "sg_conv seg = sg_conv s" "sg_cmd seg = sg_cmd s"
      by (auto simp: sent_segs_def touch_seg_def stamp_seg_def count_send_def Let_def split: send_reason.splits)
    have "seg_fits kcp s" "seg_queued kcp s" using ready_fits [OF assms(1)] s(1) by blast+
    then show ?thesis using m s
      by (auto simp: seg_fits_def seg_queued_def seg_sendable_def known_cmd_def ikcp_cmds)
  next
    case False
    then have "sg_len seg = 0" "sg_conv seg = conv kcp" "sg_cmd seg \<in> {IKCP_CMD_ACK, IKCP_CMD_WASK, IKCP_CMD_WINS}"
      using assms(2) unfolding flush_list_def Let_def by (auto split: if_splits)
    then show ?thesis using m by (auto simp: seg_sendable_def known_cmd_def ikcp_cmds)
  qed
  then show "seg_sendable (conv kcp) seg" "unat (sg_len seg) + 24 \<le> unat (mtu kcp)" by blast+
qed

lemma frames_wires:
  "\<forall>seg \<in> set segs. seg_sendable cv seg \<Longrightarrow> kcp_frames cv (concat (map seg_wire segs)) = (map seg_frame segs, 0)"
proof (induction segs)
  case Nil
  show ?case by (simp add: kcp_frames.simps)
qed (simp add: frames_cons)

text \<open>
  C19. A flush is defined and puts out exactly what it should: no write leaves the buffer; every
  packet is at most \<open>mtu\<close> bytes and not empty; and a receiver that takes the packets apart, one after
  the other, finds each well-formed and sees, in order, one acknowledgement for every pending one,
  the probes, and the segments of the window that are new, timed out or passed over often enough.
\<close>

theorem kcp_flush_packets:
  assumes "flush_inv kcp" "updated kcp \<noteq> 0"
  shows "\<exists>packets kcp'. ikcp_flush kcp = Some (packets, kcp')
    \<and> (\<forall>p \<in> set packets. 0 < length p \<and> length p \<le> unat (mtu kcp) \<and> snd (kcp_frames (conv kcp) p) = 0)
    \<and> concat (map (\<lambda>p. fst (kcp_frames (conv kcp) p)) packets) = map seg_frame (flush_list kcp)"
proof -
  let ?m = "unat (mtu kcp)"
  have w: "\<forall>seg \<in> set (flush_list kcp). length (seg_wire seg) \<le> ?m"
    using flush_list_sendable [OF assms(1)] by (simp add: length_seg_wire seg_sendable_def add.commute)
  from pack_groups [OF w, of "[]"] obtain groups where
    g: "pack ?m [] (map seg_wire (flush_list kcp)) = map (\<lambda>g. concat (map seg_wire g)) groups" "concat groups = flush_list kcp"
      "\<forall>g \<in> set groups. g \<noteq> [] \<and> length (concat (map seg_wire g)) \<le> ?m" by auto
  have f: "kcp_frames (conv kcp) (concat (map seg_wire g)) = (map seg_frame g, 0)" if "g \<in> set groups" for g
  proof -
    have "set g \<subseteq> set (flush_list kcp)" using that g(2) by (metis UN_upper set_concat)
    then show ?thesis using flush_list_sendable(1) [OF assms(1)] by (intro frames_wires) blast
  qed
  have "0 < length (concat (map seg_wire g))" if "g \<in> set groups" for g
    using g(3) that by (cases g) auto
  moreover have "concat (map (\<lambda>g. fst (kcp_frames (conv kcp) (concat (map seg_wire g)))) groups) = map seg_frame (concat groups)"
    using f by (simp add: map_concat cong: map_cong)
  ultimately show ?thesis using flush_eq [OF assms] g f
    by (auto simp: comp_def)
qed

definition example_sender :: ikcpcb where
  "example_sender = (ikcp_create 7)\<lparr>updated := 1, cwnd := 1, nsnd_que := 2,
     snd_queue := [(ikcp_segment_new [1, 2])\<lparr>sg_frg := 1\<rparr>, ikcp_segment_new [3]]\<rparr>"

lemma example_sender:
  "flush_inv example_sender" "updated example_sender \<noteq> 0" "conv example_sender = 7"
  "snd_nxt example_sender = snd_una example_sender + of_nat 0" "flush_cwnd example_sender = 1"
  by (simp_all add: example_sender_def flush_inv_def ikcp_create_def mtu_ok_def IKCP_MTU_DEF_def ack_inv_def seg_fits_def
    ikcp_segment_new_def flush_cwnd_def imin_def IKCP_WND_SND_def IKCP_WND_RCV_def)

lemmas example_sender_eval = example_sender_def ikcp_create_def flush_list_def acks_def flush_ready_def flush_probe_def
  IKCP_WND_SND_def IKCP_WND_RCV_def flush_cwnd_def imin_def itimediff_def flush_enter_def sent_segs_def send_reason_def

theorem kcp_flush_packets_witness:
  "\<exists>packets kcp' f. ikcp_flush example_sender = Some (packets, kcp')
    \<and> concat (map (\<lambda>p. fst (kcp_frames 7 p)) packets) = [f] \<and> snd f = [1, 2] \<and> h_sn (fst f) = 0"
proof -
  have "\<exists>seg. flush_list example_sender = [seg] \<and> snd (seg_frame seg) = [1, 2] \<and> sg_sn seg = 0"
    by (simp add: example_sender_eval Let_def touch_seg_def stamp_seg_def count_send_def seg_frame_def
        ikcp_segment_new_def)
  then obtain seg where "flush_list example_sender = [seg]" "snd (seg_frame seg) = [1, 2]" "sg_sn seg = 0" by blast
  with kcp_flush_packets [OF example_sender(1,2)] show ?thesis
    unfolding example_sender(3) by (auto simp: seg_frame_def)
qed

subsection \<open>The window\<close>

lemma touch_same [simp]:
  "seg_content (touch_seg r w k seg) = seg_content seg" "sg_sn (touch_seg r w k seg) = sg_sn seg"
  "seg_fits kcp (touch_seg r w k seg) = seg_fits kcp seg" "seg_queued kcp (touch_seg r w k seg) = seg_queued kcp seg"
  by (auto simp: touch_seg_def count_send_def stamp_seg_def seg_content_def seg_fits_def seg_queued_def Let_def
    split: send_reason.split)

lemma flush_cwnd_same: "flush_cwnd (flush_probe (kcp\<lparr>ackcount := 0\<rparr>)) = flush_cwnd kcp"
  by (simp add: flush_cwnd_def Let_def)

lemma flush_probe_acks [simp]:
  "acklist (flush_probe kcp) = acklist kcp" "ackblock (flush_probe kcp) = ackblock kcp"
  "ackcount (flush_probe kcp) = ackcount kcp"
  by (simp_all add: flush_probe_def Let_def)

lemma flush_ready_acks [simp]:
  "acklist (flush_ready kcp) = acklist kcp" "ackblock (flush_ready kcp) = ackblock kcp"
  "ackcount (flush_ready kcp) = 0" "snd_una (flush_ready kcp) = snd_una kcp"
  by (simp_all add: flush_ready_def Let_def)

text \<open>
  C20. The send window: a flush moves the first \<open>n\<close> messages of the queue to the segments in flight
  and gives them the next \<open>n\<close> numbers; nothing is lost, reordered or altered on the way, and older
  segments keep their numbers and contents. Afterwards either the queue is empty or the window is
  full, and a window that was not overfull before is not overfull now; all pending acknowledgements
  are gone and the sender is well-formed again.
\<close>

theorem kcp_flush_window:
  assumes "flush_inv kcp" "updated kcp \<noteq> 0"
    and "f < 2 ^ 31" "unat (flush_cwnd kcp) < 2 ^ 31" "snd_nxt kcp = snd_una kcp + of_nat f"
  shows "\<exists>packets kcp' n. ikcp_flush kcp = Some (packets, kcp') \<and> n \<le> length (snd_queue kcp)
    \<and> snd_queue kcp' = drop n (snd_queue kcp)
    \<and> map seg_content (snd_buf kcp') = map seg_content (snd_buf kcp @ take n (snd_queue kcp))
    \<and> map sg_sn (snd_buf kcp') = map sg_sn (snd_buf kcp) @ map (\<lambda>i. snd_nxt kcp + of_nat i) [0..<n]
    \<and> snd_una kcp' = snd_una kcp \<and> snd_nxt kcp' = snd_una kcp + of_nat (f + n)
    \<and> f + n \<le> max f (unat (flush_cwnd kcp)) \<and> (snd_queue kcp' = [] \<or> unat (flush_cwnd kcp) \<le> f + n)
    \<and> ackcount kcp' = 0 \<and> flush_inv kcp'"
proof -
  obtain s :: flush_acc where s: "ikcp_flush kcp = Some (pack (unat (mtu kcp)) [] (map seg_wire (flush_list kcp)),
    flush_congestion (fa_change s) (fa_lost s) (flush_resent kcp) (flush_cwnd (flush_probe (kcp\<lparr>ackcount := 0\<rparr>)))
      ((flush_ready kcp)\<lparr>snd_buf := map (touch_seg (flush_resent kcp) (ikcp_wnd_unused kcp) (flush_ready kcp)) (snd_buf (flush_ready kcp)),
        xmit := fa_xmit s, state := fa_state s\<rparr>))" (is "_ = Some (_, ?kcp')")
    using flush_eq [OF assms(1,2)] by blast
  define k where "k = (flush_probe (kcp\<lparr>ackcount := 0\<rparr>))\<lparr>probe := 0\<rparr>"
  have k: "snd_nxt k = snd_una k + of_nat f" "snd_una k = snd_una kcp" "snd_nxt k = snd_nxt kcp" "snd_buf k = snd_buf kcp"
    using assms(5) by (simp_all add: k_def)
  have r: "flush_ready kcp = flush_move (flush_cwnd kcp) (ikcp_wnd_unused kcp) (snd_queue kcp) k"
    by (simp add: flush_ready_def k_def flush_cwnd_same Let_def)
  from flush_move_enters [OF assms(3,4) k(1), of "ikcp_wnd_unused kcp" "snd_queue kcp"] obtain entered n where
    E: "snd_buf (flush_ready kcp) = snd_buf kcp @ entered" "n = length entered" "n \<le> length (snd_queue kcp)"
      "snd_queue (flush_ready kcp) = drop n (snd_queue kcp)"
      "map seg_content entered = map seg_content (take n (snd_queue kcp))"
      "map sg_sn entered = map (\<lambda>i. snd_nxt kcp + of_nat i) [0..<n]"
      "snd_nxt (flush_ready kcp) = snd_una kcp + of_nat (f + n)"
      "f + n \<le> max f (unat (flush_cwnd kcp))" "n = length (snd_queue kcp) \<or> unat (flush_cwnd kcp) \<le> f + n"
    unfolding r [symmetric] k(2-4) by blast
  have "flush_inv ?kcp'"
  proof -
    have c: "seg_fits ?kcp' = seg_fits kcp" "seg_queued ?kcp' = seg_queued kcp" "mtu_ok ?kcp' = mtu_ok kcp"
      by (simp_all add: seg_fits_def seg_queued_def mtu_ok_def fun_eq_iff)
    have "ack_inv kcp" "mtu_ok kcp" using assms(1) by (simp_all add: flush_inv_def)
    then have "ack_inv ?kcp'" by (simp add: ack_inv_def)
    with \<open>mtu_ok kcp\<close> show ?thesis
      unfolding flush_inv_def c using ready_fits [OF assms(1)] by auto
  qed
  moreover have "drop n (snd_queue kcp) = [] \<or> unat (flush_cwnd kcp) \<le> f + n" using E(9) by auto
  ultimately show ?thesis unfolding s
    by (intro exI [of _ "pack (unat (mtu kcp)) [] (map seg_wire (flush_list kcp))"] exI [of _ ?kcp'] exI [of _ n])
      (use E(1-8) in \<open>simp add: comp_def\<close>)
qed

theorem kcp_flush_window_witness:
  "\<exists>packets kcp'. ikcp_flush example_sender = Some (packets, kcp') \<and> snd_nxt kcp' = 1 \<and> length (snd_queue kcp') = 1"
proof -
  have q: "length (snd_queue example_sender) = 2" "snd_una example_sender = 0"
    by (simp_all add: example_sender_def ikcp_create_def)
  have c: "unat (flush_cwnd example_sender) = 1" by (simp add: example_sender(5))
  then have "(0 :: nat) < 2 ^ 31" "unat (flush_cwnd example_sender) < 2 ^ 31" by simp_all
  from kcp_flush_window [OF example_sender(1,2) this example_sender(4)] obtain packets kcp' n where
    "ikcp_flush example_sender = Some (packets, kcp')" "snd_queue kcp' = drop n (snd_queue example_sender)"
    "snd_nxt kcp' = 0 + of_nat (0 + n)" "0 + n \<le> max 0 1" "snd_queue kcp' = [] \<or> 1 \<le> 0 + n"
    unfolding c q(2) by blast
  then show ?thesis using q(1) by (cases "n = 1") auto
qed

subsection \<open>A smaller unit\<close>

lemma flush_move_keeps: "\<exists>entered. snd_buf (flush_move cw w q kcp) = snd_buf kcp @ entered"
proof (induction q arbitrary: kcp)
  case (Cons seg q)
  show ?case using Cons.IH [of "flush_enter w seg kcp"] by (auto simp: flush_enter_def)
qed simp

lemma flush_seg_overflow:
  assumes "buffer_size kcp < 24 + unat (sg_len seg)"
  shows "flush_seg seg kcp ([], []) = None"
proof -
  have "make_room need kcp ([], []) = ([], [])" for need by (simp add: make_room_def ikcp_output_def)
  moreover have "0 < sg_len seg \<or> buffer_size kcp < 24"
    using assms by (cases "sg_len seg = 0") (simp_all add: word_gt_0)
  moreover have "unat (sg_len seg) \<le> length (sg_data seg) \<Longrightarrow> length (take (unat (sg_len seg)) (sg_data seg)) = unat (sg_len seg)"
    by simp
  ultimately show ?thesis using assms
    by (auto simp: flush_seg_def put_bytes_def guard_opt_def Let_def split: Option.bind_split)
qed

text \<open>
  C21. \<open>ikcp_setmtu\<close> is not safe on a connection with segments under way: it replaces the buffer by
  one of \<open>3 * (m + 24)\<close> bytes but leaves the segments as they are, cut for the old unit, and the
  next flush that sends a segment longer than the new buffer writes behind its end. Segments that
  fit the new unit are no problem: the state is well-formed again.
\<close>

theorem kcp_setmtu_overflow:
  assumes "50 \<le> m" "m < 2 ^ 30" "ikcp_setmtu True m kcp = (r, kcp1)" "updated kcp \<noteq> 0"
    and "ackcount kcp = 0" "probe kcp = 0" "rmt_wnd kcp \<noteq> 0"
    and "snd_buf kcp = seg # segs" "sg_xmit seg = 0 \<or> itimediff (current kcp) (sg_resendts seg) \<ge> 0"
    and "3 * (nat m + 24) < unat (sg_len seg) + 24"
    and "flush_inv kcp0" "\<forall>seg \<in> set (snd_queue kcp0) \<union> set (snd_buf kcp0). unat (sg_len seg) + 24 \<le> nat m"
  shows "r = 0 \<and> ikcp_flush kcp1 = None \<and> flush_inv (snd (ikcp_setmtu True m kcp0))"
proof -
  have "\<not> (m < 50 \<or> m < to_i32 IKCP_OVERHEAD)" using assms(1) by (simp add: to_i32_def IKCP_OVERHEAD_def)
  note set_eq = if_not_P [OF this]
  have set: "ikcp_setmtu True m k = (0, k\<lparr>mtu := to_u32 m, mss := to_u32 m - IKCP_OVERHEAD\<rparr>)" for k
    unfolding ikcp_setmtu_def set_eq by simp
  then have kcp1: "r = 0" "kcp1 = kcp\<lparr>mtu := to_u32 m, mss := to_u32 m - IKCP_OVERHEAD\<rparr>" using assms(3) by simp_all
  have um: "unat (to_u32 m) = nat m"
  proof -
    have "to_u32 m = of_nat (nat m)" using assms(1) by (simp add: to_u32_def)
    moreover have "unat (of_nat (nat m) :: u32) = nat m" by (rule unat_of_nat32) (use assms(2) in simp)
    ultimately show ?thesis by simp
  qed
  have ok: "mtu_ok (k\<lparr>mtu := to_u32 m, mss := u\<rparr>)" for k :: ikcpcb and u
    using assms(1,2) by (simp add: mtu_ok_def um nat_less_iff zless_nat_eq_int_zless)
  have "flush_inv (snd (ikcp_setmtu True m kcp0))"
    using assms(11,12) ok unfolding set
    by (auto simp: flush_inv_def seg_fits_def ack_inv_def um seg_queued_def)
  moreover have "ikcp_flush kcp1 = None"
  proof -
    have k: "updated kcp1 \<noteq> 0" "ackcount kcp1 = 0" "probe kcp1 = 0" "rmt_wnd kcp1 \<noteq> 0" "snd_buf kcp1 = seg # segs"
      "current kcp1 = current kcp" "mtu_ok kcp1" "mtu kcp1 = to_u32 m"
      using assms(4-8) ok unfolding kcp1(2) by simp_all
    define k2 where "k2 = kcp1\<lparr>ackcount := 0, ts_probe := 0, probe_wait := 0, probe := 0\<rparr>"
    define k3 where "k3 = flush_move (flush_cwnd k2) (ikcp_wnd_unused kcp1) (snd_queue k2) k2"
    obtain more where b: "snd_buf k3 = seg # more"
      using flush_move_keeps [of "flush_cwnd k2" "ikcp_wnd_unused kcp1" "snd_queue k2" k2] k(5)
      by (auto simp: k3_def k2_def)
    have "buffer_size k3 = (nat m + 24) * 3"
      using mtu_okD(2) [OF k(7)] um k(8) by (simp add: k3_def k2_def buffer_size_def)
    then have ov: "flush_seg s k3 ([], []) = None" if "sg_len s = sg_len seg" for s
      using assms(10) that by (intro flush_seg_overflow) simp
    have "send_reason r k3 seg \<noteq> No_send" for r
      using assms(9) k(6) by (auto simp: send_reason_def k3_def k2_def)
    moreover have "sg_len (stamp_seg w k3 (count_send why k3 seg)) = sg_len seg" for w why
      by (simp add: stamp_seg_def count_send_def Let_def split: send_reason.split)
    ultimately have none: "flush_data r w k3 (seg # more) (s\<lparr>fa_out := ([], [])\<rparr>) = None" for r w and s :: flush_acc
      using ov by (simp add: Let_def)
    have "flush_probe (kcp1\<lparr>ackcount := 0\<rparr>) = k2\<lparr>probe := probe kcp1\<rparr>" using k(4) by (simp add: flush_probe_def k2_def)
    then have p: "flush_probe (kcp1\<lparr>ackcount := 0\<rparr>) = k2" using k(3) by (simp add: k2_def)
    have q: "k2\<lparr>probe := 0\<rparr> = k2" "probe k2 = 0" by (simp_all add: k2_def)
    have "ikcp_flush kcp1 = Option.bind (flush_data (flush_resent k3) (ikcp_wnd_unused kcp1) k3 (snd_buf k3)
        \<lparr>fa_xmit = xmit k3, fa_state = state k3, fa_change = False, fa_lost = False, fa_out = ([], [])\<rparr>)
      (\<lambda>(segs, s). let kcp = k3\<lparr>snd_buf := segs, xmit := fa_xmit s, state := fa_state s\<rparr>; (buf, packets) = fa_out s;
        packets = (if length buf > 0 then ikcp_output buf packets else packets) in
        Some (packets, flush_congestion (fa_change s) (fa_lost s) (flush_resent k3) (flush_cwnd k2) kcp))"
      using k(1,2) by (simp add: ikcp_flush_def p q flush_probes_def k3_def [symmetric] Let_def to_i32_def)
    also have "\<dots> = None"
      unfolding b using none [of _ _ "\<lparr>fa_xmit = xmit k3, fa_state = state k3, fa_change = False, fa_lost = False, fa_out = ([], [])\<rparr>"]
      by simp
    finally show ?thesis .
  qed
  ultimately show ?thesis using kcp1(1) by simp
qed

theorem kcp_setmtu_overflow_witness:
  "\<exists>kcp. snd_buf kcp = [ikcp_segment_new (replicate 1000 1)] \<and> ikcp_setmtu True 50 kcp = (0, snd (ikcp_setmtu True 50 kcp))
     \<and> ikcp_flush (snd (ikcp_setmtu True 50 kcp)) = None"
proof -
  define kcp where "kcp = (ikcp_create 7)\<lparr>updated := 1, snd_buf := [ikcp_segment_new (replicate 1000 1)]\<rparr>"
  let ?seg = "ikcp_segment_new (replicate 1000 1)"
  have k: "updated kcp \<noteq> 0" "ackcount kcp = 0" "probe kcp = 0" "rmt_wnd kcp \<noteq> 0" "snd_buf kcp = ?seg # []"
    "sg_xmit ?seg = 0 \<or> itimediff (current kcp) (sg_resendts ?seg) \<ge> 0"
    "3 * (nat 50 + 24) < unat (sg_len ?seg) + 24"
    by (simp_all add: kcp_def ikcp_create_def IKCP_WND_RCV_def ikcp_segment_new_def)
  have i: "flush_inv (ikcp_create 7)"
    "\<forall>seg \<in> set (snd_queue (ikcp_create 7)) \<union> set (snd_buf (ikcp_create 7)). unat (sg_len seg) + 24 \<le> nat 50"
    by (simp_all add: flush_inv_def ikcp_create_def mtu_ok_def ack_inv_def IKCP_MTU_DEF_def)
  obtain r kcp1 where s: "ikcp_setmtu True 50 kcp = (r, kcp1)" by (metis prod.exhaust)
  from kcp_setmtu_overflow [OF _ _ s k i] s have "ikcp_setmtu True 50 kcp = (0, snd (ikcp_setmtu True 50 kcp))
    \<and> ikcp_flush (snd (ikcp_setmtu True 50 kcp)) = None" by simp
  then show ?thesis using k(5) by blast
qed

subsection \<open>The clock\<close>

text \<open>Whether a call of \<open>ikcp_update\<close> flushes.\<close>

definition flush_due :: "u32 \<Rightarrow> ikcpcb \<Rightarrow> bool" where
  "flush_due now kcp \<longleftrightarrow> updated kcp = 0 \<or> itimediff now (ts_flush kcp) \<ge> 0 \<or> itimediff now (ts_flush kcp) < - 10000"

lemma flush_same:
  assumes "ikcp_flush kcp = Some (packets, kcp')"
  shows "ts_flush kcp' = ts_flush kcp \<and> updated kcp' = updated kcp \<and> interval kcp' = interval kcp"
proof -
  have "ts_flush (flush_probe k) = ts_flush k \<and> updated (flush_probe k) = updated k \<and> interval (flush_probe k) = interval k" for k
    by (simp add: flush_probe_def Let_def)
  then show ?thesis using assms by (auto simp: ikcp_flush_def Let_def split: if_splits prod.splits)
qed

text \<open>The time of the next flush, after a flush at time \<open>now\<close>.\<close>

definition next_flush :: "u32 \<Rightarrow> ikcpcb \<Rightarrow> u32" where
  "next_flush now kcp = (let slap = itimediff now (ts_flush kcp) in
     if updated kcp = 0 \<or> slap \<ge> 10000 \<or> slap < - 10000 \<or> itimediff now (ts_flush kcp + interval kcp) \<ge> 0
     then now + interval kcp else ts_flush kcp + interval kcp)"

lemma update_flushes:
  assumes "0 < unat (interval kcp)" "unat (interval kcp) \<le> 5000" "flush_due now kcp"
  shows "ikcp_update now kcp = ikcp_flush (kcp\<lparr>current := now, updated := (if updated kcp = 0 then 1 else updated kcp),
    ts_flush := next_flush now kcp\<rparr>)"
proof -
  have i: "itimediff now (now + interval kcp) < 0"
  proof -
    have "unat (now + interval kcp - now) = unat (interval kcp)" by simp
    moreover have "dist (now + interval kcp) now = 2 ^ 32 - unat (interval kcp)"
      using assms(1) by (subst dist_rev) (auto simp: dist_def unat_gt_0)
    ultimately have "itimediff now (now + interval kcp) = - int (unat (interval kcp))"
    proof -
      have "\<not> 4294967296 - unat (interval kcp) < (2147483648 :: nat)" using assms(2) by linarith
      moreover have "int (4294967296 - unat (interval kcp)) = 4294967296 - int (unat (interval kcp))"
        using assms(2) by (simp add: of_nat_diff)
      ultimately show ?thesis
        using \<open>dist (now + interval kcp) now = 2 ^ 32 - unat (interval kcp)\<close> unfolding itimediff_dist by simp
    qed
    then show ?thesis using assms(1) by linarith
  qed
  have "updated kcp = 0 \<Longrightarrow> kcp\<lparr>current := now, updated := 1, ts_flush := x\<rparr> = kcp\<lparr>current := now, updated := 1, ts_flush := x\<rparr>" for x
    by simp
  moreover have "updated kcp \<noteq> 0 \<Longrightarrow> kcp\<lparr>current := now, updated := updated kcp, ts_flush := x\<rparr> = kcp\<lparr>current := now, ts_flush := x\<rparr>" for x
    by simp
  ultimately show ?thesis
    using i assms(3) by (auto simp: ikcp_update_def next_flush_def flush_due_def Let_def)
qed

lemma next_flush_dist:
  assumes "0 < unat (interval kcp)" "unat (interval kcp) \<le> 5000" "flush_due now kcp"
  shows "0 < dist now (next_flush now kcp)" "dist now (next_flush now kcp) \<le> unat (interval kcp)"
proof -
  have "0 < dist now (next_flush now kcp) \<and> dist now (next_flush now kcp) \<le> unat (interval kcp)"
  proof (cases "next_flush now kcp = now + interval kcp")
    case True
    then show ?thesis using assms(1) by (simp add: dist_def)
  next
    case False
    let ?ts = "ts_flush kcp"
    define e where "e = dist ?ts now"
    have n: "next_flush now kcp = ?ts + interval kcp" "itimediff now ?ts < 10000" "itimediff now (?ts + interval kcp) < 0"
      "0 \<le> itimediff now ?ts"
      using False assms(3) by (auto simp: next_flush_def flush_due_def Let_def split: if_splits)
    have e: "e < 10000" using n(2,4) itimediff_nonneg [of now ?ts] by (simp add: itimediff_dist e_def split: if_splits)
    have ti: "dist ?ts (?ts + interval kcp) = unat (interval kcp)" by (simp add: dist_def)
    have lt: "e < unat (interval kcp)"
    proof (rule ccontr)
      assume "\<not> e < unat (interval kcp)"
      then have "dist (?ts + interval kcp) now = e - unat (interval kcp)"
        unfolding e_def using ti by (subst dist_sub [of ?ts]) simp_all
      then show False using n(3) e by (simp add: itimediff_dist split: if_splits)
    qed
    then have "dist now (?ts + interval kcp) = unat (interval kcp) - e"
      unfolding e_def using ti by (subst dist_sub [of ?ts]) simp_all
    then show ?thesis using lt n(1) by simp
  qed
  then show "0 < dist now (next_flush now kcp)" "dist now (next_flush now kcp) \<le> unat (interval kcp)" by blast+
qed

lemma due_after:
  assumes "dist now (ts_flush kcp) = e" "e \<le> 10000" "d < 2 ^ 31" "updated kcp \<noteq> 0"
  shows "flush_due (now + of_nat d) kcp \<longleftrightarrow> e \<le> d"
proof -
  have d: "dist now (now + of_nat d) = d" using assms(3) by (simp add: dist_def unat_of_nat32)
  show ?thesis
  proof (cases "e \<le> d")
    case True
    then have "dist (ts_flush kcp) (now + of_nat d) = d - e"
      using dist_sub [of now "ts_flush kcp" "now + of_nat d"] d assms(1) by simp
    moreover have "d - e < 2 ^ 31" using assms(3) by linarith
    ultimately show ?thesis using True by (simp add: flush_due_def itimediff_nonneg)
  next
    case False
    then have "dist (now + of_nat d) (ts_flush kcp) = e - d"
      using dist_sub [of now "now + of_nat d" "ts_flush kcp"] d assms(1) by simp
    moreover have "now + of_nat d \<noteq> ts_flush kcp" using False d assms(1) by auto
    ultimately have "dist (ts_flush kcp) (now + of_nat d) = 2 ^ 32 - (e - d)" using dist_rev by metis
    then have "itimediff (now + of_nat d) (ts_flush kcp) = - int (e - d)"
      using False assms(2) unfolding itimediff_dist by simp
    then show ?thesis using False assms(2,4) by (simp add: flush_due_def)
  qed
qed

text \<open>
  C22. The clock keeps going: a call of \<open>ikcp_update\<close> at a time when a flush is due flushes at that
  time and sets the next one at most an interval later, whatever happened before (a first call, a
  clock that jumped in either direction, calls that came late); a later call flushes exactly when
  that time has come, so every call at least an interval after a flush flushes again; a call
  before that only notes the time. The clock wraps around.
\<close>

theorem kcp_update_period:
  assumes "0 < unat (interval kcp)" "unat (interval kcp) \<le> 5000" "flush_due now kcp"
    and "ikcp_update now kcp = Some (packets, kcp')"
    and "\<not> flush_due later other"
  shows "\<exists>ready e. current ready = now \<and> updated ready \<noteq> 0 \<and> snd_queue ready = snd_queue kcp \<and> snd_buf ready = snd_buf kcp
      \<and> ikcp_flush ready = Some (packets, kcp')
      \<and> 0 < e \<and> e \<le> unat (interval kcp) \<and> (\<forall>d < 2 ^ 31. flush_due (now + of_nat d) kcp' \<longleftrightarrow> e \<le> d)
      \<and> ikcp_update later other = Some ([], other\<lparr>current := later\<rparr>)"
proof -
  define ready where "ready = kcp\<lparr>current := now, updated := (if updated kcp = 0 then 1 else updated kcp),
    ts_flush := next_flush now kcp\<rparr>"
  have r: "ikcp_flush ready = Some (packets, kcp')" "updated ready \<noteq> 0" "ts_flush ready = next_flush now kcp"
    "current ready = now" "snd_queue ready = snd_queue kcp" "snd_buf ready = snd_buf kcp"
    using update_flushes [OF assms(1-3)] assms(4) by (simp_all add: ready_def)
  note n = next_flush_dist [OF assms(1-3)]
  have k: "dist now (ts_flush kcp') = dist now (next_flush now kcp)" "updated kcp' \<noteq> 0"
    using flush_same [OF r(1)] r(2,3) by simp_all
  have "\<forall>d < 2 ^ 31. flush_due (now + of_nat d) kcp' \<longleftrightarrow> dist now (next_flush now kcp) \<le> d"
    using due_after [OF k(1) _ _ k(2)] n(2) assms(2) by simp
  moreover have "ikcp_update later other = Some ([], other\<lparr>current := later\<rparr>)"
    using assms(5) by (simp add: ikcp_update_def flush_due_def Let_def)
  ultimately show ?thesis using r n by blast
qed

theorem kcp_update_period_witness:
  "\<exists>packets kcp'. ikcp_update 1000 example_sender = Some (packets, kcp') \<and> flush_due 1100 kcp'"
proof -
  have i: "0 < unat (interval example_sender)" "unat (interval example_sender) \<le> 5000" "flush_due 1000 example_sender"
    "interval example_sender = 100"
    by (simp_all add: example_sender_def ikcp_create_def IKCP_INTERVAL_def flush_due_def itimediff_def)
  define ready where "ready = example_sender\<lparr>current := 1000, updated := 1, ts_flush := next_flush 1000 example_sender\<rparr>"
  have "flush_inv ready" "updated ready \<noteq> 0"
    using example_sender(1) unfolding ready_def by (simp_all add: flush_inv_def mtu_ok_def ack_inv_def seg_fits_def seg_queued_def)
  from flush_eq [OF this] have "ikcp_flush ready \<noteq> None" by auto
  moreover have "ikcp_update 1000 example_sender = ikcp_flush ready"
    unfolding update_flushes [OF i(1-3)] ready_def using example_sender(2) by (simp add: example_sender_def)
  ultimately obtain packets kcp' where u: "ikcp_update 1000 example_sender = Some (packets, kcp')" by auto
  have nd: "\<not> flush_due 50 (example_sender\<lparr>ts_flush := 100\<rparr>)"
    by (simp add: flush_due_def itimediff_def example_sender_def)
  from kcp_update_period [OF i(1-3) u nd] obtain e where
    e: "e \<le> 100" "\<forall>d < 2 ^ 31. flush_due (1000 + of_nat d) kcp' \<longleftrightarrow> e \<le> d" by (auto simp: i(4))
  from e(2) [rule_format, of 100] e(1) have "flush_due 1100 kcp'" by simp
  with u show ?thesis by blast
qed

lemma check_packets_min:
  "check_packets now segs tm = (if \<exists>seg \<in> set segs. itimediff (sg_resendts seg) now \<le> 0 then None
     else Some (Min (insert tm ((\<lambda>seg. itimediff (sg_resendts seg) now) ` set segs))))"
proof (induction segs arbitrary: tm)
  case (Cons seg segs)
  let ?d = "itimediff (sg_resendts seg) now"
  have "Min (insert (if ?d < tm then ?d else tm) ((\<lambda>seg. itimediff (sg_resendts seg) now) ` set segs))
      = Min (insert tm ((\<lambda>seg. itimediff (sg_resendts seg) now) ` set (seg # segs)))"
    by (cases "segs = []") (auto simp: min_def)
  then show ?case using Cons.IH by (simp add: Let_def)
qed simp

text \<open>
  What \<open>ikcp_check\<close> answers: \<open>now\<close> when the next call of \<open>ikcp_update\<close> flushes, and otherwise
  the least of the time to the next flush, the times to the next retransmissions and the interval;
  none of the calls it lets the caller skip would have flushed. One answer does not help: with an
  overdue segment it is \<open>now\<close> although \<open>ikcp_update\<close> does nothing before its next flush, so a
  caller that follows the advice calls again and again until then.
\<close>

theorem kcp_check_schedule:
  assumes "updated kcp \<noteq> 0" "unat (interval kcp) \<le> 5000"
  shows "(flush_due now kcp \<longrightarrow> ikcp_check kcp now = now)
    \<and> (\<not> flush_due now kcp \<longrightarrow>
        (if \<exists>seg \<in> set (snd_buf kcp). itimediff (sg_resendts seg) now \<le> 0
         then ikcp_check kcp now = now \<and> ikcp_update now kcp = Some ([], kcp\<lparr>current := now\<rparr>)
         else \<exists>d. ikcp_check kcp now = now + of_nat d
           \<and> int d = Min ({itimediff (ts_flush kcp) now, int (unat (interval kcp))}
               \<union> (\<lambda>seg. itimediff (sg_resendts seg) now) ` set (snd_buf kcp))
           \<and> (\<forall>d' < d. \<not> flush_due (now + of_nat d') kcp)))"
proof (cases "flush_due now kcp")
  case True
  then show ?thesis using assms(1) by (auto simp: ikcp_check_def flush_due_def Let_def)
next
  case False
  let ?R = "(\<lambda>seg. itimediff (sg_resendts seg) now) ` set (snd_buf kcp)"
  define e where "e = dist now (ts_flush kcp)"
  have b: "- 10000 \<le> itimediff now (ts_flush kcp)" "itimediff now (ts_flush kcp) < 0"
    using False by (auto simp: flush_due_def)
  have ne: "now \<noteq> ts_flush kcp" using b(2) by auto
  have re: "dist (ts_flush kcp) now = 2 ^ 32 - e" using dist_rev [OF ne] by (simp add: e_def)
  have e: "0 < e" "e \<le> 10000" "itimediff (ts_flush kcp) now = int e"
  proof -
    show "0 < e" using ne dist_zero [of now "ts_flush kcp"] unfolding e_def by linarith
    show "e \<le> 10000" using b re dist_less [of now "ts_flush kcp"] unfolding itimediff_dist
      by (simp add: e_def split: if_splits)
    then show "itimediff (ts_flush kcp) now = int e" unfolding itimediff_dist e_def [symmetric] by simp
  qed
  have upd: "ikcp_update now kcp = Some ([], kcp\<lparr>current := now\<rparr>)"
    using False by (simp add: ikcp_update_def flush_due_def Let_def)
  have chk: "ikcp_check kcp now = (case check_packets now (snd_buf kcp) 0x7fffffff of None \<Rightarrow> now
      | Some tm \<Rightarrow> now + (if to_u32 (if tm < int e then tm else int e) \<ge> interval kcp then interval kcp
          else to_u32 (if tm < int e then tm else int e)))"
    using assms(1) b e(3) by (simp add: ikcp_check_def Let_def split: option.split)
  show ?thesis
  proof (cases "\<exists>seg \<in> set (snd_buf kcp). itimediff (sg_resendts seg) now \<le> 0")
    case True
    then show ?thesis using False upd by (simp add: chk check_packets_min)
  next
    case none: False
    define tm where "tm = Min (insert 0x7fffffff ?R)"
    define q where "q = nat (if tm < int e then tm else int e)"
    define d where "d = min q (unat (interval kcp))"
    have "tm \<in> insert 0x7fffffff ?R" unfolding tm_def by (rule Min_in) simp_all
    then have tm: "0 < tm" using none by auto
    have q: "to_u32 (if tm < int e then tm else int e) = of_nat q" "int q = min tm (int e)"
      using tm by (simp_all add: q_def to_u32_def min_def)
    have q3: "q \<le> e" using q(2) by linarith
    have uq: "unat (of_nat q :: u32) = q" by (rule unat_of_nat32) (use q3 e(2) in simp)
    have dm: "(if of_nat q \<ge> interval kcp then interval kcp else of_nat q) = (of_nat d :: u32)"
      by (simp add: d_def min_def word_le_nat_alt uq)
    have "check_packets now (snd_buf kcp) 0x7fffffff = Some tm"
      using none unfolding check_packets_min tm_def by (simp only: if_False)
    then have "ikcp_check kcp now = now + of_nat d"
      unfolding chk by (simp only: option.case q(1) dm)
    moreover have "int d = Min ({itimediff (ts_flush kcp) now, int (unat (interval kcp))} \<union> ?R)"
    proof -
      have "int d = min (min tm (int e)) (int (unat (interval kcp)))" unfolding d_def of_nat_min q(2) ..
      moreover have "Min ({int e, int (unat (interval kcp))} \<union> ?R) = min (min tm (int e)) (int (unat (interval kcp)))"
      proof (cases "snd_buf kcp = []")
        case True
        then show ?thesis using e(2) assms(2) by (simp add: tm_def min_def)
      next
        case ne: False
        have f: "finite ?R" "?R \<noteq> {}" using ne by simp_all
        have "tm = min 0x7fffffff (Min ?R)" using f by (simp add: tm_def)
        moreover have "Min ({int e, int (unat (interval kcp))} \<union> ?R) = min (int e) (min (int (unat (interval kcp))) (Min ?R))"
          using f by simp
        ultimately show ?thesis using e(2) by (simp add: min_def)
      qed
      ultimately show ?thesis using e(3) by simp
    qed
    moreover have "\<not> flush_due (now + of_nat d') kcp" if "d' < d" for d'
      using due_after [OF e_def [symmetric] e(2) _ assms(1), of d'] that q3 e(2) by (simp add: d_def)
    ultimately show ?thesis using False none by (simp only: simp_thms if_False) blast
  qed
qed

theorem kcp_check_schedule_witness:
  "ikcp_check (example_sender\<lparr>ts_flush := 100, snd_buf := [ikcp_segment_new []]\<rparr>) 50 = 50
   \<and> ikcp_update 50 (example_sender\<lparr>ts_flush := 100, snd_buf := [ikcp_segment_new []]\<rparr>)
       = Some ([], example_sender\<lparr>ts_flush := 100, snd_buf := [ikcp_segment_new []], current := 50\<rparr>)"
proof -
  define kcp where "kcp = example_sender\<lparr>ts_flush := 100, snd_buf := [ikcp_segment_new []]\<rparr>"
  have k: "updated kcp \<noteq> 0" "unat (interval kcp) \<le> 5000" "\<not> flush_due 50 kcp"
    "\<exists>seg \<in> set (snd_buf kcp). itimediff (sg_resendts seg) 50 \<le> 0"
    by (simp_all add: kcp_def example_sender_def ikcp_create_def IKCP_INTERVAL_def flush_due_def itimediff_def ikcp_segment_new_def)
  from kcp_check_schedule [OF k(1,2), of 50] k(3,4) have
    "ikcp_check kcp 50 = 50 \<and> ikcp_update 50 kcp = Some ([], kcp\<lparr>current := 50\<rparr>)" by simp
  then show ?thesis by (simp add: kcp_def)
qed

end
