(* ===== verification/ElogData.thy ===== *)
theory ElogData
  imports Prelude
begin

text \<open>
  What the parts of the logger (\<open>frameworks/elib/easylogger\<close>) share: the configuration of
  \<open>port/elog_cfg.h\<close> and the string functions of \<open>elog_utils.c\<close>. Log text is a list of characters;
  a C string is a list without the null character.
\<close>

section \<open>Configuration\<close>

definition ELOG_LINE_BUF_SIZE :: nat where "ELOG_LINE_BUF_SIZE = 512"
definition ELOG_LINE_NUM_MAX_LEN :: nat where "ELOG_LINE_NUM_MAX_LEN = 5"
definition ELOG_FILTER_TAG_MAX_LEN :: nat where "ELOG_FILTER_TAG_MAX_LEN = 16"
definition ELOG_FILTER_KW_MAX_LEN :: nat where "ELOG_FILTER_KW_MAX_LEN = 16"
definition ELOG_FILTER_TAG_LVL_MAX_NUM :: nat where "ELOG_FILTER_TAG_LVL_MAX_NUM = 5"
definition ELOG_NEWLINE_SIGN :: string where "ELOG_NEWLINE_SIGN = [CHR 0x0A]"
definition ELOG_LVL_ASSERT :: nat where "ELOG_LVL_ASSERT = 0"
definition ELOG_LVL_ERROR :: nat where "ELOG_LVL_ERROR = 1"
definition ELOG_LVL_WARN :: nat where "ELOG_LVL_WARN = 2"
definition ELOG_LVL_INFO :: nat where "ELOG_LVL_INFO = 3"
definition ELOG_LVL_DEBUG :: nat where "ELOG_LVL_DEBUG = 4"
definition ELOG_LVL_VERBOSE :: nat where "ELOG_LVL_VERBOSE = 5"
definition ELOG_FILTER_LVL_SILENT :: nat where "ELOG_FILTER_LVL_SILENT = ELOG_LVL_ASSERT"
definition ELOG_FILTER_LVL_ALL :: nat where "ELOG_FILTER_LVL_ALL = ELOG_LVL_VERBOSE"
definition ELOG_LVL_TOTAL_NUM :: nat where "ELOG_LVL_TOTAL_NUM = 6"

text \<open>\<open>ELOG_ASYNC_OUTPUT_BUF_SIZE\<close> and \<open>ELOG_ASYNC_OUTPUT_LVL\<close>, by the names of \<open>elog_async.c\<close>.\<close>

definition OUTPUT_BUF_SIZE :: u64 where "OUTPUT_BUF_SIZE = 512 * 50"
definition OUTPUT_LVL :: nat where "OUTPUT_LVL = ELOG_LVL_DEBUG"

lemmas elog_lvls = ELOG_LVL_ASSERT_def ELOG_LVL_ERROR_def ELOG_LVL_WARN_def ELOG_LVL_INFO_def
  ELOG_LVL_DEBUG_def ELOG_LVL_VERBOSE_def ELOG_FILTER_LVL_SILENT_def ELOG_FILTER_LVL_ALL_def
  ELOG_LVL_TOTAL_NUM_def OUTPUT_LVL_def

section \<open>The string functions\<close>

text \<open>
  \<open>elog_strcpy\<close>: \<open>dst\<close> is an offset in \<open>buf\<close>; the result is the number of characters copied and the
  buffer. Storing outside the buffer is undefined.
\<close>

fun elog_strcpy :: "nat \<Rightarrow> nat \<Rightarrow> string \<Rightarrow> string \<Rightarrow> (nat \<times> string) option" where
  "elog_strcpy cur_len dst [] buf = Some (0, buf)"
| "elog_strcpy cur_len dst (c # src) buf =
     (if cur_len < ELOG_LINE_BUF_SIZE
      then do {
        buf \<leftarrow> mem_write dst [c] buf;
        (n, buf) \<leftarrow> elog_strcpy (cur_len + 1) (dst + 1) src buf;
        Some (n + 1, buf) }
      else Some (0, buf))"

text \<open>
  \<open>elog_cpyln\<close>: the first argument is what has been copied to \<open>line\<close> so far, so that
  \<open>log - newline_len\<close> points to its last characters; reading behind the log is undefined.
\<close>

fun cpyln_loop :: "string \<Rightarrow> string \<Rightarrow> nat \<Rightarrow> string option" where
  "cpyln_loop line log 0 = Some line"
| "cpyln_loop line log (Suc len) = (case log of
     [] \<Rightarrow> None
   | c # log \<Rightarrow> let line = line @ [c]; nl = length ELOG_NEWLINE_SIGN in
       if length line \<ge> nl \<and> drop (length line - nl) line = ELOG_NEWLINE_SIGN then Some line
       else cpyln_loop line log len)"

definition elog_cpyln :: "string \<Rightarrow> nat \<Rightarrow> string option" where
  "elog_cpyln log len = cpyln_loop [] log len"

definition elog_memcpy :: "string \<Rightarrow> string \<Rightarrow> nat \<Rightarrow> string option" where
  "elog_memcpy dst src n = do { d \<leftarrow> mem_read 0 n src; mem_write 0 d dst }"

section \<open>What they do\<close>

text \<open>The first line of a text, with its newline sign, or all of it.\<close>

definition first_line :: "string \<Rightarrow> string" where
  "first_line s = takeWhile (\<lambda>c. c \<noteq> CHR 0x0A) s @ (if CHR 0x0A \<in> set s then [CHR 0x0A] else [])"

lemma first_line_Cons: "first_line (c # s) = (if c = CHR 0x0A then [c] else c # first_line s)"
  by (simp add: first_line_def)

lemma first_line_nil [simp]: "first_line [] = []"
  by (simp add: first_line_def)

lemma first_line_prefix: "\<exists>rest. s = first_line s @ rest"
  by (induction s) (auto simp: first_line_Cons)

lemma first_line_nonempty: "first_line s = [] \<longleftrightarrow> s = []"
  by (cases s) (auto simp: first_line_Cons)

lemma first_line_take:
  "first_line (take n s) = (if length (first_line s) \<le> n then first_line s else take n s)"
  "n < length (first_line s) \<Longrightarrow> first_line s = take n s @ first_line (drop n s)"
  "take (length (first_line s)) s = first_line s"
proof -
  show "first_line (take n s) = (if length (first_line s) \<le> n then first_line s else take n s)"
    by (induction s arbitrary: n) (auto simp: first_line_Cons take_Cons split: nat.split)
  show "n < length (first_line s) \<Longrightarrow> first_line s = take n s @ first_line (drop n s)"
    by (induction s arbitrary: n) (auto simp: first_line_Cons take_Cons drop_Cons split: nat.split if_splits)
  show "take (length (first_line s)) s = first_line s"
    by (induction s) (auto simp: first_line_Cons)
qed

lemma cpyln_loop_ok:
  assumes "n \<le> length log"
  shows "cpyln_loop line log n = Some (line @ first_line (take n log))"
  using assms
proof (induction n arbitrary: log line)
  case (Suc n)
  then obtain c log' where log: "log = c # log'" "n \<le> length log'" by (cases log) auto
  then show ?case using Suc.IH [of log' "line @ [c]"]
    by (simp add: Let_def ELOG_NEWLINE_SIGN_def first_line_Cons)
qed simp

lemma elog_cpyln_ok: "n \<le> length log \<Longrightarrow> elog_cpyln log n = Some (first_line (take n log))"
  by (simp add: elog_cpyln_def cpyln_loop_ok)

lemma elog_strcpy_ok:
  assumes "length buf = ELOG_LINE_BUF_SIZE" "n \<le> ELOG_LINE_BUF_SIZE"
  shows "elog_strcpy n n src buf = (let k = min (length src) (ELOG_LINE_BUF_SIZE - n) in
    Some (k, mem_put n (take k src) buf))"
  using assms
proof (induction src arbitrary: n buf)
  case (Cons c src)
  show ?case
  proof (cases "n < ELOG_LINE_BUF_SIZE")
    case True
    let ?buf = "mem_put n [c] buf"
    have b: "length ?buf = ELOG_LINE_BUF_SIZE" using True Cons.prems(1) by (simp add: length_mem_put)
    let ?k = "min (length src) (ELOG_LINE_BUF_SIZE - Suc n)"
    have k: "min (length (c # src)) (ELOG_LINE_BUF_SIZE - n) = Suc ?k" using True by simp
    have "mem_put (Suc n) (take ?k src) ?buf = mem_put n (c # take ?k src) buf"
      using True Cons.prems(1) by (simp add: mem_put_def min_def add.commute)
    then show ?thesis using Cons.IH [OF b] True Cons.prems
      by (simp only: elog_strcpy.simps if_True k) (simp add: mem_write_def Let_def)
  next
    case False
    then show ?thesis using Cons.prems by (simp add: mem_put_def)
  qed
qed (simp add: mem_put_def)

end
