(* ===== verification/ElogAsync.thy ===== *)
theory ElogAsync
  imports ElogData Fifo
begin

text \<open>
  The asynchronous output of the logger, \<open>elog_async.c\<close>: a ring buffer of characters between the
  threads that log and the thread that outputs. Indices and sizes are \<open>size_t\<close>; \<open>write_index +=
  size - OUTPUT_BUF_SIZE\<close> relies on its wrap-around. The static variables are one record.
\<close>

section \<open>The code\<close>

record elog_async =
  as_init_ok :: bool
  as_thread_running :: bool
  as_is_enabled :: bool
  as_log_buf :: string
  as_write_index :: u64
  as_read_index :: u64
  as_buf_is_full :: bool
  as_buf_is_empty :: bool

definition elog_async_start :: elog_async where
  "elog_async_start = \<lparr>as_init_ok = False, as_thread_running = False, as_is_enabled = False,
     as_log_buf = replicate (unat OUTPUT_BUF_SIZE) (CHR 0x00), as_write_index = 0, as_read_index = 0,
     as_buf_is_full = False, as_buf_is_empty = True\<rparr>"

definition elog_async_get_buf_used :: "elog_async \<Rightarrow> u64" where
  "elog_async_get_buf_used s =
     (if as_write_index s > as_read_index s then as_write_index s - as_read_index s
      else if \<not> as_buf_is_full s \<and> \<not> as_buf_is_empty s
      then OUTPUT_BUF_SIZE - (as_read_index s - as_write_index s)
      else if as_buf_is_full s then OUTPUT_BUF_SIZE else 0)"

definition async_get_buf_space :: "elog_async \<Rightarrow> u64" where
  "async_get_buf_space s = OUTPUT_BUF_SIZE - elog_async_get_buf_used s"

definition async_put_log :: "string \<Rightarrow> u64 \<Rightarrow> elog_async \<Rightarrow> (u64 \<times> elog_async) option" where
  "async_put_log log sz s = (let space = async_get_buf_space s in
     if space = 0 then Some (0, s)
     else let (sz, s) = (if space \<le> sz then (space, s\<lparr>as_buf_is_full := True\<rparr>) else (sz, s)) in
       (if as_write_index s + sz < OUTPUT_BUF_SIZE
        then do {
          d \<leftarrow> mem_read 0 (unat sz) log;
          buf \<leftarrow> mem_write (unat (as_write_index s)) d (as_log_buf s);
          Some (sz, s\<lparr>as_log_buf := buf, as_write_index := as_write_index s + sz, as_buf_is_empty := False\<rparr>) }
        else do {
          d \<leftarrow> mem_read 0 (unat (OUTPUT_BUF_SIZE - as_write_index s)) log;
          buf \<leftarrow> mem_write (unat (as_write_index s)) d (as_log_buf s);
          d \<leftarrow> mem_read (unat (OUTPUT_BUF_SIZE - as_write_index s)) (unat (sz - (OUTPUT_BUF_SIZE - as_write_index s))) log;
          buf \<leftarrow> mem_write 0 d buf;
          Some (sz, s\<lparr>as_log_buf := buf, as_write_index := as_write_index s + (sz - OUTPUT_BUF_SIZE),
            as_buf_is_empty := False\<rparr>) }))"

text \<open>The characters copied to \<open>log\<close>, whose room is \<open>sz\<close>; the lock is taken by the caller's model.\<close>

definition elog_async_get_log :: "u64 \<Rightarrow> elog_async \<Rightarrow> (string \<times> elog_async) option" where
  "elog_async_get_log sz s = (let used = elog_async_get_buf_used s in
     if used = 0 \<or> sz = 0 then Some ([], s)
     else let (sz, s) = (if used \<le> sz then (used, s\<lparr>as_buf_is_empty := True\<rparr>) else (sz, s)) in
       do {
         (out, s) \<leftarrow> (if as_read_index s + sz < OUTPUT_BUF_SIZE
           then do {
             out \<leftarrow> mem_read (unat (as_read_index s)) (unat sz) (as_log_buf s);
             Some (out, s\<lparr>as_read_index := as_read_index s + sz\<rparr>) }
           else do {
             a \<leftarrow> mem_read (unat (as_read_index s)) (unat (OUTPUT_BUF_SIZE - as_read_index s)) (as_log_buf s);
             b \<leftarrow> mem_read 0 (unat (sz - (OUTPUT_BUF_SIZE - as_read_index s))) (as_log_buf s);
             Some (a @ b, s\<lparr>as_read_index := as_read_index s + (sz - OUTPUT_BUF_SIZE)\<rparr>) });
         Some (out, s\<lparr>as_buf_is_full := False\<rparr>) })"

definition elog_async_get_line_log :: "u64 \<Rightarrow> elog_async \<Rightarrow> (string \<times> elog_async) option" where
  "elog_async_get_line_log sz s = (let used = elog_async_get_buf_used s in
     if used = 0 \<or> sz = 0 then Some ([], s)
     else let sz = (if used \<le> sz then used else sz) in do {
       (out, s) \<leftarrow> (if as_read_index s + sz < OUTPUT_BUF_SIZE
         then do {
           out \<leftarrow> elog_cpyln (drop (unat (as_read_index s)) (as_log_buf s)) (unat sz);
           Some (out, s\<lparr>as_read_index := as_read_index s + of_nat (length out)\<rparr>) }
         else do {
           a \<leftarrow> elog_cpyln (drop (unat (as_read_index s)) (as_log_buf s)) (unat (OUTPUT_BUF_SIZE - as_read_index s));
           if of_nat (length a) = OUTPUT_BUF_SIZE - as_read_index s
           then do {
             b \<leftarrow> elog_cpyln (as_log_buf s) (unat (sz - of_nat (length a)));
             Some (a @ b, s\<lparr>as_read_index := as_read_index s + (of_nat (length (a @ b)) - OUTPUT_BUF_SIZE)\<rparr>) }
           else Some (a, s\<lparr>as_read_index := as_read_index s + of_nat (length a)\<rparr>) });
       let s = (if used = of_nat (length out) then s\<lparr>as_buf_is_empty := True\<rparr> else s);
       let s = (if of_nat (length out) \<noteq> (0 :: u64) then s\<lparr>as_buf_is_full := False\<rparr> else s);
       Some (out, s) })"

text \<open>What \<open>elog_async_output\<close> does outside: posting the semaphore, or writing to the port at once.\<close>

datatype async_effect = Notice | Port_output string

definition elog_async_output :: "nat \<Rightarrow> string \<Rightarrow> u64 \<Rightarrow> elog_async \<Rightarrow> (async_effect list \<times> elog_async) option" where
  "elog_async_output level log sz s =
     (if as_is_enabled s
      then if level \<ge> OUTPUT_LVL
        then do {
          (put_size, s) \<leftarrow> async_put_log log sz s;
          Some (if put_size > 0 then [Notice] else [], s) }
        else do { d \<leftarrow> mem_read 0 (unat sz) log; Some ([Port_output d], s) }
      else do { d \<leftarrow> mem_read 0 (unat sz) log; Some ([Port_output d], s) })"

definition ELOG_ASYNC_POLL_GET_LOG_BUF_SIZE :: u64 where
  "ELOG_ASYNC_POLL_GET_LOG_BUF_SIZE = OUTPUT_BUF_SIZE - 4"

definition elog_async_enabled :: "bool \<Rightarrow> elog_async \<Rightarrow> elog_async" where
  "elog_async_enabled enabled s = s\<lparr>as_is_enabled := enabled\<rparr>"

section \<open>The ring as a sequence\<close>

abbreviation RING :: nat where "RING \<equiv> unat OUTPUT_BUF_SIZE"

lemma RING: "RING = 25600"
  by (simp add: OUTPUT_BUF_SIZE_def)

definition async_used :: "elog_async \<Rightarrow> nat" where
  "async_used s = (if as_buf_is_full s then RING else if as_buf_is_empty s then 0
     else ring_count RING (unat (as_read_index s)) (unat (as_write_index s)))"

definition async_inv :: "elog_async \<Rightarrow> bool" where
  "async_inv s \<longleftrightarrow> length (as_log_buf s) = RING \<and> unat (as_read_index s) < RING \<and> unat (as_write_index s) < RING
     \<and> \<not> (as_buf_is_full s \<and> as_buf_is_empty s)
     \<and> (as_read_index s = as_write_index s \<longleftrightarrow> as_buf_is_full s \<or> as_buf_is_empty s)"

definition async_contents :: "elog_async \<Rightarrow> string" where
  "async_contents s = ring_list ((!) (as_log_buf s)) RING (unat (as_read_index s)) (async_used s)"

lemma async_used_ok:
  assumes "async_inv s"
  shows "unat (elog_async_get_buf_used s) = async_used s" "async_used s \<le> RING"
    "unat (as_write_index s) = (unat (as_read_index s) + async_used s) mod RING"
proof -
  let ?r = "unat (as_read_index s)" and ?w = "unat (as_write_index s)"
  have i: "?r < RING" "?w < RING" "\<not> (as_buf_is_full s \<and> as_buf_is_empty s)"
    "?r = ?w \<longleftrightarrow> as_buf_is_full s \<or> as_buf_is_empty s"
    using assms by (auto simp: async_inv_def word_unat_eq_iff)
  have "ring_count RING ?r ?w < RING" using i by (simp add: ring_count_bound)
  then show "async_used s \<le> RING" by (simp add: async_used_def)
  show "?w = (?r + async_used s) mod RING"
    using i ring_count_end [OF i(1,2)] by (auto simp: async_used_def)
  show "unat (elog_async_get_buf_used s) = async_used s"
  proof (cases "?r < ?w")
    case True
    then show ?thesis using i
      by (auto simp: elog_async_get_buf_used_def async_used_def ring_count_def word_less_nat_alt unat_sub_nowrap)
  next
    case False
    then have sub: "unat (as_read_index s - as_write_index s) = ?r - ?w" by (intro unat_sub_nowrap) simp
    then have "unat (OUTPUT_BUF_SIZE - (as_read_index s - as_write_index s)) = RING - (?r - ?w)"
      using i by (subst unat_sub_nowrap) auto
    then show ?thesis using i False
      by (auto simp: elog_async_get_buf_used_def async_used_def ring_count_def word_less_nat_alt)
  qed
qed

lemma length_contents: "length (async_contents s) = async_used s"
  by (simp add: async_contents_def)

text \<open>Moving an index by \<open>sz\<close> cells, in the two ways of the code.\<close>

lemma index_step:
  assumes "unat w < RING" "unat sz \<le> RING"
  shows "w + sz < OUTPUT_BUF_SIZE \<longleftrightarrow> unat w + unat sz < RING"
    and "unat w + unat sz < RING \<Longrightarrow> unat (w + sz) = (unat w + unat sz) mod RING"
    and "\<not> unat w + unat sz < RING \<Longrightarrow> unat (w + (sz - OUTPUT_BUF_SIZE)) = (unat w + unat sz) mod RING"
    and "unat (OUTPUT_BUF_SIZE - w) = RING - unat w"
    and "\<not> unat w + unat sz < RING \<Longrightarrow> unat (sz - (OUTPUT_BUF_SIZE - w)) = unat sz - (RING - unat w)"
proof -
  have s: "unat (w + sz) = unat w + unat sz"
    using assms by (intro unat_add_nowrap) (simp add: RING)
  then show "w + sz < OUTPUT_BUF_SIZE \<longleftrightarrow> unat w + unat sz < RING" by (simp add: word_less_nat_alt)
  show "unat w + unat sz < RING \<Longrightarrow> unat (w + sz) = (unat w + unat sz) mod RING" using s by simp
  show d: "unat (OUTPUT_BUF_SIZE - w) = RING - unat w" using assms(1) by (intro unat_sub_nowrap) simp
  assume "\<not> unat w + unat sz < RING"
  then have ge: "RING \<le> unat w + unat sz" by simp
  have "w + (sz - OUTPUT_BUF_SIZE) = (w + sz) - OUTPUT_BUF_SIZE" by simp
  moreover have "unat ((w + sz) - OUTPUT_BUF_SIZE) = (unat w + unat sz) mod RING"
    using ge assms s by (subst unat_sub_nowrap) (simp_all add: le_mod_geq)
  ultimately show "unat (w + (sz - OUTPUT_BUF_SIZE)) = (unat w + unat sz) mod RING" by (simp only:)
  show "unat (sz - (OUTPUT_BUF_SIZE - w)) = unat sz - (RING - unat w)"
    using ge d by (subst unat_sub_nowrap) auto
qed

lemma async_put_ok:
  assumes inv: "async_inv s" and log: "0 < unat sz" "unat sz \<le> length log" "unat sz < 2 ^ 32"
  shows "\<exists>k s'. async_put_log log sz s = Some (k, s') \<and> unat k = min (unat sz) (RING - async_used s) \<and> async_inv s'
    \<and> async_contents s' = async_contents s @ take (unat k) log
    \<and> as_is_enabled s' = as_is_enabled s \<and> as_thread_running s' = as_thread_running s \<and> as_init_ok s' = as_init_ok s"
proof (cases "async_used s = RING")
  case True
  then have "async_get_buf_space s = 0"
    using async_used_ok(1) [OF inv] by (simp add: async_get_buf_space_def flip: word_unat_eq_iff)
  then show ?thesis using inv True by (intro exI [of _ 0] exI [of _ s]) (simp add: async_put_log_def)
next
  case False
  note U = async_used_ok [OF inv]
  let ?r = "unat (as_read_index s)" and ?w = "unat (as_write_index s)" and ?u = "async_used s"
  have I: "length (as_log_buf s) = RING" "?r < RING" "?w < RING" "\<not> as_buf_is_full s"
    using inv False by (auto simp: async_inv_def async_used_def)
  have sp: "unat (async_get_buf_space s) = RING - ?u"
    unfolding async_get_buf_space_def using U by (subst unat_sub_nowrap) simp_all
  then have sp0: "async_get_buf_space s \<noteq> 0" using False U(2) by (auto simp: unat_eq_0 [symmetric])
  define k where "k = (if async_get_buf_space s \<le> sz then async_get_buf_space s else sz)"
  have k: "unat k = min (unat sz) (RING - ?u)" by (simp add: k_def word_le_nat_alt sp)
  have k0: "0 < unat k" "unat k \<le> RING" "unat k \<le> length log" using k log False U(2) by auto
  have rp: "length (take (unat k) log) = unat k" using k0 by simp
  define s' where "s' = s\<lparr>as_buf_is_full := (as_buf_is_full s \<or> async_get_buf_space s \<le> sz),
    as_log_buf := ring_put ?w (take (unat k) log) (as_log_buf s), as_buf_is_empty := False,
    as_write_index := (if ?w + unat k < RING then as_write_index s + k else as_write_index s + (k - OUTPUT_BUF_SIZE))\<rparr>"
  note ix = index_step [OF I(3) k0(2)]
  define s1 where "s1 = s\<lparr>as_buf_is_full := (as_buf_is_full s \<or> async_get_buf_space s \<le> sz)\<rparr>"
  have pair: "(if async_get_buf_space s \<le> sz then (async_get_buf_space s, s\<lparr>as_buf_is_full := True\<rparr>) else (sz, s)) = (k, s1)"
    using I(4) by (cases s) (simp add: k_def s1_def)
  have s1: "as_write_index s1 = as_write_index s" "as_log_buf s1 = as_log_buf s" by (simp_all add: s1_def)
  have run: "async_put_log log sz s = Some (k, s')"
  proof (cases "?w + unat k < RING")
    case True
    then have lt: "as_write_index s + k < OUTPUT_BUF_SIZE" using ix(1) by simp
    have rd: "mem_read 0 (unat k) log = Some (take (unat k) log)" using k0 by (simp add: mem_read_def mem_get_def)
    have wr: "mem_write ?w (take (unat k) log) (as_log_buf s) = Some (mem_put ?w (take (unat k) log) (as_log_buf s))"
      using True I(1) by (simp add: mem_write_def rp)
    have "s' = s1\<lparr>as_log_buf := mem_put ?w (take (unat k) log) (as_log_buf s), as_write_index := as_write_index s + k,
        as_buf_is_empty := False\<rparr>"
      using True I(1) rp by (simp add: s'_def s1_def ring_put_def)
    then show ?thesis
      unfolding async_put_log_def Let_def if_not_P [OF sp0] pair prod.case s1 if_P [OF lt] rd by (simp add: wr)
  next
    case wrap: False
    then have lt: "\<not> as_write_index s + k < OUTPUT_BUF_SIZE" using ix(1) by simp
    let ?a = "take (RING - ?w) log" and ?b = "drop (RING - ?w) (take (unat k) log)"
    have le: "RING - ?w \<le> unat k" using wrap by simp
    have rd: "mem_read 0 (RING - ?w) log = Some ?a" "mem_read (RING - ?w) (unat k - (RING - ?w)) log = Some ?b"
      using le k0 by (simp_all add: mem_read_def mem_get_def drop_take)
    have la: "length ?a = RING - ?w" "length ?b = unat k - (RING - ?w)" using le k0 by simp_all
    let ?buf = "mem_put ?w ?a (as_log_buf s)"
    have wr: "mem_write ?w ?a (as_log_buf s) = Some ?buf" "mem_write 0 ?b ?buf = Some (mem_put 0 ?b ?buf)"
      using I(1,3) k0(2) la by (simp_all add: mem_write_def length_mem_put)
    have "take (RING - ?w) (take (unat k) log) = ?a" using le by (simp add: min_def)
    then have "s' = s1\<lparr>as_log_buf := mem_put 0 ?b ?buf, as_write_index := as_write_index s + (k - OUTPUT_BUF_SIZE),
        as_buf_is_empty := False\<rparr>"
      using wrap I(1) rp by (simp add: s'_def s1_def ring_put_def)
    then show ?thesis
      unfolding async_put_log_def Let_def if_not_P [OF sp0] pair prod.case s1 if_not_P [OF lt] ix(4) ix(5) [OF wrap] rd
      by (simp add: wr)
  qed
  have w': "unat (as_write_index s') = (?w + unat k) mod RING" using ix(2,3) by (simp add: s'_def)
  have R0: "0 < RING" by (simp add: RING)
  have full: "as_buf_is_full s' \<longleftrightarrow> unat k = RING - ?u" using I(4) k by (auto simp: s'_def word_le_nat_alt sp)
  have uk: "?u + unat k \<le> RING" using k U(2) by simp
  have eq: "(?w + unat k) mod RING = (?r + (?u + unat k)) mod RING" unfolding U(3) by (simp add: mod_simps add.assoc)
  have rw: "?r = unat (as_write_index s') \<longleftrightarrow> as_buf_is_full s'"
  proof
    assume "?r = unat (as_write_index s')"
    show "as_buf_is_full s'"
    proof (rule ccontr)
      assume "\<not> as_buf_is_full s'"
      then have "?u + unat k < RING" using full uk by linarith
      moreover have "(?r + (?u + unat k)) mod RING = (?r + 0) mod RING"
        using \<open>?r = unat (as_write_index s')\<close> w' I(2) unfolding eq by simp
      ultimately have "?u + unat k = 0" using R0 mod_add_inj by blast
      then show False using k0(1) by linarith
    qed
  next
    assume "as_buf_is_full s'"
    then have "?u + unat k = RING" using full U(2) by simp
    then show "?r = unat (as_write_index s')" unfolding w' eq using I(2) by simp
  qed
  have inv': "async_inv s'"
    unfolding async_inv_def using I rw w' R0 k0 by (simp add: s'_def length_ring_put word_unat_eq_iff)
  have u': "async_used s' = ?u + unat k"
  proof (cases "as_buf_is_full s'")
    case True
    then show ?thesis using full U(2) by (simp add: async_used_def)
  next
    case nf: False
    then have lt: "?u + unat k < RING" using full uk by linarith
    have a: "as_read_index s' = as_read_index s" by (simp add: s'_def)
    have "async_used s' < RING" using nf inv' by (auto simp: async_used_def async_inv_def RING ring_count_bound)
    moreover have "(?r + async_used s') mod RING = (?r + (?u + unat k)) mod RING"
      using async_used_ok(3) [OF inv'] w' unfolding eq a by simp
    ultimately show ?thesis using lt mod_add_inj by blast
  qed
  have "async_contents s' = async_contents s @ take (unat k) log"
    using ring_put_list [of ?r "as_log_buf s" ?u "take (unat k) log" ?w] I uk U(3) rp
    by (simp add: async_contents_def u') (simp add: s'_def)
  then show ?thesis using run k inv' by (intro exI [of _ k] exI [of _ s']) (simp add: s'_def)
qed

text \<open>Taking \<open>j\<close> characters out.\<close>

lemma async_consume:
  assumes inv: "async_inv s" and j: "0 < j" "j \<le> async_used s" and r': "unat r' = (unat (as_read_index s) + j) mod RING"
    and s': "s' = s\<lparr>as_read_index := r', as_buf_is_empty := (j = async_used s), as_buf_is_full := False\<rparr>"
  shows "async_inv s' \<and> async_contents s' = drop j (async_contents s)"
proof -
  note U = async_used_ok [OF inv]
  let ?r = "unat (as_read_index s)" and ?w = "unat (as_write_index s)" and ?u = "async_used s"
  have I: "length (as_log_buf s) = RING" "?r < RING" "?w < RING" using inv by (auto simp: async_inv_def)
  have R0: "0 < RING" by (simp add: RING)
  have "(unat r' + (?u - j)) mod RING = (?r + (j + (?u - j))) mod RING" unfolding r' by (simp add: mod_simps add.assoc)
  then have w: "?w = (unat r' + (?u - j)) mod RING" using U(3) j(2) by simp
  have lt: "?u - j < RING" using U(2) j by linarith
  have r'lt: "unat r' < RING" using r' R0 by simp
  have "unat r' = ?w \<longleftrightarrow> j = ?u"
  proof
    assume "unat r' = ?w"
    then have "(unat r' + 0) mod RING = (unat r' + (?u - j)) mod RING" using w r'lt by simp
    then have "0 = ?u - j" using R0 lt mod_add_inj by blast
    then show "j = ?u" using j(2) by simp
  qed (use w r'lt in simp)
  then have inv': "async_inv s'" using I r'lt by (simp add: async_inv_def s' word_unat_eq_iff)
  have "async_used s' < RING"
    using inv' by (auto simp: s' async_used_def async_inv_def RING ring_count_bound)
  moreover have "(unat r' + async_used s') mod RING = (unat r' + (?u - j)) mod RING"
    using async_used_ok(3) [OF inv'] w by (simp add: s')
  ultimately have u': "async_used s' = ?u - j" using lt mod_add_inj by blast
  have "async_contents s' = ring_list ((!) (as_log_buf s)) RING ((?r + j) mod RING) (?u - j)"
    by (simp add: async_contents_def u') (simp add: s' r')
  then show ?thesis using inv' ring_list_drop [OF j(2)] by (simp add: async_contents_def)
qed

lemma async_read:
  assumes inv: "async_inv s" and "j \<le> async_used s"
  shows "unat (as_read_index s) + j < RING \<Longrightarrow> mem_read (unat (as_read_index s)) j (as_log_buf s) = Some (take j (async_contents s))"
    and "\<not> unat (as_read_index s) + j < RING \<Longrightarrow>
      mem_read (unat (as_read_index s)) (RING - unat (as_read_index s)) (as_log_buf s)
        = Some (take (RING - unat (as_read_index s)) (async_contents s))
      \<and> mem_read 0 (j - (RING - unat (as_read_index s))) (as_log_buf s)
        = Some (drop (RING - unat (as_read_index s)) (take j (async_contents s)))"
proof -
  let ?r = "unat (as_read_index s)"
  have I: "length (as_log_buf s) = RING" "?r < RING" using inv by (auto simp: async_inv_def)
  have g: "ring_get ?r j (as_log_buf s) = take j (async_contents s)"
    using ring_get_list [of ?r "as_log_buf s" j "async_used s"] I assms(2) async_used_ok(2) [OF inv]
    by (simp add: async_contents_def)
  show "mem_read ?r j (as_log_buf s) = Some (take j (async_contents s))" if "?r + j < RING"
    using g that I by (simp add: mem_read_def ring_get_def)
  assume n: "\<not> ?r + j < RING"
  let ?a = "mem_get ?r (RING - ?r) (as_log_buf s)" and ?b = "mem_get 0 (j - (RING - ?r)) (as_log_buf s)"
  have ab: "?a @ ?b = take j (async_contents s)" using g n I by (simp add: ring_get_def)
  have la: "length ?a = RING - ?r" using I by simp
  have "?a = take (RING - ?r) (take j (async_contents s))" "?b = drop (RING - ?r) (take j (async_contents s))"
    unfolding ab [symmetric] using la by simp_all
  moreover have "RING - ?r \<le> j" using n by linarith
  then have "take (RING - ?r) (take j (async_contents s)) = take (RING - ?r) (async_contents s)"
    by (simp add: min_absorb1)
  moreover have "j \<le> RING" using assms(2) async_used_ok(2) [OF inv] by simp
  ultimately show "mem_read ?r (RING - ?r) (as_log_buf s) = Some (take (RING - ?r) (async_contents s))
      \<and> mem_read 0 (j - (RING - ?r)) (as_log_buf s) = Some (drop (RING - ?r) (take j (async_contents s)))"
    using I by (simp add: mem_read_def)
qed

lemma async_used_pos:
  "async_inv s \<Longrightarrow> elog_async_get_buf_used s = 0 \<longleftrightarrow> async_used s = 0"
  using async_used_ok(1) [of s] by (metis unat_eq_0)

lemma async_get_ok:
  assumes inv: "async_inv s"
  shows "\<exists>s'. elog_async_get_log sz s = Some (take (unat sz) (async_contents s), s') \<and> async_inv s'
    \<and> async_contents s' = drop (unat sz) (async_contents s)
    \<and> as_is_enabled s' = as_is_enabled s \<and> as_thread_running s' = as_thread_running s \<and> as_init_ok s' = as_init_ok s"
proof (cases "elog_async_get_buf_used s = 0 \<or> sz = 0")
  case True
  then have "async_contents s = [] \<or> unat sz = 0"
    using async_used_pos [OF inv] length_contents [of s] by auto
  moreover have "elog_async_get_log sz s = Some ([], s)" using True by (simp add: elog_async_get_log_def Let_def)
  ultimately show ?thesis using inv by auto
next
  case False
  note U = async_used_ok [OF inv]
  let ?r = "unat (as_read_index s)" and ?u = "async_used s"
  have I: "length (as_log_buf s) = RING" "?r < RING" using inv by (auto simp: async_inv_def)
  define k where "k = (if elog_async_get_buf_used s \<le> sz then elog_async_get_buf_used s else sz)"
  define s1 where "s1 = s\<lparr>as_buf_is_empty := (as_buf_is_empty s \<or> elog_async_get_buf_used s \<le> sz)\<rparr>"
  have k: "unat k = min (unat sz) ?u" by (simp add: k_def word_le_nat_alt U(1))
  have "?u \<noteq> 0" using False async_used_pos [OF inv] by blast
  then have k0: "0 < unat k" "unat k \<le> ?u" "unat k \<le> RING" using k False U(2) by (auto simp: unat_gt_0)
  have ne: "\<not> as_buf_is_empty s" using \<open>?u \<noteq> 0\<close> inv by (auto simp: async_used_def async_inv_def split: if_splits)
  have pair: "(if elog_async_get_buf_used s \<le> sz then (elog_async_get_buf_used s, s\<lparr>as_buf_is_empty := True\<rparr>) else (sz, s)) = (k, s1)"
    using ne by (cases s) (simp add: k_def s1_def)
  have s1: "as_read_index s1 = as_read_index s" "as_log_buf s1 = as_log_buf s" by (simp_all add: s1_def)
  note ix = index_step [OF I(2) k0(3)]
  define r' where "r' = (if ?r + unat k < RING then as_read_index s + k else as_read_index s + (k - OUTPUT_BUF_SIZE))"
  define s' where "s' = s\<lparr>as_read_index := r', as_buf_is_empty := (unat k = ?u), as_buf_is_full := False\<rparr>"
  have r': "unat r' = (?r + unat k) mod RING" using ix(2,3) by (simp add: r'_def)
  have e: "unat k = ?u \<longleftrightarrow> elog_async_get_buf_used s \<le> sz" by (auto simp: k word_le_nat_alt U(1))
  have s'eq: "s' = s1\<lparr>as_read_index := r', as_buf_is_full := False\<rparr>" using ne by (simp add: s'_def s1_def e)
  have out: "take (unat k) (async_contents s) = take (unat sz) (async_contents s)"
    by (cases "unat sz \<le> ?u") (simp_all add: k length_contents min_def)
  have "elog_async_get_log sz s = Some (take (unat k) (async_contents s), s')"
  proof (cases "?r + unat k < RING")
    case True
    then have lt: "as_read_index s + k < OUTPUT_BUF_SIZE" using ix(1) by simp
    show ?thesis
      unfolding elog_async_get_log_def Let_def if_not_P [OF False] pair prod.case s1 if_P [OF lt]
        async_read(1) [OF inv k0(2) True] s'eq r'_def if_P [OF True] by simp
  next
    case wrap: False
    then have lt: "\<not> as_read_index s + k < OUTPUT_BUF_SIZE" using ix(1) by simp
    have "take (RING - ?r) (async_contents s) @ drop (RING - ?r) (take (unat k) (async_contents s)) = take (unat k) (async_contents s)"
    proof -
      have "RING - ?r \<le> unat k" using wrap by linarith
      then have "take (RING - ?r) (async_contents s) = take (RING - ?r) (take (unat k) (async_contents s))"
        by (simp add: min_absorb1)
      then show ?thesis by (simp only: append_take_drop_id)
    qed
    then show ?thesis
      using async_read(2) [OF inv k0(2) wrap]
      unfolding elog_async_get_log_def Let_def if_not_P [OF False] pair prod.case s1 if_not_P [OF lt]
        ix(4) ix(5) [OF wrap] s'eq r'_def if_not_P [OF wrap] by simp
  qed
  moreover have "drop (unat k) (async_contents s) = drop (unat sz) (async_contents s)"
    by (cases "unat sz \<le> ?u") (simp_all add: k length_contents min_def)
  ultimately show ?thesis using async_consume [OF inv k0(1,2) r' s'_def] out
    by (intro exI [of _ s']) (simp add: s'_def)
qed

text \<open>What \<open>elog_async_get_line_log\<close> hands over: the search for the newline goes on behind the end of the array.\<close>

definition line_out :: "nat \<Rightarrow> elog_async \<Rightarrow> string" where
  "line_out k s = (let c = take k (async_contents s); n = RING - unat (as_read_index s) in
     if length c < n then first_line c
     else if length (first_line (take n c)) = n then take n c @ first_line (drop n c)
     else first_line (take n c))"

lemma length_first_line: "length (first_line s) \<le> length s"
  using first_line_prefix [of s] by (metis length_append le_add1)

lemma first_line_all: "length (first_line s) = length s \<Longrightarrow> first_line s = s"
  using first_line_prefix [of s] by (metis append_eq_append_conv append_Nil2 length_append_singleton self_append_conv)

lemma async_get_line_ok:
  assumes inv: "async_inv s"
  shows "\<exists>s'. elog_async_get_line_log sz s = Some (line_out (unat sz) s, s') \<and> async_inv s'
    \<and> async_contents s = line_out (unat sz) s @ async_contents s'"
proof (cases "elog_async_get_buf_used s = 0 \<or> sz = 0")
  case True
  then have "async_contents s = [] \<or> unat sz = 0"
    using async_used_pos [OF inv] length_contents [of s] by auto
  then have "line_out (unat sz) s = []" by (auto simp: line_out_def Let_def)
  moreover have "elog_async_get_line_log sz s = Some ([], s)" using True by (simp add: elog_async_get_line_log_def Let_def)
  ultimately show ?thesis using inv by simp
next
  case False
  note U = async_used_ok [OF inv]
  let ?r = "unat (as_read_index s)" and ?u = "async_used s" and ?C = "async_contents s" and ?n = "RING - unat (as_read_index s)"
  have I: "length (as_log_buf s) = RING" "?r < RING" using inv by (auto simp: async_inv_def)
  define k where "k = (if elog_async_get_buf_used s \<le> sz then elog_async_get_buf_used s else sz)"
  have k: "unat k = min (unat sz) ?u" by (simp add: k_def word_le_nat_alt U(1))
  have "?u \<noteq> 0" using False async_used_pos [OF inv] by blast
  then have k0: "0 < unat k" "unat k \<le> ?u" "unat k \<le> RING" using k False U(2) by (auto simp: unat_gt_0)
  have c: "take (unat sz) ?C = take (unat k) ?C" by (cases "unat sz \<le> ?u") (simp_all add: k length_contents min_def)
  have lc: "length (take (unat k) ?C) = unat k" using k0 by (simp add: length_contents)
  define out where "out = line_out (unat sz) s"
  have cond: "length (take (unat k) ?C) < ?n \<longleftrightarrow> ?r + unat k < RING" unfolding lc using I(2) by linarith
  have O: "out = (if ?r + unat k < RING then first_line (take (unat k) ?C)
      else if length (first_line (take ?n (take (unat k) ?C))) = ?n
      then take ?n (take (unat k) ?C) @ first_line (drop ?n (take (unat k) ?C)) else first_line (take ?n (take (unat k) ?C)))"
    by (simp only: out_def line_out_def Let_def c cond)
  have pre: "\<exists>rest. take (unat k) ?C = out @ rest"
  proof -
    have "\<exists>rest. take ?n cc @ drop ?n cc = (take ?n cc @ first_line (drop ?n cc)) @ rest" for cc
      using first_line_prefix [of "drop ?n cc"] by (metis append.assoc)
    then have "\<exists>rest. cc = (take ?n cc @ first_line (drop ?n cc)) @ rest" for cc by (metis append_take_drop_id)
    moreover have "\<exists>rest. cc = first_line (take ?n cc) @ rest" for cc
      using first_line_prefix [of "take ?n cc"] by (metis append.assoc append_take_drop_id)
    ultimately show ?thesis unfolding O using first_line_prefix by presburger
  qed
  then have lo: "length out \<le> unat k" using lc by (metis length_append le_add1)
  have o1: "0 < length out"
    using k0(1) lc I(2) unfolding O by (auto simp: first_line_nonempty)
  have uo: "unat (of_nat (length out) :: u64) = length out"
    using lo k0(3) by (simp add: unat_of_nat RING)
  define r' where "r' = (if ?r + length out < RING then as_read_index s + of_nat (length out)
      else as_read_index s + (of_nat (length out) - OUTPUT_BUF_SIZE))"
  have r': "unat r' = (?r + length out) mod RING"
    using index_step(2,3) [OF I(2), of "of_nat (length out)"] lo k0(3) uo by (simp add: r'_def)
  define s' where "s' = s\<lparr>as_read_index := r', as_buf_is_empty := (length out = ?u), as_buf_is_full := False\<rparr>"
  have ne: "\<not> as_buf_is_empty s" using \<open>?u \<noteq> 0\<close> inv by (auto simp: async_used_def async_inv_def split: if_splits)
  have e: "elog_async_get_buf_used s = of_nat (length out) \<longleftrightarrow> length out = ?u"
    unfolding word_unat_eq_iff U(1) uo by auto
  have z: "of_nat (length out) \<noteq> (0 :: u64)" using o1 uo by (metis less_irrefl unat_0)
  have fin: "(if of_nat (length out) \<noteq> (0 :: u64)
      then (if elog_async_get_buf_used s = of_nat (length out) then s\<lparr>as_read_index := r', as_buf_is_empty := True\<rparr>
        else s\<lparr>as_read_index := r'\<rparr>)\<lparr>as_buf_is_full := False\<rparr>
      else (if elog_async_get_buf_used s = of_nat (length out) then s\<lparr>as_read_index := r', as_buf_is_empty := True\<rparr>
        else s\<lparr>as_read_index := r'\<rparr>)) = s'"
  proof -
    have "s\<lparr>as_read_index := r', as_buf_is_empty := False\<rparr> = s\<lparr>as_read_index := r'\<rparr>" using ne by (cases s) simp
    then show ?thesis unfolding e s'_def using z by (cases "length out = ?u") simp_all
  qed
  note ix = index_step [OF I(2) k0(3)]
  have cp: "elog_cpyln (drop ?r (as_log_buf s)) j = Some (first_line (take j (drop ?r (as_log_buf s))))" if "j \<le> ?n" for j
    using that I by (intro elog_cpyln_ok) simp
  have "elog_async_get_line_log sz s = Some (out, s')"
  proof (cases "?r + unat k < RING")
    case True
    have "mem_read ?r (unat k) (as_log_buf s) = Some (take (unat k) ?C)" by (rule async_read(1) [OF inv k0(2) True])
    then have t: "take (unat k) (drop ?r (as_log_buf s)) = take (unat k) ?C" by (simp add: mem_read_def mem_get_def split: if_splits)
    have o: "out = first_line (take (unat k) ?C)" using O True by simp
    have cl: "elog_cpyln (drop ?r (as_log_buf s)) (unat k) = Some out"
      using cp [of "unat k"] True by (simp add: t o)
    have lt: "as_read_index s + k < OUTPUT_BUF_SIZE" using ix(1) True by simp
    have "?r + length out < RING" using lo True by simp
    then have rr: "r' = as_read_index s + of_nat (length out)" by (simp add: r'_def)
    show ?thesis
      unfolding elog_async_get_line_log_def Let_def if_not_P [OF False] k_def [symmetric] if_P [OF lt] cl
      using fin [unfolded rr] by simp
  next
    case wrap: False
    have rd: "take ?n (drop ?r (as_log_buf s)) = take ?n ?C" "take (unat k - ?n) (as_log_buf s) = drop ?n (take (unat k) ?C)"
      using async_read(2) [OF inv k0(2) wrap] I by (simp_all add: mem_read_def mem_get_def split: if_splits)
    have nk: "?n \<le> unat k" using wrap by linarith
    then have tt: "take ?n (take (unat k) ?C) = take ?n ?C" by (simp add: min_absorb1)
    let ?a = "first_line (take ?n ?C)"
    have ca: "elog_cpyln (drop ?r (as_log_buf s)) (unat (OUTPUT_BUF_SIZE - as_read_index s)) = Some ?a"
      using cp [of ?n] by (simp add: ix(4) rd(1))
    have la: "length ?a \<le> ?n" using length_first_line [of "take ?n ?C"] by simp
    have ul: "unat (of_nat (length ?a) :: u64) = length ?a" using la by (simp add: unat_of_nat RING)
    have lt: "\<not> as_read_index s + k < OUTPUT_BUF_SIZE" using ix(1) wrap by simp
    have full: "of_nat (length ?a) = OUTPUT_BUF_SIZE - as_read_index s \<longleftrightarrow> length ?a = ?n"
      unfolding word_unat_eq_iff ul ix(4) ..
    show ?thesis
    proof (cases "length ?a = ?n")
      case True
      have o: "out = take ?n ?C @ first_line (drop ?n (take (unat k) ?C))" using O wrap True by (simp add: tt)
      have "length (take ?n ?C) = ?n" using nk k0(2) by (simp add: length_contents)
      then have a: "?a = take ?n ?C" using True by (intro first_line_all) simp
      have us: "unat (k - of_nat (length ?a)) = unat k - ?n"
        using nk ul True by (subst unat_sub_nowrap) simp_all
      have "elog_cpyln (as_log_buf s) (unat k - ?n) = Some (first_line (take (unat k - ?n) (as_log_buf s)))"
        using I k0(3) by (intro elog_cpyln_ok) simp
      then have cb: "elog_cpyln (as_log_buf s) (unat (k - of_nat (length ?a))) = Some (first_line (drop ?n (take (unat k) ?C)))"
        unfolding us rd(2) .
      have ab: "?a @ first_line (drop ?n (take (unat k) ?C)) = out" unfolding o a ..
      have "?n \<le> length out" unfolding o using \<open>length (take ?n ?C) = ?n\<close> by simp
      then have "\<not> ?r + length out < RING" using I(2) by linarith
      then have rr: "r' = as_read_index s + (of_nat (length out) - OUTPUT_BUF_SIZE)" unfolding r'_def by (rule if_not_P)
      have fT: "of_nat (length ?a) = OUTPUT_BUF_SIZE - as_read_index s" using full True by blast
      show ?thesis
        unfolding elog_async_get_line_log_def Let_def if_not_P [OF False] k_def [symmetric] if_not_P [OF lt] ca
          bind.bind_lunit if_P [OF fT] cb prod.case ab
        by (simp only: fin [unfolded rr])
    next
      case nl: False
      have o: "out = ?a" using O wrap nl by (simp add: tt)
      have "length ?a < ?n" using la nl by simp
      then have "?r + length out < RING" using I(2) unfolding o by linarith
      then have rr: "r' = as_read_index s + of_nat (length out)" unfolding r'_def by (rule if_P)
      have fF: "of_nat (length out) \<noteq> OUTPUT_BUF_SIZE - as_read_index s" using full nl unfolding o by blast
      show ?thesis
        unfolding elog_async_get_line_log_def Let_def if_not_P [OF False] k_def [symmetric] if_not_P [OF lt] ca
          bind.bind_lunit o [symmetric] if_not_P [OF fF] prod.case
        by (simp only: fin [unfolded rr])
    qed
  qed
  moreover have "?C = out @ drop (length out) ?C"
  proof -
    obtain rest where "take (unat k) ?C = out @ rest" using pre by blast
    then have "?C = out @ rest @ drop (unat k) ?C" by (metis append.assoc append_take_drop_id)
    then show ?thesis by (metis append_eq_conv_conj)
  qed
  moreover have "length out \<le> ?u" using lo k0(2) by simp
  ultimately show ?thesis
    using async_consume [OF inv o1 _ r' s'_def] by (simp add: out_def [symmetric])
qed

section \<open>The ring implements a byte stream with limited room\<close>



definition async_get_line :: "nat \<Rightarrow> elog_async \<Rightarrow> (string \<times> elog_async) option" where
  "async_get_line k s = elog_async_get_line_log (of_nat k) s"

lemma unat_u64_small: "k < 2 ^ 32 \<Longrightarrow> unat (of_nat k :: u64) = k"
  by (simp add: unat_of_nat)






section \<open>The output thread\<close>

text \<open>Where the thread is: at the test of \<open>while (thread_running)\<close>, at \<open>sem_wait\<close>, before
  \<open>elog_async_get_log\<close>, before \<open>elog_port_output\<close>, or ended.\<close>

datatype thread_pc = At_test | At_wait | At_get | At_output string | Ended

text \<open>
  The logger with its thread: the ring, the semaphore, the thread, what the thread has output, and
  what the ring has taken in since the start. A call of \<open>elog_async_output\<close> and one of
  \<open>elog_async_get_log\<close> are one step each, because both run under the output lock.
\<close>

record async_sys =
  sy_ring :: elog_async
  sy_notice :: nat
  sy_thread :: thread_pc
  sy_port :: "string list"
  sy_accepted :: string

definition count_notice :: "async_effect list \<Rightarrow> nat" where
  "count_notice es = length (filter (\<lambda>e. e = Notice) es)"

inductive thread_step :: "async_sys \<Rightarrow> async_sys \<Rightarrow> bool" where
  test_on: "\<lbrakk> sy_thread s = At_test; as_thread_running (sy_ring s) \<rbrakk> \<Longrightarrow> thread_step s (s\<lparr>sy_thread := At_wait\<rparr>)"
| test_off: "\<lbrakk> sy_thread s = At_test; \<not> as_thread_running (sy_ring s) \<rbrakk> \<Longrightarrow> thread_step s (s\<lparr>sy_thread := Ended\<rparr>)"
| waits: "\<lbrakk> sy_thread s = At_wait; 0 < sy_notice s \<rbrakk>
    \<Longrightarrow> thread_step s (s\<lparr>sy_thread := At_get, sy_notice := sy_notice s - 1\<rparr>)"
| gets: "\<lbrakk> sy_thread s = At_get; elog_async_get_log ELOG_ASYNC_POLL_GET_LOG_BUF_SIZE (sy_ring s) = Some (out, ring) \<rbrakk>
    \<Longrightarrow> thread_step s (s\<lparr>sy_thread := (if length out \<noteq> 0 then At_output out else At_test), sy_ring := ring\<rparr>)"
| outputs: "sy_thread s = At_output out \<Longrightarrow> thread_step s (s\<lparr>sy_thread := At_get, sy_port := sy_port s @ [out]\<rparr>)"

text \<open>\<open>elog_async_deinit\<close> before it waits for the thread, and \<open>elog_async_init\<close>.\<close>

definition elog_async_deinit :: "async_sys \<Rightarrow> async_sys" where
  "elog_async_deinit s = (if \<not> as_init_ok (sy_ring s) then s
     else s\<lparr>sy_ring := (sy_ring s)\<lparr>as_thread_running := False, as_init_ok := False\<rparr>, sy_notice := sy_notice s + 1\<rparr>)"

definition elog_async_init :: "elog_async \<Rightarrow> elog_async" where
  "elog_async_init a = (if as_init_ok a then a else a\<lparr>as_thread_running := True, as_init_ok := True\<rparr>)"

definition async_sys_start :: async_sys where
  "async_sys_start = \<lparr>sy_ring = elog_async_enabled True (elog_async_init elog_async_start), sy_notice = 0,
     sy_thread = At_test, sy_port = [], sy_accepted = []\<rparr>"

inductive async_step :: "async_sys \<Rightarrow> async_sys \<Rightarrow> bool" where
  thread: "thread_step s s' \<Longrightarrow> async_step s s'"
| log_call: "\<lbrakk> log \<noteq> []; length log \<le> ELOG_LINE_BUF_SIZE; level \<ge> OUTPUT_LVL;
      elog_async_output level log (of_nat (length log)) (sy_ring s) = Some (es, ring) \<rbrakk>
    \<Longrightarrow> async_step s (s\<lparr>sy_ring := ring, sy_notice := sy_notice s + count_notice es,
      sy_accepted := sy_accepted s @ take (async_used ring - async_used (sy_ring s)) log\<rparr>)"
| deinit: "async_step s (elog_async_deinit s)"

inductive async_reach :: "async_sys \<Rightarrow> bool" where
  reach_start: "async_reach async_sys_start"
| reach_step: "\<lbrakk> async_reach s; async_step s s' \<rbrakk> \<Longrightarrow> async_reach s'"

inductive_cases thread_stepE: "thread_step s s'"
inductive_cases async_stepE: "async_step s s'"

section \<open>Nothing is lost while the logger runs\<close>

fun in_hand :: "thread_pc \<Rightarrow> string" where
  "in_hand (At_output out) = out"
| "in_hand _ = []"

definition busy :: "thread_pc \<Rightarrow> bool" where
  "busy pc \<longleftrightarrow> (case pc of At_get \<Rightarrow> True | At_output _ \<Rightarrow> True | _ \<Rightarrow> False)"

definition sys_inv :: "async_sys \<Rightarrow> bool" where
  "sys_inv s \<longleftrightarrow> async_inv (sy_ring s) \<and> as_is_enabled (sy_ring s)
     \<and> as_thread_running (sy_ring s) = as_init_ok (sy_ring s)
     \<and> sy_accepted s = concat (sy_port s) @ in_hand (sy_thread s) @ async_contents (sy_ring s)
     \<and> (as_thread_running (sy_ring s) \<longrightarrow> sy_thread s \<noteq> Ended)
     \<and> (async_contents (sy_ring s) \<noteq> [] \<longrightarrow> 0 < sy_notice s \<or> busy (sy_thread s) \<or> \<not> as_thread_running (sy_ring s))"

lemma thread_inv:
  assumes "sys_inv s" "thread_step s s'"
  shows "sys_inv s' \<and> as_thread_running (sy_ring s') = as_thread_running (sy_ring s)"
  using assms(2)
proof (cases rule: thread_step.cases)
  case (gets out ring)
  have inv: "async_inv (sy_ring s)" using assms(1) by (simp add: sys_inv_def)
  let ?k = "unat ELOG_ASYNC_POLL_GET_LOG_BUF_SIZE"
  have k: "0 < ?k" by (simp add: ELOG_ASYNC_POLL_GET_LOG_BUF_SIZE_def OUTPUT_BUF_SIZE_def)
  from async_get_ok [OF inv, of ELOG_ASYNC_POLL_GET_LOG_BUF_SIZE] gets(3) have
    "out = take ?k (async_contents (sy_ring s))" "async_inv ring" "async_contents ring = drop ?k (async_contents (sy_ring s))"
    "as_is_enabled ring = as_is_enabled (sy_ring s)" "as_thread_running ring = as_thread_running (sy_ring s)"
    "as_init_ok ring = as_init_ok (sy_ring s)" by auto
  then show ?thesis using assms(1) gets(1,2) k by (auto simp: sys_inv_def busy_def)
qed (use assms(1) in \<open>auto simp: sys_inv_def busy_def split: thread_pc.splits\<close>)

lemma async_step_inv:
  assumes "sys_inv s" "async_step s s'"
  shows "sys_inv s'"
  using assms(2)
proof (cases rule: async_step.cases)
  case thread
  then show ?thesis using thread_inv assms(1) by blast
next
  case (log_call log level es ring)
  have inv: "async_inv (sy_ring s)" "as_is_enabled (sy_ring s)" using assms(1) by (simp_all add: sys_inv_def)
  have u: "unat (of_nat (length log) :: u64) = length log"
    by (rule unat_u64_small) (use log_call(3) in \<open>simp add: ELOG_LINE_BUF_SIZE_def\<close>)
  have "0 < unat (of_nat (length log) :: u64)" "unat (of_nat (length log) :: u64) \<le> length log" "unat (of_nat (length log) :: u64) < 2 ^ 32"
    unfolding u using log_call(2,3) by (simp_all add: ELOG_LINE_BUF_SIZE_def)
  from async_put_ok [OF inv(1) this] obtain k ring1 where
    p: "async_put_log log (of_nat (length log)) (sy_ring s) = Some (k, ring1)" "unat k = min (length log) (RING - async_used (sy_ring s))"
      "async_inv ring1" "async_contents ring1 = async_contents (sy_ring s) @ take (unat k) log"
      "as_is_enabled ring1 = as_is_enabled (sy_ring s)" "as_thread_running ring1 = as_thread_running (sy_ring s)"
      "as_init_ok ring1 = as_init_ok (sy_ring s)" unfolding u by blast
  then have e: "ring = ring1" "es = (if k > 0 then [Notice] else [])"
    using log_call(4,5) inv(2) by (auto simp: elog_async_output_def)
  have "async_used ring = async_used (sy_ring s) + unat k"
    using arg_cong [OF p(4), of length] p(2) e(1) by (simp add: length_contents)
  then have t: "take (async_used ring - async_used (sy_ring s)) log = take (unat k) log" by simp
  have "k > 0 \<longleftrightarrow> unat k \<noteq> 0" by (simp add: word_less_nat_alt)
  then have "async_contents ring1 \<noteq> async_contents (sy_ring s) \<longrightarrow> 0 < count_notice es"
    using p(4) e(2) by (auto simp: count_notice_def)
  moreover have "sy_accepted s = concat (sy_port s) @ in_hand (sy_thread s) @ async_contents (sy_ring s)"
    using assms(1) by (simp add: sys_inv_def)
  ultimately show ?thesis using assms(1) p(3-7) unfolding sys_inv_def log_call(1) e(1) t [unfolded e(1)]
    by (cases "async_contents ring1 = async_contents (sy_ring s)") auto
next
  case deinit
  then show ?thesis using assms(1)
    by (auto simp: sys_inv_def elog_async_deinit_def async_inv_def async_contents_def async_used_def)
qed

lemma sys_start_inv: "sys_inv async_sys_start"
  by (simp add: sys_inv_def async_sys_start_def elog_async_enabled_def elog_async_init_def elog_async_start_def
    async_inv_def async_contents_def async_used_def RING)

lemma reach_inv: "async_reach s \<Longrightarrow> sys_inv s"
  by (induction rule: async_reach.induct) (auto simp: sys_start_inv async_step_inv)

text \<open>The thread on its own, from where it gets: it outputs what is there and goes back to the test.\<close>

lemma thread_drains:
  assumes "sys_inv s" "sy_thread s = At_get"
  shows "\<exists>s'. thread_step\<^sup>*\<^sup>* s s' \<and> sy_thread s' = At_test \<and> async_contents (sy_ring s') = []
    \<and> concat (sy_port s') = sy_accepted s"
  using assms
proof (induction "length (async_contents (sy_ring s))" arbitrary: s rule: less_induct)
  case less
  have inv: "async_inv (sy_ring s)" using less.prems(1) by (simp add: sys_inv_def)
  let ?k = "unat ELOG_ASYNC_POLL_GET_LOG_BUF_SIZE"
  have k: "0 < ?k" by (simp add: ELOG_ASYNC_POLL_GET_LOG_BUF_SIZE_def OUTPUT_BUF_SIZE_def)
  from async_get_ok [OF inv, of ELOG_ASYNC_POLL_GET_LOG_BUF_SIZE] obtain ring where
    g: "elog_async_get_log ELOG_ASYNC_POLL_GET_LOG_BUF_SIZE (sy_ring s) = Some (take ?k (async_contents (sy_ring s)), ring)"
      "async_contents ring = drop ?k (async_contents (sy_ring s))" by blast
  note step = thread_step.gets [OF less.prems(2) g(1)]
  show ?case
  proof (cases "async_contents (sy_ring s) = []")
    case True
    have "concat (sy_port s) = sy_accepted s" using less.prems True by (simp add: sys_inv_def)
    then show ?thesis using step True g(2)
      by (intro exI [of _ "s\<lparr>sy_thread := At_test, sy_ring := ring\<rparr>"]) (auto intro: r_into_rtranclp)
  next
    case False
    define out where "out = take ?k (async_contents (sy_ring s))"
    have o: "out \<noteq> []" using False k by (simp add: out_def)
    define s1 where "s1 = s\<lparr>sy_thread := At_output out, sy_ring := ring\<rparr>"
    define s2 where "s2 = s1\<lparr>sy_thread := At_get, sy_port := sy_port s1 @ [out]\<rparr>"
    have st: "thread_step s s1" using step o by (simp add: s1_def out_def)
    have st2: "thread_step s1 s2" unfolding s2_def by (rule thread_step.outputs) (simp add: s1_def)
    have i2: "sys_inv s2" using thread_inv [OF less.prems(1) st] thread_inv [OF _ st2] by blast
    have "length (async_contents (sy_ring s2)) < length (async_contents (sy_ring s))"
      using g(2) False k by (simp add: s2_def s1_def)
    from less.hyps [OF this i2] obtain s' where
      s': "thread_step\<^sup>*\<^sup>* s2 s'" "sy_thread s' = At_test" "async_contents (sy_ring s') = []" "concat (sy_port s') = sy_accepted s2"
      by (auto simp: s2_def)
    have "thread_step\<^sup>*\<^sup>* s s'" using st st2 s'(1) by (meson converse_rtranclp_into_rtranclp)
    then show ?thesis using s' by (auto simp: s2_def s1_def)
  qed
qed

lemma thread_progress:
  assumes inv: "sys_inv s" and run: "as_thread_running (sy_ring s)"
  shows "\<exists>s'. thread_step\<^sup>*\<^sup>* s s' \<and> async_contents (sy_ring s') = [] \<and> concat (sy_port s') = sy_accepted s"
proof -
  have wait: "\<exists>s'. thread_step\<^sup>*\<^sup>* s s' \<and> async_contents (sy_ring s') = [] \<and> concat (sy_port s') = sy_accepted s"
    if "sys_inv s" "as_thread_running (sy_ring s)" "sy_thread s = At_wait" for s
  proof (cases "async_contents (sy_ring s) = []")
    case True
    then show ?thesis using that by (intro exI [of _ s]) (simp add: sys_inv_def)
  next
    case False
    then have "0 < sy_notice s" using that by (auto simp: sys_inv_def busy_def)
    then have st: "thread_step s (s\<lparr>sy_thread := At_get, sy_notice := sy_notice s - 1\<rparr>)" using that(3) by (rule thread_step.waits [rotated])
    from thread_drains [OF conjunct1 [OF thread_inv [OF that(1) st]]] show ?thesis
      using converse_rtranclp_into_rtranclp [of thread_step, OF st] by auto
  qed
  show ?thesis
  proof (cases "sy_thread s")
    case At_test
    then have st: "thread_step s (s\<lparr>sy_thread := At_wait\<rparr>)" using run by (rule thread_step.test_on)
    from wait [OF conjunct1 [OF thread_inv [OF inv st]]] show ?thesis
      using converse_rtranclp_into_rtranclp [of thread_step, OF st] run by auto
  next
    case At_wait
    then show ?thesis by (rule wait [OF inv run])
  next
    case At_get
    then show ?thesis using thread_drains [OF inv] by blast
  next
    case (At_output out)
    then have st: "thread_step s (s\<lparr>sy_thread := At_get, sy_port := sy_port s @ [out]\<rparr>)" by (rule thread_step.outputs)
    from thread_drains [OF conjunct1 [OF thread_inv [OF inv st]]] show ?thesis
      using converse_rtranclp_into_rtranclp [of thread_step, OF st] by auto
  next
    case Ended
    then show ?thesis using inv run by (simp add: sys_inv_def)
  qed
qed

section \<open>Properties\<close>



text \<open>
  Getting by lines: \<open>elog_async_get_line_log\<close> hands over the oldest line up to its newline sign,
  or as much as fits or is there when it finds none, with one exception: the search stops at the
  end of the array only when the newline is before it, so a line that ends exactly in the last
  cell comes together with the next line.
\<close>

theorem elog_async_line:
  assumes "async_inv s" "k < 2 ^ 32" "c = take k (async_contents s)" "n = unat OUTPUT_BUF_SIZE - unat (as_read_index s)"
  shows "\<exists>s'. async_get_line k s = Some (if length (first_line c) = n \<and> n \<le> length c
        then take n c @ first_line (drop n c) else first_line c, s')
    \<and> async_inv s' \<and> async_contents s' = drop (if length (first_line c) = n \<and> n \<le> length c
        then n + length (first_line (drop n c)) else length (first_line c)) (async_contents s)"
proof -
  from async_get_line_ok [OF assms(1), of "of_nat k"] obtain s' where
    s': "async_get_line k s = Some (line_out k s, s')" "async_inv s'" "async_contents s = line_out k s @ async_contents s'"
    unfolding async_get_line_def unat_u64_small [OF assms(2)] by blast
  have n0: "0 < n" using assms(1,4) by (simp add: async_inv_def)
  have lo: "line_out k s = (if length (first_line c) = n \<and> n \<le> length c
        then take n c @ first_line (drop n c) else first_line c)"
  proof (cases "length c < n")
    case True
    then have "line_out k s = first_line c" unfolding line_out_def Let_def assms(3,4) by (simp only: if_True)
    then show ?thesis using True by auto
  next
    case False
    then have l: "length (take n c) = n" by simp
    have "line_out k s = (if length (first_line (take n c)) = n then take n c @ first_line (drop n c) else first_line (take n c))"
      using False unfolding line_out_def Let_def assms(3,4) by (simp only: if_False)
    then show ?thesis using first_line_take(1) [of n c] first_line_take(2) [of n c] l False
      by (cases "length (first_line c) < n"; cases "length (first_line c) = n") auto
  qed
  have "async_contents s' = drop (length (line_out k s)) (async_contents s)" using s'(3) by (metis append_eq_conv_conj)
  then show ?thesis using s'(1,2) unfolding lo by (auto simp: min_absorb2)
qed

text \<open>Two empty lines, the first of them in the last cell.\<close>

definition line_example :: elog_async where
  "line_example = elog_async_start\<lparr>as_log_buf := replicate (unat OUTPUT_BUF_SIZE) (CHR 0x0A),
     as_read_index := OUTPUT_BUF_SIZE - 1, as_write_index := 1, as_buf_is_empty := False\<rparr>"

lemma line_example:
  "async_inv line_example" "async_contents line_example = [CHR 0x0A, CHR 0x0A]"
  "unat (as_read_index line_example) = unat OUTPUT_BUF_SIZE - 1"
proof -
  have r: "unat (OUTPUT_BUF_SIZE - 1) = 25599" "unat OUTPUT_BUF_SIZE = 25600" by (simp_all add: OUTPUT_BUF_SIZE_def)
  then show "unat (as_read_index line_example) = unat OUTPUT_BUF_SIZE - 1" by (simp add: line_example_def)
  have "OUTPUT_BUF_SIZE - 1 \<noteq> 1" using r(1) by (metis unat_1 numeral_eq_one_iff semiring_norm(86))
  then show "async_inv line_example" by (simp add: async_inv_def line_example_def elog_async_start_def r)
  have u: "async_used line_example = 2" by (simp add: async_used_def line_example_def elog_async_start_def r ring_count_def)
  have "\<forall>i < 2. replicate 25600 (CHR 0x0A) ! ((25599 + i) mod 25600) = CHR 0x0A" by (simp add: nth_replicate)
  then have "map (\<lambda>i. replicate 25600 (CHR 0x0A) ! ((25599 + i) mod 25600)) [0..<2] = replicate 2 (CHR 0x0A)"
    by (intro nth_equalityI) simp_all
  then show "async_contents line_example = [CHR 0x0A, CHR 0x0A]"
    unfolding async_contents_def u ring_list_def
    by (simp add: line_example_def elog_async_start_def r(1) r(2)) (simp add: numeral_2_eq_2)
qed

theorem elog_async_line_witness:
  "\<exists>s'. async_get_line 10 line_example = Some ([CHR 0x0A, CHR 0x0A], s')"
proof -
  have c: "[CHR 0x0A, CHR 0x0A] = take 10 (async_contents line_example)" by (simp add: line_example(2))
  have n: "1 = unat OUTPUT_BUF_SIZE - unat (as_read_index line_example)" by (simp add: line_example(3) OUTPUT_BUF_SIZE_def)
  from elog_async_line [OF line_example(1) _ c n] show ?thesis by (auto simp: first_line_Cons)
qed

text \<open>
  C25. The output thread: at every moment the text taken in is what the thread has output, has in
  hand, or will find in the ring, in order; and while the thread is wanted no wake-up is lost, so
  from every reachable state it can, by its own steps alone, output everything. When it is told
  to end this fails: text that was taken in before \<open>elog_async_deinit\<close> can be left in the ring,
  because the thread looks at \<open>thread_running\<close> before it looks at the ring again.
\<close>

theorem elog_async_thread:
  assumes "async_reach s"
  shows "sy_accepted s = concat (sy_port s) @ in_hand (sy_thread s) @ async_contents (sy_ring s)
    \<and> (as_thread_running (sy_ring s) \<longrightarrow>
        (\<exists>s'. thread_step\<^sup>*\<^sup>* s s' \<and> async_contents (sy_ring s') = [] \<and> concat (sy_port s') = sy_accepted s))
    \<and> (\<exists>u u'. async_reach u \<and> as_thread_running (sy_ring u) \<and> sy_accepted u \<noteq> []
        \<and> thread_step\<^sup>*\<^sup>* (elog_async_deinit u) u' \<and> sy_thread u' = Ended \<and> sy_port u' = [])"
proof -
  note inv = reach_inv [OF assms]
  have "sy_accepted s = concat (sy_port s) @ in_hand (sy_thread s) @ async_contents (sy_ring s)"
    using inv by (simp add: sys_inv_def)
  moreover have "\<exists>u u'. async_reach u \<and> as_thread_running (sy_ring u) \<and> sy_accepted u \<noteq> []
        \<and> thread_step\<^sup>*\<^sup>* (elog_async_deinit u) u' \<and> sy_thread u' = Ended \<and> sy_port u' = []"
  proof -
    have i: "async_inv (sy_ring async_sys_start)" "async_contents (sy_ring async_sys_start) = []"
      "as_is_enabled (sy_ring async_sys_start)" "async_used (sy_ring async_sys_start) = 0"
      using sys_start_inv unfolding sys_inv_def
      by (simp_all add: async_sys_start_def elog_async_enabled_def elog_async_init_def elog_async_start_def
          async_contents_def async_used_def)
    have one: "(of_nat (length ''x'') :: u64) = 1" by simp
    from async_put_ok [OF i(1), of 1 "''x''"] obtain k ring where
      p: "async_put_log ''x'' 1 (sy_ring async_sys_start) = Some (k, ring)" "unat k = 1" "async_inv ring"
        "async_contents ring = ''x''" "as_thread_running ring = as_thread_running (sy_ring async_sys_start)"
        "as_init_ok ring = as_init_ok (sy_ring async_sys_start)"
      by (auto simp: i RING)
    then have o: "elog_async_output 5 ''x'' (of_nat (length ''x'')) (sy_ring async_sys_start) = Some (if k > 0 then [Notice] else [], ring)"
      using i(3) by (simp add: elog_async_output_def elog_lvls)
    have u: "async_used ring = 1" using length_contents [of ring] p(4) by simp
    define v where "v = async_sys_start\<lparr>sy_ring := ring, sy_notice := sy_notice async_sys_start + count_notice (if k > 0 then [Notice] else []),
      sy_accepted := sy_accepted async_sys_start @ take (async_used ring - async_used (sy_ring async_sys_start)) ''x''\<rparr>"
    have "async_step async_sys_start v"
      unfolding v_def by (rule async_step.log_call [OF _ _ _ o]) (simp_all add: elog_lvls ELOG_LINE_BUF_SIZE_def)
    then have r: "async_reach v" using reach_start reach_step by blast
    have f: "as_thread_running (sy_ring v)" "as_init_ok (sy_ring v)" "sy_accepted v = ''x''" "sy_thread v = At_test" "sy_port v = []"
      using p(5,6) i(4) u by (simp_all add: v_def async_sys_start_def elog_async_enabled_def elog_async_init_def elog_async_start_def)
    have "thread_step (elog_async_deinit v) ((elog_async_deinit v)\<lparr>sy_thread := Ended\<rparr>)"
      by (rule thread_step.test_off) (simp_all add: elog_async_deinit_def f)
    then have "thread_step\<^sup>*\<^sup>* (elog_async_deinit v) ((elog_async_deinit v)\<lparr>sy_thread := Ended\<rparr>)" by (rule r_into_rtranclp)
    then show ?thesis using r f
      by (intro exI [of _ v] exI [of _ "(elog_async_deinit v)\<lparr>sy_thread := Ended\<rparr>"]) (simp add: elog_async_deinit_def)
  qed
  ultimately show ?thesis using thread_progress [OF inv] by blast
qed

theorem elog_async_thread_witness:
  "sy_accepted async_sys_start = concat (sy_port async_sys_start) @ in_hand (sy_thread async_sys_start)
      @ async_contents (sy_ring async_sys_start)"
  using elog_async_thread [OF reach_start] by blast

end
