(* ===== verification/ElogCore.thy ===== *)
theory ElogCore
  imports ElogAsync Simulation
begin

text \<open>
  The logger itself, \<open>elog.c\<close> with \<open>port/elog_port.c\<close>, in the configuration of \<open>port/elog_cfg.h\<close>
  (colors, asynchronous output). A failed assertion logs and then loops for ever, which is \<open>None\<close>,
  like undefined behaviour. Levels, which are never computed with, are numbers; formatting by
  \<open>printf\<close> directives of the caller is a parameter.
\<close>

section \<open>The object and its surroundings\<close>

record elog_tag_lvl_filter =
  tl_level :: nat
  tl_tag :: string
  tl_use :: bool

record easy_logger =
  ef_level :: nat
  ef_tag :: string
  ef_keyword :: string
  ef_tag_lvl :: "elog_tag_lvl_filter list"
  el_fmt_set :: "u64 list"
  el_init_ok :: bool
  el_output_enabled :: bool
  el_lock_enabled :: bool
  el_before_enable :: bool
  el_before_disable :: bool
  el_text_color :: bool

text \<open>
  \<open>es_held\<close> tells whether the calling thread holds the mutex of the port, which is not recursive;
  \<open>es_port\<close> is what \<open>elog_port_output\<close> was given, in order.
\<close>

record elog_sys =
  es_log :: easy_logger
  es_buf :: string
  es_held :: bool
  es_ring :: elog_async
  es_notice :: nat
  es_port :: "string list"

definition upd_log :: "(easy_logger \<Rightarrow> easy_logger) \<Rightarrow> elog_sys \<Rightarrow> elog_sys" where
  "upd_log f s = s\<lparr>es_log := f (es_log s)\<rparr>"

text \<open>The mutex: locking it twice blocks for ever, unlocking it when it is free is undefined.\<close>

definition elog_port_output_lock :: "elog_sys \<Rightarrow> elog_sys option" where
  "elog_port_output_lock s = (if es_held s then None else Some (s\<lparr>es_held := True\<rparr>))"

definition elog_port_output_unlock :: "elog_sys \<Rightarrow> elog_sys option" where
  "elog_port_output_unlock s = (if es_held s then Some (s\<lparr>es_held := False\<rparr>) else None)"

definition elog_output_lock :: "elog_sys \<Rightarrow> elog_sys option" where
  "elog_output_lock s = (if el_lock_enabled (es_log s)
     then do { s \<leftarrow> elog_port_output_lock s; Some (upd_log (\<lambda>l. l\<lparr>el_before_disable := True\<rparr>) s) }
     else Some (upd_log (\<lambda>l. l\<lparr>el_before_enable := True\<rparr>) s))"

definition elog_output_unlock :: "elog_sys \<Rightarrow> elog_sys option" where
  "elog_output_unlock s = (if el_lock_enabled (es_log s)
     then do { s \<leftarrow> elog_port_output_unlock s; Some (upd_log (\<lambda>l. l\<lparr>el_before_disable := False\<rparr>) s) }
     else Some (upd_log (\<lambda>l. l\<lparr>el_before_enable := False\<rparr>) s))"

definition elog_output_lock_enabled :: "bool \<Rightarrow> elog_sys \<Rightarrow> elog_sys option" where
  "elog_output_lock_enabled enabled s = (let s = upd_log (\<lambda>l. l\<lparr>el_lock_enabled := enabled\<rparr>) s; l = es_log s in
     if el_lock_enabled l
     then if \<not> el_before_disable l \<and> el_before_enable l then elog_port_output_lock s
       else if el_before_disable l \<and> \<not> el_before_enable l then elog_port_output_unlock s
       else Some s
     else Some s)"

section \<open>Setting up\<close>

definition elog_assert :: "bool \<Rightarrow> unit option" where
  "elog_assert expr = guard_opt expr"

definition elog_set_output_enabled :: "bool \<Rightarrow> elog_sys \<Rightarrow> elog_sys" where
  "elog_set_output_enabled enabled = upd_log (\<lambda>l. l\<lparr>el_output_enabled := enabled\<rparr>)"

definition elog_set_text_color_enabled :: "bool \<Rightarrow> elog_sys \<Rightarrow> elog_sys" where
  "elog_set_text_color_enabled enabled = upd_log (\<lambda>l. l\<lparr>el_text_color := enabled\<rparr>)"

definition elog_get_text_color_enabled :: "elog_sys \<Rightarrow> bool" where
  "elog_get_text_color_enabled s = el_text_color (es_log s)"

definition elog_get_output_enabled :: "elog_sys \<Rightarrow> bool" where
  "elog_get_output_enabled s = el_output_enabled (es_log s)"

definition elog_set_fmt :: "nat \<Rightarrow> u64 \<Rightarrow> elog_sys \<Rightarrow> elog_sys option" where
  "elog_set_fmt level st s = do {
     elog_assert (level \<le> ELOG_LVL_VERBOSE);
     Some (upd_log (\<lambda>l. l\<lparr>el_fmt_set := (el_fmt_set l)[level := st]\<rparr>) s) }"

definition elog_set_filter_lvl :: "nat \<Rightarrow> elog_sys \<Rightarrow> elog_sys option" where
  "elog_set_filter_lvl level s = do {
     elog_assert (level \<le> ELOG_LVL_VERBOSE);
     Some (upd_log (\<lambda>l. l\<lparr>ef_level := level\<rparr>) s) }"

text \<open>\<open>strncpy\<close> into an array whose last character stays null.\<close>

definition elog_set_filter_tag :: "string \<Rightarrow> elog_sys \<Rightarrow> elog_sys" where
  "elog_set_filter_tag tag = upd_log (\<lambda>l. l\<lparr>ef_tag := take ELOG_FILTER_TAG_MAX_LEN tag\<rparr>)"

definition elog_set_filter_kw :: "string \<Rightarrow> elog_sys \<Rightarrow> elog_sys" where
  "elog_set_filter_kw keyword = upd_log (\<lambda>l. l\<lparr>ef_keyword := take ELOG_FILTER_KW_MAX_LEN keyword\<rparr>)"

definition elog_set_filter :: "nat \<Rightarrow> string \<Rightarrow> string \<Rightarrow> elog_sys \<Rightarrow> elog_sys option" where
  "elog_set_filter level tag keyword s = do {
     elog_assert (level \<le> ELOG_LVL_VERBOSE);
     s \<leftarrow> elog_set_filter_lvl level s;
     Some (elog_set_filter_kw keyword (elog_set_filter_tag tag s)) }"

definition tag_lvl_unused :: elog_tag_lvl_filter where
  "tag_lvl_unused = \<lparr>tl_level = ELOG_FILTER_LVL_SILENT, tl_tag = [], tl_use = False\<rparr>"

definition elog_set_filter_tag_lvl_default :: "elog_sys \<Rightarrow> elog_sys" where
  "elog_set_filter_tag_lvl_default = upd_log (\<lambda>l. l\<lparr>ef_tag_lvl := replicate ELOG_FILTER_TAG_LVL_MAX_NUM tag_lvl_unused\<rparr>)"

text \<open>\<open>mutex\<close> tells whether \<open>osal_mutex_create\<close> succeeds; the result is whether the call did.\<close>

definition elog_init :: "bool \<Rightarrow> elog_sys \<Rightarrow> (bool \<times> elog_sys) option" where
  "elog_init mutex s =
     (if el_init_ok (es_log s) then Some (True, s)
      else if \<not> mutex then Some (False, s)
      else do {
        let s = s\<lparr>es_ring := elog_async_init (es_ring s)\<rparr>;
        s \<leftarrow> elog_output_lock_enabled True s;
        let s = upd_log (\<lambda>l. l\<lparr>el_before_enable := False, el_before_disable := False\<rparr>) s;
        let s = elog_set_text_color_enabled True s;
        s \<leftarrow> elog_set_filter_lvl ELOG_LVL_VERBOSE s;
        let s = elog_set_filter_tag_lvl_default s;
        Some (True, upd_log (\<lambda>l. l\<lparr>el_init_ok := True\<rparr>) s) })"

section \<open>Levels by tag\<close>

text \<open>The index of the first entry that satisfies the test, or the length of the array.\<close>

fun first_index :: "('a \<Rightarrow> bool) \<Rightarrow> 'a list \<Rightarrow> nat" where
  "first_index P [] = 0"
| "first_index P (x # xs) = (if P x then 0 else Suc (first_index P xs))"

text \<open>\<open>strncmp\<close> of the first characters.\<close>

definition same_tag :: "string \<Rightarrow> elog_tag_lvl_filter \<Rightarrow> bool" where
  "same_tag tag e \<longleftrightarrow> tl_use e = True \<and> take ELOG_FILTER_TAG_MAX_LEN tag = take ELOG_FILTER_TAG_MAX_LEN (tl_tag e)"

definition set_tag_lvl :: "string \<Rightarrow> nat \<Rightarrow> elog_tag_lvl_filter list \<Rightarrow> elog_tag_lvl_filter list" where
  "set_tag_lvl tag level es = (let i = first_index (same_tag tag) es in
     if i < ELOG_FILTER_TAG_LVL_MAX_NUM
     then if level = ELOG_FILTER_LVL_ALL then es[i := tag_lvl_unused] else es[i := (es ! i)\<lparr>tl_level := level\<rparr>]
     else if level \<noteq> ELOG_FILTER_LVL_ALL
     then let i = first_index (\<lambda>e. tl_use e = False) es in
       if i < ELOG_FILTER_TAG_LVL_MAX_NUM
       then es[i := \<lparr>tl_level = level, tl_tag = take ELOG_FILTER_TAG_MAX_LEN tag, tl_use = True\<rparr>] else es
     else es)"

definition elog_set_filter_tag_lvl :: "string \<Rightarrow> nat \<Rightarrow> elog_sys \<Rightarrow> elog_sys option" where
  "elog_set_filter_tag_lvl tag level s = do {
     elog_assert (level \<le> ELOG_LVL_VERBOSE);
     if \<not> el_init_ok (es_log s) then Some s
     else do {
       s \<leftarrow> elog_output_lock s;
       elog_output_unlock (upd_log (\<lambda>l. l\<lparr>ef_tag_lvl := set_tag_lvl tag level (ef_tag_lvl l)\<rparr>) s) } }"

definition get_tag_lvl :: "string \<Rightarrow> elog_tag_lvl_filter list \<Rightarrow> nat" where
  "get_tag_lvl tag es = (let i = first_index (same_tag tag) es in
     if i < ELOG_FILTER_TAG_LVL_MAX_NUM then tl_level (es ! i) else ELOG_FILTER_LVL_ALL)"

definition elog_get_filter_tag_lvl :: "string \<Rightarrow> elog_sys \<Rightarrow> (nat \<times> elog_sys) option" where
  "elog_get_filter_tag_lvl tag s =
     (if \<not> el_init_ok (es_log s) then Some (ELOG_FILTER_LVL_ALL, s)
      else do {
        s \<leftarrow> elog_output_lock s;
        let level = get_tag_lvl tag (ef_tag_lvl (es_log s));
        s \<leftarrow> elog_output_unlock s;
        Some (level, s) })"


section \<open>The tag levels as a map of limited size\<close>

lemma first_index_le: "first_index P xs \<le> length xs"
  by (induction xs) auto

lemma first_index_none: "first_index P xs = length xs \<longleftrightarrow> (\<forall>x \<in> set xs. \<not> P x)"
  using first_index_le [of P] by (induction xs) (auto, (metis Suc_n_not_le_n nat.distinct(1))?)

lemma first_index_split:
  assumes "first_index P xs < length xs"
  obtains as x bs where "xs = as @ x # bs" "P x" "\<forall>y \<in> set as. \<not> P y" "first_index P xs = length as"
  using assms
proof (induction xs arbitrary: thesis)
  case (Cons y ys)
  show ?case
  proof (cases "P y")
    case True then show ?thesis using Cons.prems(1) [of "[]" y ys] by simp
  next
    case False
    then obtain as x bs where "ys = as @ x # bs" "P x" "\<forall>y \<in> set as. \<not> P y" "first_index P ys = length as"
      using Cons.IH Cons.prems(2) by auto
    then show ?thesis using Cons.prems(1) [of "y # as" x bs] False by simp
  qed
qed simp

datatype tag_op = Set_level string nat | Get_level string

fun tag_code :: "tag_op \<Rightarrow> elog_sys \<Rightarrow> (nat option \<times> elog_sys) option" where
  "tag_code (Set_level tag level) s = do { s \<leftarrow> elog_set_filter_tag_lvl tag level s; Some (None, s) }"
| "tag_code (Get_level tag) s = do { (l, s) \<leftarrow> elog_get_filter_tag_lvl tag s; Some (Some l, s) }"

definition tag_key :: "string \<Rightarrow> string" where
  "tag_key tag = take ELOG_FILTER_TAG_MAX_LEN tag"

text \<open>The contract: a map from cut tags to levels with at most five entries, all levels by default.\<close>

fun tag_spec :: "tag_op \<Rightarrow> (string \<rightharpoonup> nat) \<Rightarrow> nat option \<times> (string \<rightharpoonup> nat)" where
  "tag_spec (Set_level tag level) m = (None,
     if level = ELOG_FILTER_LVL_ALL then m(tag_key tag := None)
     else if tag_key tag \<in> dom m \<or> card (dom m) < ELOG_FILTER_TAG_LVL_MAX_NUM then m(tag_key tag \<mapsto> level)
     else m)"
| "tag_spec (Get_level tag) m =
     (Some (case m (tag_key tag) of None \<Rightarrow> ELOG_FILTER_LVL_ALL | Some l \<Rightarrow> l), m)"

fun tag_op_ok :: "tag_op \<Rightarrow> bool" where
  "tag_op_ok (Set_level tag level) = (level \<le> ELOG_LVL_VERBOSE)"
| "tag_op_ok (Get_level tag) = True"

definition used_tags :: "elog_tag_lvl_filter list \<Rightarrow> string list" where
  "used_tags es = map tl_tag (filter tl_use es)"

definition tag_map :: "elog_tag_lvl_filter list \<Rightarrow> (string \<rightharpoonup> nat)" where
  "tag_map es = map_of (map (\<lambda>e. (tl_tag e, tl_level e)) (filter tl_use es))"

definition tags_ok :: "elog_tag_lvl_filter list \<Rightarrow> bool" where
  "tags_ok es \<longleftrightarrow> length es = ELOG_FILTER_TAG_LVL_MAX_NUM \<and> distinct (used_tags es)
     \<and> (\<forall>t \<in> set (used_tags es). length t \<le> ELOG_FILTER_TAG_MAX_LEN)"

text \<open>The lock is usable: it is on and free, and nothing is pending for when it is switched on.\<close>

definition lock_free :: "elog_sys \<Rightarrow> bool" where
  "lock_free s \<longleftrightarrow> el_lock_enabled (es_log s) \<and> \<not> el_before_disable (es_log s) \<and> \<not> es_held s"

definition tag_inv :: "elog_sys \<Rightarrow> bool" where
  "tag_inv s \<longleftrightarrow> el_init_ok (es_log s) \<and> lock_free s \<and> tags_ok (ef_tag_lvl (es_log s))"

lemma dom_tag_map: "dom (tag_map es) = set (used_tags es)"
  by (auto simp: tag_map_def used_tags_def dom_map_of_conv_image_fst image_image)

lemma card_tag_map: "distinct (used_tags es) \<Longrightarrow> card (dom (tag_map es)) = length (filter tl_use es)"
  unfolding dom_tag_map by (simp add: distinct_card) (simp add: used_tags_def)

lemma same_tag_key:
  assumes "tags_ok es" "e \<in> set es"
  shows "same_tag tag e \<longleftrightarrow> tl_use e \<and> tl_tag e = tag_key tag"
proof -
  have "tl_use e \<Longrightarrow> length (tl_tag e) \<le> ELOG_FILTER_TAG_MAX_LEN"
    using assms by (auto simp: tags_ok_def used_tags_def)
  then show ?thesis by (auto simp: same_tag_def tag_key_def)
qed

text \<open>Either no entry has the tag, or exactly one.\<close>

lemma tag_entry:
  assumes ok: "tags_ok es"
  obtains (absent) "first_index (same_tag tag) es = length es" "tag_key tag \<notin> dom (tag_map es)"
  | (present) as e bs where "es = as @ e # bs" "tl_use e" "tl_tag e = tag_key tag"
      "first_index (same_tag tag) es = length as" "tag_key tag \<notin> set (used_tags (as @ bs))"
proof (cases "first_index (same_tag tag) es < length es")
  case True
  then obtain as e bs where s: "es = as @ e # bs" "same_tag tag e" "first_index (same_tag tag) es = length as"
    by (rule first_index_split)
  then have e: "tl_use e" "tl_tag e = tag_key tag" using same_tag_key [OF ok, of e tag] by auto
  have "tag_key tag \<notin> set (used_tags (as @ bs))" using ok e by (auto simp: s(1) tags_ok_def used_tags_def)
  then show ?thesis using present s e by blast
next
  case False
  then have n: "first_index (same_tag tag) es = length es" using first_index_le [of "same_tag tag" es] by simp
  have no: "\<not> same_tag tag e" if "e \<in> set es" for e using n that by (simp add: first_index_none)
  have "tag_key tag \<notin> dom (tag_map es)"
  proof
    assume "tag_key tag \<in> dom (tag_map es)"
    then obtain e where "e \<in> set es" "tl_use e" "tl_tag e = tag_key tag"
      by (auto simp: dom_tag_map used_tags_def)
    then show False using no [of e] same_tag_key [OF ok, of e tag] by simp
  qed
  then show ?thesis using absent n by blast
qed

lemma map_of_middle:
  "k \<notin> fst ` set as \<Longrightarrow> map_of (as @ (k, v) # bs) = (map_of (as @ bs))(k \<mapsto> v)"
  by (induction as) (auto simp: fun_upd_twist)

lemma tag_map_middle:
  assumes "tl_use e" "tl_tag e \<notin> set (used_tags (as @ bs))"
  shows "tag_map (as @ e # bs) = (tag_map (as @ bs))(tl_tag e \<mapsto> tl_level e)"
proof -
  have n: "tl_tag e \<notin> fst ` set (map (\<lambda>e. (tl_tag e, tl_level e)) (filter tl_use as))"
    using assms(2) by (auto simp: used_tags_def)
  show ?thesis unfolding tag_map_def using map_of_middle [OF n] assms(1) by simp
qed

lemma tag_map_unused: "\<not> tl_use e \<Longrightarrow> tag_map (as @ e # bs) = tag_map (as @ bs)"
  by (simp add: tag_map_def)

lemma tags_ok_middle:
  assumes "tags_ok (as @ e # bs)" "tl_use f \<longrightarrow> tl_tag f \<notin> set (used_tags (as @ bs)) \<and> length (tl_tag f) \<le> ELOG_FILTER_TAG_MAX_LEN"
  shows "tags_ok (as @ f # bs)"
  using assms by (cases "tl_use e") (auto simp: tags_ok_def used_tags_def)

lemma get_tag_lvl_ok:
  assumes ok: "tags_ok es"
  shows "get_tag_lvl tag es = (case tag_map es (tag_key tag) of None \<Rightarrow> ELOG_FILTER_LVL_ALL | Some l \<Rightarrow> l)"
proof -
  have len: "length es = ELOG_FILTER_TAG_LVL_MAX_NUM" using ok by (simp add: tags_ok_def)
  show ?thesis using ok
  proof (cases rule: tag_entry [of es tag])
    case absent
    then show ?thesis using len by (simp add: get_tag_lvl_def domIff)
  next
    case (present as e bs)
    then show ?thesis using len by (simp add: get_tag_lvl_def tag_map_middle)
  qed
qed

lemma set_tag_lvl_ok:
  assumes ok: "tags_ok es"
  shows "tags_ok (set_tag_lvl tag level es)"
    and "(None, tag_map (set_tag_lvl tag level es)) = tag_spec (Set_level tag level) (tag_map es)"
proof -
  have len: "length es = ELOG_FILTER_TAG_LVL_MAX_NUM" and dist: "distinct (used_tags es)"
    using ok by (simp_all add: tags_ok_def)
  have key: "length (tag_key tag) \<le> ELOG_FILTER_TAG_MAX_LEN" by (simp add: tag_key_def)
  have "tags_ok (set_tag_lvl tag level es) \<and>
    tag_map (set_tag_lvl tag level es) = snd (tag_spec (Set_level tag level) (tag_map es))"
    using ok
  proof (cases rule: tag_entry [of es tag])
    case (present as e bs)
    have n: "tag_key tag \<notin> dom (tag_map (as @ bs))" using present(5) by (simp add: dom_tag_map)
    have m: "tag_map es = (tag_map (as @ bs))(tag_key tag \<mapsto> tl_level e)"
      using present by (simp add: tag_map_middle)
    show ?thesis
    proof (cases "level = ELOG_FILTER_LVL_ALL")
      case True
      then have "set_tag_lvl tag level es = as @ tag_lvl_unused # bs"
        using present len by (simp add: set_tag_lvl_def)
      then show ?thesis using tags_ok_middle [of as e bs tag_lvl_unused] ok present(1) True n m
        by (auto simp: tag_lvl_unused_def tag_map_unused domIff)
    next
      case False
      then have "set_tag_lvl tag level es = as @ e\<lparr>tl_level := level\<rparr> # bs"
        using present len by (simp add: set_tag_lvl_def)
      then show ?thesis
        using tags_ok_middle [of as e bs "e\<lparr>tl_level := level\<rparr>"] ok present key False m
        by (simp add: tag_map_middle)
    qed
  next
    case absent
    have a: "\<not> first_index (same_tag tag) es < ELOG_FILTER_TAG_LVL_MAX_NUM" using absent(1) len by simp
    have cnt: "card (dom (tag_map es)) = length (filter tl_use es)" using dist by (rule card_tag_map)
    let ?i = "first_index (\<lambda>e. tl_use e = False) es"
    consider (all) "level = ELOG_FILTER_LVL_ALL" | (free) "level \<noteq> ELOG_FILTER_LVL_ALL" "?i < length es"
      | (full) "level \<noteq> ELOG_FILTER_LVL_ALL" "?i = length es"
      using first_index_le [of "\<lambda>e. tl_use e = False" es] by linarith
    then show ?thesis
    proof cases
      case all
      then show ?thesis using a ok absent(2) by (auto simp: set_tag_lvl_def domIff fun_upd_idem)
    next
      case full
      then have "filter tl_use es = es" by (simp add: first_index_none)
      then show ?thesis using a ok absent(2) full len cnt by (simp add: set_tag_lvl_def)
    next
      case free
      from free(2) obtain as e bs where s: "es = as @ e # bs" "\<not> tl_use e" "?i = length as"
        by (rule first_index_split) auto
      let ?f = "\<lparr>tl_level = level, tl_tag = tag_key tag, tl_use = True\<rparr>"
      have r: "set_tag_lvl tag level es = as @ ?f # bs"
        using a free s len by (simp add: set_tag_lvl_def Let_def tag_key_def)
      have m: "tag_map es = tag_map (as @ bs)" using s by (simp add: tag_map_unused)
      have k: "tag_key tag \<notin> set (used_tags (as @ bs))" using absent(2) by (simp add: m dom_tag_map)
      have "length (filter tl_use es) < length es" using s(1,2) by (intro length_filter_less [of e]) auto
      then have c: "card (dom (tag_map es)) < ELOG_FILTER_TAG_LVL_MAX_NUM" using cnt len by simp
      have "tags_ok (as @ ?f # bs)" using tags_ok_middle [of as e bs ?f] ok s(1) k key by simp
      moreover have "tag_map (as @ ?f # bs) = (tag_map es)(tag_key tag \<mapsto> level)"
        using k by (simp add: tag_map_middle m)
      ultimately show ?thesis using free(1) c by (simp add: r)
    qed
  qed
  then show "tags_ok (set_tag_lvl tag level es)"
    and "(None, tag_map (set_tag_lvl tag level es)) = tag_spec (Set_level tag level) (tag_map es)" by auto
qed

text \<open>Taking and releasing the lock, as the filter functions do.\<close>

lemma lock_unlock:
  assumes "lock_free s" "\<And>l. el_lock_enabled (f l) = el_lock_enabled l \<and> el_before_disable (f l) = el_before_disable l"
  shows "elog_output_lock s = Some (s\<lparr>es_held := True, es_log := (es_log s)\<lparr>el_before_disable := True\<rparr>\<rparr>)"
    and "do { s \<leftarrow> elog_output_lock s; elog_output_unlock (upd_log f s) }
      = Some (s\<lparr>es_log := (f ((es_log s)\<lparr>el_before_disable := True\<rparr>))\<lparr>el_before_disable := False\<rparr>\<rparr>)"
  using assms
  by (simp_all add: lock_free_def elog_output_lock_def elog_output_unlock_def elog_port_output_lock_def
      elog_port_output_unlock_def upd_log_def)

lemma set_level_ok:
  assumes "tag_inv s" "level \<le> ELOG_LVL_VERBOSE"
  shows "elog_set_filter_tag_lvl tag level s
    = Some (upd_log (\<lambda>l. l\<lparr>ef_tag_lvl := set_tag_lvl tag level (ef_tag_lvl l)\<rparr>) s)"
  using assms
  by (cases s; cases "es_log s")
    (simp add: elog_set_filter_tag_lvl_def elog_assert_def tag_inv_def lock_free_def elog_output_lock_def
      elog_output_unlock_def elog_port_output_lock_def elog_port_output_unlock_def upd_log_def)

lemma get_level_ok:
  assumes "tag_inv s"
  shows "elog_get_filter_tag_lvl tag s = Some (get_tag_lvl tag (ef_tag_lvl (es_log s)), s)"
  using assms
  by (cases s; cases "es_log s")
    (simp add: elog_get_filter_tag_lvl_def tag_inv_def lock_free_def elog_output_lock_def
      elog_output_unlock_def elog_port_output_lock_def elog_port_output_unlock_def upd_log_def)

interpretation tag_levels: simulation tag_code tag_spec tag_inv "\<lambda>s. tag_map (ef_tag_lvl (es_log s))" tag_op_ok
proof
  fix s op assume inv: "tag_inv s" and ok: "tag_op_ok op"
  then have t: "tags_ok (ef_tag_lvl (es_log s))" by (simp add: tag_inv_def)
  show "\<exists>r s'. tag_code op s = Some (r, s') \<and> tag_inv s'
    \<and> tag_spec op (tag_map (ef_tag_lvl (es_log s))) = (r, tag_map (ef_tag_lvl (es_log s')))"
  proof (cases op)
    case (Set_level tag level)
    let ?s = "upd_log (\<lambda>l. l\<lparr>ef_tag_lvl := set_tag_lvl tag level (ef_tag_lvl l)\<rparr>) s"
    have "tag_inv ?s" using inv set_tag_lvl_ok(1) [OF t] by (simp add: tag_inv_def lock_free_def upd_log_def)
    moreover have "tag_spec op (tag_map (ef_tag_lvl (es_log s))) = (None, tag_map (ef_tag_lvl (es_log ?s)))"
      using set_tag_lvl_ok(2) [OF t, of tag level] Set_level by (simp add: upd_log_def)
    moreover have "tag_code op s = Some (None, ?s)" using inv ok by (simp add: Set_level set_level_ok)
    ultimately show ?thesis by blast
  next
    case (Get_level tag)
    then show ?thesis using inv get_level_ok [OF inv] get_tag_lvl_ok [OF t] by simp
  qed
qed

text \<open>A state after \<open>elog_init\<close>, for concrete runs.\<close>

definition elog_zero :: elog_sys where
  "elog_zero = \<lparr>es_log = \<lparr>ef_level = 0, ef_tag = [], ef_keyword = [],
     ef_tag_lvl = replicate ELOG_FILTER_TAG_LVL_MAX_NUM tag_lvl_unused, el_fmt_set = replicate ELOG_LVL_TOTAL_NUM 0,
     el_init_ok = False, el_output_enabled = False, el_lock_enabled = False, el_before_enable = False,
     el_before_disable = False, el_text_color = False\<rparr>,
     es_buf = replicate ELOG_LINE_BUF_SIZE (CHR 0x00), es_held = False, es_ring = elog_async_start,
     es_notice = 0, es_port = []\<rparr>"

definition elog_ready :: elog_sys where
  "elog_ready = (case elog_init True elog_zero of Some (_, s) \<Rightarrow> s | None \<Rightarrow> elog_zero)"

lemmas elog_ready_eval = elog_ready_def elog_init_def elog_zero_def elog_output_lock_enabled_def upd_log_def
  elog_set_text_color_enabled_def elog_set_filter_lvl_def elog_assert_def elog_set_filter_tag_lvl_default_def
  elog_port_output_lock_def elog_port_output_unlock_def

lemma elog_ready_facts:
  "es_log elog_ready = \<lparr>ef_level = ELOG_LVL_VERBOSE, ef_tag = [], ef_keyword = [],
     ef_tag_lvl = replicate ELOG_FILTER_TAG_LVL_MAX_NUM tag_lvl_unused, el_fmt_set = replicate ELOG_LVL_TOTAL_NUM 0,
     el_init_ok = True, el_output_enabled = False, el_lock_enabled = True, el_before_enable = False,
     el_before_disable = False, el_text_color = True\<rparr>"
  "es_held elog_ready = False" "es_buf elog_ready = replicate ELOG_LINE_BUF_SIZE (CHR 0x00)"
  "es_ring elog_ready = elog_async_init elog_async_start" "es_notice elog_ready = 0" "es_port elog_ready = []"
  by (simp_all add: elog_ready_eval Let_def)

lemma elog_ready_tag_inv: "tag_inv elog_ready"
  by (simp add: tag_inv_def lock_free_def elog_ready_facts tags_ok_def used_tags_def tag_lvl_unused_def)

text \<open>
  C26. The levels by tag behave as a map of at most five tags, a tag being its first 16 characters:
  any sequence of \<open>elog_set_filter_tag_lvl\<close> and \<open>elog_get_filter_tag_lvl\<close> is defined, leaves the lock
  free, and answers as the map does. Setting all levels removes the tag; a sixth tag is ignored.
\<close>

theorem elog_tag_levels:
  assumes "tag_inv s" "\<forall>op \<in> set ops. tag_op_ok op"
  shows "\<exists>rs s'. run_partial tag_code ops s = Some (rs, s') \<and> tag_inv s'
    \<and> run_total tag_spec ops (tag_map (ef_tag_lvl (es_log s))) = (rs, tag_map (ef_tag_lvl (es_log s')))"
  using assms by (rule tag_levels.run)

theorem elog_tag_levels_witness:
  "\<exists>s'. run_partial tag_code [Set_level ''net'' 1, Get_level ''net'', Get_level ''app''] elog_ready
     = Some ([None, Some 1, Some ELOG_LVL_VERBOSE], s') \<and> tag_inv s'"
proof -
  let ?ops = "[Set_level ''net'' 1, Get_level ''net'', Get_level ''app'']"
  have m: "tag_map (ef_tag_lvl (es_log elog_ready)) = Map.empty"
    by (simp add: elog_ready_facts tag_map_def tag_lvl_unused_def)
  have r: "fst (run_total tag_spec ?ops Map.empty) = [None, Some 1, Some ELOG_LVL_VERBOSE]"
    by (simp add: elog_lvls tag_key_def ELOG_FILTER_TAG_MAX_LEN_def ELOG_FILTER_TAG_LVL_MAX_NUM_def)
  have ok: "\<forall>op \<in> set ?ops. tag_op_ok op" by (simp add: elog_lvls)
  obtain rs s' where "run_partial tag_code ?ops elog_ready = Some (rs, s')" "tag_inv s'"
    "run_total tag_spec ?ops (tag_map (ef_tag_lvl (es_log elog_ready))) = (rs, tag_map (ef_tag_lvl (es_log s')))"
    using elog_tag_levels [OF elog_ready_tag_inv ok] by blast
  then show ?thesis using r unfolding m by (metis fst_conv)
qed

section \<open>Switching the lock off and on\<close>

datatype lock_op = Enable bool | Lock | Unlock

fun lock_code :: "lock_op \<Rightarrow> elog_sys \<Rightarrow> elog_sys option" where
  "lock_code (Enable b) = elog_output_lock_enabled b"
| "lock_code Lock = elog_output_lock"
| "lock_code Unlock = elog_output_unlock"

text \<open>
  A lock taken while locking is switched off is taken on the mutex when it is switched on again,
  and releasing it then frees the mutex; but the note that it was taken stays, so that a further
  \<open>elog_output_lock_enabled(true)\<close> takes the mutex for nobody and the next output blocks for ever.
\<close>

theorem elog_lock_toggle:
  assumes "lock_free s" "\<not> el_before_enable (es_log s)"
  shows "\<exists>s1 s2. run_cmds lock_code [Enable False, Lock, Enable True] s = Some s1 \<and> es_held s1
    \<and> run_cmds lock_code [Unlock] s1 = Some s2 \<and> lock_free s2
    \<and> run_cmds lock_code [Lock, Unlock] s2 = Some s2
    \<and> run_cmds lock_code [Enable True, Lock] s2 = None"
  using assms
  by (cases s; cases "es_log s")
    (simp add: lock_free_def elog_output_lock_def elog_output_unlock_def elog_output_lock_enabled_def
      elog_port_output_lock_def elog_port_output_unlock_def upd_log_def Let_def)

theorem elog_lock_toggle_witness:
  "\<exists>s1. run_cmds lock_code [Enable False, Lock, Enable True] elog_ready = Some s1
    \<and> run_cmds lock_code [Unlock, Enable True, Lock] s1 = None"
  using elog_lock_toggle [of elog_ready] by (fastforce simp: elog_ready_facts lock_free_def)

end
