(* ===== verification/ElogLine.thy ===== *)
theory ElogLine
  imports ElogCore
begin

text \<open>
  Composing and handing over a line of the log: \<open>elog_output\<close>, \<open>elog_raw_output\<close> and what reads lines
  back, in \<open>elog.c\<close>. The result of \<open>vsnprintf\<close> is an argument: the text of the caller's format and
  arguments, or a failure that leaves something in the buffer. The clock is an argument too.
\<close>

section \<open>Constants and text\<close>

definition CSI_START :: string where "CSI_START = [CHR 0x1B, CHR ''['']"
definition CSI_END :: string where "CSI_END = [CHR 0x1B, CHR ''['', CHR ''0'', CHR ''m'']"

definition color_output_info :: "string list" where
  "color_output_info = [''35;22m'', ''31;22m'', ''33;22m'', ''36;22m'', ''32;22m'', ''34;22m'']"

definition level_output_info :: "string list" where
  "level_output_info = [''A/'', ''E/'', ''W/'', ''I/'', ''D/'', ''V/'']"

definition ELOG_FMT_LVL :: u64 where "ELOG_FMT_LVL = 1"
definition ELOG_FMT_TAG :: u64 where "ELOG_FMT_TAG = 2"
definition ELOG_FMT_TIME :: u64 where "ELOG_FMT_TIME = 4"
definition ELOG_FMT_P_INFO :: u64 where "ELOG_FMT_P_INFO = 8"
definition ELOG_FMT_T_INFO :: u64 where "ELOG_FMT_T_INFO = 16"
definition ELOG_FMT_DIR :: u64 where "ELOG_FMT_DIR = 32"
definition ELOG_FMT_FUNC :: u64 where "ELOG_FMT_FUNC = 64"
definition ELOG_FMT_LINE :: u64 where "ELOG_FMT_LINE = 128"

lemmas elog_fmts = ELOG_FMT_LVL_def ELOG_FMT_TAG_def ELOG_FMT_TIME_def ELOG_FMT_P_INFO_def
  ELOG_FMT_T_INFO_def ELOG_FMT_DIR_def ELOG_FMT_FUNC_def ELOG_FMT_LINE_def

text \<open>Numbers, as the \<open>printf\<close> directives of the code write them.\<close>

fun num_str :: "nat \<Rightarrow> nat \<Rightarrow> string" where
  "num_str b n = (if n < b \<or> b < 2 then [''0123456789ABCDEF'' ! n]
     else num_str b (n div b) @ [''0123456789ABCDEF'' ! (n mod b)])"

declare num_str.simps [simp del]

definition zero_pad :: "nat \<Rightarrow> string \<Rightarrow> string" where
  "zero_pad k s = replicate (k - length s) (CHR ''0'') @ s"

text \<open>\<open>%ld\<close>.\<close>

definition long_str :: "u64 \<Rightarrow> string" where
  "long_str w = (if sint w < 0 then CHR ''-'' # num_str 10 (nat (- sint w)) else num_str 10 (nat (sint w)))"

text \<open>\<open>snprintf\<close> into a buffer of \<open>n\<close> characters keeps one of them for the null character.\<close>

definition snprintf_text :: "nat \<Rightarrow> string \<Rightarrow> string" where
  "snprintf_text n text = take (n - 1) text"

definition elog_port_get_p_info :: "nat \<Rightarrow> string" where
  "elog_port_get_p_info pid = snprintf_text 10 (''pid:'' @ zero_pad 4 (num_str 10 pid))"

definition elog_port_get_t_info :: "nat \<Rightarrow> string" where
  "elog_port_get_t_info tid = snprintf_text 10 (''tid:'' @ zero_pad 4 (num_str 10 tid))"

text \<open>\<open>strstr\<close>, as a test.\<close>

fun strstr :: "string \<Rightarrow> string \<Rightarrow> bool" where
  "strstr [] needle \<longleftrightarrow> needle = []"
| "strstr (c # s) needle \<longleftrightarrow> take (length needle) (c # s) = needle \<or> strstr s needle"

lemma strstr_iff: "strstr s needle \<longleftrightarrow> (\<exists>a b. s = a @ needle @ b)"
proof (induction s)
  case (Cons c s)
  show ?case
  proof
    assume "strstr (c # s) needle"
    then consider "take (length needle) (c # s) = needle" | "strstr s needle" by auto
    then show "\<exists>a b. c # s = a @ needle @ b"
    proof cases
      case 1
      then have "c # s = [] @ needle @ drop (length needle) (c # s)" by (metis append_Nil append_take_drop_id)
      then show ?thesis by blast
    next
      case 2
      then obtain a b where "s = a @ needle @ b" using Cons.IH by blast
      then have "c # s = (c # a) @ needle @ b" by simp
      then show ?thesis by blast
    qed
  next
    assume "\<exists>a b. c # s = a @ needle @ b"
    then obtain a b where ab: "c # s = a @ needle @ b" by blast
    show "strstr (c # s) needle"
    proof (cases a)
      case Nil
      then have "take (length needle) (c # s) = needle" using ab by simp
      then show ?thesis by simp
    next
      case (Cons _ a')
      then have "s = a' @ needle @ b" using ab by simp
      then show ?thesis using Cons.IH by auto
    qed
  qed
qed auto

lemma strstr_empty [simp]: "strstr s []"
  by (cases s) auto

section \<open>Composing the line\<close>

text \<open>What the line tells beside the message: its place in the source and its surroundings.\<close>

record log_place =
  lp_file :: "string option"
  lp_func :: "string option"
  lp_line :: u64

record log_info =
  li_time :: string
  li_pid :: nat
  li_tid :: nat

definition get_fmt_enabled :: "nat \<Rightarrow> u64 \<Rightarrow> easy_logger \<Rightarrow> bool option" where
  "get_fmt_enabled level st l = do {
     elog_assert (level \<le> ELOG_LVL_VERBOSE);
     Some (el_fmt_set l ! level AND st \<noteq> 0) }"

definition get_fmt_used_and_enabled_u32 :: "nat \<Rightarrow> u64 \<Rightarrow> u32 \<Rightarrow> easy_logger \<Rightarrow> bool option" where
  "get_fmt_used_and_enabled_u32 level st arg l = (if arg \<noteq> 0 then get_fmt_enabled level st l else Some False)"

definition get_fmt_used_and_enabled_ptr :: "nat \<Rightarrow> u64 \<Rightarrow> string option \<Rightarrow> easy_logger \<Rightarrow> bool option" where
  "get_fmt_used_and_enabled_ptr level st arg l = (if arg \<noteq> None then get_fmt_enabled level st l else Some False)"

text \<open>The state of the composition is \<open>log_len\<close> and \<open>log_buf\<close>.\<close>

type_synonym line_st = "nat \<times> string"

text \<open>\<open>log_len += elog_strcpy(log_len, log_buf + log_len, src)\<close>.\<close>

definition put :: "string \<Rightarrow> line_st \<Rightarrow> line_st option" where
  "put src st = (case st of (log_len, buf) \<Rightarrow>
     do { (n, buf) \<leftarrow> elog_strcpy log_len log_len src buf; Some (log_len + n, buf) })"

definition put_color :: "easy_logger \<Rightarrow> nat \<Rightarrow> line_st \<Rightarrow> line_st option" where
  "put_color l level st = (if el_text_color l
     then do { st \<leftarrow> put CSI_START st; put (color_output_info ! level) st } else Some st)"

definition put_level :: "easy_logger \<Rightarrow> nat \<Rightarrow> line_st \<Rightarrow> line_st option" where
  "put_level l level st = do {
     b \<leftarrow> get_fmt_enabled level ELOG_FMT_LVL l;
     if b then put (level_output_info ! level) st else Some st }"

definition put_tag :: "easy_logger \<Rightarrow> nat \<Rightarrow> string \<Rightarrow> line_st \<Rightarrow> line_st option" where
  "put_tag l level tag st = do {
     b \<leftarrow> get_fmt_enabled level ELOG_FMT_TAG l;
     if b then do {
       st \<leftarrow> put tag st;
       st \<leftarrow> (if length tag \<le> ELOG_FILTER_TAG_MAX_LEN div 2
         then put (replicate (ELOG_FILTER_TAG_MAX_LEN div 2 - length tag) (CHR '' '')) st else Some st);
       put '' '' st }
     else Some st }"

definition put_info :: "easy_logger \<Rightarrow> nat \<Rightarrow> log_info \<Rightarrow> line_st \<Rightarrow> line_st option" where
  "put_info l level info st = do {
     any \<leftarrow> get_fmt_enabled level (ELOG_FMT_TIME OR ELOG_FMT_P_INFO OR ELOG_FMT_T_INFO) l;
     time \<leftarrow> get_fmt_enabled level ELOG_FMT_TIME l;
     pt \<leftarrow> get_fmt_enabled level (ELOG_FMT_P_INFO OR ELOG_FMT_T_INFO) l;
     p \<leftarrow> get_fmt_enabled level ELOG_FMT_P_INFO l;
     t \<leftarrow> get_fmt_enabled level ELOG_FMT_T_INFO l;
     if any then do {
       st \<leftarrow> put ''['' st;
       st \<leftarrow> (if time then do {
           st \<leftarrow> put (li_time info) st;
           if pt then put '' '' st else Some st } else Some st);
       st \<leftarrow> (if p then do {
           st \<leftarrow> put (elog_port_get_p_info (li_pid info)) st;
           if t then put '' '' st else Some st } else Some st);
       st \<leftarrow> (if t then put (elog_port_get_t_info (li_tid info)) st else Some st);
       put ''] '' st }
     else Some st }"

definition put_place :: "easy_logger \<Rightarrow> nat \<Rightarrow> log_place \<Rightarrow> line_st \<Rightarrow> line_st option" where
  "put_place l level pl st = do {
     dir \<leftarrow> get_fmt_used_and_enabled_ptr level ELOG_FMT_DIR (lp_file pl) l;
     func \<leftarrow> get_fmt_used_and_enabled_ptr level ELOG_FMT_FUNC (lp_func pl) l;
     line \<leftarrow> get_fmt_used_and_enabled_u32 level ELOG_FMT_LINE (ucast (lp_line pl)) l;
     if dir \<or> func \<or> line then do {
       st \<leftarrow> put ''('' st;
       st \<leftarrow> (if dir then do {
           st \<leftarrow> put (the (lp_file pl)) st;
           if func then put '':'' st else if line then put '' '' st else Some st } else Some st);
       st \<leftarrow> (if line then do {
           st \<leftarrow> put (snprintf_text ELOG_LINE_NUM_MAX_LEN (long_str (lp_line pl))) st;
           if func then put '' '' st else Some st } else Some st);
       st \<leftarrow> (if func then put (the (lp_func pl)) st else Some st);
       put '')'' st }
     else Some st }"

text \<open>\<open>vsnprintf\<close> to \<open>dst\<close> with \<open>n\<close> characters of room.\<close>

datatype formatted = Formatted string | Failed string

definition vsnprintf :: "nat \<Rightarrow> nat \<Rightarrow> formatted \<Rightarrow> string \<Rightarrow> (int \<times> string) option" where
  "vsnprintf dst n r buf = (case r of
     Formatted msg \<Rightarrow> do {
       buf \<leftarrow> (if n = 0 then Some buf else mem_write dst (take (n - 1) msg @ [CHR 0x00]) buf);
       Some (int (length msg), buf) }
   | Failed junk \<Rightarrow> do { buf \<leftarrow> mem_write dst (take n junk) buf; Some (-1, buf) })"

section \<open>Output\<close>

text \<open>What \<open>elog_async_output\<close> does outside.\<close>

definition apply_effect :: "async_effect \<Rightarrow> elog_sys \<Rightarrow> elog_sys" where
  "apply_effect e s = (case e of Notice \<Rightarrow> s\<lparr>es_notice := es_notice s + 1\<rparr>
     | Port_output d \<Rightarrow> s\<lparr>es_port := es_port s @ [d]\<rparr>)"

definition output_buf :: "nat \<Rightarrow> nat \<Rightarrow> elog_sys \<Rightarrow> elog_sys option" where
  "output_buf level log_len s = do {
     (es, ring) \<leftarrow> elog_async_output level (es_buf s) (of_nat log_len) (es_ring s);
     Some (fold apply_effect es (s\<lparr>es_ring := ring\<rparr>)) }"

definition c_str :: "string \<Rightarrow> string" where
  "c_str buf = takeWhile (\<lambda>c. c \<noteq> CHR 0x00) buf"

text \<open>The length after formatting, with room for the end of the color and the newline sign.\<close>

definition line_length :: "nat \<Rightarrow> int \<Rightarrow> nat" where
  "line_length log_len fmt_result =
     (let log_len = (if log_len + nat fmt_result \<le> ELOG_LINE_BUF_SIZE \<and> fmt_result > -1
        then log_len + nat fmt_result else ELOG_LINE_BUF_SIZE)
      in if log_len + length CSI_END + length ELOG_NEWLINE_SIGN > ELOG_LINE_BUF_SIZE
        then ELOG_LINE_BUF_SIZE - length CSI_END - length ELOG_NEWLINE_SIGN else log_len)"

text \<open>From the lock to the unlock.\<close>

definition elog_output_locked ::
  "nat \<Rightarrow> string \<Rightarrow> log_place \<Rightarrow> log_info \<Rightarrow> formatted \<Rightarrow> elog_sys \<Rightarrow> elog_sys option" where
  "elog_output_locked level tag pl info r s = do {
     let l = es_log s;
     st \<leftarrow> put_color l level (0, es_buf s);
     st \<leftarrow> put_level l level st;
     st \<leftarrow> put_tag l level tag st;
     st \<leftarrow> put_info l level info st;
     (log_len, buf) \<leftarrow> put_place l level pl st;
     (fmt_result, buf) \<leftarrow> vsnprintf log_len (ELOG_LINE_BUF_SIZE - log_len) r buf;
     let log_len = line_length log_len fmt_result;
     buf \<leftarrow> (if ef_keyword l \<noteq> [] then mem_write log_len [CHR 0x00] buf else Some buf);
     if ef_keyword l \<noteq> [] \<and> \<not> strstr (c_str buf) (ef_keyword l)
     then elog_output_unlock (s\<lparr>es_buf := buf\<rparr>)
     else do {
       st \<leftarrow> (if el_text_color l then put CSI_END (log_len, buf) else Some (log_len, buf));
       (log_len, buf) \<leftarrow> put ELOG_NEWLINE_SIGN st;
       s \<leftarrow> output_buf level log_len (s\<lparr>es_buf := buf\<rparr>);
       elog_output_unlock s } }"

definition elog_output ::
  "nat \<Rightarrow> string \<Rightarrow> log_place \<Rightarrow> log_info \<Rightarrow> formatted \<Rightarrow> elog_sys \<Rightarrow> elog_sys option" where
  "elog_output level tag pl info r s = do {
     elog_assert (level \<le> ELOG_LVL_VERBOSE);
     if \<not> el_output_enabled (es_log s) then Some s
     else if level > ef_level (es_log s) then Some s
     else do {
       (tag_level, s) \<leftarrow> elog_get_filter_tag_lvl tag s;
       if level > tag_level then Some s
       else if \<not> strstr tag (ef_tag (es_log s)) then Some s
       else do { s \<leftarrow> elog_output_lock s; elog_output_locked level tag pl info r s } } }"

text \<open>The length is compared with the size of the buffer, not with the characters that fit.\<close>

definition elog_raw_output :: "formatted \<Rightarrow> elog_sys \<Rightarrow> elog_sys option" where
  "elog_raw_output r s =
     (if \<not> el_output_enabled (es_log s) then Some s
      else do {
        s \<leftarrow> elog_output_lock s;
        (fmt_result, buf) \<leftarrow> vsnprintf 0 ELOG_LINE_BUF_SIZE r (es_buf s);
        let log_len = (if fmt_result > -1 \<and> nat fmt_result \<le> ELOG_LINE_BUF_SIZE
          then nat fmt_result else ELOG_LINE_BUF_SIZE);
        s \<leftarrow> output_buf ELOG_LVL_ASSERT log_len (s\<lparr>es_buf := buf\<rparr>);
        elog_output_unlock s })"

text \<open>\<open>log_i\<close> of \<open>elog.c\<close>, whose tag is the default and which names no place.\<close>

definition log_i :: "log_info \<Rightarrow> string \<Rightarrow> elog_sys \<Rightarrow> elog_sys option" where
  "log_i info text = elog_output ELOG_LVL_INFO ''elog'' \<lparr>lp_file = None, lp_func = None, lp_line = 0\<rparr> info
     (Formatted text)"

definition elog_start :: "log_info \<Rightarrow> elog_sys \<Rightarrow> elog_sys option" where
  "elog_start info s =
     (if \<not> el_init_ok (es_log s) then Some s
      else let s = elog_set_output_enabled True s; s = s\<lparr>es_ring := elog_async_enabled True (es_ring s)\<rparr>
        in log_i info ''EasyLogger V2.2.99 is initialize success.'' s)"

definition elog_stop :: "log_info \<Rightarrow> elog_sys \<Rightarrow> elog_sys option" where
  "elog_stop info s =
     (if \<not> el_init_ok (es_log s) then Some s
      else let s = elog_set_output_enabled False s; s = s\<lparr>es_ring := elog_async_enabled False (es_ring s)\<rparr>
        in log_i info ''EasyLogger V2.2.99 is deinitialize success.'' s)"

section \<open>Reading a line\<close>

text \<open>Comparing with \<open>strncmp\<close> and searching with \<open>memchr\<close> in a line that is long enough.\<close>

definition elog_find_lvl :: "string \<Rightarrow> easy_logger \<Rightarrow> nat option option" where
  "elog_find_lvl log l = do {
     elog_assert (\<forall>i \<in> set [0..<ELOG_LVL_TOTAL_NUM]. el_fmt_set l ! i AND ELOG_FMT_LVL \<noteq> 0);
     let i = first_index (\<lambda>c. take (length c) (drop (length CSI_START) log) = c) color_output_info;
     Some (if i < ELOG_LVL_TOTAL_NUM then Some i else None) }"

text \<open>The place of the tag and its length.\<close>

definition elog_find_tag :: "string \<Rightarrow> nat \<Rightarrow> easy_logger \<Rightarrow> (nat \<times> nat) option option" where
  "elog_find_tag log lvl l = do {
     elog_assert (lvl < ELOG_LVL_TOTAL_NUM);
     elog_assert (el_fmt_set l ! lvl AND ELOG_FMT_TAG \<noteq> 0);
     let tag = length CSI_START + length (color_output_info ! lvl) + length (level_output_info ! lvl);
     let w = take ELOG_FILTER_TAG_MAX_LEN (drop tag log);
     let e = first_index (\<lambda>c. c = CHR '' '') w;
     if e < length w then Some (Some (tag, e))
     else if length w = ELOG_FILTER_TAG_MAX_LEN then Some None
     else None }"

section \<open>The line as a text\<close>

text \<open>The composition adds texts to the end of what is there, as far as the buffer goes.\<close>

definition line_at :: "string \<Rightarrow> string \<Rightarrow> line_st \<Rightarrow> bool" where
  "line_at b0 s st \<longleftrightarrow> (let t = take ELOG_LINE_BUF_SIZE s in st = (length t, t @ drop (length t) b0))"

definition line_adds :: "string \<Rightarrow> (line_st \<Rightarrow> line_st option) \<Rightarrow> string \<Rightarrow> bool" where
  "line_adds b0 f x \<longleftrightarrow> (\<forall>s st. line_at b0 s st \<longrightarrow> (\<exists>st'. f st = Some st' \<and> line_at b0 (s @ x) st'))"

named_theorems line_intros

lemma mem_put_end: "mem_put (length t) x (t @ drop (length t) b) = (t @ x) @ drop (length t + length x) b"
  by (simp add: mem_put_def add.commute)

lemma line_adds_put [line_intros]:
  assumes b0: "length b0 = ELOG_LINE_BUF_SIZE"
  shows "line_adds b0 (put x) x"
  unfolding line_adds_def
proof (intro allI impI)
  fix s st assume st: "line_at b0 s st"
  let ?t = "take ELOG_LINE_BUF_SIZE s"
  let ?n = "length ?t" and ?buf = "?t @ drop (length ?t) b0"
  let ?k = "min (length x) (ELOG_LINE_BUF_SIZE - ?n)"
  have st': "st = (?n, ?buf)" using st by (simp add: line_at_def Let_def)
  have "length ?buf = ELOG_LINE_BUF_SIZE" using b0 by simp
  then have p: "put x st = Some (?n + ?k, mem_put ?n (take ?k x) ?buf)"
    using elog_strcpy_ok [of ?buf ?n x] by (simp add: st' put_def Let_def)
  have x: "take (ELOG_LINE_BUF_SIZE - ?n) x = take ?k x" by (simp add: min_def)
  have t: "take ELOG_LINE_BUF_SIZE (s @ x) = ?t @ take ?k x"
    using x by (cases "length s \<le> ELOG_LINE_BUF_SIZE") simp_all
  have m: "mem_put ?n (take ?k x) ?buf = (?t @ take ?k x) @ drop (?n + ?k) b0"
    using mem_put_end [of ?t "take ?k x" b0] by (simp only: length_take min.absorb_iff2) (simp add: min.assoc)
  have l: "length (?t @ take ?k x) = ?n + ?k" by simp
  have "line_at b0 (s @ x) (?n + ?k, mem_put ?n (take ?k x) ?buf)"
    unfolding line_at_def Let_def t l m ..
  then show "\<exists>st'. put x st = Some st' \<and> line_at b0 (s @ x) st'" using p by blast
qed

lemma line_adds_skip [line_intros]: "line_adds b0 Some []"
  by (simp add: line_adds_def)

lemma line_adds_bind [line_intros]:
  "line_adds b0 f x \<Longrightarrow> line_adds b0 g y \<Longrightarrow> line_adds b0 (\<lambda>st. Option.bind (f st) g) (x @ y)"
  unfolding line_adds_def
proof (intro allI impI)
  fix s st
  assume f: "\<forall>s st. line_at b0 s st \<longrightarrow> (\<exists>st'. f st = Some st' \<and> line_at b0 (s @ x) st')"
    and g: "\<forall>s st. line_at b0 s st \<longrightarrow> (\<exists>st'. g st = Some st' \<and> line_at b0 (s @ y) st')"
    and at: "line_at b0 s st"
  obtain st1 where 1: "f st = Some st1" "line_at b0 (s @ x) st1" using f at by blast
  obtain st2 where 2: "g st1 = Some st2" "line_at b0 ((s @ x) @ y) st2" using g 1(2) by blast
  show "\<exists>st'. Option.bind (f st) g = Some st' \<and> line_at b0 (s @ x @ y) st'"
    using 1 2 by auto
qed

lemma line_adds_if [line_intros]:
  "(b \<Longrightarrow> line_adds b0 f x) \<Longrightarrow> (\<not> b \<Longrightarrow> line_adds b0 g y)
   \<Longrightarrow> line_adds b0 (\<lambda>st. if b then f st else g st) (if b then x else y)"
  by simp

definition fmt_on :: "easy_logger \<Rightarrow> nat \<Rightarrow> u64 \<Rightarrow> bool" where
  "fmt_on l level st \<longleftrightarrow> el_fmt_set l ! level AND st \<noteq> 0"

definition color_text :: "easy_logger \<Rightarrow> nat \<Rightarrow> string" where
  "color_text l level = (if el_text_color l then CSI_START @ color_output_info ! level else [])"

definition level_text :: "easy_logger \<Rightarrow> nat \<Rightarrow> string" where
  "level_text l level = (if fmt_on l level ELOG_FMT_LVL then level_output_info ! level else [])"

definition tag_text :: "easy_logger \<Rightarrow> nat \<Rightarrow> string \<Rightarrow> string" where
  "tag_text l level tag = (if fmt_on l level ELOG_FMT_TAG then tag @
     (if length tag \<le> ELOG_FILTER_TAG_MAX_LEN div 2
      then replicate (ELOG_FILTER_TAG_MAX_LEN div 2 - length tag) (CHR '' '') else []) @ '' '' else [])"

definition info_text :: "easy_logger \<Rightarrow> nat \<Rightarrow> log_info \<Rightarrow> string" where
  "info_text l level info =
     (let time = fmt_on l level ELOG_FMT_TIME; p = fmt_on l level ELOG_FMT_P_INFO; t = fmt_on l level ELOG_FMT_T_INFO;
        pt = fmt_on l level (ELOG_FMT_P_INFO OR ELOG_FMT_T_INFO) in
      if fmt_on l level (ELOG_FMT_TIME OR ELOG_FMT_P_INFO OR ELOG_FMT_T_INFO)
      then ''['' @ (if time then li_time info @ (if pt then '' '' else []) else [])
        @ (if p then elog_port_get_p_info (li_pid info) @ (if t then '' '' else []) else [])
        @ (if t then elog_port_get_t_info (li_tid info) else []) @ ''] ''
      else [])"

definition place_text :: "easy_logger \<Rightarrow> nat \<Rightarrow> log_place \<Rightarrow> string" where
  "place_text l level pl =
     (let dir = (lp_file pl \<noteq> None \<and> fmt_on l level ELOG_FMT_DIR);
        func = (lp_func pl \<noteq> None \<and> fmt_on l level ELOG_FMT_FUNC);
        line = ((ucast (lp_line pl) :: u32) \<noteq> 0 \<and> fmt_on l level ELOG_FMT_LINE) in
      if dir \<or> func \<or> line
      then ''('' @ (if dir then the (lp_file pl) @ (if func then '':'' else if line then '' '' else []) else [])
        @ (if line then snprintf_text ELOG_LINE_NUM_MAX_LEN (long_str (lp_line pl)) @ (if func then '' '' else []) else [])
        @ (if func then the (lp_func pl) else []) @ '')''
      else [])"

lemma get_fmt_enabled_ok:
  assumes "level \<le> ELOG_LVL_VERBOSE"
  shows "get_fmt_enabled level st l = Some (fmt_on l level st)"
    and "get_fmt_used_and_enabled_ptr level st p l = Some (p \<noteq> None \<and> fmt_on l level st)"
    and "get_fmt_used_and_enabled_u32 level st a l = Some (a \<noteq> 0 \<and> fmt_on l level st)"
  using assms by (simp_all add: get_fmt_enabled_def get_fmt_used_and_enabled_ptr_def
      get_fmt_used_and_enabled_u32_def elog_assert_def fmt_on_def)

text \<open>Each part of the header adds its text.\<close>

lemma line_adds_parts:
  assumes b0: "length b0 = ELOG_LINE_BUF_SIZE" and level: "level \<le> ELOG_LVL_VERBOSE"
  shows "line_adds b0 (put_color l level) (color_text l level)"
    and "line_adds b0 (put_level l level) (level_text l level)"
    and "line_adds b0 (put_tag l level tag) (tag_text l level tag)"
    and "line_adds b0 (put_info l level info) (info_text l level info)"
    and "line_adds b0 (put_place l level pl) (place_text l level pl)"
proof -
  show "line_adds b0 (put_color l level) (color_text l level)"
    unfolding put_color_def [abs_def] color_text_def by (intro line_intros b0)
  show "line_adds b0 (put_level l level) (level_text l level)"
    unfolding put_level_def [abs_def] level_text_def get_fmt_enabled_ok [OF level] Option.bind.simps by (intro line_intros b0)
  show "line_adds b0 (put_tag l level tag) (tag_text l level tag)"
    unfolding put_tag_def [abs_def] tag_text_def get_fmt_enabled_ok [OF level] Option.bind.simps by (intro line_intros b0)
  show "line_adds b0 (put_info l level info) (info_text l level info)"
    unfolding put_info_def [abs_def] info_text_def get_fmt_enabled_ok [OF level] Option.bind.simps Let_def by (intro line_intros b0)
  show "line_adds b0 (put_place l level pl) (place_text l level pl)"
    unfolding put_place_def [abs_def] place_text_def get_fmt_enabled_ok [OF level] Option.bind.simps Let_def by (intro line_intros b0)
qed

definition header_text :: "easy_logger \<Rightarrow> nat \<Rightarrow> string \<Rightarrow> log_place \<Rightarrow> log_info \<Rightarrow> string" where
  "header_text l level tag pl info = color_text l level @ level_text l level @ tag_text l level tag
     @ info_text l level info @ place_text l level pl"

text \<open>What a line has room for beside the end of the color and the newline sign.\<close>

definition LINE_ROOM :: nat where
  "LINE_ROOM = ELOG_LINE_BUF_SIZE - length CSI_END - length ELOG_NEWLINE_SIGN"

text \<open>When formatting fails, the line is filled up with what the buffer holds.\<close>

definition line_body :: "string \<Rightarrow> formatted \<Rightarrow> string \<Rightarrow> string" where
  "line_body hdr r b0 = take LINE_ROOM (case r of
     Formatted msg \<Rightarrow> hdr @ msg
   | Failed junk \<Rightarrow> (let t = take ELOG_LINE_BUF_SIZE hdr; j = take (ELOG_LINE_BUF_SIZE - length t) junk in
       t @ j @ drop (length t + length j) b0))"

definition line_text :: "easy_logger \<Rightarrow> string \<Rightarrow> formatted \<Rightarrow> string \<Rightarrow> string" where
  "line_text l hdr r b0 = line_body hdr r b0 @ (if el_text_color l then CSI_END else []) @ ELOG_NEWLINE_SIGN"

lemmas line_sizes = LINE_ROOM_def CSI_END_def ELOG_NEWLINE_SIGN_def ELOG_LINE_BUF_SIZE_def

lemma line_body_length: "length (line_body hdr r b0) \<le> LINE_ROOM"
  by (simp add: line_body_def)

lemma line_text_length: "0 < length (line_text l hdr r b0)" "length (line_text l hdr r b0) \<le> ELOG_LINE_BUF_SIZE"
  using line_body_length [of hdr r b0] by (auto simp: line_text_def line_sizes)

lemma take_cut: "c \<le> length hdr + length (take m msg) \<Longrightarrow> take c (hdr @ take m msg @ ys) = take c (hdr @ msg)"
  by (simp add: min_absorb1)

lemma take_length_take: "take (length (take n xs)) xs = take n xs"
  by (simp add: min_def)

text \<open>The length the code computes, and that the body is what stands before it.\<close>

lemma vsnprintf_body:
  assumes b0: "length b0 = ELOG_LINE_BUF_SIZE" and st: "line_at b0 hdr (n, buf)"
  shows "\<exists>fmt_result buf'. vsnprintf n (ELOG_LINE_BUF_SIZE - n) r buf = Some (fmt_result, buf')
    \<and> length buf' = ELOG_LINE_BUF_SIZE
    \<and> take (length (line_body hdr r b0)) buf' = line_body hdr r b0
    \<and> line_length n fmt_result = length (line_body hdr r b0)"
proof -
  let ?t = "take ELOG_LINE_BUF_SIZE hdr"
  have n: "n = length ?t" and buf: "buf = ?t @ drop n b0" using st by (auto simp: line_at_def Let_def)
  have lb: "length buf = ELOG_LINE_BUF_SIZE" using b0 n by (simp add: buf)
  show ?thesis
  proof (cases r)
    case (Failed junk)
    let ?j = "take (ELOG_LINE_BUF_SIZE - n) junk"
    have fit: "n + length ?j \<le> length buf" using n lb by simp
    have m: "mem_put n ?j buf = ?t @ ?j @ drop (n + length ?j) b0"
      unfolding buf using mem_put_end [of ?t ?j b0] by (simp only: n) simp
    have body: "line_body hdr r b0 = take LINE_ROOM (mem_put n ?j buf)"
      unfolding line_body_def m by (simp add: Failed Let_def n)
    have l: "length (mem_put n ?j buf) = ELOG_LINE_BUF_SIZE" using fit lb by (simp add: length_mem_put)
    have lb': "length (line_body hdr r b0) = LINE_ROOM" unfolding body using l by (simp add: line_sizes)
    have "vsnprintf n (ELOG_LINE_BUF_SIZE - n) r buf = Some (-1, mem_put n ?j buf)"
      using fit by (simp add: vsnprintf_def Failed mem_write_def)
    then show ?thesis using l body lb' by (simp add: line_length_def line_sizes)
  next
    case (Formatted msg)
    let ?w = "take (ELOG_LINE_BUF_SIZE - n - 1) msg @ [CHR 0x00]"
    have body: "line_body hdr r b0 = take LINE_ROOM (hdr @ msg)" by (simp add: line_body_def Formatted)
    have lb': "length (line_body hdr r b0) = min (length hdr + length msg) LINE_ROOM"
      unfolding body by simp
    define buf' where "buf' = (if ELOG_LINE_BUF_SIZE - n = 0 then buf else mem_put n ?w buf)"
    have fit: "ELOG_LINE_BUF_SIZE - n \<noteq> 0 \<Longrightarrow> n + length ?w \<le> length buf" using n lb by simp
    have v: "vsnprintf n (ELOG_LINE_BUF_SIZE - n) r buf = Some (int (length msg), buf')"
      using fit by (simp add: vsnprintf_def Formatted mem_write_def buf'_def)
    have l: "length buf' = ELOG_LINE_BUF_SIZE" using fit lb by (simp add: buf'_def length_mem_put)
    have pre: "take LINE_ROOM (hdr @ msg) = take (length (take LINE_ROOM (hdr @ msg))) buf'"
    proof (cases "ELOG_LINE_BUF_SIZE - n = 0")
      case True
      then have "ELOG_LINE_BUF_SIZE \<le> length hdr" using n by simp
      then show ?thesis using True n by (simp add: buf'_def buf line_sizes)
    next
      case False
      then have h: "?t = hdr" "n = length hdr" "length hdr < ELOG_LINE_BUF_SIZE" using n by simp_all
      have m: "buf' = hdr @ ?w @ drop (n + length ?w) b0"
        unfolding buf'_def buf h(1) using mem_put_end [of hdr ?w b0] False by (simp only: h(2)) simp
      let ?c = "length (take LINE_ROOM (hdr @ msg))"
      have "?c \<le> length hdr + length (take (ELOG_LINE_BUF_SIZE - n - 1) msg)"
        using h(2,3) by (auto simp: line_sizes)
      note take_cut [OF this, of "[CHR 0x00] @ drop (n + length ?w) b0"]
      then have "take ?c buf' = take ?c (hdr @ msg)" unfolding m by simp
      then show ?thesis by (simp only: take_length_take)
    qed
    have "line_length n (int (length msg)) = length (line_body hdr r b0)"
      unfolding lb' n by (simp add: line_length_def line_sizes Let_def)
    moreover have "take (length (line_body hdr r b0)) buf' = line_body hdr r b0" 
      unfolding body by (rule pre [symmetric])
    ultimately show ?thesis using v l by blast
  qed
qed

section \<open>Handing the line over\<close>

text \<open>Levels from \<open>OUTPUT_LVL\<close> on go through the ring, as far as there is room; the others to the port.\<close>

definition delivered :: "nat \<Rightarrow> string \<Rightarrow> elog_sys \<Rightarrow> elog_sys \<Rightarrow> bool" where
  "delivered level text s s' \<longleftrightarrow>
     (if as_is_enabled (es_ring s) \<and> level \<ge> OUTPUT_LVL
      then let room = RING - length (async_contents (es_ring s)) in
        es_port s' = es_port s \<and> async_contents (es_ring s') = async_contents (es_ring s) @ take room text
        \<and> es_notice s' = es_notice s + (if room = 0 then 0 else 1)
      else es_port s' = es_port s @ [text] \<and> es_ring s' = es_ring s \<and> es_notice s' = es_notice s)"

definition log_ok :: "elog_sys \<Rightarrow> bool" where
  "log_ok s \<longleftrightarrow> tag_inv s \<and> length (es_buf s) = ELOG_LINE_BUF_SIZE \<and> async_inv (es_ring s)"

lemma output_buf_ok:
  assumes b: "length (es_buf s) = ELOG_LINE_BUF_SIZE" and n: "0 < n" "n \<le> ELOG_LINE_BUF_SIZE"
    and inv: "async_inv (es_ring s)"
  shows "\<exists>s'. output_buf level n s = Some s' \<and> delivered level (take n (es_buf s)) s s'
    \<and> async_inv (es_ring s') \<and> es_log s' = es_log s \<and> es_held s' = es_held s \<and> es_buf s' = es_buf s
    \<and> as_is_enabled (es_ring s') = as_is_enabled (es_ring s)"
proof -
  have un: "unat (of_nat n :: u64) = n" using n by (intro unat_u64_small) (simp add: ELOG_LINE_BUF_SIZE_def)
  show ?thesis
  proof (cases "as_is_enabled (es_ring s) \<and> level \<ge> OUTPUT_LVL")
    case False
    have "elog_async_output level (es_buf s) (of_nat n) (es_ring s)
      = Some ([Port_output (take n (es_buf s))], es_ring s)"
      using False n(2) b un by (auto simp: elog_async_output_def mem_read_def mem_get_def)
    then show ?thesis using False inv
      by (simp add: output_buf_def apply_effect_def delivered_def)
  next
    case True
    have "unat (of_nat n :: u64) < 2 ^ 32" using un n by (simp add: ELOG_LINE_BUF_SIZE_def)
    then obtain k ring where put: "async_put_log (es_buf s) (of_nat n) (es_ring s) = Some (k, ring)"
      "unat k = min n (RING - async_used (es_ring s))" "async_inv ring"
      "async_contents ring = async_contents (es_ring s) @ take (unat k) (es_buf s)"
      "as_is_enabled ring = as_is_enabled (es_ring s)"
      using async_put_ok [OF inv, of "of_nat n" "es_buf s"] n b un by auto
    let ?room = "RING - length (async_contents (es_ring s))"
    have "take (unat k) (es_buf s) = take ?room (take n (es_buf s))"
      by (simp add: put(2) length_contents min.commute)
    moreover have "0 < k \<longleftrightarrow> ?room \<noteq> 0"
      using put(2) n(1) by (simp add: length_contents word_gt_0 not_le flip: unat_gt_0)
    ultimately show ?thesis using True put
      by (simp add: output_buf_def elog_async_output_def delivered_def apply_effect_def Let_def)
  qed
qed

text \<open>The texts a state of the composition holds, once it is known to fit.\<close>

lemma line_at_fits: "line_at b0 s (n, buf) \<Longrightarrow> length s \<le> ELOG_LINE_BUF_SIZE \<Longrightarrow> n = length s \<and> buf = s @ drop (length s) b0"
  by (simp add: line_at_def Let_def)

lemma c_str_stop: "c_str (a @ CHR 0x00 # b) = c_str a"
  by (induction a) (auto simp: c_str_def)

lemma c_str_at: "c_str (mem_put n [CHR 0x00] buf) = c_str (take n buf)"
  using c_str_stop [of "take n buf" "drop (n + 1) buf"] by (simp add: mem_put_def)

lemma line_end:
  assumes b: "length buf = ELOG_LINE_BUF_SIZE" and body: "take n buf = body" "length body = n" "n \<le> LINE_ROOM"
  shows "\<exists>m buf'. do { st \<leftarrow> (if c then put CSI_END (n, buf) else Some (n, buf)); put ELOG_NEWLINE_SIGN st } = Some (m, buf')
    \<and> m = length (body @ (if c then CSI_END else []) @ ELOG_NEWLINE_SIGN)
    \<and> take m buf' = body @ (if c then CSI_END else []) @ ELOG_NEWLINE_SIGN \<and> length buf' = ELOG_LINE_BUF_SIZE"
proof -
  let ?x = "(if c then CSI_END else []) @ ELOG_NEWLINE_SIGN"
  have adds: "line_adds buf (\<lambda>st. Option.bind (if c then put CSI_END st else Some st) (put ELOG_NEWLINE_SIGN)) ?x"
    by (intro line_intros b)
  have at: "line_at buf body (n, buf)"
    using body by (simp add: line_at_def Let_def line_sizes) (metis append_take_drop_id)
  obtain st where st: "Option.bind (if c then put CSI_END (n, buf) else Some (n, buf)) (put ELOG_NEWLINE_SIGN) = Some st"
    "line_at buf (body @ ?x) st" using adds [unfolded line_adds_def, rule_format, OF at] by (elim exE conjE) (rule that)
  have len: "length (body @ ?x) \<le> ELOG_LINE_BUF_SIZE" using body(2,3) by (simp add: line_sizes)
  obtain m buf' where mb: "st = (m, buf')" by (cases st)
  then have "m = length (body @ ?x)" "buf' = (body @ ?x) @ drop (length (body @ ?x)) buf"
    using line_at_fits st(2) len by blast+
  then show ?thesis using st(1) mb len b by (intro exI [of _ m] exI [of _ buf']) simp
qed

text \<open>The filters a log passes: level, level of its tag, tag, and the keyword in the composed body.\<close>

definition wanted :: "nat \<Rightarrow> string \<Rightarrow> easy_logger \<Rightarrow> bool" where
  "wanted level tag l \<longleftrightarrow> level \<le> ef_level l \<and> level \<le> get_tag_lvl tag (ef_tag_lvl l) \<and> strstr tag (ef_tag l)"

definition has_keyword :: "string \<Rightarrow> easy_logger \<Rightarrow> bool" where
  "has_keyword body l \<longleftrightarrow> ef_keyword l = [] \<or> strstr (c_str body) (ef_keyword l)"

lemma delivered_buf: "delivered level t (s\<lparr>es_buf := b\<rparr>) s' = delivered level t s s'"
  by (simp add: delivered_def)

lemma output_locked_ok:
  assumes b: "length (es_buf s) = ELOG_LINE_BUF_SIZE" and inv: "async_inv (es_ring s)"
    and level: "level \<le> ELOG_LVL_VERBOSE"
    and hdr: "hdr = header_text (es_log s) level tag pl info"
  shows "\<exists>s'. elog_output_locked level tag pl info r s = elog_output_unlock s' \<and> async_inv (es_ring s')
    \<and> es_log s' = es_log s \<and> es_held s' = es_held s \<and> length (es_buf s') = ELOG_LINE_BUF_SIZE
    \<and> (if has_keyword (line_body hdr r (es_buf s)) (es_log s)
       then delivered level (line_text (es_log s) hdr r (es_buf s)) s s'
       else es_port s' = es_port s \<and> es_ring s' = es_ring s \<and> es_notice s' = es_notice s)"
proof -
  let ?l = "es_log s" and ?b0 = "es_buf s"
  let ?body = "line_body hdr r ?b0"
  note parts = line_adds_parts [OF b level]
  have "line_adds ?b0 (\<lambda>st. Option.bind (put_color ?l level st) (\<lambda>st. Option.bind (put_level ?l level st)
    (\<lambda>st. Option.bind (put_tag ?l level tag st) (\<lambda>st. Option.bind (put_info ?l level info st) (put_place ?l level pl)))))
    (color_text ?l level @ level_text ?l level @ tag_text ?l level tag @ info_text ?l level info @ place_text ?l level pl)"
    by (intro line_adds_bind parts)
  moreover have "line_at ?b0 [] (0, ?b0)" by (simp add: line_at_def)
  ultimately obtain n buf where head: "Option.bind (put_color ?l level (0, ?b0)) (\<lambda>st. Option.bind (put_level ?l level st)
    (\<lambda>st. Option.bind (put_tag ?l level tag st) (\<lambda>st. Option.bind (put_info ?l level info st) (put_place ?l level pl))))
      = Some (n, buf)" "line_at ?b0 hdr (n, buf)"
    unfolding line_adds_def hdr header_text_def by (metis append_Nil surj_pair)
  obtain st1 st2 st3 st4 where steps: "put_color ?l level (0, ?b0) = Some st1" "put_level ?l level st1 = Some st2"
    "put_tag ?l level tag st2 = Some st3" "put_info ?l level info st3 = Some st4" "put_place ?l level pl st4 = Some (n, buf)"
    using head(1) by (auto simp: bind_Some_iff)
  obtain fr buf1 where v: "vsnprintf n (ELOG_LINE_BUF_SIZE - n) r buf = Some (fr, buf1)"
    "length buf1 = ELOG_LINE_BUF_SIZE" "take (length ?body) buf1 = ?body"
    "line_length n fr = length ?body"
    using vsnprintf_body [OF b head(2), of r] by auto
  have fit: "length ?body < length buf1" using line_body_length [of hdr r ?b0] v(2) by (simp add: line_sizes)
  define buf2 where "buf2 = (if ef_keyword ?l \<noteq> [] then mem_put (length ?body) [CHR 0x00] buf1 else buf1)"
  have b2: "(if ef_keyword ?l \<noteq> [] then mem_write (length ?body) [CHR 0x00] buf1 else Some buf1) = Some buf2"
    using fit by (simp add: buf2_def mem_write_def)
  have b2l: "length buf2 = ELOG_LINE_BUF_SIZE" "take (length ?body) buf2 = ?body"
    using fit v(2,3) by (simp_all add: buf2_def length_mem_put mem_put_prefix)
  have kw: "ef_keyword ?l \<noteq> [] \<and> \<not> strstr (c_str buf2) (ef_keyword ?l) \<longleftrightarrow> \<not> has_keyword ?body ?l"
    using fit v(3) by (auto simp: buf2_def has_keyword_def c_str_at)
  have run: "elog_output_locked level tag pl info r s = (if \<not> has_keyword ?body ?l
     then elog_output_unlock (s\<lparr>es_buf := buf2\<rparr>)
     else Option.bind (Option.bind (if el_text_color ?l then put CSI_END (length ?body, buf2) else Some (length ?body, buf2)) (put ELOG_NEWLINE_SIGN))
       (\<lambda>(m, buf). Option.bind (output_buf level m (s\<lparr>es_buf := buf\<rparr>)) elog_output_unlock))"
    by (simp only: elog_output_locked_def Let_def steps v(1,4) b2 Option.bind.simps prod.case kw)
      (simp only: Option.bind_assoc split: if_split)
  show ?thesis
  proof (cases "has_keyword ?body ?l")
    case False
    then show ?thesis using run inv b2l by (intro exI [of _ "s\<lparr>es_buf := buf2\<rparr>"]) simp
  next
    case True
    obtain m buf3 where e: "Option.bind (if el_text_color ?l then put CSI_END (length ?body, buf2) else Some (length ?body, buf2)) (put ELOG_NEWLINE_SIGN) = Some (m, buf3)"
      "m = length (line_text ?l hdr r ?b0)" "take m buf3 = line_text ?l hdr r ?b0" "length buf3 = ELOG_LINE_BUF_SIZE"
      using line_end [OF b2l refl line_body_length, of "el_text_color ?l"]
      by (elim exE conjE) (rule that, simp_all only: line_text_def)
    have m: "0 < m" "m \<le> ELOG_LINE_BUF_SIZE" using line_text_length e(2) by metis+
    obtain s' where "output_buf level m (s\<lparr>es_buf := buf3\<rparr>) = Some s'" "delivered level (take m buf3) (s\<lparr>es_buf := buf3\<rparr>) s'"
      "async_inv (es_ring s')" "es_log s' = es_log s" "es_held s' = es_held s" "es_buf s' = buf3"
      using output_buf_ok [of "s\<lparr>es_buf := buf3\<rparr>" m level] e(4) m inv by auto
    then show ?thesis using True run e by (intro exI [of _ s']) (simp add: delivered_buf)
  qed
qed

lemma log_ok_parts:
  assumes "log_ok s"
  shows "tag_inv s" "lock_free s" "length (es_buf s) = ELOG_LINE_BUF_SIZE" "async_inv (es_ring s)"
  using assms by (simp_all add: log_ok_def tag_inv_def)

text \<open>The state between the lock and the unlock, and after it.\<close>

lemma unlock_ok:
  assumes "log_ok s" "es_log s' = (es_log s)\<lparr>el_before_disable := True\<rparr>" "es_held s'"
    "async_inv (es_ring s')" "length (es_buf s') = ELOG_LINE_BUF_SIZE"
  shows "elog_output_unlock s' = Some (s'\<lparr>es_held := False, es_log := es_log s\<rparr>)"
    and "log_ok (s'\<lparr>es_held := False, es_log := es_log s\<rparr>)"
proof -
  have l: "(es_log s)\<lparr>el_before_disable := False\<rparr> = es_log s" "el_lock_enabled (es_log s)"
    using log_ok_parts(2) [OF assms(1)] by (cases "es_log s"; simp add: lock_free_def)+
  show "elog_output_unlock s' = Some (s'\<lparr>es_held := False, es_log := es_log s\<rparr>)"
    using assms(2,3) l by (simp add: elog_output_unlock_def elog_port_output_unlock_def upd_log_def)
  show "log_ok (s'\<lparr>es_held := False, es_log := es_log s\<rparr>)"
    using assms by (simp add: log_ok_def tag_inv_def lock_free_def)
qed

text \<open>
  C23. A call of \<open>elog_output\<close> returns with the lock free and the settings as they were. A log its filters
  let through becomes one line of at most 512 characters: the header, the message, cut so that the end of
  the color and the newline always fit. Levels up to \<open>ELOG_LVL_INFO\<close> go to the port at once; the others
  to the ring, from where the thread is notified, as far as the ring has room. All other logs have no effect.
\<close>

theorem elog_line:
  assumes ok: "log_ok s" and on: "el_output_enabled (es_log s)" and level: "level \<le> ELOG_LVL_VERBOSE"
    and hdr: "hdr = header_text (es_log s) level tag pl info"
    and tx: "text = line_text (es_log s) hdr r (es_buf s)"
  shows "\<exists>s'. elog_output level tag pl info r s = Some s' \<and> log_ok s' \<and> es_log s' = es_log s
    \<and> length text \<le> ELOG_LINE_BUF_SIZE \<and> (\<exists>line. text = line @ ELOG_NEWLINE_SIGN)
    \<and> (if wanted level tag (es_log s) \<and> has_keyword (line_body hdr r (es_buf s)) (es_log s)
       then delivered level text s s'
       else es_port s' = es_port s \<and> es_ring s' = es_ring s \<and> es_notice s' = es_notice s)"
proof -
  have t: "length text \<le> ELOG_LINE_BUF_SIZE" "\<exists>line. text = line @ ELOG_NEWLINE_SIGN"
    using line_text_length by (auto simp: tx) (auto simp: line_text_def)
  note P = log_ok_parts [OF ok]
  have run: "elog_output level tag pl info r s =
    (if wanted level tag (es_log s) then Option.bind (elog_output_lock s) (elog_output_locked level tag pl info r) else Some s)"
    using on level get_level_ok [OF P(1), of tag]
    by (auto simp: elog_output_def elog_assert_def wanted_def)
  show ?thesis
  proof (cases "wanted level tag (es_log s)")
    case False
    then show ?thesis using run ok t by simp
  next
    case True
    let ?s = "s\<lparr>es_held := True, es_log := (es_log s)\<lparr>el_before_disable := True\<rparr>\<rparr>"
    have lock: "elog_output_lock s = Some ?s" using lock_unlock(1) [OF P(2), of id] by simp
    have h: "hdr = header_text (es_log ?s) level tag pl info"
      by (simp add: hdr header_text_def color_text_def level_text_def tag_text_def info_text_def place_text_def fmt_on_def)
    have b: "length (es_buf ?s) = ELOG_LINE_BUF_SIZE" and i: "async_inv (es_ring ?s)" using P(3,4) by simp_all
    obtain s' where r1: "elog_output_locked level tag pl info r ?s = elog_output_unlock s'" "async_inv (es_ring s')"
      "es_log s' = es_log ?s" "es_held s' = es_held ?s" "length (es_buf s') = ELOG_LINE_BUF_SIZE"
      "if has_keyword (line_body hdr r (es_buf ?s)) (es_log ?s)
       then delivered level (line_text (es_log ?s) hdr r (es_buf ?s)) ?s s'
       else es_port s' = es_port ?s \<and> es_ring s' = es_ring ?s \<and> es_notice s' = es_notice ?s"
      using output_locked_ok [OF b i level h, of r] by (elim exE conjE) (rule that)
    have e: "has_keyword (line_body hdr r (es_buf ?s)) (es_log ?s) = has_keyword (line_body hdr r (es_buf s)) (es_log s)"
      "line_text (es_log ?s) hdr r (es_buf ?s) = text"
      by (simp_all add: has_keyword_def line_text_def tx)
    note s' = r1(1,2) r1(3) r1(4) r1(5) r1(6) [unfolded e]
    let ?r = "s'\<lparr>es_held := False, es_log := es_log s\<rparr>"
    have u: "elog_output_unlock s' = Some ?r" "log_ok ?r"
      using unlock_ok [OF ok] s'(2-5) by simp_all
    have d: "delivered level text ?s s' \<Longrightarrow> delivered level text s ?r" by (simp add: delivered_def split: if_splits)
    show ?thesis
      using run True lock s'(1,6) u t d by (intro exI [of _ ?r]) (simp split: if_splits)
  qed
qed

text \<open>The state of the examples: levels and tags are shown, output is on.\<close>

definition elog_example :: elog_sys where
  "elog_example = upd_log (\<lambda>l. l\<lparr>el_fmt_set := replicate ELOG_LVL_TOTAL_NUM 3, el_output_enabled := True\<rparr>) elog_ready"

lemma elog_ready_ok: "log_ok elog_ready"
  using elog_ready_tag_inv
  by (simp add: log_ok_def elog_ready_facts elog_async_init_def elog_async_start_def async_inv_def OUTPUT_BUF_SIZE_def)

lemma elog_example_facts:
  "log_ok elog_example" "el_output_enabled (es_log elog_example)" "as_is_enabled (es_ring elog_example) = False"
  "es_port elog_example = []" "el_text_color (es_log elog_example)" "ef_keyword (es_log elog_example) = []"
  "el_fmt_set (es_log elog_example) = replicate ELOG_LVL_TOTAL_NUM 3"
  using elog_ready_ok
  by (simp_all add: elog_example_def upd_log_def log_ok_def tag_inv_def lock_free_def elog_ready_facts
      elog_async_init_def elog_async_start_def)

lemma elog_example_wanted: "wanted level tag (es_log elog_example) \<longleftrightarrow> level \<le> ELOG_LVL_VERBOSE"
  by (simp add: wanted_def elog_example_def upd_log_def elog_ready_facts get_tag_lvl_def same_tag_def tag_lvl_unused_def
      first_index_none [THEN iffD2] elog_lvls)

theorem elog_line_witness:
  "\<exists>s'. elog_output ELOG_LVL_INFO ''app'' \<lparr>lp_file = None, lp_func = None, lp_line = 7\<rparr>
       \<lparr>li_time = [], li_pid = 1, li_tid = 2\<rparr> (Formatted ''hi'') elog_example = Some s'
     \<and> es_port s' = [CSI_START @ ''36;22mI/app      hi'' @ CSI_END @ [CHR 0x0A]]"
proof -
  let ?l = "es_log elog_example" and ?pl = "\<lparr>lp_file = None, lp_func = None, lp_line = 7\<rparr>"
    and ?i = "\<lparr>li_time = [], li_pid = 1, li_tid = 2\<rparr>"
  have lv: "ELOG_LVL_INFO \<le> ELOG_LVL_VERBOSE" by (simp add: elog_lvls)
  have w: "wanted ELOG_LVL_INFO ''app'' ?l" by (simp add: elog_example_wanted lv)
  have k: "has_keyword b ?l" for b by (simp add: has_keyword_def elog_example_facts)
  have "fmt_on ?l ELOG_LVL_INFO st = ((3 :: u64) AND st \<noteq> 0)" for st
    by (simp add: fmt_on_def elog_example_facts elog_lvls)
  moreover have rep: "replicate 5 (CHR '' '') = ''     ''" by (simp add: eval_nat_numeral)
  ultimately have h: "header_text ?l ELOG_LVL_INFO ''app'' ?pl ?i = CSI_START @ ''36;22mI/app      ''"
    by (simp add: header_text_def color_text_def level_text_def tag_text_def info_text_def place_text_def
        elog_example_facts elog_fmts color_output_info_def level_output_info_def elog_lvls ELOG_FILTER_TAG_MAX_LEN_def
        rep)
  have t: "line_text ?l (CSI_START @ ''36;22mI/app      '') (Formatted ''hi'') b = CSI_START @ ''36;22mI/app      hi'' @ CSI_END @ [CHR 0x0A]" for b
    by (simp add: line_text_def line_body_def elog_example_facts line_sizes CSI_START_def)
  show ?thesis
    using elog_line [OF elog_example_facts(1,2) lv h [symmetric] refl, of "Formatted ''hi''"] w k
    by (auto simp: t delivered_def elog_example_facts)
qed

section \<open>Lines that are not composed\<close>

text \<open>
  What \<open>elog_raw_output\<close> writes: a text that does not fit is cut, and ends with the null character of
  \<open>vsnprintf\<close>, which is written too.
\<close>

lemma elog_raw_line:
  assumes ok: "log_ok s" and on: "el_output_enabled (es_log s)" and ne: "msg \<noteq> []"
    and tx: "text = (if length msg < ELOG_LINE_BUF_SIZE then msg else take (ELOG_LINE_BUF_SIZE - 1) msg @ [CHR 0x00])"
  shows "\<exists>s'. elog_raw_output (Formatted msg) s = Some s' \<and> log_ok s' \<and> es_log s' = es_log s
    \<and> es_port s' = es_port s @ [text] \<and> es_ring s' = es_ring s"
proof -
  note P = log_ok_parts [OF ok]
  let ?s = "s\<lparr>es_held := True, es_log := (es_log s)\<lparr>el_before_disable := True\<rparr>\<rparr>"
  have lock: "elog_output_lock s = Some ?s" using lock_unlock(1) [OF P(2), of id] by simp
  let ?w = "take (ELOG_LINE_BUF_SIZE - 1) msg @ [CHR 0x00]"
  let ?buf = "mem_put 0 ?w (es_buf s)"
  let ?n = "if length msg \<le> ELOG_LINE_BUF_SIZE then length msg else ELOG_LINE_BUF_SIZE"
  have fit: "length ?w \<le> length (es_buf s)" using P(3) by (simp add: ELOG_LINE_BUF_SIZE_def)
  have v: "vsnprintf 0 ELOG_LINE_BUF_SIZE (Formatted msg) (es_buf s) = Some (int (length msg), ?buf)"
    using fit by (simp add: vsnprintf_def mem_write_def ELOG_LINE_BUF_SIZE_def)
  have l: "length ?buf = ELOG_LINE_BUF_SIZE" using fit P(3) by (simp add: length_mem_put)
  have b: "take ?n ?buf = text"
    using P(3) by (auto simp: mem_put_def tx ELOG_LINE_BUF_SIZE_def)
  have n: "0 < ?n" "?n \<le> ELOG_LINE_BUF_SIZE" using ne by (auto simp: ELOG_LINE_BUF_SIZE_def)
  let ?s1 = "?s\<lparr>es_buf := ?buf\<rparr>"
  obtain s' where o: "output_buf ELOG_LVL_ASSERT ?n ?s1 = Some s'"
    "delivered ELOG_LVL_ASSERT (take ?n (es_buf ?s1)) ?s1 s'" "async_inv (es_ring s')"
    "es_log s' = es_log ?s1" "es_held s' = es_held ?s1" "es_buf s' = es_buf ?s1"
    using output_buf_ok [of ?s1 ?n ELOG_LVL_ASSERT] l n P(4) by auto
  let ?r = "s'\<lparr>es_held := False, es_log := es_log s\<rparr>"
  have u: "elog_output_unlock s' = Some ?r" "log_ok ?r" using unlock_ok [OF ok] o(3-6) l by simp_all
  have "elog_raw_output (Formatted msg) s = Some ?r"
    using on lock v o(1) u(1)
    by (cases "length msg \<le> ELOG_LINE_BUF_SIZE") (simp_all add: elog_raw_output_def Let_def)
  then show ?thesis using u(2) o(2) b by (intro exI [of _ ?r]) (simp add: delivered_def elog_lvls)
qed

section \<open>Finding the level and the tag again\<close>

lemma first_index_at: "\<forall>x \<in> set xs. \<not> P x \<Longrightarrow> P y \<Longrightarrow> first_index P (xs @ y # ys) = length xs"
  by (induction xs) auto

lemma level_cases:
  assumes "level \<le> ELOG_LVL_VERBOSE"
  obtains "level = 0" | "level = 1" | "level = 2" | "level = 3" | "level = 4" | "level = 5"
  using assms by (auto simp: elog_lvls numeral_eq_Suc le_Suc_eq)

lemma fill_blank: "\<exists>r. (if b then replicate n c else []) @ [c] = c # r"
  by (cases b; cases n) auto

text \<open>How a line with color, level and tag begins.\<close>

lemma line_begin:
  assumes level: "level \<le> ELOG_LVL_VERBOSE" and color: "el_text_color l"
    and fmt: "fmt_on l level ELOG_FMT_LVL" "fmt_on l level ELOG_FMT_TAG"
  obtains rest where "line_text l (header_text l level tag pl info) (Formatted msg) b0 =
      CSI_START @ color_output_info ! level @ level_output_info ! level @ take 497 (tag @ CHR '' '' # rest) @ CSI_END @ ELOG_NEWLINE_SIGN"
    "length (color_output_info ! level) = 6" "length (level_output_info ! level) = 2"
proof -
  have len: "length (color_output_info ! level) = 6" "length (level_output_info ! level) = 2" "length CSI_START = 2"
    by (rule level_cases [OF level]; simp add: color_output_info_def level_output_info_def CSI_START_def)+
  obtain r1 where tag: "tag_text l level tag = tag @ CHR '' '' # r1"
    using fmt(2) fill_blank [of _ _ "CHR '' ''"] that unfolding tag_text_def by (metis (full_types))
  let ?p = "CSI_START @ color_output_info ! level @ level_output_info ! level"
  let ?r = "r1 @ info_text l level info @ place_text l level pl @ msg"
  have "take LINE_ROOM (?p @ tag @ CHR '' '' # ?r) = ?p @ take 497 (tag @ CHR '' '' # ?r)"
    using len by (simp add: line_sizes)
  then show ?thesis using that [of ?r] len color fmt(1)
    by (simp add: line_text_def line_body_def header_text_def color_text_def level_text_def tag)
qed

text \<open>
  The level and the tag can be read from a colored line that shows them: \<open>elog_find_lvl\<close> answers the
  level, and \<open>elog_find_tag\<close> the place of the tag, if the tag has no space and less than 16 characters; a tag
  of 16 or more characters is not found.
\<close>

theorem elog_find:
  assumes level: "level \<le> ELOG_LVL_VERBOSE" and color: "el_text_color l"
    and fmt: "\<forall>i \<le> ELOG_LVL_VERBOSE. fmt_on l i ELOG_FMT_LVL" "fmt_on l level ELOG_FMT_TAG"
    and tag: "CHR '' '' \<notin> set tag" "length tag < 497"
    and log: "log = line_text l (header_text l level tag pl info) (Formatted msg) b0"
  shows "elog_find_lvl log l = Some (Some level)
    \<and> (\<exists>p. elog_find_tag log level l = Some (if length tag < ELOG_FILTER_TAG_MAX_LEN then Some (p, length tag) else None)
        \<and> take (length tag) (drop p log) = tag)"
proof -
  have fl: "fmt_on l level ELOG_FMT_LVL" using fmt(1) level by blast
  obtain rest where t: "log = CSI_START @ color_output_info ! level @ level_output_info ! level
      @ take 497 (tag @ CHR '' '' # rest) @ CSI_END @ ELOG_NEWLINE_SIGN"
    and len: "length (color_output_info ! level) = 6" "length (level_output_info ! level) = 2"
    using line_begin [OF level color fl fmt(2)] log by metis
  have c2: "length CSI_START = 2" by (simp add: CSI_START_def)
  have "\<forall>i \<in> set [0..<ELOG_LVL_TOTAL_NUM]. el_fmt_set l ! i AND ELOG_FMT_LVL \<noteq> 0"
    using fmt(1) by (auto simp: fmt_on_def elog_lvls)
  then have a: "elog_assert (\<forall>i \<in> set [0..<ELOG_LVL_TOTAL_NUM]. el_fmt_set l ! i AND ELOG_FMT_LVL \<noteq> 0) = Some ()"
    unfolding elog_assert_def by (rule guard_opt_Some [THEN iffD2])
  have "drop 2 log = color_output_info ! level @ drop 8 log"
    using len c2 by (simp add: t)
  then have "first_index (\<lambda>c. take (length c) (drop (length CSI_START) log) = c) color_output_info = level"
    by - (rule level_cases [OF level]; simp add: color_output_info_def c2)
  then have lvl: "elog_find_lvl log l = Some (Some level)"
    using level unfolding elog_find_lvl_def a by (simp add: elog_lvls)
  have at: "elog_assert (level < ELOG_LVL_TOTAL_NUM) = Some ()" "elog_assert (el_fmt_set l ! level AND ELOG_FMT_TAG \<noteq> 0) = Some ()"
    using level fmt(2) by (simp_all add: elog_assert_def elog_lvls fmt_on_def)
  have d: "drop 10 log = take 497 (tag @ CHR '' '' # rest) @ CSI_END @ ELOG_NEWLINE_SIGN"
    using len c2 by (simp add: t)
  obtain n where n: "497 - length tag = Suc n" using tag(2) by (cases "497 - length tag") auto
  have d': "drop 10 log = tag @ CHR '' '' # take n rest @ CSI_END @ ELOG_NEWLINE_SIGN"
    unfolding d using tag(2) n by simp
  let ?w = "take ELOG_FILTER_TAG_MAX_LEN (drop 10 log)"
  have find: "elog_find_tag log level l = (let e = first_index (\<lambda>c. c = CHR '' '') ?w in
     if e < length ?w then Some (Some (10, e))
     else if length ?w = ELOG_FILTER_TAG_MAX_LEN then Some None else None)"
    by (simp add: elog_find_tag_def at len c2 Let_def)
  have "elog_find_tag log level l = Some (if length tag < ELOG_FILTER_TAG_MAX_LEN then Some (10, length tag) else None)"
  proof (cases "length tag < ELOG_FILTER_TAG_MAX_LEN")
    case True
    obtain k where k: "ELOG_FILTER_TAG_MAX_LEN - length tag = Suc k" using True by (cases "ELOG_FILTER_TAG_MAX_LEN - length tag") auto
    have w: "?w = tag @ CHR '' '' # take k (take n rest @ CSI_END @ ELOG_NEWLINE_SIGN)"
      unfolding d' using True k by simp
    have "first_index (\<lambda>c. c = CHR '' '') ?w = length tag"
      unfolding w using tag(1) by (intro first_index_at) auto
    moreover have "length tag < length ?w" unfolding w by simp
    ultimately show ?thesis using find True by (simp add: Let_def)
  next
    case False
    have w: "?w = take ELOG_FILTER_TAG_MAX_LEN tag" unfolding d' using False by simp
    have l: "length ?w = ELOG_FILTER_TAG_MAX_LEN" unfolding w using False by simp
    have "\<forall>c \<in> set ?w. c \<noteq> CHR '' ''" unfolding w using tag(1) in_set_takeD by fast
    then have "first_index (\<lambda>c. c = CHR '' '') ?w = length ?w" by (simp only: first_index_none simp_thms)
    then show ?thesis using find l False by (simp add: Let_def)
  qed
  moreover have "take (length tag) (drop 10 log) = tag" unfolding d' by simp
  ultimately show ?thesis using lvl by blast
qed

theorem elog_find_witness:
  "\<exists>p. elog_find_tag (line_text (es_log elog_example)
       (header_text (es_log elog_example) 2 ''net'' \<lparr>lp_file = None, lp_func = None, lp_line = 7\<rparr>
         \<lparr>li_time = [], li_pid = 1, li_tid = 2\<rparr>) (Formatted ''up'') []) 2 (es_log elog_example) = Some (Some (p, 3))"
proof -
  have f: "i \<le> ELOG_LVL_VERBOSE \<Longrightarrow> fmt_on (es_log elog_example) i st = ((3 :: u64) AND st \<noteq> 0)" for i st
    by (simp add: fmt_on_def elog_example_facts elog_lvls)
  let ?l = "es_log elog_example"
  have a: "(2 :: nat) \<le> ELOG_LVL_VERBOSE" by (simp add: elog_lvls)
  have b: "\<forall>i \<le> ELOG_LVL_VERBOSE. fmt_on ?l i ELOG_FMT_LVL" "fmt_on ?l 2 ELOG_FMT_TAG"
    using a by (simp_all add: f elog_fmts)
  have c: "CHR '' '' \<notin> set ''net''" "length ''net'' < 497" by simp_all
  have n: "length ''net'' < ELOG_FILTER_TAG_MAX_LEN" "length ''net'' = 3" by (simp_all add: ELOG_FILTER_TAG_MAX_LEN_def)
  show ?thesis using elog_find [OF a elog_example_facts(5) b c refl, where pl = "\<lparr>lp_file = None, lp_func = None, lp_line = 7\<rparr>"
      and info = "\<lparr>li_time = [], li_pid = 1, li_tid = 2\<rparr>" and msg = "''up''" and ?b0.0 = "[]"]
    unfolding n(2) if_P [OF n(1) [unfolded n(2)]] by blast
qed

end
