(* ===== verification/ElogHex.thy ===== *)
theory ElogHex
  imports ElogLine
begin

text \<open>
  \<open>elog_hexdump\<close> of \<open>elog.c\<close>. Its loop counter has 16 bits and wraps around; the loop is \<open>None\<close> when it does
  not end.
\<close>

section \<open>The code\<close>

definition is_print :: "u8 \<Rightarrow> bool" where
  "is_print ch \<longleftrightarrow> (ucast ch - 32 :: u32) < 127 - 32"

definition hex_header :: "string \<Rightarrow> nat \<Rightarrow> u16 \<Rightarrow> string" where
  "hex_header name width i = ''D/HEX '' @ name @ '': '' @ zero_pad 4 (num_str 16 (unat i)) @ ''-''
     @ zero_pad 4 (num_str 16 (unat (of_int (int (unat i) + int width - 1) :: u32))) @ '': ''"

text \<open>The two inner loops, over \<open>j\<close>; reading behind the data is undefined.\<close>

fun put_hex :: "bytes \<Rightarrow> nat \<Rightarrow> nat \<Rightarrow> nat list \<Rightarrow> line_st \<Rightarrow> line_st option" where
  "put_hex buf i sz [] st = Some st"
| "put_hex buf i sz (j # js) st = do {
     dump \<leftarrow> (if i + j < sz then do { b \<leftarrow> mem_read (i + j) 1 buf; Some (zero_pad 2 (num_str 16 (unat (hd b))) @ '' '') }
       else Some ''   '');
     st \<leftarrow> put dump st;
     st \<leftarrow> (if (j + 1) mod 8 = 0 then put '' '' st else Some st);
     put_hex buf i sz js st }"

fun put_chars :: "bytes \<Rightarrow> nat \<Rightarrow> nat \<Rightarrow> nat list \<Rightarrow> line_st \<Rightarrow> line_st option" where
  "put_chars buf i sz [] st = Some st"
| "put_chars buf i sz (j # js) st = do {
     st \<leftarrow> (if i + j < sz then do {
         b \<leftarrow> mem_read (i + j) 1 buf;
         put [if is_print (hd b) then char_of (unat (hd b)) else CHR ''.''] st }
       else Some st);
     put_chars buf i sz js st }"

text \<open>One line; \<open>width\<close> is a \<open>uint8_t\<close>, and \<open>log_len\<close> stays far below \<open>2^16\<close>.\<close>

definition hexdump_line :: "string \<Rightarrow> u8 \<Rightarrow> bytes \<Rightarrow> u16 \<Rightarrow> u16 \<Rightarrow> elog_sys \<Rightarrow> elog_sys option" where
  "hexdump_line name width buf sz i s = do {
     (fmt_result, lb) \<leftarrow> vsnprintf 0 ELOG_LINE_BUF_SIZE (Formatted (hex_header name (unat width) i)) (es_buf s);
     let log_len = (if fmt_result > -1 \<and> nat fmt_result \<le> ELOG_LINE_BUF_SIZE then nat fmt_result else ELOG_LINE_BUF_SIZE);
     st \<leftarrow> put_hex buf (unat i) (unat sz) [0..<unat width] (log_len, lb);
     st \<leftarrow> put ''  '' st;
     (log_len, lb) \<leftarrow> put_chars buf (unat i) (unat sz) [0..<unat width] st;
     let log_len = (if log_len + length ELOG_NEWLINE_SIGN > ELOG_LINE_BUF_SIZE
       then ELOG_LINE_BUF_SIZE - length ELOG_NEWLINE_SIGN else log_len);
     (log_len, lb) \<leftarrow> put ELOG_NEWLINE_SIGN (log_len, lb);
     output_buf ELOG_LVL_DEBUG log_len (s\<lparr>es_buf := lb\<rparr>) }"

partial_function (option) hexdump_loop ::
  "string \<Rightarrow> u8 \<Rightarrow> bytes \<Rightarrow> u16 \<Rightarrow> u16 \<Rightarrow> elog_sys \<Rightarrow> elog_sys option" where
  "hexdump_loop name width buf sz i s =
     (if i < sz then do { s \<leftarrow> hexdump_line name width buf sz i s; hexdump_loop name width buf sz (i + ucast width) s }
      else Some s)"

definition elog_hexdump :: "string \<Rightarrow> u8 \<Rightarrow> bytes \<Rightarrow> u16 \<Rightarrow> elog_sys \<Rightarrow> elog_sys option" where
  "elog_hexdump name width buf sz s =
     (if \<not> el_output_enabled (es_log s) then Some s
      else if ELOG_LVL_DEBUG > ef_level (es_log s) then Some s
      else if \<not> strstr name (ef_tag (es_log s)) then Some s
      else do {
        s \<leftarrow> elog_output_lock s;
        s \<leftarrow> hexdump_loop name width buf sz 0 s;
        elog_output_unlock s })"

section \<open>The text of a line\<close>

definition hex_cells :: "bytes \<Rightarrow> nat \<Rightarrow> nat \<Rightarrow> nat list \<Rightarrow> string" where
  "hex_cells buf i sz js = concat (map (\<lambda>j.
     (if i + j < sz then zero_pad 2 (num_str 16 (unat (buf ! (i + j)))) @ '' '' else ''   '')
     @ (if (j + 1) mod 8 = 0 then '' '' else [])) js)"

definition hex_chars :: "bytes \<Rightarrow> nat \<Rightarrow> nat \<Rightarrow> nat list \<Rightarrow> string" where
  "hex_chars buf i sz js = map (\<lambda>j. if is_print (buf ! (i + j)) then char_of (unat (buf ! (i + j))) else CHR ''.'')
     (filter (\<lambda>j. i + j < sz) js)"

definition hex_text :: "string \<Rightarrow> nat \<Rightarrow> bytes \<Rightarrow> nat \<Rightarrow> u16 \<Rightarrow> string" where
  "hex_text name width buf sz i = take (ELOG_LINE_BUF_SIZE - 1) (hex_header name width i
     @ hex_cells buf (unat i) sz [0..<width] @ ''  '' @ hex_chars buf (unat i) sz [0..<width]) @ ELOG_NEWLINE_SIGN"

lemma mem_read_one: "k < length buf \<Longrightarrow> mem_read k (Suc 0) buf = Some [buf ! k]"
  by (simp add: mem_read_def mem_get_def take_Suc_conv_app_nth nth_drop_hd)

lemma line_adds_hex:
  assumes b0: "length b0 = ELOG_LINE_BUF_SIZE" and sz: "sz \<le> length buf"
  shows "line_adds b0 (put_hex buf i sz js) (hex_cells buf i sz js)"
proof (induction js)
  case Nil
  then show ?case by (simp add: line_adds_def hex_cells_def)
next
  case (Cons j js)
  let ?d = "if i + j < sz then zero_pad 2 (num_str 16 (unat (buf ! (i + j)))) @ '' '' else ''   ''"
  have d: "(if i + j < sz then do { b \<leftarrow> mem_read (i + j) 1 buf; Some (zero_pad 2 (num_str 16 (unat (hd b))) @ '' '') }
       else Some ''   '') = Some ?d"
    using sz by (simp add: mem_read_one)
  have "line_adds b0 (\<lambda>st. Option.bind (put ?d st) (\<lambda>st. Option.bind (if (j + 1) mod 8 = 0 then put '' '' st else Some st)
      (put_hex buf i sz js))) (?d @ (if (j + 1) mod 8 = 0 then '' '' else []) @ hex_cells buf i sz js)"
    by (intro line_adds_bind line_adds_put line_adds_if line_adds_skip b0 Cons.IH)
  moreover have "put_hex buf i sz (j # js) = (\<lambda>st. Option.bind (put ?d st) (\<lambda>st. Option.bind (if (j + 1) mod 8 = 0 then put '' '' st else Some st)
      (put_hex buf i sz js)))"
    by (rule ext) (simp only: put_hex.simps d Option.bind.simps)
  ultimately show ?case by (simp add: hex_cells_def)
qed

lemma line_adds_chars:
  assumes b0: "length b0 = ELOG_LINE_BUF_SIZE" and sz: "sz \<le> length buf"
  shows "line_adds b0 (put_chars buf i sz js) (hex_chars buf i sz js)"
proof (induction js)
  case Nil
  then show ?case by (simp add: line_adds_def hex_chars_def)
next
  case (Cons j js)
  let ?c = "[if is_print (buf ! (i + j)) then char_of (unat (buf ! (i + j))) else CHR ''.'']"
  have "line_adds b0 (\<lambda>st. Option.bind (if i + j < sz then put ?c st else Some st) (put_chars buf i sz js))
    ((if i + j < sz then ?c else []) @ hex_chars buf i sz js)"
    by (intro line_adds_bind line_adds_put line_adds_if line_adds_skip b0 Cons.IH)
  moreover have "put_chars buf i sz (j # js) = (\<lambda>st. Option.bind (if i + j < sz then put ?c st else Some st) (put_chars buf i sz js))"
    using sz by (intro ext) (simp add: mem_read_one del: fun_upd_apply)
  moreover have "hex_chars buf i sz (j # js) = (if i + j < sz then ?c else []) @ hex_chars buf i sz js"
    by (simp add: hex_chars_def)
  ultimately show ?case by (simp only:)
qed

text \<open>The header as \<open>snprintf\<close> leaves it in the buffer.\<close>

lemma header_at:
  assumes b0: "length b0 = ELOG_LINE_BUF_SIZE"
  obtains b where "vsnprintf 0 ELOG_LINE_BUF_SIZE (Formatted h) b0 = Some (int (length h), b)" "length b = ELOG_LINE_BUF_SIZE"
    "line_at b (if length h < ELOG_LINE_BUF_SIZE then h else take (ELOG_LINE_BUF_SIZE - 1) h @ [CHR 0x00])
      (min (length h) ELOG_LINE_BUF_SIZE, b)"
proof
  let ?w = "take (ELOG_LINE_BUF_SIZE - 1) h @ [CHR 0x00]"
  let ?b = "mem_put 0 ?w b0"
  have fit: "length ?w \<le> length b0" using b0 by (simp add: ELOG_LINE_BUF_SIZE_def)
  show "vsnprintf 0 ELOG_LINE_BUF_SIZE (Formatted h) b0 = Some (int (length h), ?b)"
    using fit by (simp add: vsnprintf_def mem_write_def ELOG_LINE_BUF_SIZE_def)
  show "length ?b = ELOG_LINE_BUF_SIZE" using fit b0 by (simp add: length_mem_put)
  have b: "?b = ?w @ drop (length ?w) b0" by (simp add: mem_put_def)
  show "line_at ?b (if length h < ELOG_LINE_BUF_SIZE then h else ?w) (min (length h) ELOG_LINE_BUF_SIZE, ?b)"
  proof (cases "length h < ELOG_LINE_BUF_SIZE")
    case True
    then have "?b = h @ ([CHR 0x00] @ drop (length ?w) b0)" unfolding b by simp
    then have "h @ drop (length h) ?b = ?b" by simp
    then show ?thesis using True by (simp add: line_at_def Let_def)
  next
    case False
    then have "length ?w = ELOG_LINE_BUF_SIZE" by (simp add: ELOG_LINE_BUF_SIZE_def)
    then show ?thesis using False b b0 by (simp add: line_at_def Let_def)
  qed
qed

text \<open>Making room for the newline sign.\<close>

lemma cut_line:
  assumes b: "length b = ELOG_LINE_BUF_SIZE" and at: "line_at b x (n, lb)" and body: "take (ELOG_LINE_BUF_SIZE - 1) x = body"
  shows "(if n + length ELOG_NEWLINE_SIGN > ELOG_LINE_BUF_SIZE then ELOG_LINE_BUF_SIZE - length ELOG_NEWLINE_SIGN else n) = length body"
    and "length lb = ELOG_LINE_BUF_SIZE"
    and "line_at lb body (length body, lb)"
proof -
  have n: "n = min ELOG_LINE_BUF_SIZE (length x)" "lb = take ELOG_LINE_BUF_SIZE x @ drop n b"
    using at by (simp_all add: line_at_def Let_def min.commute)
  have l: "length body = min (ELOG_LINE_BUF_SIZE - 1) (length x)" unfolding body [symmetric] by simp
  show "(if n + length ELOG_NEWLINE_SIGN > ELOG_LINE_BUF_SIZE then ELOG_LINE_BUF_SIZE - length ELOG_NEWLINE_SIGN else n) = length body"
    unfolding l n(1) by (auto simp: line_sizes)
  show lb: "length lb = ELOG_LINE_BUF_SIZE" using n b by simp
  have "take (length body) lb = take (length body) x" using n l by simp
  also have "\<dots> = body" unfolding body [symmetric] by (rule take_length_take)
  finally have t: "take (length body) lb = body" .
  then have "lb = body @ drop (length body) lb" by (metis append_take_drop_id)
  moreover have "take ELOG_LINE_BUF_SIZE body = body" using l by simp
  ultimately show "line_at lb body (length body, lb)" by (simp add: line_at_def)
qed

lemma hexdump_line_ok:
  assumes b: "length (es_buf s) = ELOG_LINE_BUF_SIZE" and inv: "async_inv (es_ring s)" and sz: "unat sz \<le> length buf"
  shows "\<exists>s'. hexdump_line name width buf sz i s = Some s'
    \<and> delivered ELOG_LVL_DEBUG (hex_text name (unat width) buf (unat sz) i) s s'
    \<and> length (es_buf s') = ELOG_LINE_BUF_SIZE \<and> async_inv (es_ring s') \<and> es_log s' = es_log s \<and> es_held s' = es_held s
    \<and> as_is_enabled (es_ring s') = as_is_enabled (es_ring s)"
proof -
  let ?h = "hex_header name (unat width) i"
  let ?rest = "hex_cells buf (unat i) (unat sz) [0..<unat width] @ ''  '' @ hex_chars buf (unat i) (unat sz) [0..<unat width]"
  let ?body = "take (ELOG_LINE_BUF_SIZE - 1) (?h @ ?rest)"
  define h' where "h' = (if length ?h < ELOG_LINE_BUF_SIZE then ?h else take (ELOG_LINE_BUF_SIZE - 1) ?h @ [CHR 0x00])"
  obtain b1 where b1: "vsnprintf 0 ELOG_LINE_BUF_SIZE (Formatted ?h) (es_buf s) = Some (int (length ?h), b1)"
    "length b1 = ELOG_LINE_BUF_SIZE" "line_at b1 h' (min (length ?h) ELOG_LINE_BUF_SIZE, b1)"
    using header_at [OF b, of ?h] unfolding h'_def by blast
  have adds: "line_adds b1 (\<lambda>st. Option.bind (put_hex buf (unat i) (unat sz) [0..<unat width] st) (\<lambda>st. Option.bind (put ''  '' st)
      (put_chars buf (unat i) (unat sz) [0..<unat width]))) ?rest"
    by (intro line_adds_bind line_adds_put line_adds_hex line_adds_chars b1(2) sz)
  obtain st where r: "Option.bind (put_hex buf (unat i) (unat sz) [0..<unat width] (min (length ?h) ELOG_LINE_BUF_SIZE, b1))
      (\<lambda>st. Option.bind (put ''  '' st) (put_chars buf (unat i) (unat sz) [0..<unat width])) = Some st" "line_at b1 (h' @ ?rest) st"
    using adds [unfolded line_adds_def, rule_format, OF b1(3)] by (elim exE conjE) (rule that)
  obtain n lb where st: "st = (n, lb)" by (cases st)
  let ?X = "h' @ ?rest"
  have body: "take (ELOG_LINE_BUF_SIZE - 1) ?X = ?body"
    by (simp add: h'_def)
  note cut = cut_line [OF b1(2) r(2) [unfolded st] body]
  note len = cut(1) and at = cut(3,2)
  let ?t = "hex_text name (unat width) buf (unat sz) i"
  have t: "?t = ?body @ ELOG_NEWLINE_SIGN" "0 < length ?t" "length ?t \<le> ELOG_LINE_BUF_SIZE"
    by (simp_all add: hex_text_def line_sizes)
  obtain m b2 where p: "put ELOG_NEWLINE_SIGN (length ?body, lb) = Some (m, b2)" "line_at lb ?t (m, b2)"
    using line_adds_put [OF at(2), of ELOG_NEWLINE_SIGN, unfolded line_adds_def, rule_format, OF at(1)]
    unfolding t(1) [symmetric] by (metis surj_pair)
  have m: "m = length ?t" "take m b2 = ?t" "length b2 = ELOG_LINE_BUF_SIZE"
    using line_at_fits [OF p(2) t(3)] t(3) at(2) by auto
  obtain s' where o: "output_buf ELOG_LVL_DEBUG m (s\<lparr>es_buf := b2\<rparr>) = Some s'"
    "delivered ELOG_LVL_DEBUG (take m b2) (s\<lparr>es_buf := b2\<rparr>) s'" "async_inv (es_ring s')" "es_log s' = es_log s"
    "es_held s' = es_held s" "es_buf s' = b2" "as_is_enabled (es_ring s') = as_is_enabled (es_ring s)"
    using output_buf_ok [of "s\<lparr>es_buf := b2\<rparr>" m ELOG_LVL_DEBUG] m t(2,3) inv by auto
  obtain st1 st2 where steps: "put_hex buf (unat i) (unat sz) [0..<unat width] (min (length ?h) ELOG_LINE_BUF_SIZE, b1) = Some st1"
    "put ''  '' st1 = Some st2" "put_chars buf (unat i) (unat sz) [0..<unat width] st2 = Some (n, lb)"
    using r(1) by (auto simp: bind_Some_iff st)
  have ll: "(if int (length ?h) > -1 \<and> nat (int (length ?h)) \<le> ELOG_LINE_BUF_SIZE then nat (int (length ?h)) else ELOG_LINE_BUF_SIZE)
    = min (length ?h) ELOG_LINE_BUF_SIZE" by simp
  have "hexdump_line name width buf sz i s = Some s'"
    unfolding hexdump_line_def Let_def b1(1) Option.bind.simps prod.case ll steps len p(1) o(1) ..
  then show ?thesis using o m by (simp add: delivered_buf)
qed

section \<open>All lines\<close>

text \<open>The offsets of the lines.\<close>

function hex_offsets :: "nat \<Rightarrow> nat \<Rightarrow> nat \<Rightarrow> nat list" where
  "hex_offsets w sz i = (if i < sz \<and> 0 < w then i # hex_offsets w sz (i + w) else [])"
  by auto
termination by (relation "measure (\<lambda>(w, sz, i). sz - i)") auto

declare hex_offsets.simps [simp del]

definition delivered_all :: "string list \<Rightarrow> elog_sys \<Rightarrow> elog_sys \<Rightarrow> bool" where
  "delivered_all texts s s' \<longleftrightarrow>
     (if as_is_enabled (es_ring s)
      then es_port s' = es_port s \<and> async_contents (es_ring s') = async_contents (es_ring s)
        @ take (RING - length (async_contents (es_ring s))) (concat texts)
      else es_port s' = es_port s @ texts \<and> es_ring s' = es_ring s)"

lemma room_left: "r - (c + min (length t) (r - c)) = r - (c + length t)" for r c :: nat
  by (simp add: min_def)

lemma delivered_all_Cons:
  assumes "delivered ELOG_LVL_DEBUG t s s1" "delivered_all ts s1 s'"
    "as_is_enabled (es_ring s1) = as_is_enabled (es_ring s)"
  shows "delivered_all (t # ts) s s'"
  using assms by (auto simp: delivered_def delivered_all_def elog_lvls Let_def room_left)

lemma hexdump_loop_ok:
  assumes w: "0 < unat width" "unat sz + unat width \<le> 2 ^ 16" and buf: "unat sz \<le> length buf"
  shows "\<lbrakk> length (es_buf s) = ELOG_LINE_BUF_SIZE; async_inv (es_ring s); i < unat sz + unat width \<rbrakk>
    \<Longrightarrow> \<exists>s'. hexdump_loop name width buf sz (of_nat i) s = Some s'
      \<and> delivered_all (map (\<lambda>j. hex_text name (unat width) buf (unat sz) (of_nat j)) (hex_offsets (unat width) (unat sz) i)) s s'
      \<and> length (es_buf s') = ELOG_LINE_BUF_SIZE \<and> async_inv (es_ring s') \<and> es_log s' = es_log s \<and> es_held s' = es_held s"
proof (induction "unat width" "unat sz" i arbitrary: s rule: hex_offsets.induct)
  case (1 i)
  have szl: "unat sz < 2 ^ 16" using unat_lt_size [of sz] by simp
  show ?case
  proof (cases "i < unat sz")
    case False
    have "i < 2 ^ 16" using 1(4) w(2) by simp
    then have "unat (of_nat i :: u16) = i" by (simp add: unat_of_nat)
    then have "\<not> of_nat i < sz" using False by (simp add: word_less_nat_alt)
    then have "hexdump_loop name width buf sz (of_nat i) s = Some s" by (subst hexdump_loop.simps) simp
    moreover have "hex_offsets (unat width) (unat sz) i = []" using False by (subst hex_offsets.simps) simp
    ultimately show ?thesis using 1(2,3) by (simp add: delivered_all_def)
  next
    case True
    then have ui: "unat (of_nat i :: u16) = i" using szl by (simp add: unat_of_nat)
    then have lt: "of_nat i < sz" using True by (simp add: word_less_nat_alt)
    obtain s1 where l: "hexdump_line name width buf sz (of_nat i) s = Some s1"
      "delivered ELOG_LVL_DEBUG (hex_text name (unat width) buf (unat sz) (of_nat i)) s s1"
      "length (es_buf s1) = ELOG_LINE_BUF_SIZE" "async_inv (es_ring s1)" "es_log s1 = es_log s" "es_held s1 = es_held s"
      "as_is_enabled (es_ring s1) = as_is_enabled (es_ring s)"
      using hexdump_line_ok [OF 1(2,3) buf, of name width "of_nat i"] by blast
    have nx: "of_nat i + ucast width = (of_nat (i + unat width) :: u16)" by simp
    obtain s' where r: "hexdump_loop name width buf sz (of_nat (i + unat width)) s1 = Some s'"
      "delivered_all (map (\<lambda>j. hex_text name (unat width) buf (unat sz) (of_nat j)) (hex_offsets (unat width) (unat sz) (i + unat width))) s1 s'"
      "length (es_buf s') = ELOG_LINE_BUF_SIZE" "async_inv (es_ring s')" "es_log s' = es_log s1" "es_held s' = es_held s1"
      using 1(1) [OF conjI [OF True w(1)] l(3,4)] True by auto
    have o: "hex_offsets (unat width) (unat sz) i = i # hex_offsets (unat width) (unat sz) (i + unat width)"
      using True w(1) by (subst hex_offsets.simps) simp
    have "hexdump_loop name width buf sz (of_nat i) s = hexdump_loop name width buf sz (of_nat i + ucast width) s1"
      using lt l(1) by (subst hexdump_loop.simps) simp
    then have "hexdump_loop name width buf sz (of_nat i) s = Some s'" unfolding nx r(1) .
    then show ?thesis using r l delivered_all_Cons [OF l(2) r(2) l(7)] by (simp add: o)
  qed
qed

text \<open>When a dump is wanted.\<close>

definition dump_wanted :: "string \<Rightarrow> easy_logger \<Rightarrow> bool" where
  "dump_wanted name l \<longleftrightarrow> el_output_enabled l \<and> ELOG_LVL_DEBUG \<le> ef_level l \<and> strstr name (ef_tag l)"

lemma hexdump_run:
  assumes "dump_wanted name (es_log s)"
  shows "elog_hexdump name width buf sz s =
    Option.bind (elog_output_lock s) (\<lambda>s. Option.bind (hexdump_loop name width buf sz 0 s) elog_output_unlock)"
  using assms by (auto simp: elog_hexdump_def dump_wanted_def)

text \<open>
  C29. \<open>elog_hexdump\<close> of data whose size and the width together are at most \<open>2^16\<close> ends, with the lock free,
  and puts out one line for each \<open>width\<close> bytes, each at most 512 characters long.
\<close>

theorem elog_hexdump_lines:
  assumes ok: "log_ok s" and wanted: "dump_wanted name (es_log s)"
    and w: "0 < unat width" "unat sz + unat width \<le> 2 ^ 16" and buf: "unat sz \<le> length buf"
  shows "\<exists>s'. elog_hexdump name width buf sz s = Some s' \<and> log_ok s' \<and> es_log s' = es_log s
    \<and> delivered_all (map (\<lambda>j. hex_text name (unat width) buf (unat sz) (of_nat j)) (hex_offsets (unat width) (unat sz) 0)) s s'"
proof -
  note P = log_ok_parts [OF ok]
  let ?s = "s\<lparr>es_held := True, es_log := (es_log s)\<lparr>el_before_disable := True\<rparr>\<rparr>"
  have lock: "elog_output_lock s = Some ?s" using lock_unlock(1) [OF P(2), of id] by simp
  obtain s' where r: "hexdump_loop name width buf sz (of_nat 0) ?s = Some s'"
    "delivered_all (map (\<lambda>j. hex_text name (unat width) buf (unat sz) (of_nat j)) (hex_offsets (unat width) (unat sz) 0)) ?s s'"
    "length (es_buf s') = ELOG_LINE_BUF_SIZE" "async_inv (es_ring s')" "es_log s' = es_log ?s" "es_held s' = es_held ?s"
    using hexdump_loop_ok [OF w buf, of ?s 0 name] P(3,4) w(1) by auto
  let ?r = "s'\<lparr>es_held := False, es_log := es_log s\<rparr>"
  have u: "elog_output_unlock s' = Some ?r" "log_ok ?r" using unlock_ok [OF ok] r(3-6) by simp_all
  have "elog_hexdump name width buf sz s = Some ?r"
    using lock r(1) u(1) by (simp add: hexdump_run [OF wanted])
  then show ?thesis using u(2) r(2) by (intro exI [of _ ?r]) (simp add: delivered_all_def split: if_splits)
qed

lemma example_wanted: "dump_wanted name (es_log elog_example)"
  by (simp add: dump_wanted_def elog_example_def upd_log_def elog_ready_facts elog_lvls)

theorem elog_hexdump_lines_witness:
  "\<exists>s'. elog_hexdump ''key'' 2 [0x41, 0x42, 0x43] 3 elog_example = Some s'
    \<and> es_port s' = map (\<lambda>j. hex_text ''key'' 2 [0x41, 0x42, 0x43] 3 (of_nat j)) [0, 2]"
proof -
  have o: "hex_offsets 2 3 0 = [0, 2]" by (simp add: hex_offsets.simps)
  have "0 < unat (2 :: u8)" "unat (3 :: u16) + unat (2 :: u8) \<le> 2 ^ 16" "unat (3 :: u16) \<le> length [0x41 :: u8, 0x42, 0x43]"
    by simp_all
  from elog_hexdump_lines [OF elog_example_facts(1) example_wanted this, of "''key''"] show ?thesis
    by (auto simp: delivered_all_def elog_example_facts o)
qed





end
