(* ===== verification/ElogBuf.thy ===== *)
theory ElogBuf
  imports ElogLine
begin

text \<open>
  The buffered output of the logger, \<open>elog_buf.c\<close>, which a build selects in place of the asynchronous
  one; the size of its buffer is a parameter. The loop is \<open>None\<close> when it does not end.
\<close>

section \<open>The code\<close>

record elog_buf =
  eb_log_buf :: string
  eb_write_size :: nat
  eb_enabled :: bool

text \<open>The loop, with \<open>write_index\<close> and what is left of \<open>size\<close>, and what was given to the port.\<close>

partial_function (option) buf_loop ::
  "nat \<Rightarrow> string \<Rightarrow> nat \<Rightarrow> nat \<Rightarrow> elog_buf \<Rightarrow> string list \<Rightarrow> (string list \<times> elog_buf) option" where
  "buf_loop n log write_index sz b out =
     (if eb_write_size b + sz > n
      then do {
        let write_size = n - eb_write_size b;
        d \<leftarrow> mem_read write_index write_size log;
        buf \<leftarrow> mem_write (eb_write_size b) d (eb_log_buf b);
        p \<leftarrow> mem_read 0 n buf;
        buf_loop n log (write_index + write_size) (sz - write_size)
          (b\<lparr>eb_log_buf := buf, eb_write_size := 0\<rparr>) (out @ [p]) }
      else do {
        d \<leftarrow> mem_read write_index sz log;
        buf \<leftarrow> mem_write (eb_write_size b) d (eb_log_buf b);
        Some (out, b\<lparr>eb_log_buf := buf, eb_write_size := eb_write_size b + sz\<rparr>) })"

definition elog_buf_output :: "nat \<Rightarrow> string \<Rightarrow> nat \<Rightarrow> elog_buf \<Rightarrow> (string list \<times> elog_buf) option" where
  "elog_buf_output n log sz b =
     (if \<not> eb_enabled b then do { d \<leftarrow> mem_read 0 sz log; Some ([d], b) }
      else buf_loop n log 0 sz b [])"

definition elog_flush :: "elog_buf \<Rightarrow> (string list \<times> elog_buf) option" where
  "elog_flush b =
     (if eb_write_size b = 0 then Some ([], b)
      else do { d \<leftarrow> mem_read 0 (eb_write_size b) (eb_log_buf b); Some ([d], b\<lparr>eb_write_size := 0\<rparr>) })"

definition elog_buf_enabled :: "bool \<Rightarrow> elog_buf \<Rightarrow> elog_buf" where
  "elog_buf_enabled enabled b = b\<lparr>eb_enabled := enabled\<rparr>"

section \<open>Nothing is lost\<close>

definition buf_pending :: "elog_buf \<Rightarrow> string" where
  "buf_pending b = take (eb_write_size b) (eb_log_buf b)"

definition buf_ok :: "nat \<Rightarrow> elog_buf \<Rightarrow> bool" where
  "buf_ok n b \<longleftrightarrow> length (eb_log_buf b) = n \<and> eb_write_size b \<le> n"

lemma take_split: "k \<le> m \<Longrightarrow> take m (drop i xs) = take k (drop i xs) @ take (m - k) (drop (i + k) xs)"
  by (metis add.commute drop_drop le_add_diff_inverse take_add)

text \<open>Each turn of the loop but the last uses at least as much of the log as the buffer has room.\<close>

lemma buf_loop_ok:
  assumes "0 < n" "buf_ok n b" "write_index + sz \<le> length log"
  shows "\<exists>ps b'. buf_loop n log write_index sz b out = Some (out @ ps, b') \<and> buf_ok n b'
    \<and> (\<forall>p \<in> set ps. length p = n) \<and> eb_enabled b' = eb_enabled b
    \<and> concat ps @ buf_pending b' = buf_pending b @ take sz (drop write_index log)"
  using assms(2,3)
proof (induction "2 * sz + (if eb_write_size b = n then 1 else 0)" arbitrary: sz write_index b out rule: less_induct)
  case less
  let ?w = "n - eb_write_size b"
  note b = less.prems(1) [unfolded buf_ok_def]
  show ?case
  proof (cases "eb_write_size b + sz > n")
    case True
    let ?d = "take ?w (drop write_index log)"
    let ?buf = "mem_put (eb_write_size b) ?d (eb_log_buf b)"
    let ?b = "b\<lparr>eb_log_buf := ?buf, eb_write_size := 0\<rparr>"
    have ld: "length ?d = ?w" using True less.prems(2) b by simp
    have "write_index + ?w \<le> length log" using True less.prems(2) by linarith
    then have rd: "mem_read write_index ?w log = Some ?d" by (simp add: mem_read_def mem_get_def)
    have buf: "length ?buf = n" using ld b by (simp add: length_mem_put)
    have full: "?buf = buf_pending b @ ?d" using ld b by (simp add: mem_put_def buf_pending_def)
    have step: "buf_loop n log write_index sz b out = buf_loop n log (write_index + ?w) (sz - ?w) ?b (out @ [?buf])"
      using True ld b buf rd by (subst buf_loop.simps) (simp add: mem_write_def, simp add: mem_read_def mem_get_def Let_def)
    have dec: "2 * (sz - ?w) + (if eb_write_size ?b = n then 1 else 0) < 2 * sz + (if eb_write_size b = n then 1 else 0)"
      using True b \<open>0 < n\<close> by auto
    have "buf_ok n ?b" "write_index + ?w + (sz - ?w) \<le> length log"
      using buf True less.prems(2) b by (auto simp: buf_ok_def)
    from less.hyps [OF dec this, of "out @ [?buf]"] obtain ps b' where
      r: "buf_loop n log (write_index + ?w) (sz - ?w) ?b (out @ [?buf]) = Some ((out @ [?buf]) @ ps, b')" "buf_ok n b'"
        "\<forall>p \<in> set ps. length p = n" "eb_enabled b' = eb_enabled ?b"
        "concat ps @ buf_pending b' = buf_pending ?b @ take (sz - ?w) (drop (write_index + ?w) log)"
      by (elim exE conjE) (rule that)
    have "take sz (drop write_index log) = ?d @ take (sz - ?w) (drop (write_index + ?w) log)"
      using take_split [of ?w sz write_index log] True by simp
    moreover have "buf_pending ?b = []" by (simp add: buf_pending_def)
    ultimately show ?thesis using step r buf full by (intro exI [of _ "?buf # ps"] exI [of _ b']) simp
  next
    case False
    let ?d = "take sz (drop write_index log)"
    let ?buf = "mem_put (eb_write_size b) ?d (eb_log_buf b)"
    have ld: "length ?d = sz" using less.prems(2) by simp
    have buf: "length ?buf = n" using ld b False by (simp add: length_mem_put)
    have "take (eb_write_size b + sz) ?buf = buf_pending b @ ?d"
      using ld b by (simp add: mem_put_def buf_pending_def)
    then show ?thesis using False ld b less.prems(2) buf
      by (subst buf_loop.simps)
        (simp add: mem_read_def mem_get_def mem_write_def buf_ok_def buf_pending_def)
  qed
qed

text \<open>
  \<open>elog_buf_output\<close> ends for every log and every size of the buffer but zero, and loses nothing:
  what it hands to the port, in blocks of the size of the buffer, followed by what it keeps, is what it
  kept before, followed by the log; a flush hands over the rest.
\<close>

theorem elog_buf_keeps:
  assumes "0 < n" "buf_ok n b" "eb_enabled b" "sz \<le> length log"
  shows "\<exists>ps b' rest b''. elog_buf_output n log sz b = Some (ps, b') \<and> buf_ok n b' \<and> (\<forall>p \<in> set ps. length p = n)
    \<and> concat ps @ buf_pending b' = buf_pending b @ take sz log
    \<and> elog_flush b' = Some (rest, b'') \<and> concat rest = buf_pending b' \<and> buf_pending b'' = []"
proof -
  obtain ps b' where r: "buf_loop n log 0 sz b [] = Some (ps, b')" "buf_ok n b'" "\<forall>p \<in> set ps. length p = n"
    "concat ps @ buf_pending b' = buf_pending b @ take sz log"
    using buf_loop_ok [OF assms(1,2), of 0 sz log "[]"] assms(4) by auto
  obtain rest b'' where "elog_flush b' = Some (rest, b'')" "concat rest = buf_pending b'" "buf_pending b'' = []"
    using r(2) by (cases "eb_write_size b' = 0")
      (auto simp: elog_flush_def buf_ok_def buf_pending_def mem_read_def mem_get_def)
  then show ?thesis using r assms(3) by (auto simp: elog_buf_output_def)
qed

theorem elog_buf_keeps_witness:
  "\<exists>ps b'. elog_buf_output 4 ''abcdefg'' 7 \<lparr>eb_log_buf = ''xy..'', eb_write_size = 2, eb_enabled = True\<rparr> = Some (ps, b')
    \<and> concat ps @ buf_pending b' = ''xyabcdefg''"
  using elog_buf_keeps [of 4 "\<lparr>eb_log_buf = ''xy..'', eb_write_size = 2, eb_enabled = True\<rparr>" 7 "''abcdefg''"]
  by (fastforce simp: buf_ok_def buf_pending_def)

end
