(* ===== verification/ElogFile.thy ===== *)
theory ElogFile
  imports ElogLine
begin

text \<open>
  Logging to files, \<open>plugins/file/elog_file.c\<close> with the lock of \<open>port/elog_file_port.c\<close>: when the file has
  grown beyond its limit, the generations behind it are renamed and a new file is begun. The file system maps
  names to files, a handle being a file, so that a renamed file stays open. Which calls the system refuses
  is part of the state.
\<close>

section \<open>The file system\<close>

datatype fs_call = Open_read string | Open_append string | Remove string | Rename string string | Append nat

record file_sys =
  fs_names :: "string \<Rightarrow> nat option"
  fs_data :: "nat \<Rightarrow> string"
  fs_fresh :: nat
  fs_deny :: "fs_call \<Rightarrow> bool"
  fs_sem :: nat

definition fopen_read :: "string \<Rightarrow> file_sys \<Rightarrow> bool" where
  "fopen_read name fs \<longleftrightarrow> fs_names fs name \<noteq> None \<and> \<not> fs_deny fs (Open_read name)"

definition fopen_append :: "string \<Rightarrow> file_sys \<Rightarrow> nat option \<times> file_sys" where
  "fopen_append name fs =
     (if fs_deny fs (Open_append name) then (None, fs)
      else case fs_names fs name of
        Some f \<Rightarrow> (Some f, fs)
      | None \<Rightarrow> (Some (fs_fresh fs), fs\<lparr>fs_names := (fs_names fs)(name := Some (fs_fresh fs)),
          fs_data := (fs_data fs)(fs_fresh fs := []), fs_fresh := fs_fresh fs + 1\<rparr>))"

definition fs_remove :: "string \<Rightarrow> file_sys \<Rightarrow> file_sys" where
  "fs_remove name fs = (if fs_deny fs (Remove name) then fs else fs\<lparr>fs_names := (fs_names fs)(name := None)\<rparr>)"

definition fs_rename :: "string \<Rightarrow> string \<Rightarrow> file_sys \<Rightarrow> int \<times> file_sys" where
  "fs_rename old new fs =
     (if fs_deny fs (Rename old new) \<or> fs_names fs old = None then (-1, fs)
      else (0, fs\<lparr>fs_names := (fs_names fs)(new := fs_names fs old, old := None)\<rparr>))"

text \<open>A handle opened with \<open>a+\<close> writes at the end.\<close>

definition fs_append :: "nat \<Rightarrow> string \<Rightarrow> file_sys \<Rightarrow> file_sys" where
  "fs_append f d fs = (if fs_deny fs (Append f) then fs else fs\<lparr>fs_data := (fs_data fs)(f := fs_data fs f @ d)\<rparr>)"

section \<open>The code\<close>

text \<open>\<open>ELOG_FILE_MAX_ROTATE\<close> is not zero; \<open>fl_sem\<close> tells whether \<open>semid\<close> is set.\<close>

definition ELOG_FILE_NAME :: string where "ELOG_FILE_NAME = ''/tmp/elog_file.log''"
definition ELOG_FILE_MAX_SIZE :: nat where "ELOG_FILE_MAX_SIZE = 1 * 1024 * 1024"
definition ELOG_FILE_MAX_ROTATE :: nat where "ELOG_FILE_MAX_ROTATE = 5"
definition SUFFIX_LEN :: nat where "SUFFIX_LEN = 10"

record elog_file_cfg =
  fc_name :: "string option"
  fc_max_size :: nat
  fc_max_rotate :: nat

record elog_file =
  fl_init_ok :: bool
  fl_fp :: "nat option"
  fl_cfg :: elog_file_cfg
  fl_sem :: bool

type_synonym file_state = "elog_file \<times> file_sys"

definition elog_file_port_lock :: "file_state \<Rightarrow> file_state option" where
  "elog_file_port_lock s = (case s of (l, fs) \<Rightarrow>
     if \<not> fl_sem l then Some (l, fs)
     else if fs_sem fs = 0 then None else Some (l, fs\<lparr>fs_sem := fs_sem fs - 1\<rparr>))"

definition elog_file_port_unlock :: "file_state \<Rightarrow> file_state option" where
  "elog_file_port_unlock s = (case s of (l, fs) \<Rightarrow>
     if \<not> fl_sem l then Some (l, fs) else Some (l, fs\<lparr>fs_sem := fs_sem fs + 1\<rparr>))"

text \<open>A path in an array of 256 characters.\<close>

definition file_path :: "string \<Rightarrow> string \<Rightarrow> string option" where
  "file_path name suffix = (let s = snprintf_text SUFFIX_LEN suffix in
     if length name + length s + 1 \<le> 256 then Some (name @ s) else None)"

definition old_suffix :: "nat \<Rightarrow> string" where
  "old_suffix n = (if n \<noteq> 0 then CHR ''.'' # num_str 10 (n - 1) else [])"

definition new_suffix :: "nat \<Rightarrow> string" where
  "new_suffix n = CHR ''.'' # num_str 10 n"

text \<open>The loop, \<open>n\<close> generations before its end.\<close>

fun rotate_loop :: "string \<Rightarrow> nat \<Rightarrow> file_sys \<Rightarrow> (bool \<times> file_sys) option" where
  "rotate_loop name 0 fs = Some (True, fs)"
| "rotate_loop name (Suc n) fs = do {
     oldpath \<leftarrow> file_path name (old_suffix n);
     newpath \<leftarrow> file_path name (new_suffix n);
     let fs = (if fopen_read newpath fs then fs_remove newpath fs else fs);
     let (err, fs) = (if fopen_read oldpath fs then fs_rename oldpath newpath fs else (0, fs));
     if err < 0 then Some (False, fs) else rotate_loop name n fs }"

definition elog_file_rotate :: "file_state \<Rightarrow> (bool \<times> file_state) option" where
  "elog_file_rotate s = (case s of (l, fs) \<Rightarrow> do {
     name \<leftarrow> fc_name (fl_cfg l);
     (result, fs) \<leftarrow> rotate_loop name (fc_max_rotate (fl_cfg l)) fs;
     let (fp, fs) = fopen_append name fs;
     Some (result, l\<lparr>fl_fp := fp\<rparr>, fs) })"

definition elog_file_write :: "string \<Rightarrow> nat \<Rightarrow> file_state \<Rightarrow> file_state option" where
  "elog_file_write log sz s = do {
     elog_assert (fl_init_ok (fst s));
     if fl_fp (fst s) = None then Some s
     else do {
       (l, fs) \<leftarrow> elog_file_port_lock s;
       f \<leftarrow> fl_fp l;
       (ok, l, fs) \<leftarrow> (if length (fs_data fs f) > fc_max_size (fl_cfg l) then elog_file_rotate (l, fs) else Some (True, l, fs));
       if \<not> ok then elog_file_port_unlock (l, fs)
       else do {
         f \<leftarrow> fl_fp l;
         d \<leftarrow> mem_read 0 sz log;
         elog_file_port_unlock (l, fs_append f d fs) } } }"

definition elog_file_config :: "elog_file_cfg option \<Rightarrow> file_state \<Rightarrow> file_state option" where
  "elog_file_config cfg s = do {
     (l, fs) \<leftarrow> elog_file_port_lock s;
     let l = l\<lparr>fl_fp := None\<rparr>;
     (case cfg of
       None \<Rightarrow> elog_file_port_unlock (l, fs)
     | Some c \<Rightarrow> (let l = l\<lparr>fl_cfg := c\<rparr> in case fc_name c of
         None \<Rightarrow> elog_file_port_unlock (l, fs)
       | Some name \<Rightarrow>
         if length name > 0 then (let (fp, fs) = fopen_append name fs in elog_file_port_unlock (l\<lparr>fl_fp := fp\<rparr>, fs))
         else elog_file_port_unlock (l, fs))) }"

text \<open>\<open>sem\<close> tells whether the semaphore could be opened or made.\<close>

definition elog_file_init :: "bool \<Rightarrow> file_state \<Rightarrow> file_state option" where
  "elog_file_init sem s =
     (if fl_init_ok (fst s) then Some s
      else do {
        (l, fs) \<leftarrow> elog_file_config (Some \<lparr>fc_name = Some ELOG_FILE_NAME, fc_max_size = ELOG_FILE_MAX_SIZE,
          fc_max_rotate = ELOG_FILE_MAX_ROTATE\<rparr>) ((fst s)\<lparr>fl_sem := sem\<rparr>, snd s);
        Some (l\<lparr>fl_init_ok := True\<rparr>, fs) })"

definition elog_file_deinit :: "file_state \<Rightarrow> file_state option" where
  "elog_file_deinit s = do {
     elog_assert (fl_init_ok (fst s));
     (l, fs) \<leftarrow> elog_file_config (Some \<lparr>fc_name = None, fc_max_size = 0, fc_max_rotate = 0\<rparr>) s;
     Some (l\<lparr>fl_sem := False, fl_init_ok := False\<rparr>, fs) }"

section \<open>Paths\<close>

definition digit_val :: "char \<Rightarrow> nat" where
  "digit_val c = of_char c - 48"

lemma digit_val: "d < 10 \<Longrightarrow> digit_val (''0123456789ABCDEF'' ! d) = d"
proof -
  assume "d < 10"
  then have "d \<in> set [0,1,2,3,4,5,6,7,8,9]" by auto
  then show ?thesis by (auto simp: digit_val_def)
qed

lemma num_str_val: "foldl (\<lambda>a c. 10 * a + digit_val c) 0 (num_str 10 n) = n"
proof (induction n rule: less_induct)
  case (less n)
  show ?case
  proof (cases "n < 10")
    case True
    then show ?thesis by (subst num_str.simps) (simp add: digit_val)
  next
    case False
    then have "num_str 10 n = num_str 10 (n div 10) @ [''0123456789ABCDEF'' ! (n mod 10)]" by (subst num_str.simps) simp
    then show ?thesis using less.IH [of "n div 10"] False by (simp add: digit_val)
  qed
qed

lemma num_str_inj: "num_str 10 m = num_str 10 n \<longleftrightarrow> m = n"
  using num_str_val by metis

lemma num_str_length: "n < 10 ^ k \<Longrightarrow> 0 < k \<Longrightarrow> length (num_str 10 n) \<le> k"
proof (induction k arbitrary: n)
  case (Suc k)
  show ?case
  proof (cases "n < 10")
    case True
    then show ?thesis by (subst num_str.simps) simp
  next
    case False
    have "0 < k" using Suc.prems(1) False by (cases k) auto
    moreover have "n div 10 < 10 ^ k" using Suc.prems(1) by (simp add: less_mult_imp_div_less mult.commute)
    ultimately have "length (num_str 10 (n div 10)) \<le> k" using Suc.IH by blast
    then show ?thesis using False by (subst num_str.simps) simp
  qed
qed simp

definition gen_path :: "string \<Rightarrow> nat \<Rightarrow> string" where
  "gen_path name k = name @ new_suffix k"

lemma gen_path_inj [simp]: "gen_path name j = gen_path name k \<longleftrightarrow> j = k" "gen_path name j \<noteq> name" "name \<noteq> gen_path name j"
  by (simp_all add: gen_path_def new_suffix_def num_str_inj)

definition prev_path :: "string \<Rightarrow> nat \<Rightarrow> string" where
  "prev_path name k = (case k of 0 \<Rightarrow> name | Suc j \<Rightarrow> gen_path name j)"

lemma file_path_ok:
  assumes "length name \<le> 246" "n < 10 ^ 8"
  shows "file_path name (new_suffix n) = Some (gen_path name n)"
    and "file_path name (old_suffix n) = Some (prev_path name n)"
proof -
  have l: "length (num_str 10 n) \<le> 8" "length (num_str 10 (n - 1)) \<le> 8"
    using num_str_length [of n 8] num_str_length [of "n - 1" 8] assms(2) by simp_all
  show "file_path name (new_suffix n) = Some (gen_path name n)"
    using l assms(1) by (simp add: file_path_def snprintf_text_def SUFFIX_LEN_def new_suffix_def gen_path_def)
  show "file_path name (old_suffix n) = Some (prev_path name n)"
    using l assms(1)
    by (cases n) (simp_all add: file_path_def snprintf_text_def SUFFIX_LEN_def old_suffix_def prev_path_def
        gen_path_def new_suffix_def)
qed

section \<open>Rotation\<close>

text \<open>The names after the last \<open>n\<close> turns of the loop, when the system refuses nothing.\<close>

fun shifted :: "string \<Rightarrow> nat \<Rightarrow> (string \<Rightarrow> nat option) \<Rightarrow> (string \<Rightarrow> nat option)" where
  "shifted name 0 m = m"
| "shifted name (Suc n) m = shifted name n (m(gen_path name n := m (prev_path name n), prev_path name n := None))"

lemma prev_path_simps [simp]: "prev_path name 0 = name" "prev_path name (Suc k) = gen_path name k"
  by (simp_all add: prev_path_def)

lemma gen_path_prev [simp]: "gen_path name k = prev_path name j \<longleftrightarrow> j = Suc k"
  "prev_path name j = gen_path name k \<longleftrightarrow> j = Suc k"
  by (cases j; auto)+

lemma prev_path_inj [simp]: "prev_path name j = prev_path name k \<longleftrightarrow> j = k"
  by (cases j; cases k) auto

lemma shifted_names:
  "n \<le> k \<Longrightarrow> shifted name n m (gen_path name k) = m (gen_path name k)"
  "k < n \<Longrightarrow> shifted name n m (gen_path name k) = m (prev_path name k)"
  "shifted name n m name = (if n = 0 then m name else None)"
proof -
  show a: "n \<le> k \<Longrightarrow> shifted name n m (gen_path name k) = m (gen_path name k)" for n m
    by (induction n arbitrary: m) auto
  show "k < n \<Longrightarrow> shifted name n m (gen_path name k) = m (prev_path name k)"
    by (induction n arbitrary: m) (auto simp: less_Suc_eq a)
  show "shifted name n m name = (if n = 0 then m name else None)"
  proof (induction n arbitrary: m)
    case (Suc n)
    show ?case by (simp only: shifted.simps Suc.IH) simp
  qed simp
qed

lemma fs_names_idem: "fs_names fs x = None \<Longrightarrow> fs\<lparr>fs_names := (fs_names fs)(x := None)\<rparr> = fs"
  by (cases fs) (simp add: fun_upd_idem)

lemma rotate_loop_ok:
  assumes "\<forall>c. \<not> fs_deny fs c" "length name \<le> 246" "n \<le> 10 ^ 8"
  shows "rotate_loop name n fs = Some (True, fs\<lparr>fs_names := shifted name n (fs_names fs)\<rparr>)"
  using assms(1,3)
proof (induction n arbitrary: fs)
  case (Suc n)
  let ?new = "gen_path name n" and ?old = "prev_path name n"
  let ?fs1 = "fs\<lparr>fs_names := (fs_names fs)(?new := None)\<rparr>"
  let ?fs2 = "fs\<lparr>fs_names := (fs_names fs)(?new := fs_names fs ?old, ?old := None)\<rparr>"
  have n: "n < 10 ^ 8" using Suc.prems(2) by simp
  have ne: "?new \<noteq> ?old" "?old \<noteq> ?new" by simp_all
  have 1: "(if fopen_read ?new fs then fs_remove ?new fs else fs) = ?fs1"
    using Suc.prems(1) by (auto simp: fopen_read_def fs_remove_def fs_names_idem)
  have 2: "(if fopen_read ?old ?fs1 then fs_rename ?old ?new ?fs1 else (0, ?fs1)) = (0, ?fs2)"
    using Suc.prems(1) ne
    by (auto simp: fopen_read_def fs_rename_def fun_upd_idem fun_upd_twist)
  have "rotate_loop name (Suc n) fs = rotate_loop name n ?fs2"
    unfolding rotate_loop.simps file_path_ok [OF assms(2) n] Option.bind.simps Let_def 1 2 by simp
  also have "\<dots> = Some (True, ?fs2\<lparr>fs_names := shifted name n (fs_names ?fs2)\<rparr>)"
    using Suc.prems by (intro Suc.IH) auto
  finally show ?case by simp
qed simp

section \<open>The files as a sequence of generations\<close>

definition gen_list :: "string \<Rightarrow> nat \<Rightarrow> file_sys \<Rightarrow> string option list" where
  "gen_list name R fs = map (\<lambda>k. map_option (fs_data fs) (fs_names fs (gen_path name k))) [0..<R]"

definition file_abs :: "file_state \<Rightarrow> string option list \<times> string" where
  "file_abs s = (case s of (l, fs) \<Rightarrow> (gen_list (the (fc_name (fl_cfg l))) (fc_max_rotate (fl_cfg l)) fs, fs_data fs (the (fl_fp l))))"

text \<open>The contract of a write: the file grows, or becomes the first generation and a new one begins.\<close>

definition file_spec :: "nat \<Rightarrow> nat \<Rightarrow> string \<Rightarrow> string option list \<times> string \<Rightarrow> unit \<times> string option list \<times> string" where
  "file_spec R limit log a = (case a of (gens, main) \<Rightarrow>
     ((), if length main > limit then (take R (Some main # gens), log) else (gens, main @ log)))"

definition file_code :: "string \<Rightarrow> file_state \<Rightarrow> (unit \<times> file_state) option" where
  "file_code log s = do { s \<leftarrow> elog_file_write log (length log) s; Some ((), s) }"

definition own_files :: "string \<Rightarrow> nat \<Rightarrow> string set" where
  "own_files name R = insert name (gen_path name ` {..<R})"

lemma gen_list_shift:
  assumes "0 < R" "m name = Some f"
  shows "map (\<lambda>k. map_option d (shifted name R m (gen_path name k))) [0..<R]
    = take R (Some (d f) # map (\<lambda>k. map_option d (m (gen_path name k))) [0..<R])"
proof (intro nth_equalityI)
  fix k assume "k < length (map (\<lambda>k. map_option d (shifted name R m (gen_path name k))) [0..<R])"
  then have "k < R" by simp
  then show "map (\<lambda>k. map_option d (shifted name R m (gen_path name k))) [0..<R] ! k
    = take R (Some (d f) # map (\<lambda>k. map_option d (m (gen_path name k))) [0..<R]) ! k"
    using assms by (cases k) (simp_all add: shifted_names)
qed (use assms in simp)

lemma unlock_file:
  "\<exists>fs'. elog_file_port_unlock (l, fs) = Some (l, fs') \<and> fs_names fs' = fs_names fs \<and> fs_data fs' = fs_data fs
    \<and> fs_fresh fs' = fs_fresh fs \<and> fs_deny fs' = fs_deny fs \<and> fs_sem fs' = fs_sem fs + (if fl_sem l then 1 else 0)"
  by (simp add: elog_file_port_unlock_def)

text \<open>What the two kinds of write have in common: settings that allow them, and usable files.\<close>

definition file_cfg_ok :: "string \<Rightarrow> nat \<Rightarrow> nat \<Rightarrow> elog_file \<Rightarrow> file_sys \<Rightarrow> bool" where
  "file_cfg_ok name R limit l fs \<longleftrightarrow> fl_init_ok l \<and> fc_max_rotate (fl_cfg l) = R \<and> fc_max_size (fl_cfg l) = limit
     \<and> 0 < R \<and> R \<le> 10 ^ 8 \<and> (\<forall>c. \<not> fs_deny fs c) \<and> (fl_sem l \<longrightarrow> 0 < fs_sem fs)
     \<and> fc_name (fl_cfg l) = Some name \<and> length name \<le> 246
     \<and> (\<forall>x \<in> own_files name R. \<forall>g. fs_names fs x = Some g \<longrightarrow> g < fs_fresh fs)"

definition file_inv :: "nat \<Rightarrow> nat \<Rightarrow> file_state \<Rightarrow> bool" where
  "file_inv R limit s \<longleftrightarrow> (case s of (l, fs) \<Rightarrow> \<exists>name f. file_cfg_ok name R limit l fs
     \<and> fl_fp l = Some f \<and> fs_names fs name = Some f \<and> (\<forall>k < R. fs_names fs (gen_path name k) \<noteq> Some f))"

lemma lock_file:
  assumes "fl_sem l \<longrightarrow> 0 < fs_sem fs"
  obtains fs1 where "elog_file_port_lock (l, fs) = Some (l, fs1)" "fs_names fs1 = fs_names fs" "fs_data fs1 = fs_data fs"
    "fs_fresh fs1 = fs_fresh fs" "fs_deny fs1 = fs_deny fs" "fs_sem fs = fs_sem fs1 + (if fl_sem l then 1 else 0)"
  using assms that [of "if fl_sem l then fs\<lparr>fs_sem := fs_sem fs - 1\<rparr> else fs"]
  by (auto simp: elog_file_port_lock_def)

lemma append_write:
  assumes ok: "file_cfg_ok name R limit l fs" and f: "fl_fp l = Some f" "length (fs_data fs f) \<le> limit"
  shows "\<exists>fs'. elog_file_write log (length log) (l, fs) = Some (l, fs') \<and> file_cfg_ok name R limit l fs'
    \<and> fs_names fs' = fs_names fs \<and> fs_data fs' = (fs_data fs)(f := fs_data fs f @ log)"
proof -
  note i = ok [unfolded file_cfg_ok_def]
  obtain fs1 where lock: "elog_file_port_lock (l, fs) = Some (l, fs1)" "fs_names fs1 = fs_names fs" "fs_data fs1 = fs_data fs"
    "fs_fresh fs1 = fs_fresh fs" "fs_deny fs1 = fs_deny fs" "fs_sem fs = fs_sem fs1 + (if fl_sem l then 1 else 0)"
    using i lock_file [of l fs] by blast
  obtain fs' where u: "elog_file_port_unlock (l, fs_append f log fs1) = Some (l, fs')" "fs_names fs' = fs_names fs"
    "fs_data fs' = (fs_data fs)(f := fs_data fs f @ log)" "fs_fresh fs' = fs_fresh fs" "fs_deny fs' = fs_deny fs"
    "fs_sem fs' = fs_sem fs"
    using i lock unlock_file [of l "fs_append f log fs1"] by (fastforce simp: fs_append_def)
  have "elog_file_write log (length log) (l, fs) = Some (l, fs')"
    using i f lock u(1) by (simp add: elog_file_write_def elog_assert_def mem_read_def mem_get_def)
  then show ?thesis using i u by (auto simp: file_cfg_ok_def)
qed

text \<open>\<open>h\<close> is the file of the name, which need not be the one the handle is open on.\<close>

lemma rotate_write:
  assumes ok: "file_cfg_ok name R limit l fs" and f: "fl_fp l = Some f" "limit < length (fs_data fs f)"
    and h: "fs_names fs name = Some h"
  shows "\<exists>fs' g. elog_file_write log (length log) (l, fs) = Some (l\<lparr>fl_fp := Some g\<rparr>, fs')
    \<and> file_inv R limit (l\<lparr>fl_fp := Some g\<rparr>, fs') \<and> fs_names fs' name = Some g
    \<and> (\<forall>k < R. fs_names fs' (gen_path name k) = fs_names fs (prev_path name k))
    \<and> g = fs_fresh fs \<and> fs_data fs' = (fs_data fs)(g := log)
    \<and> fs_sem fs' = fs_sem fs \<and> fs_fresh fs' = g + 1 \<and> fs_deny fs' = fs_deny fs
    \<and> gen_list name R fs' = take R (Some (fs_data fs h) # gen_list name R fs)"
proof -
  note i = ok [unfolded file_cfg_ok_def]
  obtain fs1 where lock: "elog_file_port_lock (l, fs) = Some (l, fs1)" "fs_names fs1 = fs_names fs" "fs_data fs1 = fs_data fs"
    "fs_fresh fs1 = fs_fresh fs" "fs_deny fs1 = fs_deny fs" "fs_sem fs = fs_sem fs1 + (if fl_sem l then 1 else 0)"
    using i lock_file [of l fs] by blast
  let ?m = "shifted name R (fs_names fs)" and ?g = "fs_fresh fs"
  let ?fs2 = "fs1\<lparr>fs_names := ?m(name := Some ?g), fs_data := (fs_data fs)(?g := []), fs_fresh := ?g + 1\<rparr>"
  have "?m name = None" using i by (simp add: shifted_names)
  moreover have "rotate_loop name R fs1 = Some (True, fs1\<lparr>fs_names := shifted name R (fs_names fs1)\<rparr>)"
    using i lock(5) by (intro rotate_loop_ok) auto
  ultimately have rot: "elog_file_rotate (l, fs1) = Some (True, l\<lparr>fl_fp := Some ?g\<rparr>, ?fs2)"
    using i lock by (simp add: elog_file_rotate_def fopen_append_def)
  let ?l = "l\<lparr>fl_fp := Some ?g\<rparr>"
  obtain fs' where u: "elog_file_port_unlock (?l, fs_append ?g log ?fs2) = Some (?l, fs')" "fs_names fs' = ?m(name := Some ?g)"
    "fs_data fs' = (fs_data fs)(?g := log)" "fs_fresh fs' = ?g + 1" "fs_deny fs' = fs_deny fs" "fs_sem fs' = fs_sem fs"
    using i lock unlock_file [of ?l "fs_append ?g log ?fs2"] by (fastforce simp: fs_append_def)
  have w: "elog_file_write log (length log) (l, fs) = Some (?l, fs')"
    using i f lock u(1) rot by (simp add: elog_file_write_def elog_assert_def mem_read_def mem_get_def)
  have names: "fs_names fs' (gen_path name k) = fs_names fs (prev_path name k)" if "k < R" for k
    using that by (simp add: u(2) shifted_names)
  have own: "prev_path name k \<in> own_files name R" if "k < R" for k
    using that by (cases k) (auto simp: own_files_def)
  have lt: "\<forall>g. fs_names fs (prev_path name k) = Some g \<longrightarrow> g < ?g" if "k < R" for k
    using own [OF that] i by blast
  have "file_inv R limit (?l, fs')"
    using i u(2,4,5,6) names lt by (force simp: file_inv_def file_cfg_ok_def own_files_def)
  moreover have "gen_list name R fs' = map (\<lambda>k. map_option (fs_data fs) (?m (gen_path name k))) [0..<R]"
    using lt names u(3) unfolding gen_list_def
    by (intro map_cong refl) (auto simp: map_option_case shifted_names split: option.split)
  moreover have "\<dots> = take R (Some (fs_data fs h) # gen_list name R fs)"
    unfolding gen_list_def using i h by (intro gen_list_shift) auto
  ultimately show ?thesis using w u names by auto
qed

lemma file_write_step:
  assumes inv: "file_inv R limit s"
  shows "\<exists>s'. elog_file_write log (length log) s = Some s' \<and> file_inv R limit s'
    \<and> file_spec R limit log (file_abs s) = ((), file_abs s')"
proof -
  obtain l fs where s: "s = (l, fs)" by (cases s)
  obtain name f where i: "file_cfg_ok name R limit l fs" "fl_fp l = Some f" "fs_names fs name = Some f"
    "\<forall>k < R. fs_names fs (gen_path name k) \<noteq> Some f"
    using inv by (auto simp: file_inv_def s)
  have n: "fc_name (fl_cfg l) = Some name" "fc_max_rotate (fl_cfg l) = R" using i(1) by (auto simp: file_cfg_ok_def)
  show ?thesis
  proof (cases "length (fs_data fs f) > limit")
    case False
    then obtain fs' where r: "elog_file_write log (length log) (l, fs) = Some (l, fs')" "file_cfg_ok name R limit l fs'"
      "fs_names fs' = fs_names fs" "fs_data fs' = (fs_data fs)(f := fs_data fs f @ log)"
      using append_write [OF i(1,2)] by (meson not_le)
    have "gen_list name R fs' = gen_list name R fs"
      using i(4) r(3,4) by (auto simp: gen_list_def map_option_case split: option.split)
    then have "file_spec R limit log (file_abs s) = ((), file_abs (l, fs'))"
      using False i(2) n r(4) by (simp add: s file_abs_def file_spec_def)
    moreover have "file_inv R limit (l, fs')" using i r by (auto simp: file_inv_def)
    ultimately show ?thesis using r(1) s by blast
  next
    case True
    then obtain fs' g where r: "elog_file_write log (length log) (l, fs) = Some (l\<lparr>fl_fp := Some g\<rparr>, fs')"
      "file_inv R limit (l\<lparr>fl_fp := Some g\<rparr>, fs')" "fs_data fs' = (fs_data fs)(g := log)"
      "gen_list name R fs' = take R (Some (fs_data fs f) # gen_list name R fs)"
      using rotate_write [OF i(1,2) _ i(3), of log] by blast
    then have "file_spec R limit log (file_abs s) = ((), file_abs (l\<lparr>fl_fp := Some g\<rparr>, fs'))"
      using True i(2) n by (simp add: s file_abs_def file_spec_def)
    then show ?thesis using r(1,2) s by blast
  qed
qed

interpretation log_files: simulation file_code "file_spec R limit" "file_inv R limit" file_abs "\<lambda>_. True"
  for R limit
proof
  fix s log assume "file_inv R limit s"
  from file_write_step [OF this, of log] show "\<exists>r s'. file_code log s = Some (r, s') \<and> file_inv R limit s'
    \<and> file_spec R limit log (file_abs s) = (r, file_abs s')"
    by (auto simp: file_code_def)
qed

text \<open>What the files hold, oldest first.\<close>

definition history :: "string option list \<times> string \<Rightarrow> string" where
  "history a = (case a of (gens, main) \<Rightarrow> concat (map (\<lambda>g. case g of None \<Rightarrow> [] | Some t \<Rightarrow> t) (rev gens)) @ main)"

text \<open>The generations are the newest of the files that were full; \<open>w\<close> is all that was written.\<close>

definition kept :: "nat \<Rightarrow> nat \<Rightarrow> nat \<Rightarrow> string \<Rightarrow> string option list \<times> string \<Rightarrow> bool" where
  "kept R limit L w a \<longleftrightarrow> (case a of (gens, main) \<Rightarrow> \<exists>ts lost.
     gens = map Some ts @ replicate (R - length ts) None \<and> length ts \<le> R
     \<and> (\<forall>t \<in> set ts. limit < length t \<and> length t \<le> limit + L) \<and> length main \<le> limit + L
     \<and> w = lost @ concat (rev ts) @ main \<and> (lost \<noteq> [] \<longrightarrow> length ts = R))"

lemma keptI:
  assumes "gens = map Some ts @ replicate (R - length ts) None" "length ts \<le> R"
    "\<forall>t \<in> set ts. limit < length t \<and> length t \<le> limit + L" "length main \<le> limit + L"
    "w = lost @ concat (rev ts) @ main" "lost \<noteq> [] \<longrightarrow> length ts = R"
  shows "kept R limit L w (gens, main)"
  unfolding kept_def prod.case using assms by blast

lemma kept_step:
  assumes k: "kept R limit L w a" and R: "0 < R" and l: "length log \<le> L"
  shows "kept R limit L (w @ log) (snd (file_spec R limit log a))"
proof -
  obtain gens main where a: "a = (gens, main)" by (cases a)
  obtain ts lost where t: "gens = map Some ts @ replicate (R - length ts) None" "length ts \<le> R"
    "\<forall>t \<in> set ts. limit < length t \<and> length t \<le> limit + L" "length main \<le> limit + L"
    "w = lost @ concat (rev ts) @ main" "lost \<noteq> [] \<longrightarrow> length ts = R"
    using k by (auto simp: kept_def a)
  consider "length main \<le> limit" | "length main > limit" "length ts < R" | "length main > limit" "length ts = R"
    using t(2) by linarith
  then show ?thesis
  proof cases
    case 1
    then show ?thesis using t l by (fastforce simp: kept_def a file_spec_def)
  next
    case 2
    then have "take R (Some main # gens) = map Some (main # ts) @ replicate (R - length (main # ts)) None"
      by (simp add: t(1) take_Cons' flip: replicate_append_same)
    moreover have "lost = []" using t(6) 2 by auto
    moreover have "file_spec R limit log a = ((), take R (Some main # gens), log)" using 2 by (simp add: a file_spec_def)
    ultimately show ?thesis using t l 2 by (simp del: take_Suc_Cons) (rule keptI [of _ "main # ts" _ _ _ _ _ "[]"]; simp)
  next
    case 3
    then obtain us u where u: "ts = us @ [u]" using R by (cases ts rule: rev_cases) auto
    have "take R (Some main # gens) = map Some (main # us) @ replicate (R - length (main # us)) None"
      using 3 by (simp add: t(1) u take_Cons')
    moreover have "w @ log = (lost @ u) @ concat (rev (main # us)) @ log" by (simp add: t(5) u)
    moreover have "file_spec R limit log a = ((), take R (Some main # gens), log)" using 3 by (simp add: a file_spec_def)
    ultimately show ?thesis using t(2-4) l 3 u
      by (simp del: take_Suc_Cons) (rule keptI [of _ "main # us" _ _ _ _ _ "lost @ u"]; simp)
  qed
qed

lemma kept_run:
  assumes "kept R limit L w a" "0 < R" "\<forall>log \<in> set logs. length log \<le> L"
  shows "kept R limit L (w @ concat logs) (snd (run_total (file_spec R limit) logs a))"
  using assms(1,3)
proof (induction logs arbitrary: w a)
  case (Cons log logs)
  obtain a' where a': "file_spec R limit log a = ((), a')" by (cases "file_spec R limit log a") auto
  have "kept R limit L (w @ log) a'" using kept_step [OF Cons.prems(1) assms(2), of log] Cons.prems(2) a' by simp
  then have "kept R limit L ((w @ log) @ concat logs) (snd (run_total (file_spec R limit) logs a'))"
    using Cons.IH [of "w @ log" a'] Cons.prems(2) by auto
  then show ?case using a' by (simp add: case_prod_beta Let_def)
qed simp

lemma concat_longer: "\<forall>t \<in> set ts. limit < length t \<Longrightarrow> ts \<noteq> [] \<Longrightarrow> length ts * limit < length (concat ts)"
proof (induction ts)
  case (Cons t ts)
  then show ?case by (cases ts) (auto simp: add_less_mono less_imp_le)
qed simp

text \<open>
  C27. From empty files, whatever logs of at most \<open>L\<close> characters are written, the files hold, in the order
  of the generations, the end of what was written: all of it, or more than \<open>R\<close> times the limit of a file;
  and no file is longer than the limit and one log.
\<close>

theorem elog_file_keeps:
  assumes "file_inv R limit s" "file_abs s = (replicate R None, [])" "\<forall>log \<in> set logs. length log \<le> L"
  shows "\<exists>rs s' lost. run_partial file_code logs s = Some (rs, s') \<and> file_inv R limit s'
    \<and> concat logs = lost @ history (file_abs s')
    \<and> (lost \<noteq> [] \<longrightarrow> R * limit < length (history (file_abs s')))
    \<and> length (snd (file_abs s')) \<le> limit + L \<and> (\<forall>t. Some t \<in> set (fst (file_abs s')) \<longrightarrow> length t \<le> limit + L)"
proof -
  have R: "0 < R" using assms(1) by (auto simp: file_inv_def file_cfg_ok_def)
  obtain rs s' where run: "run_partial file_code logs s = Some (rs, s')" "file_inv R limit s'"
    "run_total (file_spec R limit) logs (file_abs s) = (rs, file_abs s')"
    using log_files.run [OF assms(1), of logs] by auto
  have "kept R limit L [] (file_abs s)"
    by (auto simp: kept_def assms(2) intro!: exI [of _ "[]"])
  from kept_run [OF this R assms(3)] have "kept R limit L (concat logs) (file_abs s')" by (simp add: run(3))
  then obtain ts lost where t: "fst (file_abs s') = map Some ts @ replicate (R - length ts) None"
    "\<forall>t \<in> set ts. limit < length t \<and> length t \<le> limit + L" "length (snd (file_abs s')) \<le> limit + L"
    "concat logs = lost @ concat (rev ts) @ snd (file_abs s')" "lost \<noteq> [] \<longrightarrow> length ts = R"
    by (cases "file_abs s'") (auto simp: kept_def)
  have h: "history (file_abs s') = concat (rev ts) @ snd (file_abs s')"
    by (cases "file_abs s'") (use t(1) in \<open>simp add: history_def rev_map [symmetric] comp_def\<close>)
  have "lost \<noteq> [] \<Longrightarrow> R * limit < length (history (file_abs s'))"
    using concat_longer [of "rev ts" limit] t(2,5) R unfolding h by fastforce
  then show ?thesis using run t h by (intro exI [of _ rs] exI [of _ s'] exI [of _ lost]) auto
qed

definition file_example :: file_state where
  "file_example = (\<lparr>fl_init_ok = True, fl_fp = Some 0, fl_cfg = \<lparr>fc_name = Some ''log'', fc_max_size = 3, fc_max_rotate = 2\<rparr>, fl_sem = False\<rparr>,
     \<lparr>fs_names = (\<lambda>x. if x = ''log'' then Some 0 else None), fs_data = (\<lambda>_. []), fs_fresh = 1, fs_deny = (\<lambda>_. False), fs_sem = 0\<rparr>)"

lemma file_example: "file_inv 2 3 file_example" "file_abs file_example = (replicate 2 None, [])"
proof -
  have ne: "gen_path ''log'' k \<noteq> ''log''" for k by simp
  show "file_inv 2 3 file_example"
    using ne by (auto simp: file_example_def file_inv_def file_cfg_ok_def)
  show "file_abs file_example = (replicate 2 None, [])"
    by (simp add: file_example_def file_abs_def gen_list_def gen_path_def new_suffix_def numeral_2_eq_2)
qed

theorem elog_file_keeps_witness:
  "\<exists>rs s' lost. run_partial file_code [''aaaa'', ''bbbb'', ''cccc'', ''dddd''] file_example = Some (rs, s')
    \<and> ''aaaabbbbccccdddd'' = lost @ history (file_abs s') \<and> (lost \<noteq> [] \<longrightarrow> 6 < length (history (file_abs s')))"
  using elog_file_keeps [OF file_example, of "[''aaaa'', ''bbbb'', ''cccc'', ''dddd'']" 4] by auto

text \<open>
  C28. Two processes that log to the same file do not share it after it is rotated: when one has rotated the
  full file, the other, whose handle is still on the old one, rotates again at its next log, and a
  generation that holds a single log takes the place of one that was full.
\<close>

theorem elog_file_two_processes:
  assumes "file_cfg_ok name R limit l1 fs" "fl_fp l1 = Some f" "fs_names fs name = Some f"
    and "file_cfg_ok name R limit l2 fs" "fl_fp l2 = Some f"
    and "limit < length (fs_data fs f)" "\<forall>k < R. fs_names fs (gen_path name k) \<noteq> Some f"
  shows "\<exists>l1' fs1 s2. elog_file_write log1 (length log1) (l1, fs) = Some (l1', fs1)
    \<and> elog_file_write log2 (length log2) (l2, fs1) = Some s2
    \<and> file_abs s2 = (take R (Some log1 # Some (fs_data fs f) # gen_list name R fs), log2)"
proof -
  obtain fs1 g where w1: "elog_file_write log1 (length log1) (l1, fs) = Some (l1\<lparr>fl_fp := Some g\<rparr>, fs1)"
    "file_inv R limit (l1\<lparr>fl_fp := Some g\<rparr>, fs1)" "fs_names fs1 name = Some g" "g = fs_fresh fs"
    "fs_data fs1 = (fs_data fs)(g := log1)" "fs_sem fs1 = fs_sem fs" "fs_deny fs1 = fs_deny fs"
    "gen_list name R fs1 = take R (Some (fs_data fs f) # gen_list name R fs)"
    using rotate_write [OF assms(1,2,6,3), of log1] by blast
  have "f < fs_fresh fs" using assms(1,3) by (auto simp: file_cfg_ok_def own_files_def)
  then have f: "fs_data fs1 f = fs_data fs f" using w1(4,5) by simp
  have "\<forall>x \<in> own_files name R. \<forall>g. fs_names fs1 x = Some g \<longrightarrow> g < fs_fresh fs1"
    using w1(2) assms(1) by (auto simp: file_inv_def file_cfg_ok_def)
  then have ok: "file_cfg_ok name R limit l2 fs1" using assms(4) w1(6,7) by (auto simp: file_cfg_ok_def)
  obtain fs2 g2 where w2: "elog_file_write log2 (length log2) (l2, fs1) = Some (l2\<lparr>fl_fp := Some g2\<rparr>, fs2)"
    "fs_data fs2 = (fs_data fs1)(g2 := log2)" "gen_list name R fs2 = take R (Some (fs_data fs1 g) # gen_list name R fs1)"
    using rotate_write [OF ok assms(5) _ w1(3), of log2] assms(6) f by auto
  have "gen_list name R fs2 = take R (Some log1 # Some (fs_data fs f) # gen_list name R fs)"
    using w2(3) w1(5,8) by (cases R; cases "R - 1") (simp_all add: take_Cons')
  then have "file_abs (l2\<lparr>fl_fp := Some g2\<rparr>, fs2) = (take R (Some log1 # Some (fs_data fs f) # gen_list name R fs), log2)"
    using assms(4) w2(2) by (simp add: file_abs_def file_cfg_ok_def)
  then show ?thesis using w1(1) w2(1) by blast
qed

definition second_process :: elog_file where
  "second_process = \<lparr>fl_init_ok = True, fl_fp = Some 0,
     fl_cfg = \<lparr>fc_name = Some ''log'', fc_max_size = 3, fc_max_rotate = 2\<rparr>, fl_sem = False\<rparr>"

theorem elog_file_two_processes_witness:
  "\<exists>fs l1' fs1 s2. fs_data fs 0 = ''full'' \<and> elog_file_write ''one'' (length ''one'') (second_process, fs) = Some (l1', fs1)
    \<and> elog_file_write ''two'' (length ''two'') (second_process, fs1) = Some s2 \<and> file_abs s2 = ([Some ''one'', Some ''full''], ''two'')"
proof -
  define fs where "fs = (snd file_example)\<lparr>fs_data := (\<lambda>_. ''full'')\<rparr>"
  have fs: "fs_data fs = (\<lambda>_. ''full'')" "fs_names fs = (\<lambda>x. if x = ''log'' then Some 0 else None)" "fs_fresh fs = 1"
    "fs_deny fs = (\<lambda>_. False)" by (simp_all add: fs_def file_example_def)
  have ok: "file_cfg_ok ''log'' 2 3 second_process fs"
    by (simp add: file_cfg_ok_def second_process_def fs)
  have f: "fl_fp second_process = Some 0" by (simp add: second_process_def)
  have c: "fs_names fs ''log'' = Some 0" "3 < length (fs_data fs 0)" "\<forall>k < 2. fs_names fs (gen_path ''log'' k) \<noteq> Some 0"
    using gen_path_inj(2) [of "''log''"] by (simp_all add: fs)
  obtain l1' fs1 s2 where "elog_file_write ''one'' (length ''one'') (second_process, fs) = Some (l1', fs1)"
    "elog_file_write ''two'' (length ''two'') (second_process, fs1) = Some s2"
    "file_abs s2 = (take 2 (Some ''one'' # Some (fs_data fs 0) # gen_list ''log'' 2 fs), ''two'')"
    using elog_file_two_processes [OF ok f c(1) ok f c(2,3), of "''one''" "''two''"] by blast
  moreover have "take 2 (Some ''one'' # Some (fs_data fs 0) # gen_list ''log'' 2 fs) = [Some ''one'', Some ''full'']"
    by (simp add: fs)
  ultimately show ?thesis using fs(1) by metis
qed

end
