(* ===== verification/PbStream.thy ===== *)
theory PbStream
  imports Prelude
begin

text \<open>
  The streams of nanopb (\<open>pb_encode.c\<close> and \<open>pb_decode.c\<close>): output to a buffer or, for sizing, to nowhere, and
  input from a buffer. A call succeeds with a value and the stream, or fails with the stream, whose error
  message is the first that was set, or is undefined. Callbacks of the application are not modelled.
\<close>

section \<open>Outcomes\<close>

datatype ('a, 's) outcome = Ok 'a 's | Err 's | Undef

definition pb_bind :: "('a, 's) outcome \<Rightarrow> ('a \<Rightarrow> 's \<Rightarrow> ('b, 's) outcome) \<Rightarrow> ('b, 's) outcome" where
  "pb_bind m f = (case m of Ok a s \<Rightarrow> f a s | Err s \<Rightarrow> Err s | Undef \<Rightarrow> Undef)"

lemma pb_bind_simps [simp]:
  "pb_bind (Ok a s) f = f a s" "pb_bind (Err s) f = Err s" "pb_bind Undef f = Undef"
  by (simp_all add: pb_bind_def)

lemma pb_bind_if: "pb_bind (if b then m else n) f = (if b then pb_bind m f else pb_bind n f)"
  by simp

lemma pb_bind_cong [fundef_cong]:
  "m = m' \<Longrightarrow> (\<And>a s. m' = Ok a s \<Longrightarrow> f a s = g a s) \<Longrightarrow> pb_bind m f = pb_bind m' g"
  by (cases m') auto

section \<open>Output\<close>

text \<open>\<open>os_callback\<close> tells a buffer stream from a sizing one; \<open>os_state\<close> is the offset in the buffer.\<close>

record pb_ostream =
  os_callback :: bool
  os_mem :: bytes
  os_state :: nat
  os_max_size :: u64
  os_bytes_written :: u64
  os_errmsg :: "string option"

definition os_error :: "string \<Rightarrow> pb_ostream \<Rightarrow> ('a, pb_ostream) outcome" where
  "os_error msg s = Err (s\<lparr>os_errmsg := (if os_errmsg s \<noteq> None then os_errmsg s else Some msg)\<rparr>)"

definition PB_OSTREAM_SIZING :: pb_ostream where
  "PB_OSTREAM_SIZING = \<lparr>os_callback = False, os_mem = [], os_state = 0, os_max_size = 0, os_bytes_written = 0,
     os_errmsg = None\<rparr>"

definition buf_write :: "bytes \<Rightarrow> u64 \<Rightarrow> pb_ostream \<Rightarrow> (unit, pb_ostream) outcome" where
  "buf_write buf count s = (case mem_read 0 (unat count) buf of None \<Rightarrow> Undef
     | Some d \<Rightarrow> (case mem_write (os_state s) d (os_mem s) of None \<Rightarrow> Undef
       | Some mem \<Rightarrow> Ok () (s\<lparr>os_mem := mem, os_state := os_state s + unat count\<rparr>)))"

definition pb_ostream_from_buffer :: "bytes \<Rightarrow> u64 \<Rightarrow> pb_ostream" where
  "pb_ostream_from_buffer buf bufsize = \<lparr>os_callback = True, os_mem = buf, os_state = 0, os_max_size = bufsize,
     os_bytes_written = 0, os_errmsg = None\<rparr>"

definition pb_write :: "bytes \<Rightarrow> u64 \<Rightarrow> pb_ostream \<Rightarrow> (unit, pb_ostream) outcome" where
  "pb_write buf count s =
     pb_bind
       (if count > 0 \<and> os_callback s
        then if os_bytes_written s + count < os_bytes_written s \<or> os_bytes_written s + count > os_max_size s
          then os_error ''stream full'' s
          else buf_write buf count s
        else Ok () s)
       (\<lambda>_ s. Ok () (s\<lparr>os_bytes_written := os_bytes_written s + count\<rparr>))"

section \<open>Input\<close>

text \<open>\<open>is_rest\<close> is the memory from \<open>state\<close> on; the stream ends after \<open>is_bytes_left\<close> bytes of it.\<close>

record pb_istream =
  is_rest :: bytes
  is_bytes_left :: u64
  is_errmsg :: "string option"

definition is_error :: "string \<Rightarrow> pb_istream \<Rightarrow> ('a, pb_istream) outcome" where
  "is_error msg s = Err (s\<lparr>is_errmsg := (if is_errmsg s \<noteq> None then is_errmsg s else Some msg)\<rparr>)"

definition buf_read :: "u64 \<Rightarrow> pb_istream \<Rightarrow> (bytes, pb_istream) outcome" where
  "buf_read count s = (case mem_read 0 (unat count) (is_rest s) of None \<Rightarrow> Undef
     | Some d \<Rightarrow> Ok d (s\<lparr>is_rest := drop (unat count) (is_rest s)\<rparr>))"

definition pb_istream_from_buffer :: "bytes \<Rightarrow> u64 \<Rightarrow> pb_istream" where
  "pb_istream_from_buffer buf msglen = \<lparr>is_rest = buf, is_bytes_left = msglen, is_errmsg = None\<rparr>"

text \<open>The bytes read; a call with no buffer, which skips them, does the same to a buffer stream.\<close>

definition pb_read :: "u64 \<Rightarrow> pb_istream \<Rightarrow> (bytes, pb_istream) outcome" where
  "pb_read count s =
     (if count = 0 then Ok [] s
      else if is_bytes_left s < count then is_error ''end-of-stream'' s
      else pb_bind (buf_read count s) (\<lambda>d s.
        Ok d (s\<lparr>is_bytes_left := (if is_bytes_left s < count then 0 else is_bytes_left s - count)\<rparr>)))"

definition pb_readbyte :: "pb_istream \<Rightarrow> (u8, pb_istream) outcome" where
  "pb_readbyte s =
     (if is_bytes_left s = 0 then is_error ''end-of-stream'' s
      else pb_bind (buf_read 1 s) (\<lambda>d s. Ok (hd d) (s\<lparr>is_bytes_left := is_bytes_left s - 1\<rparr>)))"

section \<open>What the streams hold\<close>

text \<open>The bytes written to a buffer stream since it was made, and what the stream requires of its buffer.\<close>

definition written :: "pb_ostream \<Rightarrow> bytes" where
  "written s = take (os_state s) (os_mem s)"

definition os_ok :: "pb_ostream \<Rightarrow> bool" where
  "os_ok s \<longleftrightarrow> (os_callback s \<longrightarrow> unat (os_bytes_written s) \<le> unat (os_max_size s)
     \<and> os_state s + (unat (os_max_size s) - unat (os_bytes_written s)) \<le> length (os_mem s))"

definition input :: "pb_istream \<Rightarrow> bytes" where
  "input s = take (unat (is_bytes_left s)) (is_rest s)"

definition is_ok :: "pb_istream \<Rightarrow> bool" where
  "is_ok s \<longleftrightarrow> unat (is_bytes_left s) \<le> length (is_rest s)"

lemma length_input: "is_ok s \<Longrightarrow> length (input s) = unat (is_bytes_left s)"
  by (simp add: is_ok_def input_def)

text \<open>\<open>s'\<close> is \<open>s\<close> after \<open>d\<close> has been written.\<close>

definition wrote :: "bytes \<Rightarrow> pb_ostream \<Rightarrow> pb_ostream \<Rightarrow> bool" where
  "wrote d s s' \<longleftrightarrow> os_ok s' \<and> os_callback s' = os_callback s \<and> os_max_size s' = os_max_size s
     \<and> os_bytes_written s' = os_bytes_written s + of_nat (length d)
     \<and> (os_callback s \<longrightarrow> written s' = written s @ d \<and> length (os_mem s') = length (os_mem s)
         \<and> drop (os_state s') (os_mem s') = drop (os_state s') (os_mem s))
     \<and> (\<not> os_callback s \<longrightarrow> os_mem s' = os_mem s) \<and> os_errmsg s' = os_errmsg s"

definition fits :: "nat \<Rightarrow> pb_ostream \<Rightarrow> bool" where
  "fits n s \<longleftrightarrow> \<not> os_callback s \<or> unat (os_bytes_written s) + n \<le> unat (os_max_size s)"

lemma write_checks:
  assumes "os_ok s" "os_callback s"
  shows "(os_bytes_written s + count < os_bytes_written s \<or> os_bytes_written s + count > os_max_size s)
    \<longleftrightarrow> \<not> fits (unat count) s"
proof -
  have m: "unat (os_max_size s) < 2 ^ 64" "unat count < 2 ^ 64" "unat (os_bytes_written s) < 2 ^ 64"
    using unat_lt_size [of "os_max_size s"] unat_lt_size [of count] unat_lt_size [of "os_bytes_written s"] by simp_all
  show ?thesis
  proof (cases "unat (os_bytes_written s) + unat count < 2 ^ 64")
    case True
    then have "unat (os_bytes_written s + count) = unat (os_bytes_written s) + unat count"
      using unat_add_nowrap [of "os_bytes_written s" count] by simp
    then show ?thesis using assms(2) by (simp add: word_less_nat_alt fits_def) linarith
  next
    case False
    have "unat (os_bytes_written s + count) = (unat (os_bytes_written s) + unat count) mod 2 ^ 64"
      by (simp add: unat_word_ariths)
    also have "\<dots> = unat (os_bytes_written s) + unat count - 2 ^ 64"
      using False m by (simp add: mod_if)
    finally have "unat (os_bytes_written s + count) < unat (os_bytes_written s)" using False m by linarith
    then show ?thesis using False m assms(2) by (simp add: word_less_nat_alt fits_def)
  qed
qed

lemma pb_write_ok:
  assumes ok: "os_ok s" and d: "length d = unat count" and fit: "fits (length d) s"
  shows "\<exists>s'. pb_write d count s = Ok () s' \<and> wrote d s s'"
proof (cases "count > 0 \<and> os_callback s")
  case False
  then have "length d = 0 \<or> \<not> os_callback s" using d by (auto simp: word_gt_0)
  then show ?thesis using False ok d
    by (auto simp: pb_write_def wrote_def os_ok_def written_def word_gt_0)
next
  case True
  have u: "unat (os_bytes_written s + count) = unat (os_bytes_written s) + unat count"
    using fit True d unat_lt_size [of "os_max_size s"] by (intro unat_add_nowrap) (simp add: fits_def)
  have lim: "os_state s + unat count \<le> length (os_mem s)"
    using ok fit True d by (auto simp: os_ok_def fits_def)
  have r: "mem_read 0 (unat count) d = Some d" using d by (simp add: mem_read_def mem_get_def)
  let ?s = "s\<lparr>os_mem := mem_put (os_state s) d (os_mem s), os_state := os_state s + unat count,
    os_bytes_written := os_bytes_written s + count\<rparr>"
  have "pb_write d count s = Ok () ?s"
    using True lim d r write_checks [OF ok, of count] fit
    by (simp add: pb_write_def buf_write_def mem_write_def)
  moreover have "wrote d s ?s"
    using True ok lim d u fit
    by (simp add: wrote_def os_ok_def written_def length_mem_put mem_put_suffix fits_def) (simp add: mem_put_def)
  ultimately show ?thesis by blast
qed

lemma pb_write_full:
  assumes "os_ok s" "\<not> fits (unat count) s"
  shows "pb_write d count s = Err (s\<lparr>os_errmsg := (if os_errmsg s \<noteq> None then os_errmsg s else Some ''stream full'')\<rparr>)"
proof -
  have "os_callback s" using assms(2) by (simp add: fits_def)
  moreover have "count > 0" using assms by (auto simp: fits_def os_ok_def word_gt_0)
  ultimately show ?thesis using write_checks [OF assms(1), of count] assms(2) by (simp add: pb_write_def os_error_def)
qed

lemma pb_readbyte_ok:
  assumes "is_ok s" "input s = b # bs"
  shows "\<exists>s'. pb_readbyte s = Ok b s' \<and> is_ok s' \<and> input s' = bs \<and> is_errmsg s' = is_errmsg s
    \<and> is_bytes_left s' = is_bytes_left s - 1"
proof -
  have l: "is_bytes_left s \<noteq> 0" using assms(2) by (auto simp: input_def)
  then have n: "unat (is_bytes_left s) \<noteq> 0" by (simp add: unat_eq_zero)
  obtain r where r: "is_rest s = b # r" using assms(2) by (cases "is_rest s") (auto simp: input_def take_Cons split: nat.splits)
  have u: "unat (is_bytes_left s - 1) = unat (is_bytes_left s) - 1"
    using n by (simp add: unat_sub_nowrap)
  obtain m where m: "unat (is_bytes_left s) = Suc m" using n by (cases "unat (is_bytes_left s)") auto
  show ?thesis using l assms r u m
    by (simp add: pb_readbyte_def buf_read_def mem_read_def mem_get_def is_ok_def input_def)
qed

lemma pb_readbyte_end: "input s = [] \<Longrightarrow> is_ok s \<Longrightarrow> pb_readbyte s = is_error ''end-of-stream'' s"
  using length_input [of s] by (simp add: pb_readbyte_def unat_eq_zero)

lemma pb_read_ok:
  assumes "is_ok s" "input s = d @ bs" "length d = unat count"
  shows "\<exists>s'. pb_read count s = Ok d s' \<and> is_ok s' \<and> input s' = bs \<and> is_errmsg s' = is_errmsg s
    \<and> is_bytes_left s' = is_bytes_left s - count"
proof (cases "count = 0")
  case True
  then show ?thesis using assms by (simp add: pb_read_def)
next
  case False
  have le: "unat count \<le> unat (is_bytes_left s)" using length_input [OF assms(1)] assms(2,3) by simp
  then have c: "\<not> is_bytes_left s < count" by (simp add: word_less_nat_alt)
  have u: "unat (is_bytes_left s - count) = unat (is_bytes_left s) - unat count" using le by (rule unat_sub_nowrap)
  have t: "take (unat count) (is_rest s) = d"
    using assms(2,3) le by (simp add: input_def) (metis append_eq_conv_conj min.absorb1 take_take)
  have "drop (unat count) (input s) = bs" using assms(2,3) by simp
  then have "take (unat (is_bytes_left s) - unat count) (drop (unat count) (is_rest s)) = bs"
    by (simp add: input_def drop_take)
  then show ?thesis using False c assms(1) le t u
    by (simp add: pb_read_def buf_read_def mem_read_def mem_get_def is_ok_def input_def)
qed

lemma pb_read_end:
  assumes "is_ok s" "length (input s) < unat count"
  shows "pb_read count s = is_error ''end-of-stream'' s"
  using assms length_input [OF assms(1)] by (auto simp: pb_read_def word_less_nat_alt)

text \<open>Every byte read makes the stream shorter, which ends the loops that read.\<close>

lemma pb_readbyte_less: "pb_readbyte s = Ok b s' \<Longrightarrow> unat (is_bytes_left s') < unat (is_bytes_left s)"
proof -
  assume r: "pb_readbyte s = Ok b s'"
  then have l: "is_bytes_left s \<noteq> 0" by (auto simp: pb_readbyte_def is_error_def)
  then have "is_bytes_left s' = is_bytes_left s - 1"
    using r by (auto simp: pb_readbyte_def buf_read_def split: option.splits)
  moreover have "unat (is_bytes_left s) \<noteq> 0" using l by (simp add: unat_eq_zero)
  then have "unat (is_bytes_left s - 1) = unat (is_bytes_left s) - 1" by (simp add: unat_sub_nowrap)
  ultimately show ?thesis using \<open>unat (is_bytes_left s) \<noteq> 0\<close> by simp
qed

lemma pb_read_less:
  assumes r: "pb_read count s = Ok d s'" and c: "count \<noteq> 0"
  shows "unat (is_bytes_left s') < unat (is_bytes_left s)"
proof -
  have l: "\<not> is_bytes_left s < count" using r c by (auto simp: pb_read_def is_error_def)
  then have "is_bytes_left s' = is_bytes_left s - count"
    using r c by (auto simp: pb_read_def buf_read_def split: option.splits)
  moreover have le: "unat count \<le> unat (is_bytes_left s)" using l by (simp add: word_less_nat_alt)
  moreover have "unat (is_bytes_left s - count) = unat (is_bytes_left s) - unat count" using le by (rule unat_sub_nowrap)
  moreover have "0 < unat count" using c by (simp add: unat_gt_0)
  ultimately show ?thesis by simp
qed

end
