(* ===== verification/PbVarint.thy ===== *)
theory PbVarint
  imports PbStream
begin

text \<open>
  The variable-length integers of nanopb, \<open>pb_encode.c\<close> and \<open>pb_decode.c\<close>: encoding by halves of 32 bits,
  decoding to 64 and to 32 bits, the zigzag form of signed numbers.
\<close>

section \<open>Words as numbers\<close>

lemma unat_drop: "unat (drop_bit n w) = unat w div 2 ^ n"
  unfolding unat_drop_bit_eq by (rule drop_bit_eq_div)

lemma unat_mask: "unat (w AND mask n) = unat w mod 2 ^ n"
proof -
  have "unat (take_bit n w) = unat w mod 2 ^ n" unfolding unsigned_take_bit_eq by (rule take_bit_eq_mod)
  then show ?thesis by (simp only: take_bit_eq_mask)
qed

lemma low7: "unat (w AND 0x7F) = unat w mod 128"
proof -
  have "(0x7F :: 'a word) = mask 7" by (simp add: mask_eq_exp_minus_1)
  then show ?thesis using unat_mask [of w 7] by simp
qed

lemma unat_or_disjoint: "a AND b = 0 \<Longrightarrow> unat (a OR b) = unat a + unat b"
proof -
  assume "a AND b = 0"
  then have "unat a AND unat b = 0" by (simp flip: unsigned_and_eq)
  then show ?thesis by (simp add: unsigned_or_eq disjunctive_add_eq_or)
qed

lemma small_is_take_bit: "unat w < 2 ^ k \<Longrightarrow> w = take_bit k w"
  unfolding word_unat_eq_iff unsigned_take_bit_eq by (simp add: take_bit_nat_eq_self)

lemma and_push: "unat w < 2 ^ k \<Longrightarrow> w AND push_bit k v = 0"
proof -
  assume "unat w < 2 ^ k"
  have "take_bit k w AND push_bit k v = 0" by (rule bit_word_eqI) (auto simp: bit_simps)
  then show ?thesis using small_is_take_bit [OF \<open>unat w < 2 ^ k\<close>] by simp
qed

lemma or_push: "unat w < 2 ^ k \<Longrightarrow> unat (w OR push_bit k v) = unat w + unat (push_bit k v)"
  by (rule unat_or_disjoint) (rule and_push)

lemma unat_ucast_fit: "unat w < 2 ^ LENGTH('b::len) \<Longrightarrow> unat (ucast w :: 'b word) = unat w"
  by (simp add: unsigned_ucast_eq take_bit_nat_eq_self)

text \<open>Bytes with the continuation bit.\<close>

lemma byte_or_80: "unat b < 128 \<Longrightarrow> unat (b OR 0x80 :: u8) = unat b + 128"
  using or_push [of b 7 1] by simp

lemma byte_80: "b AND 0x80 = 0 \<longleftrightarrow> unat (b :: u8) < 128"
proof
  assume "unat b < 128"
  then show "b AND 0x80 = 0" using and_push [of b 7 1] by simp
next
  assume z: "b AND 0x80 = 0"
  have "b = take_bit 7 b"
  proof (rule bit_word_eqI)
    fix n assume "n < LENGTH(8)"
    moreover have "\<not> bit b 7" using z bit_and_iff [of b "0x80" 7] by (simp add: bit_simps)
    ultimately show "bit b n = bit (take_bit 7 b) n" by (cases "n = 7") (auto simp: bit_simps)
  qed
  then have "unat b = unat b mod 128" using unsigned_take_bit_eq [of 7 b] by (simp add: take_bit_eq_mod)
  then show "unat b < 128" by (metis mod_less_divisor zero_less_numeral)
qed

section \<open>The code\<close>

text \<open>The first loop of \<open>pb_encode_varint_32\<close>; the first argument is \<open>4 - i\<close>, and \<open>buf\<close> is the part of \<open>buffer\<close>
  that is filled.\<close>

fun enc_low :: "nat \<Rightarrow> u32 \<Rightarrow> u32 \<Rightarrow> u8 \<Rightarrow> bytes \<Rightarrow> u8 \<times> bytes" where
  "enc_low 0 high low byte buf = (byte, buf)"
| "enc_low (Suc k) high low byte buf =
     (if low \<noteq> 0 \<or> high \<noteq> 0 then enc_low k high (drop_bit 7 low) (ucast (low AND 0x7F)) (buf @ [byte OR 0x80])
      else (byte, buf))"

function enc_high :: "u32 \<Rightarrow> u8 \<Rightarrow> bytes \<Rightarrow> u8 \<times> bytes" where
  "enc_high high byte buf =
     (if high \<noteq> 0 then enc_high (drop_bit 7 high) (ucast (high AND 0x7F)) (buf @ [byte OR 0x80])
      else (byte, buf))"
  by auto
termination
proof (relation "measure (\<lambda>(high, _). unat high)", goal_cases)
  case (2 high byte buf)
  then have "0 < unat high" by (simp add: unat_gt_0)
  then show ?case by (simp add: unat_drop)
qed simp

declare enc_high.simps [simp del]

definition pb_encode_varint_32 :: "u32 \<Rightarrow> u32 \<Rightarrow> pb_ostream \<Rightarrow> (unit, pb_ostream) outcome" where
  "pb_encode_varint_32 low high s =
     (let (byte, buf) = enc_low 4 high (drop_bit 7 low) (ucast (low AND 0x7F)) [];
          (byte, buf) = (if high \<noteq> 0 then enc_high (drop_bit 3 high) (ucast (ucast byte OR push_bit 4 (high AND 0x07))) buf
            else (byte, buf));
          buf = buf @ [byte]
      in if length buf \<le> 10 then pb_write buf (of_nat (length buf)) s else Undef)"

definition pb_encode_varint :: "u64 \<Rightarrow> pb_ostream \<Rightarrow> (unit, pb_ostream) outcome" where
  "pb_encode_varint v s =
     (if v \<le> 0x7F then pb_write [ucast v] 1 s
      else pb_encode_varint_32 (ucast v) (ucast (drop_bit 32 v)) s)"

definition pb_encode_svarint :: "u64 \<Rightarrow> pb_ostream \<Rightarrow> (unit, pb_ostream) outcome" where
  "pb_encode_svarint v s =
     (let mask = drop_bit 1 (- 1);
          zigzagged = (if sint v < 0 then NOT (push_bit 1 (v AND mask)) else push_bit 1 v)
      in pb_encode_varint zigzagged s)"

text \<open>The loop of \<open>pb_decode_varint\<close>; \<open>bitpos\<close> has 8 bits. To shift a 64-bit value by 64 or more is undefined.\<close>

function dec_varint_loop :: "u8 \<Rightarrow> u64 \<Rightarrow> pb_istream \<Rightarrow> (u64, pb_istream) outcome" where
  "dec_varint_loop bitpos result s =
     pb_bind (pb_readbyte s) (\<lambda>byte s.
       if bitpos \<ge> 63 \<and> byte AND 0xFE \<noteq> 0 then is_error ''varint overflow'' s
       else if bitpos \<ge> 64 then Undef
       else let result = result OR push_bit (unat bitpos) (ucast (byte AND 0x7F)) in
         if byte AND 0x80 \<noteq> 0 then dec_varint_loop (bitpos + 7) result s else Ok result s)"
  by auto
termination
  by (relation "measure (\<lambda>(_, _, s). unat (is_bytes_left s))") (auto dest: pb_readbyte_less)

declare dec_varint_loop.simps [simp del]

definition pb_decode_varint :: "pb_istream \<Rightarrow> (u64, pb_istream) outcome" where
  "pb_decode_varint s = dec_varint_loop 0 0 s"

text \<open>The loop of \<open>pb_decode_varint32_eof\<close>, and the function; \<open>eof\<close> is whether the stream had ended.\<close>

function dec_varint32_loop :: "u8 \<Rightarrow> u32 \<Rightarrow> pb_istream \<Rightarrow> (u32, pb_istream) outcome" where
  "dec_varint32_loop bitpos result s =
     pb_bind (pb_readbyte s) (\<lambda>byte s.
       pb_bind
         (if bitpos \<ge> 32
          then (let sign_extension = (if bitpos < 63 then 0xFF else 0x01);
                    valid_extension = (byte AND 0x7F = 0 \<or> drop_bit 31 result \<noteq> 0 \<and> byte = sign_extension)
            in if bitpos \<ge> 64 \<or> \<not> valid_extension then is_error ''varint overflow'' s else Ok result s)
          else if bitpos = 28
          then if byte AND 0x70 \<noteq> 0 \<and> byte AND 0x78 \<noteq> 0x78 then is_error ''varint overflow'' s
            else Ok (result OR push_bit (unat bitpos) (ucast (byte AND 0x0F))) s
          else if bitpos \<ge> 32 then Undef
          else Ok (result OR push_bit (unat bitpos) (ucast (byte AND 0x7F))) s)
         (\<lambda>result s. if byte AND 0x80 \<noteq> 0 then dec_varint32_loop (bitpos + 7) result s else Ok result s))"
  by auto
termination
  by (relation "measure (\<lambda>(_, _, s). unat (is_bytes_left s))")
    (auto dest!: pb_readbyte_less simp: is_error_def Let_def split: if_splits)

declare dec_varint32_loop.simps [simp del]

definition pb_decode_varint32_eof :: "pb_istream \<Rightarrow> (u32, pb_istream) outcome \<times> bool" where
  "pb_decode_varint32_eof s = (case pb_readbyte s of
     Err s' \<Rightarrow> (Err s', is_bytes_left s' = 0)
   | Undef \<Rightarrow> (Undef, False)
   | Ok byte s' \<Rightarrow> (if byte AND 0x80 = 0 then Ok (ucast byte) s' else dec_varint32_loop 7 (ucast (byte AND 0x7F)) s', False))"

definition pb_decode_varint32 :: "pb_istream \<Rightarrow> (u32, pb_istream) outcome" where
  "pb_decode_varint32 s = fst (pb_decode_varint32_eof s)"

definition pb_decode_svarint :: "pb_istream \<Rightarrow> (u64, pb_istream) outcome" where
  "pb_decode_svarint s = pb_bind (pb_decode_varint s) (\<lambda>v s.
     if v AND 1 \<noteq> 0 then Ok (NOT (drop_bit 1 v)) s else Ok (drop_bit 1 v) s)"

definition pb_decode_bool :: "pb_istream \<Rightarrow> (bool, pb_istream) outcome" where
  "pb_decode_bool s = pb_bind (pb_decode_varint32 s) (\<lambda>v s. Ok (v \<noteq> 0) s)"

function pb_skip_varint :: "pb_istream \<Rightarrow> (unit, pb_istream) outcome" where
  "pb_skip_varint s = pb_bind (pb_read 1 s) (\<lambda>d s. if hd d AND 0x80 \<noteq> 0 then pb_skip_varint s else Ok () s)"
  by auto
termination
  by (relation "measure (\<lambda>s. unat (is_bytes_left s))") (auto dest: pb_read_less)

declare pb_skip_varint.simps [simp del]

section \<open>The reference: seven bits a byte, the least first\<close>

fun leb :: "nat \<Rightarrow> bytes" where
  "leb n = (if n < 128 then [of_nat n] else (of_nat (n mod 128) OR 0x80) # leb (n div 128))"

declare leb.simps [simp del]

lemma leb_small: "n < 128 \<Longrightarrow> leb n = [of_nat n]"
  by (simp add: leb.simps)

lemma leb_more: "b < 128 \<Longrightarrow> 0 < m \<Longrightarrow> leb (b + 128 * m) = (of_nat b OR 0x80) # leb m"
  by (subst leb.simps) simp

lemma leb_length: "n < 128 ^ k \<Longrightarrow> 0 < k \<Longrightarrow> length (leb n) \<le> k"
proof (induction k arbitrary: n)
  case (Suc k)
  show ?case
  proof (cases "n < 128")
    case False
    have "0 < k" using Suc.prems(1) False by (cases k) auto
    moreover have "n div 128 < 128 ^ k" using Suc.prems(1) by (simp add: less_mult_imp_div_less mult.commute)
    ultimately have "length (leb (n div 128)) \<le> k" using Suc.IH by blast
    then show ?thesis using False by (subst leb.simps) simp
  qed (simp add: leb_small)
qed simp

lemma leb_nonempty: "leb n \<noteq> []"
  by (subst leb.simps) simp


section \<open>The encoder computes the reference\<close>

lemma leb_step: "unat b < 128 \<Longrightarrow> 0 < m \<Longrightarrow> leb (unat b + 128 * m) = (b OR 0x80) # leb m"
  using leb_more [of "unat b" m] by simp

lemma leb_last: "unat b < 128 \<Longrightarrow> leb (unat b) = [b]"
  by (simp add: leb_small)

lemma ucast_low7: "unat (ucast (w AND 0x7F :: u32) :: u8) = unat w mod 128"
proof -
  have "unat (w AND 0x7F :: u32) < 2 ^ LENGTH(8)" by (simp add: low7 less_trans [OF mod_less_divisor])
  then show ?thesis by (simp add: unat_ucast_fit low7)
qed

lemma enc_high_ok: "unat byte < 128 \<Longrightarrow> (case enc_high high byte buf of (b, bs) \<Rightarrow> bs @ [b]) = buf @ leb (unat byte + 128 * unat high)"
proof (induction high byte buf rule: enc_high.induct)
  case (1 high byte buf)
  show ?case
  proof (cases "high = 0")
    case True
    then show ?thesis using 1(2) by (subst enc_high.simps) (simp add: leb_last)
  next
    case False
    have "enc_high high byte buf = enc_high (drop_bit 7 high) (ucast (high AND 0x7F)) (buf @ [byte OR 0x80])"
      using False by (subst enc_high.simps) (simp only: if_True not_False_eq_True)
    moreover have "unat (ucast (high AND 0x7F) :: u8) < 128" unfolding ucast_low7 by simp
    ultimately have "(case enc_high high byte buf of (b, bs) \<Rightarrow> bs @ [b]) = (buf @ [byte OR 0x80]) @ leb (unat high mod 128 + 128 * (unat high div 128))"
      using 1(1) [OF False] unfolding ucast_low7 unat_drop by simp
    also have "\<dots> = buf @ leb (unat byte + 128 * unat high)"
      using leb_step [OF 1(2), of "unat high"] False by (simp add: unat_gt_0)
    finally show ?thesis .
  qed
qed

text \<open>The end of the encoder, after the first loop.\<close>

definition enc_finish :: "u32 \<Rightarrow> u8 \<times> bytes \<Rightarrow> bytes" where
  "enc_finish high r = (let (byte, buf) = r; (byte, buf) = (if high \<noteq> 0 then enc_high (drop_bit 3 high) (ucast (ucast byte OR push_bit 4 (high AND 0x07))) buf
            else (byte, buf)) in buf @ [byte])"

lemma enc_finish_0: "enc_finish 0 (byte, buf) = buf @ [byte]"
  by (simp add: enc_finish_def)

lemma enc_finish_ok:
  assumes "unat byte < 16"
  shows "enc_finish high (byte, buf) = buf @ leb (unat byte + 16 * unat high)"
proof (cases "high = 0")
  case True
  then show ?thesis using assms by (simp add: enc_finish_0 leb_last)
next
  case False
  let ?b = "ucast byte OR push_bit 4 (high AND 0x07) :: u32"
  have h: "unat (high AND 0x07) = unat high mod 8"
    using unat_mask [of high 3] by (simp add: mask_eq_exp_minus_1)
  have "unat (push_bit 4 (high AND 0x07)) = unat (high AND 0x07) * 16"
    using h by (simp add: push_bit_eq_mult unat_word_ariths)
  then have b: "unat ?b = unat byte + 16 * (unat high mod 8)"
    using or_push [of "ucast byte :: u32" 4 "high AND 0x07"] assms h by (simp add: unat_ucast_fit)
  have d: "unat (drop_bit 3 high) = unat high div 8" by (simp add: unat_drop)
  have dm: "unat high mod 8 + 8 * (unat high div 8) = unat high" by simp
  have lt: "unat ?b < 128" unfolding b using assms mod_less_divisor [of 8 "unat high"] by linarith
  then have u: "unat (ucast ?b :: u8) = unat ?b" by (simp add: unat_ucast_fit)
  have "enc_finish high (byte, buf) = (case enc_high (drop_bit 3 high) (ucast ?b) buf of (b, bs) \<Rightarrow> bs @ [b])"
    using False by (simp add: enc_finish_def Let_def)
  also have "\<dots> = buf @ leb (unat (ucast ?b :: u8) + 128 * unat (drop_bit 3 high))"
    using lt u by (intro enc_high_ok) simp
  also have "unat (ucast ?b :: u8) + 128 * unat (drop_bit 3 high) = unat byte + 16 * unat high"
    unfolding u b d using dm by linarith
  finally show ?thesis .
qed


text \<open>What the first loop keeps: \<open>byte\<close> holds seven bits and \<open>low\<close> what is left, four bits after the last turn.\<close>

definition enc_inv :: "nat \<Rightarrow> u8 \<Rightarrow> u32 \<Rightarrow> bool" where
  "enc_inv k byte low \<longleftrightarrow> (if k = 0 then unat byte < 16 \<and> low = 0 else unat byte < 128 \<and> unat low < 2 ^ (7 * k - 3))"

lemma enc_inv_step:
  assumes "enc_inv (Suc k) byte low"
  shows "enc_inv k (ucast (low AND 0x7F)) (drop_bit 7 low)"
proof (cases k)
  case 0
  then have "unat low < 16" using assms by (simp add: enc_inv_def)
  then show ?thesis using 0 by (simp add: enc_inv_def ucast_low7 word_unat_eq_iff unat_drop)
next
  case (Suc m)
  have "7 * Suc k - 3 = (7 * k - 3) + 7" using Suc by simp
  then have "(2::nat) ^ (7 * Suc k - 3) = 2 ^ (7 * k - 3) * 128" by (simp only: power_add) simp
  moreover have "unat low < 2 ^ (7 * Suc k - 3)" using assms unfolding enc_inv_def by simp
  ultimately have "unat low < 2 ^ (7 * k - 3) * 128" by simp
  then have "unat low div 128 < 2 ^ (7 * k - 3)" by (simp add: less_mult_imp_div_less)
  then show ?thesis using Suc by (simp add: enc_inv_def ucast_low7 unat_drop)
qed

lemma enc_low_ok:
  "enc_inv k byte low \<Longrightarrow>
   enc_finish high (enc_low k high low byte buf) = buf @ leb (unat byte + 128 * unat low + 2 ^ (7 * k + 4) * unat high)"
proof (induction k arbitrary: low byte buf)
  case 0
  then show ?case by (simp add: enc_inv_def enc_finish_ok)
next
  case (Suc k)
  have b: "unat byte < 128" using Suc.prems by (simp add: enc_inv_def)
  show ?case
  proof (cases "low \<noteq> 0 \<or> high \<noteq> 0")
    case False
    then show ?thesis using leb_last [OF b] by (simp add: enc_finish_0)
  next
    case True
    let ?v = "unat low + 2 ^ (7 * k + 4) * unat high"
    have v: "unat low mod 128 + 128 * (unat low div 128) = unat low" by simp
    have "enc_finish high (enc_low (Suc k) high low byte buf) = (buf @ [byte OR 0x80]) @ leb ?v"
      using Suc.IH [OF enc_inv_step [OF Suc.prems], of "buf @ [byte OR 0x80]"] True
      by (simp add: ucast_low7 unat_drop v)
    also have "\<dots> = buf @ leb (unat byte + 128 * ?v)"
      using leb_step [OF b, of ?v] True by (simp add: unat_gt_0)
    also have "unat byte + 128 * ?v = unat byte + 128 * unat low + 2 ^ (7 * Suc k + 4) * unat high"
      by (simp add: power_add algebra_simps)
    finally show ?thesis .
  qed
qed

lemma halves: "unat (ucast v :: u32) + 2 ^ 32 * unat (ucast (drop_bit 32 v) :: u32) = unat (v :: u64)"
proof -
  have "unat (drop_bit 32 v) < 2 ^ 32" using unat_lt_size [of v] by (simp add: unat_drop less_mult_imp_div_less)
  then have "unat (ucast (drop_bit 32 v) :: u32) = unat v div 2 ^ 32" by (simp add: unat_ucast_fit unat_drop)
  moreover have "unat (ucast v :: u32) = unat v mod 2 ^ 32"
    by (simp add: unsigned_ucast_eq take_bit_eq_mod)
  ultimately show ?thesis by simp
qed

lemma enc_bytes_ok:
  "enc_finish high (enc_low 4 high (drop_bit 7 low) (ucast (low AND 0x7F)) []) = leb (unat low + 2 ^ 32 * unat high)"
proof -
  have "unat low div 128 < 2 ^ 25" using unat_lt_size [of low] by (simp add: less_mult_imp_div_less)
  then have "enc_inv 4 (ucast (low AND 0x7F)) (drop_bit 7 low)" by (simp add: enc_inv_def ucast_low7 unat_drop)
  from enc_low_ok [OF this, of high "[]"] show ?thesis by (simp add: ucast_low7 unat_drop)
qed

lemma pb_encode_varint_32_is:
  "pb_encode_varint_32 low high s =
    (let b = enc_finish high (enc_low 4 high (drop_bit 7 low) (ucast (low AND 0x7F)) [])
     in if length b \<le> 10 then pb_write b (of_nat (length b)) s else Undef)"
  by (simp only: pb_encode_varint_32_def enc_finish_def Let_def case_prod_beta)

lemma leb_word: "length (leb (unat (v :: u64))) \<le> 10"
proof -
  have "unat v < 128 ^ 10" using unat_lt_size [of v] by simp
  then show ?thesis by (rule leb_length) simp
qed

lemma pb_encode_varint_is: "pb_encode_varint v s = pb_write (leb (unat v)) (of_nat (length (leb (unat v)))) s"
proof (cases "v \<le> 0x7F")
  case True
  then have "unat v < 128" by (simp add: word_le_nat_alt)
  moreover have "ucast v = (of_nat (unat v) :: u8)" by (simp add: word_unat_eq_iff unsigned_ucast_eq unsigned_of_nat)
  ultimately show ?thesis using True by (simp add: pb_encode_varint_def leb_small)
next
  case False
  let ?l = "ucast v :: u32" and ?h = "ucast (drop_bit 32 v) :: u32"
  have "enc_finish ?h (enc_low 4 ?h (drop_bit 7 ?l) (ucast (?l AND 0x7F)) []) = leb (unat v)"
    using enc_bytes_ok [of ?h ?l] halves [of v] by simp
  then have "pb_encode_varint_32 ?l ?h s = pb_write (leb (unat v)) (of_nat (length (leb (unat v)))) s"
    using leb_word [of v] by (simp only: pb_encode_varint_32_is Let_def if_True)
  then show ?thesis using False by (simp add: pb_encode_varint_def)
qed


section \<open>The decoder computes the reference\<close>

text \<open>The number at the head of some bytes and the bytes after it; \<open>None\<close> if it does not end.\<close>

fun leb_dec :: "bytes \<Rightarrow> (nat \<times> bytes) option" where
  "leb_dec [] = None"
| "leb_dec (b # bs) = (if unat b < 128 then Some (unat b, bs)
     else map_option (\<lambda>(n, r). (unat b mod 128 + 128 * n, r)) (leb_dec bs))"

lemma leb_dec_leb: "leb_dec (leb n @ r) = Some (n, r)"
proof (induction n rule: leb.induct)
  case (1 n)
  show ?case
  proof (cases "n < 128")
    case True
    then show ?thesis by (simp add: leb_small unsigned_of_nat take_bit_nat_eq_self)
  next
    case False
    have b: "unat (of_nat (n mod 128) :: u8) = n mod 128" by (simp add: unsigned_of_nat take_bit_nat_eq_self less_trans [OF mod_less_divisor])
    then have "unat (of_nat (n mod 128) OR 0x80 :: u8) = n mod 128 + 128" using byte_or_80 [of "of_nat (n mod 128)"] by simp
    then show ?thesis using False 1 by (subst leb.simps) simp
  qed
qed

lemma leb_dec_shorter: "leb_dec bs = Some (n, r) \<Longrightarrow> length r < length bs"
  by (induction bs arbitrary: n) (fastforce split: if_splits)+

text \<open>What a call that reads leaves: the input \<open>r\<close> after it, or the first error.\<close>

definition at_input :: "bytes \<Rightarrow> pb_istream \<Rightarrow> pb_istream \<Rightarrow> bool" where
  "at_input r s s' \<longleftrightarrow> is_ok s' \<and> input s' = r \<and> is_errmsg s' = is_errmsg s"

definition fails :: "string \<Rightarrow> pb_istream \<Rightarrow> ('a, pb_istream) outcome \<Rightarrow> bool" where
  "fails msg s res \<longleftrightarrow> (\<exists>s'. res = Err s' \<and> is_errmsg s' = (if is_errmsg s \<noteq> None then is_errmsg s else Some msg))"

lemma fails_error: "is_errmsg s' = is_errmsg s \<Longrightarrow> fails msg s (is_error msg s')"
  by (simp add: fails_def is_error_def)

lemma fails_mono: "fails msg s' res \<Longrightarrow> is_errmsg s' = is_errmsg s \<Longrightarrow> fails msg s res"
  by (auto simp: fails_def)

lemma at_input_mono: "at_input r s' s'' \<Longrightarrow> at_input q s s' \<Longrightarrow> at_input r s s''"
  by (simp add: at_input_def)

lemma at_input_byte:
  assumes "is_ok s" "input s = b # bs"
  obtains s' where "pb_readbyte s = Ok b s'" "at_input bs s s'"
  using pb_readbyte_ok [OF assms] by (auto simp: at_input_def)

lemma unat_push_fit: "unat w * 2 ^ k < 2 ^ LENGTH('a) \<Longrightarrow> unat (push_bit k w :: 'a::len word) = unat w * 2 ^ k"
  unfolding unsigned_push_bit_eq by (simp add: push_bit_eq_mult take_bit_nat_eq_self)

text \<open>A turn of the loop adds seven bits.\<close>

lemma dec_turn:
  assumes "unat (res :: 'a::len word) < 2 ^ k" "7 < LENGTH('a)" "unat b mod 128 * 2 ^ k < 2 ^ LENGTH('a)"
  shows "unat (res OR push_bit k (ucast (b AND 0x7F :: u8))) = unat res + unat b mod 128 * 2 ^ k"
proof -
  have "unat (b AND 0x7F) < 2 ^ LENGTH('a)"
    using power_strict_increasing [OF assms(2), of "2::nat"] mod_less_divisor [of 128 "unat b"] by (simp add: low7)
  then have u: "unat (ucast (b AND 0x7F) :: 'a word) = unat b mod 128" by (simp add: unat_ucast_fit low7)
  then have "unat (push_bit k (ucast (b AND 0x7F) :: 'a word)) = unat b mod 128 * 2 ^ k"
    using assms(3) unat_push_fit [of "ucast (b AND 0x7F) :: 'a word" k] by simp
  then show ?thesis using or_push [OF assms(1), of "ucast (b AND 0x7F)"] by simp
qed

lemma dec_turn_less:
  assumes "unat res < 2 ^ k" shows "unat res + unat (b :: u8) mod 128 * 2 ^ k < 2 ^ (k + 7)"
proof -
  have "unat b mod 128 \<le> 127" using mod_less_divisor [of 128 "unat b"] by linarith
  then have "unat b mod 128 * 2 ^ k \<le> 127 * 2 ^ k" by (rule mult_right_mono) simp
  moreover have "(2::nat) ^ (k + 7) = 128 * 2 ^ k" by (simp add: power_add)
  ultimately show ?thesis using assms by linarith
qed

text \<open>What the loop of \<open>pb_decode_varint\<close> computes from turn \<open>i\<close> on, with \<open>acc\<close> read before.\<close>

definition dec_spec :: "nat \<Rightarrow> nat \<Rightarrow> pb_istream \<Rightarrow> (u64, pb_istream) outcome \<Rightarrow> bool" where
  "dec_spec i acc s res \<longleftrightarrow> (case leb_dec (input s) of
     None \<Rightarrow> fails (if length (input s) < 10 - i then ''end-of-stream'' else ''varint overflow'') s res
   | Some (n, r) \<Rightarrow> if length (input s) - length r \<le> 10 - i \<and> acc + n * 2 ^ (7 * i) < 2 ^ 64
       then \<exists>v s'. res = Ok v s' \<and> unat v = acc + n * 2 ^ (7 * i) \<and> at_input r s s'
       else fails ''varint overflow'' s res)"

lemma dec_spec_step:
  assumes "dec_spec (Suc i) (acc + unat b mod 128 * 2 ^ (7 * i)) s' res" "at_input bs s s'"
    and "input s = b # bs" "\<not> unat b < 128" "i < 10"
  shows "dec_spec i acc s res"
proof (cases "leb_dec bs")
  case None
  then show ?thesis using assms by (auto simp: dec_spec_def at_input_def less_diff_conv intro: fails_mono)
next
  case (Some p)
  obtain n r where p: "p = (n, r)" by (cases p)
  have l: "length r < length bs" using leb_dec_shorter Some p by simp
  have v: "acc + unat b mod 128 * 2 ^ (7 * i) + n * 2 ^ (7 * Suc i) = acc + (unat b mod 128 + 128 * n) * 2 ^ (7 * i)"
    by (simp add: power_add algebra_simps)
  have le: "length bs - length r \<le> 10 - Suc i \<longleftrightarrow> length (b # bs) - length r \<le> 10 - i" using l assms(5) by auto
  have i: "input s' = bs" "is_errmsg s' = is_errmsg s" using assms(2) by (simp_all add: at_input_def)
  have d: "leb_dec (b # bs) = Some (unat b mod 128 + 128 * n, r)" using Some p assms(4) by simp
  show ?thesis
  proof (cases "length (b # bs) - length r \<le> 10 - i \<and> acc + (unat b mod 128 + 128 * n) * 2 ^ (7 * i) < 2 ^ 64")
    case True
    then obtain v s'' where "res = Ok v s''" "unat v = acc + (unat b mod 128 + 128 * n) * 2 ^ (7 * i)" "at_input r s' s''"
      using assms(1) unfolding dec_spec_def i Some p option.case prod.case v le by auto
    then show ?thesis using True at_input_mono [OF _ assms(2)]
      unfolding dec_spec_def assms(3) d option.case prod.case by auto
  next
    case False
    then have "fails ''varint overflow'' s' res"
      using assms(1) unfolding dec_spec_def i Some p option.case prod.case v le by (simp only: if_False)
    then show ?thesis using False fails_mono i(2) unfolding dec_spec_def assms(3) d option.case prod.case
      by (simp only: if_False)
  qed
qed


lemma and_high: "(w :: 'a::len word) AND NOT (mask k) = push_bit k (drop_bit k w)"
  by (rule bit_word_eqI) (auto simp: bit_simps)

lemma and_high_0: "(w :: 'a::len word) AND NOT (mask k) = 0 \<longleftrightarrow> unat w < 2 ^ k"
proof
  assume "unat w < 2 ^ k"
  then have "unat (drop_bit k w) = 0" by (simp add: unat_drop)
  then have "drop_bit k w = 0" by (simp add: unat_eq_zero)
  then show "w AND NOT (mask k) = 0" by (simp add: and_high)
next
  assume z: "w AND NOT (mask k) = 0"
  have "take_bit k w = w" using z unfolding and_high by (metis add_0 bits_ident)
  then have "unat w = unat w mod 2 ^ k" using unsigned_take_bit_eq [of k w] by (simp add: take_bit_eq_mod)
  then show "unat w < 2 ^ k" by (metis mod_less_divisor zero_less_numeral zero_less_power)
qed

lemma byte_fe: "b AND 0xFE \<noteq> 0 \<longleftrightarrow> \<not> unat (b :: u8) < 2"
proof -
  have fe: "(0xFE :: u8) = NOT (mask 1)" by simp
  show ?thesis unfolding fe using and_high_0 [of b 1] by simp
qed

lemma bitpos: "i \<le> 10 \<Longrightarrow> unat (of_nat (7 * i) :: u8) = 7 * i"
  unfolding unsigned_of_nat by (simp add: take_bit_nat_eq_self del: of_nat_mult)

lemma dec_varint_loop_step:
  assumes "pb_readbyte s = Ok b s'" "i < 10"
  shows "dec_varint_loop (of_nat (7 * i)) res s =
    (if i = 9 \<and> \<not> unat b < 2 then is_error ''varint overflow'' s'
     else let res' = res OR push_bit (7 * i) (ucast (b AND 0x7F)) in
       if unat b < 128 then Ok res' s' else dec_varint_loop (of_nat (7 * Suc i)) res' s')"
proof -
  define p :: u8 where "p = of_nat (7 * i)"
  have u: "unat p = 7 * i" unfolding p_def using assms(2) by (intro bitpos) simp
  have "\<not> p \<ge> 64" "p \<ge> 63 \<longleftrightarrow> i = 9" using u assms(2) by (auto simp: word_le_nat_alt)
  moreover have n: "of_nat (7 * Suc i) = p + 7" by (simp add: p_def)
  ultimately show ?thesis
    unfolding n p_def [symmetric] using assms(1) u by (subst dec_varint_loop.simps) (simp add: byte_fe byte_80 Let_def)
qed

lemma dec_varint_loop_spec:
  "is_ok s \<Longrightarrow> i < 10 \<Longrightarrow> unat res < 2 ^ (7 * i) \<Longrightarrow> dec_spec i (unat res) s (dec_varint_loop (of_nat (7 * i)) res s)"
proof (induction "input s" arbitrary: s i res)
  case Nil
  then have "pb_readbyte s = is_error ''end-of-stream'' s" by (intro pb_readbyte_end) simp_all
  then have "dec_varint_loop (of_nat (7 * i)) res s = is_error ''end-of-stream'' s"
    by (subst dec_varint_loop.simps) (simp add: is_error_def)
  moreover have "fails ''end-of-stream'' s (is_error ''end-of-stream'' s)" by (simp add: fails_error)
  ultimately show ?case using Nil(1,3) by (simp add: dec_spec_def flip: Nil(1))
next
  case (Cons b bs)
  obtain s' where s': "pb_readbyte s = Ok b s'" "at_input bs s s'"
    using at_input_byte Cons.prems(1) Cons.hyps(2) [symmetric] by blast
  note step = dec_varint_loop_step [OF s'(1) Cons.prems(2), of res]
  have i: "input s' = bs" "is_errmsg s' = is_errmsg s" "is_ok s'" using s'(2) by (simp_all add: at_input_def)
  let ?res = "res OR push_bit (7 * i) (ucast (b AND 0x7F)) :: u64"
  show ?case
  proof (cases "i = 9 \<and> \<not> unat b < 2")
    case True
    then have "fails ''varint overflow'' s (dec_varint_loop (of_nat (7 * i)) res s)"
      using i(2) unfolding step by (simp add: fails_error)
    moreover have "(2::nat) ^ 64 \<le> unat res + unat b * 2 ^ 63" using True by simp
    ultimately show ?thesis using True unfolding dec_spec_def Cons.hyps(2) [symmetric]
      by (auto simp: not_less dest: leb_dec_shorter split: option.split)
  next
    case False
    have fit: "unat b mod 128 * 2 ^ (7 * i) < 2 ^ 64"
    proof (cases "i = 9")
      case False
      then have "(2::nat) ^ (7 * i + 7) \<le> 2 ^ 64" using Cons.prems(2) by (intro power_increasing) simp_all
      then show ?thesis using dec_turn_less [of "0 :: u8" "7 * i" b] by simp
    qed (use False in simp)
    then have turn: "unat ?res = unat res + unat b mod 128 * 2 ^ (7 * i)" using Cons.prems(3) by (intro dec_turn) simp_all
    show ?thesis
    proof (cases "unat b < 128")
      case True
      have "unat ?res < 2 ^ 64" using unat_lt_size [of ?res] by simp
      then show ?thesis using True False turn s'(2) Cons.prems(2) unfolding step dec_spec_def Cons.hyps(2) [symmetric]
        by (auto simp: Let_def)
    next
      case more: False
      then have "i < 9" using False Cons.prems(2) by auto
      then have "dec_spec (Suc i) (unat ?res) s' (dec_varint_loop (of_nat (7 * Suc i)) ?res s')"
        using Cons.prems(3) i dec_turn_less [OF Cons.prems(3), of b] unfolding turn [symmetric]
        by (intro Cons.hyps(1)) (simp_all add: add.commute)
      then show ?thesis using more False dec_spec_step [OF _ s'(2) Cons.hyps(2) [symmetric] more Cons.prems(2)]
        unfolding turn step by (simp only: Let_def if_False)
    qed
  qed
qed


lemma pb_decode_varint_spec: "is_ok s \<Longrightarrow> dec_spec 0 0 s (pb_decode_varint s)"
  using dec_varint_loop_spec [of s 0 0] by (simp add: pb_decode_varint_def)

lemma pb_decode_varint_ok:
  assumes "is_ok s" "leb_dec (input s) = Some (n, r)" "length (input s) - length r \<le> 10" "n < 2 ^ 64"
  obtains s' where "pb_decode_varint s = Ok (of_nat n) s'" "at_input r s s'"
proof -
  obtain v s' where "pb_decode_varint s = Ok v s'" "unat v = n" "at_input r s s'"
    using pb_decode_varint_spec [OF assms(1)] assms(2,3,4) by (auto simp: dec_spec_def)
  then show thesis using that by auto
qed

lemma pb_decode_varint_leb:
  assumes "is_ok s" "input s = leb (unat v) @ r"
  obtains s' where "pb_decode_varint s = Ok v s'" "at_input r s s'"
proof -
  have "leb_dec (input s) = Some (unat v, r)" using assms(2) by (simp add: leb_dec_leb)
  then show thesis using pb_decode_varint_ok [OF assms(1)] that assms(2) leb_word [of v] unat_lt_size [of v] by fastforce
qed

section \<open>The 32-bit decoder\<close>

lemma pb_decode_varint32_is: "pb_decode_varint32 s = pb_bind (pb_readbyte s) (\<lambda>byte s.
    if byte AND 0x80 = 0 then Ok (ucast byte) s else dec_varint32_loop 7 (ucast (byte AND 0x7F)) s)"
  by (simp add: pb_decode_varint32_def pb_decode_varint32_eof_def pb_bind_def split: outcome.split)

text \<open>A turn of the loop: what becomes of \<open>res\<close> when \<open>byte\<close> is read at turn \<open>i\<close>, if it is accepted.\<close>

definition turn32 :: "nat \<Rightarrow> u32 \<Rightarrow> u8 \<Rightarrow> u32 option" where
  "turn32 i res b =
     (if i < 4 then Some (res OR push_bit (7 * i) (ucast (b AND 0x7F)))
      else if i = 4 then if unat b mod 128 < 16 \<or> 120 \<le> unat b mod 128 then Some (res OR push_bit 28 (ucast (b AND 0x0F))) else None
      else if i < 10 \<and> (unat b mod 128 = 0 \<or> 2 ^ 31 \<le> unat res \<and> b = (if i < 9 then 0xFF else 0x01)) then Some res
      else None)"

lemma masks: "(0x0F :: 'a::len word) = mask 4" "(0x07 :: 'a word) = mask 3" "(0x7F :: 'a word) = mask 7"
  by (simp_all add: mask_eq_exp_minus_1)

lemma byte_70: "b AND 0x70 = 0 \<longleftrightarrow> unat (b :: u8) mod 128 < 16"
proof -
  have m: "(0x70 :: u8) = mask 7 AND NOT (mask 4)" by (simp add: mask_eq_exp_minus_1)
  have "unat (b AND mask 7) = unat b mod 128" using unat_mask [of b 7] by simp
  then show ?thesis unfolding m using and_high_0 [of "b AND mask 7" 4] by (simp only: and.assoc) simp
qed

lemma div_8_is: "(x::nat) < 128 \<Longrightarrow> x div 8 * 8 = 120 \<longleftrightarrow> 120 \<le> x"
  by presburger

lemma byte_78: "b AND 0x78 = 0x78 \<longleftrightarrow> 120 \<le> unat (b :: u8) mod 128"
proof -
  have m: "(0x78 :: u8) = mask 7 AND NOT (mask 3)" "(0x78 :: u8) = push_bit 3 15" by (simp_all add: mask_eq_exp_minus_1)
  have u7: "unat (drop_bit 3 (b AND mask 7)) = unat b mod 128 div 8" unfolding unat_drop using unat_mask [of b 7] by simp
  have "b AND 0x78 = push_bit 3 (drop_bit 3 (b AND mask 7))" unfolding m(1) using and_high [of "b AND mask 7" 3] by (simp only: and.assoc)
  then have u: "unat (b AND 0x78) = unat b mod 128 div 8 * 8"
    using unat_push_fit [of "drop_bit 3 (b AND mask 7)" 3] unfolding u7 by simp
  have "unat b mod 128 div 8 * 8 = 120 \<longleftrightarrow> 120 \<le> unat b mod 128" by (rule div_8_is) simp
  then show ?thesis unfolding word_unat_eq_iff u by simp
qed


lemma top_bit: "drop_bit 31 (res :: u32) \<noteq> 0 \<longleftrightarrow> 2 ^ 31 \<le> unat res"
  unfolding word_unat_eq_iff unat_drop by (simp add: div_eq_0_iff not_less)

lemma dec_varint32_loop_step:
  assumes "pb_readbyte s = Ok b s'" "i \<le> 10"
  shows "dec_varint32_loop (of_nat (7 * i)) res s = (case turn32 i res b of
      None \<Rightarrow> is_error ''varint overflow'' s'
    | Some res' \<Rightarrow> if unat b < 128 then Ok res' s' else dec_varint32_loop (of_nat (7 * Suc i)) res' s')"
proof -
  define p :: u8 where "p = of_nat (7 * i)"
  have u: "unat p = 7 * i" unfolding p_def using assms(2) by (rule bitpos)
  have n: "of_nat (7 * Suc i) = p + 7" by (simp add: p_def)
  have p: "p \<ge> 32 \<longleftrightarrow> 5 \<le> i" "p = 28 \<longleftrightarrow> i = 4" "p < 63 \<longleftrightarrow> i < 9" "p \<ge> 64 \<longleftrightarrow> i = 10"
    using u assms(2) by (auto simp: word_le_nat_alt word_less_nat_alt word_unat_eq_iff)
  have b0: "b AND 0x7F = 0 \<longleftrightarrow> unat b mod 128 = 0" unfolding word_unat_eq_iff low7 by simp
  consider "i < 4" | "i = 4" | "5 \<le> i" by linarith
  then show ?thesis
  proof cases
    case 1
    then show ?thesis unfolding n p_def [symmetric] using assms(1)
      by (subst dec_varint32_loop.simps) (simp add: p u turn32_def byte_80)
  next
    case 2
    then show ?thesis unfolding n p_def [symmetric] using assms(1)
      by (subst dec_varint32_loop.simps) (simp add: p u turn32_def byte_80 byte_70 byte_78 is_error_def)
  next
    case 3
    then show ?thesis unfolding n p_def [symmetric] using assms
      by (subst dec_varint32_loop.simps) (simp add: p u turn32_def byte_80 Let_def b0 top_bit is_error_def, blast)
  qed
qed


text \<open>What is accepted is the low half of the number the reference reads.\<close>

lemma ucast_payload: "(ucast (b AND 0x7F :: u8) :: u32) = of_nat (unat b mod 128)"
proof -
  have "unat (ucast (b AND 0x7F :: u8) :: u32) = unat b mod 128"
    using mod_less_divisor [of 128 "unat b"] by (subst unat_ucast_fit) (simp_all add: low7)
  then show ?thesis by (metis of_nat_unat ucast_id)
qed

lemma or_is_add: "unat (res :: 'a::len word) < 2 ^ k \<Longrightarrow> res OR push_bit k w = res + w * 2 ^ k"
  using and_push [of res k w] by (simp add: disjunctive_add_eq_or push_bit_eq_mult flip: disjunctive_add_eq_or)

lemma nibble: "push_bit 28 (ucast (b AND 0x0F :: u8) :: u32) = push_bit 28 (ucast (b AND 0x7F))"
  by (rule bit_word_eqI) (auto simp: masks bit_simps)

lemma turn32_value:
  assumes "turn32 i res b = Some res'" "unat res < 2 ^ min 32 (7 * i)"
  shows "res' = res + of_nat (unat b mod 128 * 2 ^ (7 * i)) \<and> unat res' < 2 ^ min 32 (7 * Suc i)"
proof -
  consider "i < 4" | "i = 4" | "5 \<le> i" by linarith
  then show ?thesis
  proof cases
    case 1
    have m: "min 32 (7 * i) = 7 * i" "min 32 (7 * Suc i) = 7 * i + 7" using 1 by auto
    have l: "unat res < 2 ^ (7 * i)" using assms(2) m by simp
    have r: "res' = res OR push_bit (7 * i) (ucast (b AND 0x7F))" using assms(1) 1 by (simp add: turn32_def)
    have fit: "unat b mod 128 * 2 ^ (7 * i) < 2 ^ LENGTH(32)"
      using dec_turn_less [of "0 :: u8" "7 * i" b] 1 power_increasing [of "7 * i + 7" 32 "2::nat"] by simp
    have "unat res' < 2 ^ (7 * i + 7)" unfolding r using l fit dec_turn_less [OF l, of b] by (subst dec_turn) simp_all
    then show ?thesis unfolding m r or_is_add [OF l] ucast_payload by simp
  next
    case 2
    have l: "unat res < 2 ^ 28" using assms(2) 2 by simp
    have "res' = res OR push_bit 28 (ucast (b AND 0x7F))" using assms(1) 2 by (simp add: turn32_def nibble split: if_splits)
    then show ?thesis using 2 unat_lt_size [of res'] unfolding or_is_add [OF l] ucast_payload by simp
  next
    case 3
    have "(2::u32) ^ (7 * i) = 2 ^ 32 * 2 ^ (7 * i - 32)" unfolding power_add [symmetric] using 3 by simp
    moreover have "(2::u32) ^ 32 = 0" by simp
    ultimately have "(2::u32) ^ (7 * i) = 0" by (simp only: mult_zero_left)
    then have "(of_nat (unat b mod 128 * 2 ^ (7 * i)) :: u32) = 0"
      by (simp only: of_nat_mult of_nat_power of_nat_numeral mult_zero_right)
    then show ?thesis using assms 3 by (simp only: turn32_def) (simp split: if_splits)
  qed
qed


lemma turn32_last: "turn32 i res b = Some res' \<Longrightarrow> i < 10"
  by (auto simp: turn32_def split: if_splits)

lemma dec_varint32_loop_sound:
  "is_ok s \<Longrightarrow> i \<le> 10 \<Longrightarrow> unat res < 2 ^ min 32 (7 * i) \<Longrightarrow> dec_varint32_loop (of_nat (7 * i)) res s = Ok v s' \<Longrightarrow>
   \<exists>n. leb_dec (input s) = Some (n, input s') \<and> v = res + of_nat (n * 2 ^ (7 * i)) \<and> at_input (input s') s s'"
proof (induction "input s" arbitrary: s i res)
  case Nil
  then have "pb_readbyte s = is_error ''end-of-stream'' s" by (intro pb_readbyte_end) simp_all
  then show ?case using Nil.prems(4) by (subst (asm) dec_varint32_loop.simps) (simp add: is_error_def)
next
  case (Cons b bs)
  obtain t where t: "pb_readbyte s = Ok b t" "at_input bs s t"
    using at_input_byte Cons.prems(1) Cons.hyps(2) [symmetric] by blast
  obtain res' where res': "turn32 i res b = Some res'"
    using Cons.prems(4) unfolding dec_varint32_loop_step [OF t(1) Cons.prems(2)] by (cases "turn32 i res b") (auto simp: is_error_def)
  note val = turn32_value [OF res' Cons.prems(3)]
  have run: "(if unat b < 128 then Ok res' t else dec_varint32_loop (of_nat (7 * Suc i)) res' t) = Ok v s'"
    using Cons.prems(4) unfolding dec_varint32_loop_step [OF t(1) Cons.prems(2)] res' by simp
  show ?case
  proof (cases "unat b < 128")
    case True
    then have "s' = t" "v = res'" using run by simp_all
    then show ?thesis using True t(2) val unfolding Cons.hyps(2) [symmetric] by (simp add: at_input_def)
  next
    case False
    have i: "input t = bs" "is_ok t" using t(2) by (simp_all add: at_input_def)
    obtain n where n: "leb_dec bs = Some (n, input s')" "v = res' + of_nat (n * 2 ^ (7 * Suc i))" "at_input (input s') t s'"
      using Cons.hyps(1) [of t "Suc i" res'] run False i val turn32_last [OF res'] by auto
    have "(unat b mod 128 + 128 * n) * 2 ^ (7 * i) = unat b mod 128 * 2 ^ (7 * i) + n * 2 ^ (7 * Suc i)"
      by (simp add: power_add algebra_simps)
    then have "v = res + of_nat ((unat b mod 128 + 128 * n) * 2 ^ (7 * i))" using n(2) val by (simp only: of_nat_add add.assoc)
    then show ?thesis using False n(1) at_input_mono [OF n(3) t(2)] unfolding Cons.hyps(2) [symmetric] by auto
  qed
qed

lemma pb_decode_varint32_sound:
  assumes "is_ok s" "pb_decode_varint32 s = Ok v s'"
  shows "\<exists>n. leb_dec (input s) = Some (n, input s') \<and> v = of_nat n \<and> at_input (input s') s s'"
proof (cases "input s")
  case Nil
  then show ?thesis using assms pb_readbyte_end [of s] by (simp add: pb_decode_varint32_is is_error_def)
next
  case (Cons b bs)
  obtain t where t: "pb_readbyte s = Ok b t" "at_input bs s t" using at_input_byte assms(1) Cons by blast
  have u: "unat (ucast b :: u32) = unat b" using unat_lt_size [of b] by (simp add: unat_ucast_fit)
  show ?thesis
  proof (cases "unat b < 128")
    case True
    then have "v = ucast b" "s' = t" using assms(2) t(1) by (simp_all add: pb_decode_varint32_is byte_80)
    then show ?thesis using True t(2) Cons by (simp add: at_input_def)
  next
    case False
    have i: "input t = bs" "is_ok t" using t(2) by (simp_all add: at_input_def)
    have l: "unat (ucast (b AND 0x7F) :: u32) < 2 ^ min 32 (7 * 1)"
      using mod_less_divisor [of 128 "unat b"] by (subst unat_ucast_fit) (simp_all add: low7)
    have "dec_varint32_loop (of_nat (7 * 1)) (ucast (b AND 0x7F)) t = Ok v s'"
      using assms(2) t(1) False by (simp add: pb_decode_varint32_is byte_80)
    then obtain n where n: "leb_dec bs = Some (n, input s')" "v = ucast (b AND 0x7F) + of_nat (n * 2 ^ (7 * 1))" "at_input (input s') t s'"
      using dec_varint32_loop_sound [OF i(2) _ l] i(1) by auto
    then have "v = of_nat (unat b mod 128 + 128 * n)" by (simp add: ucast_payload)
    then show ?thesis using False n(1) at_input_mono [OF n(3) t(2)] Cons by auto
  qed
qed


text \<open>It accepts the numbers below \<open>2 ^ 32\<close> and the negative ones of 32 bits, extended to 64, in ten bytes or less.\<close>

lemma seven_ones:
  assumes "(m :: nat) + 128 * n = 128 * p - 1" "0 < p" "m < 128"
  shows "m = 127 \<and> n = p - 1"
proof -
  obtain q where q: "p = Suc q" using assms(2) by (cases p) auto
  then have e: "m + 128 * n = 128 * q + 127" using assms(1) by simp
  then have "n = q" using assms(3) by linarith
  then show ?thesis using e q by simp
qed

lemma top_seven: "(x :: nat) < 256 \<Longrightarrow> \<not> x < 128 \<Longrightarrow> x mod 128 = 127 \<Longrightarrow> x = 255"
  by (simp add: le_mod_geq not_less)

lemma ext_accepted:
  "is_ok s \<Longrightarrow> 5 \<le> i \<Longrightarrow> leb_dec (input s) = Some (n, r) \<Longrightarrow> length (input s) - length r \<le> 10 - i \<Longrightarrow>
   n = 0 \<or> 2 ^ 31 \<le> unat res \<and> i < 10 \<and> n = 2 ^ (64 - 7 * i) - 1 \<Longrightarrow>
   \<exists>v s'. dec_varint32_loop (of_nat (7 * i)) res s = Ok v s'"
proof (induction "input s" arbitrary: s i n)
  case (Cons b bs)
  obtain t where t: "pb_readbyte s = Ok b t" "at_input bs s t"
    using at_input_byte Cons.prems(1) Cons.hyps(2) [symmetric] by blast
  have i: "input t = bs" "is_ok t" using t(2) by (simp_all add: at_input_def)
  have dec: "leb_dec (b # bs) = Some (n, r)" using Cons.prems(3) Cons.hyps(2) by simp
  have len: "length (b # bs) - length r \<le> 10 - i" using Cons.prems(4) Cons.hyps(2) by simp
  have lr: "length r < length (b # bs)" using leb_dec_shorter [OF dec] .
  then have i10: "i < 10" using len by linarith
  note step = dec_varint32_loop_step [OF t(1) less_imp_le [OF i10], of res]
  show ?case
  proof (cases "unat b < 128")
    case True
    then have n: "n = unat b" using dec by simp
    have "turn32 i res b = Some res"
    proof (cases "n = 0")
      case False
      then have n1: "unat b = 2 ^ (64 - 7 * i) - 1" "2 ^ 31 \<le> unat res" using Cons.prems(5) n by simp_all
      have "i = 9"
      proof (rule ccontr)
        assume "i \<noteq> 9"
        then have "(2::nat) ^ 8 \<le> 2 ^ (64 - 7 * i)" using i10 by (intro power_increasing) auto
        then show False using n1 True by simp
      qed
      then have "unat b = 1" using n1 by simp
      then have "b = 1" by (simp add: word_unat_eq_iff)
      then show ?thesis using \<open>i = 9\<close> n1 by (simp add: turn32_def)
    qed (use n i10 Cons.prems(2) in \<open>simp add: turn32_def\<close>)
    then show ?thesis unfolding step using True by simp
  next
    case False
    obtain n' where n': "leb_dec bs = Some (n', r)" "n = unat b mod 128 + 128 * n'"
      using dec False by (auto simp: map_option_case split: option.splits)
    have lr': "length r < length bs" using leb_dec_shorter [OF n'(1)] .
    then have i9: "i < 9" using len by simp
    have next_ok: "turn32 i res b = Some res \<and> (n' = 0 \<or> 2 ^ 31 \<le> unat res \<and> Suc i < 10 \<and> n' = 2 ^ (64 - 7 * Suc i) - 1)"
    proof (cases "n = 0")
      case True
      then have "unat b mod 128 = 0" "n' = 0" using n'(2) by simp_all
      then show ?thesis using i10 Cons.prems(2) by (simp add: turn32_def)
    next
      case nz: False
      have e: "64 - 7 * i = (64 - 7 * Suc i) + 7" using i9 by simp
      have q: "0 < (2::nat) ^ (64 - 7 * Suc i)" by simp
      have "n = 128 * 2 ^ (64 - 7 * Suc i) - 1" using nz Cons.prems(5) unfolding e power_add by (simp add: mult.commute)
      then have "unat b mod 128 = 127 \<and> n' = 2 ^ (64 - 7 * Suc i) - 1"
        using n'(2) q by (intro seven_ones) simp_all
      moreover have "b = 0xFF" using calculation unat_lt_size [of b] False top_seven [of "unat b"] by (simp add: word_unat_eq_iff)
      ultimately show ?thesis using nz Cons.prems(2,5) i9 by (simp add: turn32_def)
    qed
    have "\<exists>v s'. dec_varint32_loop (of_nat (7 * Suc i)) res t = Ok v s'"
      using next_ok len lr' Cons.prems(2) i n'(1) by (intro Cons.hyps(1) [of t "Suc i" n']) auto
    then show ?thesis unfolding step using next_ok False by simp
  qed
qed simp


definition in_32 :: "nat \<Rightarrow> bool" where
  "in_32 n \<longleftrightarrow> n < 2 ^ 32 \<or> 2 ^ 64 - 2 ^ 31 \<le> n \<and> n < 2 ^ 64"

lemma fifth_byte:
  fixes x n m :: nat
  assumes "x < 2 ^ 28" "in_32 (x + (m + 128 * n) * 2 ^ 28)" "m < 128"
  shows "m < 16 \<and> n = 0 \<or> 120 \<le> m \<and> n = 2 ^ 29 - 1"
proof -
  define k where "k = m + 128 * n"
  consider "k < 16" | "68719476728 \<le> k" "k < 68719476736"
    using assms(1,2) unfolding in_32_def k_def [symmetric] by (simp, linarith)
  then show ?thesis
  proof cases
    case 1
    then show ?thesis by (simp add: k_def)
  next
    case 2
    then have "n = 536870911" using assms(3) unfolding k_def by linarith
    then show ?thesis using 2 by (simp add: k_def)
  qed
qed

lemma top_nibble:
  assumes "unat (res :: u32) < 2 ^ 28" "120 \<le> m" "m < 128"
  shows "2 ^ 31 \<le> unat (res + of_nat (m * 2 ^ 28))"
proof -
  obtain k where k: "m = 112 + k" "8 \<le> k" "k < 16" by (rule that [of "m - 112"]) (use assms(2,3) in simp_all)
  have "unat (res + of_nat (m * 2 ^ 28)) = (unat res + m * 2 ^ 28) mod 2 ^ 32"
    unfolding unat_word_ariths unsigned_of_nat by (simp add: take_bit_eq_mod mod_simps del: of_nat_mult)
  also have "unat res + m * 2 ^ 28 = (unat res + k * 2 ^ 28) + 7 * 2 ^ 32" by (simp add: k(1))
  also have "\<dots> mod 2 ^ 32 = (unat res + k * 2 ^ 28) mod 2 ^ 32" by (rule mod_mult_self1)
  also have "\<dots> = unat res + k * 2 ^ 28" using assms(1) k(3) by (intro mod_less) simp
  finally show ?thesis using k(2) by simp
qed

lemma dec_varint32_loop_accepted:
  "is_ok s \<Longrightarrow> i \<le> 4 \<Longrightarrow> unat res < 2 ^ (7 * i) \<Longrightarrow> leb_dec (input s) = Some (n, r) \<Longrightarrow>
   length (input s) - length r \<le> 10 - i \<Longrightarrow> in_32 (unat res + n * 2 ^ (7 * i)) \<Longrightarrow>
   \<exists>v s'. dec_varint32_loop (of_nat (7 * i)) res s = Ok v s'"
proof (induction "input s" arbitrary: s i n res)
  case (Cons b bs)
  obtain t where t: "pb_readbyte s = Ok b t" "at_input bs s t"
    using at_input_byte Cons.prems(1) Cons.hyps(2) [symmetric] by blast
  have i: "input t = bs" "is_ok t" using t(2) by (simp_all add: at_input_def)
  have dec: "leb_dec (b # bs) = Some (n, r)" using Cons.prems(4) Cons.hyps(2) by simp
  have len: "length (b # bs) - length r \<le> 10 - i" using Cons.prems(5) Cons.hyps(2) by simp
  have i10: "i \<le> 10" using Cons.prems(2) by simp
  note step = dec_varint32_loop_step [OF t(1) i10, of res]
  define n' where "n' = (if unat b < 128 then 0 else fst (the (leb_dec bs)))"
  have n: "n = unat b mod 128 + 128 * n'"
    using dec by (auto simp: n'_def map_option_case split: if_splits option.splits)
  have more: "leb_dec bs = Some (n', r)" if "\<not> unat b < 128"
    using dec that by (auto simp: n'_def map_option_case split: option.splits)
  have len': "length bs - length r \<le> 10 - Suc i" if "\<not> unat b < 128"
    using len leb_dec_shorter [OF more [OF that]] by simp
  have m: "unat b mod 128 < 128" by simp
  show ?case
  proof (cases "i = 4")
    case True
    have x: "unat res < 2 ^ 28" using Cons.prems(3) True by simp
    have fb: "unat b mod 128 < 16 \<and> n' = 0 \<or> 120 \<le> unat b mod 128 \<and> n' = 2 ^ 29 - 1"
      using fifth_byte [OF x _ m] Cons.prems(6) True unfolding n by simp
    obtain res' where turn: "turn32 4 res b = Some res'" using fb by (auto simp: turn32_def)
    have "res' = res + of_nat (unat b mod 128 * 2 ^ 28)" using turn32_value [OF turn] x by simp
    then have "n' = 0 \<or> 2 ^ 31 \<le> unat res' \<and> n' = 2 ^ (64 - 7 * 5) - 1"
      using fb top_nibble [OF x _ m] by auto
    then have "\<exists>v s'. dec_varint32_loop (of_nat (7 * 5)) res' t = Ok v s'" if "\<not> unat b < 128"
      using i more [OF that] len' [OF that] True by (intro ext_accepted [of t 5 n' r]) simp_all
    then show ?thesis unfolding step using turn True by simp
  next
    case False
    then have i4: "i < 4" using Cons.prems(2) by simp
    let ?res = "res OR push_bit (7 * i) (ucast (b AND 0x7F)) :: u32"
    have turn: "turn32 i res b = Some ?res" using i4 by (simp add: turn32_def)
    show ?thesis
    proof (cases "unat b < 128")
      case True
      then show ?thesis unfolding step turn by simp
    next
      case False
      have fit: "unat b mod 128 * 2 ^ (7 * i) < 2 ^ LENGTH(32)"
        using dec_turn_less [of "0 :: u8" "7 * i" b] i4 power_increasing [of "7 * i + 7" 32 "2::nat"] by simp
      have u: "unat ?res = unat res + unat b mod 128 * 2 ^ (7 * i)" using Cons.prems(3) fit by (intro dec_turn) simp_all
      have "unat ?res + n' * 2 ^ (7 * Suc i) = unat res + n * 2 ^ (7 * i)" unfolding u n by (simp add: power_add algebra_simps)
      then have in32: "in_32 (unat ?res + n' * 2 ^ (7 * Suc i))" using Cons.prems(6) by simp
      have lt: "unat ?res < 2 ^ (7 * Suc i)" using dec_turn_less [OF Cons.prems(3), of b] unfolding u by (simp add: add.commute)
      have "\<exists>v s'. dec_varint32_loop (of_nat (7 * Suc i)) ?res t = Ok v s'"
        by (rule Cons.hyps(1) [OF i(1) [symmetric] i(2) _ lt _ _ in32]) (use i4 i more [OF False] len' [OF False] in simp_all)
      then show ?thesis unfolding step turn using False by simp
    qed
  qed
qed simp


lemma pb_decode_varint32_accepted:
  assumes "is_ok s" "leb_dec (input s) = Some (n, r)" "length (input s) - length r \<le> 10" "in_32 n"
  shows "\<exists>v s'. pb_decode_varint32 s = Ok v s'"
proof (cases "input s")
  case (Cons b bs)
  obtain t where t: "pb_readbyte s = Ok b t" "at_input bs s t" using at_input_byte assms(1) Cons by blast
  show ?thesis
  proof (cases "unat b < 128")
    case True
    then show ?thesis using t(1) by (simp add: pb_decode_varint32_is byte_80)
  next
    case False
    have i: "input t = bs" "is_ok t" using t(2) by (simp_all add: at_input_def)
    obtain n' where n': "leb_dec bs = Some (n', r)" "n = unat b mod 128 + 128 * n'"
      using assms(2) Cons False by (auto simp: map_option_case split: option.splits)
    have "length bs - length r \<le> 10 - 1" using assms(3) Cons leb_dec_shorter [OF n'(1)] by simp
    moreover have u: "unat (ucast (b AND 0x7F) :: u32) = unat b mod 128"
      using mod_less_divisor [of 128 "unat b"] by (subst unat_ucast_fit) (simp_all add: low7)
    ultimately have "\<exists>v s'. dec_varint32_loop (of_nat (7 * 1)) (ucast (b AND 0x7F)) t = Ok v s'"
      using i n' assms(4) by (intro dec_varint32_loop_accepted [of t 1 _ n' r]) (simp_all add: mult.commute)
    then show ?thesis using t(1) False by (simp add: pb_decode_varint32_is byte_80)
  qed
qed (use assms(2) in simp)

lemma pb_decode_varint32_ok:
  assumes "is_ok s" "leb_dec (input s) = Some (n, r)" "length (input s) - length r \<le> 10" "in_32 n"
  obtains s' where "pb_decode_varint32 s = Ok (of_nat n) s'" "at_input r s s'"
  using pb_decode_varint32_accepted [OF assms] pb_decode_varint32_sound [OF assms(1)] assms(2) that by fastforce

lemma pb_decode_varint32_leb:
  assumes "is_ok s" "input s = leb n @ r" "n < 2 ^ 32"
  obtains s' where "pb_decode_varint32 s = Ok (of_nat n) s'" "at_input r s s'"
proof -
  have "length (leb n) \<le> 5" using assms(3) by (intro leb_length) simp_all
  then show thesis using pb_decode_varint32_ok [OF assms(1), of n r] assms(2,3) that by (auto simp: leb_dec_leb in_32_def)
qed


text \<open>The end of the input is told from a number that is cut off.\<close>

lemma pb_decode_varint32_eof_snd: "is_ok s \<Longrightarrow> snd (pb_decode_varint32_eof s) \<longleftrightarrow> input s = []"
proof (cases "input s")
  case Nil
  assume "is_ok s"
  then show ?thesis using Nil pb_readbyte_end [of s] length_input [of s]
    by (simp add: pb_decode_varint32_eof_def is_error_def unat_eq_zero)
next
  case (Cons b bs)
  assume "is_ok s"
  then show ?thesis using Cons pb_readbyte_ok [of s b bs] by (auto simp: pb_decode_varint32_eof_def)
qed

section \<open>Signed numbers\<close>

definition zigzag :: "int \<Rightarrow> nat" where
  "zigzag k = nat (if k < 0 then - 2 * k - 1 else 2 * k)"

lemma signed_take_nat:
  assumes "x < 2 * 2 ^ n"
  shows "signed_take_bit n (int x) = (if x < 2 ^ n then int x else int x - 2 * 2 ^ n)"
proof -
  have "x div 2 ^ n < 2" using assms by (simp add: less_mult_imp_div_less)
  then have "bit x n \<longleftrightarrow> x div 2 ^ n \<noteq> 0" by (auto simp: bit_iff_odd less_2_cases_iff)
  then have b: "bit x n \<longleftrightarrow> \<not> x < 2 ^ n" by (simp add: div_eq_0_iff)
  have "take_bit (Suc n) (int x) = int x" using assms unfolding take_bit_of_nat by (simp add: take_bit_nat_eq_self)
  then show ?thesis using b unfolding signed_take_bit_eq_take_bit_minus by (simp add: bit_of_nat_iff_bit)
qed

lemma sint_of_unat:
  "sint (v :: 'a::len word) = (if unat v < 2 ^ (LENGTH('a) - 1) then int (unat v) else int (unat v) - 2 ^ LENGTH('a))"
proof -
  obtain n where n: "LENGTH('a) = Suc n" by (cases "LENGTH('a)") auto
  have "sint v = signed_take_bit n (int (unat v))" using n by (simp add: sint_uint)
  also have "\<dots> = (if unat v < 2 ^ n then int (unat v) else int (unat v) - 2 * 2 ^ n)"
    using unat_lt_size [of v] n by (intro signed_take_nat) simp
  finally show ?thesis using n by simp
qed

lemma unat_not: "unat (NOT (v :: 'a::len word)) = 2 ^ LENGTH('a) - 1 - unat v"
proof -
  have "NOT v = - 1 - v" by (simp add: not_eq_complement)
  moreover have "unat v \<le> unat (- 1 :: 'a word)" using unat_lt_size [of v] unfolding unsigned_minus_1_eq_mask mask_eq_exp_minus_1 by linarith
  ultimately show ?thesis by (simp add: unat_sub_nowrap unsigned_minus_1_eq_mask mask_eq_exp_minus_1)
qed

lemma zigzag_pos: "zigzag (int n) = n * 2"
  by (simp add: zigzag_def nat_mult_distrib)

lemma zigzag_neg: "n < k \<Longrightarrow> zigzag (int n - int k) = 2 * (k - n) - 1"
  by (simp add: zigzag_def)

lemma encode_zigzag:
  "unat (if sint v < 0 then NOT (push_bit 1 (v AND drop_bit 1 (- 1))) else push_bit 1 v :: u64) = zigzag (sint v)"
proof (cases "unat v < 2 ^ 63")
  case True
  then have s: "sint v = int (unat v)" by (simp add: sint_of_unat)
  have "unat (push_bit 1 v) = unat v * 2" using True unat_push_fit [of v 1] by simp
  then show ?thesis using s zigzag_pos [of "unat v"] by simp
next
  case False
  have s: "sint v = int (unat v) - 2 ^ 64" using False by (simp add: sint_of_unat)
  have "int (unat v) < int (2 ^ 64)" using unat_lt_size [of v] unfolding of_nat_less_iff by simp
  then have n: "sint v < 0" unfolding s by simp
  have m: "(drop_bit 1 (- 1) :: u64) = mask 63" by (simp add: mask_eq_exp_minus_1)
  have a: "unat (v AND drop_bit 1 (- 1)) = unat v - 2 ^ 63"
    unfolding m unat_mask using False unat_lt_size [of v] by (simp add: le_mod_geq)
  define z where "z = push_bit 1 (v AND drop_bit 1 (- 1))"
  have "unat z = (unat v - 2 ^ 63) * 2"
    using a unat_lt_size [of v] unat_push_fit [of "v AND drop_bit 1 (- 1)" 1] unfolding z_def by simp
  then have "unat (NOT z) = 2 * (2 ^ 64 - unat v) - 1" using False unat_lt_size [of v] by (simp add: unat_not)
  then show ?thesis using n zigzag_neg [of "unat v" "2 ^ 64"] unat_lt_size [of v] s unfolding z_def by simp
qed


lemma decode_zigzag:
  assumes "unat z = zigzag (sint v)"
  shows "(if z AND 1 \<noteq> 0 then NOT (drop_bit 1 z) else drop_bit 1 z) = (v :: u64)"
proof -
  have "bit (unat z) 0 \<longleftrightarrow> bit z 0" unfolding bit_unsigned_iff by simp
  then have o: "z AND 1 \<noteq> 0 \<longleftrightarrow> odd (unat z)" unfolding bit_0 by (simp add: and_one_eq mod_2_eq_odd)
  show ?thesis
  proof (cases "unat v < 2 ^ 63")
    case True
    then have u: "unat z = unat v * 2" using assms zigzag_pos [of "unat v"] by (simp add: sint_of_unat)
    then have "unat (drop_bit 1 z) = unat v" unfolding unat_drop by simp
    then show ?thesis using o u by (simp add: word_unat_eq_iff)
  next
    case False
    then have "unat z = 2 * (2 ^ 64 - unat v) - 1"
      using assms zigzag_neg [of "unat v" "2 ^ 64"] unat_lt_size [of v] by (simp add: sint_of_unat)
    moreover obtain m where m: "2 ^ 64 - unat v = Suc m" using unat_lt_size [of v] by (cases "2 ^ 64 - unat v") auto
    ultimately have u: "unat z = 2 * m + 1" by simp
    then have "unat (drop_bit 1 z) = m" unfolding unat_drop by simp
    then have "unat (NOT (drop_bit 1 z)) = unat v" using m unat_lt_size [of v] unfolding unat_not by simp
    then show ?thesis using o u by (simp add: word_unat_eq_iff)
  qed
qed

lemma pb_encode_svarint_is:
  "pb_encode_svarint v s = pb_write (leb (zigzag (sint v))) (of_nat (length (leb (zigzag (sint v))))) s"
  unfolding pb_encode_svarint_def Let_def pb_encode_varint_is encode_zigzag by (rule refl)

lemma zigzag_less: "zigzag (sint (v :: u64)) < 2 ^ 64"
  using unat_lt_size [of "if sint v < 0 then NOT (push_bit 1 (v AND drop_bit 1 (- 1))) else push_bit 1 v"]
  unfolding encode_zigzag by simp

lemma pb_decode_svarint_leb:
  assumes "is_ok s" "input s = leb (zigzag (sint v)) @ r"
  obtains s' where "pb_decode_svarint s = Ok v s'" "at_input r s s'"
proof -
  define z :: u64 where "z = of_nat (zigzag (sint v))"
  have u: "unat z = zigzag (sint v)" unfolding z_def using zigzag_less [of v] by (simp add: unsigned_of_nat take_bit_nat_eq_self)
  obtain s' where s': "pb_decode_varint s = Ok z s'" "at_input r s s'"
    using pb_decode_varint_leb [OF assms(1), of z r] assms(2) u by auto
  have "pb_decode_svarint s = Ok (if z AND 1 \<noteq> 0 then NOT (drop_bit 1 z) else drop_bit 1 z) s'"
    using s'(1) by (simp add: pb_decode_svarint_def)
  then show thesis using that s'(2) unfolding decode_zigzag [OF u] by blast
qed

section \<open>Skipping\<close>

lemma pb_skip_varint_is:
  "is_ok s \<Longrightarrow> leb_dec (input s) = Some (n, r) \<Longrightarrow> \<exists>s'. pb_skip_varint s = Ok () s' \<and> at_input r s s'"
proof (induction "input s" arbitrary: s n)
  case (Cons b bs)
  obtain t where t: "pb_read 1 s = Ok [b] t" "at_input bs s t"
    using pb_read_ok [of s "[b]" bs 1] Cons.prems(1) Cons.hyps(2) [symmetric] by (auto simp: at_input_def)
  have i: "input t = bs" "is_ok t" using t(2) by (simp_all add: at_input_def)
  show ?case
  proof (cases "unat b < 128")
    case True
    then show ?thesis using t Cons.prems(2) unfolding Cons.hyps(2) [symmetric]
      by (subst pb_skip_varint.simps) (simp add: byte_80)
  next
    case False
    obtain n' where n': "leb_dec bs = Some (n', r)"
      using Cons.prems(2) False unfolding Cons.hyps(2) [symmetric] by (auto simp: map_option_case split: option.splits)
    have "pb_skip_varint s = pb_skip_varint t" using t(1) False by (subst pb_skip_varint.simps) (simp add: byte_80)
    then show ?thesis using Cons.hyps(1) [of t n'] i n' at_input_mono [OF _ t(2)] by auto
  qed
qed simp

lemma pb_skip_varint_end:
  "is_ok s \<Longrightarrow> leb_dec (input s) = None \<Longrightarrow> fails ''end-of-stream'' s (pb_skip_varint s)"
proof (induction "input s" arbitrary: s)
  case Nil
  then have "pb_read 1 s = is_error ''end-of-stream'' s" by (intro pb_read_end) (simp_all flip: Nil(1))
  then show ?case by (subst pb_skip_varint.simps) (simp add: is_error_def fails_def)
next
  case (Cons b bs)
  obtain t where t: "pb_read 1 s = Ok [b] t" "at_input bs s t"
    using pb_read_ok [of s "[b]" bs 1] Cons.prems(1) Cons.hyps(2) [symmetric] by (auto simp: at_input_def)
  have i: "input t = bs" "is_ok t" using t(2) by (simp_all add: at_input_def)
  have more: "\<not> unat b < 128" "leb_dec bs = None"
    using Cons.prems(2) unfolding Cons.hyps(2) [symmetric] by (auto split: if_splits)
  have "pb_skip_varint s = pb_skip_varint t" using t(1) more(1) by (subst pb_skip_varint.simps) (simp add: byte_80)
  then show ?case using Cons.hyps(1) [of t] i more(2) t(2) fails_mono by (auto simp: at_input_def)
qed


section \<open>Properties\<close>

text \<open> C31. \<open>pb_encode_varint\<close>, which works on two halves of 32 bits, writes the base-128 form of its value: seven bits
  a byte, the least significant first, at most ten bytes, in one write. It fails with "stream full", and writes
  nothing, exactly when a buffer stream has no room for them.\<close>
theorem pb_encode_varint_correct:
  assumes "os_ok s"
  shows "length (leb (unat v)) \<le> 10 \<and>
    (if fits (length (leb (unat v))) s then \<exists>s'. pb_encode_varint v s = Ok () s' \<and> wrote (leb (unat v)) s s'
     else pb_encode_varint v s = Err (s\<lparr>os_errmsg := (if os_errmsg s \<noteq> None then os_errmsg s else Some ''stream full'')\<rparr>))"
proof -
  have l: "length (leb (unat v)) \<le> 10" by (rule leb_word)
  then have u: "length (leb (unat v)) = unat (of_nat (length (leb (unat v))) :: u64)"
    by (simp add: unsigned_of_nat take_bit_nat_eq_self)
  show ?thesis
  proof (cases "fits (length (leb (unat v))) s")
    case True
    then show ?thesis using l pb_write_ok [OF assms u True] by (simp add: pb_encode_varint_is)
  next
    case False
    then have "\<not> fits (unat (of_nat (length (leb (unat v))) :: u64)) s" using u by simp
    then show ?thesis using False l pb_write_full [OF assms] by (simp only: pb_encode_varint_is) simp
  qed
qed

theorem pb_encode_varint_correct_witness:
  "os_ok (pb_ostream_from_buffer [0, 0, 0] 3) \<and> length (leb (unat (300 :: u64))) \<le> 10 \<and>
    (if fits (length (leb (unat (300 :: u64)))) (pb_ostream_from_buffer [0, 0, 0] 3)
     then \<exists>s'. pb_encode_varint 300 (pb_ostream_from_buffer [0, 0, 0] 3) = Ok () s'
       \<and> wrote (leb (unat (300 :: u64))) (pb_ostream_from_buffer [0, 0, 0] 3) s'
     else pb_encode_varint 300 (pb_ostream_from_buffer [0, 0, 0] 3) = Err ((pb_ostream_from_buffer [0, 0, 0] 3)
       \<lparr>os_errmsg := (if os_errmsg (pb_ostream_from_buffer [0, 0, 0] 3) \<noteq> None
         then os_errmsg (pb_ostream_from_buffer [0, 0, 0] 3) else Some ''stream full'')\<rparr>))"
proof -
  have ok: "os_ok (pb_ostream_from_buffer [0, 0, 0] 3)" by (simp add: os_ok_def pb_ostream_from_buffer_def)
  show ?thesis using ok pb_encode_varint_correct [OF ok, of 300] by blast
qed

text \<open> C32. \<open>pb_decode_varint\<close> on every input: it returns the number in base-128 form at the head of the input and
  leaves the stream after it, also when the form is padded with zeros, if it has at most ten bytes and is below
  \<open>2 ^ 64\<close>; otherwise it fails with "varint overflow". An input that ends within the number fails with
  "end-of-stream", or with an overflow if ten bytes were there.\<close>
theorem pb_decode_varint_correct:
  assumes "is_ok s"
  shows "case leb_dec (input s) of
     None \<Rightarrow> fails (if length (input s) < 10 then ''end-of-stream'' else ''varint overflow'') s (pb_decode_varint s)
   | Some (n, r) \<Rightarrow> if length (input s) - length r \<le> 10 \<and> n < 2 ^ 64
       then \<exists>v s'. pb_decode_varint s = Ok v s' \<and> unat v = n \<and> at_input r s s'
       else fails ''varint overflow'' s (pb_decode_varint s)"
  using pb_decode_varint_spec [OF assms] unfolding dec_spec_def minus_nat.diff_0 mult_0_right power_0 mult_1_right add_0 .

theorem pb_decode_varint_correct_witness:
  "is_ok (pb_istream_from_buffer [0xAC, 0x82, 0x00, 7] 4) \<and>
   (case leb_dec (input (pb_istream_from_buffer [0xAC, 0x82, 0x00, 7] 4)) of
     None \<Rightarrow> fails (if length (input (pb_istream_from_buffer [0xAC, 0x82, 0x00, 7] 4)) < 10 then ''end-of-stream'' else ''varint overflow'')
       (pb_istream_from_buffer [0xAC, 0x82, 0x00, 7] 4) (pb_decode_varint (pb_istream_from_buffer [0xAC, 0x82, 0x00, 7] 4))
   | Some (n, r) \<Rightarrow> if length (input (pb_istream_from_buffer [0xAC, 0x82, 0x00, 7] 4)) - length r \<le> 10 \<and> n < 2 ^ 64
       then \<exists>v s'. pb_decode_varint (pb_istream_from_buffer [0xAC, 0x82, 0x00, 7] 4) = Ok v s' \<and> unat v = n
         \<and> at_input r (pb_istream_from_buffer [0xAC, 0x82, 0x00, 7] 4) s'
       else fails ''varint overflow'' (pb_istream_from_buffer [0xAC, 0x82, 0x00, 7] 4)
         (pb_decode_varint (pb_istream_from_buffer [0xAC, 0x82, 0x00, 7] 4)))"
proof -
  have ok: "is_ok (pb_istream_from_buffer [0xAC, 0x82, 0x00, 7] 4)" by (simp add: is_ok_def pb_istream_from_buffer_def)
  show ?thesis using ok pb_decode_varint_correct [OF ok] by blast
qed

text \<open> C33. Round trip: what \<open>pb_encode_varint\<close> and, for a signed number, \<open>pb_encode_svarint\<close> append to a buffer with ten
  bytes of room is read back by \<open>pb_decode_varint\<close> and \<open>pb_decode_svarint\<close>, whatever follows it, and exactly it is
  consumed.\<close>
theorem pb_varint_roundtrip:
  assumes "os_ok s" "os_callback s" "fits 10 s"
  shows "(\<exists>s' d. pb_encode_varint v s = Ok () s' \<and> written s' = written s @ d
      \<and> (\<forall>t r. is_ok t \<and> input t = d @ r \<longrightarrow> (\<exists>t'. pb_decode_varint t = Ok v t' \<and> at_input r t t')))
    \<and> (\<exists>s' d. pb_encode_svarint v s = Ok () s' \<and> written s' = written s @ d
      \<and> (\<forall>t r. is_ok t \<and> input t = d @ r \<longrightarrow> (\<exists>t'. pb_decode_svarint t = Ok v t' \<and> at_input r t t')))"
proof -
  have wr: "\<exists>s'. pb_write (leb n) (of_nat (length (leb n))) s = Ok () s' \<and> written s' = written s @ leb n" if "n < 2 ^ 64" for n
  proof -
    have l: "length (leb n) \<le> 10" using that by (intro leb_length) simp_all
    then have "length (leb n) = unat (of_nat (length (leb n)) :: u64)" by (simp add: unsigned_of_nat take_bit_nat_eq_self)
    moreover have "fits (length (leb n)) s" using l assms(3) by (auto simp: fits_def)
    ultimately show ?thesis using pb_write_ok [OF assms(1)] assms(2) by (fastforce simp: wrote_def)
  qed
  have "unat v < 2 ^ 64" using unat_lt_size [of v] by simp
  from wr [OF this] wr [OF zigzag_less [of v]] show ?thesis
    unfolding pb_encode_varint_is pb_encode_svarint_is by (meson pb_decode_varint_leb pb_decode_svarint_leb)
qed

theorem pb_varint_roundtrip_witness:
  "os_ok (pb_ostream_from_buffer (replicate 12 0) 12) \<and> os_callback (pb_ostream_from_buffer (replicate 12 0) 12)
   \<and> fits 10 (pb_ostream_from_buffer (replicate 12 0) 12)
   \<and> (\<exists>s' d. pb_encode_svarint (- 5) (pb_ostream_from_buffer (replicate 12 0) 12) = Ok () s'
      \<and> written s' = written (pb_ostream_from_buffer (replicate 12 0) 12) @ d)"
proof -
  have h: "os_ok (pb_ostream_from_buffer (replicate 12 0) 12)" "os_callback (pb_ostream_from_buffer (replicate 12 0) 12)"
    "fits 10 (pb_ostream_from_buffer (replicate 12 0) 12)"
    by (simp_all add: os_ok_def fits_def pb_ostream_from_buffer_def)
  show ?thesis using h pb_varint_roundtrip [OF h, of "- 5"] by blast
qed

text \<open> \<open>pb_decode_varint32\<close> reads every number below \<open>2 ^ 32\<close> and every negative number of 32 bits, extended to 64
  as protobuf writes it, in at most ten bytes, and whatever it accepts it returns the low 32 bits of the number at
  the head of the input, which is consumed.\<close>
theorem pb_decode_varint32_correct:
  assumes "is_ok s"
  shows "(\<forall>n r. leb_dec (input s) = Some (n, r) \<and> length (input s) - length r \<le> 10 \<and> (n < 2 ^ 32 \<or> 2 ^ 64 - 2 ^ 31 \<le> n \<and> n < 2 ^ 64)
      \<longrightarrow> (\<exists>s'. pb_decode_varint32 s = Ok (of_nat n) s' \<and> at_input r s s'))
    \<and> (\<forall>v s'. pb_decode_varint32 s = Ok v s' \<longrightarrow>
      (\<exists>n. leb_dec (input s) = Some (n, input s') \<and> v = of_nat n \<and> at_input (input s') s s'))"
  using pb_decode_varint32_sound [OF assms] pb_decode_varint32_ok [OF assms] unfolding in_32_def by metis

theorem pb_decode_varint32_correct_witness:
  "is_ok (pb_istream_from_buffer [0xAC, 0x02, 7] 3) \<and>
   (\<exists>s'. pb_decode_varint32 (pb_istream_from_buffer [0xAC, 0x02, 7] 3) = Ok (of_nat 300) s'
     \<and> at_input [7] (pb_istream_from_buffer [0xAC, 0x02, 7] 3) s')"
proof -
  have ok: "is_ok (pb_istream_from_buffer [0xAC, 0x02, 7] 3)" by (simp add: is_ok_def pb_istream_from_buffer_def)
  have "leb_dec (input (pb_istream_from_buffer [0xAC, 0x02, 7] 3)) = Some (300, [7])"
    "length (input (pb_istream_from_buffer [0xAC, 0x02, 7] 3)) - length [7 :: u8] \<le> 10"
    by (simp_all add: pb_istream_from_buffer_def input_def)
  then show ?thesis using ok pb_decode_varint32_correct [OF ok] by fastforce
qed

end
