(* ===== verification/PbWire.thy ===== *)
theory PbWire
  imports PbVarint
begin

text \<open>
  The wire format of nanopb, \<open>pb_encode.c\<close> and \<open>pb_decode.c\<close>: tags, fixed-width numbers, strings, the skipping of
  fields and substreams. Numbers are stored least byte first; the code's fast path for little-endian machines does
  the same.
\<close>

section \<open>Encoding\<close>

type_synonym pb_wire_type = u32

definition PB_WT_VARINT :: pb_wire_type where "PB_WT_VARINT = 0"
definition PB_WT_64BIT :: pb_wire_type where "PB_WT_64BIT = 1"
definition PB_WT_STRING :: pb_wire_type where "PB_WT_STRING = 2"
definition PB_WT_32BIT :: pb_wire_type where "PB_WT_32BIT = 5"
definition PB_WT_PACKED :: pb_wire_type where "PB_WT_PACKED = 255"

lemmas wire_types = PB_WT_VARINT_def PB_WT_64BIT_def PB_WT_STRING_def PB_WT_32BIT_def PB_WT_PACKED_def

definition pb_encode_fixed32 :: "u32 \<Rightarrow> pb_ostream \<Rightarrow> (unit, pb_ostream) outcome" where
  "pb_encode_fixed32 val s = pb_write
     [ucast (val AND 0xFF), ucast (drop_bit 8 val AND 0xFF), ucast (drop_bit 16 val AND 0xFF), ucast (drop_bit 24 val AND 0xFF)] 4 s"

definition pb_encode_fixed64 :: "u64 \<Rightarrow> pb_ostream \<Rightarrow> (unit, pb_ostream) outcome" where
  "pb_encode_fixed64 val s = pb_write
     [ucast (val AND 0xFF), ucast (drop_bit 8 val AND 0xFF), ucast (drop_bit 16 val AND 0xFF), ucast (drop_bit 24 val AND 0xFF),
      ucast (drop_bit 32 val AND 0xFF), ucast (drop_bit 40 val AND 0xFF), ucast (drop_bit 48 val AND 0xFF),
      ucast (drop_bit 56 val AND 0xFF)] 8 s"

definition pb_encode_tag :: "pb_wire_type \<Rightarrow> u32 \<Rightarrow> pb_ostream \<Rightarrow> (unit, pb_ostream) outcome" where
  "pb_encode_tag wiretype field_number s = pb_encode_varint (push_bit 3 (ucast field_number) OR ucast wiretype) s"

definition pb_encode_string :: "bytes \<Rightarrow> u64 \<Rightarrow> pb_ostream \<Rightarrow> (unit, pb_ostream) outcome" where
  "pb_encode_string buffer sz s = pb_bind (pb_encode_varint sz s) (\<lambda>_ s. pb_write buffer sz s)"

section \<open>Decoding\<close>

definition pb_decode_fixed32 :: "pb_istream \<Rightarrow> (u32, pb_istream) outcome" where
  "pb_decode_fixed32 s = pb_bind (pb_read 4 s) (\<lambda>b s. Ok
     (ucast (b ! 0) OR push_bit 8 (ucast (b ! 1)) OR push_bit 16 (ucast (b ! 2)) OR push_bit 24 (ucast (b ! 3))) s)"

definition pb_decode_fixed64 :: "pb_istream \<Rightarrow> (u64, pb_istream) outcome" where
  "pb_decode_fixed64 s = pb_bind (pb_read 8 s) (\<lambda>b s. Ok
     (ucast (b ! 0) OR push_bit 8 (ucast (b ! 1)) OR push_bit 16 (ucast (b ! 2)) OR push_bit 24 (ucast (b ! 3))
      OR push_bit 32 (ucast (b ! 4)) OR push_bit 40 (ucast (b ! 5)) OR push_bit 48 (ucast (b ! 6)) OR push_bit 56 (ucast (b ! 7))) s)"

text \<open>\<open>(size_t)length != length\<close> and the like compare 32 bits with 64 and are never true.\<close>

definition pb_skip_string :: "pb_istream \<Rightarrow> (unit, pb_istream) outcome" where
  "pb_skip_string s = pb_bind (pb_decode_varint32 s) (\<lambda>len s. pb_bind (pb_read (ucast len) s) (\<lambda>_ s. Ok () s))"

text \<open>The wire type and the tag, and whether the input had ended.\<close>

definition pb_decode_tag :: "pb_istream \<Rightarrow> (pb_wire_type \<times> u32, pb_istream) outcome \<times> bool" where
  "pb_decode_tag s = (case pb_decode_varint32_eof s of (res, eof) \<Rightarrow>
     (pb_bind res (\<lambda>temp s. Ok (temp AND 7, drop_bit 3 temp) s), eof))"

definition pb_skip_field :: "pb_wire_type \<Rightarrow> pb_istream \<Rightarrow> (unit, pb_istream) outcome" where
  "pb_skip_field wire_type s =
     (if wire_type = PB_WT_VARINT then pb_skip_varint s
      else if wire_type = PB_WT_64BIT then pb_bind (pb_read 8 s) (\<lambda>_ s. Ok () s)
      else if wire_type = PB_WT_STRING then pb_skip_string s
      else if wire_type = PB_WT_32BIT then pb_bind (pb_read 4 s) (\<lambda>_ s. Ok () s)
      else is_error ''invalid wire_type'' s)"

text \<open>\<open>read_raw_value\<close> gives the bytes it stored; the loop's second argument is \<open>*size\<close>. On entry \<open>*size\<close> is the size of
  the buffer: the number loop stays below it, while the fixed-width cases write 8 and 4 bytes without looking at it, past
  the end of a smaller buffer.\<close>

function raw_varint_loop :: "u64 \<Rightarrow> u64 \<Rightarrow> bytes \<Rightarrow> pb_istream \<Rightarrow> (bytes, pb_istream) outcome" where
  "raw_varint_loop max_size sz buf s =
     (if sz + 1 > max_size then is_error ''varint overflow'' s
      else pb_bind (pb_read 1 s) (\<lambda>d s.
        if hd d AND 0x80 \<noteq> 0 then raw_varint_loop max_size (sz + 1) (buf @ d) s else Ok (buf @ d) s))"
  by auto
termination
  by (relation "measure (\<lambda>(_, _, _, s). unat (is_bytes_left s))") (auto dest: pb_read_less)

declare raw_varint_loop.simps [simp del]

definition read_raw_value :: "pb_wire_type \<Rightarrow> u64 \<Rightarrow> pb_istream \<Rightarrow> (bytes, pb_istream) outcome" where
  "read_raw_value wire_type max_size s =
     (if wire_type = PB_WT_VARINT then raw_varint_loop max_size 0 [] s
      else if wire_type = PB_WT_64BIT then if max_size < 8 then Undef else pb_read 8 s
      else if wire_type = PB_WT_32BIT then if max_size < 4 then Undef else pb_read 4 s
      else is_error ''invalid wire_type'' s)"

text \<open>The substream shares the memory of its parent, which skips it at once in \<open>bytes_left\<close> and in \<open>state\<close> only when the
  substream is closed.\<close>

definition pb_make_string_substream :: "pb_istream \<Rightarrow> (pb_istream, pb_istream) outcome" where
  "pb_make_string_substream s = pb_bind (pb_decode_varint32 s) (\<lambda>sz s.
     if is_bytes_left s < ucast sz then is_error ''parent stream too short'' s
     else Ok (s\<lparr>is_bytes_left := ucast sz\<rparr>) (s\<lparr>is_bytes_left := is_bytes_left s - ucast sz\<rparr>))"

definition pb_close_string_substream :: "pb_istream \<Rightarrow> pb_istream \<Rightarrow> (unit, pb_istream) outcome" where
  "pb_close_string_substream sub s =
     (case (if is_bytes_left sub \<noteq> 0 then pb_read (is_bytes_left sub) sub else Ok [] sub) of
        Err _ \<Rightarrow> Err s
      | Undef \<Rightarrow> Undef
      | Ok _ sub \<Rightarrow> Ok () (s\<lparr>is_rest := is_rest sub, is_errmsg := is_errmsg sub\<rparr>))"

section \<open>Reading stays within the stream\<close>

text \<open>\<open>adv\<close>: the stream after some of its bytes; \<open>within\<close>: what a failed call may leave, which may have fewer.\<close>

definition adv :: "pb_istream \<Rightarrow> pb_istream \<Rightarrow> bool" where
  "adv s s' \<longleftrightarrow> (\<exists>k. unat (is_bytes_left s) = k + unat (is_bytes_left s') \<and> is_rest s' = drop k (is_rest s))"

definition within :: "pb_istream \<Rightarrow> pb_istream \<Rightarrow> bool" where
  "within s s' \<longleftrightarrow> (\<exists>k. k + unat (is_bytes_left s') \<le> unat (is_bytes_left s) \<and> is_rest s' = drop k (is_rest s))"

definition safe :: "pb_istream \<Rightarrow> ('a, pb_istream) outcome \<Rightarrow> bool" where
  "safe s res \<longleftrightarrow> (case res of Ok _ s' \<Rightarrow> adv s s' | Err s' \<Rightarrow> within s s' | Undef \<Rightarrow> False)"

lemma safe_simps [simp]: "safe s (Ok a s') \<longleftrightarrow> adv s s'" "safe s (Err s') \<longleftrightarrow> within s s'" "\<not> safe s Undef"
  by (simp_all add: safe_def)

lemma adv_refl [simp]: "adv s s"
  by (auto simp: adv_def)

lemma adv_within: "adv s s' \<Longrightarrow> within s s'"
  by (auto simp: adv_def within_def)

lemma adv_trans: "adv s s' \<Longrightarrow> adv s' s'' \<Longrightarrow> adv s s''"
proof -
  assume "adv s s'" "adv s' s''"
  then obtain j k where "unat (is_bytes_left s) = j + unat (is_bytes_left s')" "is_rest s' = drop j (is_rest s)"
    "unat (is_bytes_left s') = k + unat (is_bytes_left s'')" "is_rest s'' = drop k (is_rest s')"
    by (auto simp only: adv_def)
  then show ?thesis unfolding adv_def by (intro exI [of _ "k + j"]) simp
qed

lemma within_trans:
  assumes "within s s'" "within s' s''"
  shows "within s s''"
proof -
  obtain j k where "j + unat (is_bytes_left s') \<le> unat (is_bytes_left s)" "is_rest s' = drop j (is_rest s)"
    "k + unat (is_bytes_left s'') \<le> unat (is_bytes_left s')" "is_rest s'' = drop k (is_rest s')"
    using assms by (auto simp only: within_def)
  then show ?thesis unfolding within_def by (intro exI [of _ "k + j"]) simp
qed

lemma within_ok: "within s s' \<Longrightarrow> is_ok s \<Longrightarrow> is_ok s'"
  by (auto simp: within_def is_ok_def)

lemma adv_ok: "adv s s' \<Longrightarrow> is_ok s \<Longrightarrow> is_ok s'"
  using adv_within within_ok by blast

lemma safe_error [simp]: "safe s (is_error msg s)"
  by (simp add: is_error_def within_def)

lemma safe_trans: "adv s s' \<Longrightarrow> safe s' res \<Longrightarrow> safe s res"
  by (cases res) (auto intro: adv_trans within_trans adv_within)

lemma safe_bind:
  assumes "safe s m" "\<And>a s'. m = Ok a s' \<Longrightarrow> adv s s' \<Longrightarrow> safe s' (f a s')"
  shows "safe s (pb_bind m f)"
proof (cases m)
  case (Ok a s')
  then show ?thesis using assms(1) assms(2) [OF Ok] by (auto intro: safe_trans)
qed (use assms(1) in simp_all)

lemma safe_read: "is_ok s \<Longrightarrow> safe s (pb_read count s)"
proof -
  assume ok: "is_ok s"
  have "safe s (pb_read count s)" if le: "unat count \<le> unat (is_bytes_left s)" "count \<noteq> 0"
  proof -
    have "unat (is_bytes_left s - count) = unat (is_bytes_left s) - unat count" using le(1) by (rule unat_sub_nowrap)
    then show ?thesis using le ok
      by (auto simp: pb_read_def buf_read_def mem_read_def is_ok_def adv_def word_less_nat_alt intro!: exI [of _ "unat count"])
  qed
  then show ?thesis by (cases "count = 0") (auto simp: pb_read_def word_less_nat_alt not_less)
qed

lemma safe_readbyte: "is_ok s \<Longrightarrow> safe s (pb_readbyte s)"
proof (cases "input s")
  case Nil
  assume "is_ok s"
  then show ?thesis using Nil by (simp add: pb_readbyte_end)
next
  case (Cons b bs)
  assume ok: "is_ok s"
  then have l: "is_bytes_left s \<noteq> 0" using Cons by (auto simp: input_def)
  then have n: "1 \<le> unat (is_bytes_left s)" using unat_gt_0 [of "is_bytes_left s"] by linarith
  then have "unat (is_bytes_left s - 1) = unat (is_bytes_left s) - 1" by (simp add: unat_sub_nowrap)
  then show ?thesis using l n ok
    by (auto simp: pb_readbyte_def buf_read_def mem_read_def is_ok_def adv_def intro!: exI [of _ 1])
qed

named_theorems safes

declare safe_read [safes] safe_readbyte [safes]

text \<open>The loop of \<open>pb_decode_varint\<close> never shifts by the width: \<open>bitpos\<close> is a multiple of 7, and at 63 it goes on only when
  the byte is 0 or 1, which ends the number.\<close>

lemma varint_bitpos:
  assumes "7 dvd unat (bitpos :: u8)" "unat bitpos \<le> 63" "\<not> (bitpos \<ge> 63 \<and> (byte :: u8) AND 0xFE \<noteq> 0)" "byte AND 0x80 \<noteq> 0"
  shows "7 dvd unat (bitpos + 7)" "unat (bitpos + 7) \<le> 63"
proof -
  have "unat byte \<ge> 128" using assms(4) byte_80 by (simp add: not_less)
  then have "\<not> bitpos \<ge> 63" using assms(3) byte_fe [of byte] by auto
  then have "unat bitpos < 63" by (simp add: word_le_nat_alt not_le)
  then have l: "unat bitpos \<le> 56" using assms(1) by (auto simp: dvd_def)
  then have "unat (bitpos + 7) = unat bitpos + 7" by (subst unat_add_nowrap) simp_all
  then show "7 dvd unat (bitpos + 7)" "unat (bitpos + 7) \<le> 63" using assms(1) l by simp_all
qed

lemma safe_varint_loop: "is_ok s \<Longrightarrow> 7 dvd unat bitpos \<Longrightarrow> unat bitpos \<le> 63 \<Longrightarrow> safe s (dec_varint_loop bitpos res s)"
proof (induction bitpos res s rule: dec_varint_loop.induct)
  case (1 bitpos res s)
  have "\<not> bitpos \<ge> 64" using 1(4) by (simp add: word_le_nat_alt)
  with 1(3,4) show ?case
    by (subst dec_varint_loop.simps) (auto simp: Let_def intro!: safe_bind safe_readbyte 1 intro: adv_ok dest: varint_bitpos)
qed

lemma safe_decode_varint [safes]: "is_ok s \<Longrightarrow> safe s (pb_decode_varint s)"
  unfolding pb_decode_varint_def by (rule safe_varint_loop) simp_all

lemma safe_varint32_loop: "is_ok s \<Longrightarrow> safe s (dec_varint32_loop bitpos res s)"
proof (induction bitpos res s rule: dec_varint32_loop.induct)
  case (1 bitpos res s)
  show ?case
  proof (subst dec_varint32_loop.simps, rule safe_bind [OF safe_readbyte [OF 1(2)]])
    fix byte s1
    assume r: "pb_readbyte s = Ok byte s1" "adv s s1"
    have ok: "is_ok s1" using r(2) 1(2) by (rule adv_ok)
    let ?m = "if bitpos \<ge> 32
          then (let sign_extension = (if bitpos < 63 then 0xFF else 0x01);
                    valid_extension = (byte AND 0x7F = 0 \<or> drop_bit 31 res \<noteq> 0 \<and> byte = sign_extension)
            in if bitpos \<ge> 64 \<or> \<not> valid_extension then is_error ''varint overflow'' s1 else Ok res s1)
          else if bitpos = 28
          then if byte AND 0x70 \<noteq> 0 \<and> byte AND 0x78 \<noteq> 0x78 then is_error ''varint overflow'' s1
            else Ok (res OR push_bit (unat bitpos) (ucast (byte AND 0x0F))) s1
          else if bitpos \<ge> 32 then Undef
          else Ok (res OR push_bit (unat bitpos) (ucast (byte AND 0x7F))) s1"
    have "safe s1 ?m" by (simp add: Let_def)
    then show "safe s1 (pb_bind ?m (\<lambda>res s. if byte AND 0x80 \<noteq> 0 then dec_varint32_loop (bitpos + 7) res s else Ok res s))"
      by (rule safe_bind) (use 1(1) [OF r(1)] ok adv_ok in auto)
  qed
qed

lemma safe_decode_varint32 [safes]: "is_ok s \<Longrightarrow> safe s (pb_decode_varint32 s)"
  by (auto simp: pb_decode_varint32_is intro!: safe_bind safes safe_varint32_loop intro: adv_ok)

lemma safe_decode_svarint [safes]: "is_ok s \<Longrightarrow> safe s (pb_decode_svarint s)"
  by (auto simp: pb_decode_svarint_def intro!: safe_bind safes)

lemma safe_decode_bool [safes]: "is_ok s \<Longrightarrow> safe s (pb_decode_bool s)"
  by (auto simp: pb_decode_bool_def intro!: safe_bind safes)

lemma safe_skip_varint [safes]: "is_ok s \<Longrightarrow> safe s (pb_skip_varint s)"
proof (induction s rule: pb_skip_varint.induct)
  case (1 s)
  show ?case by (subst pb_skip_varint.simps) (auto intro!: safe_bind safes 1 intro: adv_ok)
qed

lemma safe_decode_fixed32 [safes]: "is_ok s \<Longrightarrow> safe s (pb_decode_fixed32 s)"
  by (auto simp: pb_decode_fixed32_def intro!: safe_bind safes)

lemma safe_decode_fixed64 [safes]: "is_ok s \<Longrightarrow> safe s (pb_decode_fixed64 s)"
  by (auto simp: pb_decode_fixed64_def intro!: safe_bind safes)

lemma safe_skip_string [safes]: "is_ok s \<Longrightarrow> safe s (pb_skip_string s)"
  by (auto simp: pb_skip_string_def intro!: safe_bind safes intro: adv_ok)

lemma safe_decode_tag [safes]: "is_ok s \<Longrightarrow> safe s (fst (pb_decode_tag s))"
proof -
  assume ok: "is_ok s"
  have "fst (pb_decode_tag s) = pb_bind (pb_decode_varint32 s) (\<lambda>temp s. Ok (temp AND 7, drop_bit 3 temp) s)"
    by (simp add: pb_decode_tag_def pb_decode_varint32_def case_prod_beta)
  then show ?thesis using ok by (auto intro!: safe_bind safes)
qed

lemma safe_skip_field [safes]: "is_ok s \<Longrightarrow> safe s (pb_skip_field wt s)"
  by (auto simp: pb_skip_field_def intro!: safe_bind safes)

lemma safe_raw_loop: "is_ok s \<Longrightarrow> safe s (raw_varint_loop m n buf s)"
proof (induction m n buf s rule: raw_varint_loop.induct)
  case (1 m n buf s)
  show ?case by (subst raw_varint_loop.simps) (auto intro!: safe_bind safes 1 intro: adv_ok)
qed

lemma safe_read_raw: "is_ok s \<Longrightarrow> \<not> n < 8 \<Longrightarrow> safe s (read_raw_value wt n s)"
proof -
  assume ok: "is_ok s" and n: "\<not> n < 8"
  then have "\<not> n < 4" by (auto simp: word_less_nat_alt)
  then show ?thesis using ok n by (simp add: read_raw_value_def safes safe_raw_loop)
qed

text \<open>What \<open>read_raw_value\<close> stores fits the buffer it was given.\<close>

lemma pb_read_length: "pb_read count s = Ok d s' \<Longrightarrow> length d = unat count"
  by (auto simp: pb_read_def buf_read_def mem_read_def mem_get_def is_error_def split: if_splits option.splits)

lemma raw_loop_length:
  "raw_varint_loop m n buf s = Ok buf' s' \<Longrightarrow> length buf = unat n \<Longrightarrow> unat n + unat (is_bytes_left s) < 2 ^ 64
    \<Longrightarrow> length buf' \<le> unat m"
proof (induction m n buf s rule: raw_varint_loop.induct)
  case (1 m n buf s)
  obtain d s1 where d: "\<not> n + 1 > m" "pb_read 1 s = Ok d s1"
    "(if hd d AND 0x80 \<noteq> 0 then raw_varint_loop m (n + 1) (buf @ d) s1 else Ok (buf @ d) s1) = Ok buf' s'"
    using 1(2) by (subst (asm) raw_varint_loop.simps) (cases "pb_read 1 s"; auto simp: is_error_def split: if_splits)
  have less: "unat (is_bytes_left s1) < unat (is_bytes_left s)" using pb_read_less [OF d(2)] by simp
  have n: "unat (n + 1) = unat n + 1" using 1(4) less by (subst unat_add_nowrap) simp_all
  have l: "length (buf @ d) = unat (n + 1)" using pb_read_length [OF d(2)] 1(3) n by simp
  have left: "unat (n + 1) + unat (is_bytes_left s1) < 2 ^ 64" using 1(4) less n by simp
  show ?case
  proof (cases "hd d AND 0x80 \<noteq> 0")
    case True
    then show ?thesis using 1(1) [OF d(1,2) True _ l left] d(3) by simp
  next
    case False
    have "buf' = buf @ d" using d(3) unfolding if_not_P [OF False] by simp
    then show ?thesis using l d(1) by (simp add: not_less word_le_nat_alt)
  qed
qed

lemma raw_length:
  assumes "\<not> n < 8" "read_raw_value wt n s = Ok buf s'"
  shows "length buf \<le> unat n"
proof -
  have n: "\<not> n < 4" "8 \<le> unat n" using assms(1) by (auto simp: word_less_nat_alt)
  consider "raw_varint_loop n 0 [] s = Ok buf s'" | "pb_read 8 s = Ok buf s'" | "pb_read 4 s = Ok buf s'"
    using assms n(1) by (auto simp: read_raw_value_def is_error_def split: if_splits)
  then show ?thesis
  proof cases
    case 1
    have "unat (0 :: u64) + unat (is_bytes_left s) < 2 ^ 64" using unat_lt_size [of "is_bytes_left s"] by simp
    then show ?thesis using raw_loop_length [OF 1] by simp
  qed (use n(2) pb_read_length in fastforce)+
qed

text \<open>A substream and its parent: closing puts the parent where the substream ends.\<close>

lemma make_substream:
  assumes "is_ok s" "pb_make_string_substream s = Ok sub s1"
  obtains t where "adv s t" "is_rest sub = is_rest t" "is_rest s1 = is_rest t"
    "unat (is_bytes_left t) = unat (is_bytes_left sub) + unat (is_bytes_left s1)"
    "is_errmsg sub = is_errmsg t" "is_errmsg s1 = is_errmsg t"
proof -
  obtain n t where t: "pb_decode_varint32 s = Ok n t" "\<not> is_bytes_left t < ucast n"
    "sub = t\<lparr>is_bytes_left := ucast n\<rparr>" "s1 = t\<lparr>is_bytes_left := is_bytes_left t - ucast n\<rparr>"
    using assms(2) unfolding pb_make_string_substream_def
    by (cases "pb_decode_varint32 s") (auto simp: is_error_def split: if_splits)
  have "adv s t" using safe_decode_varint32 [OF assms(1)] t(1) by simp
  moreover have le: "unat (ucast n :: u64) \<le> unat (is_bytes_left t)" using t(2) by (simp add: word_less_nat_alt)
  moreover have "unat (is_bytes_left t - ucast n) = unat (is_bytes_left t) - unat (ucast n :: u64)"
    using le by (rule unat_sub_nowrap)
  ultimately show thesis using that [of t] t(3,4) by simp
qed

lemma make_substream_ok:
  assumes "is_ok s" "pb_make_string_substream s = Ok sub s1"
  shows "is_ok sub" "is_ok s1" "within s s1"
proof -
  obtain t where t: "adv s t" "is_rest sub = is_rest t" "is_rest s1 = is_rest t"
    "unat (is_bytes_left t) = unat (is_bytes_left sub) + unat (is_bytes_left s1)"
    using make_substream [OF assms] by metis
  have "is_ok t" using t(1) assms(1) by (rule adv_ok)
  then show "is_ok sub" "is_ok s1" using t(2-4) by (simp_all add: is_ok_def)
  have "within t s1" unfolding within_def using t(3,4) by (intro exI [of _ 0]) simp
  then show "within s s1" using adv_within [OF t(1)] within_trans by blast
qed

lemma close_substream:
  assumes "is_ok s" "pb_make_string_substream s = Ok sub s1" "adv sub sub'" 
  obtains s2 where "pb_close_string_substream sub' s1 = Ok () s2" "adv s s2" "is_bytes_left s2 = is_bytes_left s1"
    "is_errmsg s2 = is_errmsg sub'"
proof -
  obtain t where t: "adv s t" "is_rest sub = is_rest t" "is_rest s1 = is_rest t"
    "unat (is_bytes_left t) = unat (is_bytes_left sub) + unat (is_bytes_left s1)"
    using make_substream [OF assms(1,2)] by metis
  have ok: "is_ok sub'" using adv_ok [OF assms(3)] make_substream_ok [OF assms(1,2)] by simp
  have r: "pb_read (is_bytes_left sub') sub' = Ok (input sub') (sub'\<lparr>is_rest := drop (unat (is_bytes_left sub')) (is_rest sub'), is_bytes_left := 0\<rparr>)"
    if "is_bytes_left sub' \<noteq> 0"
    using that ok by (simp add: pb_read_def buf_read_def mem_read_def mem_get_def is_ok_def input_def)
  let ?s2 = "s1\<lparr>is_rest := drop (unat (is_bytes_left sub')) (is_rest sub'), is_errmsg := is_errmsg sub'\<rparr>"
  have c: "pb_close_string_substream sub' s1 = Ok () ?s2"
    using r by (cases "is_bytes_left sub' = 0") (simp_all add: pb_close_string_substream_def)
  obtain k where k: "unat (is_bytes_left sub) = k + unat (is_bytes_left sub')" "is_rest sub' = drop k (is_rest sub)"
    using assms(3) by (auto simp only: adv_def)
  have "adv t ?s2" unfolding adv_def using k t(2-4)
    by (intro exI [of _ "unat (is_bytes_left sub)"]) (simp add: add.commute)
  then have "adv s ?s2" using adv_trans [OF t(1)] by blast
  then show thesis using that [OF c] by simp
qed

section \<open>Numbers of a fixed width\<close>

text \<open>The reference: base 256, the least byte first.\<close>

fun le_bytes :: "nat \<Rightarrow> nat \<Rightarrow> bytes" where
  "le_bytes 0 n = []"
| "le_bytes (Suc k) n = of_nat n # le_bytes k (n div 256)"

fun le_val :: "bytes \<Rightarrow> nat" where
  "le_val [] = 0"
| "le_val (b # bs) = unat b + 256 * le_val bs"

lemma length_le_bytes [simp]: "length (le_bytes k n) = k"
  by (induction k n rule: le_bytes.induct) simp_all

lemma le_val_bytes: "le_val (le_bytes k n) = n mod 256 ^ k"
proof (induction k n rule: le_bytes.induct)
  case (2 k n)
  have "n mod 256 + 256 * (n div 256 mod 256 ^ k) = n mod (256 * 256 ^ k)"
    by (metis add.commute mod_mult2_eq)
  then show ?case using 2 by (simp add: unsigned_of_nat take_bit_eq_mod)
qed simp

lemma le_bytes_val: "le_bytes (length bs) (le_val bs) = bs"
proof (induction bs)
  case (Cons b bs)
  have "unat b < 256" using unat_lt_size [of b] by simp
  then have "(unat b + 256 * le_val bs) div 256 = le_val bs" by simp
  moreover have "(of_nat (unat b + 256 * le_val bs) :: u8) = b"
    unfolding word_unat_eq_iff unsigned_of_nat using \<open>unat b < 256\<close> by (simp add: take_bit_eq_mod)
  ultimately show ?case using Cons by simp
qed simp

lemma le_val_less: "le_val bs < 256 ^ length bs"
proof (induction bs)
  case (Cons b bs)
  have "unat b < 256" using unat_lt_size [of b] by simp
  then show ?case using Cons by simp
qed simp


lemma byte_of: "(ucast (drop_bit k v AND 0xFF) :: u8) = of_nat (unat (v :: 'a::len word) div 2 ^ k)"
proof -
  have m: "(0xFF :: 'a word) = mask 8" by (simp add: mask_eq_exp_minus_1)
  have "unat (ucast (drop_bit k v AND 0xFF) :: u8) = unat v div 2 ^ k mod 256"
    unfolding unsigned_ucast_eq m unat_mask unat_drop by (simp add: take_bit_eq_mod)
  then show ?thesis unfolding word_unat_eq_iff unsigned_of_nat by (simp add: take_bit_eq_mod)
qed

lemma le_bytes_step: "le_bytes (Suc k) (n div 2 ^ j) = of_nat (n div 2 ^ j) # le_bytes k (n div 2 ^ (j + 8))"
  unfolding power_add div_mult2_eq by simp

lemma le_bytes_4: "le_bytes 4 n = [of_nat n, of_nat (n div 2 ^ 8), of_nat (n div 2 ^ 16), of_nat (n div 2 ^ 24)]"
proof -
  have "4 = Suc (Suc (Suc (Suc 0)))" by simp
  then have "le_bytes 4 n = le_bytes (Suc (Suc (Suc (Suc 0)))) (n div 2 ^ 0)" unfolding power_0 div_by_1 by (rule arg_cong)
  then show ?thesis unfolding le_bytes_step le_bytes.simps(1) by simp
qed

lemma le_bytes_8: "le_bytes 8 n = [of_nat n, of_nat (n div 2 ^ 8), of_nat (n div 2 ^ 16), of_nat (n div 2 ^ 24),
    of_nat (n div 2 ^ 32), of_nat (n div 2 ^ 40), of_nat (n div 2 ^ 48), of_nat (n div 2 ^ 56)]"
proof -
  have "8 = Suc (Suc (Suc (Suc (Suc (Suc (Suc (Suc 0)))))))" by simp
  then have "le_bytes 8 n = le_bytes (Suc (Suc (Suc (Suc (Suc (Suc (Suc (Suc 0)))))))) (n div 2 ^ 0)"
    unfolding power_0 div_by_1 by (rule arg_cong)
  then show ?thesis unfolding le_bytes_step le_bytes.simps(1) by simp
qed

lemma byte_of_0: "(ucast (v AND 0xFF) :: u8) = of_nat (unat (v :: 'a::len word))"
  using byte_of [of 0 v] unfolding drop_bit_0 power_0 div_by_1 id_apply .

lemma pb_encode_fixed32_is: "pb_encode_fixed32 v s = pb_write (le_bytes 4 (unat v)) 4 s"
  unfolding pb_encode_fixed32_def byte_of [where k = 8] byte_of [where k = 16] byte_of [where k = 24] unfolding byte_of_0 le_bytes_4 ..

lemma pb_encode_fixed64_is: "pb_encode_fixed64 v s = pb_write (le_bytes 8 (unat v)) 8 s"
  unfolding pb_encode_fixed64_def byte_of [where k = 8] byte_of [where k = 16] byte_of [where k = 24] byte_of [where k = 32]
    byte_of [where k = 40] byte_of [where k = 48] byte_of [where k = 56] unfolding byte_of_0 le_bytes_8 ..

fun le_word :: "bytes \<Rightarrow> 'a::len word" where
  "le_word [] = 0"
| "le_word (b # bs) = ucast b OR push_bit 8 (le_word bs)"

lemma unat_le_word: "8 * length bs \<le> LENGTH('a) \<Longrightarrow> unat (le_word bs :: 'a::len word) = le_val bs"
proof (induction bs)
  case (Cons b bs)
  have b: "unat b < 2 ^ 8" using unat_lt_size [of b] by simp
  have l: "256 * 256 ^ length bs \<le> (2::nat) ^ LENGTH('a)"
    using power_increasing [OF Cons.prems, of "2::nat"] by (simp add: power_mult power_add)
  have u: "unat (ucast b :: 'a word) = unat b"
    using b Cons.prems power_increasing [of 8 "LENGTH('a)" "2::nat"] by (intro unat_ucast_fit) simp
  have "unat (le_word bs :: 'a word) * 2 ^ 8 < 2 ^ LENGTH('a)"
    using Cons l le_val_less [of bs] by simp
  then have "unat (push_bit 8 (le_word bs) :: 'a word) = 256 * le_val bs"
    using Cons by (subst unat_push_fit) simp_all
  then show ?case using or_push [of "ucast b :: 'a word" 8 "le_word bs"] b u by simp
qed simp

lemma le_word_32: "length b = 4 \<Longrightarrow>
  ucast (b ! 0) OR push_bit 8 (ucast (b ! 1)) OR push_bit 16 (ucast (b ! 2)) OR push_bit 24 (ucast (b ! 3)) = (le_word b :: u32)"
  by (auto simp: numeral_eq_Suc length_Suc_conv push_bit_or push_bit_push_bit)


lemma le_word_64: "length b = 8 \<Longrightarrow>
  ucast (b ! 0) OR push_bit 8 (ucast (b ! 1)) OR push_bit 16 (ucast (b ! 2)) OR push_bit 24 (ucast (b ! 3))
  OR push_bit 32 (ucast (b ! 4)) OR push_bit 40 (ucast (b ! 5)) OR push_bit 48 (ucast (b ! 6)) OR push_bit 56 (ucast (b ! 7))
  = (le_word b :: u64)"
  by (auto simp: numeral_eq_Suc length_Suc_conv push_bit_or push_bit_push_bit)

lemma word_of_unat: "unat w = n \<Longrightarrow> w = of_nat n"
  by auto

lemma pb_decode_fixed32_ok:
  assumes "is_ok s" "input s = b @ r" "length b = 4"
  obtains s' where "pb_decode_fixed32 s = Ok (of_nat (le_val b)) s'" "at_input r s s'"
proof -
  obtain s' where s': "pb_read 4 s = Ok b s'" "at_input r s s'"
    using pb_read_ok [OF assms(1,2), of 4] assms(3) by (auto simp: at_input_def)
  have "(le_word b :: u32) = of_nat (le_val b)" using assms(3) by (intro word_of_unat unat_le_word) simp
  then show thesis using that [of s'] s' le_word_32 [OF assms(3)] by (simp add: pb_decode_fixed32_def)
qed

lemma pb_decode_fixed64_ok:
  assumes "is_ok s" "input s = b @ r" "length b = 8"
  obtains s' where "pb_decode_fixed64 s = Ok (of_nat (le_val b)) s'" "at_input r s s'"
proof -
  obtain s' where s': "pb_read 8 s = Ok b s'" "at_input r s s'"
    using pb_read_ok [OF assms(1,2), of 8] assms(3) by (auto simp: at_input_def)
  have "(le_word b :: u64) = of_nat (le_val b)" using assms(3) by (intro word_of_unat unat_le_word) simp
  then show thesis using that [of s'] s' le_word_64 [OF assms(3)] by (simp add: pb_decode_fixed64_def)
qed

section \<open>Fields on the wire\<close>

datatype wire_val = WVarint u64 | W64 u64 | WString bytes | W32 u32

fun wire_type :: "wire_val \<Rightarrow> pb_wire_type" where
  "wire_type (WVarint _) = PB_WT_VARINT"
| "wire_type (W64 _) = PB_WT_64BIT"
| "wire_type (WString _) = PB_WT_STRING"
| "wire_type (W32 _) = PB_WT_32BIT"

fun wire_body :: "wire_val \<Rightarrow> bytes" where
  "wire_body (WVarint v) = leb (unat v)"
| "wire_body (W64 v) = le_bytes 8 (unat v)"
| "wire_body (WString d) = leb (length d) @ d"
| "wire_body (W32 v) = le_bytes 4 (unat v)"

definition wire_tag :: "u32 \<Rightarrow> pb_wire_type \<Rightarrow> bytes" where
  "wire_tag tag wt = leb (8 * unat tag + unat wt)"

fun wire_ok :: "wire_val \<Rightarrow> bool" where
  "wire_ok (WString d) \<longleftrightarrow> length d < 2 ^ 32"
| "wire_ok _ \<longleftrightarrow> True"

lemma wire_type_less: "unat (wire_type v) < 8"
  by (cases v) (simp_all add: wire_types)

lemma pb_decode_tag_ok:
  assumes "is_ok s" "input s = wire_tag tag wt @ r" "unat tag < 2 ^ 29" "unat wt < 8"
  obtains s' where "pb_decode_tag s = (Ok (wt, tag) s', False)" "at_input r s s'"
proof -
  let ?n = "8 * unat tag + unat wt"
  have n: "?n < 2 ^ 32" using assms(3,4) by simp
  obtain s' where s': "pb_decode_varint32 s = Ok (of_nat ?n) s'" "at_input r s s'"
    using pb_decode_varint32_leb [OF assms(1) _ n] assms(2) by (auto simp: wire_tag_def)
  have u: "unat (of_nat ?n :: u32) = ?n" using n by (simp add: unsigned_of_nat take_bit_nat_eq_self del: of_nat_add of_nat_mult)
  have seven: "(7 :: u32) = mask 3" by (simp add: mask_eq_exp_minus_1)
  have "unat (of_nat ?n AND 7 :: u32) = unat wt" unfolding seven unat_mask u using assms(4) by simp
  then have w: "(of_nat ?n AND 7 :: u32) = wt" unfolding word_unat_eq_iff .
  have "unat (drop_bit 3 (of_nat ?n) :: u32) = unat tag" unfolding unat_drop u using assms(4) by simp
  then have t: "(drop_bit 3 (of_nat ?n) :: u32) = tag" unfolding word_unat_eq_iff .
  have "input s \<noteq> []" using assms(2) leb_nonempty by (simp add: wire_tag_def)
  then have "snd (pb_decode_varint32_eof s) = False" using pb_decode_varint32_eof_snd [OF assms(1)] by simp
  moreover have "fst (pb_decode_varint32_eof s) = Ok (of_nat ?n) s'" using s'(1) by (simp add: pb_decode_varint32_def)
  ultimately have "pb_decode_tag s = (Ok (of_nat ?n AND 7, drop_bit 3 (of_nat ?n)) s', False)"
    unfolding pb_decode_tag_def by (simp only: case_prod_beta pb_bind_simps)
  then show thesis using that s'(2) unfolding w t by blast
qed

lemma pb_decode_tag_end:
  assumes "is_ok s" "input s = []"
  shows "snd (pb_decode_tag s)" and "fails ''end-of-stream'' s (fst (pb_decode_tag s))"
proof -
  show "snd (pb_decode_tag s)" using assms pb_decode_varint32_eof_snd [OF assms(1)] by (simp add: pb_decode_tag_def case_prod_beta)
  have "pb_readbyte s = is_error ''end-of-stream'' s" using assms by (intro pb_readbyte_end)
  then have "fst (pb_decode_varint32_eof s) = is_error ''end-of-stream'' s"
    by (simp add: pb_decode_varint32_eof_def is_error_def)
  then show "fails ''end-of-stream'' s (fst (pb_decode_tag s))"
    by (simp add: pb_decode_tag_def case_prod_beta is_error_def fails_def)
qed

section \<open>Skipping and reading values\<close>

lemma pb_read_at:
  assumes "is_ok s" "input s = d @ r" "length d = unat count"
  obtains s' where "pb_read count s = Ok d s'" "at_input r s s'"
  using pb_read_ok [OF assms] by (auto simp: at_input_def)

lemma pb_skip_string_ok:
  assumes "is_ok s" "input s = leb (length d) @ d @ r" "length d < 2 ^ 32"
  obtains s' where "pb_skip_string s = Ok () s'" "at_input r s s'"
proof -
  obtain t where t: "pb_decode_varint32 s = Ok (of_nat (length d)) t" "at_input (d @ r) s t"
    using pb_decode_varint32_leb [OF assms] .
  have i: "is_ok t" "input t = d @ r" using t(2) by (simp_all add: at_input_def)
  have "length d = unat (ucast (of_nat (length d) :: u32) :: u64)"
    using assms(3) by (simp add: unsigned_ucast_eq unsigned_of_nat take_bit_nat_eq_self)
  then obtain s' where "pb_read (ucast (of_nat (length d) :: u32)) t = Ok d s'" "at_input r t s'" using pb_read_at [OF i] by blast
  then show thesis using that t at_input_mono by (simp add: pb_skip_string_def)
qed

lemma pb_skip_field_simps:
  "pb_skip_field PB_WT_VARINT s = pb_skip_varint s"
  "pb_skip_field PB_WT_64BIT s = pb_bind (pb_read 8 s) (\<lambda>_ s. Ok () s)"
  "pb_skip_field PB_WT_STRING s = pb_skip_string s"
  "pb_skip_field PB_WT_32BIT s = pb_bind (pb_read 4 s) (\<lambda>_ s. Ok () s)"
  by (simp_all add: pb_skip_field_def wire_types)

lemma pb_skip_field_ok:
  assumes "is_ok s" "input s = wire_body v @ r" "wire_ok v"
  shows "\<exists>s'. pb_skip_field (wire_type v) s = Ok () s' \<and> at_input r s s'"
proof (cases v)
  case (WVarint x)
  have "leb_dec (input s) = Some (unat x, r)" using assms(2) WVarint by (simp add: leb_dec_leb)
  from pb_skip_varint_is [OF assms(1) this] show ?thesis using WVarint by (simp add: pb_skip_field_simps)
next
  case (W64 x)
  obtain s' where "pb_read 8 s = Ok (le_bytes 8 (unat x)) s'" "at_input r s s'"
    using pb_read_at [OF assms(1), of "le_bytes 8 (unat x)" r 8] assms(2) W64 by auto
  then show ?thesis using W64 by (simp add: pb_skip_field_simps)
next
  case (WString d)
  obtain s' where "pb_skip_string s = Ok () s'" "at_input r s s'"
    using pb_skip_string_ok [OF assms(1), of d r] assms(2,3) WString by auto
  then show ?thesis using WString by (simp add: pb_skip_field_simps)
next
  case (W32 x)
  obtain s' where "pb_read 4 s = Ok (le_bytes 4 (unat x)) s'" "at_input r s s'"
    using pb_read_at [OF assms(1), of "le_bytes 4 (unat x)" r 4] assms(2) W32 by auto
  then show ?thesis using W32 by (simp add: pb_skip_field_simps)
qed

text \<open>The substream of a string: it holds the string, and closing it puts the parent after it.\<close>

lemma adv_input:
  assumes "adv s s'" shows "input s' = drop (unat (is_bytes_left s) - unat (is_bytes_left s')) (input s)"
proof -
  obtain k where "unat (is_bytes_left s) = k + unat (is_bytes_left s')" "is_rest s' = drop k (is_rest s)"
    using assms by (auto simp only: adv_def)
  then show ?thesis by (simp add: input_def drop_take)
qed

lemma pb_substream_ok:
  assumes "is_ok s" "input s = leb (length d) @ d @ r" "length d < 2 ^ 32"
  obtains sub s1 where "pb_make_string_substream s = Ok sub s1" "is_ok sub" "input sub = d"
    "is_errmsg sub = is_errmsg s" "\<forall>sub'. adv sub sub' \<longrightarrow> (\<exists>s2. pb_close_string_substream sub' s1 = Ok () s2
      \<and> is_ok s2 \<and> input s2 = r \<and> is_errmsg s2 = is_errmsg sub')"
proof -
  obtain t where t: "pb_decode_varint32 s = Ok (of_nat (length d)) t" "at_input (d @ r) s t"
    using pb_decode_varint32_leb [OF assms] .
  have i: "is_ok t" "input t = d @ r" "is_errmsg t = is_errmsg s" using t(2) by (simp_all add: at_input_def)
  have u: "unat (ucast (of_nat (length d) :: u32) :: u64) = length d"
    using assms(3) by (simp add: unsigned_ucast_eq unsigned_of_nat take_bit_nat_eq_self)
  have l: "unat (is_bytes_left t) = length d + length r" using length_input [OF i(1)] i(2) by simp
  let ?n = "ucast (of_nat (length d) :: u32) :: u64"
  define sub where "sub = t\<lparr>is_bytes_left := ?n\<rparr>"
  define s1 where "s1 = t\<lparr>is_bytes_left := is_bytes_left t - ?n\<rparr>"
  have le: "unat ?n \<le> unat (is_bytes_left t)" using l u by simp
  have c: "\<not> is_bytes_left t < ?n" using le by (simp add: word_less_nat_alt)
  have left: "unat (is_bytes_left s1) = length r" unfolding s1_def using unat_sub_nowrap [OF le] l u by simp
  have "take (length d) (is_rest t) = d"
    using i(2) l by (simp add: input_def) (metis append_eq_conv_conj min.absorb1 take_take le_add1)
  then have sub: "is_ok sub" "input sub = d" unfolding sub_def using i(1) l u by (simp_all add: is_ok_def input_def)
  have make: "pb_make_string_substream s = Ok sub s1"
    using t(1) c by (simp add: pb_make_string_substream_def sub_def s1_def)
  have len: "unat (is_bytes_left s) = length (leb (length d)) + length d + length r"
    using length_input [OF assms(1)] assms(2) by simp
  have "\<exists>s2. pb_close_string_substream sub' s1 = Ok () s2 \<and> is_ok s2 \<and> input s2 = r \<and> is_errmsg s2 = is_errmsg sub'"
    if a: "adv sub sub'" for sub'
  proof -
    obtain s2 where s2: "pb_close_string_substream sub' s1 = Ok () s2" "adv s s2" "is_bytes_left s2 = is_bytes_left s1"
      "is_errmsg s2 = is_errmsg sub'" using close_substream [OF assms(1) make a] .
    have "input s2 = r" using adv_input [OF s2(2)] s2(3) left len assms(2) by simp
    then show ?thesis using s2 adv_ok [OF s2(2) assms(1)] by blast
  qed
  then show thesis using that [OF make] sub i(3) by (simp add: sub_def)
qed

section \<open>Properties\<close>

text \<open> C34. No reading function of the decoder is undefined on a stream whose \<open>bytes_left\<close> bytes are in memory, whatever
  they are: no number is shifted by its width or more, each function returns or fails, and the stream it leaves is what
  remains of the same memory, with no more bytes left than there are. \<open>read_raw_value\<close>, into a buffer of at least 8 bytes
  as its one caller has, never stores more bytes than the buffer holds.\<close>
theorem pb_readers_safe:
  assumes "is_ok s" "8 \<le> n"
  shows "safe s (pb_read count s) \<and> safe s (pb_decode_varint s) \<and> safe s (pb_decode_varint32 s)
    \<and> safe s (pb_decode_svarint s) \<and> safe s (pb_decode_bool s) \<and> safe s (pb_decode_fixed32 s) \<and> safe s (pb_decode_fixed64 s)
    \<and> safe s (fst (pb_decode_tag s)) \<and> safe s (pb_skip_varint s) \<and> safe s (pb_skip_string s) \<and> safe s (pb_skip_field wt s)
    \<and> safe s (read_raw_value wt n s)
    \<and> (case read_raw_value wt n s of Ok buf _ \<Rightarrow> length buf \<le> unat n | _ \<Rightarrow> True)"
proof -
  have n: "\<not> n < 8" using assms(2) by (simp add: not_less)
  show ?thesis
    using safe_read_raw [OF assms(1) n, of wt] raw_length [OF n, of wt s]
    by (intro conjI safes assms(1)) (auto split: outcome.splits)
qed

theorem pb_readers_safe_witness:
  "is_ok (pb_istream_from_buffer [0x80, 0x80] 2) \<and> safe (pb_istream_from_buffer [0x80, 0x80] 2) (read_raw_value 0 10 (pb_istream_from_buffer [0x80, 0x80] 2))"
proof -
  have ok: "is_ok (pb_istream_from_buffer [0x80, 0x80] 2)" by (simp add: is_ok_def pb_istream_from_buffer_def)
  have "(8 :: u64) \<le> 10" by simp
  then show ?thesis using ok pb_readers_safe [OF ok, of 10] by blast
qed

text \<open> C35. A field as protobuf puts it on the wire: \<open>pb_decode_tag\<close> returns its wire type and tag; then the reader for its
  type returns the value, a substream holds a string's bytes and closes after it, however much of it was read, and
  \<open>pb_skip_field\<close> skips exactly the value. At the end of the input \<open>pb_decode_tag\<close> reports it.\<close>
theorem pb_wire_field:
  assumes "is_ok s" "input s = wire_tag tag (wire_type v) @ wire_body v @ r" "unat tag < 2 ^ 29" "wire_ok v"
  shows "\<exists>s1. pb_decode_tag s = (Ok (wire_type v, tag) s1, False) \<and> at_input (wire_body v @ r) s s1
    \<and> (\<exists>s2. pb_skip_field (wire_type v) s1 = Ok () s2 \<and> at_input r s s2)
    \<and> (case v of WVarint x \<Rightarrow> \<exists>s2. pb_decode_varint s1 = Ok x s2 \<and> at_input r s s2
       | W64 x \<Rightarrow> \<exists>s2. pb_decode_fixed64 s1 = Ok x s2 \<and> at_input r s s2
       | W32 x \<Rightarrow> \<exists>s2. pb_decode_fixed32 s1 = Ok x s2 \<and> at_input r s s2
       | WString d \<Rightarrow> \<exists>sub p. pb_make_string_substream s1 = Ok sub p \<and> is_ok sub \<and> input sub = d
           \<and> (\<forall>sub'. adv sub sub' \<longrightarrow> (\<exists>s2. pb_close_string_substream sub' p = Ok () s2 \<and> is_ok s2 \<and> input s2 = r)))"
proof -
  obtain s1 where s1: "pb_decode_tag s = (Ok (wire_type v, tag) s1, False)" "at_input (wire_body v @ r) s s1"
    using pb_decode_tag_ok [OF assms(1,2,3) wire_type_less] .
  have i: "is_ok s1" "input s1 = wire_body v @ r" using s1(2) by (simp_all add: at_input_def)
  note after = at_input_mono [OF _ s1(2)]
  have skip: "\<exists>s2. pb_skip_field (wire_type v) s1 = Ok () s2 \<and> at_input r s s2"
    using pb_skip_field_ok [OF i assms(4)] after by blast
  have val: "case v of WVarint x \<Rightarrow> \<exists>s2. pb_decode_varint s1 = Ok x s2 \<and> at_input r s s2
       | W64 x \<Rightarrow> \<exists>s2. pb_decode_fixed64 s1 = Ok x s2 \<and> at_input r s s2
       | W32 x \<Rightarrow> \<exists>s2. pb_decode_fixed32 s1 = Ok x s2 \<and> at_input r s s2
       | WString d \<Rightarrow> \<exists>sub p. pb_make_string_substream s1 = Ok sub p \<and> is_ok sub \<and> input sub = d
           \<and> (\<forall>sub'. adv sub sub' \<longrightarrow> (\<exists>s2. pb_close_string_substream sub' p = Ok () s2 \<and> is_ok s2 \<and> input s2 = r))"
  proof (cases v)
    case (WVarint x)
    then obtain s2 where "pb_decode_varint s1 = Ok x s2" "at_input r s1 s2"
      using pb_decode_varint_leb [OF i(1), of x r] i(2) by auto
    then show ?thesis using WVarint after by auto
  next
    case (W64 x)
    have "(of_nat (le_val (le_bytes 8 (unat x))) :: u64) = x"
      using unat_lt_size [of x] by (simp add: le_val_bytes)
    then obtain s2 where "pb_decode_fixed64 s1 = Ok x s2" "at_input r s1 s2"
      using pb_decode_fixed64_ok [OF i(1), of "le_bytes 8 (unat x)" r] i(2) W64 by auto
    then show ?thesis using W64 after by auto
  next
    case (W32 x)
    have "(of_nat (le_val (le_bytes 4 (unat x))) :: u32) = x"
      using unat_lt_size [of x] by (simp add: le_val_bytes)
    then obtain s2 where "pb_decode_fixed32 s1 = Ok x s2" "at_input r s1 s2"
      using pb_decode_fixed32_ok [OF i(1), of "le_bytes 4 (unat x)" r] i(2) W32 by auto
    then show ?thesis using W32 after by auto
  next
    case (WString d)
    have h: "input s1 = leb (length d) @ d @ r" "length d < 2 ^ 32" using i(2) assms(4) WString by simp_all
    obtain sub p where p: "pb_make_string_substream s1 = Ok sub p" "is_ok sub" "input sub = d" "is_errmsg sub = is_errmsg s1"
      "\<forall>sub'. adv sub sub' \<longrightarrow> (\<exists>s2. pb_close_string_substream sub' p = Ok () s2 \<and> is_ok s2 \<and> input s2 = r \<and> is_errmsg s2 = is_errmsg sub')"
      using pb_substream_ok [OF i(1) h] .
    then have "\<forall>sub'. adv sub sub' \<longrightarrow> (\<exists>s2. pb_close_string_substream sub' p = Ok () s2 \<and> is_ok s2 \<and> input s2 = r)" by blast
    then show ?thesis unfolding WString wire_val.case using p(1,2,3) by blast
  qed
  show ?thesis using s1 skip val by blast
qed


theorem pb_wire_field_witness:
  "is_ok (pb_istream_from_buffer [0x12, 2, 65, 66, 0] 5) \<and> (\<exists>s1. pb_decode_tag (pb_istream_from_buffer [0x12, 2, 65, 66, 0] 5) = (Ok (wire_type (WString [65, 66]), 2) s1, False)
     \<and> (\<exists>s2. pb_skip_field (wire_type (WString [65, 66])) s1 = Ok () s2 \<and> at_input [0] (pb_istream_from_buffer [0x12, 2, 65, 66, 0] 5) s2))"
proof -
  have ok: "is_ok (pb_istream_from_buffer [0x12, 2, 65, 66, 0] 5)" by (simp add: is_ok_def pb_istream_from_buffer_def)
  have i: "input (pb_istream_from_buffer [0x12, 2, 65, 66, 0] 5) = wire_tag 2 (wire_type (WString [65, 66])) @ wire_body (WString [65, 66]) @ [0]"
    by (simp add: input_def pb_istream_from_buffer_def wire_tag_def wire_types leb_small)
  show ?thesis using ok pb_wire_field [OF ok i] by fastforce
qed

end
