(* ===== verification/PbIter.thy ===== *)
theory PbIter
  imports PbWire
begin

text \<open>
  Message descriptors of nanopb and the iterator over the fields of a message, \<open>pb.h\<close> and \<open>pb_common.c\<close>. The
  descriptors are constants that the generator writes; \<open>pb_size_t\<close> has 16 bits. The memory is a list of bytes, an
  address is an index into it and 0 is \<open>NULL\<close>. \<open>None\<close> is an undefined step or a loop that does not end.
\<close>

section \<open>Descriptors\<close>

type_synonym pb_type = u8
type_synonym pb_size = u16

definition PB_LTYPE_BOOL :: u8 where "PB_LTYPE_BOOL = 0x00"
definition PB_LTYPE_VARINT :: u8 where "PB_LTYPE_VARINT = 0x01"
definition PB_LTYPE_UVARINT :: u8 where "PB_LTYPE_UVARINT = 0x02"
definition PB_LTYPE_SVARINT :: u8 where "PB_LTYPE_SVARINT = 0x03"
definition PB_LTYPE_FIXED32 :: u8 where "PB_LTYPE_FIXED32 = 0x04"
definition PB_LTYPE_FIXED64 :: u8 where "PB_LTYPE_FIXED64 = 0x05"
definition PB_LTYPE_LAST_PACKABLE :: u8 where "PB_LTYPE_LAST_PACKABLE = 0x05"
definition PB_LTYPE_BYTES :: u8 where "PB_LTYPE_BYTES = 0x06"
definition PB_LTYPE_STRING :: u8 where "PB_LTYPE_STRING = 0x07"
definition PB_LTYPE_SUBMESSAGE :: u8 where "PB_LTYPE_SUBMESSAGE = 0x08"
definition PB_LTYPE_SUBMSG_W_CB :: u8 where "PB_LTYPE_SUBMSG_W_CB = 0x09"
definition PB_LTYPE_EXTENSION :: u8 where "PB_LTYPE_EXTENSION = 0x0A"
definition PB_LTYPE_FIXED_LENGTH_BYTES :: u8 where "PB_LTYPE_FIXED_LENGTH_BYTES = 0x0B"
definition PB_LTYPE_MASK :: u8 where "PB_LTYPE_MASK = 0x0F"
definition PB_HTYPE_REQUIRED :: u8 where "PB_HTYPE_REQUIRED = 0x00"
definition PB_HTYPE_OPTIONAL :: u8 where "PB_HTYPE_OPTIONAL = 0x10"
definition PB_HTYPE_REPEATED :: u8 where "PB_HTYPE_REPEATED = 0x20"
definition PB_HTYPE_ONEOF :: u8 where "PB_HTYPE_ONEOF = 0x30"
definition PB_HTYPE_MASK :: u8 where "PB_HTYPE_MASK = 0x30"
definition PB_ATYPE_STATIC :: u8 where "PB_ATYPE_STATIC = 0x00"
definition PB_ATYPE_POINTER :: u8 where "PB_ATYPE_POINTER = 0x80"
definition PB_ATYPE_CALLBACK :: u8 where "PB_ATYPE_CALLBACK = 0x40"
definition PB_ATYPE_MASK :: u8 where "PB_ATYPE_MASK = 0xC0"

definition PB_ATYPE :: "pb_type \<Rightarrow> u8" where "PB_ATYPE x = x AND PB_ATYPE_MASK"
definition PB_HTYPE :: "pb_type \<Rightarrow> u8" where "PB_HTYPE x = x AND PB_HTYPE_MASK"
definition PB_LTYPE :: "pb_type \<Rightarrow> u8" where "PB_LTYPE x = x AND PB_LTYPE_MASK"
definition PB_LTYPE_IS_SUBMSG :: "pb_type \<Rightarrow> bool" where
  "PB_LTYPE_IS_SUBMSG x \<longleftrightarrow> PB_LTYPE x = PB_LTYPE_SUBMESSAGE \<or> PB_LTYPE x = PB_LTYPE_SUBMSG_W_CB"

lemmas ltype_defs = PB_LTYPE_BOOL_def PB_LTYPE_VARINT_def PB_LTYPE_UVARINT_def PB_LTYPE_SVARINT_def PB_LTYPE_FIXED32_def
  PB_LTYPE_FIXED64_def PB_LTYPE_LAST_PACKABLE_def PB_LTYPE_BYTES_def PB_LTYPE_STRING_def PB_LTYPE_SUBMESSAGE_def
  PB_LTYPE_SUBMSG_W_CB_def PB_LTYPE_EXTENSION_def PB_LTYPE_FIXED_LENGTH_BYTES_def
lemmas htype_defs = PB_HTYPE_REQUIRED_def PB_HTYPE_OPTIONAL_def PB_HTYPE_REPEATED_def PB_HTYPE_ONEOF_def
lemmas atype_defs = PB_ATYPE_STATIC_def PB_ATYPE_POINTER_def PB_ATYPE_CALLBACK_def
lemmas type_masks = PB_LTYPE_def PB_HTYPE_def PB_ATYPE_def PB_LTYPE_MASK_def PB_HTYPE_MASK_def PB_ATYPE_MASK_def

text \<open>\<open>submsg_info\<close> without the \<open>NULL\<close> at its end. A \<open>field_callback\<close> is \<open>pb_default_field_callback\<close> or another function.\<close>

datatype pb_field_callback = NoCallback | DefaultCallback | OtherCallback

datatype pb_msgdesc = Msgdesc (field_info: "u32 list") (submsg_info: "pb_msgdesc list") (default_value: "bytes option")
  (field_callback: pb_field_callback) (field_count: pb_size) (required_field_count: pb_size) (largest_tag: pb_size)

text \<open>\<open>pSize\<close> points into the message, to the iterator's own \<open>array_size\<close> or to a counter of the decoder.\<close>

datatype pb_psize = SizeNULL | SizeAt nat | SizeArray | SizeFixed

record pb_field_iter =
  it_descriptor :: pb_msgdesc
  it_message :: nat
  it_index :: pb_size
  it_field_info_index :: pb_size
  it_required_field_index :: pb_size
  it_submessage_index :: pb_size
  it_tag :: pb_size
  it_data_size :: pb_size
  it_array_size :: pb_size
  it_type :: pb_type
  it_pField :: nat
  it_pData :: nat
  it_pSize :: pb_psize
  it_submsg_desc :: "pb_msgdesc option"

section \<open>Loading a field\<close>

definition info_word :: "pb_msgdesc \<Rightarrow> nat \<Rightarrow> u32 option" where
  "info_word d i = (if i < length (field_info d) then Some (field_info d ! i) else None)"

text \<open>What the words of a field say.\<close>

record pb_field_words =
  fw_type :: pb_type
  fw_array_size :: pb_size
  fw_tag :: pb_size
  fw_size_offset :: u8
  fw_data_offset :: u32
  fw_data_size :: pb_size

definition field_words :: "pb_msgdesc \<Rightarrow> nat \<Rightarrow> pb_field_words option" where
  "field_words d i = do {
     word0 \<leftarrow> info_word d i;
     if word0 AND 3 = 0 then
       Some \<lparr>fw_type = ucast (drop_bit 8 word0 AND 0xFF), fw_array_size = 1, fw_tag = ucast (drop_bit 2 word0 AND 0x3F),
         fw_size_offset = ucast (drop_bit 24 word0 AND 0x0F), fw_data_offset = drop_bit 16 word0 AND 0xFF,
         fw_data_size = ucast (drop_bit 28 word0 AND 0x0F)\<rparr>
     else if word0 AND 3 = 1 then do {
       word1 \<leftarrow> info_word d (i + 1);
       Some \<lparr>fw_type = ucast (drop_bit 8 word0 AND 0xFF), fw_array_size = ucast (drop_bit 16 word0 AND 0x0FFF),
         fw_tag = ucast ((drop_bit 2 word0 AND 0x3F) OR push_bit 6 (drop_bit 28 word1)),
         fw_size_offset = ucast (drop_bit 28 word0 AND 0x0F), fw_data_offset = word1 AND 0xFFFF,
         fw_data_size = ucast (drop_bit 16 word1 AND 0x0FFF)\<rparr> }
     else if word0 AND 3 = 2 then do {
       word1 \<leftarrow> info_word d (i + 1); word2 \<leftarrow> info_word d (i + 2); word3 \<leftarrow> info_word d (i + 3);
       Some \<lparr>fw_type = ucast (drop_bit 8 word0 AND 0xFF), fw_array_size = ucast (drop_bit 16 word0),
         fw_tag = ucast ((drop_bit 2 word0 AND 0x3F) OR push_bit 6 (drop_bit 8 word1)),
         fw_size_offset = ucast (word1 AND 0xFF), fw_data_offset = word2, fw_data_size = ucast word3\<rparr> }
     else do {
       word1 \<leftarrow> info_word d (i + 1); word2 \<leftarrow> info_word d (i + 2); word3 \<leftarrow> info_word d (i + 3);
       word4 \<leftarrow> info_word d (i + 4);
       Some \<lparr>fw_type = ucast (drop_bit 8 word0 AND 0xFF), fw_array_size = ucast word4,
         fw_tag = ucast ((drop_bit 2 word0 AND 0x3F) OR push_bit 6 (drop_bit 8 word1)),
         fw_size_offset = ucast (word1 AND 0xFF), fw_data_offset = word2, fw_data_size = ucast word3\<rparr> } }"

text \<open>A pointer of eight bytes in memory.\<close>

definition load_ptr :: "nat \<Rightarrow> bytes \<Rightarrow> nat option" where
  "load_ptr a mem = map_option le_val (mem_read a 8 mem)"

definition load_descriptor_values :: "bytes \<Rightarrow> pb_field_iter \<Rightarrow> (bool \<times> pb_field_iter) option" where
  "load_descriptor_values mem it =
     (if it_index it \<ge> field_count (it_descriptor it) then Some (False, it)
      else do {
        w \<leftarrow> field_words (it_descriptor it) (unat (it_field_info_index it));
        let it = it\<lparr>it_type := fw_type w, it_array_size := fw_array_size w, it_tag := fw_tag w, it_data_size := fw_data_size w\<rparr>;
        it \<leftarrow> (if it_message it = 0 then Some (it\<lparr>it_pField := 0, it_pSize := SizeNULL\<rparr>)
          else do {
            let pField = it_message it + unat (fw_data_offset w);
            pSize \<leftarrow> (if fw_size_offset w \<noteq> 0
              then if int pField - sint (fw_size_offset w) > 0 then Some (SizeAt (nat (int pField - sint (fw_size_offset w)))) else None
              else if PB_HTYPE (it_type it) = PB_HTYPE_REPEATED
                \<and> (PB_ATYPE (it_type it) = PB_ATYPE_STATIC \<or> PB_ATYPE (it_type it) = PB_ATYPE_POINTER) then Some SizeArray
              else Some SizeNULL);
            pData \<leftarrow> (if PB_ATYPE (it_type it) = PB_ATYPE_POINTER then load_ptr pField mem else Some pField);
            Some (it\<lparr>it_pField := pField, it_pSize := pSize, it_pData := pData\<rparr>) });
        sub \<leftarrow> (if PB_LTYPE_IS_SUBMSG (it_type it)
          then let k = unat (it_submessage_index it); info = submsg_info (it_descriptor it) in
            if k < length info then Some (Some (info ! k)) else if k = length info then Some None else None
          else Some None);
        Some (True, it\<lparr>it_submsg_desc := sub\<rparr>) })"

section \<open>Moving the iterator\<close>

definition advance_iterator :: "pb_field_iter \<Rightarrow> pb_field_iter option" where
  "advance_iterator it = (let it = it\<lparr>it_index := it_index it + 1\<rparr> in
     if it_index it \<ge> field_count (it_descriptor it)
     then Some (it\<lparr>it_index := 0, it_field_info_index := 0, it_submessage_index := 0, it_required_field_index := 0\<rparr>)
     else do {
       prev_descriptor \<leftarrow> info_word (it_descriptor it) (unat (it_field_info_index it));
       let prev_type = ucast (drop_bit 8 prev_descriptor AND 0xFF);
       let descriptor_len = push_bit (unat (prev_descriptor AND 3)) 1;
       Some (it\<lparr>it_field_info_index := it_field_info_index it + descriptor_len,
         it_required_field_index := it_required_field_index it + (if PB_HTYPE prev_type = PB_HTYPE_REQUIRED then 1 else 0),
         it_submessage_index := it_submessage_index it + (if PB_LTYPE_IS_SUBMSG prev_type then 1 else 0)\<rparr>) })"

definition pb_field_iter_begin :: "bytes \<Rightarrow> pb_msgdesc \<Rightarrow> nat \<Rightarrow> (bool \<times> pb_field_iter) option" where
  "pb_field_iter_begin mem desc message = load_descriptor_values mem
     \<lparr>it_descriptor = desc, it_message = message, it_index = 0, it_field_info_index = 0, it_required_field_index = 0,
      it_submessage_index = 0, it_tag = 0, it_data_size = 0, it_array_size = 0, it_type = 0, it_pField = 0, it_pData = 0,
      it_pSize = SizeNULL, it_submsg_desc = None\<rparr>"

definition pb_field_iter_next :: "bytes \<Rightarrow> pb_field_iter \<Rightarrow> (bool \<times> pb_field_iter) option" where
  "pb_field_iter_next mem it = do {
     it \<leftarrow> advance_iterator it;
     (_, it) \<leftarrow> load_descriptor_values mem it;
     Some (it_index it \<noteq> 0, it) }"

text \<open>
  An extension of 32 bytes at \<open>ext\<close>: \<open>type\<close>, \<open>dest\<close>, \<open>next\<close> and \<open>found\<close>. \<open>msg\<close> is the descriptor that its type
  holds.
\<close>

definition pb_field_iter_begin_extension :: "bytes \<Rightarrow> nat \<Rightarrow> pb_msgdesc \<Rightarrow> (bool \<times> pb_field_iter) option" where
  "pb_field_iter_begin_extension mem ext msg = do {
     word0 \<leftarrow> info_word msg 0;
     dest \<leftarrow> (if PB_ATYPE (ucast (drop_bit 8 word0)) = PB_ATYPE_POINTER then Some (ext + 8) else load_ptr (ext + 8) mem);
     (status, it) \<leftarrow> pb_field_iter_begin mem msg dest;
     Some (status, it\<lparr>it_pSize := SizeAt (ext + 24)\<rparr>) }"

text \<open>The loop of \<open>pb_field_iter_find\<close>, from a turn on; and that of \<open>pb_field_iter_find_extension\<close>.\<close>

partial_function (option) find_loop :: "bytes \<Rightarrow> u32 \<Rightarrow> pb_size \<Rightarrow> pb_field_iter \<Rightarrow> (bool \<times> pb_field_iter) option" where
  "find_loop mem tag start it =
     Option.bind (advance_iterator it) (\<lambda>it.
     Option.bind (info_word (it_descriptor it) (unat (it_field_info_index it))) (\<lambda>fieldinfo.
     Option.bind (if drop_bit 2 fieldinfo AND 0x3F = tag AND 0x3F then load_descriptor_values mem it else Some (False, it)) (\<lambda>(l, it').
       if drop_bit 2 fieldinfo AND 0x3F = tag AND 0x3F \<and> ucast (it_tag it') = tag \<and> PB_LTYPE (it_type it') \<noteq> PB_LTYPE_EXTENSION
       then Some (True, it')
       else if it_index it' \<noteq> start then find_loop mem tag start it'
       else Option.bind (load_descriptor_values mem it') (\<lambda>(_, it). Some (False, it)))))"

definition pb_field_iter_find :: "bytes \<Rightarrow> u32 \<Rightarrow> pb_field_iter \<Rightarrow> (bool \<times> pb_field_iter) option" where
  "pb_field_iter_find mem tag it =
     (if ucast (it_tag it) = tag then Some (True, it)
      else if tag > ucast (largest_tag (it_descriptor it)) then Some (False, it)
      else find_loop mem tag (it_index it)
        (if tag < ucast (it_tag it) then it\<lparr>it_index := field_count (it_descriptor it)\<rparr> else it))"

partial_function (option) find_ext_loop :: "bytes \<Rightarrow> pb_size \<Rightarrow> pb_field_iter \<Rightarrow> (bool \<times> pb_field_iter) option" where
  "find_ext_loop mem start it =
     Option.bind (advance_iterator it) (\<lambda>it.
     Option.bind (info_word (it_descriptor it) (unat (it_field_info_index it))) (\<lambda>fieldinfo.
       if PB_LTYPE (ucast (drop_bit 8 fieldinfo AND 0xFF)) = PB_LTYPE_EXTENSION then load_descriptor_values mem it
       else if it_index it \<noteq> start then find_ext_loop mem start it
       else Option.bind (load_descriptor_values mem it) (\<lambda>(_, it). Some (False, it))))"

definition pb_field_iter_find_extension :: "bytes \<Rightarrow> pb_field_iter \<Rightarrow> (bool \<times> pb_field_iter) option" where
  "pb_field_iter_find_extension mem it =
     (if PB_LTYPE (it_type it) = PB_LTYPE_EXTENSION then Some (True, it) else find_ext_loop mem (it_index it) it)"

section \<open>The fields of a message\<close>

text \<open>Field \<open>k\<close> of a descriptor starts at the word \<open>word_pos d k\<close>; before it are \<open>req_before d k\<close> required fields and
  \<open>sub_before d k\<close> submessages.\<close>

definition word_type :: "pb_msgdesc \<Rightarrow> nat \<Rightarrow> pb_type" where
  "word_type d i = ucast (drop_bit 8 (field_info d ! i) AND 0xFF)"

fun word_pos :: "pb_msgdesc \<Rightarrow> nat \<Rightarrow> nat" where
  "word_pos d 0 = 0"
| "word_pos d (Suc k) = word_pos d k + 2 ^ unat (field_info d ! word_pos d k AND 3)"

fun req_before :: "pb_msgdesc \<Rightarrow> nat \<Rightarrow> nat" where
  "req_before d 0 = 0"
| "req_before d (Suc k) = req_before d k + (if PB_HTYPE (word_type d (word_pos d k)) = PB_HTYPE_REQUIRED then 1 else 0)"

fun sub_before :: "pb_msgdesc \<Rightarrow> nat \<Rightarrow> nat" where
  "sub_before d 0 = 0"
| "sub_before d (Suc k) = sub_before d k + (if PB_LTYPE_IS_SUBMSG (word_type d (word_pos d k)) then 1 else 0)"

abbreviation n_fields :: "pb_msgdesc \<Rightarrow> nat" where
  "n_fields d \<equiv> unat (field_count d)"

definition field_at :: "pb_msgdesc \<Rightarrow> nat \<Rightarrow> pb_field_words" where
  "field_at d k = the (field_words d (word_pos d k))"

text \<open>What the generator guarantees of a descriptor: its words are there, and the tags increase up to \<open>largest_tag\<close>.\<close>

definition desc_ok :: "pb_msgdesc \<Rightarrow> bool" where
  "desc_ok d \<longleftrightarrow> n_fields d < 2 ^ 16 - 1 \<and> word_pos d (n_fields d) < 2 ^ 16
     \<and> (\<forall>k<n_fields d. field_words d (word_pos d k) \<noteq> None)
     \<and> sub_before d (n_fields d) \<le> length (submsg_info d)
     \<and> (\<forall>k<n_fields d. fw_tag (field_at d k) \<le> largest_tag d)
     \<and> (\<forall>j<n_fields d. \<forall>i<j. fw_tag (field_at d i) < fw_tag (field_at d j))"

definition pos_iter :: "pb_msgdesc \<Rightarrow> nat \<Rightarrow> nat \<Rightarrow> pb_field_iter" where
  "pos_iter d msg k = \<lparr>it_descriptor = d, it_message = msg, it_index = of_nat k, it_field_info_index = of_nat (word_pos d k),
     it_required_field_index = of_nat (req_before d k), it_submessage_index = of_nat (sub_before d k), it_tag = 0,
     it_data_size = 0, it_array_size = 0, it_type = 0, it_pField = 0, it_pData = 0, it_pSize = SizeNULL, it_submsg_desc = None\<rparr>"

definition at_pos :: "pb_msgdesc \<Rightarrow> nat \<Rightarrow> nat \<Rightarrow> pb_field_iter \<Rightarrow> bool" where
  "at_pos d msg k it \<longleftrightarrow> it_descriptor it = d \<and> it_message it = msg \<and> it_index it = of_nat k
     \<and> it_field_info_index it = of_nat (word_pos d k) \<and> it_required_field_index it = of_nat (req_before d k)
     \<and> it_submessage_index it = of_nat (sub_before d k)"

text \<open>The iterator at field \<open>k\<close>, loaded. The pointers of pointer fields are in memory.\<close>

definition loadable :: "bytes \<Rightarrow> pb_msgdesc \<Rightarrow> nat \<Rightarrow> bool" where
  "loadable mem d msg \<longleftrightarrow> (\<forall>k<n_fields d. load_descriptor_values mem (pos_iter d msg k) \<noteq> None)"

definition iter_at :: "bytes \<Rightarrow> pb_msgdesc \<Rightarrow> nat \<Rightarrow> nat \<Rightarrow> pb_field_iter" where
  "iter_at mem d msg k = snd (the (load_descriptor_values mem (pos_iter d msg k)))"

lemma at_pos_iter: "at_pos d msg k (pos_iter d msg k)"
  by (simp add: at_pos_def pos_iter_def)

lemma unat_index: "k < 2 ^ 16 \<Longrightarrow> unat (of_nat k :: u16) = k"
  by (simp add: unsigned_of_nat take_bit_nat_eq_self)

lemma desc_okD:
  assumes "desc_ok d"
  shows "n_fields d < 2 ^ 16 - 1" "word_pos d (n_fields d) < 2 ^ 16" "sub_before d (n_fields d) \<le> length (submsg_info d)"
    "k < n_fields d \<Longrightarrow> fw_tag (field_at d k) \<le> largest_tag d"
    "j < n_fields d \<Longrightarrow> i < j \<Longrightarrow> fw_tag (field_at d i) < fw_tag (field_at d j)"
    "k < n_fields d \<Longrightarrow> field_words d (word_pos d k) = Some (field_at d k)"
  using assms unfolding desc_ok_def field_at_def by auto

lemma word_pos_mono: "j \<le> k \<Longrightarrow> word_pos d j \<le> word_pos d k"
  by (induction k) (auto simp: le_Suc_eq)

lemma load_pos:
  assumes "at_pos d msg k it" "k < n_fields d" "n_fields d < 2 ^ 16 - 1" "msg \<noteq> 0"
  shows "load_descriptor_values mem it = load_descriptor_values mem (pos_iter d msg k)"
proof -
  have "\<not> field_count (it_descriptor it) \<le> it_index it"
    using assms unat_index [of k] by (simp add: at_pos_def word_le_nat_alt)
  then show ?thesis using assms unfolding load_descriptor_values_def at_pos_def
    by (cases it) (simp add: pos_iter_def Let_def bind_eq_Some_conv cong: if_cong)
qed


text \<open>The next position, and the iterator moving to it.\<close>

definition succ_pos :: "pb_msgdesc \<Rightarrow> nat \<Rightarrow> nat" where
  "succ_pos d k = (if Suc k < n_fields d then Suc k else 0)"

lemma word_pos_word:
  assumes "desc_ok d" "k < n_fields d"
  shows "info_word d (word_pos d k) = Some (field_info d ! word_pos d k)"
proof -
  have "field_words d (word_pos d k) = Some (field_at d k)" using desc_okD(6) [OF assms] .
  then show ?thesis by (cases "word_pos d k < length (field_info d)") (auto simp: field_words_def info_word_def)
qed

lemma before_le: "req_before d k \<le> k" "sub_before d k \<le> k"
  by (induction k) auto

lemma advance_pos:
  assumes "desc_ok d" "at_pos d msg k it" "k < n_fields d"
  shows "\<exists>it'. advance_iterator it = Some it' \<and> at_pos d msg (succ_pos d k) it'"
proof -
  have n: "n_fields d < 2 ^ 16 - 1" using desc_okD(1) [OF assms(1)] .
  have i: "it_index it + 1 = of_nat (Suc k)" using assms(2) by (simp add: at_pos_def)
  have ge: "it_index it + 1 \<ge> field_count d \<longleftrightarrow> \<not> Suc k < n_fields d"
    unfolding i word_le_nat_alt using n assms(3) unat_index [of "Suc k"] by auto
  have ki: "k < 2 ^ 16" using assms(3) n by simp
  have wp: "word_pos d k < 2 ^ 16" using word_pos_mono [of k "n_fields d" d] assms(3) desc_okD(2) [OF assms(1)] by simp
  show ?thesis
  proof (cases "Suc k < n_fields d")
    case False
    then show ?thesis using assms(2) ge by (simp add: advance_iterator_def at_pos_def succ_pos_def)
  next
    case True
    have u: "unat (it_field_info_index it) = word_pos d k" using assms(2) wp unat_index by (simp add: at_pos_def)
    show ?thesis using True assms(2) ge word_pos_word [OF assms(1,3)] u
      by (simp add: advance_iterator_def at_pos_def succ_pos_def word_type_def Let_def push_bit_eq_mult add.commute)
  qed
qed

lemma load_at:
  assumes "desc_ok d" "loadable mem d msg" "msg \<noteq> 0" "at_pos d msg k it" "k < n_fields d"
  shows "load_descriptor_values mem it = Some (True, iter_at mem d msg k)"
proof -
  have n: "n_fields d < 2 ^ 16 - 1" using desc_okD(1) [OF assms(1)] .
  obtain b it' where l: "load_descriptor_values mem (pos_iter d msg k) = Some (b, it')"
    using assms(2,5) by (auto simp: loadable_def)
  have "\<not> field_count d \<le> of_nat k" using unat_index [of k] assms(5) n by (simp add: word_le_nat_alt)
  then have b using l by (auto simp: load_descriptor_values_def pos_iter_def Let_def bind_eq_Some_conv)
  then show ?thesis using load_pos [OF assms(4,5) n assms(3)] l by (simp add: iter_at_def)
qed


text \<open>What loading a field yields, in one equation.\<close>

definition size_ptr :: "pb_field_words \<Rightarrow> nat \<Rightarrow> pb_psize option" where
  "size_ptr w pField = (if fw_size_offset w \<noteq> 0
     then if int pField - sint (fw_size_offset w) > 0 then Some (SizeAt (nat (int pField - sint (fw_size_offset w)))) else None
     else if PB_HTYPE (fw_type w) = PB_HTYPE_REPEATED \<and> (PB_ATYPE (fw_type w) = PB_ATYPE_STATIC \<or> PB_ATYPE (fw_type w) = PB_ATYPE_POINTER)
       then Some SizeArray else Some SizeNULL)"

definition data_ptr :: "bytes \<Rightarrow> pb_field_words \<Rightarrow> nat \<Rightarrow> nat option" where
  "data_ptr mem w pField = (if PB_ATYPE (fw_type w) = PB_ATYPE_POINTER then load_ptr pField mem else Some pField)"

definition sub_desc :: "pb_msgdesc \<Rightarrow> pb_field_words \<Rightarrow> nat \<Rightarrow> pb_msgdesc option option" where
  "sub_desc d w k = (if PB_LTYPE_IS_SUBMSG (fw_type w)
     then if k < length (submsg_info d) then Some (Some (submsg_info d ! k)) else if k = length (submsg_info d) then Some None else None
     else Some None)"

lemma load_descriptor_values_is:
  assumes "\<not> field_count (it_descriptor it) \<le> it_index it" "it_message it \<noteq> 0"
    "field_words (it_descriptor it) (unat (it_field_info_index it)) = Some w"
  shows "load_descriptor_values mem it =
    Option.bind (size_ptr w (it_message it + unat (fw_data_offset w))) (\<lambda>pSize.
    Option.bind (data_ptr mem w (it_message it + unat (fw_data_offset w))) (\<lambda>pData.
    Option.bind (sub_desc (it_descriptor it) w (unat (it_submessage_index it))) (\<lambda>sub.
      Some (True, it\<lparr>it_type := fw_type w, it_array_size := fw_array_size w, it_tag := fw_tag w, it_data_size := fw_data_size w,
        it_pField := it_message it + unat (fw_data_offset w), it_pSize := pSize, it_pData := pData, it_submsg_desc := sub\<rparr>))))"
  using assms unfolding load_descriptor_values_def size_ptr_def data_ptr_def sub_desc_def
  by (simp add: Let_def bind_assoc cong: if_cong)

lemma load_pos_iter:
  assumes "desc_ok d" "msg \<noteq> 0" "k < n_fields d"
  shows "load_descriptor_values mem (pos_iter d msg k) =
    Option.bind (size_ptr (field_at d k) (msg + unat (fw_data_offset (field_at d k)))) (\<lambda>pSize.
    Option.bind (data_ptr mem (field_at d k) (msg + unat (fw_data_offset (field_at d k)))) (\<lambda>pData.
    Option.bind (sub_desc d (field_at d k) (sub_before d k)) (\<lambda>sub.
      Some (True, (pos_iter d msg k)\<lparr>it_type := fw_type (field_at d k), it_array_size := fw_array_size (field_at d k),
        it_tag := fw_tag (field_at d k), it_data_size := fw_data_size (field_at d k),
        it_pField := msg + unat (fw_data_offset (field_at d k)), it_pSize := pSize, it_pData := pData, it_submsg_desc := sub\<rparr>))))"
proof -
  have n: "n_fields d < 2 ^ 16 - 1" using desc_okD(1) [OF assms(1)] .
  have wp: "word_pos d k < 2 ^ 16" using word_pos_mono [of k "n_fields d" d] assms(3) desc_okD(2) [OF assms(1)] by simp
  have sb: "sub_before d k < 2 ^ 16" using before_le(2) [of d k] assms(3) n by simp
  have u: "unat (it_field_info_index (pos_iter d msg k)) = word_pos d k" "unat (it_submessage_index (pos_iter d msg k)) = sub_before d k"
    using unat_index [OF wp] unat_index [OF sb] by (simp_all add: pos_iter_def)
  have p: "it_descriptor (pos_iter d msg k) = d" "it_message (pos_iter d msg k) = msg" by (simp_all add: pos_iter_def)
  have c: "\<not> field_count (it_descriptor (pos_iter d msg k)) \<le> it_index (pos_iter d msg k)"
    using unat_index [of k] assms(3) n by (simp add: pos_iter_def word_le_nat_alt)
  have w: "field_words (it_descriptor (pos_iter d msg k)) (unat (it_field_info_index (pos_iter d msg k))) = Some (field_at d k)"
    using desc_okD(6) [OF assms(1,3)] unfolding u p .
  show ?thesis by (rule load_descriptor_values_is [OF c _ w, unfolded p u, OF assms(2)])
qed

lemma iter_at_fields:
  assumes "desc_ok d" "loadable mem d msg" "msg \<noteq> 0" "k < n_fields d"
  shows "at_pos d msg k (iter_at mem d msg k)" "it_tag (iter_at mem d msg k) = fw_tag (field_at d k)"
    "it_type (iter_at mem d msg k) = fw_type (field_at d k)" "it_data_size (iter_at mem d msg k) = fw_data_size (field_at d k)"
    "it_array_size (iter_at mem d msg k) = fw_array_size (field_at d k)"
    "it_pField (iter_at mem d msg k) = msg + unat (fw_data_offset (field_at d k))"
    "data_ptr mem (field_at d k) (msg + unat (fw_data_offset (field_at d k))) = Some (it_pData (iter_at mem d msg k))"
    "size_ptr (field_at d k) (msg + unat (fw_data_offset (field_at d k))) = Some (it_pSize (iter_at mem d msg k))"
    "sub_desc d (field_at d k) (sub_before d k) = Some (it_submsg_desc (iter_at mem d msg k))"
proof -
  have l: "load_descriptor_values mem (pos_iter d msg k) = Some (True, iter_at mem d msg k)"
    using load_at [OF assms(1-3) at_pos_iter assms(4)] .
  obtain pSize pData sub where b: "size_ptr (field_at d k) (msg + unat (fw_data_offset (field_at d k))) = Some pSize"
    "data_ptr mem (field_at d k) (msg + unat (fw_data_offset (field_at d k))) = Some pData"
    "sub_desc d (field_at d k) (sub_before d k) = Some sub"
    "iter_at mem d msg k = (pos_iter d msg k)\<lparr>it_type := fw_type (field_at d k), it_array_size := fw_array_size (field_at d k),
      it_tag := fw_tag (field_at d k), it_data_size := fw_data_size (field_at d k),
      it_pField := msg + unat (fw_data_offset (field_at d k)), it_pSize := pSize, it_pData := pData, it_submsg_desc := sub\<rparr>"
    using l unfolding load_pos_iter [OF assms(1,3,4)]
    by (auto simp: bind_eq_Some_conv)
  show "at_pos d msg k (iter_at mem d msg k)" "it_tag (iter_at mem d msg k) = fw_tag (field_at d k)"
    "it_type (iter_at mem d msg k) = fw_type (field_at d k)" "it_data_size (iter_at mem d msg k) = fw_data_size (field_at d k)"
    "it_array_size (iter_at mem d msg k) = fw_array_size (field_at d k)"
    "it_pField (iter_at mem d msg k) = msg + unat (fw_data_offset (field_at d k))"
    "data_ptr mem (field_at d k) (msg + unat (fw_data_offset (field_at d k))) = Some (it_pData (iter_at mem d msg k))"
    "size_ptr (field_at d k) (msg + unat (fw_data_offset (field_at d k))) = Some (it_pSize (iter_at mem d msg k))"
    "sub_desc d (field_at d k) (sub_before d k) = Some (it_submsg_desc (iter_at mem d msg k))"
    using at_pos_iter [of d msg k] unfolding b by (simp_all add: at_pos_def)
qed

text \<open>The fast check of the tag number looks at six of its bits.\<close>

lemma tag_bits:
  assumes "field_words d i = Some w" "info_word d i = Some word0"
  shows "ucast (fw_tag w) AND 0x3F = drop_bit 2 word0 AND (0x3F :: u32)"
proof -
  have m: "(0x3F :: u32) = mask 6" by (simp add: mask_eq_exp_minus_1)
  have a: "ucast (ucast (drop_bit 2 word0 AND mask 6) :: u16) AND mask 6 = drop_bit 2 word0 AND (mask 6 :: u32)"
    by (rule bit_word_eqI) (auto simp: bit_simps)
  have b: "ucast (ucast ((drop_bit 2 word0 AND mask 6) OR push_bit 6 v) :: u16) AND mask 6 = drop_bit 2 word0 AND (mask 6 :: u32)" for v
    by (rule bit_word_eqI) (auto simp: bit_simps)
  show ?thesis using assms unfolding field_words_def m by (auto simp: bind_eq_Some_conv a b split: if_splits)
qed

text \<open>The scan that \<open>pb_field_iter_find\<close> does: from a position on, around to where it started.\<close>

definition hit :: "pb_msgdesc \<Rightarrow> u32 \<Rightarrow> nat \<Rightarrow> bool" where
  "hit d tag k \<longleftrightarrow> ucast (fw_tag (field_at d k)) = tag \<and> PB_LTYPE (fw_type (field_at d k)) \<noteq> PB_LTYPE_EXTENSION"

definition scan :: "pb_msgdesc \<Rightarrow> u32 \<Rightarrow> nat list \<Rightarrow> nat option" where
  "scan d tag ks = find (hit d tag) ks"

fun round_from :: "pb_msgdesc \<Rightarrow> nat \<Rightarrow> nat \<Rightarrow> nat list" where
  "round_from d 0 k = [k]"
| "round_from d (Suc m) k = k # round_from d m (succ_pos d k)"

lemma index_inj: "a < 2 ^ 16 \<Longrightarrow> b < 2 ^ 16 \<Longrightarrow> (of_nat a :: u16) = of_nat b \<longleftrightarrow> a = b"
  using unat_index [of a] unat_index [of b] by (auto simp: word_unat_eq_iff)

lemma find_step:
  assumes "desc_ok d" "loadable mem d msg" "msg \<noteq> 0" "start < n_fields d"
    "advance_iterator it = Some it1" "at_pos d msg q it1" "q < n_fields d"
  shows "\<exists>it'. at_pos d msg q it' \<and> find_loop mem tag (of_nat start) it =
    (if hit d tag q then Some (True, iter_at mem d msg q)
     else if q \<noteq> start then find_loop mem tag (of_nat start) it' else Some (False, iter_at mem d msg start))"
proof -
  have n: "n_fields d < 2 ^ 16 - 1" using desc_okD(1) [OF assms(1)] .
  have wp: "word_pos d q < 2 ^ 16" using word_pos_mono [of q "n_fields d" d] assms(7) desc_okD(2) [OF assms(1)] by simp
  define w0 where "w0 = field_info d ! word_pos d q"
  have info: "info_word (it_descriptor it1) (unat (it_field_info_index it1)) = Some w0"
    using assms(6) word_pos_word [OF assms(1,7)] unat_index [OF wp] by (simp add: at_pos_def w0_def)
  have load: "load_descriptor_values mem x = Some (True, iter_at mem d msg q)" if "at_pos d msg q x" for x
    using load_at [OF assms(1-3) that assms(7)] .
  note at = iter_at_fields(1-3) [OF assms(1-3,7)]
  have idx: "it_index x = of_nat start \<longleftrightarrow> q = start" if "at_pos d msg q x" for x
    using that index_inj [of q start] assms(4,7) n by (simp add: at_pos_def)
  have bits: "ucast (fw_tag (field_at d q)) AND 0x3F = drop_bit 2 w0 AND (0x3F :: u32)"
    using tag_bits [OF desc_okD(6) [OF assms(1,7)] word_pos_word [OF assms(1,7)]] by (simp add: w0_def)
  show ?thesis
  proof (cases "drop_bit 2 w0 AND 0x3F = tag AND 0x3F")
    case True
    have "find_loop mem tag (of_nat start) it =
      (if hit d tag q then Some (True, iter_at mem d msg q)
       else if q \<noteq> start then find_loop mem tag (of_nat start) (iter_at mem d msg q) else Some (False, iter_at mem d msg start))"
      using True idx [OF at(1)] at(2,3) assms(5) load [OF assms(6)] load [OF at(1)] info
      by (subst find_loop.simps) (cases "q = start"; simp add: hit_def)
    then show ?thesis using at(1) by blast
  next
    case False
    then have "\<not> hit d tag q" using bits by (auto simp: hit_def)
    then have "find_loop mem tag (of_nat start) it =
      (if hit d tag q then Some (True, iter_at mem d msg q)
       else if q \<noteq> start then find_loop mem tag (of_nat start) it1 else Some (False, iter_at mem d msg start))"
      using False idx [OF assms(6)] assms(5) load [OF assms(6)] info
      by (subst find_loop.simps) (cases "q = start"; simp)
    then show ?thesis using assms(6) by blast
  qed
qed

lemma succ_pos_less: "q < n_fields d \<Longrightarrow> succ_pos d q < n_fields d"
  by (auto simp: succ_pos_def)

lemma find_loop_scan:
  assumes ok: "desc_ok d" "loadable mem d msg" "msg \<noteq> 0" "start < n_fields d"
  shows "advance_iterator it = Some it1 \<Longrightarrow> at_pos d msg q it1 \<Longrightarrow> q < n_fields d \<Longrightarrow>
    (succ_pos d ^^ m) q = start \<Longrightarrow> (\<forall>i<m. (succ_pos d ^^ i) q \<noteq> start) \<Longrightarrow>
    find_loop mem tag (of_nat start) it = (case scan d tag (round_from d m q) of
      Some j \<Rightarrow> Some (True, iter_at mem d msg j) | None \<Rightarrow> Some (False, iter_at mem d msg start))"
proof (induction m arbitrary: it it1 q)
  case 0
  then show ?case using find_step [OF ok 0(1-3), of tag] by (auto simp: scan_def)
next
  case (Suc m)
  obtain it' where it': "at_pos d msg q it'" "find_loop mem tag (of_nat start) it =
    (if hit d tag q then Some (True, iter_at mem d msg q)
     else if q \<noteq> start then find_loop mem tag (of_nat start) it' else Some (False, iter_at mem d msg start))"
    using find_step [OF ok Suc.prems(1-3)] by blast
  have "q \<noteq> start" using Suc.prems(5) by force
  obtain it2 where it2: "advance_iterator it' = Some it2" "at_pos d msg (succ_pos d q) it2"
    using advance_pos [OF ok(1) it'(1) Suc.prems(3)] by blast
  have "(succ_pos d ^^ m) (succ_pos d q) = start" using Suc.prems(4) by (simp add: funpow_swap1)
  moreover have "\<forall>i<m. (succ_pos d ^^ i) (succ_pos d q) \<noteq> start"
    using Suc.prems(5) by (metis Suc_mono funpow_simps_right(2) o_apply)
  ultimately have "find_loop mem tag (of_nat start) it' = (case scan d tag (round_from d m (succ_pos d q)) of
      Some j \<Rightarrow> Some (True, iter_at mem d msg j) | None \<Rightarrow> Some (False, iter_at mem d msg start))"
    using Suc.IH [OF it2 succ_pos_less [OF Suc.prems(3)]] by blast
  then show ?case using it'(2) \<open>q \<noteq> start\<close> by (auto simp: scan_def)
qed

lemma succ_pos_funpow: "q < n_fields d \<Longrightarrow> (succ_pos d ^^ i) q = (q + i) mod n_fields d"
proof (induction i)
  case (Suc i)
  have "(q + i) mod n_fields d < n_fields d" using Suc.prems by (intro mod_less_divisor) simp
  then have "succ_pos d ((q + i) mod n_fields d) = Suc (q + i) mod n_fields d"
    by (auto simp: succ_pos_def mod_Suc)
  then show ?case using Suc by simp
qed simp

lemma set_round_from: "set (round_from d m q) = (\<lambda>i. (succ_pos d ^^ i) q) ` {..m}"
proof (induction m arbitrary: q)
  case (Suc m)
  show ?case unfolding atMost_Suc_eq_insert_0 image_insert image_image using Suc by (simp add: funpow_swap1)
qed simp

lemma unat_ucast_tag: "unat (ucast (x :: u16) :: u32) = unat x"
  using unat_lt_size [of x] by (simp add: unat_ucast_fit)

lemma scan_hit:
  assumes "desc_ok d" "\<forall>j\<in>set ks. j < n_fields d"
  shows "j \<in> set ks \<Longrightarrow> hit d tag j \<Longrightarrow> scan d tag ks = Some j" and "(\<forall>j\<in>set ks. \<not> hit d tag j) \<Longrightarrow> scan d tag ks = None"
proof -
  have uniq: "i = j" if "i < n_fields d" "j < n_fields d" "hit d tag i" "hit d tag j" for i j
  proof -
    have "(ucast (fw_tag (field_at d i)) :: u32) = ucast (fw_tag (field_at d j))" using that(3,4) by (simp add: hit_def)
    then have "fw_tag (field_at d i) = fw_tag (field_at d j)" by (metis unat_ucast_tag word_unat_eq_iff)
    then show ?thesis using desc_okD(5) [OF assms(1)] that(1,2) by (metis less_irrefl linorder_neqE_nat)
  qed
  show "j \<in> set ks \<Longrightarrow> hit d tag j \<Longrightarrow> scan d tag ks = Some j"
  proof (cases "scan d tag ks")
    case (Some i)
    assume "j \<in> set ks" "hit d tag j"
    moreover have "hit d tag i" "i \<in> set ks" using Some by (auto simp: scan_def find_Some_iff)
    ultimately show ?thesis using Some uniq assms(2) by blast
  qed (auto simp: scan_def find_None_iff)
  show "(\<forall>j\<in>set ks. \<not> hit d tag j) \<Longrightarrow> scan d tag ks = None"
    by (simp add: scan_def find_None_iff)
qed

lemma ucast_tag: "(ucast (a :: u16) :: u32) < ucast b \<longleftrightarrow> a < b" "(ucast a :: u32) = ucast b \<longleftrightarrow> a = b"
  by (simp_all only: word_less_nat_alt word_unat_eq_iff unat_ucast_tag)

lemma advance_end:
  assumes "n_fields d < 2 ^ 16 - 1" "it_descriptor it = d" "it_message it = msg" "it_index it = field_count d"
  shows "\<exists>it'. advance_iterator it = Some it' \<and> at_pos d msg 0 it'"
proof -
  have "unat (field_count d + 1) = n_fields d + 1" using assms(1) by (intro trans [OF unat_add_nowrap]) simp_all
  then have "field_count d + 1 \<ge> field_count d" by (simp add: word_le_nat_alt)
  then show ?thesis using assms by (simp add: advance_iterator_def at_pos_def)
qed

lemma find_scan:
  assumes ok: "desc_ok d" "loadable mem d msg" "msg \<noteq> 0" "k < n_fields d"
    and it: "advance_iterator it = Some it1" "at_pos d msg q it1" "q < n_fields d"
    and m: "(succ_pos d ^^ m) q = k" "\<forall>i<m. (succ_pos d ^^ i) q \<noteq> k"
    and all: "\<And>j. j < n_fields d \<Longrightarrow> hit d tag j \<Longrightarrow> \<exists>i\<le>m. (succ_pos d ^^ i) q = j"
  shows "j < n_fields d \<Longrightarrow> hit d tag j \<Longrightarrow> find_loop mem tag (of_nat k) it = Some (True, iter_at mem d msg j)"
    and "\<forall>j<n_fields d. \<not> hit d tag j \<Longrightarrow> find_loop mem tag (of_nat k) it = Some (False, iter_at mem d msg k)"
proof -
  have in_n: "\<forall>j\<in>set (round_from d m q). j < n_fields d"
    using it(3) by (auto simp: set_round_from succ_pos_funpow)
  note loop = find_loop_scan [OF ok it m, of tag]
  show "find_loop mem tag (of_nat k) it = Some (True, iter_at mem d msg j)" if "j < n_fields d" "hit d tag j"
  proof -
    have "j \<in> set (round_from d m q)" using all [OF that] by (auto simp: set_round_from)
    then show ?thesis using loop scan_hit(1) [OF ok(1) in_n _ that(2)] by simp
  qed
  show "find_loop mem tag (of_nat k) it = Some (False, iter_at mem d msg k)" if "\<forall>j<n_fields d. \<not> hit d tag j"
    using loop scan_hit(2) [OF ok(1) in_n] in_n that by simp
qed

lemma field_iter_find_any:
  assumes ok: "desc_ok d" "loadable mem d msg" "msg \<noteq> 0" "k < n_fields d"
    and at: "at_pos d msg k it" "it_tag it = fw_tag (field_at d k)"
  shows "j < n_fields d \<Longrightarrow> ucast (fw_tag (field_at d j)) = tag \<Longrightarrow> j = k \<or> PB_LTYPE (fw_type (field_at d j)) \<noteq> PB_LTYPE_EXTENSION \<Longrightarrow>
      pb_field_iter_find mem tag it = Some (True, if j = k then it else iter_at mem d msg j)"
    and "(\<And>j. j < n_fields d \<Longrightarrow> ucast (fw_tag (field_at d j)) = tag \<Longrightarrow> j \<noteq> k \<and> PB_LTYPE (fw_type (field_at d j)) = PB_LTYPE_EXTENSION) \<Longrightarrow>
      pb_field_iter_find mem tag it = Some (False, it) \<or> pb_field_iter_find mem tag it = Some (False, iter_at mem d msg k)"
proof -
  have n: "n_fields d < 2 ^ 16 - 1" using desc_okD(1) [OF ok(1)] .
  have desc: "it_descriptor it = d" "it_message it = msg" "it_index it = of_nat k" using at(1) by (simp_all add: at_pos_def)
  let ?T = "\<lambda>j. (ucast (fw_tag (field_at d j)) :: u32)"
  have loop: "pb_field_iter_find mem tag it = find_loop mem tag (of_nat k)
      (if tag < ?T k then it\<lparr>it_index := field_count d\<rparr> else it)" if "?T k \<noteq> tag" "\<not> tag > ucast (largest_tag d)"
    using that by (simp add: pb_field_iter_find_def at(2) desc)
  have search: "(\<forall>j<n_fields d. hit d tag j \<longrightarrow> pb_field_iter_find mem tag it = Some (True, iter_at mem d msg j))
    \<and> ((\<forall>j<n_fields d. \<not> hit d tag j) \<longrightarrow> pb_field_iter_find mem tag it = Some (False, iter_at mem d msg k))"
    if T: "?T k \<noteq> tag" "\<not> tag > ucast (largest_tag d)"
  proof (cases "tag < ?T k")
    case True
    have "\<exists>it1. advance_iterator (it\<lparr>it_index := field_count d\<rparr>) = Some it1 \<and> at_pos d msg 0 it1"
      using advance_end [OF n, of "it\<lparr>it_index := field_count d\<rparr>" msg] desc by simp
    then obtain it1 where it1: "advance_iterator (it\<lparr>it_index := field_count d\<rparr>) = Some it1" "at_pos d msg 0 it1" by blast
    have pos: "0 < n_fields d" using ok(4) by simp
    have steps: "(succ_pos d ^^ i) 0 = i" if "i < n_fields d" for i using that succ_pos_funpow [OF pos, of i] by simp
    have below: "j < k" if "j < n_fields d" "hit d tag j" for j
    proof (rule ccontr)
      assume "\<not> j < k"
      then have "j = k \<or> k < j" by auto
      then have "fw_tag (field_at d k) \<le> fw_tag (field_at d j)" using desc_okD(5) [OF ok(1) that(1)] by (auto intro: less_imp_le)
      then have "?T k \<le> ?T j" using ucast_tag(1) [of "fw_tag (field_at d j)" "fw_tag (field_at d k)"] by (simp add: not_less [symmetric])
      then show False using True that(2) by (auto simp: hit_def)
    qed
    have m: "(succ_pos d ^^ k) 0 = k" "\<forall>i<k. (succ_pos d ^^ i) 0 \<noteq> k" using steps ok(4) by auto
    have all: "\<exists>i\<le>k. (succ_pos d ^^ i) 0 = j" if "j < n_fields d" "hit d tag j" for j
      using steps [OF that(1)] below [OF that] by (intro exI [of _ j]) simp
    show ?thesis using find_scan [OF ok it1 pos m all] loop [OF T] True by simp
  next
    case False
    obtain it1 where it1: "advance_iterator it = Some it1" "at_pos d msg (succ_pos d k) it1"
      using advance_pos [OF ok(1) at(1) ok(4)] by blast
    have q: "succ_pos d k < n_fields d" using succ_pos_less [OF ok(4)] .
    have st: "(succ_pos d ^^ i) (succ_pos d k) = (k + Suc i) mod n_fields d" for i
      using succ_pos_funpow [OF ok(4), of "Suc i"] by (simp add: funpow_swap1)
    obtain m where m0: "n_fields d = Suc m" using ok(4) by (cases "n_fields d") auto
    have m: "(succ_pos d ^^ m) (succ_pos d k) = k" "\<forall>i<m. (succ_pos d ^^ i) (succ_pos d k) \<noteq> k"
      unfolding st using ok(4) m0 by (auto simp: mod_if)
    have all: "\<exists>i\<le>m. (succ_pos d ^^ i) (succ_pos d k) = j" if "j < n_fields d" "hit d tag j" for j
      unfolding st using that(1) ok(4) m0
      by (intro exI [of _ "if k < j then j - k - 1 else m - k + j"]) (auto simp: mod_if)
    show ?thesis using find_scan [OF ok it1 q m all] loop [OF T] False by simp
  qed
  show "pb_field_iter_find mem tag it = Some (True, if j = k then it else iter_at mem d msg j)"
    if j: "j < n_fields d" "?T j = tag" "j = k \<or> PB_LTYPE (fw_type (field_at d j)) \<noteq> PB_LTYPE_EXTENSION"
  proof (cases "j = k")
    case True
    then show ?thesis using j(2) by (simp add: pb_field_iter_find_def at(2))
  next
    case False
    then have "fw_tag (field_at d j) \<noteq> fw_tag (field_at d k)"
      using desc_okD(5) [OF ok(1)] j(1) ok(4) by (metis less_irrefl linorder_neqE_nat)
    then have "?T k \<noteq> tag" using j(2) ucast_tag(2) by metis
    moreover have "\<not> tag > ucast (largest_tag d)"
      using desc_okD(4) [OF ok(1) j(1)] j(2) ucast_tag(1) [of "largest_tag d" "fw_tag (field_at d j)"] by (simp add: not_less)
    ultimately show ?thesis using search j False by (simp add: hit_def)
  qed
  show "pb_field_iter_find mem tag it = Some (False, it) \<or> pb_field_iter_find mem tag it = Some (False, iter_at mem d msg k)"
    if no: "\<And>j. j < n_fields d \<Longrightarrow> ?T j = tag \<Longrightarrow> j \<noteq> k \<and> PB_LTYPE (fw_type (field_at d j)) = PB_LTYPE_EXTENSION"
  proof (cases "tag > ucast (largest_tag d)")
    case True
    then show ?thesis using no [OF ok(4)] by (auto simp: pb_field_iter_find_def at(2) desc)
  next
    case False
    then show ?thesis using search no ok(4) by (auto simp: hit_def)
  qed
qed

lemma field_iter_find_ok:
  assumes ok: "desc_ok d" "loadable mem d msg" "msg \<noteq> 0" "k < n_fields d"
  shows "j < n_fields d \<Longrightarrow> ucast (fw_tag (field_at d j)) = tag \<Longrightarrow> j = k \<or> PB_LTYPE (fw_type (field_at d j)) \<noteq> PB_LTYPE_EXTENSION \<Longrightarrow>
      pb_field_iter_find mem tag (iter_at mem d msg k) = Some (True, iter_at mem d msg j)"
    and "(\<And>j. j < n_fields d \<Longrightarrow> ucast (fw_tag (field_at d j)) = tag \<Longrightarrow> j \<noteq> k \<and> PB_LTYPE (fw_type (field_at d j)) = PB_LTYPE_EXTENSION) \<Longrightarrow>
      pb_field_iter_find mem tag (iter_at mem d msg k) = Some (False, iter_at mem d msg k)"
  using field_iter_find_any [OF ok iter_at_fields(1,2) [OF ok], where tag = tag] by auto

text \<open>In a message without an extension range there is none to find.\<close>

lemma field_words_type:
  assumes "field_words d i = Some w" "info_word d i = Some word0"
  shows "fw_type w = ucast (drop_bit 8 word0 AND 0xFF)"
  using assms unfolding field_words_def by (auto simp: bind_eq_Some_conv split: if_splits)

lemma find_ext_step:
  assumes "desc_ok d" "loadable mem d msg" "msg \<noteq> 0" "start < n_fields d"
    and none: "\<forall>j<n_fields d. PB_LTYPE (fw_type (field_at d j)) \<noteq> PB_LTYPE_EXTENSION"
    and it: "advance_iterator it = Some it1" "at_pos d msg q it1" "q < n_fields d"
  shows "find_ext_loop mem (of_nat start) it =
    (if q \<noteq> start then find_ext_loop mem (of_nat start) it1 else Some (False, iter_at mem d msg start))"
proof -
  have n: "n_fields d < 2 ^ 16 - 1" using desc_okD(1) [OF assms(1)] .
  have wp: "word_pos d q < 2 ^ 16" using word_pos_mono [of q "n_fields d" d] it(3) desc_okD(2) [OF assms(1)] by simp
  have info: "info_word (it_descriptor it1) (unat (it_field_info_index it1)) = Some (field_info d ! word_pos d q)"
    using it(2) word_pos_word [OF assms(1) it(3)] unat_index [OF wp] by (simp add: at_pos_def)
  have ty: "PB_LTYPE (ucast (drop_bit 8 (field_info d ! word_pos d q) AND 0xFF)) \<noteq> PB_LTYPE_EXTENSION"
    using none it(3) field_words_type [OF desc_okD(6) [OF assms(1) it(3)] word_pos_word [OF assms(1) it(3)]] by metis
  have idx: "it_index it1 = of_nat start \<longleftrightarrow> q = start"
    using it(2) index_inj [of q start] assms(4) it(3) n by (simp add: at_pos_def)
  have load: "load_descriptor_values mem it1 = Some (True, iter_at mem d msg q)" using load_at [OF assms(1-3) it(2,3)] .
  show ?thesis using it(1) info ty idx load by (subst find_ext_loop.simps) simp
qed

lemma find_ext_scan:
  assumes ok: "desc_ok d" "loadable mem d msg" "msg \<noteq> 0" "start < n_fields d"
    and none: "\<forall>j<n_fields d. PB_LTYPE (fw_type (field_at d j)) \<noteq> PB_LTYPE_EXTENSION"
  shows "advance_iterator it = Some it1 \<Longrightarrow> at_pos d msg q it1 \<Longrightarrow> q < n_fields d \<Longrightarrow> (succ_pos d ^^ m) q = start \<Longrightarrow>
    find_ext_loop mem (of_nat start) it = Some (False, iter_at mem d msg start)"
proof (induction m arbitrary: it it1 q)
  case 0
  then show ?case using find_ext_step [OF ok none 0(1-3)] by simp
next
  case (Suc m)
  obtain it2 where it2: "advance_iterator it1 = Some it2" "at_pos d msg (succ_pos d q) it2"
    using advance_pos [OF ok(1) Suc.prems(2,3)] by blast
  have "(succ_pos d ^^ m) (succ_pos d q) = start" using Suc.prems(4) by (simp add: funpow_swap1)
  then have "find_ext_loop mem (of_nat start) it1 = Some (False, iter_at mem d msg start)"
    using Suc.IH [OF it2 succ_pos_less [OF Suc.prems(3)]] by blast
  then show ?case using find_ext_step [OF ok none Suc.prems(1-3)] by simp
qed

lemma find_extension_none:
  assumes "desc_ok d" "loadable mem d msg" "msg \<noteq> 0" "k < n_fields d" "at_pos d msg k it" "PB_LTYPE (it_type it) \<noteq> PB_LTYPE_EXTENSION"
    and none: "\<forall>j<n_fields d. PB_LTYPE (fw_type (field_at d j)) \<noteq> PB_LTYPE_EXTENSION"
  shows "pb_field_iter_find_extension mem it = Some (False, iter_at mem d msg k)"
proof -
  obtain it1 where it1: "advance_iterator it = Some it1" "at_pos d msg (succ_pos d k) it1"
    using advance_pos [OF assms(1,5,4)] by blast
  have "(succ_pos d ^^ (n_fields d - 1)) (succ_pos d k) = (succ_pos d ^^ n_fields d) k"
    using assms(4) by (metis Suc_diff_1 funpow_Suc_right gr_implies_not0 neq0_conv o_apply)
  also have "\<dots> = k" using succ_pos_funpow [OF assms(4), of "n_fields d"] assms(4) by simp
  finally have "find_ext_loop mem (of_nat k) it = Some (False, iter_at mem d msg k)"
    by (rule find_ext_scan [OF assms(1-4) none it1 succ_pos_less [OF assms(4)]])
  then show ?thesis using assms(5,6) by (simp add: pb_field_iter_find_extension_def at_pos_def)
qed

text \<open>Loading a field leaves the position alone.\<close>

lemma load_keeps:
  assumes "load_descriptor_values mem it = Some (b, it')"
  shows "it_descriptor it' = it_descriptor it \<and> it_message it' = it_message it \<and> it_index it' = it_index it"
proof (cases "field_count (it_descriptor it) \<le> it_index it")
  case True
  then show ?thesis using assms by (simp add: load_descriptor_values_def)
next
  case False
  obtain w where w: "field_words (it_descriptor it) (unat (it_field_info_index it)) = Some w"
    using assms False by (cases "field_words (it_descriptor it) (unat (it_field_info_index it))") (simp_all add: load_descriptor_values_def)
  show ?thesis
  proof (cases "it_message it = 0")
    case True
    then show ?thesis using assms False w unfolding load_descriptor_values_def
      by (auto simp: Let_def bind_eq_Some_conv simp del: not_le)
  next
    case nn: False
    then show ?thesis using assms unfolding load_descriptor_values_is [OF False nn w] by (auto simp: bind_eq_Some_conv)
  qed
qed

lemma unat_plus_1: "w + 1 \<noteq> 0 \<Longrightarrow> unat (w + 1) = Suc (unat w)"
  using unatSuc [of w] by (simp add: add.commute)

lemma iter_next_index:
  assumes "pb_field_iter_next mem it = Some (True, it')"
  shows "it_descriptor it' = it_descriptor it \<and> unat (it_index it') = Suc (unat (it_index it)) \<and> it_index it' < field_count (it_descriptor it)"
proof -
  obtain it1 b where a: "advance_iterator it = Some it1" "load_descriptor_values mem it1 = Some (b, it')" "it_index it' \<noteq> 0"
    using assms by (auto simp: pb_field_iter_next_def bind_eq_Some_conv)
  note l = load_keeps [OF a(2)]
  have i: "it_index it1 \<noteq> 0" using a(3) l by simp
  have lt: "\<not> field_count (it_descriptor it) \<le> it_index it + 1"
    using a(1) i unfolding advance_iterator_def by (auto simp: Let_def)
  then have "it_descriptor it1 = it_descriptor it" "it_index it1 = it_index it + 1"
    using a(1) unfolding advance_iterator_def by (auto simp: Let_def bind_eq_Some_conv)
  then show ?thesis using l i lt unat_plus_1 [of "it_index it"] by (simp add: not_le)
qed

lemma iter_next_any:
  assumes "desc_ok d" "loadable mem d msg" "msg \<noteq> 0" "k < n_fields d" "at_pos d msg k it"
  shows "pb_field_iter_next mem it = Some (Suc k < n_fields d, iter_at mem d msg (succ_pos d k))"
proof -
  have n: "n_fields d < 2 ^ 16 - 1" using desc_okD(1) [OF assms(1)] .
  obtain it1 where it1: "advance_iterator it = Some it1" "at_pos d msg (succ_pos d k) it1"
    using advance_pos [OF assms(1,5,4)] by blast
  have s: "succ_pos d k < n_fields d" using succ_pos_less [OF assms(4)] .
  have "it_index (iter_at mem d msg (succ_pos d k)) = of_nat (succ_pos d k)"
    using iter_at_fields(1) [OF assms(1-3) s] by (simp add: at_pos_def)
  moreover have "(of_nat (succ_pos d k) :: u16) \<noteq> 0 \<longleftrightarrow> Suc k < n_fields d"
    using index_inj [of "succ_pos d k" 0] s n by (simp add: succ_pos_def)
  ultimately show ?thesis using it1 load_at [OF assms(1-3) it1(2) s] by (simp add: pb_field_iter_next_def)
qed

lemma iter_next_at:
  assumes "desc_ok d" "loadable mem d msg" "msg \<noteq> 0" "k < n_fields d"
  shows "pb_field_iter_next mem (iter_at mem d msg k) = Some (Suc k < n_fields d, iter_at mem d msg (succ_pos d k))"
  using iter_next_any [OF assms iter_at_fields(1) [OF assms]] .

lemma iter_begin_at:
  assumes "desc_ok d" "loadable mem d msg" "msg \<noteq> 0" "0 < n_fields d"
  shows "pb_field_iter_begin mem d msg = Some (True, iter_at mem d msg 0)"
  using load_at [OF assms(1-3) at_pos_iter assms(4)] by (simp add: pb_field_iter_begin_def pos_iter_def)

lemma iter_begin_empty: "n_fields d = 0 \<Longrightarrow> \<exists>it. pb_field_iter_begin mem d msg = Some (False, it)"
  by (simp add: pb_field_iter_begin_def load_descriptor_values_def unat_eq_zero)


text \<open>
  C36. \<open>pb_field_iter_find\<close> finds what a linear search over the fields finds: from any field \<open>k\<close> it ends, on the
  field with the tag, loaded, when there is one that is not an extension range (or is the current one), and else
  back on field \<open>k\<close> with \<open>false\<close>. The wrap-around, the restart for smaller tags and the check of six bits first change
  nothing.
\<close>

theorem pb_field_iter_find_is_search:
  assumes "desc_ok d" "loadable mem d msg" "msg \<noteq> 0" "k < n_fields d"
  shows "pb_field_iter_find mem tag (iter_at mem d msg k) =
    (case find (\<lambda>j. ucast (fw_tag (field_at d j)) = tag \<and> (j = k \<or> PB_LTYPE (fw_type (field_at d j)) \<noteq> PB_LTYPE_EXTENSION))
        [0..<n_fields d] of
      Some j \<Rightarrow> Some (True, iter_at mem d msg j)
    | None \<Rightarrow> Some (False, iter_at mem d msg k))"
    (is "_ = (case ?found of Some j \<Rightarrow> _ j | None \<Rightarrow> _)")
proof (cases ?found)
  case None
  then have "j \<noteq> k \<and> PB_LTYPE (fw_type (field_at d j)) = PB_LTYPE_EXTENSION" if "j < n_fields d" "ucast (fw_tag (field_at d j)) = tag" for j
    using that by (auto simp: find_None_iff)
  from field_iter_find_ok(2) [OF assms this] show ?thesis using None by simp
next
  case (Some j)
  then have "j < n_fields d" "ucast (fw_tag (field_at d j)) = tag" "j = k \<or> PB_LTYPE (fw_type (field_at d j)) \<noteq> PB_LTYPE_EXTENSION"
    by (auto simp: find_Some_iff)
  from field_iter_find_ok(1) [OF assms this] show ?thesis using Some by simp
qed

section \<open>An example\<close>

text \<open>A message with a number, an array of numbers and a nested message that holds a string, and one such message at 16.\<close>

definition ex_sub :: pb_msgdesc where
  "ex_sub = Msgdesc [0x40000704] [] None NoCallback 1 1 1"

definition ex_desc :: pb_msgdesc where
  "ex_desc = Msgdesc [0x40000204, 0x20032209, 0x00040008, 0x4010080C] [ex_sub] None NoCallback 3 2 3"

definition ex_mem :: bytes where
  "ex_mem = replicate 16 0 @ [0x2C, 1, 0, 0, 0, 0, 2, 0, 5, 0, 0, 0, 0x80, 2, 0, 0] @ [104, 105, 0, 7]"


lemma ex_words:
  "field_words ex_desc 0 = Some \<lparr>fw_type = 2, fw_array_size = 1, fw_tag = 1, fw_size_offset = 0, fw_data_offset = 0, fw_data_size = 4\<rparr>"
  "field_words ex_desc (Suc 0) = Some \<lparr>fw_type = 0x22, fw_array_size = 3, fw_tag = 2, fw_size_offset = 2, fw_data_offset = 8, fw_data_size = 4\<rparr>"
  "field_words ex_desc 3 = Some \<lparr>fw_type = 8, fw_array_size = 1, fw_tag = 3, fw_size_offset = 0, fw_data_offset = 16, fw_data_size = 4\<rparr>"
  "field_words ex_sub 0 = Some \<lparr>fw_type = 7, fw_array_size = 1, fw_tag = 1, fw_size_offset = 0, fw_data_offset = 0, fw_data_size = 4\<rparr>"
  by (simp_all add: field_words_def info_word_def ex_desc_def ex_sub_def)

lemma ex_pos: "word_pos ex_desc (Suc 0) = 1" "word_pos ex_desc (Suc (Suc 0)) = 3"  "word_pos ex_desc (Suc (Suc (Suc 0))) = 4" "word_pos ex_sub (Suc 0) = 1"
  by (simp_all add: ex_desc_def ex_sub_def)

lemma ex_types: "word_type ex_desc 0 = 2" "word_type ex_desc (Suc 0) = 0x22" "word_type ex_desc 3 = 8" "word_type ex_sub 0 = 7"
  by (simp_all add: word_type_def ex_desc_def ex_sub_def)

lemma ex_count: "field_count ex_desc = 3" "field_count ex_sub = 1" "submsg_info ex_desc = [ex_sub]" "submsg_info ex_sub = []"
  "largest_tag ex_desc = 3" "largest_tag ex_sub = 1" "default_value ex_desc = None"
  by (simp_all add: ex_desc_def ex_sub_def)

lemma ex_before: "sub_before ex_desc (Suc 0) = 0" "sub_before ex_desc (Suc (Suc 0)) = 0"  "sub_before ex_desc (Suc (Suc (Suc 0))) = 1"
   "sub_before ex_sub (Suc 0) = 0" "req_before ex_desc (Suc 0) = 1" "req_before ex_desc (Suc (Suc 0)) = 1"
  by (simp_all add: ex_pos ex_types PB_LTYPE_IS_SUBMSG_def type_masks ltype_defs htype_defs del: word_pos.simps(2))

lemma ex_n: "n_fields ex_desc = Suc (Suc (Suc 0))" "n_fields ex_sub = Suc 0" by (simp_all add: ex_desc_def ex_sub_def)

lemmas ex_facts = ex_words ex_pos ex_types ex_count ex_before field_at_def

lemma ex_ok: "desc_ok ex_desc" "desc_ok ex_sub"
  by (simp_all add: desc_ok_def ex_n ex_words ex_pos ex_before ex_count(3-6) field_at_def All_less_Suc word_pos.simps(1) del: word_pos.simps(2) sub_before.simps(2))

lemma ex_iter: 
  "load_descriptor_values ex_mem (pos_iter ex_desc 16 0) = Some (True, (pos_iter ex_desc 16 0)\<lparr>it_type := 2, it_array_size := 1, it_tag := 1,
    it_data_size := 4, it_pField := 16, it_pSize := SizeNULL, it_pData := 16, it_submsg_desc := None\<rparr>)"
  "load_descriptor_values ex_mem (pos_iter ex_desc 16 (Suc 0)) = Some (True, (pos_iter ex_desc 16 (Suc 0))\<lparr>it_type := 0x22, it_array_size := 3, it_tag := 2,
    it_data_size := 4, it_pField := 24, it_pSize := SizeAt 22, it_pData := 24, it_submsg_desc := None\<rparr>)"
  "load_descriptor_values ex_mem (pos_iter ex_desc 16 (Suc (Suc 0))) = Some (True, (pos_iter ex_desc 16 (Suc (Suc 0)))\<lparr>it_type := 8, it_array_size := 1, it_tag := 3,
    it_data_size := 4, it_pField := 32, it_pSize := SizeNULL, it_pData := 32, it_submsg_desc := Some ex_sub\<rparr>)"
  "load_descriptor_values ex_mem (pos_iter ex_sub 32 0) = Some (True, (pos_iter ex_sub 32 0)\<lparr>it_type := 7, it_array_size := 1, it_tag := 1,
    it_data_size := 4, it_pField := 32, it_pSize := SizeNULL, it_pData := 32, it_submsg_desc := None\<rparr>)"
  by (simp_all add: load_descriptor_values_def pos_iter_def ex_facts PB_LTYPE_IS_SUBMSG_def type_masks ltype_defs htype_defs atype_defs word_le_nat_alt
    del: word_pos.simps(2) sub_before.simps(2) req_before.simps(2))

lemma ex_loadable: "loadable ex_mem ex_desc 16" "loadable ex_mem ex_sub 32"
  by (auto simp: loadable_def ex_iter ex_n All_less_Suc)

theorem pb_field_iter_find_is_search_witness:
  "pb_field_iter_find ex_mem 2 (iter_at ex_mem ex_desc 16 (Suc (Suc 0))) = Some (True, iter_at ex_mem ex_desc 16 (Suc 0))"
  using pb_field_iter_find_is_search [OF ex_ok(1) ex_loadable(1), of "Suc (Suc 0)" 2]
  by (simp add: ex_n ex_words ex_pos field_at_def word_pos.simps(1) type_masks ltype_defs del: word_pos.simps(2))

end
