(* ===== verification/PbEncode.thy ===== *)
theory PbEncode
  imports PbIter
begin

text \<open>
  Encoding of messages, \<open>pb_encode.c\<close>. A message is a structure in memory that a descriptor describes. Where the
  code calls a function of the application (callback fields, extensions) the model is undefined, so what is proved
  is about messages without them. \<open>encode_submessage\<close> encodes nested messages; \<open>pb_encode\<close> ties the knot.
\<close>

section \<open>Values in memory\<close>

text \<open>What is not in memory is undefined.\<close>

definition need :: "'a option \<Rightarrow> 's \<Rightarrow> ('a, 's) outcome" where
  "need m s = (case m of None \<Rightarrow> Undef | Some x \<Rightarrow> Ok x s)"

lemma need_simps [simp]: "need None s = Undef" "need (Some x) s = Ok x s"
  by (simp_all add: need_def)

definition load_num :: "nat \<Rightarrow> nat \<Rightarrow> bytes \<Rightarrow> nat option" where
  "load_num a n mem = map_option le_val (mem_read a n mem)"

definition load_size :: "bytes \<Rightarrow> pb_field_iter \<Rightarrow> pb_size option" where
  "load_size mem it = (case it_pSize it of
     SizeAt a \<Rightarrow> map_option of_nat (load_num a 2 mem) | SizeArray \<Rightarrow> Some (it_array_size it) | _ \<Rightarrow> None)"

text \<open>\<open>sizeof(bool)\<close> is 1.\<close>

definition safe_read_bool :: "bytes \<Rightarrow> nat \<Rightarrow> bool option" where
  "safe_read_bool mem p = map_option (\<lambda>b. b \<noteq> 0) (load_num p 1 mem)"

definition size_address :: "pb_field_iter \<Rightarrow> nat option" where
  "size_address it = (case it_pSize it of SizeAt a \<Rightarrow> Some a | _ \<Rightarrow> None)"

section \<open>Field encoders\<close>

definition pb_enc_bool :: "bytes \<Rightarrow> pb_field_iter \<Rightarrow> pb_ostream \<Rightarrow> (unit, pb_ostream) outcome" where
  "pb_enc_bool mem field s = pb_bind (need (safe_read_bool mem (it_pData field)) s) (\<lambda>b s.
     pb_encode_varint (if b then 1 else 0) s)"

definition pb_enc_varint :: "bytes \<Rightarrow> pb_field_iter \<Rightarrow> pb_ostream \<Rightarrow> (unit, pb_ostream) outcome" where
  "pb_enc_varint mem field s = (let n = it_data_size field in
     if PB_LTYPE (it_type field) = PB_LTYPE_UVARINT
     then if n = 1 \<or> n = 2 \<or> n = 4 \<or> n = 8
       then pb_bind (need (load_num (it_pData field) (unat n) mem) s) (\<lambda>v s. pb_encode_varint (of_nat v) s)
       else os_error ''invalid data_size'' s
     else pb_bind
       (if n = 1 then pb_bind (need (load_num (it_pData field) 1 mem) s) (\<lambda>v s. Ok (scast (of_nat v :: u8)) s)
        else if n = 2 then pb_bind (need (load_num (it_pData field) 2 mem) s) (\<lambda>v s. Ok (scast (of_nat v :: u16)) s)
        else if n = 4 then pb_bind (need (load_num (it_pData field) 4 mem) s) (\<lambda>v s. Ok (scast (of_nat v :: u32)) s)
        else if n = 8 then pb_bind (need (load_num (it_pData field) 8 mem) s) (\<lambda>v s. Ok (of_nat v) s)
        else os_error ''invalid data_size'' s)
       (\<lambda>value s. if PB_LTYPE (it_type field) = PB_LTYPE_SVARINT then pb_encode_svarint value s else pb_encode_varint value s))"

definition pb_enc_fixed :: "bytes \<Rightarrow> pb_field_iter \<Rightarrow> pb_ostream \<Rightarrow> (unit, pb_ostream) outcome" where
  "pb_enc_fixed mem field s =
     (if it_data_size field = 4
      then pb_bind (need (load_num (it_pData field) 4 mem) s) (\<lambda>v s. pb_encode_fixed32 (of_nat v) s)
      else if it_data_size field = 8
      then pb_bind (need (load_num (it_pData field) 8 mem) s) (\<lambda>v s. pb_encode_fixed64 (of_nat v) s)
      else os_error ''invalid data_size'' s)"

text \<open>A \<open>pb_bytes_array_t\<close> is its size, in two bytes, and the bytes.\<close>

definition pb_enc_bytes :: "bytes \<Rightarrow> pb_field_iter \<Rightarrow> pb_ostream \<Rightarrow> (unit, pb_ostream) outcome" where
  "pb_enc_bytes mem field s =
     (if it_pData field = 0 then pb_encode_string [] 0 s
      else pb_bind (need (load_num (it_pData field) 2 mem) s) (\<lambda>sz s.
        if PB_ATYPE (it_type field) = PB_ATYPE_STATIC \<and> of_nat sz > (ucast (it_data_size field) - 2 :: u64)
        then os_error ''bytes size exceeded'' s
        else pb_encode_string (drop (it_pData field + 2) mem) (of_nat sz) s))"

text \<open>The loop over the characters: how many come before the end or the limit, and the character there.\<close>

fun str_scan :: "bytes \<Rightarrow> nat \<Rightarrow> (nat \<times> u8) option" where
  "str_scan [] m = None"
| "str_scan (c # cs) m = (if m = 0 \<or> c = 0 then Some (0, c) else map_option (\<lambda>(n, c'). (Suc n, c')) (str_scan cs (m - 1)))"

definition pb_enc_string :: "bytes \<Rightarrow> pb_field_iter \<Rightarrow> pb_ostream \<Rightarrow> (unit, pb_ostream) outcome" where
  "pb_enc_string mem field s =
     (if PB_ATYPE (it_type field) \<noteq> PB_ATYPE_POINTER \<and> it_data_size field = 0 then os_error ''zero-length string'' s
      else let max_size = (if PB_ATYPE (it_type field) = PB_ATYPE_POINTER then - 1 else ucast (it_data_size field) - 1 :: u64) in
        if it_pData field = 0 then pb_encode_string [] 0 s
        else pb_bind (need (str_scan (drop (it_pData field) mem) (unat max_size)) s) (\<lambda>(sz, p) s.
          if p \<noteq> 0 then os_error ''unterminated string'' s
          else pb_encode_string (drop (it_pData field) mem) (of_nat sz) s))"

definition pb_enc_fixed_length_bytes :: "bytes \<Rightarrow> pb_field_iter \<Rightarrow> pb_ostream \<Rightarrow> (unit, pb_ostream) outcome" where
  "pb_enc_fixed_length_bytes mem field s = pb_encode_string (drop (it_pData field) mem) (ucast (it_data_size field)) s"

definition pb_encode_tag_for_field :: "pb_field_iter \<Rightarrow> pb_ostream \<Rightarrow> (unit, pb_ostream) outcome" where
  "pb_encode_tag_for_field field s = (let t = PB_LTYPE (it_type field) in
     if t = PB_LTYPE_BOOL \<or> t = PB_LTYPE_VARINT \<or> t = PB_LTYPE_UVARINT \<or> t = PB_LTYPE_SVARINT
     then pb_encode_tag PB_WT_VARINT (ucast (it_tag field)) s
     else if t = PB_LTYPE_FIXED32 then pb_encode_tag PB_WT_32BIT (ucast (it_tag field)) s
     else if t = PB_LTYPE_FIXED64 then pb_encode_tag PB_WT_64BIT (ucast (it_tag field)) s
     else if t = PB_LTYPE_BYTES \<or> t = PB_LTYPE_STRING \<or> t = PB_LTYPE_SUBMESSAGE \<or> t = PB_LTYPE_SUBMSG_W_CB
       \<or> t = PB_LTYPE_FIXED_LENGTH_BYTES
     then pb_encode_tag PB_WT_STRING (ucast (it_tag field)) s
     else os_error ''invalid field type'' s)"

section \<open>Messages in messages\<close>

type_synonym encoder = "pb_msgdesc \<Rightarrow> nat \<Rightarrow> pb_ostream \<Rightarrow> (unit, pb_ostream) outcome"

text \<open>The end of \<open>pb_encode_submessage\<close>: what it makes of the substream.\<close>

definition after_substream :: "u64 \<Rightarrow> bool \<Rightarrow> pb_ostream \<Rightarrow> pb_ostream \<Rightarrow> (unit, pb_ostream) outcome" where
  "after_substream sz status sub s =
     (let s = s\<lparr>os_bytes_written := os_bytes_written s + os_bytes_written sub, os_state := os_state sub,
        os_mem := os_mem sub, os_errmsg := os_errmsg sub\<rparr> in
      if os_bytes_written sub \<noteq> sz then os_error ''submsg size changed'' s
      else if status then Ok () s else Err s)"

definition pb_encode_submessage :: "encoder \<Rightarrow> encoder" where
  "pb_encode_submessage enc desc src s =
     (case enc desc src PB_OSTREAM_SIZING of
        Undef \<Rightarrow> Undef
      | Err sub \<Rightarrow> Err (s\<lparr>os_errmsg := os_errmsg sub\<rparr>)
      | Ok _ sub \<Rightarrow> let sz = os_bytes_written sub in
          pb_bind (pb_encode_varint sz s) (\<lambda>_ s.
            if \<not> os_callback s then pb_write [] sz s
            else if os_bytes_written s + sz > os_max_size s then os_error ''stream full'' s
            else (case enc desc src (sub\<lparr>os_callback := os_callback s, os_mem := os_mem s, os_state := os_state s,
                    os_max_size := sz, os_bytes_written := 0, os_errmsg := None\<rparr>) of
                Undef \<Rightarrow> Undef
              | Err sub \<Rightarrow> after_substream sz False sub s
              | Ok _ sub \<Rightarrow> after_substream sz True sub s)))"

text \<open>The callback of a submessage is stored before \<open>pSize\<close>; a \<open>pb_callback_t\<close> has 16 bytes.\<close>

definition pb_enc_submessage :: "encoder \<Rightarrow> bytes \<Rightarrow> pb_field_iter \<Rightarrow> pb_ostream \<Rightarrow> (unit, pb_ostream) outcome" where
  "pb_enc_submessage enc mem field s = (case it_submsg_desc field of
     None \<Rightarrow> os_error ''invalid field descriptor'' s
   | Some desc \<Rightarrow>
       if PB_LTYPE (it_type field) = PB_LTYPE_SUBMSG_W_CB \<and> it_pSize field \<noteq> SizeNULL
       then pb_bind (need (Option.bind (size_address field) (\<lambda>a. if a < 16 then None else load_ptr (a - 16) mem)) s)
         (\<lambda>cb s. if cb \<noteq> 0 then Undef else pb_encode_submessage enc desc (it_pData field) s)
       else pb_encode_submessage enc desc (it_pData field) s)"

definition encode_basic_field :: "encoder \<Rightarrow> bytes \<Rightarrow> pb_field_iter \<Rightarrow> pb_ostream \<Rightarrow> (unit, pb_ostream) outcome" where
  "encode_basic_field enc mem field s =
     (if it_pData field = 0 then Ok () s
      else pb_bind (pb_encode_tag_for_field field s) (\<lambda>_ s. let t = PB_LTYPE (it_type field) in
        if t = PB_LTYPE_BOOL then pb_enc_bool mem field s
        else if t = PB_LTYPE_VARINT \<or> t = PB_LTYPE_UVARINT \<or> t = PB_LTYPE_SVARINT then pb_enc_varint mem field s
        else if t = PB_LTYPE_FIXED32 \<or> t = PB_LTYPE_FIXED64 then pb_enc_fixed mem field s
        else if t = PB_LTYPE_BYTES then pb_enc_bytes mem field s
        else if t = PB_LTYPE_STRING then pb_enc_string mem field s
        else if t = PB_LTYPE_SUBMESSAGE \<or> t = PB_LTYPE_SUBMSG_W_CB then pb_enc_submessage enc mem field s
        else if t = PB_LTYPE_FIXED_LENGTH_BYTES then pb_enc_fixed_length_bytes mem field s
        else os_error ''invalid field type'' s))"


section \<open>Arrays\<close>

text \<open>A loop over \<open>n\<close> entries, which moves \<open>pData\<close> by \<open>data_size\<close>.\<close>

fun each_item :: "(pb_field_iter \<Rightarrow> 's \<Rightarrow> (unit, 's) outcome) \<Rightarrow> nat \<Rightarrow> pb_field_iter \<Rightarrow> 's \<Rightarrow> (unit, 's) outcome" where
  "each_item f 0 field s = Ok () s"
| "each_item f (Suc n) field s = pb_bind (f field s) (\<lambda>_ s.
     each_item f n (field\<lparr>it_pData := it_pData field + unat (it_data_size field)\<rparr>) s)"

definition encode_item :: "encoder \<Rightarrow> bytes \<Rightarrow> pb_field_iter \<Rightarrow> pb_ostream \<Rightarrow> (unit, pb_ostream) outcome" where
  "encode_item enc mem field s =
     (if PB_ATYPE (it_type field) = PB_ATYPE_POINTER
        \<and> (PB_LTYPE (it_type field) = PB_LTYPE_STRING \<or> PB_LTYPE (it_type field) = PB_LTYPE_BYTES)
      then pb_bind (need (load_ptr (it_pData field) mem) s) (\<lambda>p s. let field = field\<lparr>it_pData := p\<rparr> in
        if p = 0 then pb_bind (pb_encode_tag_for_field field s) (\<lambda>_ s. pb_encode_varint 0 s)
        else encode_basic_field enc mem field s)
      else encode_basic_field enc mem field s)"

definition packed_item :: "bytes \<Rightarrow> pb_field_iter \<Rightarrow> pb_ostream \<Rightarrow> (unit, pb_ostream) outcome" where
  "packed_item mem field s =
     (if PB_LTYPE (it_type field) = PB_LTYPE_FIXED32 \<or> PB_LTYPE (it_type field) = PB_LTYPE_FIXED64
      then pb_enc_fixed mem field s else pb_enc_varint mem field s)"

definition packed_size :: "bytes \<Rightarrow> nat \<Rightarrow> pb_field_iter \<Rightarrow> pb_ostream \<Rightarrow> (u64, pb_ostream) outcome" where
  "packed_size mem count field s =
     (if PB_LTYPE (it_type field) = PB_LTYPE_FIXED32 then Ok (4 * of_nat count) s
      else if PB_LTYPE (it_type field) = PB_LTYPE_FIXED64 then Ok (8 * of_nat count) s
      else (case each_item (pb_enc_varint mem) count field PB_OSTREAM_SIZING of
          Undef \<Rightarrow> Undef
        | Err sizestream \<Rightarrow> os_error (case os_errmsg sizestream of None \<Rightarrow> ''(none)'' | Some m \<Rightarrow> m) s
        | Ok _ sizestream \<Rightarrow> Ok (os_bytes_written sizestream) s))"

definition encode_array :: "encoder \<Rightarrow> bytes \<Rightarrow> pb_field_iter \<Rightarrow> pb_ostream \<Rightarrow> (unit, pb_ostream) outcome" where
  "encode_array enc mem field s = pb_bind (need (load_size mem field) s) (\<lambda>count s.
     if count = 0 then Ok () s
     else if PB_ATYPE (it_type field) \<noteq> PB_ATYPE_POINTER \<and> count > it_array_size field
     then os_error ''array max size exceeded'' s
     else if PB_LTYPE (it_type field) \<le> PB_LTYPE_LAST_PACKABLE
     then pb_bind (pb_encode_tag PB_WT_STRING (ucast (it_tag field)) s) (\<lambda>_ s.
       pb_bind (packed_size mem (unat count) field s) (\<lambda>sz s.
       pb_bind (pb_encode_varint sz s) (\<lambda>_ s.
         if \<not> os_callback s then pb_write [] sz s
         else each_item (packed_item mem) (unat count) field s)))
     else each_item (encode_item enc mem) (unat count) field s)"

section \<open>Which fields are encoded\<close>

text \<open>What \<open>pb_default_field_callback\<close> does: nothing, unless the field holds a function of the application.\<close>

definition pb_default_field_callback :: "bytes \<Rightarrow> pb_field_iter \<Rightarrow> 's \<Rightarrow> (unit, 's) outcome" where
  "pb_default_field_callback mem field s =
     (if it_data_size field = 16 \<and> it_pData field \<noteq> 0
      then pb_bind (need (load_ptr (it_pData field) mem) s) (\<lambda>f s. if f \<noteq> 0 then Undef else Ok () s)
      else Ok () s)"

definition encode_callback_field :: "bytes \<Rightarrow> pb_field_iter \<Rightarrow> pb_ostream \<Rightarrow> (unit, pb_ostream) outcome" where
  "encode_callback_field mem field s = (case field_callback (it_descriptor field) of
     NoCallback \<Rightarrow> Ok () s | DefaultCallback \<Rightarrow> pb_default_field_callback mem field s | OtherCallback \<Rightarrow> Undef)"

fun all_zero :: "bytes \<Rightarrow> nat \<Rightarrow> bool option" where
  "all_zero p 0 = Some True"
| "all_zero [] (Suc n) = None"
| "all_zero (c # cs) (Suc n) = (if c \<noteq> 0 then Some False else all_zero cs n)"

definition pb_check_proto3_default_value :: "(pb_msgdesc \<Rightarrow> nat \<Rightarrow> bool option) \<Rightarrow> bytes \<Rightarrow> pb_field_iter \<Rightarrow> bool option" where
  "pb_check_proto3_default_value chk mem field = (let type = it_type field in
     if PB_ATYPE type = PB_ATYPE_STATIC then
       if PB_HTYPE type = PB_HTYPE_REQUIRED then Some False
       else if PB_HTYPE type = PB_HTYPE_REPEATED then map_option (\<lambda>n. n = 0) (load_size mem field)
       else if PB_HTYPE type = PB_HTYPE_ONEOF then map_option (\<lambda>n. n = 0) (load_size mem field)
       else if PB_HTYPE type = PB_HTYPE_OPTIONAL \<and> it_pSize field \<noteq> SizeNULL
       then map_option Not (Option.bind (size_address field) (safe_read_bool mem))
       else if default_value (it_descriptor field) \<noteq> None then Some False
       else if PB_LTYPE type \<le> PB_LTYPE_LAST_PACKABLE
       then all_zero (drop (it_pData field) mem) (unat (it_data_size field))
       else if PB_LTYPE type = PB_LTYPE_BYTES then map_option (\<lambda>n. n = 0) (load_num (it_pData field) 2 mem)
       else if PB_LTYPE type = PB_LTYPE_STRING then map_option (\<lambda>n. n = 0) (load_num (it_pData field) 1 mem)
       else if PB_LTYPE type = PB_LTYPE_FIXED_LENGTH_BYTES then Some (it_data_size field = 0)
       else if PB_LTYPE_IS_SUBMSG type
       then Option.bind (it_submsg_desc field) (\<lambda>d. chk d (it_pData field))
       else Some False
     else if PB_ATYPE type = PB_ATYPE_POINTER then Some (it_pData field = 0)
     else if PB_ATYPE type = PB_ATYPE_CALLBACK then
       if PB_LTYPE type = PB_LTYPE_EXTENSION then map_option (\<lambda>p. p = 0) (load_ptr (it_pData field) mem)
       else (case field_callback (it_descriptor field) of
           DefaultCallback \<Rightarrow> map_option (\<lambda>p. p = 0) (load_ptr (it_pData field) mem)
         | NoCallback \<Rightarrow> Some True | OtherCallback \<Rightarrow> Some False)
     else Some False)"


text \<open>The fields of a submessage are looked at in turn.\<close>

function default_loop :: "(pb_msgdesc \<Rightarrow> nat \<Rightarrow> bool option) \<Rightarrow> bytes \<Rightarrow> pb_field_iter \<Rightarrow> bool option" where
  "default_loop chk mem it = (case pb_check_proto3_default_value chk mem it of
     None \<Rightarrow> None
   | Some False \<Rightarrow> Some False
   | Some True \<Rightarrow> (case pb_field_iter_next mem it of
       None \<Rightarrow> None
     | Some (True, it') \<Rightarrow> default_loop chk mem it'
     | Some (False, _) \<Rightarrow> Some True))"
  by auto
termination
  by (relation "measure (\<lambda>(_, _, it). unat (field_count (it_descriptor it)) - unat (it_index it))")
    (auto dest!: iter_next_index simp: word_less_nat_alt)

declare default_loop.simps [simp del]

text \<open>The guard only says what the iterator does, which takes a submessage's descriptor from its message's.\<close>

function message_is_default :: "bytes \<Rightarrow> pb_msgdesc \<Rightarrow> nat \<Rightarrow> bool option" where
  "message_is_default mem d a = (case pb_field_iter_begin mem d a of
     None \<Rightarrow> None
   | Some (False, _) \<Rightarrow> Some True
   | Some (True, it) \<Rightarrow> default_loop (\<lambda>d' a'. if d' \<in> set (submsg_info d) then message_is_default mem d' a' else None) mem it)"
  by auto

lemma size_submsg: "d' \<in> set (submsg_info d) \<Longrightarrow> size d' < size d"
  by (cases d) (auto dest!: size_list_estimation' [where f = size, OF _ order_refl])

termination message_is_default
  by (relation "measure (\<lambda>(_, d, _). size d)") (auto dest: size_submsg)

declare message_is_default.simps [simp del]

text \<open>The beginning of \<open>encode_field\<close>: whether the field is left out.\<close>

definition field_missing :: "bytes \<Rightarrow> pb_field_iter \<Rightarrow> bool option" where
  "field_missing mem field =
     (if PB_HTYPE (it_type field) = PB_HTYPE_ONEOF then map_option (\<lambda>n. n \<noteq> it_tag field) (load_size mem field)
      else if PB_HTYPE (it_type field) = PB_HTYPE_OPTIONAL
      then if it_pSize field \<noteq> SizeNULL then map_option Not (Option.bind (size_address field) (safe_read_bool mem))
        else if PB_ATYPE (it_type field) = PB_ATYPE_STATIC then pb_check_proto3_default_value (message_is_default mem) mem field
        else Some False
      else Some False)"

definition encode_field :: "encoder \<Rightarrow> bytes \<Rightarrow> pb_field_iter \<Rightarrow> pb_ostream \<Rightarrow> (unit, pb_ostream) outcome" where
  "encode_field enc mem field s = pb_bind (need (field_missing mem field) s) (\<lambda>missing s.
     if missing then Ok () s
     else if it_pData field = 0
     then if PB_HTYPE (it_type field) = PB_HTYPE_REQUIRED then os_error ''missing required field'' s else Ok () s
     else if PB_ATYPE (it_type field) = PB_ATYPE_CALLBACK then encode_callback_field mem field s
     else if PB_HTYPE (it_type field) = PB_HTYPE_REPEATED then encode_array enc mem field s
     else encode_basic_field enc mem field s)"

text \<open>The extensions of a message are a list in memory; a list that is not empty is not modelled.\<close>

definition encode_extension_field :: "bytes \<Rightarrow> pb_field_iter \<Rightarrow> pb_ostream \<Rightarrow> (unit, pb_ostream) outcome" where
  "encode_extension_field mem field s = pb_bind (need (load_ptr (it_pData field) mem) s) (\<lambda>extension s.
     if extension \<noteq> 0 then Undef else Ok () s)"

section \<open>Encoding a message\<close>

function encode_loop :: "encoder \<Rightarrow> bytes \<Rightarrow> pb_field_iter \<Rightarrow> pb_ostream \<Rightarrow> (unit, pb_ostream) outcome" where
  "encode_loop enc mem it s = pb_bind
     (if PB_LTYPE (it_type it) = PB_LTYPE_EXTENSION then encode_extension_field mem it s else encode_field enc mem it s)
     (\<lambda>_ s. case pb_field_iter_next mem it of
         None \<Rightarrow> Undef
       | Some (True, it') \<Rightarrow> encode_loop enc mem it' s
       | Some (False, _) \<Rightarrow> Ok () s)"
  by auto
termination
  by (relation "measure (\<lambda>(_, _, it, _). unat (field_count (it_descriptor it)) - unat (it_index it))")
    (auto dest!: iter_next_index simp: word_less_nat_alt)

declare encode_loop.simps [simp del]

function pb_encode :: "bytes \<Rightarrow> pb_msgdesc \<Rightarrow> nat \<Rightarrow> pb_ostream \<Rightarrow> (unit, pb_ostream) outcome" where
  "pb_encode mem d a s = (case pb_field_iter_begin mem d a of
     None \<Rightarrow> Undef
   | Some (False, _) \<Rightarrow> Ok () s
   | Some (True, it) \<Rightarrow> encode_loop (\<lambda>d' a' s'. if d' \<in> set (submsg_info d) then pb_encode mem d' a' s' else Undef) mem it s)"
  by auto
termination
  by (relation "measure (\<lambda>(_, d, _, _). size d)") (auto dest: size_submsg)

declare pb_encode.simps [simp del]

definition PB_ENCODE_DELIMITED :: u32 where "PB_ENCODE_DELIMITED = 0x02"
definition PB_ENCODE_NULLTERMINATED :: u32 where "PB_ENCODE_NULLTERMINATED = 0x04"

definition pb_encode_ex :: "bytes \<Rightarrow> pb_msgdesc \<Rightarrow> nat \<Rightarrow> u32 \<Rightarrow> pb_ostream \<Rightarrow> (unit, pb_ostream) outcome" where
  "pb_encode_ex mem d a flags s =
     (if flags AND PB_ENCODE_DELIMITED \<noteq> 0 then pb_encode_submessage (pb_encode mem) d a s
      else if flags AND PB_ENCODE_NULLTERMINATED \<noteq> 0 then pb_bind (pb_encode mem d a s) (\<lambda>_ s. pb_write [0] 1 s)
      else pb_encode mem d a s)"

definition pb_get_encoded_size :: "bytes \<Rightarrow> pb_msgdesc \<Rightarrow> nat \<Rightarrow> (u64, pb_ostream) outcome" where
  "pb_get_encoded_size mem d a = pb_bind (pb_encode mem d a PB_OSTREAM_SIZING) (\<lambda>_ s. Ok (os_bytes_written s) s)"


section \<open>What a message is on the wire\<close>

text \<open>
  The reference: a message is the concatenation of its fields, a field is its tag and the value, arrays of numbers are
  packed. \<open>None\<close> where a value is not valid or not in memory, or the field belongs to the application.
\<close>

definition sext :: "nat \<Rightarrow> nat \<Rightarrow> u64" where
  "sext n v = (if n = 1 then scast (of_nat v :: u8) else if n = 2 then scast (of_nat v :: u16)
     else if n = 4 then scast (of_nat v :: u32) else of_nat v)"

definition no_callback :: "bytes \<Rightarrow> pb_field_iter \<Rightarrow> bool" where
  "no_callback mem it \<longleftrightarrow> \<not> (PB_LTYPE (it_type it) = PB_LTYPE_SUBMSG_W_CB \<and> it_pSize it \<noteq> SizeNULL)
     \<or> Option.bind (size_address it) (\<lambda>a. if a < 16 then None else load_ptr (a - 16) mem) = Some 0"

definition c_string :: "bytes \<Rightarrow> bytes" where
  "c_string p = takeWhile (\<lambda>c. c \<noteq> 0) p"

definition field_val :: "(pb_msgdesc \<Rightarrow> nat \<Rightarrow> bytes option) \<Rightarrow> bytes \<Rightarrow> pb_field_iter \<Rightarrow> wire_val option" where
  "field_val msg mem it = (let t = PB_LTYPE (it_type it); n = unat (it_data_size it); p = it_pData it;
      static = (PB_ATYPE (it_type it) \<noteq> PB_ATYPE_POINTER) in
     if t = PB_LTYPE_BOOL then map_option (\<lambda>b. WVarint (if b \<noteq> 0 then 1 else 0)) (load_num p 1 mem)
     else if t = PB_LTYPE_UVARINT then
       if n = 1 \<or> n = 2 \<or> n = 4 \<or> n = 8 then map_option (\<lambda>v. WVarint (of_nat v)) (load_num p n mem) else None
     else if t = PB_LTYPE_VARINT then
       if n = 1 \<or> n = 2 \<or> n = 4 \<or> n = 8 then map_option (\<lambda>v. WVarint (sext n v)) (load_num p n mem) else None
     else if t = PB_LTYPE_SVARINT then
       if n = 1 \<or> n = 2 \<or> n = 4 \<or> n = 8
       then map_option (\<lambda>v. WVarint (of_nat (zigzag (sint (sext n v))))) (load_num p n mem) else None
     else if t = PB_LTYPE_FIXED32 then if n = 4 then map_option (\<lambda>v. W32 (of_nat v)) (load_num p 4 mem) else None
     else if t = PB_LTYPE_FIXED64 then if n = 8 then map_option (\<lambda>v. W64 (of_nat v)) (load_num p 8 mem) else None
     else if t = PB_LTYPE_BYTES then Option.bind (load_num p 2 mem) (\<lambda>sz.
       if static \<and> n < sz + 2 then None else map_option WString (mem_read (p + 2) sz mem))
     else if t = PB_LTYPE_STRING then let str = c_string (drop p mem) in
       if p + length str < length mem \<and> (static \<longrightarrow> length str < n) then Some (WString str) else None
     else if t = PB_LTYPE_SUBMESSAGE \<or> t = PB_LTYPE_SUBMSG_W_CB then
       if no_callback mem it then Option.bind (it_submsg_desc it) (\<lambda>d. map_option WString (msg d p)) else None
     else if t = PB_LTYPE_FIXED_LENGTH_BYTES then map_option WString (mem_read p n mem)
     else None)"

definition field_wire :: "pb_field_iter \<Rightarrow> wire_val \<Rightarrow> bytes" where
  "field_wire it v = wire_tag (ucast (it_tag it)) (wire_type v) @ wire_body v"

fun each_val :: "(pb_field_iter \<Rightarrow> wire_val option) \<Rightarrow> nat \<Rightarrow> pb_field_iter \<Rightarrow> wire_val list option" where
  "each_val f 0 it = Some []"
| "each_val f (Suc n) it = Option.bind (f it) (\<lambda>v.
     map_option (\<lambda>vs. v # vs) (each_val f n (it\<lparr>it_pData := it_pData it + unat (it_data_size it)\<rparr>)))"

text \<open>Bools in an array are stored as they are, so they must be 0 or 1.\<close>

definition packed_val :: "bytes \<Rightarrow> pb_field_iter \<Rightarrow> wire_val option" where
  "packed_val mem it =
     (if PB_LTYPE (it_type it) = PB_LTYPE_BOOL
      then if it_data_size it = 1
        then Option.bind (load_num (it_pData it) 1 mem) (\<lambda>b. if b \<le> 1 then Some (WVarint (of_nat b)) else None) else None
      else field_val (\<lambda>_ _. None) mem it)"

definition item_val :: "(pb_msgdesc \<Rightarrow> nat \<Rightarrow> bytes option) \<Rightarrow> bytes \<Rightarrow> pb_field_iter \<Rightarrow> wire_val option" where
  "item_val msg mem it =
     (if PB_ATYPE (it_type it) = PB_ATYPE_POINTER
        \<and> (PB_LTYPE (it_type it) = PB_LTYPE_STRING \<or> PB_LTYPE (it_type it) = PB_LTYPE_BYTES)
      then Option.bind (load_ptr (it_pData it) mem) (\<lambda>p.
        if p = 0 then Some (WString []) else field_val msg mem (it\<lparr>it_pData := p\<rparr>))
      else field_val msg mem it)"

definition array_wire :: "(pb_msgdesc \<Rightarrow> nat \<Rightarrow> bytes option) \<Rightarrow> bytes \<Rightarrow> pb_field_iter \<Rightarrow> bytes option" where
  "array_wire msg mem it = Option.bind (load_size mem it) (\<lambda>count.
     if PB_ATYPE (it_type it) \<noteq> PB_ATYPE_POINTER \<and> count > it_array_size it then None
     else if count = 0 then Some []
     else if PB_LTYPE (it_type it) \<le> PB_LTYPE_LAST_PACKABLE
     then map_option (\<lambda>vs. field_wire it (WString (concat (map wire_body vs)))) (each_val (packed_val mem) (unat count) it)
     else map_option (\<lambda>vs. concat (map (field_wire it) vs)) (each_val (item_val msg mem) (unat count) it))"

definition field_bytes :: "(pb_msgdesc \<Rightarrow> nat \<Rightarrow> bytes option) \<Rightarrow> bytes \<Rightarrow> pb_field_iter \<Rightarrow> bytes option" where
  "field_bytes msg mem it =
     (if PB_LTYPE (it_type it) = PB_LTYPE_EXTENSION then if load_ptr (it_pData it) mem = Some 0 then Some [] else None
      else Option.bind (field_missing mem it) (\<lambda>missing.
        if missing \<or> it_pData it = 0 \<and> PB_HTYPE (it_type it) \<noteq> PB_HTYPE_REQUIRED then Some []
        else if it_pData it = 0 then None
        else if PB_ATYPE (it_type it) = PB_ATYPE_CALLBACK then
          if field_callback (it_descriptor it) = NoCallback
             \<or> field_callback (it_descriptor it) = DefaultCallback \<and> (it_data_size it = 16 \<longrightarrow> load_ptr (it_pData it) mem = Some 0)
          then Some [] else None
        else if PB_HTYPE (it_type it) = PB_HTYPE_REPEATED then array_wire msg mem it
        else map_option (field_wire it) (field_val msg mem it)))"

fun concat_opt :: "bytes option list \<Rightarrow> bytes option" where
  "concat_opt [] = Some []"
| "concat_opt (x # xs) = Option.bind x (\<lambda>b. map_option (\<lambda>bs. b @ bs) (concat_opt xs))"

function msg_bytes :: "bytes \<Rightarrow> pb_msgdesc \<Rightarrow> nat \<Rightarrow> bytes option" where
  "msg_bytes mem d a =
     (if desc_ok d \<and> loadable mem d a \<and> a \<noteq> 0
      then concat_opt (map (\<lambda>k. field_bytes (\<lambda>d' a'. if d' \<in> set (submsg_info d) then msg_bytes mem d' a' else None) mem
        (iter_at mem d a k)) [0..<n_fields d])
      else None)"
  by auto
termination
  by (relation "measure (\<lambda>(_, d, _). size d)") (auto dest: size_submsg)

declare msg_bytes.simps [simp del]

end
