(* ===== verification/PbEncodeWire.thy ===== *)
theory PbEncodeWire
  imports PbEncode
begin

text \<open>
  The encoder writes the wire form: each function of \<open>PbEncode\<close> writes the bytes that the reference says, to every
  stream, or fails because they do not fit. Streams whose limit is beyond \<open>2 ^ 63\<close> are left out; no buffer has
  such a size.
\<close>

section \<open>Writing certain bytes\<close>

definition good :: "pb_ostream \<Rightarrow> bool" where
  "good s \<longleftrightarrow> os_ok s \<and> unat (os_max_size s) < 2 ^ 63 \<and> os_errmsg s = None"

definition full :: "(unit, pb_ostream) outcome \<Rightarrow> bool" where
  "full res \<longleftrightarrow> (\<exists>s'. res = Err s' \<and> os_errmsg s' = Some ''stream full'')"

definition puts :: "bytes \<Rightarrow> pb_ostream \<Rightarrow> (unit, pb_ostream) outcome \<Rightarrow> bool" where
  "puts d s res \<longleftrightarrow> (if fits (length d) s then \<exists>s'. res = Ok () s' \<and> wrote d s s' else full res)"

definition emits :: "bytes \<Rightarrow> (pb_ostream \<Rightarrow> (unit, pb_ostream) outcome) \<Rightarrow> bool" where
  "emits d f \<longleftrightarrow> (\<forall>s. good s \<longrightarrow> puts d s (f s))"

lemma emitsD: "emits d f \<Longrightarrow> good s \<Longrightarrow> puts d s (f s)"
  by (simp add: emits_def)

lemma putsD:
  assumes "puts d s res"
  shows "fits (length d) s \<Longrightarrow> \<exists>s'. res = Ok () s' \<and> wrote d s s'" "\<not> fits (length d) s \<Longrightarrow> full res"
  using assms by (simp_all add: puts_def)

lemma wrote_good: "wrote d s s' \<Longrightarrow> good s \<Longrightarrow> good s'"
  by (simp add: wrote_def good_def)

lemma os_ok_bound: "os_ok s \<Longrightarrow> os_callback s \<Longrightarrow> os_state s \<le> length (os_mem s)"
  by (simp add: os_ok_def)

lemma wrote_state: "wrote d s s' \<Longrightarrow> os_ok s \<Longrightarrow> os_callback s \<Longrightarrow> os_state s' = os_state s + length d"
proof -
  assume w: "wrote d s s'" and ok: "os_ok s" "os_callback s"
  have b: "os_state s' \<le> length (os_mem s')" "os_state s \<le> length (os_mem s)" "written s' = written s @ d"
    using w ok os_ok_bound [of s'] os_ok_bound [of s] by (simp_all add: wrote_def)
  have "length (written s') = os_state s'" "length (written s) = os_state s" using b(1,2) by (simp_all add: written_def)
  then show ?thesis using b(3) by simp
qed

lemma wrote_refl: "os_ok s \<Longrightarrow> wrote [] s s"
  by (simp add: wrote_def)

lemma wrote_count:
  assumes "wrote d s s'" "fits (length d) s" "os_callback s"
  shows "unat (os_bytes_written s') = unat (os_bytes_written s) + length d"
proof -
  have le: "unat (os_bytes_written s) + length d < 2 ^ 64"
    using assms(2,3) unat_lt_size [of "os_max_size s"] by (simp add: fits_def)
  have "unat (of_nat (length d) :: u64) = length d" using le by (simp add: unsigned_of_nat take_bit_nat_eq_self)
  then show ?thesis using assms(1) le by (simp add: wrote_def unat_add_nowrap)
qed

lemma fits_append:
  assumes "wrote d s s'" "fits (length d) s"
  shows "fits (length d + n) s \<longleftrightarrow> fits n s'"
  using wrote_count [OF assms] assms(1) by (auto simp: fits_def wrote_def)

lemma fits_less: "fits (m + n) s \<Longrightarrow> fits m s"
  by (auto simp: fits_def)

lemma wrote_trans:
  assumes "wrote d s s'" "wrote e s' s''" "os_ok s"
  shows "wrote (d @ e) s s''"
proof -
  have "drop (os_state s'') (os_mem s'') = drop (os_state s'') (os_mem s)" if "os_callback s"
  proof -
    have "os_state s'' = os_state s' + length e" using wrote_state [OF assms(2)] assms(1) that by (simp add: wrote_def)
    moreover have "drop (os_state s') (os_mem s') = drop (os_state s') (os_mem s)" using assms(1) that by (simp add: wrote_def)
    ultimately have "drop (os_state s'') (os_mem s') = drop (os_state s'') (os_mem s)"
      by (metis add.commute drop_drop)
    then show ?thesis using assms(1,2) that by (simp add: wrote_def)
  qed
  then show ?thesis using assms by (simp add: wrote_def)
qed

lemma emits_nil: "emits [] (Ok ())"
  by (auto simp: emits_def puts_def good_def wrote_refl fits_def os_ok_def)

lemma emits_seq:
  assumes "emits d f" "emits e g"
  shows "emits (d @ e) (\<lambda>s. pb_bind (f s) (\<lambda>_ s. g s))"
  unfolding emits_def
proof (intro allI impI)
  fix s assume s: "good s"
  show "puts (d @ e) s (pb_bind (f s) (\<lambda>_ s. g s))"
  proof (cases "fits (length d) s")
    case True
    then obtain s' where s': "f s = Ok () s'" "wrote d s s'" using putsD(1) [OF emitsD [OF assms(1) s]] by blast
    have g: "puts e s' (g s')" using assms(2) wrote_good [OF s'(2) s] by (simp add: emits_def)
    show ?thesis using g s' wrote_trans [OF s'(2)] s fits_append [OF s'(2) True, of "length e"]
      by (auto simp: puts_def good_def)
  next
    case False
    then have "full (f s)" using putsD(2) [OF emitsD [OF assms(1) s]] by blast
    then show ?thesis using False fits_less by (auto simp: puts_def full_def)
  qed
qed

lemma emits_cong: "(\<And>s. f s = g s) \<Longrightarrow> emits d f \<longleftrightarrow> emits d g"
  by (simp add: emits_def)

lemma emits_write:
  assumes "unat count = length d" "length d \<le> length buf" "take (length d) buf = d"
  shows "emits d (pb_write buf count)"
  unfolding emits_def
proof (intro allI impI)
  fix s assume s: "good s"
  have "mem_read 0 (unat count) buf = Some d" "mem_read 0 (unat count) d = Some d"
    using assms by (simp_all add: mem_read_def mem_get_def)
  then have eq: "pb_write buf count s = pb_write d count s" by (simp add: pb_write_def buf_write_def)
  show "puts d s (pb_write buf count s)"
  proof (cases "fits (length d) s")
    case True
    then show ?thesis using pb_write_ok [of s d count] s assms(1) by (simp add: eq puts_def good_def)
  next
    case False
    then show ?thesis using pb_write_full [of s count d] s assms(1) by (simp add: eq puts_def good_def full_def)
  qed
qed

lemma emits_bytes: "length d < 2 ^ 64 \<Longrightarrow> emits d (pb_write d (of_nat (length d)))"
  by (intro emits_write) (simp_all add: unsigned_of_nat take_bit_nat_eq_self)

lemma emits_varint: "emits (leb (unat v)) (pb_encode_varint v)"
proof -
  have "length (leb (unat v)) < 2 ^ 64" using leb_word [of v] by simp
  from emits_bytes [OF this] show ?thesis by (simp add: emits_def pb_encode_varint_is)
qed

lemma emits_svarint: "emits (leb (zigzag (sint v))) (pb_encode_svarint v)"
proof -
  have "length (leb (zigzag (sint v))) \<le> 10" using zigzag_less [of v] by (intro leb_length) simp_all
  then have "length (leb (zigzag (sint v))) < 2 ^ 64" by simp
  from emits_bytes [OF this] show ?thesis by (simp add: emits_def pb_encode_svarint_is)
qed

lemma emits_fixed32: "emits (le_bytes 4 (unat v)) (pb_encode_fixed32 v)"
  using emits_bytes [of "le_bytes 4 (unat v)"] by (simp add: emits_def pb_encode_fixed32_is)

lemma emits_fixed64: "emits (le_bytes 8 (unat v)) (pb_encode_fixed64 v)"
  using emits_bytes [of "le_bytes 8 (unat v)"] by (simp add: emits_def pb_encode_fixed64_is)

lemma emits_tag: "unat wt < 8 \<Longrightarrow> emits (wire_tag tag wt) (pb_encode_tag wt tag)"
proof -
  assume wt: "unat wt < 8"
  have u: "unat (ucast wt :: u64) = unat wt" "unat (ucast tag :: u64) = unat tag"
    using unat_lt_size [of wt] unat_lt_size [of tag] by (simp_all add: unat_ucast_fit)
  have p: "unat (push_bit 3 (ucast tag) :: u64) = unat tag * 8"
    using u(2) unat_lt_size [of tag] by (subst unat_push_fit) simp_all
  have "unat (push_bit 3 (ucast tag) OR ucast wt :: u64) = 8 * unat tag + unat wt"
    using or_push [of "ucast wt :: u64" 3 "ucast tag"] u(1) p wt by (simp add: or.commute)
  then show ?thesis using emits_varint [of "push_bit 3 (ucast tag) OR ucast wt"]
    by (simp add: emits_def pb_encode_tag_def wire_tag_def)
qed

lemma emits_string:
  assumes "unat sz = length d" "length d \<le> length buf" "take (length d) buf = d"
  shows "emits (leb (length d) @ d) (pb_encode_string buf sz)"
proof -
  have "emits (leb (length d)) (pb_encode_varint sz)" using emits_varint [of sz] assms(1) by simp
  from emits_seq [OF this emits_write [OF assms]] show ?thesis by (simp add: emits_def pb_encode_string_def)
qed

lemma emits_needed: "emits d (f x) \<Longrightarrow> emits d (\<lambda>s. pb_bind (need (Some x) s) (\<lambda>x s. f x s))"
  by (simp add: emits_def)


section \<open>Submessages\<close>

lemma size_check:
  assumes "good s" "os_callback s" "length b < 2 ^ 63"
  shows "os_bytes_written s + of_nat (length b) > os_max_size s \<longleftrightarrow> \<not> fits (length b) s"
proof -
  have u: "unat (of_nat (length b) :: u64) = length b" using assms(3) by (simp add: unsigned_of_nat take_bit_nat_eq_self)
  have "unat (os_bytes_written s + of_nat (length b)) = unat (os_bytes_written s) + length b"
    using assms u by (intro trans [OF unat_add_nowrap]) (simp_all add: good_def os_ok_def)
  then show ?thesis using assms(2) by (auto simp: word_less_nat_alt fits_def)
qed

lemma sizing_good: "good PB_OSTREAM_SIZING" "fits n PB_OSTREAM_SIZING"
  by (simp_all add: good_def os_ok_def fits_def PB_OSTREAM_SIZING_def)

text \<open>The second time, the substream is the rest of the stream, as long as the first time has said.\<close>

lemma substream_puts:
  assumes s: "good s" "os_callback s" "fits (length b) s" and len: "length b < 2 ^ 63" and e: "emits b f"
  defines "sub \<equiv> \<lparr>os_callback = True, os_mem = os_mem s, os_state = os_state s, os_max_size = of_nat (length b),
    os_bytes_written = 0, os_errmsg = None\<rparr>"
  shows "\<exists>sub' s'. f sub = Ok () sub' \<and> after_substream (of_nat (length b)) True sub' s = Ok () s' \<and> wrote b s s'"
proof -
  have u: "unat (of_nat (length b) :: u64) = length b" using len by (simp add: unsigned_of_nat take_bit_nat_eq_self)
  have ok: "os_ok s" using s(1) by (simp add: good_def)
  have bw: "unat (os_bytes_written s) + length b \<le> unat (os_max_size s)" using s(2,3) by (simp add: fits_def)
  have mem: "os_state s + (unat (os_max_size s) - unat (os_bytes_written s)) \<le> length (os_mem s)"
    using ok s(2) unfolding os_ok_def by blast
  have room: "os_state s + length b \<le> length (os_mem s)" using mem bw by linarith
  have "good sub" using room len u by (simp add: good_def os_ok_def sub_def)
  moreover have "fits (length b) sub" using u by (simp add: fits_def sub_def)
  ultimately obtain sub' where sub': "f sub = Ok () sub'" "wrote b sub sub'"
    using putsD(1) [OF emitsD [OF e]] by blast
  have w: "os_bytes_written sub' = of_nat (length b)" "written sub' = take (os_state s) (os_mem s) @ b"
    "length (os_mem sub') = length (os_mem s)" "drop (os_state sub') (os_mem sub') = drop (os_state sub') (os_mem s)"
    "os_errmsg sub' = None"
    using sub'(2) by (simp_all add: wrote_def sub_def written_def)
  have st: "os_state sub' = os_state s + length b"
    using wrote_state [OF sub'(2)] \<open>good sub\<close> by (simp add: good_def sub_def)
  let ?s = "s\<lparr>os_bytes_written := os_bytes_written s + os_bytes_written sub', os_state := os_state sub',
    os_mem := os_mem sub', os_errmsg := os_errmsg sub'\<rparr>"
  have aft: "after_substream (of_nat (length b)) True sub' s = Ok () ?s" using w(1) by (simp add: after_substream_def Let_def)
  have bw': "unat (os_bytes_written s + of_nat (length b)) = unat (os_bytes_written s) + length b"
    using bw u unat_lt_size [of "os_max_size s"] by (intro trans [OF unat_add_nowrap]) simp_all
  have "os_state s + length b + (unat (os_max_size s) - (unat (os_bytes_written s) + length b)) \<le> length (os_mem s)"
    using mem bw by linarith
  then have "os_ok ?s" using w st bw bw' s(2) by (simp add: os_ok_def)
  then have wr: "wrote b s ?s" using w st s by (simp add: wrote_def written_def good_def)
  with sub'(1) show ?thesis using aft by blast
qed

lemma emits_submessage:
  assumes e: "emits b (enc d p)" and len: "length b < 2 ^ 63"
  shows "emits (leb (length b) @ b) (pb_encode_submessage enc d p)"
proof -
  let ?sz = "of_nat (length b) :: u64"
  have u: "unat ?sz = length b" using len by (simp add: unsigned_of_nat take_bit_nat_eq_self)
  obtain sub where sub: "enc d p PB_OSTREAM_SIZING = Ok () sub" "wrote b PB_OSTREAM_SIZING sub"
    using putsD(1) [OF emitsD [OF e sizing_good(1)] sizing_good(2)] by blast
  have sz: "os_bytes_written sub = ?sz" using sub(2) by (simp add: wrote_def PB_OSTREAM_SIZING_def)
  define g where "g = (\<lambda>s. if \<not> os_callback s then pb_write [] ?sz s
            else if os_bytes_written s + ?sz > os_max_size s then os_error ''stream full'' s
            else (case enc d p (sub\<lparr>os_callback := os_callback s, os_mem := os_mem s, os_state := os_state s,
                    os_max_size := ?sz, os_bytes_written := 0, os_errmsg := None\<rparr>) of
                Undef \<Rightarrow> Undef
              | Err sub \<Rightarrow> after_substream ?sz False sub s
              | Ok _ sub \<Rightarrow> after_substream ?sz True sub s))"
  have eq: "pb_encode_submessage enc d p s = pb_bind (pb_encode_varint ?sz s) (\<lambda>_ s. g s)" for s
    unfolding pb_encode_submessage_def g_def sub(1) outcome.case Let_def sz by (rule refl)
  have "emits b g" unfolding emits_def
  proof (intro allI impI)
    fix s assume s: "good s"
    show "puts b s (g s)"
    proof (cases "os_callback s")
      case False
      then show ?thesis using s u by (auto simp: g_def pb_write_def puts_def fits_def wrote_def good_def os_ok_def)
    next
      case True
      show ?thesis
      proof (cases "fits (length b) s")
        case False
        then show ?thesis using True size_check [OF s True len] s
          by (auto simp: g_def puts_def full_def os_error_def good_def)
      next
        case fit: True
        have r: "sub\<lparr>os_callback := True, os_mem := os_mem s, os_state := os_state s, os_max_size := ?sz,
            os_bytes_written := 0, os_errmsg := None\<rparr> = \<lparr>os_callback = True, os_mem = os_mem s, os_state = os_state s,
            os_max_size = ?sz, os_bytes_written = 0, os_errmsg = None\<rparr>" using True by (cases sub) simp
        obtain sub' s' where "enc d p \<lparr>os_callback = True, os_mem = os_mem s, os_state = os_state s,
            os_max_size = ?sz, os_bytes_written = 0, os_errmsg = None\<rparr> = Ok () sub'"
          "after_substream ?sz True sub' s = Ok () s'" "wrote b s s'"
          using substream_puts [OF s True fit len e] by blast
        then show ?thesis using True fit size_check [OF s True len] by (simp add: g_def r puts_def)
      qed
    qed
  qed
  moreover have "emits (leb (length b)) (pb_encode_varint ?sz)" using emits_varint [of ?sz] u by simp
  ultimately have "emits (leb (length b) @ b) (\<lambda>s. pb_bind (pb_encode_varint ?sz s) (\<lambda>_ s. g s))" by (intro emits_seq)
  then show ?thesis by (simp add: emits_def eq)
qed


section \<open>The value of a field\<close>

lemma emits_value: "emits d (f x) \<Longrightarrow> emits d (\<lambda>s. pb_bind (need (Some x) s) f)"
  by (simp add: emits_def)

lemma u16_eq: "unat (x :: u16) = 1 \<longleftrightarrow> x = 1" "unat x = 2 \<longleftrightarrow> x = 2" "unat x = 4 \<longleftrightarrow> x = 4" "unat x = 8 \<longleftrightarrow> x = 8"
  by (simp_all add: word_unat_eq_iff)

lemma load_num_less: "load_num a n mem = Some v \<Longrightarrow> v < 256 ^ n"
  by (auto simp: load_num_def mem_read_def split: if_splits) (metis add_leE length_mem_get le_val_less min.absorb1 le_diff_conv2 add.commute)

lemma emits_enc_bool:
  assumes "load_num (it_pData it) 1 mem = Some b"
  shows "emits (leb (if b \<noteq> 0 then 1 else 0)) (pb_enc_bool mem it)"
proof -
  have "pb_enc_bool mem it s = pb_encode_varint (if b \<noteq> 0 then 1 else 0) s" for s
    unfolding pb_enc_bool_def safe_read_bool_def assms by simp
  then show ?thesis using emits_varint [of "if b \<noteq> 0 then 1 else 0"] by (simp add: emits_def split: if_splits)
qed

lemma emits_enc_varint:
  assumes t: "PB_LTYPE (it_type it) \<in> {PB_LTYPE_VARINT, PB_LTYPE_UVARINT, PB_LTYPE_SVARINT}"
    and v: "field_val msg mem it = Some v"
  shows "emits (wire_body v) (pb_enc_varint mem it)"
proof -
  let ?n = "unat (it_data_size it)"
  have n: "?n = 1 \<or> ?n = 2 \<or> ?n = 4 \<or> ?n = 8"
    using t v by (auto simp: field_val_def Let_def ltype_defs split: if_splits)
  obtain u where u: "load_num (it_pData it) ?n mem = Some u"
    using t v n by (auto simp: field_val_def Let_def ltype_defs split: if_splits)
  have d: "it_data_size it = 1 \<or> it_data_size it = 2 \<or> it_data_size it = 4 \<or> it_data_size it = 8" using n unfolding u16_eq .
  consider "PB_LTYPE (it_type it) = PB_LTYPE_UVARINT" | "PB_LTYPE (it_type it) = PB_LTYPE_VARINT"
    | "PB_LTYPE (it_type it) = PB_LTYPE_SVARINT" using t by blast
  then show ?thesis
  proof cases
    case 1
    then have "v = WVarint (of_nat u)" using v n u by (simp add: field_val_def Let_def ltype_defs)
    then show ?thesis using emits_varint [of "of_nat u"] 1 d u by (simp add: emits_def pb_enc_varint_def)
  next
    case 2
    then have v: "v = WVarint (sext ?n u)" using v n u by (simp add: field_val_def Let_def ltype_defs)
    have "pb_enc_varint mem it s = pb_encode_varint (sext ?n u) s" for s
      using 2 d u by (auto simp: pb_enc_varint_def Let_def ltype_defs sext_def)
    then show ?thesis using emits_varint [of "sext ?n u"] v by (simp add: emits_def)
  next
    case 3
    then have v: "v = WVarint (of_nat (zigzag (sint (sext ?n u))))" using v n u by (simp add: field_val_def Let_def ltype_defs)
    have z: "unat (of_nat (zigzag (sint (sext ?n u))) :: u64) = zigzag (sint (sext ?n u))"
      using zigzag_less [of "sext ?n u"] by (simp add: unsigned_of_nat take_bit_nat_eq_self)
    have "pb_enc_varint mem it s = pb_encode_svarint (sext ?n u) s" for s
      using 3 d u by (auto simp: pb_enc_varint_def Let_def ltype_defs sext_def)
    then show ?thesis using emits_svarint [of "sext ?n u"] v z by (simp add: emits_def)
  qed
qed

lemma emits_enc_fixed:
  assumes t: "PB_LTYPE (it_type it) = PB_LTYPE_FIXED32 \<or> PB_LTYPE (it_type it) = PB_LTYPE_FIXED64"
    and v: "field_val msg mem it = Some v"
  shows "emits (wire_body v) (pb_enc_fixed mem it)"
  using t
proof
  assume t: "PB_LTYPE (it_type it) = PB_LTYPE_FIXED32"
  then obtain u where "it_data_size it = 4" "load_num (it_pData it) 4 mem = Some u" "v = W32 (of_nat u)"
    using v by (auto simp: field_val_def Let_def ltype_defs u16_eq split: if_splits)
  then show ?thesis using emits_fixed32 [of "of_nat u"] by (simp add: emits_def pb_enc_fixed_def)
next
  assume t: "PB_LTYPE (it_type it) = PB_LTYPE_FIXED64"
  then obtain u where "it_data_size it = 8" "load_num (it_pData it) 8 mem = Some u" "v = W64 (of_nat u)"
    using v by (auto simp: field_val_def Let_def ltype_defs u16_eq split: if_splits)
  then show ?thesis using emits_fixed64 [of "of_nat u"] by (simp add: emits_def pb_enc_fixed_def)
qed

lemma emits_mem:
  assumes "mem_read p (length d) mem = Some d" "unat sz = length d"
  shows "emits (leb (length d) @ d) (pb_encode_string (drop p mem) sz)"
  using assms by (intro emits_string) (auto simp: mem_read_def mem_get_def split: if_splits)

lemma mem_read_length: "mem_read p n mem = Some d \<Longrightarrow> length d = n"
  by (auto simp: mem_read_def split: if_splits)

lemma emits_enc_bytes:
  assumes t: "PB_LTYPE (it_type it) = PB_LTYPE_BYTES" and p: "it_pData it \<noteq> 0" and v: "field_val msg mem it = Some v"
  shows "emits (wire_body v) (pb_enc_bytes mem it)"
proof -
  obtain sz d where d: "load_num (it_pData it) 2 mem = Some sz" "mem_read (it_pData it + 2) sz mem = Some d" "v = WString d"
    "PB_ATYPE (it_type it) \<noteq> PB_ATYPE_POINTER \<Longrightarrow> sz + 2 \<le> unat (it_data_size it)"
    using v t by (auto simp: field_val_def Let_def ltype_defs bind_eq_Some_conv split: if_splits)
  have len: "length d = sz" using mem_read_length [OF d(2)] .
  have sz: "unat (of_nat sz :: u64) = sz" using load_num_less [OF d(1)] by (simp add: unsigned_of_nat take_bit_nat_eq_self)
  have "\<not> (of_nat sz > (ucast (it_data_size it) - 2 :: u64))" if "PB_ATYPE (it_type it) = PB_ATYPE_STATIC"
  proof -
    have le: "sz + 2 \<le> unat (it_data_size it)" using d(4) that by (simp add: atype_defs)
    have u: "unat (ucast (it_data_size it) :: u64) = unat (it_data_size it)"
      using unat_lt_size [of "it_data_size it"] by (simp add: unat_ucast_fit)
    have "unat (ucast (it_data_size it) - 2 :: u64) = unat (it_data_size it) - 2"
      using u le by (subst unat_sub_nowrap) simp_all
    then show ?thesis using le sz by (simp add: word_less_nat_alt not_less)
  qed
  then have "pb_enc_bytes mem it s = pb_encode_string (drop (it_pData it + 2) mem) (of_nat sz) s" for s
    using p d(1) by (auto simp: pb_enc_bytes_def)
  moreover have "emits (leb (length d) @ d) (pb_encode_string (drop (it_pData it + 2) mem) (of_nat sz))"
    using d(2) len sz by (intro emits_mem) simp_all
  ultimately show ?thesis using d(3) by (simp add: emits_def)
qed

lemma str_scan_is:
  "length (c_string xs) < length xs \<Longrightarrow> length (c_string xs) \<le> m \<Longrightarrow> str_scan xs m = Some (length (c_string xs), 0)"
  by (induction xs arbitrary: m) (auto simp: c_string_def)

lemma c_string_take: "take (length (c_string xs)) xs = c_string xs"
  by (simp add: c_string_def flip: takeWhile_eq_take)

lemma emits_enc_string:
  assumes t: "PB_LTYPE (it_type it) = PB_LTYPE_STRING" and p: "it_pData it \<noteq> 0" and v: "field_val msg mem it = Some v"
    and len: "length (wire_body v) < 2 ^ 63"
  shows "emits (wire_body v) (pb_enc_string mem it)"
proof -
  let ?xs = "drop (it_pData it) mem"
  let ?str = "c_string ?xs"
  have s: "v = WString ?str" "it_pData it + length ?str < length mem"
    "PB_ATYPE (it_type it) \<noteq> PB_ATYPE_POINTER \<Longrightarrow> length ?str < unat (it_data_size it)"
    using v t by (auto simp: field_val_def Let_def ltype_defs split: if_splits)
  have l: "length ?str < 2 ^ 63" using len s(1) by simp
  define m :: u64 where "m = (if PB_ATYPE (it_type it) = PB_ATYPE_POINTER then - 1 else ucast (it_data_size it) - 1)"
  have m: "length ?str \<le> unat m"
  proof (cases "PB_ATYPE (it_type it) = PB_ATYPE_POINTER")
    case True
    then show ?thesis using l by (simp add: m_def unsigned_minus_1_eq_mask mask_eq_exp_minus_1)
  next
    case False
    have u: "unat (ucast (it_data_size it) :: u64) = unat (it_data_size it)"
      using unat_lt_size [of "it_data_size it"] by (simp add: unat_ucast_fit)
    have "unat m = unat (it_data_size it) - 1" using False s(3) u by (simp add: m_def) (subst unat_sub_nowrap, simp_all)
    then show ?thesis using s(3) False by simp
  qed
  have nz: "\<not> (PB_ATYPE (it_type it) \<noteq> PB_ATYPE_POINTER \<and> it_data_size it = 0)" using s(3) by auto
  have "pb_enc_string mem it s = pb_encode_string ?xs (of_nat (length ?str)) s" for s
    using nz p str_scan_is [of ?xs "unat m"] s(2) m by (auto simp: pb_enc_string_def Let_def m_def [symmetric])
  moreover have "emits (leb (length ?str) @ ?str) (pb_encode_string ?xs (of_nat (length ?str)))"
    using l s(2) c_string_take [of ?xs] by (intro emits_string) (simp_all add: unsigned_of_nat take_bit_nat_eq_self)
  ultimately show ?thesis using s(1) by (simp add: emits_def)
qed

lemma emits_enc_fixed_length_bytes:
  assumes t: "PB_LTYPE (it_type it) = PB_LTYPE_FIXED_LENGTH_BYTES" and v: "field_val msg mem it = Some v"
  shows "emits (wire_body v) (pb_enc_fixed_length_bytes mem it)"
proof -
  obtain d where d: "mem_read (it_pData it) (unat (it_data_size it)) mem = Some d" "v = WString d"
    using v t by (auto simp: field_val_def Let_def ltype_defs split: if_splits)
  have "unat (ucast (it_data_size it) :: u64) = length d"
    using unat_lt_size [of "it_data_size it"] mem_read_length [OF d(1)] by (simp add: unat_ucast_fit)
  then have "emits (leb (length d) @ d) (pb_encode_string (drop (it_pData it) mem) (ucast (it_data_size it)))"
    using d(1) mem_read_length [OF d(1)] by (intro emits_mem) simp_all
  then show ?thesis using d(2) by (simp add: emits_def pb_enc_fixed_length_bytes_def)
qed

text \<open>What is assumed of the encoder of submessages.\<close>

definition encodes :: "encoder \<Rightarrow> (pb_msgdesc \<Rightarrow> nat \<Rightarrow> bytes option) \<Rightarrow> bool" where
  "encodes enc msg \<longleftrightarrow> (\<forall>d a b. msg d a = Some b \<longrightarrow> length b < 2 ^ 63 \<longrightarrow> emits b (enc d a))"

lemma emits_enc_submessage:
  assumes e: "encodes enc msg" and t: "PB_LTYPE (it_type it) = PB_LTYPE_SUBMESSAGE \<or> PB_LTYPE (it_type it) = PB_LTYPE_SUBMSG_W_CB"
    and v: "field_val msg mem it = Some v" and len: "length (wire_body v) < 2 ^ 63"
  shows "emits (wire_body v) (pb_enc_submessage enc mem it)"
proof -
  obtain d b where d: "no_callback mem it" "it_submsg_desc it = Some d" "msg d (it_pData it) = Some b" "v = WString b"
    using v t by (auto simp: field_val_def Let_def ltype_defs bind_eq_Some_conv split: if_splits)
  have l: "length b < 2 ^ 63" using len d(4) by simp
  have "emits b (enc d (it_pData it))" using e d(3) l by (simp add: encodes_def)
  from emits_submessage [of b enc, OF this l]
  have "emits (leb (length b) @ b) (pb_encode_submessage enc d (it_pData it))" .
  moreover have "pb_enc_submessage enc mem it s = pb_encode_submessage enc d (it_pData it) s" for s
    using d(1,2) by (auto simp: pb_enc_submessage_def no_callback_def)
  ultimately show ?thesis using d(4) by (simp add: emits_def)
qed

lemma emits_tag_for_field:
  assumes v: "field_val msg mem it = Some v"
  shows "emits (wire_tag (ucast (it_tag it)) (wire_type v)) (pb_encode_tag_for_field it)"
proof -
  have "pb_encode_tag_for_field it s = pb_encode_tag (wire_type v) (ucast (it_tag it)) s" for s
    using v by (auto simp: field_val_def pb_encode_tag_for_field_def Let_def ltype_defs bind_eq_Some_conv split: if_splits)
  then show ?thesis using emits_tag [OF wire_type_less] by (simp add: emits_def)
qed


section \<open>Fields and arrays\<close>

lemma emits_basic_field:
  assumes e: "encodes enc msg" and p: "it_pData it \<noteq> 0" and v: "field_val msg mem it = Some v"
    and len: "length (wire_body v) < 2 ^ 63"
  shows "emits (field_wire it v) (encode_basic_field enc mem it)"
proof -
  define f where "f = (\<lambda>s. let t = PB_LTYPE (it_type it) in
        if t = PB_LTYPE_BOOL then pb_enc_bool mem it s
        else if t = PB_LTYPE_VARINT \<or> t = PB_LTYPE_UVARINT \<or> t = PB_LTYPE_SVARINT then pb_enc_varint mem it s
        else if t = PB_LTYPE_FIXED32 \<or> t = PB_LTYPE_FIXED64 then pb_enc_fixed mem it s
        else if t = PB_LTYPE_BYTES then pb_enc_bytes mem it s
        else if t = PB_LTYPE_STRING then pb_enc_string mem it s
        else if t = PB_LTYPE_SUBMESSAGE \<or> t = PB_LTYPE_SUBMSG_W_CB then pb_enc_submessage enc mem it s
        else if t = PB_LTYPE_FIXED_LENGTH_BYTES then pb_enc_fixed_length_bytes mem it s
        else os_error ''invalid field type'' s)"
  note fdefs = f_def Let_def ltype_defs
  consider (bool) "PB_LTYPE (it_type it) = PB_LTYPE_BOOL"
    | (varint) "PB_LTYPE (it_type it) \<in> {PB_LTYPE_VARINT, PB_LTYPE_UVARINT, PB_LTYPE_SVARINT}"
    | (fixed) "PB_LTYPE (it_type it) = PB_LTYPE_FIXED32 \<or> PB_LTYPE (it_type it) = PB_LTYPE_FIXED64"
    | (bytes) "PB_LTYPE (it_type it) = PB_LTYPE_BYTES" | (str) "PB_LTYPE (it_type it) = PB_LTYPE_STRING"
    | (sub) "PB_LTYPE (it_type it) = PB_LTYPE_SUBMESSAGE \<or> PB_LTYPE (it_type it) = PB_LTYPE_SUBMSG_W_CB"
    | (flen) "PB_LTYPE (it_type it) = PB_LTYPE_FIXED_LENGTH_BYTES"
    using v by (auto simp: field_val_def Let_def split: if_splits)
  then have "emits (wire_body v) f"
  proof cases
    case bool
    then obtain b where b: "load_num (it_pData it) 1 mem = Some b" "v = WVarint (if b \<noteq> 0 then 1 else 0)"
      using v by (auto simp: field_val_def Let_def)
    then show ?thesis using emits_enc_bool [OF b(1)] bool by (simp add: emits_def f_def split: if_splits)
  next
    case varint
    then show ?thesis using emits_enc_varint [OF varint v] by (auto simp: emits_def fdefs)
  next
    case fixed
    then show ?thesis using emits_enc_fixed [OF fixed v] by (auto simp: emits_def fdefs)
  next
    case bytes
    then show ?thesis using emits_enc_bytes [OF bytes p v] by (auto simp: emits_def fdefs)
  next
    case str
    then show ?thesis using emits_enc_string [OF str p v len] by (auto simp: emits_def fdefs)
  next
    case sub
    then show ?thesis using emits_enc_submessage [OF e sub v len] by (auto simp: emits_def fdefs)
  next
    case flen
    then show ?thesis using emits_enc_fixed_length_bytes [OF flen v] by (auto simp: emits_def fdefs)
  qed
  from emits_seq [OF emits_tag_for_field [OF v] this]
  show ?thesis using p by (simp add: emits_def encode_basic_field_def field_wire_def f_def)
qed

lemma emits_each:
  assumes step: "\<And>it. P it \<Longrightarrow> P (it\<lparr>it_pData := it_pData it + unat (it_data_size it)\<rparr>)"
    and item: "\<And>it v. P it \<Longrightarrow> fv it = Some v \<Longrightarrow> length (w v) < 2 ^ 63 \<Longrightarrow> emits (w v) (f it)"
  shows "P it \<Longrightarrow> each_val fv n it = Some vs \<Longrightarrow> length (concat (map w vs)) < 2 ^ 63 \<Longrightarrow>
    emits (concat (map w vs)) (each_item f n it)"
proof (induction n arbitrary: it vs)
  case 0
  then show ?case using emits_nil by (simp add: emits_def)
next
  case (Suc n)
  let ?it = "it\<lparr>it_pData := it_pData it + unat (it_data_size it)\<rparr>"
  obtain v ws where v: "fv it = Some v" "each_val fv n ?it = Some ws" "vs = v # ws"
    using Suc.prems(2) by (auto simp: bind_eq_Some_conv)
  have "emits (w v) (f it)" using item [OF Suc.prems(1) v(1)] Suc.prems(3) v(3) by simp
  moreover have "emits (concat (map w ws)) (each_item f n ?it)"
    using Suc.IH [OF step [OF Suc.prems(1)] v(2)] Suc.prems(3) v(3) by simp
  ultimately have "emits (w v @ concat (map w ws)) (\<lambda>s. pb_bind (f it s) (\<lambda>_ s. each_item f n ?it s))" by (rule emits_seq)
  then show ?case using v(3) by (simp add: emits_def)
qed

lemma each_val_length: "each_val fv n it = Some vs \<Longrightarrow> length vs = n"
  by (induction n arbitrary: it vs) (auto simp: bind_eq_Some_conv)

lemma each_val_all:
  assumes step: "\<And>it. P it \<Longrightarrow> P (it\<lparr>it_pData := it_pData it + unat (it_data_size it)\<rparr>)"
    and item: "\<And>it v. P it \<Longrightarrow> fv it = Some v \<Longrightarrow> Q v"
  shows "P it \<Longrightarrow> each_val fv n it = Some vs \<Longrightarrow> \<forall>v\<in>set vs. Q v"
proof (induction n arbitrary: it vs)
  case (Suc n)
  obtain v ws where v: "fv it = Some v" "each_val fv n (it\<lparr>it_pData := it_pData it + unat (it_data_size it)\<rparr>) = Some ws" "vs = v # ws"
    using Suc.prems(2) by (auto simp: bind_eq_Some_conv)
  then show ?case using Suc.IH [OF step [OF Suc.prems(1)] v(2)] item [OF Suc.prems(1) v(1)] by simp
qed simp

lemma length_concat_const: "\<forall>v\<in>set vs. length (w v) = k \<Longrightarrow> length (concat (map w vs)) = k * length vs"
  by (induction vs) auto

text \<open>Packed numbers.\<close>

lemma u8_le_5: "(x :: u8) \<le> 5 \<Longrightarrow> x = 0 \<or> x = 1 \<or> x = 2 \<or> x = 3 \<or> x = 4 \<or> x = 5"
proof -
  assume "x \<le> 5"
  then have "unat x \<le> 5" by (simp add: word_le_nat_alt)
  then have "unat x = 0 \<or> unat x = 1 \<or> unat x = 2 \<or> unat x = 3 \<or> unat x = 4 \<or> unat x = 5" by linarith
  then show ?thesis by (simp add: word_unat_eq_iff)
qed

lemma emits_packed_item:
  assumes t: "PB_LTYPE (it_type it) \<le> PB_LTYPE_LAST_PACKABLE" and v: "packed_val mem it = Some v"
  shows "emits (wire_body v) (packed_item mem it)"
    and "PB_LTYPE (it_type it) \<noteq> PB_LTYPE_FIXED32 \<Longrightarrow> PB_LTYPE (it_type it) \<noteq> PB_LTYPE_FIXED64 \<Longrightarrow>
      emits (wire_body v) (pb_enc_varint mem it)"
proof -
  have cases: "PB_LTYPE (it_type it) \<in> {0, 1, 2, 3, 4, 5}" using t u8_le_5 by (simp add: ltype_defs)
  show varint: "emits (wire_body v) (pb_enc_varint mem it)"
    if nf: "PB_LTYPE (it_type it) \<noteq> PB_LTYPE_FIXED32" "PB_LTYPE (it_type it) \<noteq> PB_LTYPE_FIXED64"
  proof (cases "PB_LTYPE (it_type it) = PB_LTYPE_BOOL")
    case True
    then obtain b where b: "it_data_size it = 1" "load_num (it_pData it) 1 mem = Some b" "b \<le> 1" "v = WVarint (of_nat b)"
      using v by (auto simp: packed_val_def bind_eq_Some_conv split: if_splits)
    have "b = 0 \<or> b = 1" using b(3) by auto
    then have "pb_enc_varint mem it s = pb_encode_varint (of_nat b) s" for s
      using True b(1,2) by (auto simp: pb_enc_varint_def Let_def ltype_defs)
    then show ?thesis using emits_varint [of "of_nat b"] b(4) by (simp add: emits_def)
  next
    case False
    then show ?thesis using v cases nf by (intro emits_enc_varint) (auto simp: packed_val_def ltype_defs)
  qed
  show "emits (wire_body v) (packed_item mem it)"
  proof (cases "PB_LTYPE (it_type it) = PB_LTYPE_FIXED32 \<or> PB_LTYPE (it_type it) = PB_LTYPE_FIXED64")
    case True
    then have "field_val (\<lambda>_ _. None) mem it = Some v" using v by (auto simp: packed_val_def ltype_defs)
    from emits_enc_fixed [OF True this] show ?thesis using True by (simp add: emits_def packed_item_def)
  next
    case False
    then show ?thesis using varint by (simp add: emits_def packed_item_def)
  qed
qed


lemma sizing_emits:
  assumes "emits d f"
  shows "\<exists>s'. f PB_OSTREAM_SIZING = Ok () s' \<and> os_bytes_written s' = of_nat (length d)"
proof -
  obtain s' where "f PB_OSTREAM_SIZING = Ok () s'" "wrote d PB_OSTREAM_SIZING s'"
    using putsD(1) [OF emitsD [OF assms sizing_good(1)] sizing_good(2)] by blast
  then show ?thesis by (auto simp: wrote_def PB_OSTREAM_SIZING_def)
qed

lemma packed_size_is:
  assumes t: "PB_LTYPE (it_type it) \<le> PB_LTYPE_LAST_PACKABLE" and v: "each_val (packed_val mem) n it = Some vs"
    and len: "length (concat (map wire_body vs)) < 2 ^ 63"
  shows "packed_size mem n it s = Ok (of_nat (length (concat (map wire_body vs)))) s"
proof -
  define P where "P = (\<lambda>i :: pb_field_iter. it_type i = it_type it)"
  have step: "P i \<Longrightarrow> P (i\<lparr>it_pData := it_pData i + unat (it_data_size i)\<rparr>)" for i by (simp add: P_def)
  have P: "P it" by (simp add: P_def)
  consider (f32) "PB_LTYPE (it_type it) = PB_LTYPE_FIXED32" | (f64) "PB_LTYPE (it_type it) = PB_LTYPE_FIXED64"
    | (var) "PB_LTYPE (it_type it) \<noteq> PB_LTYPE_FIXED32" "PB_LTYPE (it_type it) \<noteq> PB_LTYPE_FIXED64" by blast
  then show ?thesis
  proof cases
    case f32
    have "P i \<Longrightarrow> packed_val mem i = Some v \<Longrightarrow> length (wire_body v) = 4" for i v
      using f32 by (auto simp: P_def packed_val_def field_val_def Let_def ltype_defs split: if_splits)
    from length_concat_const [OF each_val_all [where P = P, OF step this P v]]
    have "length (concat (map wire_body vs)) = 4 * n" using each_val_length [OF v] by simp
    then show ?thesis using f32 by (simp add: packed_size_def)
  next
    case f64
    have "P i \<Longrightarrow> packed_val mem i = Some v \<Longrightarrow> length (wire_body v) = 8" for i v
      using f64 by (auto simp: P_def packed_val_def field_val_def Let_def ltype_defs split: if_splits)
    from length_concat_const [OF each_val_all [where P = P, OF step this P v]]
    have "length (concat (map wire_body vs)) = 8 * n" using each_val_length [OF v] by simp
    then show ?thesis using f64 by (simp add: packed_size_def ltype_defs)
  next
    case var
    have "P i \<Longrightarrow> packed_val mem i = Some v \<Longrightarrow> length (wire_body v) < 2 ^ 63 \<Longrightarrow> emits (wire_body v) (pb_enc_varint mem i)" for i v
      using emits_packed_item(2) [of i mem v] t var by (simp add: P_def)
    from sizing_emits [OF emits_each [where P = P and f = "pb_enc_varint mem", OF step this P v len]]
    obtain s' where s': "each_item (pb_enc_varint mem) n it PB_OSTREAM_SIZING = Ok () s'"
      "os_bytes_written s' = of_nat (length (concat (map wire_body vs)))" by blast
    show ?thesis unfolding packed_size_def s'(1) if_not_P [OF var(1)] if_not_P [OF var(2)] outcome.case s'(2) by (rule refl)
  qed
qed

lemma puts_sizing:
  assumes "good s" "\<not> os_callback s" "unat sz = length b"
  shows "puts b s (pb_write [] sz s)"
proof -
  have "sz = of_nat (length b)" using assms(3) by (metis word_of_unat)
  then show ?thesis using assms by (auto simp: pb_write_def puts_def fits_def wrote_def good_def os_ok_def)
qed

lemma emits_if:
  assumes "\<And>s. good s \<Longrightarrow> \<not> os_callback s \<Longrightarrow> puts b s (f s)" "emits b g"
  shows "emits b (\<lambda>s. if \<not> os_callback s then f s else g s)"
  using assms by (simp add: emits_def)

lemma emits_packed:
  assumes t: "PB_LTYPE (it_type it) \<le> PB_LTYPE_LAST_PACKABLE" and v: "each_val (packed_val mem) n it = Some vs"
    and len: "length (concat (map wire_body vs)) < 2 ^ 63"
  shows "emits (field_wire it (WString (concat (map wire_body vs))))
    (\<lambda>s. pb_bind (pb_encode_tag PB_WT_STRING (ucast (it_tag it)) s) (\<lambda>_ s.
       pb_bind (packed_size mem n it s) (\<lambda>sz s. pb_bind (pb_encode_varint sz s) (\<lambda>_ s.
         if \<not> os_callback s then pb_write [] sz s else each_item (packed_item mem) n it s))))"
proof -
  let ?body = "concat (map wire_body vs)"
  let ?sz = "of_nat (length ?body) :: u64"
  have sz: "unat ?sz = length ?body" using len by (simp add: unsigned_of_nat take_bit_nat_eq_self)
  define P where "P = (\<lambda>i :: pb_field_iter. it_type i = it_type it)"
  have step: "P i \<Longrightarrow> P (i\<lparr>it_pData := it_pData i + unat (it_data_size i)\<rparr>)" for i by (simp add: P_def)
  have item: "P i \<Longrightarrow> packed_val mem i = Some v \<Longrightarrow> length (wire_body v) < 2 ^ 63 \<Longrightarrow> emits (wire_body v) (packed_item mem i)" for i v
    using emits_packed_item(1) [of i mem v] t by (simp add: P_def)
  have P: "P it" by (simp add: P_def)
  have items: "emits ?body (each_item (packed_item mem) n it)" using emits_each [where P = P, OF step item P v len] .
  have "emits ?body (\<lambda>s. if \<not> os_callback s then pb_write [] ?sz s else each_item (packed_item mem) n it s)"
    using puts_sizing sz items by (intro emits_if) simp_all
  moreover have "emits (leb (length ?body)) (pb_encode_varint ?sz)" using emits_varint [of ?sz] sz by simp
  ultimately have body: "emits (leb (length ?body) @ ?body) (\<lambda>s. pb_bind (pb_encode_varint ?sz s) (\<lambda>_ s.
      if \<not> os_callback s then pb_write [] ?sz s else each_item (packed_item mem) n it s))" by (intro emits_seq)
  have "emits (wire_tag (ucast (it_tag it)) PB_WT_STRING) (pb_encode_tag PB_WT_STRING (ucast (it_tag it)))"
    by (intro emits_tag) (simp add: wire_types)
  from emits_seq [OF this body] have "emits (field_wire it (WString ?body)) (\<lambda>s. pb_bind (pb_encode_tag PB_WT_STRING (ucast (it_tag it)) s) (\<lambda>_ s.
      pb_bind (pb_encode_varint ?sz s) (\<lambda>_ s.
      if \<not> os_callback s then pb_write [] ?sz s else each_item (packed_item mem) n it s)))"
    unfolding field_wire_def wire_type.simps wire_body.simps .
  then show ?thesis using packed_size_is [OF t v len] by simp
qed

lemma emits_item:
  assumes e: "encodes enc msg" and p: "it_pData it \<noteq> 0" and v: "item_val msg mem it = Some v"
    and len: "length (wire_body v) < 2 ^ 63"
  shows "emits (field_wire it v) (encode_item enc mem it)"
proof (cases "PB_ATYPE (it_type it) = PB_ATYPE_POINTER
    \<and> (PB_LTYPE (it_type it) = PB_LTYPE_STRING \<or> PB_LTYPE (it_type it) = PB_LTYPE_BYTES)")
  case False
  then have "item_val msg mem it = field_val msg mem it" "encode_item enc mem it = encode_basic_field enc mem it"
    by (auto simp: item_val_def encode_item_def fun_eq_iff)
  then show ?thesis using emits_basic_field [OF e p _ len] v by simp
next
  case True
  then obtain q where q: "load_ptr (it_pData it) mem = Some q"
    "(if q = 0 then Some (WString []) else field_val msg mem (it\<lparr>it_pData := q\<rparr>)) = Some v"
    using v by (auto simp: item_val_def bind_eq_Some_conv)
  show ?thesis
  proof (cases "q = 0")
    case False
    then have "emits (field_wire (it\<lparr>it_pData := q\<rparr>) v) (encode_basic_field enc mem (it\<lparr>it_pData := q\<rparr>))"
      using q(2) len by (intro emits_basic_field [OF e]) simp_all
    then show ?thesis using False True q(1) by (simp add: emits_def encode_item_def field_wire_def Let_def)
  next
    case z: True
    have "emits (wire_tag (ucast (it_tag it)) PB_WT_STRING @ leb 0)
      (\<lambda>s. pb_bind (pb_encode_tag PB_WT_STRING (ucast (it_tag it)) s) (\<lambda>_ s. pb_encode_varint 0 s))"
      using emits_varint [of 0] by (intro emits_seq emits_tag) (simp_all add: wire_types)
    moreover have "v = WString []" using q(2) z by simp
    moreover have "pb_encode_tag_for_field (it\<lparr>it_pData := 0\<rparr>) s = pb_encode_tag PB_WT_STRING (ucast (it_tag it)) s" for s
      using True by (auto simp: pb_encode_tag_for_field_def Let_def ltype_defs)
    ultimately show ?thesis using True q(1) z by (simp add: emits_def encode_item_def field_wire_def Let_def)
  qed
qed

lemma wire_body_le: "length (wire_body v) \<le> length (field_wire it v)"
  by (simp add: field_wire_def)

lemma emits_array:
  assumes e: "encodes enc msg" and p: "it_pData it \<noteq> 0" and b: "array_wire msg mem it = Some b" and len: "length b < 2 ^ 63"
  shows "emits b (encode_array enc mem it)"
proof -
  obtain count where c: "load_size mem it = Some count" "PB_ATYPE (it_type it) = PB_ATYPE_POINTER \<or> count \<le> it_array_size it"
    using b by (auto simp: array_wire_def bind_eq_Some_conv not_less split: if_splits)
  consider (zero) "count = 0" "b = []"
    | (packed) vs where "count \<noteq> 0" "PB_LTYPE (it_type it) \<le> PB_LTYPE_LAST_PACKABLE"
      "each_val (packed_val mem) (unat count) it = Some vs" "b = field_wire it (WString (concat (map wire_body vs)))"
    | (items) vs where "count \<noteq> 0" "\<not> PB_LTYPE (it_type it) \<le> PB_LTYPE_LAST_PACKABLE"
      "each_val (item_val msg mem) (unat count) it = Some vs" "b = concat (map (field_wire it) vs)"
    using b c by (auto simp: array_wire_def split: if_splits)
  then show ?thesis
  proof cases
    case zero
    then show ?thesis using emits_nil c by (simp add: emits_def encode_array_def)
  next
    case packed
    have "length (concat (map wire_body vs)) < 2 ^ 63" using len packed(4) by (simp add: field_wire_def)
    from emits_packed [OF packed(2,3) this] show ?thesis using c packed by (auto simp: emits_def encode_array_def)
  next
    case items
    define P where "P = (\<lambda>i :: pb_field_iter. it_tag i = it_tag it \<and> it_pData i \<noteq> 0)"
    have step: "P i \<Longrightarrow> P (i\<lparr>it_pData := it_pData i + unat (it_data_size i)\<rparr>)" for i by (simp add: P_def)
    have item: "P i \<Longrightarrow> item_val msg mem i = Some v \<Longrightarrow> length (field_wire it v) < 2 ^ 63 \<Longrightarrow>
        emits (field_wire it v) (encode_item enc mem i)" for i v
      using emits_item [OF e, of i mem v] wire_body_le [of v it] by (simp add: P_def field_wire_def)
    have P: "P it" using p by (simp add: P_def)
    have "emits b (each_item (encode_item enc mem) (unat count) it)"
      using emits_each [where P = P, OF step item P items(3)] len items(4) by simp
    then show ?thesis using c items by (auto simp: emits_def encode_array_def)
  qed
qed


section \<open>Messages\<close>

lemma emits_ok: "(\<And>s. f s = Ok () s) \<Longrightarrow> emits [] f"
  using emits_nil by (simp add: emits_def)

lemma emits_field:
  assumes e: "encodes enc msg" and b: "field_bytes msg mem it = Some b" and len: "length b < 2 ^ 63"
    and ext: "PB_LTYPE (it_type it) \<noteq> PB_LTYPE_EXTENSION"
  shows "emits b (encode_field enc mem it)"
proof -
  obtain missing where m: "field_missing mem it = Some missing"
    using b ext by (auto simp: field_bytes_def bind_eq_Some_conv)
  consider (none) "missing \<or> it_pData it = 0 \<and> PB_HTYPE (it_type it) \<noteq> PB_HTYPE_REQUIRED" "b = []"
    | (callback) "\<not> missing" "it_pData it \<noteq> 0" "PB_ATYPE (it_type it) = PB_ATYPE_CALLBACK" "b = []"
      "field_callback (it_descriptor it) = NoCallback \<or> field_callback (it_descriptor it) = DefaultCallback
        \<and> (it_data_size it = 16 \<longrightarrow> load_ptr (it_pData it) mem = Some 0)"
    | (arr) "\<not> missing" "it_pData it \<noteq> 0" "PB_ATYPE (it_type it) \<noteq> PB_ATYPE_CALLBACK"
      "PB_HTYPE (it_type it) = PB_HTYPE_REPEATED" "array_wire msg mem it = Some b"
    | (basic) v where "\<not> missing" "it_pData it \<noteq> 0" "PB_ATYPE (it_type it) \<noteq> PB_ATYPE_CALLBACK"
      "PB_HTYPE (it_type it) \<noteq> PB_HTYPE_REPEATED" "field_val msg mem it = Some v" "b = field_wire it v"
    using b ext m by (auto simp: field_bytes_def split: if_splits)
  then show ?thesis
  proof cases
    case none
    then show ?thesis using m emits_ok [of "encode_field enc mem it"] by (auto simp: encode_field_def)
  next
    case callback
    then show ?thesis using m emits_ok [of "encode_field enc mem it"]
      by (auto simp: encode_field_def encode_callback_field_def pb_default_field_callback_def)
  next
    case arr
    have "encode_field enc mem it s = encode_array enc mem it s" for s using arr(1-4) m by (simp add: encode_field_def)
    then show ?thesis using emits_array [OF e arr(2,5) len] by (simp add: emits_def)
  next
    case basic
    have "encode_field enc mem it s = encode_basic_field enc mem it s" for s using basic(1-4) m by (simp add: encode_field_def)
    moreover have "length (wire_body v) < 2 ^ 63" using len wire_body_le [of v it] basic(6) by simp
    ultimately show ?thesis using emits_basic_field [OF e basic(2,5)] basic(6) by (simp add: emits_def)
  qed
qed

lemma emits_extension:
  assumes "field_bytes msg mem it = Some b" "PB_LTYPE (it_type it) = PB_LTYPE_EXTENSION"
  shows "emits b (encode_extension_field mem it)"
  using assms emits_ok [of "encode_extension_field mem it"] by (auto simp: field_bytes_def encode_extension_field_def split: if_splits)

lemma emits_loop:
  assumes d: "desc_ok d" "loadable mem d a" "a \<noteq> 0" and e: "encodes enc msg"
  shows "k < n_fields d \<Longrightarrow> concat_opt (map (\<lambda>k. field_bytes msg mem (iter_at mem d a k)) [k..<n_fields d]) = Some b \<Longrightarrow>
    length b < 2 ^ 63 \<Longrightarrow> emits b (encode_loop enc mem (iter_at mem d a k))"
proof (induction "n_fields d - k" arbitrary: k b)
  case 0
  then show ?case by simp
next
  case (Suc m)
  let ?it = "iter_at mem d a k"
  obtain x y where xy: "field_bytes msg mem ?it = Some x"
    "concat_opt (map (\<lambda>k. field_bytes msg mem (iter_at mem d a k)) [Suc k..<n_fields d]) = Some y" "b = x @ y"
    using Suc.prems(1,2) by (auto simp: upt_conv_Cons bind_eq_Some_conv)
  have len: "length x < 2 ^ 63" "length y < 2 ^ 63" using Suc.prems(3) xy(3) by simp_all
  let ?f = "\<lambda>s. if PB_LTYPE (it_type ?it) = PB_LTYPE_EXTENSION then encode_extension_field mem ?it s else encode_field enc mem ?it s"
  have f: "emits x ?f"
    using emits_extension [OF xy(1)] emits_field [OF e xy(1) len(1)] by (cases "PB_LTYPE (it_type ?it) = PB_LTYPE_EXTENSION") simp_all
  note step = iter_next_at [OF d Suc.prems(1)]
  have "emits y (\<lambda>s. case pb_field_iter_next mem ?it of None \<Rightarrow> Undef
      | Some (True, it') \<Rightarrow> encode_loop enc mem it' s | Some (False, _) \<Rightarrow> Ok () s)"
  proof (cases "Suc k < n_fields d")
    case True
    then have "emits y (encode_loop enc mem (iter_at mem d a (Suc k)))"
      using Suc.hyps(1) [of "Suc k" y] Suc.hyps(2) xy(2) len(2) by simp
    then show ?thesis using True step by (simp add: succ_pos_def)
  next
    case False
    then show ?thesis using step xy(2) emits_ok [of "Ok ()"] by simp
  qed
  from emits_seq [OF f this] show ?case unfolding xy(3) using encode_loop.simps [of enc mem ?it] by (simp add: emits_def)
qed

lemma emits_pb_encode: "msg_bytes mem d a = Some b \<Longrightarrow> length b < 2 ^ 63 \<Longrightarrow> emits b (pb_encode mem d a)"
proof (induction mem d a arbitrary: b rule: msg_bytes.induct)
  case (1 mem d a)
  let ?msg = "\<lambda>d' a'. if d' \<in> set (submsg_info d) then msg_bytes mem d' a' else None"
  let ?enc = "\<lambda>d' a' s'. if d' \<in> set (submsg_info d) then pb_encode mem d' a' s' else Undef"
  have d: "desc_ok d" "loadable mem d a" "a \<noteq> 0"
    and b: "concat_opt (map (\<lambda>k. field_bytes ?msg mem (iter_at mem d a k)) [0..<n_fields d]) = Some b"
    using 1(2) by (simp_all add: msg_bytes.simps [of mem d a] split: if_splits)
  show ?case
  proof (cases "n_fields d = 0")
    case True
    then show ?thesis using iter_begin_empty [OF True, of mem a] b emits_nil
      by (auto simp: pb_encode.simps [of mem d a] emits_def)
  next
    case False
    have e: "encodes ?enc ?msg" unfolding encodes_def
    proof (intro allI impI)
      fix d' a' b' assume m: "?msg d' a' = Some b'" "length b' < 2 ^ 63"
      then have s: "d' \<in> set (submsg_info d)" "msg_bytes mem d' a' = Some b'" by (simp_all split: if_splits)
      show "emits b' (?enc d' a')" using "1.IH" [of 0 d' a' b'] d s m(2) False by (simp add: emits_def)
    qed
    have "pb_encode mem d a s = encode_loop ?enc mem (iter_at mem d a 0) s" for s
      using iter_begin_at [OF d] False by (simp add: pb_encode.simps [of mem d a])
    then show ?thesis using emits_loop [OF d e _ b 1(3)] False by (simp add: emits_def)
  qed
qed

end
