(* ===== verification/PbMessage.thy ===== *)
theory PbMessage
  imports PbEncodeWire
begin

text \<open>
  What callers of the encoder see: \<open>pb_encode\<close>, \<open>pb_encode_ex\<close> and \<open>pb_get_encoded_size\<close> against the reference
  \<open>msg_bytes\<close>, and an example.
\<close>

section \<open>An example\<close>

lemmas ex_masks = type_masks ltype_defs htype_defs atype_defs

lemma ex_sub_bytes: "msg_bytes ex_mem ex_sub 32 = Some [10, 2, 104, 105]"
  by (subst msg_bytes.simps, simp add: ex_ok ex_loadable ex_n iter_at_def ex_iter)
    (simp add: field_bytes_def field_missing_def pos_iter_def field_wire_def field_val_def PB_LTYPE_IS_SUBMSG_def ex_masks
      Let_def ex_mem_def c_string_def wire_tag_def wire_types leb.simps)

lemma ex_leb:
  "leb 8 = [8]" "leb 10 = [10]" "leb 18 = [18]" "leb 26 = [26]" "leb 2 = [2]" "leb 3 = [3]" "leb 4 = [4]" "leb 5 = [5]"
  "leb 300 = [172, 2]" "leb 640 = [128, 5]" "leb (Suc (Suc (Suc 0))) = [3]" "leb (Suc (Suc (Suc (Suc 0)))) = [4]"
  by (simp_all add: leb.simps)

lemma ex_mem_reads:
  "mem_read 16 4 ex_mem = Some [0x2C, 1, 0, 0]" "mem_read 24 4 ex_mem = Some [5, 0, 0, 0]" "mem_read 28 4 ex_mem = Some [0x80, 2, 0, 0]"
  "mem_read 22 2 ex_mem = Some [2, 0]"
  by (simp_all add: mem_read_def mem_get_def ex_mem_def)

lemma each_val_2: "each_val f 2 it = each_val f (Suc (Suc 0)) it"
  by (simp add: numeral_2_eq_2)

definition ex_it :: "nat \<Rightarrow> pb_field_iter" where
  "ex_it k = iter_at ex_mem ex_desc 16 k"

lemma ex_it_0:
  "it_type (ex_it 0) = 2" "it_tag (ex_it 0) = 1" "it_data_size (ex_it 0) = 4" "it_pData (ex_it 0) = 16"
  by (simp_all add: ex_it_def iter_at_def ex_iter)

lemma ex_it_1:
  "it_type (ex_it (Suc 0)) = 0x22" "it_tag (ex_it (Suc 0)) = 2" "it_data_size (ex_it (Suc 0)) = 4"
  "it_pData (ex_it (Suc 0)) = 24" "it_pSize (ex_it (Suc 0)) = SizeAt 22" "it_array_size (ex_it (Suc 0)) = 3"
  by (simp_all add: ex_it_def iter_at_def ex_iter)

lemma ex_it_2:
  "it_type (ex_it (Suc (Suc 0))) = 8" "it_tag (ex_it (Suc (Suc 0))) = 3" "it_data_size (ex_it (Suc (Suc 0))) = 4"
  "it_pData (ex_it (Suc (Suc 0))) = 32" "it_submsg_desc (ex_it (Suc (Suc 0))) = Some ex_sub"
  by (simp_all add: ex_it_def iter_at_def ex_iter)

lemmas ex_wire = load_num_def ex_mem_reads field_wire_def wire_tag_def wire_types ex_leb

lemma ex_field_0: "field_bytes msg ex_mem (ex_it 0) = Some [8, 172, 2]"
  by (simp add: field_bytes_def field_missing_def ex_it_0 field_val_def ex_masks) (simp add: ex_wire ex_it_0)

lemma ex_field_1: "field_bytes msg ex_mem (ex_it (Suc 0)) = Some [18, 3, 5, 128, 5]"
  by (simp add: field_bytes_def field_missing_def ex_it_1 array_wire_def load_size_def packed_val_def field_val_def
      each_val_2 ex_masks load_num_def ex_mem_reads)
    (simp add: ex_wire ex_it_1)

lemma ex_field_2:
  "msg ex_sub 32 = Some [10, 2, 104, 105] \<Longrightarrow>
    field_bytes msg ex_mem (ex_it (Suc (Suc 0))) = Some [26, 4, 10, 2, 104, 105]"
  by (simp add: field_bytes_def field_missing_def ex_it_2 field_val_def ex_masks no_callback_def)
    (simp add: ex_wire ex_it_2)

lemma ex_bytes: "msg_bytes ex_mem ex_desc 16 = Some [8, 172, 2, 18, 3, 5, 128, 5, 26, 4, 10, 2, 104, 105]"
  by (subst msg_bytes.simps)
    (simp add: ex_it_def [symmetric] ex_ok ex_loadable ex_n ex_count(3) ex_sub_bytes ex_field_0 ex_field_1 ex_field_2)

section \<open>What callers see\<close>

text \<open>
  C37. Encoding a message. If the fields of the message are valid and in memory, \<open>pb_encode\<close> writes exactly the
  concatenation of their wire forms (nested messages with their lengths, arrays of numbers packed), to any stream
  that has room for it, and fails with \<open>stream full\<close> on any other. In particular the second pass over a submessage
  never finds another size than the first.
\<close>

theorem pb_encode_writes_message:
  assumes "msg_bytes mem d a = Some b" "length b < 2 ^ 63"
    and "os_ok s" "unat (os_max_size s) < 2 ^ 63" "os_errmsg s = None"
  shows "if fits (length b) s then \<exists>s'. pb_encode mem d a s = Ok () s' \<and> wrote b s s'
    else \<exists>s'. pb_encode mem d a s = Err s' \<and> os_errmsg s' = Some ''stream full''"
  using emitsD [OF emits_pb_encode [OF assms(1,2)], of s] assms(3-5) by (auto simp: good_def puts_def full_def)

theorem pb_encode_writes_message_witness:
  "\<exists>s'. pb_encode ex_mem ex_desc 16 (pb_ostream_from_buffer (replicate 14 0) 14) = Ok () s'
    \<and> wrote [8, 172, 2, 18, 3, 5, 128, 5, 26, 4, 10, 2, 104, 105] (pb_ostream_from_buffer (replicate 14 0) 14) s'"
  using pb_encode_writes_message [OF ex_bytes, of "pb_ostream_from_buffer (replicate 14 0) 14"]
  by (simp add: pb_ostream_from_buffer_def os_ok_def fits_def)

text \<open>A message with its length before it, or with a null byte after it.\<close>

definition framed :: "u32 \<Rightarrow> bytes \<Rightarrow> bytes" where
  "framed flags b = (if flags AND PB_ENCODE_DELIMITED \<noteq> 0 then leb (length b) @ b
     else if flags AND PB_ENCODE_NULLTERMINATED \<noteq> 0 then b @ [0] else b)"

lemma emits_pb_encode_ex:
  assumes b: "msg_bytes mem d a = Some b" "length b < 2 ^ 63"
  shows "emits (framed flags b) (pb_encode_ex mem d a flags)"
proof -
  note e = emits_pb_encode [OF b]
  have n: "emits (b @ [0]) (\<lambda>s. pb_bind (pb_encode mem d a s) (\<lambda>_ s. pb_write [0] 1 s))"
    using emits_bytes [of "[0]"] by (intro emits_seq [OF e]) simp
  show ?thesis using e n emits_submessage [of b "pb_encode mem", OF e b(2)]
    by (simp add: emits_def framed_def pb_encode_ex_def)
qed

text \<open>
  C38. \<open>pb_get_encoded_size\<close> says how many bytes \<open>pb_encode\<close> will write, and \<open>pb_encode_ex\<close> to a fresh
  buffer that is large enough leaves the framed message (behind its length, or before a null byte, as the flags
  say) at the start of the buffer, the rest as it was, and counts the bytes.
\<close>

theorem pb_encode_ex_buffer:
  assumes "msg_bytes mem d a = Some b" "length (framed flags b) \<le> length buf" "length buf < 2 ^ 63"
  shows "(\<exists>s'. pb_encode_ex mem d a flags (pb_ostream_from_buffer buf (of_nat (length buf))) = Ok () s'
      \<and> os_mem s' = framed flags b @ drop (length (framed flags b)) buf
      \<and> os_bytes_written s' = of_nat (length (framed flags b)))
    \<and> (\<exists>s'. pb_get_encoded_size mem d a = Ok (of_nat (length b)) s')"
proof -
  have len: "length b < 2 ^ 63" using assms(2,3) by (simp add: framed_def split: if_splits)
  let ?s = "pb_ostream_from_buffer buf (of_nat (length buf))"
  have u: "unat (of_nat (length buf) :: u64) = length buf" using assms(3) by (simp add: unsigned_of_nat take_bit_nat_eq_self)
  have s: "good ?s" "fits (length (framed flags b)) ?s" "os_ok ?s" "os_callback ?s"
    using u assms(2,3) by (simp_all add: good_def os_ok_def fits_def pb_ostream_from_buffer_def)
  obtain s' where s': "pb_encode_ex mem d a flags ?s = Ok () s'" "wrote (framed flags b) ?s s'"
    using putsD(1) [OF emitsD [OF emits_pb_encode_ex [OF assms(1) len] s(1)] s(2)] by blast
  have st: "os_state s' = length (framed flags b)"
    using wrote_state [OF s'(2) s(3,4)] by (simp add: pb_ostream_from_buffer_def)
  have "os_mem s' = take (os_state s') (os_mem s') @ drop (os_state s') (os_mem s')" by simp
  also have "\<dots> = framed flags b @ drop (length (framed flags b)) buf"
    using s'(2) st by (simp add: wrote_def written_def pb_ostream_from_buffer_def)
  finally have "os_mem s' = framed flags b @ drop (length (framed flags b)) buf" .
  moreover have "os_bytes_written s' = of_nat (length (framed flags b))"
    using s'(2) by (simp add: wrote_def pb_ostream_from_buffer_def)
  moreover have "\<exists>s'. pb_get_encoded_size mem d a = Ok (of_nat (length b)) s'"
    using sizing_emits [OF emits_pb_encode [OF assms(1) len]] by (auto simp: pb_get_encoded_size_def)
  ultimately show ?thesis using s'(1) by blast
qed

theorem pb_encode_ex_buffer_witness:
  "\<exists>s'. pb_encode_ex ex_mem ex_desc 16 PB_ENCODE_DELIMITED (pb_ostream_from_buffer (replicate 16 7) 16) = Ok () s'
    \<and> os_mem s' = [14, 8, 172, 2, 18, 3, 5, 128, 5, 26, 4, 10, 2, 104, 105, 7] \<and> os_bytes_written s' = 15"
  using pb_encode_ex_buffer [OF ex_bytes, of PB_ENCODE_DELIMITED "replicate 16 7"]
  by (simp add: framed_def PB_ENCODE_DELIMITED_def leb.simps)

end
