(* ===== verification/PbDecode.thy ===== *)
theory PbDecode
  imports PbMessage
begin

text \<open>
  Decoding of messages, \<open>pb_decode.c\<close>, as it is built by default: without \<open>PB_ENABLE_MALLOC\<close>, so that pointer fields
  are refused and nothing is allocated. The state is the stream, the memory that holds the structure, and the local
  \<open>fixed_count_size\<close> of the innermost \<open>pb_decode_inner\<close>. Functions of the application are a parameter. Where an
  extension is registered, the model is undefined. \<open>field->data_size * (*size)\<close> is taken not to overflow an \<open>int\<close>: no
  structure has 2 GiB.
\<close>

section \<open>State\<close>

record pb_dec =
  dc_in :: pb_istream
  dc_mem :: bytes
  dc_fixed :: pb_size

text \<open>\<open>app_decode\<close>: the decoder at an address that a \<open>pb_callback_t\<close> of the field holds, if there is one there: to call any
  other address is undefined. \<open>app_field\<close>: the field callback of a descriptor that is not \<open>pb_default_field_callback\<close>.\<close>

record pb_app =
  app_decode :: "nat \<Rightarrow> (pb_field_iter \<Rightarrow> pb_dec \<Rightarrow> (unit, pb_dec) outcome) option"
  app_field :: "pb_field_iter \<Rightarrow> pb_dec \<Rightarrow> (unit, pb_dec) outcome"

definition call_decode :: "pb_app \<Rightarrow> nat \<Rightarrow> pb_field_iter \<Rightarrow> pb_dec \<Rightarrow> (unit, pb_dec) outcome" where
  "call_decode app f field ds = (case app_decode app f of None \<Rightarrow> Undef | Some decode \<Rightarrow> decode field ds)"

definition on_stream :: "(pb_istream \<Rightarrow> ('a, pb_istream) outcome) \<Rightarrow> pb_dec \<Rightarrow> ('a, pb_dec) outcome" where
  "on_stream f ds = (case f (dc_in ds) of
     Ok x s \<Rightarrow> Ok x (ds\<lparr>dc_in := s\<rparr>) | Err s \<Rightarrow> Err (ds\<lparr>dc_in := s\<rparr>) | Undef \<Rightarrow> Undef)"

definition dc_error :: "string \<Rightarrow> pb_dec \<Rightarrow> ('a, pb_dec) outcome" where
  "dc_error msg = on_stream (is_error msg)"

definition store :: "nat \<Rightarrow> bytes \<Rightarrow> pb_dec \<Rightarrow> (unit, pb_dec) outcome" where
  "store p bs ds = (case mem_write p bs (dc_mem ds) of None \<Rightarrow> Undef | Some mem \<Rightarrow> Ok () (ds\<lparr>dc_mem := mem\<rparr>))"

definition size_at :: "pb_field_iter \<Rightarrow> pb_dec \<Rightarrow> pb_size option" where
  "size_at field ds = (case it_pSize field of
     SizeAt a \<Rightarrow> map_option of_nat (load_num a 2 (dc_mem ds))
   | SizeFixed \<Rightarrow> Some (dc_fixed ds) | SizeArray \<Rightarrow> Some (it_array_size field) | SizeNULL \<Rightarrow> None)"

definition get_size :: "pb_field_iter \<Rightarrow> pb_dec \<Rightarrow> (pb_size, pb_dec) outcome" where
  "get_size field ds = need (size_at field ds) ds"

text \<open>\<open>&iter->array_size\<close> is only written to by \<open>pb_field_set_to_default\<close>.\<close>

definition put_size :: "pb_field_iter \<Rightarrow> pb_size \<Rightarrow> pb_dec \<Rightarrow> (unit, pb_dec) outcome" where
  "put_size field n ds = (case it_pSize field of
     SizeAt a \<Rightarrow> store a (le_bytes 2 (unat n)) ds
   | SizeFixed \<Rightarrow> Ok () (ds\<lparr>dc_fixed := n\<rparr>) | SizeArray \<Rightarrow> Undef | SizeNULL \<Rightarrow> Undef)"

section \<open>Field decoders\<close>

definition pb_dec_bool :: "pb_field_iter \<Rightarrow> pb_dec \<Rightarrow> (unit, pb_dec) outcome" where
  "pb_dec_bool field ds = pb_bind (on_stream pb_decode_bool ds) (\<lambda>b ds. store (it_pData field) [if b then 1 else 0] ds)"

text \<open>The value cut to the size of the field and extended again.\<close>

definition clamp_u :: "pb_size \<Rightarrow> u64 \<Rightarrow> u64" where
  "clamp_u n v = (if n = 8 then v else if n = 4 then ucast (ucast v :: u32) else if n = 2 then ucast (ucast v :: u16)
     else ucast (ucast v :: u8))"

definition clamp_s :: "pb_size \<Rightarrow> u64 \<Rightarrow> u64" where
  "clamp_s n v = (if n = 8 then v else if n = 4 then scast (ucast v :: u32) else if n = 2 then scast (ucast v :: u16)
     else scast (ucast v :: u8))"

definition pb_dec_varint :: "pb_field_iter \<Rightarrow> pb_dec \<Rightarrow> (unit, pb_dec) outcome" where
  "pb_dec_varint field ds = (let n = it_data_size field in
     if PB_LTYPE (it_type field) = PB_LTYPE_UVARINT
     then pb_bind (on_stream pb_decode_varint ds) (\<lambda>value ds.
       if n = 8 \<or> n = 4 \<or> n = 2 \<or> n = 1
       then pb_bind (store (it_pData field) (le_bytes (unat n) (unat value)) ds) (\<lambda>_ ds.
         if clamp_u n value \<noteq> value then dc_error ''integer too large'' ds else Ok () ds)
       else dc_error ''invalid data_size'' ds)
     else pb_bind
       (if PB_LTYPE (it_type field) = PB_LTYPE_SVARINT then on_stream pb_decode_svarint ds
        else pb_bind (on_stream pb_decode_varint ds) (\<lambda>value ds.
          Ok (if n = 8 then value else scast (ucast value :: u32)) ds))
       (\<lambda>svalue ds.
         if n = 8 \<or> n = 4 \<or> n = 2 \<or> n = 1
         then pb_bind (store (it_pData field) (le_bytes (unat n) (unat svalue)) ds) (\<lambda>_ ds.
           if clamp_s n svalue \<noteq> svalue then dc_error ''integer too large'' ds else Ok () ds)
         else dc_error ''invalid data_size'' ds))"

definition pb_dec_fixed32 :: "pb_field_iter \<Rightarrow> pb_dec \<Rightarrow> (unit, pb_dec) outcome" where
  "pb_dec_fixed32 field ds = pb_bind (on_stream pb_decode_fixed32 ds) (\<lambda>v ds. store (it_pData field) (le_bytes 4 (unat v)) ds)"

definition pb_dec_fixed64 :: "pb_field_iter \<Rightarrow> pb_dec \<Rightarrow> (unit, pb_dec) outcome" where
  "pb_dec_fixed64 field ds = pb_bind (on_stream pb_decode_fixed64 ds) (\<lambda>v ds. store (it_pData field) (le_bytes 8 (unat v)) ds)"

definition PB_SIZE_MAX :: u16 where
  "PB_SIZE_MAX = - 1"

text \<open>\<open>pb_read\<close> into memory: the bytes are copied when the stream has them.\<close>

definition read_into :: "nat \<Rightarrow> u64 \<Rightarrow> pb_dec \<Rightarrow> (unit, pb_dec) outcome" where
  "read_into p count ds = pb_bind (on_stream (pb_read count) ds) (\<lambda>d ds. store p d ds)"

definition pb_dec_bytes :: "pb_field_iter \<Rightarrow> pb_dec \<Rightarrow> (unit, pb_dec) outcome" where
  "pb_dec_bytes field ds = pb_bind (on_stream pb_decode_varint32 ds) (\<lambda>sz ds.
     if sz > ucast PB_SIZE_MAX then dc_error ''bytes overflow'' ds
     else let alloc_size = ucast sz + 2 :: u64 in
       if ucast sz > alloc_size then dc_error ''size too large'' ds
       else if PB_ATYPE (it_type field) = PB_ATYPE_POINTER then dc_error ''no malloc support'' ds
       else if alloc_size > ucast (it_data_size field) then dc_error ''bytes overflow'' ds
       else pb_bind (store (it_pData field) (le_bytes 2 (unat sz)) ds) (\<lambda>_ ds.
         read_into (it_pData field + 2) (ucast sz) ds))"

definition pb_dec_string :: "pb_field_iter \<Rightarrow> pb_dec \<Rightarrow> (unit, pb_dec) outcome" where
  "pb_dec_string field ds = pb_bind (on_stream pb_decode_varint32 ds) (\<lambda>sz ds.
     if sz = - 1 then dc_error ''size too large'' ds
     else let alloc_size = ucast (sz + 1) :: u64 in
       if alloc_size < ucast sz then dc_error ''size too large'' ds
       else if PB_ATYPE (it_type field) = PB_ATYPE_POINTER then dc_error ''no malloc support'' ds
       else if alloc_size > ucast (it_data_size field) then dc_error ''string overflow'' ds
       else pb_bind (store (it_pData field + unat sz) [0] ds) (\<lambda>_ ds. read_into (it_pData field) (ucast sz) ds))"

definition pb_dec_fixed_length_bytes :: "pb_field_iter \<Rightarrow> pb_dec \<Rightarrow> (unit, pb_dec) outcome" where
  "pb_dec_fixed_length_bytes field ds = pb_bind (on_stream pb_decode_varint32 ds) (\<lambda>sz ds.
     if sz > ucast PB_SIZE_MAX then dc_error ''bytes overflow'' ds
     else if sz = 0 then store (it_pData field) (replicate (unat (it_data_size field)) 0) ds
     else if sz \<noteq> ucast (it_data_size field) then dc_error ''incorrect fixed length bytes size'' ds
     else read_into (it_pData field) (ucast (it_data_size field)) ds)"

section \<open>Substreams\<close>

text \<open>
  A function on the substream of a string; \<open>k\<close> is what the code does after it, with whether it succeeded, the
  substream's state, and the parent stream.
\<close>

definition in_substream ::
  "(pb_dec \<Rightarrow> (unit, pb_dec) outcome) \<Rightarrow> (bool \<Rightarrow> pb_istream \<Rightarrow> pb_dec \<Rightarrow> (unit, pb_dec) outcome) \<Rightarrow> pb_dec \<Rightarrow> (unit, pb_dec) outcome" where
  "in_substream f k ds = (case pb_make_string_substream (dc_in ds) of
     Undef \<Rightarrow> Undef
   | Err s \<Rightarrow> Err (ds\<lparr>dc_in := s\<rparr>)
   | Ok sub s \<Rightarrow> (case f (ds\<lparr>dc_in := sub\<rparr>) of
         Undef \<Rightarrow> Undef
       | Err ds' \<Rightarrow> k False (dc_in ds') (ds'\<lparr>dc_in := s\<rparr>)
       | Ok _ ds' \<Rightarrow> k True (dc_in ds') (ds'\<lparr>dc_in := s\<rparr>)))"

definition close_with :: "bool \<Rightarrow> pb_istream \<Rightarrow> pb_dec \<Rightarrow> (unit, pb_dec) outcome" where
  "close_with status sub ds = pb_bind (on_stream (pb_close_string_substream sub) ds) (\<lambda>_ ds. if status then Ok () ds else Err ds)"

type_synonym decoder = "pb_msgdesc \<Rightarrow> nat \<Rightarrow> u32 \<Rightarrow> pb_dec \<Rightarrow> (unit, pb_dec) outcome"

definition PB_DECODE_NOINIT :: u32 where "PB_DECODE_NOINIT = 0x01"
definition PB_DECODE_DELIMITED :: u32 where "PB_DECODE_DELIMITED = 0x02"
definition PB_DECODE_NULLTERMINATED :: u32 where "PB_DECODE_NULLTERMINATED = 0x04"

text \<open>The callback of a submessage may take all of it; then there is nothing left to decode.\<close>

definition submsg_body :: "pb_app \<Rightarrow> decoder \<Rightarrow> pb_msgdesc \<Rightarrow> pb_field_iter \<Rightarrow> pb_dec \<Rightarrow> (unit, pb_dec) outcome" where
  "submsg_body app dec desc field ds =
     (let flags = (if PB_ATYPE (it_type field) = PB_ATYPE_STATIC \<and> PB_HTYPE (it_type field) \<noteq> PB_HTYPE_REPEATED
        then PB_DECODE_NOINIT else 0) in
      if PB_LTYPE (it_type field) = PB_LTYPE_SUBMSG_W_CB \<and> it_pSize field \<noteq> SizeNULL
      then pb_bind (need (Option.bind (size_address field) (\<lambda>a. if a < 16 then None else load_ptr (a - 16) (dc_mem ds))) ds)
        (\<lambda>cb ds. if cb = 0 then dec desc (it_pData field) flags ds
          else pb_bind (call_decode app cb field ds) (\<lambda>_ ds.
            if is_bytes_left (dc_in ds) = 0 then Ok () ds else dec desc (it_pData field) flags ds))
      else dec desc (it_pData field) flags ds)"

definition pb_dec_submessage :: "pb_app \<Rightarrow> decoder \<Rightarrow> pb_field_iter \<Rightarrow> pb_dec \<Rightarrow> (unit, pb_dec) outcome" where
  "pb_dec_submessage app dec field ds = (case it_submsg_desc field of
     None \<Rightarrow> in_substream (Ok ()) (\<lambda>_ _ ds. dc_error ''invalid field descriptor'' ds) ds
   | Some desc \<Rightarrow> in_substream (submsg_body app dec desc field) close_with ds)"


section \<open>Fields\<close>

definition decode_basic_field :: "pb_app \<Rightarrow> decoder \<Rightarrow> pb_wire_type \<Rightarrow> pb_field_iter \<Rightarrow> pb_dec \<Rightarrow> (unit, pb_dec) outcome" where
  "decode_basic_field app dec wt field ds = (let t = PB_LTYPE (it_type field) in
     if t = PB_LTYPE_BOOL then
       if wt \<noteq> PB_WT_VARINT \<and> wt \<noteq> PB_WT_PACKED then dc_error ''wrong wire type'' ds else pb_dec_bool field ds
     else if t = PB_LTYPE_VARINT \<or> t = PB_LTYPE_UVARINT \<or> t = PB_LTYPE_SVARINT then
       if wt \<noteq> PB_WT_VARINT \<and> wt \<noteq> PB_WT_PACKED then dc_error ''wrong wire type'' ds else pb_dec_varint field ds
     else if t = PB_LTYPE_FIXED32 then
       if wt \<noteq> PB_WT_32BIT \<and> wt \<noteq> PB_WT_PACKED then dc_error ''wrong wire type'' ds else pb_dec_fixed32 field ds
     else if t = PB_LTYPE_FIXED64 then
       if wt \<noteq> PB_WT_64BIT \<and> wt \<noteq> PB_WT_PACKED then dc_error ''wrong wire type'' ds else pb_dec_fixed64 field ds
     else if t = PB_LTYPE_BYTES then
       if wt \<noteq> PB_WT_STRING then dc_error ''wrong wire type'' ds else pb_dec_bytes field ds
     else if t = PB_LTYPE_STRING then
       if wt \<noteq> PB_WT_STRING then dc_error ''wrong wire type'' ds else pb_dec_string field ds
     else if t = PB_LTYPE_SUBMESSAGE \<or> t = PB_LTYPE_SUBMSG_W_CB then
       if wt \<noteq> PB_WT_STRING then dc_error ''wrong wire type'' ds else pb_dec_submessage app dec field ds
     else if t = PB_LTYPE_FIXED_LENGTH_BYTES then
       if wt \<noteq> PB_WT_STRING then dc_error ''wrong wire type'' ds else pb_dec_fixed_length_bytes field ds
     else dc_error ''invalid field type'' ds)"

text \<open>
  The loop over a packed array, on the substream. The last test only says what holds: an entry takes at least one byte of
  the stream.
\<close>

function packed_loop :: "pb_app \<Rightarrow> decoder \<Rightarrow> pb_field_iter \<Rightarrow> pb_dec \<Rightarrow> (unit, pb_dec) outcome" where
  "packed_loop app dec field ds =
     (if is_bytes_left (dc_in ds) = 0 then Ok () ds
      else pb_bind (get_size field ds) (\<lambda>sz ds.
        if \<not> sz < it_array_size field then Ok () ds
        else pb_bind (decode_basic_field app dec PB_WT_PACKED field ds) (\<lambda>_ ds1.
          pb_bind (get_size field ds1) (\<lambda>sz ds1. pb_bind (put_size field (sz + 1) ds1) (\<lambda>_ ds1.
          if unat (is_bytes_left (dc_in ds1)) < unat (is_bytes_left (dc_in ds))
          then packed_loop app dec (field\<lparr>it_pData := it_pData field + unat (it_data_size field)\<rparr>) ds1
          else Undef)))))"
  by auto
termination
proof (relation "measure (\<lambda>(_, _, _, ds). unat (is_bytes_left (dc_in ds)))", goal_cases)
  case (2 app dec field ds x y)
  then have "dc_in y = dc_in ds" by (auto simp: get_size_def need_def split: option.splits)
  then show ?case using 2 by simp
qed simp

declare packed_loop.simps [simp del]

text \<open>\<open>init\<close> is \<open>pb_field_iter_begin\<close> and \<open>pb_message_set_to_defaults\<close>; it returns the status and the memory.\<close>

type_synonym initializer = "pb_msgdesc \<Rightarrow> nat \<Rightarrow> bytes \<Rightarrow> (bool \<times> bytes) option"

definition needs_defaults :: "pb_msgdesc \<Rightarrow> bool" where
  "needs_defaults d \<longleftrightarrow> default_value d \<noteq> None \<or> field_callback d \<noteq> NoCallback \<or> submsg_info d \<noteq> []"

definition prepare_oneof :: "initializer \<Rightarrow> pb_field_iter \<Rightarrow> pb_dec \<Rightarrow> (unit, pb_dec) outcome" where
  "prepare_oneof init field ds = pb_bind (get_size field ds) (\<lambda>which ds.
     if which = it_tag field then Ok () ds
     else pb_bind (store (it_pData field) (replicate (unat (it_data_size field)) 0) ds) (\<lambda>_ ds.
       pb_bind (need (it_submsg_desc field) ds) (\<lambda>d ds.
         if needs_defaults d
         then pb_bind (need (init d (it_pData field) (dc_mem ds)) ds) (\<lambda>(status, mem) ds.
           let ds = ds\<lparr>dc_mem := mem\<rparr> in if status then Ok () ds else dc_error ''failed to set defaults'' ds)
         else Ok () ds)))"

definition decode_static_field :: "pb_app \<Rightarrow> decoder \<Rightarrow> initializer \<Rightarrow> pb_wire_type \<Rightarrow> pb_field_iter \<Rightarrow> pb_dec \<Rightarrow> (unit, pb_dec) outcome" where
  "decode_static_field app dec init wt field ds = (let h = PB_HTYPE (it_type field) in
     if h = PB_HTYPE_REQUIRED then decode_basic_field app dec wt field ds
     else if h = PB_HTYPE_OPTIONAL then
       pb_bind (if it_pSize field \<noteq> SizeNULL
         then pb_bind (need (size_address field) ds) (\<lambda>a ds. store a [1] ds) else Ok () ds)
         (\<lambda>_ ds. decode_basic_field app dec wt field ds)
     else if h = PB_HTYPE_REPEATED then
       pb_bind (get_size field ds) (\<lambda>sz ds.
         let field = field\<lparr>it_pData := it_pField field + unat (it_data_size field) * unat sz\<rparr> in
         if wt = PB_WT_STRING \<and> PB_LTYPE (it_type field) \<le> PB_LTYPE_LAST_PACKABLE
         then in_substream (packed_loop app dec field)
           (\<lambda>status sub ds. if is_bytes_left sub \<noteq> 0 then dc_error ''array overflow'' ds else close_with status sub ds) ds
         else pb_bind (put_size field (sz + 1) ds) (\<lambda>_ ds.
           if sz \<ge> it_array_size field then dc_error ''array overflow'' ds
           else decode_basic_field app dec wt field ds))
     else if h = PB_HTYPE_ONEOF then
       pb_bind (if PB_LTYPE_IS_SUBMSG (it_type field) then prepare_oneof init field ds else Ok () ds)
         (\<lambda>_ ds. pb_bind (put_size field (it_tag field) ds) (\<lambda>_ ds. decode_basic_field app dec wt field ds))
     else dc_error ''invalid field type'' ds)"

text \<open>The call of \<open>field->descriptor->field_callback\<close>.\<close>

definition call_field_callback :: "pb_app \<Rightarrow> pb_field_iter \<Rightarrow> pb_dec \<Rightarrow> (unit, pb_dec) outcome" where
  "call_field_callback app field ds = (case field_callback (it_descriptor field) of
     NoCallback \<Rightarrow> Undef
   | DefaultCallback \<Rightarrow>
       if it_data_size field = 16 \<and> it_pData field \<noteq> 0
       then pb_bind (need (load_ptr (it_pData field) (dc_mem ds)) ds) (\<lambda>f ds. if f \<noteq> 0 then call_decode app f field ds else Ok () ds)
       else Ok () ds
   | OtherCallback \<Rightarrow> app_field app field ds)"

function callback_loop :: "pb_app \<Rightarrow> pb_field_iter \<Rightarrow> pb_dec \<Rightarrow> (unit, pb_dec) outcome" where
  "callback_loop app field ds = pb_bind (call_field_callback app field ds) (\<lambda>_ ds1.
     if is_bytes_left (dc_in ds1) > 0 \<and> is_bytes_left (dc_in ds1) < is_bytes_left (dc_in ds)
     then callback_loop app field ds1 else Ok () ds1)"
  by auto
termination
  by (relation "measure (\<lambda>(_, _, ds). unat (is_bytes_left (dc_in ds)))") (auto simp: word_less_nat_alt)

declare callback_loop.simps [simp del]

definition decode_callback_field :: "pb_app \<Rightarrow> pb_wire_type \<Rightarrow> pb_field_iter \<Rightarrow> pb_dec \<Rightarrow> (unit, pb_dec) outcome" where
  "decode_callback_field app wt field ds =
     (if field_callback (it_descriptor field) = NoCallback then on_stream (pb_skip_field wt) ds
      else if wt = PB_WT_STRING then in_substream (callback_loop app field)
        (\<lambda>status sub ds. if \<not> status then dc_error (case is_errmsg sub of None \<Rightarrow> ''callback failed'' | Some m \<Rightarrow> m) ds
          else close_with True sub ds) ds
      else pb_bind (on_stream (read_raw_value wt 10) ds) (\<lambda>buf ds.
        (case call_field_callback app field (ds\<lparr>dc_in := pb_istream_from_buffer buf (of_nat (length buf))\<rparr>) of
           Undef \<Rightarrow> Undef
         | Err ds' \<Rightarrow> Err (ds'\<lparr>dc_in := dc_in ds\<rparr>)
         | Ok _ ds' \<Rightarrow> Ok () (ds'\<lparr>dc_in := dc_in ds\<rparr>))))"

definition decode_pointer_field :: "pb_dec \<Rightarrow> (unit, pb_dec) outcome" where
  "decode_pointer_field ds = dc_error ''no malloc support'' ds"

definition decode_field :: "pb_app \<Rightarrow> decoder \<Rightarrow> initializer \<Rightarrow> pb_wire_type \<Rightarrow> pb_field_iter \<Rightarrow> pb_dec \<Rightarrow> (unit, pb_dec) outcome" where
  "decode_field app dec init wt field ds =
     (if PB_ATYPE (it_type field) = PB_ATYPE_STATIC then decode_static_field app dec init wt field ds
      else if PB_ATYPE (it_type field) = PB_ATYPE_POINTER then decode_pointer_field ds
      else if PB_ATYPE (it_type field) = PB_ATYPE_CALLBACK then decode_callback_field app wt field ds
      else dc_error ''invalid field type'' ds)"


section \<open>Default values\<close>

text \<open>The status, \<open>array_size\<close> of the iterator, which a fixed array has instead of a counter, and the memory.\<close>

definition clear_size :: "pb_field_iter \<Rightarrow> bytes \<Rightarrow> (pb_size \<times> bytes) option" where
  "clear_size field mem = (case it_pSize field of
     SizeAt a \<Rightarrow> map_option (\<lambda>mem. (it_array_size field, mem)) (mem_write a [0, 0] mem)
   | SizeArray \<Rightarrow> Some (0, mem) | _ \<Rightarrow> None)"

definition pb_field_set_to_default :: "initializer \<Rightarrow> pb_field_iter \<Rightarrow> bytes \<Rightarrow> (bool \<times> pb_size \<times> bytes) option" where
  "pb_field_set_to_default init field mem = (let type = it_type field; n = it_array_size field in
     if PB_LTYPE type = PB_LTYPE_EXTENSION
     then Option.bind (load_ptr (it_pData field) mem) (\<lambda>ext. if ext \<noteq> 0 then None else Some (True, n, mem))
     else if PB_ATYPE type = PB_ATYPE_STATIC then
       if PB_HTYPE type = PB_HTYPE_REPEATED \<or> PB_HTYPE type = PB_HTYPE_ONEOF
       then map_option (\<lambda>(n, mem). (True, n, mem)) (clear_size field mem)
       else Option.bind (if PB_HTYPE type = PB_HTYPE_OPTIONAL \<and> it_pSize field \<noteq> SizeNULL
           then Option.bind (size_address field) (\<lambda>a. mem_write a [0] mem) else Some mem) (\<lambda>mem.
         if PB_LTYPE_IS_SUBMSG type
         then Option.bind (it_submsg_desc field) (\<lambda>d.
           if needs_defaults d then map_option (\<lambda>(status, mem). (status, n, mem)) (init d (it_pData field) mem)
           else map_option (\<lambda>mem. (True, n, mem)) (mem_write (it_pData field) (replicate (unat (it_data_size field)) 0) mem))
         else map_option (\<lambda>mem. (True, n, mem)) (mem_write (it_pData field) (replicate (unat (it_data_size field)) 0) mem))
     else if PB_ATYPE type = PB_ATYPE_POINTER
     then Option.bind (mem_write (it_pField field) (replicate 8 0) mem) (\<lambda>mem.
       if PB_HTYPE type = PB_HTYPE_REPEATED \<or> PB_HTYPE type = PB_HTYPE_ONEOF
       then map_option (\<lambda>(n, mem). (True, n, mem)) (clear_size field mem) else Some (True, n, mem))
     else Some (True, n, mem))"

text \<open>A default value of the field in the default message, after which the field is marked absent again.\<close>

definition default_value_of :: "pb_app \<Rightarrow> decoder \<Rightarrow> initializer \<Rightarrow> pb_field_iter \<Rightarrow> pb_wire_type \<Rightarrow> pb_istream \<Rightarrow> bytes \<Rightarrow>
    (bool \<times> pb_wire_type \<times> u32 \<times> pb_istream \<times> bytes) option" where
  "default_value_of app dec init it wt defstream mem =
     (case decode_field app dec init wt it \<lparr>dc_in = defstream, dc_mem = mem, dc_fixed = 0\<rparr> of
        Undef \<Rightarrow> None
      | Err ds \<Rightarrow> Some (False, wt, 0, dc_in ds, dc_mem ds)
      | Ok _ ds \<Rightarrow> (case fst (pb_decode_tag (dc_in ds)) of
          Undef \<Rightarrow> None
        | Err s \<Rightarrow> Some (False, wt, 0, s, dc_mem ds)
        | Ok (wt, tag) s \<Rightarrow>
            if it_pSize it \<noteq> SizeNULL
            then Option.bind (size_address it) (\<lambda>a. map_option (\<lambda>mem. (True, wt, tag, s, mem)) (mem_write a [0] (dc_mem ds)))
            else Some (True, wt, tag, s, dc_mem ds)))"

function defaults_loop :: "pb_app \<Rightarrow> decoder \<Rightarrow> initializer \<Rightarrow> pb_field_iter \<Rightarrow> pb_wire_type \<Rightarrow> u32 \<Rightarrow> pb_istream \<Rightarrow> bytes \<Rightarrow>
    (bool \<times> pb_field_iter \<times> bytes) option" where
  "defaults_loop app dec init it wt tag defstream mem = (case pb_field_set_to_default init it mem of
     None \<Rightarrow> None
   | Some (False, _, mem) \<Rightarrow> Some (False, it, mem)
   | Some (True, n, mem) \<Rightarrow> let it = it\<lparr>it_array_size := n\<rparr> in
       (case (if tag \<noteq> 0 \<and> ucast (it_tag it) = tag then default_value_of app dec init it wt defstream mem
              else Some (True, wt, tag, defstream, mem)) of
          None \<Rightarrow> None
        | Some (False, _, _, _, mem) \<Rightarrow> Some (False, it, mem)
        | Some (True, wt, tag, defstream, mem) \<Rightarrow> (case pb_field_iter_next mem it of
            None \<Rightarrow> None
          | Some (True, it') \<Rightarrow> defaults_loop app dec init it' wt tag defstream mem
          | Some (False, it') \<Rightarrow> Some (True, it', mem))))"
  by auto
termination
  by (relation "measure (\<lambda>(_, _, _, it, _). unat (field_count (it_descriptor it)) - unat (it_index it))")
    (auto dest!: iter_next_index simp: word_less_nat_alt)

declare defaults_loop.simps [simp del]

text \<open>The default message is said to be as long as the address space; it ends with a null byte.\<close>

definition pb_message_set_to_defaults :: "pb_app \<Rightarrow> decoder \<Rightarrow> initializer \<Rightarrow> pb_field_iter \<Rightarrow> bytes \<Rightarrow>
    (bool \<times> pb_field_iter \<times> bytes) option" where
  "pb_message_set_to_defaults app dec init it mem = (case default_value (it_descriptor it) of
     None \<Rightarrow> defaults_loop app dec init it PB_WT_VARINT 0 (pb_istream_from_buffer [] 0) mem
   | Some bs \<Rightarrow> (case fst (pb_decode_tag (pb_istream_from_buffer bs (- 1))) of
         Undef \<Rightarrow> None
       | Err _ \<Rightarrow> Some (False, it, mem)
       | Ok (wt, tag) defstream \<Rightarrow> defaults_loop app dec init it wt tag defstream mem))"

text \<open>For a submessage: \<open>pb_field_iter_begin\<close> first. The guard only says what the iterator does.\<close>

function init_message :: "pb_app \<Rightarrow> decoder \<Rightarrow> pb_msgdesc \<Rightarrow> nat \<Rightarrow> bytes \<Rightarrow> (bool \<times> bytes) option" where
  "init_message app dec d a mem = (case pb_field_iter_begin mem d a of
     None \<Rightarrow> None
   | Some (False, _) \<Rightarrow> Some (True, mem)
   | Some (True, it) \<Rightarrow> map_option (\<lambda>(status, _, mem). (status, mem)) (pb_message_set_to_defaults app dec
       (\<lambda>d' a' mem'. if d' \<in> set (submsg_info d) then init_message app dec d' a' mem' else None) it mem))"
  by auto
termination
  by (relation "measure (\<lambda>(_, _, d, _). size d)") (auto dest: size_submsg)

declare init_message.simps [simp del]

section \<open>Decoding a message\<close>

text \<open>The local variables of \<open>pb_decode_inner\<close>, but for \<open>fixed_count_size\<close>. The 64 bits of \<open>fields_seen\<close> are two words.\<close>

record pb_inner =
  in_iter :: pb_field_iter
  in_extension_range_start :: u32
  in_extensions :: nat
  in_fixed_count_field :: pb_size
  in_fixed_count_total_size :: pb_size
  in_fields_seen :: "u32 list"

definition PB_MAX_REQUIRED_FIELDS :: nat where
  "PB_MAX_REQUIRED_FIELDS = 64"

text \<open>A field that is not in the message: \<open>decode_extension\<close> does nothing when no extension is registered.\<close>

definition decode_unknown :: "u32 \<Rightarrow> pb_wire_type \<Rightarrow> pb_inner \<Rightarrow> pb_dec \<Rightarrow> (pb_inner, pb_dec) outcome" where
  "decode_unknown tag wt st ds = pb_bind
     (if in_extension_range_start st = 0
      then pb_bind (need (pb_field_iter_find_extension (dc_mem ds) (in_iter st)) ds) (\<lambda>(found, it) ds.
        let st = st\<lparr>in_iter := it\<rparr> in
        pb_bind (if found then pb_bind (need (load_ptr (it_pData it) (dc_mem ds)) ds) (\<lambda>e ds.
            Ok (st\<lparr>in_extensions := e, in_extension_range_start := ucast (it_tag it)\<rparr>) ds) else Ok st ds)
          (\<lambda>st ds. Ok (if in_extensions st = 0 then st\<lparr>in_extension_range_start := - 1\<rparr> else st) ds))
      else Ok st ds)
     (\<lambda>st ds. if tag \<ge> in_extension_range_start st \<and> in_extensions st \<noteq> 0 then Undef
       else pb_bind (on_stream (pb_skip_field wt) ds) (\<lambda>_ ds. Ok st ds))"

text \<open>The bookkeeping of fixed arrays.\<close>

definition track_fixed :: "pb_inner \<Rightarrow> pb_dec \<Rightarrow> (pb_inner, pb_dec) outcome" where
  "track_fixed st ds = (let it = in_iter st in
     if PB_HTYPE (it_type it) = PB_HTYPE_REPEATED \<and> it_pSize it = SizeArray
     then pb_bind
       (if in_fixed_count_field st \<noteq> it_index it
        then if in_fixed_count_field st \<noteq> PB_SIZE_MAX \<and> dc_fixed ds \<noteq> in_fixed_count_total_size st
          then dc_error ''wrong size for fixed count field'' ds
          else Ok (st\<lparr>in_fixed_count_field := it_index it, in_fixed_count_total_size := it_array_size it\<rparr>) (ds\<lparr>dc_fixed := 0\<rparr>)
        else Ok st ds)
       (\<lambda>st ds. Ok (st\<lparr>in_iter := it\<lparr>it_pSize := SizeFixed\<rparr>\<rparr>) ds)
     else Ok st ds)"

definition mark_seen :: "pb_inner \<Rightarrow> pb_inner" where
  "mark_seen st = (let it = in_iter st; r = it_required_field_index it in
     if PB_HTYPE (it_type it) = PB_HTYPE_REQUIRED \<and> unat r < PB_MAX_REQUIRED_FIELDS
     then st\<lparr>in_fields_seen := (in_fields_seen st)[unat (drop_bit 5 r) :=
       in_fields_seen st ! unat (drop_bit 5 r) OR push_bit (unat (r AND 31)) 1]\<rparr>
     else st)"

definition decode_tagged :: "pb_app \<Rightarrow> decoder \<Rightarrow> initializer \<Rightarrow> u32 \<Rightarrow> pb_wire_type \<Rightarrow> pb_inner \<Rightarrow> pb_dec \<Rightarrow> (pb_inner, pb_dec) outcome" where
  "decode_tagged app dec init tag wt st ds =
     pb_bind (need (pb_field_iter_find (dc_mem ds) tag (in_iter st)) ds) (\<lambda>(found, it) ds.
       let st = st\<lparr>in_iter := it\<rparr> in
       if \<not> found \<or> PB_LTYPE (it_type it) = PB_LTYPE_EXTENSION then decode_unknown tag wt st ds
       else pb_bind (track_fixed st ds) (\<lambda>st ds.
         let st = mark_seen st in
         pb_bind (decode_field app dec init wt (in_iter st) ds) (\<lambda>_ ds. Ok st ds)))"

text \<open>The loop over the fields of the stream; again the last test only says what holds.\<close>

function inner_loop :: "pb_app \<Rightarrow> decoder \<Rightarrow> initializer \<Rightarrow> u32 \<Rightarrow> pb_inner \<Rightarrow> pb_dec \<Rightarrow> (pb_inner, pb_dec) outcome" where
  "inner_loop app dec init flags st ds =
     (if is_bytes_left (dc_in ds) = 0 then Ok st ds
      else (case pb_decode_tag (dc_in ds) of
        (Undef, _) \<Rightarrow> Undef
      | (Err s, eof) \<Rightarrow> if eof then Ok st (ds\<lparr>dc_in := s\<rparr>) else Err (ds\<lparr>dc_in := s\<rparr>)
      | (Ok (wt, tag) s, _) \<Rightarrow>
          if tag = 0
          then if flags AND PB_DECODE_NULLTERMINATED \<noteq> 0 then Ok st (ds\<lparr>dc_in := s\<rparr>)
            else dc_error ''zero tag'' (ds\<lparr>dc_in := s\<rparr>)
          else pb_bind (decode_tagged app dec init tag wt st (ds\<lparr>dc_in := s\<rparr>)) (\<lambda>st ds1.
            if unat (is_bytes_left (dc_in ds1)) < unat (is_bytes_left (dc_in ds))
            then inner_loop app dec init flags st ds1 else Undef)))"
  by auto
termination
  by (relation "measure (\<lambda>(_, _, _, _, _, ds). unat (is_bytes_left (dc_in ds)))") auto

declare inner_loop.simps [simp del]

definition all_required_seen :: "pb_size \<Rightarrow> u32 list \<Rightarrow> bool" where
  "all_required_seen required seen = (let n = (if unat required > PB_MAX_REQUIRED_FIELDS then of_nat PB_MAX_REQUIRED_FIELDS else required) in
     (\<forall>i < unat (drop_bit 5 n). seen ! i = - 1)
     \<and> (n AND 31 \<noteq> 0 \<longrightarrow> seen ! unat (drop_bit 5 n) = drop_bit (32 - unat (n AND 31)) (- 1)))"

definition inner_checks :: "pb_inner \<Rightarrow> pb_dec \<Rightarrow> (unit, pb_dec) outcome" where
  "inner_checks st ds =
     (if in_fixed_count_field st \<noteq> PB_SIZE_MAX \<and> dc_fixed ds \<noteq> in_fixed_count_total_size st
      then dc_error ''wrong size for fixed count field'' ds
      else if \<not> all_required_seen (required_field_count (it_descriptor (in_iter st))) (in_fields_seen st)
      then dc_error ''missing required field'' ds
      else Ok () ds)"

text \<open>Messages in the message have smaller descriptors.\<close>

function pb_decode_inner :: "pb_app \<Rightarrow> pb_msgdesc \<Rightarrow> nat \<Rightarrow> u32 \<Rightarrow> pb_dec \<Rightarrow> (unit, pb_dec) outcome" where
  "pb_decode_inner app d a flags ds =
     (let dec = (\<lambda>d' a' flags' ds'. if size d' < size d then pb_decode_inner app d' a' flags' ds' else Undef);
          init = init_message app dec in
      case pb_field_iter_begin (dc_mem ds) d a of
        None \<Rightarrow> Undef
      | Some (begun, it) \<Rightarrow> pb_bind
          (if begun \<and> flags AND PB_DECODE_NOINIT = 0
           then pb_bind (need (pb_message_set_to_defaults app dec init it (dc_mem ds)) ds) (\<lambda>(status, it, mem) ds.
             let ds = ds\<lparr>dc_mem := mem\<rparr> in if status then Ok it ds else dc_error ''failed to set defaults'' ds)
           else Ok it ds)
          (\<lambda>it ds. pb_bind (inner_loop app dec init flags
               \<lparr>in_iter = it, in_extension_range_start = 0, in_extensions = 0, in_fixed_count_field = PB_SIZE_MAX,
                in_fixed_count_total_size = 0, in_fields_seen = [0, 0]\<rparr> (ds\<lparr>dc_fixed := 0\<rparr>))
             (\<lambda>st ds1. pb_bind (inner_checks st ds1) (\<lambda>_ ds1. Ok () (ds1\<lparr>dc_fixed := dc_fixed ds\<rparr>)))))"
  by auto
termination
  by (relation "measure (\<lambda>(_, d, _). size d)") auto

declare pb_decode_inner.simps [simp del]

definition pb_decode :: "pb_app \<Rightarrow> pb_msgdesc \<Rightarrow> nat \<Rightarrow> pb_dec \<Rightarrow> (unit, pb_dec) outcome" where
  "pb_decode app d a ds = pb_decode_inner app d a 0 ds"

definition pb_decode_ex :: "pb_app \<Rightarrow> pb_msgdesc \<Rightarrow> nat \<Rightarrow> u32 \<Rightarrow> pb_dec \<Rightarrow> (unit, pb_dec) outcome" where
  "pb_decode_ex app d a flags ds =
     (if flags AND PB_DECODE_DELIMITED = 0 then pb_decode_inner app d a flags ds
      else in_substream (pb_decode_inner app d a flags) close_with ds)"

end
