(* ===== verification/PbDecodeSafe.thy ===== *)
theory PbDecodeSafe
  imports PbDecode
begin

text \<open>
  The decoder is safe: on a structure that a descriptor describes, it is defined for every input, stays within the
  stream, and writes only into the structure.
\<close>

section \<open>Safe steps\<close>

definition frame :: "nat \<Rightarrow> nat \<Rightarrow> bytes \<Rightarrow> bytes \<Rightarrow> bool" where
  "frame lo hi mem mem' \<longleftrightarrow> length mem' = length mem \<and> (\<forall>i < length mem. (i < lo \<or> hi \<le> i) \<longrightarrow> mem' ! i = mem ! i)"

definition dok :: "nat \<Rightarrow> pb_dec \<Rightarrow> bool" where
  "dok hi ds \<longleftrightarrow> is_ok (dc_in ds) \<and> hi \<le> length (dc_mem ds)"

definition dsafe :: "nat \<Rightarrow> nat \<Rightarrow> pb_dec \<Rightarrow> ('a, pb_dec) outcome \<Rightarrow> bool" where
  "dsafe lo hi ds res \<longleftrightarrow> (case res of
     Ok _ ds' \<Rightarrow> adv (dc_in ds) (dc_in ds') \<and> frame lo hi (dc_mem ds) (dc_mem ds')
   | Err ds' \<Rightarrow> within (dc_in ds) (dc_in ds') \<and> frame lo hi (dc_mem ds) (dc_mem ds')
   | Undef \<Rightarrow> False)"

lemma dsafe_simps [simp]:
  "dsafe lo hi ds (Ok x ds') \<longleftrightarrow> adv (dc_in ds) (dc_in ds') \<and> frame lo hi (dc_mem ds) (dc_mem ds')"
  "dsafe lo hi ds (Err ds') \<longleftrightarrow> within (dc_in ds) (dc_in ds') \<and> frame lo hi (dc_mem ds) (dc_mem ds')"
  "\<not> dsafe lo hi ds Undef"
  by (simp_all add: dsafe_def)

lemma frame_refl [simp]: "frame lo hi mem mem"
  by (simp add: frame_def)

lemma frame_trans: "frame lo hi m m' \<Longrightarrow> frame lo hi m' m'' \<Longrightarrow> frame lo hi m m''"
  by (auto simp: frame_def)

lemma frame_mono: "frame lo hi m m' \<Longrightarrow> lo' \<le> lo \<Longrightarrow> hi \<le> hi' \<Longrightarrow> frame lo' hi' m m'"
  by (auto simp: frame_def)

lemma dsafe_mono: "dsafe lo hi ds res \<Longrightarrow> lo' \<le> lo \<Longrightarrow> hi \<le> hi' \<Longrightarrow> dsafe lo' hi' ds res"
  by (cases res) (auto intro: frame_mono)

lemma frame_dok: "frame lo hi (dc_mem ds) (dc_mem ds') \<Longrightarrow> adv (dc_in ds) (dc_in ds') \<Longrightarrow> dok n ds \<Longrightarrow> dok n ds'"
  by (auto simp: dok_def frame_def intro: adv_ok)

lemma dsafe_trans:
  "adv (dc_in ds) (dc_in ds') \<Longrightarrow> frame lo hi (dc_mem ds) (dc_mem ds') \<Longrightarrow> dsafe lo hi ds' res \<Longrightarrow> dsafe lo hi ds res"
  by (cases res) (auto intro: adv_trans within_trans adv_within frame_trans)

lemma dsafe_bind:
  assumes "dsafe lo hi ds m"
    "\<And>x ds'. m = Ok x ds' \<Longrightarrow> adv (dc_in ds) (dc_in ds') \<Longrightarrow> frame lo hi (dc_mem ds) (dc_mem ds') \<Longrightarrow> dsafe lo hi ds' (f x ds')"
  shows "dsafe lo hi ds (pb_bind m f)"
proof (cases m)
  case (Ok x ds')
  then show ?thesis using assms(1) assms(2) [OF Ok] by (auto intro: dsafe_trans)
qed (use assms(1) in simp_all)

text \<open>The usual case: what follows only needs to know that the state is still fit.\<close>

lemma dsafe_seq:
  assumes "dsafe lo hi ds m" "dok n ds" "\<And>x ds'. dok n ds' \<Longrightarrow> dsafe lo hi ds' (f x ds')"
  shows "dsafe lo hi ds (pb_bind m f)"
  using assms by (auto intro: dsafe_bind frame_dok)

lemma dsafe_on_stream: "safe (dc_in ds) (f (dc_in ds)) \<Longrightarrow> dsafe lo hi ds (on_stream f ds)"
  by (cases "f (dc_in ds)") (auto simp: on_stream_def)

lemma dsafe_error [simp]: "dsafe lo hi ds (dc_error msg ds)"
  by (simp add: dc_error_def dsafe_on_stream)

lemma dsafe_if: "(c \<Longrightarrow> dsafe lo hi ds r) \<Longrightarrow> (\<not> c \<Longrightarrow> dsafe lo hi ds r') \<Longrightarrow> dsafe lo hi ds (if c then r else r')"
  by simp

lemma dsafe_need: "dsafe lo hi ds (need m ds) \<longleftrightarrow> m \<noteq> None"
  by (cases m) simp_all

lemma mem_write_frame:
  assumes "lo \<le> p" "p + length bs \<le> hi" "hi \<le> length mem"
  obtains mem' where "mem_write p bs mem = Some mem'" "frame lo hi mem mem'"
proof -
  have "frame lo hi mem (mem_put p bs mem)" using assms by (auto simp: frame_def length_mem_put nth_mem_put)
  then show thesis using that assms by (simp add: mem_write_def)
qed

lemma dsafe_store: "lo \<le> p \<Longrightarrow> p + length bs \<le> hi \<Longrightarrow> dok hi ds \<Longrightarrow> dsafe lo hi ds (store p bs ds)"
proof -
  assume a: "lo \<le> p" "p + length bs \<le> hi" "dok hi ds"
  then have h: "hi \<le> length (dc_mem ds)" by (simp add: dok_def)
  obtain mem' where "mem_write p bs (dc_mem ds) = Some mem'" "frame lo hi (dc_mem ds) mem'" using mem_write_frame [OF a(1,2) h] .
  then show ?thesis by (simp add: store_def)
qed

lemma dok_stream: "dok hi ds \<Longrightarrow> is_ok (dc_in ds)"
  by (simp add: dok_def)

section \<open>Field decoders\<close>

lemma dsafe_reader: "dok hi ds \<Longrightarrow> (is_ok (dc_in ds) \<Longrightarrow> safe (dc_in ds) (f (dc_in ds))) \<Longrightarrow> dsafe lo hi ds (on_stream f ds)"
  by (simp add: dsafe_on_stream dok_stream)

lemma dsafe_dec_bool:
  assumes "lo \<le> it_pData it" "it_pData it + 1 \<le> hi" "dok hi ds"
  shows "dsafe lo hi ds (pb_dec_bool it ds)"
  unfolding pb_dec_bool_def using assms
  by (intro dsafe_seq [OF dsafe_reader] dsafe_store) (auto intro: safes)

lemma data_sizes: "n = 8 \<or> n = 4 \<or> n = 2 \<or> n = 1 \<Longrightarrow> unat (n :: u16) = 8 \<or> unat n = 4 \<or> unat n = 2 \<or> unat n = 1"
  by auto

lemma dsafe_dec_varint:
  assumes "lo \<le> it_pData it" "it_pData it + unat (it_data_size it) \<le> hi" "dok hi ds"
  shows "dsafe lo hi ds (pb_dec_varint it ds)"
proof -
  have st: "dsafe lo hi ds' (store (it_pData it) (le_bytes (unat (it_data_size it)) v) ds')" if "dok hi ds'" for ds' v
    using assms that by (intro dsafe_store) simp_all
  have put: "dsafe lo hi ds' (if b then pb_bind (store (it_pData it) (le_bytes (unat (it_data_size it)) v) ds')
      (\<lambda>_ ds. if c then dc_error m1 ds else Ok () ds) else dc_error m2 ds')" if "dok hi ds'" for ds' v b c m1 m2
    using st [OF that] that by (auto intro!: dsafe_seq [where n = hi])
  have rd: "dsafe lo hi ds (on_stream pb_decode_varint ds)" "dsafe lo hi ds (on_stream pb_decode_svarint ds)"
    using assms(3) by (auto intro: dsafe_reader safes)
  have sv: "dsafe lo hi ds (if c then on_stream pb_decode_svarint ds
      else pb_bind (on_stream pb_decode_varint ds) (\<lambda>value ds. Ok (g value) ds))" for c g
    using rd assms(3) by (auto intro!: dsafe_seq [where n = hi])
  show ?thesis
  proof (cases "PB_LTYPE (it_type it) = PB_LTYPE_UVARINT")
    case True
    show ?thesis unfolding pb_dec_varint_def Let_def if_P [OF True] by (rule dsafe_seq [OF rd(1) assms(3) put])
  next
    case False
    show ?thesis unfolding pb_dec_varint_def Let_def if_not_P [OF False] by (rule dsafe_seq [OF sv assms(3) put])
  qed
qed

lemma dsafe_dec_fixed:
  assumes "lo \<le> it_pData it" "dok hi ds"
  shows "it_pData it + 4 \<le> hi \<Longrightarrow> dsafe lo hi ds (pb_dec_fixed32 it ds)"
    "it_pData it + 8 \<le> hi \<Longrightarrow> dsafe lo hi ds (pb_dec_fixed64 it ds)"
  unfolding pb_dec_fixed32_def pb_dec_fixed64_def using assms
  by (auto intro!: dsafe_seq [where n = hi] dsafe_store intro: dsafe_reader safes)

lemma pb_read_count: "pb_read count s = Ok d s' \<Longrightarrow> length d = unat count"
  by (auto simp: pb_read_def buf_read_def mem_read_def is_error_def split: if_splits)

lemma dsafe_read_into:
  assumes "lo \<le> p" "p + unat count \<le> hi" "dok hi ds"
  shows "dsafe lo hi ds (read_into p count ds)"
  unfolding read_into_def
proof (rule dsafe_bind)
  show "dsafe lo hi ds (on_stream (pb_read count) ds)" using assms(3) by (auto intro: dsafe_reader safes)
  fix d ds' assume r: "on_stream (pb_read count) ds = Ok d ds'" and a: "adv (dc_in ds) (dc_in ds')" "frame lo hi (dc_mem ds) (dc_mem ds')"
  have "length d = unat count" using r pb_read_count by (auto simp: on_stream_def split: outcome.splits)
  then show "dsafe lo hi ds' (store p d ds')" using assms frame_dok [OF a(2,1)] by (intro dsafe_store) simp_all
qed

lemma unat_ucast_size: "unat (ucast (x :: u16) :: u64) = unat x" "unat (ucast (y :: u32) :: u64) = unat y"
  using unat_lt_size [of x] unat_lt_size [of y] by (simp_all add: unat_ucast_fit)

lemma dsafe_dec_bytes:
  assumes "lo \<le> it_pData it" "it_pData it + unat (it_data_size it) \<le> hi" "dok hi ds"
  shows "dsafe lo hi ds (pb_dec_bytes it ds)"
  unfolding pb_dec_bytes_def
proof (rule dsafe_seq [where n = hi])
  show "dsafe lo hi ds (on_stream pb_decode_varint32 ds)" using assms(3) by (auto intro: dsafe_reader safes)
  fix sz :: u32 and ds' assume ok: "dok hi ds'"
  have two: "unat (ucast sz + 2 :: u64) = unat sz + 2"
    using unat_lt_size [of sz] unat_ucast_size(2) [of sz] by (intro trans [OF unat_add_nowrap]) simp_all
  have "dsafe lo hi ds' (pb_bind (store (it_pData it) (le_bytes 2 (unat sz)) ds') (\<lambda>_ ds. read_into (it_pData it + 2) (ucast sz) ds))"
    if "\<not> ucast sz + 2 > (ucast (it_data_size it) :: u64)"
  proof -
    have "unat sz + 2 \<le> unat (it_data_size it)" using that two unat_ucast_size(1) [of "it_data_size it"] by (simp add: word_less_nat_alt not_less)
    then show ?thesis using assms ok unat_ucast_size(2) [of sz]
      by (intro dsafe_seq [where n = hi] dsafe_store dsafe_read_into) simp_all
  qed
  then show "dsafe lo hi ds' (if sz > ucast PB_SIZE_MAX then dc_error ''bytes overflow'' ds'
     else let alloc_size = ucast sz + 2 :: u64 in
       if ucast sz > alloc_size then dc_error ''size too large'' ds'
       else if PB_ATYPE (it_type it) = PB_ATYPE_POINTER then dc_error ''no malloc support'' ds'
       else if alloc_size > ucast (it_data_size it) then dc_error ''bytes overflow'' ds'
       else pb_bind (store (it_pData it) (le_bytes 2 (unat sz)) ds') (\<lambda>_ ds.
         read_into (it_pData it + 2) (ucast sz) ds))" by (simp add: Let_def)
qed (rule assms(3))

lemma dsafe_dec_string:
  assumes "lo \<le> it_pData it" "it_pData it + unat (it_data_size it) \<le> hi" "dok hi ds"
  shows "dsafe lo hi ds (pb_dec_string it ds)"
  unfolding pb_dec_string_def
proof (rule dsafe_seq [where n = hi])
  show "dsafe lo hi ds (on_stream pb_decode_varint32 ds)" using assms(3) by (auto intro: dsafe_reader safes)
  fix sz :: u32 and ds' assume ok: "dok hi ds'"
  have "dsafe lo hi ds' (pb_bind (store (it_pData it + unat sz) [0] ds') (\<lambda>_ ds. read_into (it_pData it) (ucast sz) ds))"
    if "sz \<noteq> - 1" "\<not> ucast (sz + 1) > (ucast (it_data_size it) :: u64)"
  proof -
    have "unat (sz + 1) = unat sz + 1" using that(1) unat_plus_1 [of sz] by (simp add: eq_neg_iff_add_eq_0)
    then have "unat sz + 1 \<le> unat (it_data_size it)"
      using that(2) unat_ucast_size(1) [of "it_data_size it"] unat_ucast_size(2) [of "sz + 1"] by (simp add: word_less_nat_alt not_less)
    then show ?thesis using assms ok unat_ucast_size(2) [of sz]
      by (intro dsafe_seq [where n = hi] dsafe_store dsafe_read_into) simp_all
  qed
  then show "dsafe lo hi ds' (if sz = - 1 then dc_error ''size too large'' ds'
     else let alloc_size = ucast (sz + 1) :: u64 in
       if alloc_size < ucast sz then dc_error ''size too large'' ds'
       else if PB_ATYPE (it_type it) = PB_ATYPE_POINTER then dc_error ''no malloc support'' ds'
       else if alloc_size > ucast (it_data_size it) then dc_error ''string overflow'' ds'
       else pb_bind (store (it_pData it + unat sz) [0] ds') (\<lambda>_ ds. read_into (it_pData it) (ucast sz) ds))"
    by (simp add: Let_def)
qed (rule assms(3))

lemma dsafe_dec_fixed_length_bytes:
  assumes "lo \<le> it_pData it" "it_pData it + unat (it_data_size it) \<le> hi" "dok hi ds"
  shows "dsafe lo hi ds (pb_dec_fixed_length_bytes it ds)"
  unfolding pb_dec_fixed_length_bytes_def
  using assms unat_ucast_size(1) [of "it_data_size it"]
  by (auto intro!: dsafe_seq [where n = hi] dsafe_store dsafe_read_into dsafe_reader safes)


section \<open>Substreams\<close>

lemma close_within:
  assumes "is_ok s" "pb_make_string_substream s = Ok sub s1" "within sub sub'"
  obtains s2 where "pb_close_string_substream sub' s1 = Ok () s2" "within s s2"
proof -
  obtain t where t: "adv s t" "is_rest sub = is_rest t" "is_rest s1 = is_rest t"
    "unat (is_bytes_left t) = unat (is_bytes_left sub) + unat (is_bytes_left s1)"
    using make_substream [OF assms(1,2)] by metis
  have ok: "is_ok sub'" using within_ok [OF assms(3)] make_substream_ok [OF assms(1,2)] by simp
  have r: "pb_read (is_bytes_left sub') sub' = Ok (input sub') (sub'\<lparr>is_rest := drop (unat (is_bytes_left sub')) (is_rest sub'), is_bytes_left := 0\<rparr>)"
    if "is_bytes_left sub' \<noteq> 0"
    using that ok by (simp add: pb_read_def buf_read_def mem_read_def mem_get_def is_ok_def input_def)
  let ?s2 = "s1\<lparr>is_rest := drop (unat (is_bytes_left sub')) (is_rest sub'), is_errmsg := is_errmsg sub'\<rparr>"
  have c: "pb_close_string_substream sub' s1 = Ok () ?s2"
    using r by (cases "is_bytes_left sub' = 0") (simp_all add: pb_close_string_substream_def)
  obtain k where k: "k + unat (is_bytes_left sub') \<le> unat (is_bytes_left sub)" "is_rest sub' = drop k (is_rest sub)"
    using assms(3) by (auto simp only: within_def)
  have "within t ?s2" unfolding within_def using k t(2-4)
    by (intro exI [of _ "k + unat (is_bytes_left sub')"]) (simp add: add.commute)
  then have "within s ?s2" using within_trans [OF adv_within [OF t(1)]] by blast
  then show thesis using that [OF c] by simp
qed

text \<open>What follows the use of a substream: it is closed, or the call fails.\<close>

definition ends_substream :: "(bool \<Rightarrow> pb_istream \<Rightarrow> pb_dec \<Rightarrow> (unit, pb_dec) outcome) \<Rightarrow> bool" where
  "ends_substream k \<longleftrightarrow> (\<forall>b sub ds. k b sub ds = close_with b sub ds \<or> (\<exists>msg. k b sub ds = dc_error msg ds))"

lemma make_within:
  assumes "is_ok s" "pb_make_string_substream s = Err s'" shows "within s s'"
  using assms safe_decode_varint32 [OF assms(1)] unfolding pb_make_string_substream_def
  by (cases "pb_decode_varint32 s") (auto simp: is_error_def within_def adv_def split: if_splits)

lemma make_defined: "is_ok s \<Longrightarrow> pb_make_string_substream s \<noteq> Undef"
  using safe_decode_varint32 [of s] unfolding pb_make_string_substream_def
  by (cases "pb_decode_varint32 s") (auto simp: is_error_def)

lemma dsafe_in_substream:
  assumes ok: "dok n ds" and k: "ends_substream k"
    and f: "\<And>sub. dok n (ds\<lparr>dc_in := sub\<rparr>) \<Longrightarrow> dsafe lo hi (ds\<lparr>dc_in := sub\<rparr>) (f (ds\<lparr>dc_in := sub\<rparr>))"
  shows "dsafe lo hi ds (in_substream f k ds)"
proof (cases "pb_make_string_substream (dc_in ds)")
  case (Err s)
  then show ?thesis using make_within [OF dok_stream [OF ok]] by (simp add: in_substream_def)
next
  case Undef
  then show ?thesis using make_defined [OF dok_stream [OF ok]] by simp
next
  case (Ok sub s1)
  note s = make_substream_ok [OF dok_stream [OF ok] Ok]
  have fr: "dsafe lo hi (ds\<lparr>dc_in := sub\<rparr>) (f (ds\<lparr>dc_in := sub\<rparr>))" using f s(1) ok by (simp add: dok_def)
  have err: "dsafe lo hi ds (dc_error msg (ds'\<lparr>dc_in := s1\<rparr>))" if "frame lo hi (dc_mem ds) (dc_mem ds')" for ds' msg
    using that s(3) by (auto simp: dc_error_def on_stream_def is_error_def within_def)
  have closed: "dsafe lo hi ds (close_with b (dc_in ds') (ds'\<lparr>dc_in := s1\<rparr>))"
    if d: "frame lo hi (dc_mem ds) (dc_mem ds')" "within sub (dc_in ds')" "b \<Longrightarrow> adv sub (dc_in ds')" for b ds'
  proof (cases b)
    case True
    obtain s2 where "pb_close_string_substream (dc_in ds') s1 = Ok () s2" "adv (dc_in ds) s2"
      using close_substream [OF dok_stream [OF ok] Ok d(3) [OF True]] .
    then show ?thesis using True d(1) by (simp add: close_with_def on_stream_def)
  next
    case False
    obtain s2 where "pb_close_string_substream (dc_in ds') s1 = Ok () s2" "within (dc_in ds) s2"
      using close_within [OF dok_stream [OF ok] Ok d(2)] .
    then show ?thesis using False d(1) by (simp add: close_with_def on_stream_def)
  qed
  have fin: "dsafe lo hi ds (k b (dc_in ds') (ds'\<lparr>dc_in := s1\<rparr>))"
    if d: "frame lo hi (dc_mem ds) (dc_mem ds')" "within sub (dc_in ds')" "b \<Longrightarrow> adv sub (dc_in ds')" for b ds'
    using k closed [OF d] err [OF d(1)] unfolding ends_substream_def by metis
  show ?thesis
  proof (cases "f (ds\<lparr>dc_in := sub\<rparr>)")
    case o: (Ok x ds')
    then show ?thesis using Ok fr fin [of ds' True] adv_within by (simp add: in_substream_def)
  next
    case e: (Err ds')
    then show ?thesis using Ok fr fin [of ds' False] by (simp add: in_substream_def)
  next
    case Undef
    then show ?thesis using fr by simp
  qed
qed

section \<open>Functions of the application, decoders of submessages\<close>

text \<open>The field callbacks of the application stay within the stream and write, of this memory, only into their field.\<close>

abbreviation field_end :: "pb_field_iter \<Rightarrow> nat" where
  "field_end it \<equiv> it_pData it + unat (it_data_size it)"

definition app_ok :: "pb_app \<Rightarrow> bool" where
  "app_ok app \<longleftrightarrow> (\<forall>field ds. is_ok (dc_in ds) \<longrightarrow> dsafe (it_pData field) (field_end field) ds (app_field app field ds))"

definition dec_safe :: "(pb_msgdesc \<Rightarrow> nat \<Rightarrow> bool) \<Rightarrow> nat \<Rightarrow> nat \<Rightarrow> decoder \<Rightarrow> bool" where
  "dec_safe rec lo hi dec \<longleftrightarrow> (\<forall>d n p flags ds. rec d n \<longrightarrow> lo \<le> p \<longrightarrow> p + n \<le> hi \<longrightarrow> dok hi ds \<longrightarrow>
     dsafe p (p + n) ds (dec d p flags ds))"

definition init_safe :: "(pb_msgdesc \<Rightarrow> nat \<Rightarrow> bool) \<Rightarrow> nat \<Rightarrow> nat \<Rightarrow> initializer \<Rightarrow> bool" where
  "init_safe rec lo hi init \<longleftrightarrow> (\<forall>d n p mem. rec d n \<longrightarrow> lo \<le> p \<longrightarrow> p + n \<le> hi \<longrightarrow> hi \<le> length mem \<longrightarrow>
     (\<exists>status mem'. init d p mem = Some (status, mem') \<and> frame p (p + n) mem mem'))"

text \<open>What decoding one value requires of the field: room for it, and a descriptor for a submessage.\<close>

definition entry_ok :: "(pb_msgdesc \<Rightarrow> nat \<Rightarrow> bool) \<Rightarrow> nat \<Rightarrow> pb_field_iter \<Rightarrow> bool" where
  "entry_ok rec hi it \<longleftrightarrow> (PB_LTYPE (it_type it) = PB_LTYPE_BOOL \<longrightarrow> 1 \<le> unat (it_data_size it))
     \<and> (PB_LTYPE (it_type it) = PB_LTYPE_FIXED32 \<longrightarrow> 4 \<le> unat (it_data_size it))
     \<and> (PB_LTYPE (it_type it) = PB_LTYPE_FIXED64 \<longrightarrow> 8 \<le> unat (it_data_size it))
     \<and> (PB_LTYPE_IS_SUBMSG (it_type it) \<longrightarrow> (\<exists>d. it_submsg_desc it = Some d \<and> rec d (unat (it_data_size it))))
     \<and> (PB_LTYPE (it_type it) = PB_LTYPE_SUBMSG_W_CB \<longrightarrow> it_pSize it = SizeNULL)"

definition basic_ok :: "(pb_msgdesc \<Rightarrow> nat \<Rightarrow> bool) \<Rightarrow> nat \<Rightarrow> nat \<Rightarrow> pb_field_iter \<Rightarrow> bool" where
  "basic_ok rec lo hi it \<longleftrightarrow> lo \<le> it_pData it \<and> field_end it \<le> hi \<and> entry_ok rec hi it"

lemma dok_mono: "dok hi ds \<Longrightarrow> hi' \<le> hi \<Longrightarrow> dok hi' ds"
  by (simp add: dok_def)

lemma dsafe_dec_submessage:
  assumes app: "app_ok app" and dec: "dec_safe rec lo hi dec" and it: "basic_ok rec lo hi it" "PB_LTYPE_IS_SUBMSG (it_type it)"
    and ok: "dok hi ds"
  shows "dsafe (it_pData it) (field_end it) ds (pb_dec_submessage app dec it ds)"
proof -
  obtain d where d: "it_submsg_desc it = Some d" "rec d (unat (it_data_size it))" using it by (auto simp: basic_ok_def entry_ok_def)
  have dd: "dsafe (it_pData it) (field_end it) ds' (dec d (it_pData it) flags ds')" if "dok hi ds'" for ds' flags
    using dec d(2) it(1) that by (auto simp: dec_safe_def basic_ok_def entry_ok_def)
  have body: "dsafe (it_pData it) (field_end it) ds' (submsg_body app dec d it ds')" if o: "dok hi ds'" for ds'
  proof -
    have "\<not> (PB_LTYPE (it_type it) = PB_LTYPE_SUBMSG_W_CB \<and> it_pSize it \<noteq> SizeNULL)"
      using it(1) by (simp add: basic_ok_def entry_ok_def)
    then have "submsg_body app dec d it ds' = dec d (it_pData it) (if PB_ATYPE (it_type it) = PB_ATYPE_STATIC
        \<and> PB_HTYPE (it_type it) \<noteq> PB_HTYPE_REPEATED then PB_DECODE_NOINIT else 0) ds'"
      by (simp only: submsg_body_def Let_def if_False)
    then show ?thesis using dd [OF o] by simp
  qed
  show ?thesis unfolding pb_dec_submessage_def d(1) option.case
    using body by (intro dsafe_in_substream [OF ok]) (auto simp: ends_substream_def)
qed

lemma dsafe_basic_field:
  assumes app: "app_ok app" and dec: "dec_safe rec lo hi dec" and it: "basic_ok rec lo hi it" and ok: "dok hi ds"
  shows "dsafe (it_pData it) (field_end it) ds (decode_basic_field app dec wt it ds)"
proof -
  have le: "field_end it \<le> hi" using it by (simp add: basic_ok_def entry_ok_def)
  have o: "dok (field_end it) ds" using dok_mono [OF ok le] .
  have sub: "PB_LTYPE (it_type it) = PB_LTYPE_SUBMESSAGE \<or> PB_LTYPE (it_type it) = PB_LTYPE_SUBMSG_W_CB \<Longrightarrow>
      dsafe (it_pData it) (field_end it) ds (pb_dec_submessage app dec it ds)"
    using dsafe_dec_submessage [OF app dec it _ ok] by (simp add: PB_LTYPE_IS_SUBMSG_def)
  have size: "PB_LTYPE (it_type it) = PB_LTYPE_BOOL \<Longrightarrow> 1 \<le> unat (it_data_size it)"
    "PB_LTYPE (it_type it) = PB_LTYPE_FIXED32 \<Longrightarrow> 4 \<le> unat (it_data_size it)"
    "PB_LTYPE (it_type it) = PB_LTYPE_FIXED64 \<Longrightarrow> 8 \<le> unat (it_data_size it)" using it by (simp_all add: basic_ok_def entry_ok_def)
  note r = order_refl
  note plain = dsafe_dec_varint [OF r r o] dsafe_dec_bytes [OF r r o] dsafe_dec_string [OF r r o]
    dsafe_dec_fixed_length_bytes [OF r r o]
  note sized = dsafe_dec_bool [OF r _ o] dsafe_dec_fixed(1) [OF r o] dsafe_dec_fixed(2) [OF r o]
  show ?thesis unfolding decode_basic_field_def Let_def
    by (intro dsafe_if dsafe_error plain sub sized) (use size in simp_all)
qed

end
