(* ===== verification/PbDecodeTotal.thy ===== *)
theory PbDecodeTotal
  imports PbDecodeSafe
begin

text \<open>Fields, default values and whole messages: the loops end, nothing is undefined, writes stay in the structure.\<close>

section \<open>Reading makes the stream shorter\<close>

lemma bind_OkE:
  assumes "pb_bind m f = Ok x s"
  obtains y s1 where "m = Ok y s1" "f y s1 = Ok x s"
  using assms by (cases m) auto

lemma varint_loop_less: "dec_varint_loop n v s = Ok x s' \<Longrightarrow> unat (is_bytes_left s') < unat (is_bytes_left s)"
proof (induction n v s rule: dec_varint_loop.induct)
  case (1 n v s)
  obtain b s1 where b: "pb_readbyte s = Ok b s1" using 1(2) by (subst (asm) dec_varint_loop.simps) (auto elim: bind_OkE)
  show ?case using 1(2) 1(1) [OF b] pb_readbyte_less [OF b] b
    by (subst (asm) dec_varint_loop.simps) (fastforce simp: is_error_def Let_def split: if_splits)
qed

lemma varint32_loop_less: "dec_varint32_loop n v s = Ok x s' \<Longrightarrow> unat (is_bytes_left s') < unat (is_bytes_left s)"
proof (induction n v s rule: dec_varint32_loop.induct)
  case (1 n v s)
  obtain b s1 where b: "pb_readbyte s = Ok b s1" using 1(2) by (subst (asm) dec_varint32_loop.simps) (auto elim: bind_OkE)
  let ?m = "if n \<ge> 32
          then (let sign_extension = (if n < 63 then 0xFF else 0x01);
                    valid_extension = (b AND 0x7F = 0 \<or> drop_bit 31 v \<noteq> 0 \<and> b = sign_extension)
            in if n \<ge> 64 \<or> \<not> valid_extension then is_error ''varint overflow'' s1 else Ok v s1)
          else if n = 28
          then if b AND 0x70 \<noteq> 0 \<and> b AND 0x78 \<noteq> 0x78 then is_error ''varint overflow'' s1
            else Ok (v OR push_bit (unat n) (ucast (b AND 0x0F))) s1
          else if n \<ge> 32 then Undef
          else Ok (v OR push_bit (unat n) (ucast (b AND 0x7F))) s1"
  have "pb_bind ?m (\<lambda>result s. if b AND 0x80 \<noteq> 0 then dec_varint32_loop (n + 7) result s else Ok result s) = Ok x s'"
    using 1(2) b by (subst (asm) dec_varint32_loop.simps) simp
  then obtain y s2 where y: "?m = Ok y s2" "(if b AND 0x80 \<noteq> 0 then dec_varint32_loop (n + 7) y s2 else Ok y s2) = Ok x s'"
    by (rule bind_OkE)
  have "s2 = s1" using y(1) by (auto simp: is_error_def Let_def split: if_splits)
  then show ?case using y(2) 1(1) [OF b y(1)] pb_readbyte_less [OF b] by (auto split: if_splits)
qed

lemma decode_varint_less: "pb_decode_varint s = Ok x s' \<Longrightarrow> unat (is_bytes_left s') < unat (is_bytes_left s)"
  by (simp add: pb_decode_varint_def varint_loop_less)

lemma decode_varint32_less: "pb_decode_varint32 s = Ok x s' \<Longrightarrow> unat (is_bytes_left s') < unat (is_bytes_left s)"
  unfolding pb_decode_varint32_is by (erule bind_OkE) (auto dest!: pb_readbyte_less varint32_loop_less split: if_splits)

lemma decode_tag_less: "fst (pb_decode_tag s) = Ok x s' \<Longrightarrow> unat (is_bytes_left s') < unat (is_bytes_left s)"
  by (cases "fst (pb_decode_varint32_eof s)")
    (auto simp: pb_decode_tag_def case_prod_beta dest: decode_varint32_less [unfolded pb_decode_varint32_def])

section \<open>Packed arrays\<close>

lemma on_stream_Ok:
  assumes "on_stream f ds = Ok x ds'"
  obtains s where "f (dc_in ds) = Ok x s" "ds' = ds\<lparr>dc_in := s\<rparr>"
  using assms by (cases "f (dc_in ds)") (auto simp: on_stream_def)

lemma store_Ok: "store p bs ds = Ok x ds' \<Longrightarrow> dc_in ds' = dc_in ds \<and> dc_fixed ds' = dc_fixed ds"
  by (auto simp: store_def split: option.splits)

lemma error_not_Ok [simp]: "dc_error msg ds \<noteq> Ok x ds'" "is_error msg s \<noteq> Ok y s'"
  by (simp_all add: dc_error_def on_stream_def is_error_def)

text \<open>What a call did to the state but for the memory: it read something, and left the counter alone.\<close>

definition took :: "pb_dec \<Rightarrow> pb_dec \<Rightarrow> bool" where
  "took ds ds' \<longleftrightarrow> unat (is_bytes_left (dc_in ds')) < unat (is_bytes_left (dc_in ds)) \<and> dc_fixed ds' = dc_fixed ds"

lemma took_read_store:
  assumes "pb_bind (on_stream f ds) g = Ok x ds'" "\<And>v s. f (dc_in ds) = Ok v s \<Longrightarrow> unat (is_bytes_left s) < unat (is_bytes_left (dc_in ds))"
    "\<And>v ds1. g v ds1 = Ok x ds' \<Longrightarrow> dc_in ds' = dc_in ds1 \<and> dc_fixed ds' = dc_fixed ds1"
  shows "took ds ds'"
proof -
  obtain v ds1 where v: "on_stream f ds = Ok v ds1" "g v ds1 = Ok x ds'" using assms(1) by (rule bind_OkE)
  obtain s where "f (dc_in ds) = Ok v s" "ds1 = ds\<lparr>dc_in := s\<rparr>" using v(1) by (rule on_stream_Ok)
  then show ?thesis using assms(2,3) v(2) by (fastforce simp: took_def)
qed

lemma decode_bool_less: "pb_decode_bool s = Ok x s' \<Longrightarrow> unat (is_bytes_left s') < unat (is_bytes_left s)"
  unfolding pb_decode_bool_def by (erule bind_OkE) (auto dest!: decode_varint32_less)

lemma decode_svarint_less: "pb_decode_svarint s = Ok x s' \<Longrightarrow> unat (is_bytes_left s') < unat (is_bytes_left s)"
  unfolding pb_decode_svarint_def by (erule bind_OkE) (auto dest!: decode_varint_less split: if_splits)

lemma decode_fixed_less:
  "pb_decode_fixed32 s = Ok x s' \<Longrightarrow> unat (is_bytes_left s') < unat (is_bytes_left s)"
  "pb_decode_fixed64 s = Ok y s' \<Longrightarrow> unat (is_bytes_left s') < unat (is_bytes_left s)"
  unfolding pb_decode_fixed32_def pb_decode_fixed64_def by (erule bind_OkE, auto dest!: pb_read_less)+

lemma took_dec_varint:
  assumes "pb_dec_varint it ds = Ok x ds'" shows "took ds ds'"
proof -
  have put: "dc_in ds2 = dc_in ds1 \<and> dc_fixed ds2 = dc_fixed ds1" if "(if b then pb_bind (store p bs ds1)
      (\<lambda>_ ds. if c then dc_error m1 ds else Ok () ds) else dc_error m2 ds1) = Ok x ds2" for b p bs ds1 c m1 m2 ds2
    using that by (auto elim!: bind_OkE dest!: store_Ok split: if_splits)
  show ?thesis
  proof (cases "PB_LTYPE (it_type it) = PB_LTYPE_UVARINT")
    case True
    show ?thesis using assms unfolding pb_dec_varint_def Let_def if_P [OF True]
      by (rule took_read_store) (erule decode_varint_less, erule put)
  next
    case False
    obtain v ds1 where v: "(if PB_LTYPE (it_type it) = PB_LTYPE_SVARINT then on_stream pb_decode_svarint ds
        else pb_bind (on_stream pb_decode_varint ds) (\<lambda>value ds.
          Ok (if it_data_size it = 8 then value else scast (ucast value :: u32)) ds)) = Ok v ds1"
      and p: "dc_in ds' = dc_in ds1 \<and> dc_fixed ds' = dc_fixed ds1"
      using assms unfolding pb_dec_varint_def Let_def if_not_P [OF False] by (elim bind_OkE) (blast dest: put)
    have "took ds ds1"
    proof (cases "PB_LTYPE (it_type it) = PB_LTYPE_SVARINT")
      case True
      then have "on_stream pb_decode_svarint ds = Ok v ds1" using v by simp
      then obtain s where "pb_decode_svarint (dc_in ds) = Ok v s" "ds1 = ds\<lparr>dc_in := s\<rparr>" by (rule on_stream_Ok)
      then show ?thesis using decode_svarint_less by (fastforce simp: took_def)
    next
      case False
      then have "pb_bind (on_stream pb_decode_varint ds) (\<lambda>value ds.
          Ok (if it_data_size it = 8 then value else scast (ucast value :: u32)) ds) = Ok v ds1" using v by simp
      then show ?thesis by (rule took_read_store) (erule decode_varint_less, simp)
    qed
    then show ?thesis using p by (simp add: took_def)
  qed
qed

lemma took_packed:
  assumes t: "PB_LTYPE (it_type it) \<le> PB_LTYPE_LAST_PACKABLE" and r: "decode_basic_field app dec PB_WT_PACKED it ds = Ok x ds'"
  shows "took ds ds'"
proof -
  have b: "took ds ds'" if "pb_dec_bool it ds = Ok x ds'"
    using that unfolding pb_dec_bool_def by (rule took_read_store) (erule decode_bool_less, erule store_Ok)
  have f: "took ds ds'" if "pb_dec_fixed32 it ds = Ok x ds'"
    using that unfolding pb_dec_fixed32_def by (rule took_read_store) (erule decode_fixed_less, erule store_Ok)
  have g: "took ds ds'" if "pb_dec_fixed64 it ds = Ok x ds'"
    using that unfolding pb_dec_fixed64_def by (rule took_read_store) (erule decode_fixed_less, erule store_Ok)
  have "PB_LTYPE (it_type it) \<in> {0, 1, 2, 3, 4, 5}" using t u8_le_5 by (simp add: ltype_defs)
  then show ?thesis using r b f g took_dec_varint
    by (auto simp: decode_basic_field_def Let_def ltype_defs wire_types)
qed


text \<open>The counter and the room of an array: \<open>p\<close> is where entry \<open>n\<close> goes, \<open>e\<close> the end of the array.\<close>

definition counter_apart :: "nat \<Rightarrow> nat \<Rightarrow> nat \<Rightarrow> nat \<Rightarrow> pb_field_iter \<Rightarrow> bool" where
  "counter_apart lo hi b e it \<longleftrightarrow> (case it_pSize it of
     SizeAt q \<Rightarrow> lo \<le> q \<and> q + 2 \<le> hi \<and> (q + 2 \<le> b \<or> e \<le> q) | SizeFixed \<Rightarrow> True | _ \<Rightarrow> False)"

lemma size_at_defined: "counter_apart lo hi b e it \<Longrightarrow> dok hi ds \<Longrightarrow> \<exists>sz. size_at it ds = Some sz"
  by (auto simp: counter_apart_def size_at_def dok_def load_num_def mem_read_def split: pb_psize.splits)

lemma frame_read:
  assumes "frame lo hi mem mem'" "p + n \<le> lo \<or> hi \<le> p"
  shows "mem_read p n mem' = mem_read p n mem"
proof (cases "p + n \<le> length mem")
  case True
  have "mem_get p n mem' = mem_get p n mem"
    using assms True by (intro nth_equalityI) (auto simp: frame_def nth_mem_get)
  then show ?thesis using assms(1) by (simp add: mem_read_def frame_def)
next
  case False
  then show ?thesis using assms(1) by (simp add: mem_read_def frame_def)
qed

lemma size_at_frame:
  assumes "counter_apart lo hi b e it" "frame lo' hi' (dc_mem ds) (dc_mem ds')" "b \<le> lo'" "hi' \<le> e" "dc_fixed ds' = dc_fixed ds"
  shows "size_at it ds' = size_at it ds"
proof (cases "it_pSize it")
  case (SizeAt q)
  then have "mem_read q 2 (dc_mem ds') = mem_read q 2 (dc_mem ds)"
    using assms by (intro frame_read [OF assms(2)]) (auto simp: counter_apart_def)
  then show ?thesis using SizeAt by (simp add: size_at_def load_num_def)
qed (use assms in \<open>simp_all add: size_at_def counter_apart_def\<close>)

lemma load_stored:
  "mem_write q (le_bytes 2 n) mem = Some mem' \<Longrightarrow> load_num q 2 mem' = Some (n mod 65536)"
  by (auto simp: load_num_def mem_write_def mem_read_def length_mem_put mem_get_put_same le_val_bytes split: if_splits)

lemma put_size_ok:
  assumes "counter_apart lo hi b e it" "dok hi ds"
  obtains ds' where "put_size it n ds = Ok () ds'" "dc_in ds' = dc_in ds" "frame lo hi (dc_mem ds) (dc_mem ds')" "size_at it ds' = Some n"
proof (cases "it_pSize it")
  case (SizeAt q)
  have h: "lo \<le> q" "q + length (le_bytes 2 (unat n)) \<le> hi" "hi \<le> length (dc_mem ds)"
    using assms SizeAt by (simp_all add: counter_apart_def dok_def)
  obtain mem' where m: "mem_write q (le_bytes 2 (unat n)) (dc_mem ds) = Some mem'" "frame lo hi (dc_mem ds) mem'"
    using mem_write_frame [OF h] .
  have "unat n mod 65536 = unat n" using unat_lt_size [of n] by simp
  then have "load_num q 2 mem' = Some (unat n)" using load_stored [OF m(1)] by simp
  then show thesis using that [of "ds\<lparr>dc_mem := mem'\<rparr>"] m SizeAt by (simp add: put_size_def store_def size_at_def)
next
  case SizeFixed
  then show thesis using that [of "ds\<lparr>dc_fixed := n\<rparr>"] by (simp add: put_size_def size_at_def)
qed (use assms in \<open>simp_all add: counter_apart_def\<close>)

lemma dsafe_get_size: "size_at it ds = Some sz \<Longrightarrow> get_size it ds = Ok sz ds"
  by (simp add: get_size_def)

lemma unat_Suc_less: "x < (y :: u16) \<Longrightarrow> unat (x + 1) = unat x + 1"
proof -
  assume "x < y"
  then have "x \<noteq> - 1" using word_n1_ge [of y] by auto
  then show ?thesis using unat_plus_1 [of x] by (simp add: eq_neg_iff_add_eq_0)
qed

lemma entry_pData [simp]: "entry_ok rec hi (it\<lparr>it_pData := p\<rparr>) = entry_ok rec hi it"
  by (simp add: entry_ok_def)

lemma counter_pData [simp]: "counter_apart lo hi b e (it\<lparr>it_pData := p\<rparr>) = counter_apart lo hi b e it"
  by (simp add: counter_apart_def)

lemma size_at_pData [simp]: "size_at (it\<lparr>it_pData := p\<rparr>) ds = size_at it ds"
  by (cases "it_pSize it") (simp_all add: size_at_def)

lemma dsafe_packed_loop:
  assumes app: "app_ok app" and dec: "dec_safe rec lo hi dec"
  shows "PB_LTYPE (it_type it) \<le> PB_LTYPE_LAST_PACKABLE \<Longrightarrow> entry_ok rec hi it \<Longrightarrow> counter_apart lo hi b e it \<Longrightarrow>
    lo \<le> b \<Longrightarrow> e \<le> hi \<Longrightarrow> b \<le> it_pData it \<Longrightarrow> size_at it ds = Some sz \<Longrightarrow>
    it_pData it + unat (it_data_size it) * (unat (it_array_size it) - unat sz) \<le> e \<Longrightarrow> dok hi ds \<Longrightarrow>
    dsafe lo hi ds (packed_loop app dec it ds)"
proof (induction "unat (is_bytes_left (dc_in ds))" arbitrary: it ds sz rule: less_induct)
  case less
  note prems = less.prems
  let ?it = "it\<lparr>it_pData := it_pData it + unat (it_data_size it)\<rparr>"
  show ?case
  proof (cases "is_bytes_left (dc_in ds) = 0 \<or> \<not> sz < it_array_size it")
    case True
    then show ?thesis using prems(7) by (subst packed_loop.simps) (auto simp: dsafe_get_size)
  next
    case False
    then have lt: "sz < it_array_size it" and left: "is_bytes_left (dc_in ds) \<noteq> 0" by simp_all
    have sz1: "unat (sz + 1) = unat sz + 1" using unat_Suc_less [OF lt] .
    obtain r where r: "unat (it_array_size it) - unat sz = Suc r" using lt
      by (metis Suc_diff_Suc word_less_nat_alt)
    have room: "field_end it + unat (it_data_size it) * r \<le> e" using prems(8) unfolding r by simp
    then have bok: "basic_ok rec lo hi it" using prems(2,4,5,6) by (simp add: basic_ok_def)
    have d: "dsafe (it_pData it) (field_end it) ds (decode_basic_field app dec PB_WT_PACKED it ds)"
      using dsafe_basic_field [OF app dec bok prems(9)] .
    have d': "dsafe lo hi ds (decode_basic_field app dec PB_WT_PACKED it ds)"
      using dsafe_mono [OF d] bok by (simp add: basic_ok_def)
    have "dsafe lo hi ds1 (pb_bind (get_size it ds1) (\<lambda>sz ds1. pb_bind (put_size it (sz + 1) ds1) (\<lambda>_ ds1.
          if unat (is_bytes_left (dc_in ds1)) < unat (is_bytes_left (dc_in ds)) then packed_loop app dec ?it ds1 else Undef)))"
      if x: "decode_basic_field app dec PB_WT_PACKED it ds = Ok x ds1" for x ds1
    proof -
      have fr: "frame (it_pData it) (field_end it) (dc_mem ds) (dc_mem ds1)" "adv (dc_in ds) (dc_in ds1)" using d x by simp_all
      have t: "took ds ds1" using took_packed [OF prems(1) x] .
      have ok1: "dok hi ds1" using frame_dok [OF fr prems(9)] .
      have s1: "size_at it ds1 = Some sz"
        using size_at_frame [OF prems(3) fr(1)] prems(6,7) room t by (simp add: took_def)
      obtain ds2 where ds2: "put_size it (sz + 1) ds1 = Ok () ds2" "dc_in ds2 = dc_in ds1" "frame lo hi (dc_mem ds1) (dc_mem ds2)"
        "size_at it ds2 = Some (sz + 1)" using put_size_ok [OF prems(3) ok1] .
      have less': "unat (is_bytes_left (dc_in ds2)) < unat (is_bytes_left (dc_in ds))" using t ds2(2) by (simp add: took_def)
      have ok2: "dok hi ds2" using frame_dok [OF ds2(3) _ ok1] ds2(2) by simp
      have r': "unat (it_array_size it) - unat (sz + 1) = r" using r sz1 by simp
      have "dsafe lo hi ds2 (packed_loop app dec ?it ds2)"
        by (rule less.hyps [OF less', where sz = "sz + 1"]) (use prems ds2(4) ok2 room r' in simp_all)
      then have "dsafe lo hi ds1 (packed_loop app dec ?it ds2)" using ds2(2,3) by (intro dsafe_trans [of ds1 ds2]) simp_all
      then show ?thesis using s1 ds2(1) less' by (simp add: dsafe_get_size)
    qed
    from dsafe_bind [OF d' this] show ?thesis using left lt prems(7)
      by (subst packed_loop.simps) (simp add: dsafe_get_size)
  qed
qed


section \<open>Fields\<close>

definition array_end :: "pb_field_iter \<Rightarrow> nat" where
  "array_end it = it_pField it + unat (it_data_size it) * (if PB_HTYPE (it_type it) = PB_HTYPE_REPEATED then unat (it_array_size it) else 1)"

text \<open>What decoding a field requires of it: room in the structure for the data and for the flag or counter, apart from each
  other.\<close>

definition has_counter :: "nat \<Rightarrow> nat \<Rightarrow> pb_field_iter \<Rightarrow> bool" where
  "has_counter lo hi it \<longleftrightarrow> (case it_pSize it of SizeAt q \<Rightarrow> lo \<le> q \<and> q + 2 \<le> hi | SizeNULL \<Rightarrow> False | _ \<Rightarrow> PB_HTYPE (it_type it) = PB_HTYPE_REPEATED)"

definition static_ok :: "(pb_msgdesc \<Rightarrow> nat \<Rightarrow> bool) \<Rightarrow> nat \<Rightarrow> nat \<Rightarrow> pb_field_iter \<Rightarrow> bool" where
  "static_ok rec lo hi it \<longleftrightarrow> it_pData it = it_pField it \<and> lo \<le> it_pField it \<and> array_end it \<le> hi \<and> entry_ok rec hi it
     \<and> (PB_HTYPE (it_type it) = PB_HTYPE_REPEATED \<and> (\<exists>q. it_pSize it = SizeAt q) \<longrightarrow>
         counter_apart lo hi (it_pField it) (array_end it) it)"

definition field_ok :: "(pb_msgdesc \<Rightarrow> nat \<Rightarrow> bool) \<Rightarrow> nat \<Rightarrow> nat \<Rightarrow> pb_field_iter \<Rightarrow> bool" where
  "field_ok rec lo hi it \<longleftrightarrow> PB_LTYPE (it_type it) \<noteq> PB_LTYPE_EXTENSION
     \<and> (it_pSize it = SizeArray \<longrightarrow> PB_HTYPE (it_type it) = PB_HTYPE_REPEATED)
     \<and> (PB_HTYPE (it_type it) = PB_HTYPE_OPTIONAL \<longrightarrow> it_pSize it = SizeNULL \<or> (\<exists>q. it_pSize it = SizeAt q \<and> lo \<le> q \<and> q + 1 \<le> hi))
     \<and> (PB_HTYPE (it_type it) = PB_HTYPE_REPEATED \<or> PB_HTYPE (it_type it) = PB_HTYPE_ONEOF \<longrightarrow>
         PB_ATYPE (it_type it) = PB_ATYPE_STATIC \<or> PB_ATYPE (it_type it) = PB_ATYPE_POINTER \<longrightarrow> has_counter lo hi it)
     \<and> (PB_ATYPE (it_type it) = PB_ATYPE_STATIC \<longrightarrow> static_ok rec lo hi it)
     \<and> (PB_ATYPE (it_type it) = PB_ATYPE_POINTER \<longrightarrow> lo \<le> it_pField it \<and> it_pField it + 8 \<le> hi)
     \<and> (PB_ATYPE (it_type it) = PB_ATYPE_CALLBACK \<longrightarrow> lo \<le> it_pData it \<and> field_end it \<le> hi
         \<and> field_callback (it_descriptor it) \<noteq> DefaultCallback)"

lemma static_basic:
  assumes "static_ok rec lo hi it" "PB_HTYPE (it_type it) \<noteq> PB_HTYPE_REPEATED"
  shows "basic_ok rec lo hi it"
  using assms by (simp add: static_ok_def basic_ok_def array_end_def)

lemma dsafe_static_basic:
  assumes "app_ok app" "dec_safe rec lo hi dec" "basic_ok rec lo hi it" "dok hi ds"
  shows "dsafe lo hi ds (decode_basic_field app dec wt it ds)"
  by (rule dsafe_mono [OF dsafe_basic_field [OF assms]]) (use assms(3) in \<open>simp_all add: basic_ok_def\<close>)

lemma dsafe_put_size:
  assumes "counter_apart lo hi b e it" "dok hi ds" shows "dsafe lo hi ds (put_size it n ds)"
proof -
  obtain ds' where "put_size it n ds = Ok () ds'" "dc_in ds' = dc_in ds" "frame lo hi (dc_mem ds) (dc_mem ds')" "size_at it ds' = Some n"
    using put_size_ok [OF assms] .
  then show ?thesis by simp
qed

lemma ends_array: "ends_substream (\<lambda>status sub ds. if is_bytes_left sub \<noteq> 0 then dc_error ''array overflow'' ds else close_with status sub ds)"
  unfolding ends_substream_def
proof (intro allI)
  fix b sub ds
  let ?r = "if is_bytes_left sub \<noteq> 0 then dc_error ''array overflow'' ds else close_with b sub ds"
  have "?r = dc_error ''array overflow'' ds \<or> ?r = close_with b sub ds" by simp
  then show "?r = close_with b sub ds \<or> (\<exists>msg. ?r = dc_error msg ds)" by blast
qed

lemma dsafe_repeated:
  assumes app: "app_ok app" and dec: "dec_safe rec lo hi dec" and it: "static_ok rec lo hi it" "has_counter lo hi it"
    "PB_HTYPE (it_type it) = PB_HTYPE_REPEATED" "it_pSize it \<noteq> SizeArray" and ok: "dok hi ds"
  shows "dsafe lo hi ds (pb_bind (get_size it ds) (\<lambda>sz ds.
         let field = it\<lparr>it_pData := it_pField it + unat (it_data_size it) * unat sz\<rparr> in
         if wt = PB_WT_STRING \<and> PB_LTYPE (it_type field) \<le> PB_LTYPE_LAST_PACKABLE
         then in_substream (packed_loop app dec field)
           (\<lambda>status sub ds. if is_bytes_left sub \<noteq> 0 then dc_error ''array overflow'' ds else close_with status sub ds) ds
         else pb_bind (put_size field (sz + 1) ds) (\<lambda>_ ds.
           if sz \<ge> it_array_size field then dc_error ''array overflow'' ds
           else decode_basic_field app dec wt field ds)))"
proof -
  have c: "counter_apart lo hi (it_pField it) (array_end it) it"
    using it by (cases "it_pSize it") (auto simp: static_ok_def has_counter_def counter_apart_def)
  obtain sz where sz: "size_at it ds = Some sz" using size_at_defined [OF c ok] by blast
  let ?it = "it\<lparr>it_pData := it_pField it + unat (it_data_size it) * unat sz\<rparr>"
  have fit: "it_pField it + unat (it_data_size it) * unat sz + unat (it_data_size it) \<le> array_end it" if "sz < it_array_size it"
  proof -
    have "unat sz + 1 \<le> unat (it_array_size it)" using that by (simp add: word_less_nat_alt)
    then have "unat (it_data_size it) * (unat sz + 1) \<le> unat (it_data_size it) * unat (it_array_size it)" by (rule mult_le_mono2)
    then show ?thesis using it(3) by (simp add: array_end_def)
  qed
  have e: "entry_ok rec hi ?it" "lo \<le> it_pField it" "array_end it \<le> hi" using it(1) by (simp_all add: static_ok_def)
  have packed: "dsafe lo hi ds' (packed_loop app dec ?it ds')"
    if t: "PB_LTYPE (it_type it) \<le> PB_LTYPE_LAST_PACKABLE" and o: "dok hi ds'" and s: "size_at it ds' = Some sz" for ds'
  proof (cases "sz < it_array_size it")
    case True
    have "it_pData ?it + unat (it_data_size it) * (unat (it_array_size it) - unat sz) \<le> array_end it"
      using True it(3) by (simp add: array_end_def word_less_nat_alt flip: distrib_left)
    then show ?thesis using t e o s c by (intro dsafe_packed_loop [OF app dec, where b = "it_pField it" and e = "array_end it"]) simp_all
  next
    case False
    then show ?thesis using s by (subst packed_loop.simps) (simp add: dsafe_get_size)
  qed
  have ss: "size_at it (ds\<lparr>dc_in := sub\<rparr>) = Some sz" for sub using sz by (cases "it_pSize it") (simp_all add: size_at_def)
  have one: "dsafe lo hi ds (pb_bind (put_size ?it (sz + 1) ds) (\<lambda>_ ds.
      if sz \<ge> it_array_size ?it then dc_error ''array overflow'' ds else decode_basic_field app dec wt ?it ds))"
  proof (rule dsafe_seq [where n = hi])
    show "dsafe lo hi ds (put_size ?it (sz + 1) ds)" using c ok by (intro dsafe_put_size) simp_all
    fix ds' assume o: "dok hi ds'"
    have "dsafe lo hi ds' (decode_basic_field app dec wt ?it ds')" if "\<not> sz \<ge> it_array_size it"
      using le_trans [OF fit e(3)] that e(1,2) o by (intro dsafe_static_basic [OF app dec]) (simp_all add: basic_ok_def not_le)
    then show "dsafe lo hi ds' (if sz \<ge> it_array_size ?it then dc_error ''array overflow'' ds' else decode_basic_field app dec wt ?it ds')"
      by simp
  qed (rule ok)
  have "dsafe lo hi ds (in_substream (packed_loop app dec ?it)
      (\<lambda>status sub ds. if is_bytes_left sub \<noteq> 0 then dc_error ''array overflow'' ds else close_with status sub ds) ds)"
    if t: "PB_LTYPE (it_type it) \<le> PB_LTYPE_LAST_PACKABLE"
    using packed [OF t _ ss] by (intro dsafe_in_substream [OF ok ends_array])
  with one show ?thesis unfolding dsafe_get_size [OF sz] pb_bind_simps Let_def by (intro dsafe_if) simp_all
qed


lemma dsafe_prepare_oneof:
  assumes init: "init_safe rec lo hi init" and it: "static_ok rec lo hi it" "counter_apart lo hi hi hi it"
    "PB_HTYPE (it_type it) = PB_HTYPE_ONEOF" "PB_LTYPE_IS_SUBMSG (it_type it)" and ok: "dok hi ds"
  shows "dsafe lo hi ds (prepare_oneof init it ds)"
proof -
  have "PB_HTYPE (it_type it) \<noteq> PB_HTYPE_REPEATED" using it(3) by (simp add: htype_defs)
  then have b: "lo \<le> it_pData it" "field_end it \<le> hi" "entry_ok rec hi it"
    using static_basic [OF it(1)] by (simp_all add: basic_ok_def)
  obtain d where d: "it_submsg_desc it = Some d" "rec d (unat (it_data_size it))" using b(3) it(4) by (auto simp: entry_ok_def)
  obtain which where w: "size_at it ds = Some which" using size_at_defined [OF it(2) ok] by blast
  have st: "dsafe lo hi ds (store (it_pData it) (replicate (unat (it_data_size it)) 0) ds)"
    using b ok by (intro dsafe_store) simp_all
  have "dsafe lo hi ds' (pb_bind (need (Some d) ds') (\<lambda>d ds.
         if needs_defaults d
         then pb_bind (need (init d (it_pData it) (dc_mem ds)) ds) (\<lambda>(status, mem) ds.
           let ds = ds\<lparr>dc_mem := mem\<rparr> in if status then Ok () ds else dc_error ''failed to set defaults'' ds)
         else Ok () ds))" if o: "dok hi ds'" for ds'
  proof -
    obtain status mem' where m: "init d (it_pData it) (dc_mem ds') = Some (status, mem')"
      "frame (it_pData it) (field_end it) (dc_mem ds') mem'"
      using init d(2) b(1,2) o unfolding init_safe_def dok_def by blast
    have fr: "frame lo hi (dc_mem ds') mem'" using frame_mono [OF m(2)] b by blast
    have "dsafe lo hi ds' (dc_error msg (ds'\<lparr>dc_mem := mem'\<rparr>) :: (unit, pb_dec) outcome)" for msg
      using fr by (auto simp: dc_error_def on_stream_def is_error_def within_def)
    then show ?thesis using m(1) fr by (simp add: Let_def)
  qed
  then have "dsafe lo hi ds (pb_bind (store (it_pData it) (replicate (unat (it_data_size it)) 0) ds) (\<lambda>_ ds.
       pb_bind (need (it_submsg_desc it) ds) (\<lambda>d ds.
         if needs_defaults d
         then pb_bind (need (init d (it_pData it) (dc_mem ds)) ds) (\<lambda>(status, mem) ds.
           let ds = ds\<lparr>dc_mem := mem\<rparr> in if status then Ok () ds else dc_error ''failed to set defaults'' ds)
         else Ok () ds)))" unfolding d(1) by (intro dsafe_seq [OF st ok])
  then show ?thesis unfolding prepare_oneof_def dsafe_get_size [OF w] pb_bind_simps by (intro dsafe_if) simp_all
qed

lemma dsafe_static_field:
  assumes app: "app_ok app" and dec: "dec_safe rec lo hi dec" and init: "init_safe rec lo hi init"
    and it: "field_ok rec lo hi it" "PB_ATYPE (it_type it) = PB_ATYPE_STATIC" "it_pSize it \<noteq> SizeArray" and ok: "dok hi ds"
  shows "dsafe lo hi ds (decode_static_field app dec init wt it ds)"
proof -
  have st: "static_ok rec lo hi it" using it(1,2) by (simp add: field_ok_def)
  have basic: "dsafe lo hi ds' (decode_basic_field app dec wt it ds')"
    if "PB_HTYPE (it_type it) \<noteq> PB_HTYPE_REPEATED" "dok hi ds'" for ds'
    using dsafe_static_basic [OF app dec static_basic [OF st that(1)] that(2)] .
  consider (req) "PB_HTYPE (it_type it) = PB_HTYPE_REQUIRED" | (opt) "PB_HTYPE (it_type it) = PB_HTYPE_OPTIONAL"
    | (rep) "PB_HTYPE (it_type it) = PB_HTYPE_REPEATED" | (one) "PB_HTYPE (it_type it) = PB_HTYPE_ONEOF"
    | (other) "PB_HTYPE (it_type it) \<notin> {PB_HTYPE_REQUIRED, PB_HTYPE_OPTIONAL, PB_HTYPE_REPEATED, PB_HTYPE_ONEOF}" by blast
  then show ?thesis
  proof cases
    case req
    then have "decode_static_field app dec init wt it ds = decode_basic_field app dec wt it ds" by (simp add: decode_static_field_def)
    then show ?thesis using basic ok req by (simp add: htype_defs)
  next
    case opt
    let ?m = "if it_pSize it \<noteq> SizeNULL then pb_bind (need (size_address it) ds) (\<lambda>a ds. store a [1] ds) else Ok () ds"
    have "it_pSize it = SizeNULL \<or> (\<exists>q. it_pSize it = SizeAt q \<and> lo \<le> q \<and> q + 1 \<le> hi)" using it(1) opt by (simp add: field_ok_def)
    then have m: "dsafe lo hi ds ?m" using ok by (auto simp: size_address_def intro!: dsafe_store)
    have nr: "PB_HTYPE (it_type it) \<noteq> PB_HTYPE_REPEATED" using opt by (simp add: htype_defs)
    have "decode_static_field app dec init wt it ds = pb_bind ?m (\<lambda>_ ds. decode_basic_field app dec wt it ds)"
      using opt by (simp add: decode_static_field_def htype_defs)
    then show ?thesis using dsafe_seq [OF m ok basic [OF nr]] by (rule ssubst)
  next
    case rep
    have "has_counter lo hi it" using it(1,2) rep by (simp add: field_ok_def)
    from dsafe_repeated [OF app dec st this rep it(3) ok] show ?thesis
      using rep by (simp add: decode_static_field_def htype_defs)
  next
    case one
    have "has_counter lo hi it" using it(1,2) one by (simp add: field_ok_def)
    then have c: "counter_apart lo hi hi hi it"
      using one by (auto simp: has_counter_def counter_apart_def htype_defs split: pb_psize.splits)
    let ?m = "if PB_LTYPE_IS_SUBMSG (it_type it) then prepare_oneof init it ds else Ok () ds"
    have m: "dsafe lo hi ds ?m" using dsafe_prepare_oneof [OF init st c one _ ok] by simp
    have "decode_static_field app dec init wt it ds = pb_bind ?m (\<lambda>_ ds. pb_bind (put_size it (it_tag it) ds) (\<lambda>_ ds.
        decode_basic_field app dec wt it ds))"
      using one by (simp add: decode_static_field_def htype_defs)
    moreover have "dsafe lo hi ds' (pb_bind (put_size it (it_tag it) ds') (\<lambda>_ ds. decode_basic_field app dec wt it ds))"
      if o: "dok hi ds'" for ds'
      using basic one by (intro dsafe_seq [OF dsafe_put_size [OF c o] o]) (simp add: htype_defs)
    ultimately show ?thesis using dsafe_seq [OF m ok] by (metis (no_types, lifting))
  next
    case other
    then show ?thesis by (simp add: decode_static_field_def)
  qed
qed

section \<open>Callback fields\<close>

lemma dsafe_field_callback:
  assumes app: "app_ok app" and it: "lo \<le> it_pData it" "field_end it \<le> hi" "field_callback (it_descriptor it) = OtherCallback" and ok: "dok hi ds"
  shows "dsafe lo hi ds (call_field_callback app it ds)"
proof -
  have "dsafe lo hi ds (app_field app it ds)" using app ok it(1,2) by (auto simp: app_ok_def dok_def intro: dsafe_mono)
  then show ?thesis using it(3) by (simp add: call_field_callback_def)
qed

lemma dsafe_callback_loop:
  assumes app: "app_ok app" and it: "lo \<le> it_pData it" "field_end it \<le> hi" "field_callback (it_descriptor it) = OtherCallback"
  shows "dok hi ds \<Longrightarrow> dsafe lo hi ds (callback_loop app it ds)"
proof (induction "unat (is_bytes_left (dc_in ds))" arbitrary: ds rule: less_induct)
  case less
  have "dsafe lo hi ds1 (if is_bytes_left (dc_in ds1) > 0 \<and> is_bytes_left (dc_in ds1) < is_bytes_left (dc_in ds)
      then callback_loop app it ds1 else Ok () ds1)" if "dok hi ds1" for ds1
    using less.hyps [OF _ that] by (simp add: word_less_nat_alt)
  then show ?case
    by (subst callback_loop.simps) (intro dsafe_seq [OF dsafe_field_callback [OF app it less.prems] less.prems])
qed

lemma is_ok_buffer: "is_ok (pb_istream_from_buffer buf (of_nat (length buf)))"
  by (simp add: is_ok_def pb_istream_from_buffer_def unsigned_of_nat take_bit_nat_eq_self_iff take_bit_nat_less_eq_self)

lemma within_refl: "within s s"
  by (simp add: adv_within)

lemma dsafe_callback_field:
  assumes app: "app_ok app" and it: "lo \<le> it_pData it" "field_end it \<le> hi" "field_callback (it_descriptor it) \<noteq> DefaultCallback"
    and ok: "dok hi ds"
  shows "dsafe lo hi ds (decode_callback_field app wt it ds)"
proof (cases "field_callback (it_descriptor it) = NoCallback")
  case True
  then show ?thesis using ok by (auto simp: decode_callback_field_def intro: dsafe_reader safes)
next
  case nc: False
  with it(3) have other: "field_callback (it_descriptor it) = OtherCallback" by (cases "field_callback (it_descriptor it)") simp_all
  show ?thesis
  proof (cases "wt = PB_WT_STRING")
    case True
    let ?k = "\<lambda>status sub ds. if \<not> status then dc_error (case is_errmsg sub of None \<Rightarrow> ''callback failed'' | Some m \<Rightarrow> m) ds
        else close_with True sub ds"
    have k: "ends_substream ?k" unfolding ends_substream_def
    proof (intro allI)
      fix b sub ds show "?k b sub ds = close_with b sub ds \<or> (\<exists>msg. ?k b sub ds = dc_error msg ds)" by (cases b) auto
    qed
    show ?thesis unfolding decode_callback_field_def if_not_P [OF nc] if_P [OF True]
      by (rule dsafe_in_substream [OF ok k dsafe_callback_loop [OF app it(1,2) other]])
  next
    case False
    have r: "dsafe lo hi ds (on_stream (read_raw_value wt 10) ds)" using ok
      by (intro dsafe_reader safe_read_raw) simp_all
    have "dsafe lo hi ds' (case call_field_callback app it (ds'\<lparr>dc_in := pb_istream_from_buffer buf (of_nat (length buf))\<rparr>) of
           Undef \<Rightarrow> Undef | Err ds'' \<Rightarrow> Err (ds''\<lparr>dc_in := dc_in ds'\<rparr>) | Ok _ ds'' \<Rightarrow> Ok () (ds''\<lparr>dc_in := dc_in ds'\<rparr>))"
      if o: "dok hi ds'" for ds' buf
    proof -
      let ?ds = "ds'\<lparr>dc_in := pb_istream_from_buffer buf (of_nat (length buf))\<rparr>"
      have "dok hi ?ds" using o is_ok_buffer by (simp add: dok_def)
      from dsafe_field_callback [OF app it(1,2) other this] show ?thesis
        by (cases "call_field_callback app it ?ds") (simp_all add: within_refl)
    qed
    from dsafe_seq [OF r ok this] show ?thesis unfolding decode_callback_field_def if_not_P [OF nc] if_not_P [OF False] .
  qed
qed

lemma dsafe_field:
  assumes app: "app_ok app" and dec: "dec_safe rec lo hi dec" and init: "init_safe rec lo hi init"
    and it: "field_ok rec lo hi it" "it_pSize it \<noteq> SizeArray" and ok: "dok hi ds"
  shows "dsafe lo hi ds (decode_field app dec init wt it ds)"
proof -
  have c: "dsafe lo hi ds (decode_callback_field app wt it ds)" if "PB_ATYPE (it_type it) = PB_ATYPE_CALLBACK"
    using it(1) that by (intro dsafe_callback_field [OF app _ _ _ ok]) (simp_all add: field_ok_def)
  show ?thesis unfolding decode_field_def decode_pointer_field_def
    using c dsafe_static_field [OF app dec init it(1) _ it(2) ok] by (intro dsafe_if) simp_all
qed

end
