(* ===== verification/PbDecodeMsg.thy ===== *)
theory PbDecodeMsg
  imports PbDecodeTotal
begin

text \<open>
  Whole messages: what a descriptor must say of a structure for its decoder to be safe, initialisation, and the loop over
  the fields of the stream.
\<close>

section \<open>Structures\<close>

text \<open>
  Field \<open>k\<close> of the descriptor fits into a structure of \<open>sz\<close> bytes: its data and its counter or flag are inside, the
  counter of an array is not in the array, the size is what the field's type writes, and the structure of a nested
  message fits into it. Left out are extension ranges and the fields whose decoder is a function pointer that the structure
  holds: those of \<open>pb_default_field_callback\<close>, and submessages with a \<open>pb_callback_t\<close> before their flag or counter.
\<close>

definition fits_in :: "(pb_msgdesc \<Rightarrow> nat \<Rightarrow> bool) \<Rightarrow> pb_msgdesc \<Rightarrow> nat \<Rightarrow> nat \<Rightarrow> bool" where
  "fits_in rec d sz k \<longleftrightarrow> (let w = field_at d k; t = fw_type w; off = int (unat (fw_data_offset w)); n = unat (fw_data_size w);
      so = sint (fw_size_offset w); len = n * (if PB_HTYPE t = PB_HTYPE_REPEATED then unat (fw_array_size w) else 1) in
     PB_LTYPE t \<noteq> PB_LTYPE_EXTENSION
     \<and> (so \<noteq> 0 \<longrightarrow> so \<le> off \<and> off - so + (if PB_HTYPE t = PB_HTYPE_OPTIONAL then 1 else 2) \<le> int sz)
     \<and> (PB_HTYPE t = PB_HTYPE_ONEOF \<longrightarrow> so \<noteq> 0)
     \<and> (PB_ATYPE t = PB_ATYPE_POINTER \<longrightarrow> off + 8 \<le> int sz)
     \<and> (PB_ATYPE t = PB_ATYPE_CALLBACK \<longrightarrow> off + int n \<le> int sz \<and> field_callback d \<noteq> DefaultCallback)
     \<and> (PB_LTYPE_IS_SUBMSG t \<longrightarrow> sub_before d k < length (submsg_info d))
     \<and> (PB_ATYPE t = PB_ATYPE_STATIC \<longrightarrow> off + int len \<le> int sz
         \<and> (PB_HTYPE t = PB_HTYPE_REPEATED \<and> so \<noteq> 0 \<longrightarrow> 2 \<le> so \<or> int len \<le> - so)
         \<and> (PB_LTYPE t = PB_LTYPE_BOOL \<longrightarrow> 1 \<le> n) \<and> (PB_LTYPE t = PB_LTYPE_FIXED32 \<longrightarrow> 4 \<le> n)
         \<and> (PB_LTYPE t = PB_LTYPE_FIXED64 \<longrightarrow> 8 \<le> n)
         \<and> (PB_LTYPE_IS_SUBMSG t \<longrightarrow> rec (submsg_info d ! sub_before d k) n)
         \<and> (PB_LTYPE t = PB_LTYPE_SUBMSG_W_CB \<longrightarrow> so = 0 \<and> PB_HTYPE t \<noteq> PB_HTYPE_REPEATED)))"

function struct_ok :: "pb_msgdesc \<Rightarrow> nat \<Rightarrow> bool" where
  "struct_ok d sz \<longleftrightarrow> desc_ok d \<and> default_value d = None
     \<and> (n_fields d = 0 \<longrightarrow> largest_tag d = 0 \<and> info_word d 0 = Some 0)
     \<and> (\<forall>k<n_fields d. fits_in (\<lambda>d' n. if d' \<in> set (submsg_info d) then struct_ok d' n else False) d sz k)"
  by auto
termination
  by (relation "measure (\<lambda>(d, _). size d)") (auto dest: size_submsg)

declare struct_ok.simps [simp del]

definition submsg_ok :: "pb_msgdesc \<Rightarrow> pb_msgdesc \<Rightarrow> nat \<Rightarrow> bool" where
  "submsg_ok d d' n \<longleftrightarrow> (if d' \<in> set (submsg_info d) then struct_ok d' n else False)"

lemma struct_okD:
  assumes "struct_ok d sz"
  shows "desc_ok d" "default_value d = None" "n_fields d = 0 \<Longrightarrow> largest_tag d = 0 \<and> info_word d 0 = Some 0"
    "k < n_fields d \<Longrightarrow> fits_in (submsg_ok d) d sz k"
  using assms unfolding struct_ok.simps [of d sz] submsg_ok_def [abs_def] by auto

lemma size_ptr_fits:
  assumes "fits_in rec d sz k" "a \<noteq> 0" "w = field_at d k"
  shows "size_ptr w (a + unat (fw_data_offset w)) =
    (if fw_size_offset w \<noteq> 0 then Some (SizeAt (a + nat (int (unat (fw_data_offset w)) - sint (fw_size_offset w))))
     else if PB_HTYPE (fw_type w) = PB_HTYPE_REPEATED \<and> (PB_ATYPE (fw_type w) = PB_ATYPE_STATIC \<or> PB_ATYPE (fw_type w) = PB_ATYPE_POINTER)
       then Some SizeArray else Some SizeNULL)"
proof (cases "fw_size_offset w = 0")
  case True
  then show ?thesis by (simp add: size_ptr_def)
next
  case False
  then have "sint (fw_size_offset w) \<noteq> 0" by (simp add: signed_eq_0_iff)
  then have le: "sint (fw_size_offset w) \<le> int (unat (fw_data_offset w))"
    using assms(1) unfolding fits_in_def Let_def assms(3) by blast
  have "int (a + unat (fw_data_offset w)) - sint (fw_size_offset w) > 0" using le assms(2) by linarith
  moreover have "nat (int (a + unat (fw_data_offset w)) - sint (fw_size_offset w))
      = a + nat (int (unat (fw_data_offset w)) - sint (fw_size_offset w))" using le by linarith
  ultimately show ?thesis using False by (simp add: size_ptr_def)
qed

lemma struct_loadable:
  assumes "struct_ok d sz" "a \<noteq> 0" "a + sz \<le> length mem"
  shows "loadable mem d a"
  unfolding loadable_def
proof (intro allI impI)
  fix k assume k: "k < n_fields d"
  let ?w = "field_at d k"
  have f: "fits_in (submsg_ok d) d sz k" using struct_okD(4) [OF assms(1) k] .
  obtain ps where ps: "size_ptr ?w (a + unat (fw_data_offset ?w)) = Some ps"
    using size_ptr_fits [OF f assms(2) refl] by (auto split: if_splits)
  have "PB_ATYPE (fw_type ?w) = PB_ATYPE_POINTER \<Longrightarrow> int (unat (fw_data_offset ?w)) + 8 \<le> int sz"
    using f unfolding fits_in_def Let_def by blast
  then have "PB_ATYPE (fw_type ?w) = PB_ATYPE_POINTER \<Longrightarrow> a + unat (fw_data_offset ?w) + 8 \<le> length mem"
    using assms(3) by linarith
  then obtain pd where pd: "data_ptr mem ?w (a + unat (fw_data_offset ?w)) = Some pd"
    by (cases "PB_ATYPE (fw_type ?w) = PB_ATYPE_POINTER") (auto simp: data_ptr_def load_ptr_def mem_read_def)
  have "PB_LTYPE_IS_SUBMSG (fw_type ?w) \<Longrightarrow> sub_before d k < length (submsg_info d)"
    using f unfolding fits_in_def Let_def by blast
  then obtain sd where sd: "sub_desc d ?w (sub_before d k) = Some sd"
    by (cases "PB_LTYPE_IS_SUBMSG (fw_type ?w)") (auto simp: sub_desc_def)
  show "load_descriptor_values mem (pos_iter d a k) \<noteq> None"
    unfolding load_pos_iter [OF struct_okD(1) [OF assms(1)] assms(2) k] ps pd sd by simp
qed

lemma struct_field_ok:
  assumes s: "struct_ok d sz" and a: "a \<noteq> 0" "a + sz \<le> hi" "lo \<le> a" "hi \<le> length mem" and k: "k < n_fields d"
  shows "field_ok (submsg_ok d) lo hi (iter_at mem d a k)" "it_pSize (iter_at mem d a k) \<noteq> SizeFixed"
proof -
  let ?w = "field_at d k" and ?it = "iter_at mem d a k"
  have f: "fits_in (submsg_ok d) d sz k" using struct_okD(4) [OF s k] .
  have l: "loadable mem d a" using struct_loadable [OF s a(1)] a(2,4) by simp
  note it = iter_at_fields [OF struct_okD(1) [OF s] l a(1) k]
  define off n so len where defs: "off = unat (fw_data_offset ?w)" "n = unat (fw_data_size ?w)" "so = sint (fw_size_offset ?w)"
    "len = n * (if PB_HTYPE (fw_type ?w) = PB_HTYPE_REPEATED then unat (fw_array_size ?w) else 1)"
  note f' = f [unfolded fits_in_def Let_def, folded defs(1-3), folded defs(4)]
  have sz: "it_pSize ?it = (if so \<noteq> 0 then SizeAt (a + nat (int off - so))
      else if PB_HTYPE (fw_type ?w) = PB_HTYPE_REPEATED \<and> (PB_ATYPE (fw_type ?w) = PB_ATYPE_STATIC \<or> PB_ATYPE (fw_type ?w) = PB_ATYPE_POINTER)
        then SizeArray else SizeNULL)"
    using it(8) size_ptr_fits [OF f a(1) refl] by (simp add: defs signed_eq_0_iff split: if_splits)
  define w where "w = (if PB_HTYPE (fw_type ?w) = PB_HTYPE_OPTIONAL then 1 else 2 :: nat)"
  have room: "so \<noteq> 0 \<Longrightarrow> so \<le> int off \<and> int off - so + int w \<le> int sz"
    using f' unfolding w_def by (simp split: if_splits)
  have q: "lo \<le> a + nat (int off - so)" "a + nat (int off - so) + w \<le> hi" if "so \<noteq> 0"
    using room [OF that] a by linarith+
  show "it_pSize ?it \<noteq> SizeFixed" unfolding sz by simp
  have data: "PB_ATYPE (fw_type ?w) \<noteq> PB_ATYPE_POINTER \<Longrightarrow> it_pData ?it = a + off"
    using it(7) by (simp add: data_ptr_def defs)
  have sub: "PB_LTYPE_IS_SUBMSG (fw_type ?w) \<Longrightarrow> it_submsg_desc ?it = Some (submsg_info d ! sub_before d k)"
    using it(9) f' by (simp add: sub_desc_def)
  have entry: "entry_ok (submsg_ok d) hi ?it" if st: "PB_ATYPE (fw_type ?w) = PB_ATYPE_STATIC"
  proof -
    have "it_pSize ?it = SizeNULL" if "PB_LTYPE (fw_type ?w) = PB_LTYPE_SUBMSG_W_CB"
      using that f' st by (simp add: sz)
    then show ?thesis using f' st sub by (simp add: entry_ok_def it defs)
  qed
  have static: "static_ok (submsg_ok d) lo hi ?it" if st: "PB_ATYPE (fw_type ?w) = PB_ATYPE_STATIC"
  proof -
    have e: "array_end ?it = a + off + len" by (simp add: array_end_def it defs)
    have "counter_apart lo hi (a + off) (a + off + len) ?it" if "so \<noteq> 0" "PB_HTYPE (fw_type ?w) = PB_HTYPE_REPEATED"
    proof -
      have "2 \<le> so \<or> int len \<le> - so" using that f' st by blast
      then have "a + nat (int off - so) + 2 \<le> a + off \<or> a + off + len \<le> a + nat (int off - so)"
        using room [OF that(1)] by linarith
      then show ?thesis using that q by (simp add: counter_apart_def sz htype_defs w_def)
    qed
    moreover have len: "int off + int len \<le> int sz" using f' st by blast
    then have "a + off + len \<le> hi" using a(2) by linarith
    moreover have "it_pField ?it = a + off" using it(6) by (simp add: defs)
    moreover have "it_pData ?it = a + off" using data st by (simp add: atype_defs)
    moreover have "so \<noteq> 0" if "it_pSize ?it = SizeAt q" for q using that by (auto simp: sz split: if_splits)
    ultimately show ?thesis using entry [OF st] a(3) e by (auto simp: static_ok_def it)
  qed
  have counter: "has_counter lo hi ?it" if "PB_HTYPE (fw_type ?w) = PB_HTYPE_REPEATED \<or> PB_HTYPE (fw_type ?w) = PB_HTYPE_ONEOF"
    "PB_ATYPE (fw_type ?w) = PB_ATYPE_STATIC \<or> PB_ATYPE (fw_type ?w) = PB_ATYPE_POINTER"
  proof (cases "so = 0")
    case True
    then show ?thesis using that f' by (auto simp: has_counter_def sz it)
  next
    case False
    then show ?thesis using that q by (auto simp: has_counter_def sz htype_defs w_def)
  qed
  have opt: "it_pSize ?it = SizeNULL \<or> (\<exists>q. it_pSize ?it = SizeAt q \<and> lo \<le> q \<and> q + 1 \<le> hi)"
    if "PB_HTYPE (fw_type ?w) = PB_HTYPE_OPTIONAL"
    using that q by (cases "so = 0") (simp_all add: sz htype_defs w_def)
  have p: "it_pField ?it = a + off" using it(6) by (simp add: defs)
  have ptr: "a + off + 8 \<le> hi" if "PB_ATYPE (fw_type ?w) = PB_ATYPE_POINTER"
  proof -
    have "int off + 8 \<le> int sz" using f' that by blast
    then show ?thesis using a(2) by linarith
  qed
  have cb: "a + off + n \<le> hi" if "PB_ATYPE (fw_type ?w) = PB_ATYPE_CALLBACK"
  proof -
    have "int off + int n \<le> int sz" using f' that by blast
    then show ?thesis using a(2) by linarith
  qed
  have fcb: "field_callback (it_descriptor ?it) \<noteq> DefaultCallback" if "PB_ATYPE (fw_type ?w) = PB_ATYPE_CALLBACK"
    using f' that it(1) by (simp add: at_pos_def)
  have ext: "PB_LTYPE (fw_type ?w) \<noteq> PB_LTYPE_EXTENSION" using f' by blast
  have n: "unat (it_data_size ?it) = n" by (simp add: it defs)
  have cdata: "PB_ATYPE (fw_type ?w) = PB_ATYPE_CALLBACK \<Longrightarrow> it_pData ?it = a + off" using data by (simp add: atype_defs)
  have fixed: "it_pSize ?it = SizeArray \<Longrightarrow> PB_HTYPE (fw_type ?w) = PB_HTYPE_REPEATED" by (simp add: sz split: if_splits)
  show "field_ok (submsg_ok d) lo hi ?it"
    unfolding field_ok_def it(3) p n using fixed static counter opt cdata ptr cb fcb ext a(3) by simp
qed


section \<open>Initialisation\<close>

lemma clear_size_ok:
  assumes "has_counter lo hi it" "it_pSize it \<noteq> SizeFixed" "hi \<le> length mem"
  obtains n mem' where "clear_size it mem = Some (n, mem')" "frame lo hi mem mem'"
proof (cases "it_pSize it")
  case (SizeAt q)
  then have h: "lo \<le> q" "q + length [0, 0 :: u8] \<le> hi" using assms(1) by (simp_all add: has_counter_def)
  obtain mem' where "mem_write q [0, 0] mem = Some mem'" "frame lo hi mem mem'" using mem_write_frame [OF h assms(3)] .
  then show thesis using that SizeAt by (simp add: clear_size_def)
next
  case SizeArray
  then show thesis using that [of 0 mem] by (simp add: clear_size_def)
qed (use assms in \<open>simp_all add: has_counter_def\<close>)

lemma write_zeros:
  assumes "lo \<le> p" "p + n \<le> hi" "hi \<le> length mem"
  obtains mem' where "mem_write p (replicate n 0) mem = Some mem'" "frame lo hi mem mem'"
  using mem_write_frame [of lo p "replicate n 0" hi mem] assms by auto

text \<open>The data of a field that is not an array.\<close>

lemma default_data_ok:
  assumes init: "init_safe rec lo hi init" and b: "basic_ok rec lo hi it" and mem: "hi \<le> length mem"
  obtains status mem' where "(if PB_LTYPE_IS_SUBMSG (it_type it)
         then Option.bind (it_submsg_desc it) (\<lambda>d.
           if needs_defaults d then map_option (\<lambda>(status, mem). (status, n, mem)) (init d (it_pData it) mem)
           else map_option (\<lambda>mem. (True, n, mem)) (mem_write (it_pData it) (replicate (unat (it_data_size it)) 0) mem))
         else map_option (\<lambda>mem. (True, n, mem)) (mem_write (it_pData it) (replicate (unat (it_data_size it)) 0) mem))
      = Some (status, n, mem')" "frame lo hi mem mem'"
proof -
  have r: "lo \<le> it_pData it" "it_pData it + unat (it_data_size it) \<le> hi" using b by (simp_all add: basic_ok_def)
  obtain mem' where z: "mem_write (it_pData it) (replicate (unat (it_data_size it)) 0) mem = Some mem'" "frame lo hi mem mem'"
    using write_zeros [OF r mem] .
  show thesis
  proof (cases "PB_LTYPE_IS_SUBMSG (it_type it)")
    case False
    then show thesis using that [of True mem'] z by simp
  next
    case True
    then obtain d where d: "it_submsg_desc it = Some d" "rec d (unat (it_data_size it))"
      using b by (auto simp: basic_ok_def entry_ok_def)
    show thesis
    proof (cases "needs_defaults d")
      case False
      then show thesis using that [of True mem'] z True d by simp
    next
      case nd: True
      obtain st m' where "init d (it_pData it) mem = Some (st, m')" "frame (it_pData it) (field_end it) mem m'"
        using init d(2) r mem unfolding init_safe_def by blast
      then show thesis using that [of st m'] True nd d(1) frame_mono [of "it_pData it" "field_end it" mem m' lo hi] r by simp
    qed
  qed
qed

lemma field_default_ok:
  assumes init: "init_safe rec lo hi init" and it: "field_ok rec lo hi it" "it_pSize it \<noteq> SizeFixed" and mem: "hi \<le> length mem"
  obtains status n mem' where "pb_field_set_to_default init it mem = Some (status, n, mem')" "frame lo hi mem mem'"
proof -
  have ext: "PB_LTYPE (it_type it) \<noteq> PB_LTYPE_EXTENSION" using it(1) by (simp add: field_ok_def)
  note d = pb_field_set_to_default_def Let_def if_not_P [OF ext]
  consider (static) "PB_ATYPE (it_type it) = PB_ATYPE_STATIC" | (ptr) "PB_ATYPE (it_type it) = PB_ATYPE_POINTER"
    | (other) "PB_ATYPE (it_type it) \<noteq> PB_ATYPE_STATIC" "PB_ATYPE (it_type it) \<noteq> PB_ATYPE_POINTER" by blast
  then show thesis
  proof cases
    case static
    show thesis
    proof (cases "PB_HTYPE (it_type it) = PB_HTYPE_REPEATED \<or> PB_HTYPE (it_type it) = PB_HTYPE_ONEOF")
      case True
      then have c: "has_counter lo hi it" using it(1) static by (simp add: field_ok_def)
      obtain n mem' where "clear_size it mem = Some (n, mem')" "frame lo hi mem mem'" using clear_size_ok [OF c it(2) mem] .
      then show thesis using that True static unfolding d by simp
    next
      case False
      have b: "basic_ok rec lo hi it" using it(1) static False by (intro static_basic) (simp_all add: field_ok_def)
      let ?flag = "PB_HTYPE (it_type it) = PB_HTYPE_OPTIONAL \<and> it_pSize it \<noteq> SizeNULL"
      have "\<exists>m1. (if ?flag then Option.bind (size_address it) (\<lambda>a. mem_write a [0] mem) else Some mem) = Some m1 \<and> frame lo hi mem m1"
      proof (cases ?flag)
        case True
        then obtain q where q: "it_pSize it = SizeAt q" "lo \<le> q" "q + length [0 :: u8] \<le> hi" using it(1) by (auto simp: field_ok_def)
        obtain m1 where "mem_write q [0] mem = Some m1" "frame lo hi mem m1" using mem_write_frame [OF q(2,3) mem] .
        then show ?thesis using True q(1) by (simp add: size_address_def)
      next
        case False
        then show ?thesis by (simp only: if_not_P if_False) simp
      qed
      then obtain m1 where m1: "(if ?flag then Option.bind (size_address it) (\<lambda>a. mem_write a [0] mem) else Some mem) = Some m1"
        "frame lo hi mem m1" by blast
      have "hi \<le> length m1" using mem m1(2) by (simp add: frame_def)
      from default_data_ok [OF init b this, of "it_array_size it"]
      obtain st mem' where m2: "(if PB_LTYPE_IS_SUBMSG (it_type it)
         then Option.bind (it_submsg_desc it) (\<lambda>d.
           if needs_defaults d then map_option (\<lambda>(status, mem). (status, it_array_size it, mem)) (init d (it_pData it) m1)
           else map_option (\<lambda>mem. (True, it_array_size it, mem)) (mem_write (it_pData it) (replicate (unat (it_data_size it)) 0) m1))
         else map_option (\<lambda>mem. (True, it_array_size it, mem)) (mem_write (it_pData it) (replicate (unat (it_data_size it)) 0) m1))
         = Some (st, it_array_size it, mem')" "frame lo hi m1 mem'" .
      have "pb_field_set_to_default init it mem = Some (st, it_array_size it, mem')"
        unfolding d if_P [OF static] if_not_P [OF False] m1(1) Option.bind.simps m2(1) ..
      then show thesis using that frame_trans [OF m1(2) m2(2)] by blast
    qed
  next
    case ptr
    then have ns: "PB_ATYPE (it_type it) \<noteq> PB_ATYPE_STATIC" by (simp add: atype_defs)
    have r: "lo \<le> it_pField it" "it_pField it + 8 \<le> hi" using it(1) ptr by (simp_all add: field_ok_def)
    obtain m1 where m1: "mem_write (it_pField it) (replicate 8 0) mem = Some m1" "frame lo hi mem m1" using write_zeros [OF r mem] .
    show thesis
    proof (cases "PB_HTYPE (it_type it) = PB_HTYPE_REPEATED \<or> PB_HTYPE (it_type it) = PB_HTYPE_ONEOF")
      case True
      then have c: "has_counter lo hi it" using it(1) ptr by (simp add: field_ok_def)
      have "hi \<le> length m1" using mem m1(2) by (simp add: frame_def)
      then obtain n m2 where "clear_size it m1 = Some (n, m2)" "frame lo hi m1 m2" using clear_size_ok [OF c it(2)] by blast
      then show thesis using that frame_trans [OF m1(2)] unfolding d if_not_P [OF ns] if_P [OF ptr] m1(1) Option.bind.simps if_P [OF True]
        by simp
    next
      case False
      then show thesis using that m1 unfolding d if_not_P [OF ns] if_P [OF ptr] m1(1) Option.bind.simps if_not_P [OF False] by blast
    qed
  next
    case other
    then show thesis using that [of True "it_array_size it" mem] unfolding d if_not_P [OF other(1)] if_not_P [OF other(2)] by simp
  qed
qed


lemma at_pos_array_size [simp]: "at_pos d a k (it\<lparr>it_array_size := n\<rparr>) = at_pos d a k it"
  by (simp add: at_pos_def)

lemma iter_pos:
  assumes "struct_ok d sz" "a \<noteq> 0" "a + sz \<le> length mem" "k < n_fields d"
  shows "at_pos d a k (iter_at mem d a k)"
  using iter_at_fields(1) [OF struct_okD(1) [OF assms(1)] struct_loadable [OF assms(1-3)] assms(2,4)] .

lemma defaults_loop_ok:
  assumes s: "struct_ok d sz" and a: "a \<noteq> 0" "a + sz \<le> hi" "lo \<le> a" and init: "init_safe (submsg_ok d) lo hi init"
  shows "k < n_fields d \<Longrightarrow> hi \<le> length mem \<Longrightarrow> \<exists>status it' mem'. defaults_loop app dec init (iter_at mem d a k) wt 0 ds mem
    = Some (status, it', mem') \<and> frame lo hi mem mem' \<and> (status \<longrightarrow> it' = iter_at mem' d a 0)"
proof (induction "n_fields d - k" arbitrary: k mem)
  case (Suc m)
  let ?it = "iter_at mem d a k"
  note f = struct_field_ok [OF s a Suc.prems(2,1)]
  obtain st n m1 where m1: "pb_field_set_to_default init ?it mem = Some (st, n, m1)" "frame lo hi mem m1"
    using field_default_ok [OF init f Suc.prems(2)] .
  show ?case
  proof (cases st)
    case False
    then show ?thesis using m1 by (subst defaults_loop.simps) auto
  next
    case True
    have len: "hi \<le> length m1" "a + sz \<le> length mem" "a + sz \<le> length m1" using m1(2) Suc.prems(2) a by (simp_all add: frame_def)
    note l = struct_loadable [OF s a(1) len(3)]
    have next': "pb_field_iter_next m1 (?it\<lparr>it_array_size := n\<rparr>) = Some (Suc k < n_fields d, iter_at m1 d a (succ_pos d k))"
      using iter_pos [OF s a(1) len(2) Suc.prems(1)]
      by (intro iter_next_any [OF struct_okD(1) [OF s] l a(1) Suc.prems(1)]) simp
    show ?thesis
    proof (cases "Suc k < n_fields d")
      case more: True
      obtain st' it' m2 where "defaults_loop app dec init (iter_at m1 d a (Suc k)) wt 0 ds m1 = Some (st', it', m2)"
        "frame lo hi m1 m2" "st' \<longrightarrow> it' = iter_at m2 d a 0"
        using Suc.hyps(1) [OF _ more len(1)] Suc.hyps(2) by fastforce
      then show ?thesis using m1 True next' more frame_trans [OF m1(2)]
        by (subst defaults_loop.simps) (simp add: Let_def succ_pos_def)
    next
      case False
      then show ?thesis using m1 True next' by (subst defaults_loop.simps) (auto simp: Let_def succ_pos_def)
    qed
  qed
qed simp

lemma set_to_defaults_ok:
  assumes s: "struct_ok d sz" and a: "a \<noteq> 0" "a + sz \<le> hi" "lo \<le> a" and init: "init_safe (submsg_ok d) lo hi init"
    and k: "0 < n_fields d" and mem: "hi \<le> length mem"
  obtains status it' mem' where "pb_message_set_to_defaults app dec init (iter_at mem d a 0) mem = Some (status, it', mem')"
    "frame lo hi mem mem'" "status \<longrightarrow> it' = iter_at mem' d a 0"
proof -
  have len: "a + sz \<le> length mem" using a mem by simp
  have "it_descriptor (iter_at mem d a 0) = d" using iter_pos [OF s a(1) len k] by (simp add: at_pos_def)
  then show thesis using that defaults_loop_ok [OF s a init k mem, of app dec] struct_okD(2) [OF s]
    by (fastforce simp: pb_message_set_to_defaults_def)
qed

lemma init_message_ok:
  "struct_ok d sz \<Longrightarrow> a \<noteq> 0 \<Longrightarrow> a + sz \<le> length mem \<Longrightarrow>
    \<exists>status mem'. init_message app dec d a mem = Some (status, mem') \<and> frame a (a + sz) mem mem'"
proof (induction "size d" arbitrary: d sz a mem rule: less_induct)
  case less
  note s = less.prems(1)
  show ?case
  proof (cases "n_fields d = 0")
    case True
    then show ?thesis using iter_begin_empty [OF True, of mem a] by (subst init_message.simps) auto
  next
    case False
    let ?init = "\<lambda>d' a' mem'. if d' \<in> set (submsg_info d) then init_message app dec d' a' mem' else None"
    have init: "init_safe (submsg_ok d) a (a + sz) ?init" unfolding init_safe_def
    proof (intro allI impI)
      fix d' n p and mem' :: bytes assume h: "submsg_ok d d' n" "a \<le> p" "p + n \<le> a + sz" "a + sz \<le> length mem'"
      then have d': "d' \<in> set (submsg_info d)" "struct_ok d' n" by (simp_all add: submsg_ok_def split: if_splits)
      have "p \<noteq> 0" "p + n \<le> length mem'" using h less.prems(2) by simp_all
      from less.hyps [OF size_submsg [OF d'(1)] d'(2) this]
      show "\<exists>status m. ?init d' p mem' = Some (status, m) \<and> frame p (p + n) mem' m" using d'(1) by simp
    qed
    have k: "0 < n_fields d" using False by simp
    obtain st it' m' where m: "pb_message_set_to_defaults app dec ?init (iter_at mem d a 0) mem = Some (st, it', m')"
      "frame a (a + sz) mem m'" using set_to_defaults_ok [OF s less.prems(2) order_refl order_refl init k less.prems(3)] .
    have "pb_field_iter_begin mem d a = Some (True, iter_at mem d a 0)"
      using iter_begin_at [OF struct_okD(1) [OF s] struct_loadable [OF s less.prems(2,3)] less.prems(2) k] .
    then show ?thesis using m by (subst init_message.simps) simp
  qed
qed

lemma init_message_safe:
  assumes "0 < lo" shows "init_safe (submsg_ok d) lo hi (init_message app dec)"
  unfolding init_safe_def
proof (intro allI impI)
  fix d' n p and mem :: bytes assume h: "submsg_ok d d' n" "lo \<le> p" "p + n \<le> hi" "hi \<le> length mem"
  have s: "struct_ok d' n" using h(1) by (simp add: submsg_ok_def split: if_splits)
  have "p \<noteq> 0" "p + n \<le> length mem" using h assms by simp_all
  from init_message_ok [OF s this] show "\<exists>status mem'. init_message app dec d' p mem = Some (status, mem') \<and> frame p (p + n) mem mem'" .
qed

section \<open>The loop over the stream\<close>

text \<open>The iterator at a field of the message, as the search left it.\<close>

definition iter_fit :: "pb_msgdesc \<Rightarrow> nat \<Rightarrow> nat \<Rightarrow> nat \<Rightarrow> pb_field_iter \<Rightarrow> bool" where
  "iter_fit d a lo hi it \<longleftrightarrow> it_descriptor it = d \<and> (if n_fields d = 0 then it_message it = a \<and> it_index it = 0 \<and> it_field_info_index it = 0
       \<and> it_tag it = 0 \<and> PB_LTYPE (it_type it) \<noteq> PB_LTYPE_EXTENSION
     else \<exists>k<n_fields d. at_pos d a k it \<and> it_tag it = fw_tag (field_at d k) \<and> field_ok (submsg_ok d) lo hi it)"

lemma iter_fit_at:
  assumes "struct_ok d sz" "a \<noteq> 0" "a + sz \<le> hi" "lo \<le> a" "hi \<le> length mem" "k < n_fields d"
  shows "iter_fit d a lo hi (iter_at mem d a k)"
proof -
  have len: "a + sz \<le> length mem" using assms by simp
  note it = iter_at_fields(1,2) [OF struct_okD(1) [OF assms(1)] struct_loadable [OF assms(1,2) len] assms(2,6)]
  show ?thesis using it struct_field_ok(1) [OF assms] assms(6) by (auto simp: iter_fit_def at_pos_def)
qed

lemma find_fit:
  assumes s: "struct_ok d sz" and a: "a \<noteq> 0" "a + sz \<le> hi" "lo \<le> a" "hi \<le> length mem" and it: "iter_fit d a lo hi it" and tag: "tag \<noteq> 0"
  obtains found it' where "pb_field_iter_find mem tag it = Some (found, it')" "iter_fit d a lo hi it'" "n_fields d = 0 \<longrightarrow> \<not> found"
proof (cases "n_fields d = 0")
  case True
  have i: "it_descriptor it = d" "it_tag it = 0" using it True by (simp_all add: iter_fit_def)
  have "largest_tag d = 0" using struct_okD(3) [OF s True] by simp
  then have "pb_field_iter_find mem tag it = Some (False, it)" using i tag by (simp add: pb_field_iter_find_def word_gt_0)
  then show thesis using that it by blast
next
  case False
  obtain k where k: "k < n_fields d" "at_pos d a k it" "it_tag it = fw_tag (field_at d k)" using it False by (auto simp: iter_fit_def)
  have len: "a + sz \<le> length mem" using a by simp
  note find = field_iter_find_any [OF struct_okD(1) [OF s] struct_loadable [OF s a(1) len] a(1) k, where tag = tag]
  have fit: "iter_fit d a lo hi (iter_at mem d a j)" if "j < n_fields d" for j using iter_fit_at [OF s a that] .
  show thesis
  proof (cases "\<exists>j<n_fields d. ucast (fw_tag (field_at d j)) = tag \<and> (j = k \<or> PB_LTYPE (fw_type (field_at d j)) \<noteq> PB_LTYPE_EXTENSION)")
    case True
    then obtain j where j: "j < n_fields d" "ucast (fw_tag (field_at d j)) = tag" "j = k \<or> PB_LTYPE (fw_type (field_at d j)) \<noteq> PB_LTYPE_EXTENSION"
      by blast
    then show thesis using that [of True "if j = k then it else iter_at mem d a j"] find(1) [OF j] it fit [OF j(1)] False by simp
  next
    case no: False
    have "pb_field_iter_find mem tag it = Some (False, it) \<or> pb_field_iter_find mem tag it = Some (False, iter_at mem d a k)"
      by (rule find(2)) (use no in auto)
    then show thesis using that it fit [OF k(1)] False by blast
  qed
qed

lemma find_extension_fit:
  assumes s: "struct_ok d sz" and a: "a \<noteq> 0" "a + sz \<le> hi" "lo \<le> a" "hi \<le> length mem" and it: "iter_fit d a lo hi it"
  obtains it' where "pb_field_iter_find_extension mem it = Some (False, it')" "iter_fit d a lo hi it'"
proof (cases "n_fields d = 0")
  case True
  have i: "it_descriptor it = d" "it_index it = 0" "PB_LTYPE (it_type it) \<noteq> PB_LTYPE_EXTENSION" using it True by (simp_all add: iter_fit_def)
  have fc: "field_count d = 0" using True by (simp add: unat_eq_zero)
  define it1 where "it1 = it\<lparr>it_index := 0, it_field_info_index := 0, it_submessage_index := 0, it_required_field_index := 0\<rparr>"
  have adv: "advance_iterator it = Some it1" using i fc by (simp add: advance_iterator_def it1_def)
  have info: "info_word d 0 = Some 0" using struct_okD(3) [OF s True] by simp
  have z: "PB_LTYPE (ucast (drop_bit 8 (0 :: u32) AND 0xFF)) \<noteq> PB_LTYPE_EXTENSION" by (simp add: type_masks ltype_defs)
  have load: "load_descriptor_values mem it1 = Some (False, it1)" using i(1) fc by (simp add: load_descriptor_values_def it1_def)
  have ix: "it_descriptor it1 = d" "it_field_info_index it1 = 0" "it_index it1 = 0" using i(1) by (simp_all add: it1_def)
  have "find_ext_loop mem 0 it = Some (False, it1)"
    using adv info z load ix by (subst find_ext_loop.simps) simp
  then have "pb_field_iter_find_extension mem it = Some (False, it1)" using i by (simp add: pb_field_iter_find_extension_def)
  moreover have "iter_fit d a lo hi it1" using it True by (simp add: iter_fit_def it1_def)
  ultimately show thesis using that by blast
next
  case False
  obtain k where pos: "k < n_fields d \<and> at_pos d a k it" and f: "field_ok (submsg_ok d) lo hi it" using it False by (auto simp: iter_fit_def)
  have "PB_LTYPE (it_type it) \<noteq> PB_LTYPE_EXTENSION" using f unfolding field_ok_def by blast
  with pos have k: "k < n_fields d" "at_pos d a k it" "PB_LTYPE (it_type it) \<noteq> PB_LTYPE_EXTENSION" by blast+
  have len: "a + sz \<le> length mem" using a by simp
  have none: "\<forall>j<n_fields d. PB_LTYPE (fw_type (field_at d j)) \<noteq> PB_LTYPE_EXTENSION"
    using struct_okD(4) [OF s] by (simp add: fits_in_def Let_def)
  show thesis
    by (rule that [OF find_extension_none [OF struct_okD(1) [OF s] struct_loadable [OF s a(1) len] a(1) k none] iter_fit_at [OF s a k(1)]])
qed


text \<open>A safe step whose value has a property.\<close>

definition dpost :: "('a \<Rightarrow> bool) \<Rightarrow> nat \<Rightarrow> nat \<Rightarrow> pb_dec \<Rightarrow> ('a, pb_dec) outcome \<Rightarrow> bool" where
  "dpost P lo hi ds res \<longleftrightarrow> dsafe lo hi ds res \<and> (\<forall>x ds'. res = Ok x ds' \<longrightarrow> P x)"

lemma dpost_simps [simp]:
  "dpost P lo hi ds (Ok x ds') \<longleftrightarrow> P x \<and> adv (dc_in ds) (dc_in ds') \<and> frame lo hi (dc_mem ds) (dc_mem ds')"
  "dpost P lo hi ds (Err ds') \<longleftrightarrow> within (dc_in ds) (dc_in ds') \<and> frame lo hi (dc_mem ds) (dc_mem ds')"
  "\<not> dpost P lo hi ds Undef" "dpost P lo hi ds (dc_error msg ds)"
  by (auto simp: dpost_def)

lemma dpost_bind:
  assumes "dpost P lo hi ds m" "dok n ds" "\<And>x ds'. P x \<Longrightarrow> dok n ds' \<Longrightarrow> adv (dc_in ds) (dc_in ds') \<Longrightarrow> dpost Q lo hi ds' (f x ds')"
  shows "dpost Q lo hi ds (pb_bind m f)"
proof (cases m)
  case (Ok x ds')
  then have x: "P x" "adv (dc_in ds) (dc_in ds')" "frame lo hi (dc_mem ds) (dc_mem ds')" using assms(1) by simp_all
  have "dpost Q lo hi ds' (f x ds')" using assms(3) [OF x(1) frame_dok [OF x(3,2) assms(2)] x(2)] .
  then have y: "dsafe lo hi ds' (f x ds')" "\<forall>y ds''. f x ds' = Ok y ds'' \<longrightarrow> Q y" by (simp_all add: dpost_def)
  have "dsafe lo hi ds (f x ds')" by (rule dsafe_trans [OF x(2,3) y(1)])
  with y(2) Ok show ?thesis by (simp add: dpost_def)
qed (use assms(1) in simp_all)

lemma dpost_seq:
  assumes "dpost P lo hi ds m" "dok n ds" "\<And>x ds'. P x \<Longrightarrow> dok n ds' \<Longrightarrow> dpost Q lo hi ds' (f x ds')"
  shows "dpost Q lo hi ds (pb_bind m f)"
  by (rule dpost_bind [OF assms(1,2)]) (rule assms(3))

lemma dpost_dsafe: "dsafe lo hi ds m \<Longrightarrow> dpost (\<lambda>_. True) lo hi ds m"
  by (simp add: dpost_def)

lemma dpost_if: "(c \<Longrightarrow> dpost P lo hi ds r) \<Longrightarrow> (\<not> c \<Longrightarrow> dpost P lo hi ds r') \<Longrightarrow> dpost P lo hi ds (if c then r else r')"
  by simp

definition inner_fit :: "pb_msgdesc \<Rightarrow> nat \<Rightarrow> nat \<Rightarrow> nat \<Rightarrow> pb_inner \<Rightarrow> bool" where
  "inner_fit d a lo hi st \<longleftrightarrow> iter_fit d a lo hi (in_iter st) \<and> in_extensions st = 0"

lemma decode_unknown_ok:
  assumes s: "struct_ok d sz" and a: "a \<noteq> 0" "a + sz \<le> hi" "lo \<le> a" and st: "inner_fit d a lo hi st" and ok: "dok hi ds"
  shows "dpost (inner_fit d a lo hi) lo hi ds (decode_unknown tag wt st ds)"
proof -
  have skip: "dpost (inner_fit d a lo hi) lo hi ds (if tag \<ge> in_extension_range_start st' \<and> in_extensions st' \<noteq> 0 then Undef
       else pb_bind (on_stream (pb_skip_field wt) ds) (\<lambda>_ ds. Ok st' ds))" if "inner_fit d a lo hi st'" for st'
  proof -
    have "dsafe lo hi ds (on_stream (pb_skip_field wt) ds)" using ok by (auto intro: dsafe_reader safes)
    then have "dpost (inner_fit d a lo hi) lo hi ds (pb_bind (on_stream (pb_skip_field wt) ds) (\<lambda>_ ds. Ok st' ds))"
      by (rule dpost_seq [OF dpost_dsafe ok]) (use that in simp)
    then show ?thesis using that by (simp add: inner_fit_def)
  qed
  have i: "iter_fit d a lo hi (in_iter st)" "in_extensions st = 0" using st by (simp_all add: inner_fit_def)
  show ?thesis
  proof (cases "in_extension_range_start st = 0")
    case False
    then show ?thesis using skip [OF st] by (simp add: decode_unknown_def)
  next
    case True
    have len: "hi \<le> length (dc_mem ds)" using ok by (simp add: dok_def)
    obtain it' where it': "pb_field_iter_find_extension (dc_mem ds) (in_iter st) = Some (False, it')" "iter_fit d a lo hi it'"
      using find_extension_fit [OF s a len i(1)] .
    have "inner_fit d a lo hi (st\<lparr>in_iter := it', in_extension_range_start := - 1\<rparr>)" using it'(2) i(2) by (simp add: inner_fit_def)
    from skip [OF this] show ?thesis using True it'(1) i(2) by (simp add: decode_unknown_def Let_def)
  qed
qed

lemma field_ok_fixed:
  "field_ok rec lo hi it \<Longrightarrow> it_pSize it = SizeArray \<Longrightarrow> field_ok rec lo hi (it\<lparr>it_pSize := SizeFixed\<rparr>)"
  by (auto simp: field_ok_def static_ok_def entry_ok_def array_end_def has_counter_def htype_defs)

lemma bind_dc_error [simp]: "pb_bind (dc_error msg ds) f = dc_error msg ds"
  by (simp add: dc_error_def on_stream_def is_error_def)

lemma track_fixed_ok:
  assumes st: "inner_fit d a lo hi st" "n_fields d \<noteq> 0" and ok: "dok hi ds"
  shows "dpost (\<lambda>st. inner_fit d a lo hi st \<and> it_pSize (in_iter st) \<noteq> SizeArray) lo hi ds (track_fixed st ds)"
proof -
  let ?it = "in_iter st"
  have i: "iter_fit d a lo hi ?it" "in_extensions st = 0" using st(1) by (simp_all add: inner_fit_def)
  then have f: "field_ok (submsg_ok d) lo hi ?it" using st(2) by (auto simp: iter_fit_def)
  show ?thesis
  proof (cases "it_pSize ?it = SizeArray")
    case False
    then show ?thesis using st(1) by (simp add: track_fixed_def Let_def)
  next
    case True
    have r: "PB_HTYPE (it_type ?it) = PB_HTYPE_REPEATED" using f True by (simp add: field_ok_def)
    have "iter_fit d a lo hi (?it\<lparr>it_pSize := SizeFixed\<rparr>)"
      using i(1) field_ok_fixed [OF f True] st(2) by (auto simp: iter_fit_def at_pos_def)
    then have fin: "inner_fit d a lo hi (st'\<lparr>in_iter := ?it\<lparr>it_pSize := SizeFixed\<rparr>\<rparr>)" if "in_extensions st' = 0" for st'
      using that by (simp add: inner_fit_def)
    show ?thesis using True r i(2) fin by (simp add: track_fixed_def Let_def)
  qed
qed

lemma mark_seen_fit [simp]: "inner_fit d a lo hi (mark_seen st) = inner_fit d a lo hi st" "in_iter (mark_seen st) = in_iter st"
  by (simp_all add: mark_seen_def inner_fit_def Let_def)

lemma decode_tagged_ok:
  assumes s: "struct_ok d sz" and a: "a \<noteq> 0" "a + sz \<le> hi" "lo \<le> a" and app: "app_ok app"
    and dec: "dec_safe (submsg_ok d) lo hi dec" and init: "init_safe (submsg_ok d) lo hi init"
    and st: "inner_fit d a lo hi st" and tag: "tag \<noteq> 0" and ok: "dok hi ds"
  shows "dpost (inner_fit d a lo hi) lo hi ds (decode_tagged app dec init tag wt st ds)"
proof -
  have i: "iter_fit d a lo hi (in_iter st)" "in_extensions st = 0" using st by (simp_all add: inner_fit_def)
  have len: "hi \<le> length (dc_mem ds)" using ok by (simp add: dok_def)
  obtain found it where it: "pb_field_iter_find (dc_mem ds) tag (in_iter st) = Some (found, it)" "iter_fit d a lo hi it"
    "n_fields d = 0 \<longrightarrow> \<not> found" using find_fit [OF s a len i(1) tag] .
  let ?st = "st\<lparr>in_iter := it\<rparr>"
  have fit: "inner_fit d a lo hi ?st" using it(2) i(2) by (simp add: inner_fit_def)
  have rest: "dpost (inner_fit d a lo hi) lo hi ds (pb_bind (track_fixed ?st ds) (\<lambda>st ds. let st = mark_seen st in
         pb_bind (decode_field app dec init wt (in_iter st) ds) (\<lambda>_ ds. Ok st ds)))" if n: "n_fields d \<noteq> 0"
  proof (rule dpost_seq [OF track_fixed_ok [OF fit n ok] ok])
    fix st' ds' assume st': "inner_fit d a lo hi st' \<and> it_pSize (in_iter st') \<noteq> SizeArray" and ok': "dok hi ds'"
    then have "field_ok (submsg_ok d) lo hi (in_iter st')" using n by (auto simp: inner_fit_def iter_fit_def)
    then have "dsafe lo hi ds' (decode_field app dec init wt (in_iter st') ds')"
      using st' by (intro dsafe_field [OF app dec init _ _ ok']) simp_all
    then have "dpost (inner_fit d a lo hi) lo hi ds' (pb_bind (decode_field app dec init wt (in_iter st') ds') (\<lambda>_ ds. Ok (mark_seen st') ds))"
      by (rule dpost_seq [OF dpost_dsafe ok']) (use st' in simp)
    then show "dpost (inner_fit d a lo hi) lo hi ds' (let st = mark_seen st' in pb_bind (decode_field app dec init wt (in_iter st) ds') (\<lambda>_ ds. Ok st ds))"
      by (simp add: Let_def)
  qed
  show ?thesis unfolding decode_tagged_def it(1) need_simps pb_bind_simps case_prod_conv Let_def
    using rest it(3) decode_unknown_ok [OF s a fit ok] unfolding Let_def by (intro dpost_if) auto
qed

lemma inner_loop_ok:
  assumes s: "struct_ok d sz" and a: "a \<noteq> 0" "a + sz \<le> hi" "lo \<le> a" and app: "app_ok app"
    and dec: "dec_safe (submsg_ok d) lo hi dec" and init: "init_safe (submsg_ok d) lo hi init"
  shows "inner_fit d a lo hi st \<Longrightarrow> dok hi ds \<Longrightarrow> dpost (inner_fit d a lo hi) lo hi ds (inner_loop app dec init flags st ds)"
proof (induction "unat (is_bytes_left (dc_in ds))" arbitrary: st ds rule: less_induct)
  case less
  let ?P = "inner_fit d a lo hi"
  note st = less.prems(1) and ok = less.prems(2)
  have sok: "is_ok (dc_in ds)" using dok_stream [OF ok] .
  show ?case
  proof (cases "is_bytes_left (dc_in ds) = 0")
    case True
    then show ?thesis using st by (subst inner_loop.simps) simp
  next
    case left: False
    have "input (dc_in ds) \<noteq> []" using length_input [OF sok] left by (auto simp: unat_eq_zero)
    then have eof: "\<not> snd (pb_decode_tag (dc_in ds))"
      using pb_decode_varint32_eof_snd [OF sok] by (simp add: pb_decode_tag_def case_prod_beta)
    have safe: "safe (dc_in ds) (fst (pb_decode_tag (dc_in ds)))" using safe_decode_tag [OF sok] .
    show ?thesis
    proof (cases "fst (pb_decode_tag (dc_in ds))")
      case (Ok wt_tag s1)
      obtain wt tag where wt: "wt_tag = (wt, tag)" by (cases wt_tag)
      have t: "pb_decode_tag (dc_in ds) = (Ok (wt, tag) s1, False)" using Ok wt eof by (metis prod.collapse)
      have adv: "adv (dc_in ds) s1" and lt: "unat (is_bytes_left s1) < unat (is_bytes_left (dc_in ds))"
        using safe Ok decode_tag_less [OF Ok] by simp_all
      let ?ds = "ds\<lparr>dc_in := s1\<rparr>"
      have ok1: "dok hi ?ds" by (rule frame_dok [OF _ _ ok, where lo = lo and hi = hi]) (simp_all add: adv)
      have lft: "dpost ?P lo hi ds res" if "dpost ?P lo hi ?ds res" for res
        using that dsafe_trans [of ds ?ds lo hi res] adv by (simp add: dpost_def)
      show ?thesis
      proof (cases "tag = 0")
        case True
        then show ?thesis using left t st adv lft [OF dpost_simps(4)] by (subst inner_loop.simps) simp
      next
        case False
        have "dpost ?P lo hi ?ds (pb_bind (decode_tagged app dec init tag wt st ?ds) (\<lambda>st ds1.
            if unat (is_bytes_left (dc_in ds1)) < unat (is_bytes_left (dc_in ds))
            then inner_loop app dec init flags st ds1 else Undef))"
        proof (rule dpost_bind [OF decode_tagged_ok [OF s a app dec init st False ok1] ok1])
          fix st' ds' assume h: "?P st'" "dok hi ds'" "adv (dc_in ?ds) (dc_in ds')"
          have "unat (is_bytes_left (dc_in ds')) < unat (is_bytes_left (dc_in ds))" using h(3) lt by (auto simp: adv_def)
          then show "dpost ?P lo hi ds' (if unat (is_bytes_left (dc_in ds')) < unat (is_bytes_left (dc_in ds))
            then inner_loop app dec init flags st' ds' else Undef)" using less.hyps [of ds' st'] h(1,2) by simp
        qed
        from lft [OF this] show ?thesis using left t False by (subst inner_loop.simps) simp
      qed
    next
      case (Err s1)
      then have "pb_decode_tag (dc_in ds) = (Err s1, False)" using eof by (metis prod.collapse)
      then show ?thesis using left safe Err by (subst inner_loop.simps) simp
    next
      case Undef
      then show ?thesis using safe by simp
    qed
  qed
qed

lemma inner_checks_ok: "dsafe lo hi ds (inner_checks st ds)"
  by (simp add: inner_checks_def)

lemma iter_begin_fit_empty:
  assumes "n_fields d = 0"
  obtains it where "pb_field_iter_begin mem d a = Some (False, it)" "iter_fit d a lo hi it"
proof -
  have "field_count d = 0" using assms by (simp add: unat_eq_zero)
  then show thesis using that assms
    by (simp add: pb_field_iter_begin_def load_descriptor_values_def iter_fit_def type_masks ltype_defs)
qed

text \<open>What comes after the initialisation.\<close>

lemma after_init_ok:
  assumes s: "struct_ok d sz" and a: "a \<noteq> 0" and app: "app_ok app" and dec: "dec_safe (submsg_ok d) a (a + sz) dec"
    and init: "init_safe (submsg_ok d) a (a + sz) init" and it: "iter_fit d a a (a + sz) it" and ok: "dok (a + sz) ds"
  shows "dsafe a (a + sz) ds (pb_bind (inner_loop app dec init flags
       \<lparr>in_iter = it, in_extension_range_start = 0, in_extensions = 0, in_fixed_count_field = PB_SIZE_MAX,
        in_fixed_count_total_size = 0, in_fields_seen = [0, 0]\<rparr> (ds\<lparr>dc_fixed := 0\<rparr>))
     (\<lambda>st ds1. pb_bind (inner_checks st ds1) (\<lambda>_ ds1. Ok () (ds1\<lparr>dc_fixed := dc_fixed ds\<rparr>))))" (is "dsafe _ _ _ ?res")
proof -
  let ?ds = "ds\<lparr>dc_fixed := 0\<rparr>"
  have ok0: "dok (a + sz) ?ds" using ok by (simp add: dok_def)
  let ?st = "\<lparr>in_iter = it, in_extension_range_start = 0, in_extensions = 0, in_fixed_count_field = PB_SIZE_MAX,
        in_fixed_count_total_size = 0, in_fields_seen = [0, 0 :: u32]\<rparr>"
  have fit: "inner_fit d a a (a + sz) ?st" using it by (simp add: inner_fit_def)
  have "dsafe a (a + sz) ?ds (inner_loop app dec init flags ?st ?ds)"
    using inner_loop_ok [OF s a _ _ app dec init fit ok0, of flags] by (simp add: dpost_def)
  then have "dsafe a (a + sz) ?ds ?res"
    by (rule dsafe_seq [OF _ ok0]) (auto intro!: dsafe_seq [OF inner_checks_ok])
  then show ?thesis by (rule dsafe_trans [rotated 2]) simp_all
qed

lemma pb_decode_inner_safe:
  assumes app: "app_ok app"
  shows "struct_ok d sz \<Longrightarrow> a \<noteq> 0 \<Longrightarrow> dok (a + sz) ds \<Longrightarrow> dsafe a (a + sz) ds (pb_decode_inner app d a flags ds)"
proof (induction "size d" arbitrary: d sz a flags ds rule: less_induct)
  case less
  note s = less.prems(1) and a = less.prems(2) and ok = less.prems(3)
  define dec where "dec = (\<lambda>d' a' flags' ds'. if size d' < size d then pb_decode_inner app d' a' flags' ds' else Undef)"
  have dec: "dec_safe (submsg_ok d) a (a + sz) dec"
    unfolding dec_safe_def
  proof (intro allI impI)
    fix d' n p flags' ds' assume h: "submsg_ok d d' n" "a \<le> p" "p + n \<le> a + sz" "dok (a + sz) ds'"
    have d': "d' \<in> set (submsg_info d)" "struct_ok d' n" using h(1) by (simp_all add: submsg_ok_def split: if_splits)
    have "dok (p + n) ds'" "p \<noteq> 0" using h a by (simp_all add: dok_def)
    then show "dsafe p (p + n) ds' (dec d' p flags' ds')"
      using less.hyps [OF size_submsg [OF d'(1)] d'(2)] size_submsg [OF d'(1)] by (simp add: dec_def)
  qed
  have init: "init_safe (submsg_ok d) a (a + sz) (init_message app dec)" using init_message_safe a by simp
  note rest = after_init_ok [OF s a app dec init]
  show ?case
  proof (cases "n_fields d = 0")
    case True
    obtain it where it: "pb_field_iter_begin (dc_mem ds) d a = Some (False, it)" "iter_fit d a a (a + sz) it"
      using iter_begin_fit_empty [OF True] .
    then show ?thesis using rest [OF it(2) ok] by (subst pb_decode_inner.simps) (simp add: dec_def Let_def)
  next
    case False
    have len: "a + sz \<le> length (dc_mem ds)" using ok by (simp add: dok_def)
    have pos: "0 < n_fields d" using False by simp
    have begin_eq: "pb_field_iter_begin (dc_mem ds) d a = Some (True, iter_at (dc_mem ds) d a 0)"
      using iter_begin_at [OF struct_okD(1) [OF s] struct_loadable [OF s a len] a pos] .
    have at0: "iter_fit d a a (a + sz) (iter_at mem d a 0)" if "a + sz \<le> length mem" for mem
      using iter_fit_at [OF s a _ _ that pos] by simp
    obtain status it' mem' where def: "pb_message_set_to_defaults app dec (init_message app dec) (iter_at (dc_mem ds) d a 0) (dc_mem ds)
        = Some (status, it', mem')" "frame a (a + sz) (dc_mem ds) mem'" "status \<longrightarrow> it' = iter_at mem' d a 0"
      using set_to_defaults_ok [OF s a _ _ init pos len] by blast
    have "length mem' = length (dc_mem ds)" using def(2) by (simp add: frame_def)
    then have ok': "dok (a + sz) (ds\<lparr>dc_mem := mem'\<rparr>)" and len': "a + sz \<le> length mem'" using ok len by (simp_all add: dok_def)
    have lft: "dsafe a (a + sz) ds res" if "dsafe a (a + sz) (ds\<lparr>dc_mem := mem'\<rparr>) res" for res :: "(unit, pb_dec) outcome"
      using dsafe_trans [of ds "ds\<lparr>dc_mem := mem'\<rparr>" a "a + sz" res] that def(2) by simp
    show ?thesis
    proof (cases "flags AND PB_DECODE_NOINIT = 0")
      case True
      show ?thesis
      proof (cases status)
        case st: True
        show ?thesis using lft [OF rest [OF at0 [OF len'] ok', of flags]] True st def(1,3) begin_eq
          by (subst pb_decode_inner.simps) (simp add: dec_def [symmetric] Let_def)
      next
        case False
        show ?thesis using lft [OF dsafe_error] True False def(1) begin_eq
          by (subst pb_decode_inner.simps) (simp add: dec_def [symmetric] Let_def)
      qed
    next
      case False
      show ?thesis using rest [OF at0 [OF len] ok, of flags] False begin_eq
        by (subst pb_decode_inner.simps) (simp add: dec_def [symmetric] Let_def)
    qed
  qed
qed

section \<open>What callers see\<close>

lemma pb_decode_ex_dsafe:
  assumes "struct_ok d sz" "app_ok app" "a \<noteq> 0" "dok (a + sz) ds"
  shows "dsafe a (a + sz) ds (pb_decode_ex app d a flags ds)"
proof -
  have "dsafe a (a + sz) ds (in_substream (pb_decode_inner app d a flags) close_with ds)"
    by (rule dsafe_in_substream [OF assms(4) _ pb_decode_inner_safe [OF assms(2,1,3)]]) (simp add: ends_substream_def)
  then show ?thesis using pb_decode_inner_safe [OF assms(2,1,3,4)] by (simp add: pb_decode_ex_def)
qed

text \<open>
  C39. Decoding is safe on every input. Let the descriptor describe a structure of \<open>sz\<close> bytes: each field, its counter
  and its flag inside, also in nested messages; no extension ranges, no explicit default values, and no field whose
  decoder is a function pointer in the structure, which the caller must have set. Let the descriptors' own field callbacks
  keep to their field and to the stream. Then \<open>pb_decode_ex\<close>, with any flags, of which 0 is \<open>pb_decode\<close>, ends for every
  stream and every earlier content of the memory with success or an error; no read or write of memory is out of bounds,
  it writes only into the structure, and the stream moves forward, by no more than its bytes.
\<close>

theorem pb_decode_ex_safe:
  assumes "struct_ok d sz" "a \<noteq> 0" "a + sz \<le> length (dc_mem ds)" "is_ok (dc_in ds)" "app_ok app"
  shows "\<exists>ds'. (pb_decode_ex app d a flags ds = Ok () ds' \<or> pb_decode_ex app d a flags ds = Err ds')
    \<and> within (dc_in ds) (dc_in ds') \<and> frame a (a + sz) (dc_mem ds) (dc_mem ds')"
proof -
  have "dsafe a (a + sz) ds (pb_decode_ex app d a flags ds)"
    using assms by (intro pb_decode_ex_dsafe) (simp_all add: dok_def)
  then show ?thesis by (cases "pb_decode_ex app d a flags ds") (auto intro: adv_within)
qed

definition ex_app :: pb_app where
  "ex_app = \<lparr>app_decode = \<lambda>_. None, app_field = \<lambda>_. Ok ()\<rparr>"

lemma ex_app_ok: "app_ok ex_app"
  by (simp add: app_ok_def ex_app_def)

lemma ex_struct_ok: "struct_ok ex_sub 4" "struct_ok ex_desc 20"
proof -
  have default_sub: "default_value ex_sub = None" by (simp add: ex_sub_def)
  show s: "struct_ok ex_sub 4"
    by (subst struct_ok.simps) (simp add: ex_ok ex_n ex_count fits_in_def ex_facts Let_def PB_LTYPE_IS_SUBMSG_def type_masks ltype_defs htype_defs
      atype_defs word_pos.simps(1) default_sub sub_before.simps(1) del: word_pos.simps(2) sub_before.simps(2))
  let ?rec = "\<lambda>d' n. if d' \<in> set (submsg_info ex_desc) then struct_ok d' n else False"
  have "fits_in ?rec ex_desc 20 0" "fits_in ?rec ex_desc 20 (Suc 0)" "fits_in ?rec ex_desc 20 (Suc (Suc 0))"
    by (simp_all add: fits_in_def ex_facts Let_def PB_LTYPE_IS_SUBMSG_def type_masks ltype_defs htype_defs
      atype_defs word_pos.simps(1) sub_before.simps(1) s del: word_pos.simps(2) sub_before.simps(2))
  then have "\<forall>k<n_fields ex_desc. fits_in ?rec ex_desc 20 k" unfolding ex_n All_less_Suc by blast
  moreover have "n_fields ex_desc \<noteq> 0" unfolding ex_n by simp
  ultimately show "struct_ok ex_desc 20"
    unfolding struct_ok.simps [of ex_desc] using ex_ok(1) ex_count(7) by blast
qed

theorem pb_decode_ex_safe_witness:
  "\<exists>ds'. (pb_decode_ex ex_app ex_desc 16 PB_DECODE_DELIMITED
        \<lparr>dc_in = pb_istream_from_buffer [3, 10, 250, 1] 4, dc_mem = replicate 40 7, dc_fixed = 0\<rparr> = Ok () ds'
      \<or> pb_decode_ex ex_app ex_desc 16 PB_DECODE_DELIMITED
        \<lparr>dc_in = pb_istream_from_buffer [3, 10, 250, 1] 4, dc_mem = replicate 40 7, dc_fixed = 0\<rparr> = Err ds')
    \<and> within (pb_istream_from_buffer [3, 10, 250, 1] 4) (dc_in ds') \<and> frame 16 36 (replicate 40 7) (dc_mem ds')"
  using pb_decode_ex_safe [OF ex_struct_ok(2) _ _ _ ex_app_ok, of 16
    "\<lparr>dc_in = pb_istream_from_buffer [3, 10, 250, 1] 4, dc_mem = replicate 40 7, dc_fixed = 0\<rparr>" PB_DECODE_DELIMITED]
  by (simp add: is_ok_def pb_istream_from_buffer_def)

end
