(* ===== verification/Spec2Isabelle.thy ===== *)
theory Spec2Isabelle
  imports MmemDebug LockFreeQueue OsalPosix OsalMq OsalFreertos Simulation NetxWait NetxSock KcpFlush ElogHex ElogBuf ElogFile PbDecodeMsg
begin

text \<open>
  A verification development of the fwk framework.

  The program. \<open>frameworks/mlib\<close> holds the framework's own libraries: the intrusive list
  \<open>mlist\<close>, the debugging allocator \<open>mmem_debug\<close> (its block table is an \<open>mlist\<close>), the operating
  system abstraction \<open>osal\<close> with a POSIX and a FreeRTOS implementation (whose POSIX message queue
  is built on the lock-free queue of \<open>osal_lock_free_queue.c\<close>), and the socket library \<open>netx\<close>.
  \<open>frameworks/elib\<close> holds libraries the framework ships; of these the logger EasyLogger runs
  with the ports of \<open>easylogger/port\<close> on the mutexes of \<open>osal\<close>, and nanopb encodes and decodes
  protocol buffers between byte streams and structures that descriptors describe. \<open>application/examples/kcp_test\<close>
  carries the reliable transport \<open>ikcp\<close>, which its two programs run over UDP sockets.

  Conventions. A C function is a function on an explicit state that returns \<open>None\<close> where the code
  has undefined behaviour or blocks for ever, and a result beside the new state otherwise. Machine
  integers are words of their width; \<open>size_t\<close> and \<open>unsigned long\<close> have 64 bits; signed integers
  that cannot overflow on the paths modelled are integers. Memory is a list of bytes or a finite
  map of objects, address 0 being \<open>NULL\<close>. Answers of the C library and the kernel are read from an
  oracle over which the theorems quantify (theory Sys), or are arguments.

  The theories and the code.
    Prelude: words, memory as lists, partial programs. Simulation: the contract that the operations
      of a state refine those of an abstract one, and what follows for runs (a locale, interpreted
      by NetxPoll, ElogCore and ElogFile). Fifo: circular arrays read as lists, and the contracts of a bounded
      queue of messages and of a pipe of bytes (locales, interpreted by LockFreeQueue, OsalMq and
      ElogAsync). Sys: calls whose answers are the system's.
    Mlist: \<open>mlist.h\<close> on a heap of nodes; it implements sequences.
    MmemDebug: \<open>mmem_debug.c\<close>, \<open>mmem_dump.h\<close>, \<open>adapter.c\<close>: the block table is consistent in every
      reachable state; allocation, reallocation, release, overruns, dumps.
    LockFreeQueue: \<open>osal_lock_free_queue.c\<close>: a queue of at most one message less than its cells;
      the interleavings of one producer and one consumer.
    OsalPosix, OsalMq, OsalFreertos: \<open>osal_posix.c\<close> and \<open>osal_freertos.c\<close>: resources on every
      error path, deadlines, both message queues.
    NetxPoll, NetxWait, NetxSock: \<open>netx.c\<close>: the poll objects with their hash table and free list
      refine a map from descriptors to events; \<open>netx_wait\<close> over \<open>select\<close>; sockets and addresses.
    KcpData, KcpRecv, KcpSend, KcpInput, KcpFlush: \<open>ikcp.c\<close>: the wire format, the reorder buffer and
      delivery, fragmentation, acknowledgements and the round-trip estimate, the framing of
      datagrams, flushing, the window and the clock.
    ElogData, ElogAsync, ElogCore, ElogLine, ElogHex: \<open>elog_utils.c\<close>, \<open>elog_async.c\<close>, \<open>elog.c\<close> with
      \<open>elog_port.c\<close> and the configuration \<open>elog_cfg.h\<close>: the ring and its thread (a step relation),
      settings and the lock, the lines of the log, the hex dump with its 16-bit counter.
    ElogBuf, ElogFile: \<open>elog_buf.c\<close> for any size of its buffer, and \<open>elog_file.c\<close> over a file system of
      names and files: the rotation shifts the generations and keeps the end of what was written.

    PbStream, PbVarint, PbWire: the streams, numbers and wire format of \<open>pb_encode.c\<close> and \<open>pb_decode.c\<close>;
      what is written is read back, and reading is safe whatever the bytes are. PbIter: the descriptors
      of \<open>pb.h\<close> and the iterator of \<open>pb_common.c\<close>, whose search is a linear search. PbEncode,
      PbEncodeWire, PbMessage: the encoder of messages, which writes the reference wire form. PbDecode: the decoder
      of messages; PbDecodeSafe, PbDecodeTotal, PbDecodeMsg: for structures without extension ranges, explicit default
      values and pointers to decoders, it is defined on every input and writes only into the structure.

  Loops. Loops over lists in memory are \<open>partial_function (option)\<close> or structural recursions over
  the list that the heap represents; loops over counters are structural. The main loop of
  \<open>ikcp_input\<close> is bounded by the length of the datagram and shown to end.

  Not modelled. \<open>netx.c\<close>: the platform wrappers of Windows and the build with the kernel's own
  \<open>epoll\<close>, which only forwards. \<open>ikcp.c\<close>: allocator hooks, logging, \<open>ikcp_release\<close>. The
  assertion hook of EasyLogger. nanopb: streams with a callback of the application,
  registered extensions, pointer fields in the decoder (they need the heap, which the default build leaves out)
  and \<open>pb_release\<close>; functions of the application in callback fields are a parameter of the decoder
  (a call of an address that is none of them is undefined), and the encoder is
  modelled where there are none. Its generator (Python), quirc, CUnit and its user interfaces: libraries that are shipped unchanged
  and that no code of the framework calls. FlashDB: a
  submodule that is not part of the repository, with an empty port. The test suites, the programs
  of the examples, and \<open>osal/tmp\<close>, a collection of operating system fragments that no target builds.
\<close>

end
